(* ===== verification/Prelude.thy ===== *)
theory Prelude
  imports Main "HOL-Library.Word" "HOL-Library.AList"
begin

text \<open>
  Shared vocabulary of the development: Go's machine integers, byte slices, time and
  duration values, the contract of the concurrent map \<^verbatim>\<open>zMap.TypedMap\<close> (a package of zUtil,
  outside this repository, hence a parameter), and the generic lemmas on words, slices and
  association lists that the component theories use.
\<close>

unbundle bit_operations_syntax

section \<open>Lemma collections\<close>

named_theorems bytes_simps \<open>byte-slice and byte-order rewriting\<close>
named_theorems tm_simps \<open>rewriting of typed-map operations through their lookup function\<close>

section \<open>Go's integers\<close>

type_synonym byte = "8 word"
type_synonym int32 = "32 word"
type_synonym uint32 = "32 word"
type_synonym int64 = "64 word"
type_synonym uint64 = "64 word"

text \<open>
  A signed Go integer is the word of its width; \<^const>\<open>sint\<close> reads it. Converting a Go
  \<^verbatim>\<open>int\<close> to \<^verbatim>\<open>int32\<close> keeps the low 32 bits.
\<close>

definition to_int32 :: "int \<Rightarrow> int32" where
  "to_int32 i = word_of_int i"

lemma sint_to_int32 [simp]:
  assumes "- (2 ^ 31) \<le> i" "i < 2 ^ 31"
  shows "sint (to_int32 i) = i"
  using assms by (simp add: to_int32_def sint_sbintrunc' signed_take_bit_int_eq_self)

lemma to_int32_sint [simp]: "to_int32 (sint w) = w"
  by (simp add: to_int32_def)

lemma sint_int32_bounds: "- (2 ^ 31) \<le> sint (w :: int32) \<and> sint w < 2 ^ 31"
  using sint_greater_eq [of w] sint_less [of w] by simp

section \<open>Byte slices\<close>

text \<open>\<^verbatim>\<open>s[i:j]\<close>, used only where \<^verbatim>\<open>j\<close> is known to be in range.\<close>

definition subslice :: "nat \<Rightarrow> nat \<Rightarrow> 'a list \<Rightarrow> 'a list" where
  "subslice i j xs = take (j - i) (drop i xs)"

text \<open>Writing a run of bytes into a buffer at an offset.\<close>

definition put_at :: "nat \<Rightarrow> 'a list \<Rightarrow> 'a list \<Rightarrow> 'a list" where
  "put_at off bs buf = take off buf @ bs @ drop (off + length bs) buf"

lemma length_subslice [simp]: "j \<le> length xs \<Longrightarrow> length (subslice i j xs) = j - i"
  by (simp add: subslice_def)

lemma length_put_at [simp]:
  "off + length bs \<le> length buf \<Longrightarrow> length (put_at off bs buf) = length buf"
  by (simp add: put_at_def)

lemma put_at_append:
  "length pre = off \<Longrightarrow> put_at off bs (pre @ mid @ post) = pre @ bs @ drop (length bs) (mid @ post)"
  by (simp add: put_at_def)

lemma put_at_fill:
  "length pre = off \<Longrightarrow> put_at off bs (pre @ replicate n x) = (pre @ bs) @ replicate (n - length bs) x"
  by (simp add: put_at_def)

lemma put_at_fill0: "put_at 0 bs (replicate n x) = bs @ replicate (n - length bs) x"
  by (simp add: put_at_def)

lemma subslice_append_prefix:
  "length pre = i \<Longrightarrow> j = i + length mid \<Longrightarrow> subslice i j (pre @ mid @ post) = mid"
  by (simp add: subslice_def)

lemma subslice_split: "i \<le> j \<Longrightarrow> drop i xs = subslice i j xs @ drop j xs"
  by (metis append_take_drop_id drop_drop le_add_diff_inverse2 subslice_def)

lemma subslice_join:
  assumes "i \<le> j" "j \<le> k"
  shows "subslice i j xs @ subslice j k xs = subslice i k xs"
proof -
  have d: "drop j xs = drop (j - i) (drop i xs)" and k: "k - i = (j - i) + (k - j)"
    using assms by simp_all
  show ?thesis unfolding subslice_def d k take_add by simp
qed

lemma subslice_0: "subslice 0 n xs = take n xs"
  by (simp add: subslice_def)

section \<open>Byte orders\<close>

datatype byte_order = LittleEndian | BigEndian

text \<open>\<^verbatim>\<open>encoding/binary\<close>: \<^verbatim>\<open>PutUint32\<close>, \<^verbatim>\<open>Uint32\<close> and their 64-bit versions.\<close>

definition le_put32 :: "32 word \<Rightarrow> byte list" where
  "le_put32 v = [ucast v, ucast (drop_bit 8 v), ucast (drop_bit 16 v), ucast (drop_bit 24 v)]"

definition le_get32 :: "byte list \<Rightarrow> 32 word" where
  "le_get32 b = ucast (b ! 0) OR push_bit 8 (ucast (b ! 1)) OR push_bit 16 (ucast (b ! 2))
     OR push_bit 24 (ucast (b ! 3))"

definition le_put64 :: "64 word \<Rightarrow> byte list" where
  "le_put64 v = [ucast v, ucast (drop_bit 8 v), ucast (drop_bit 16 v), ucast (drop_bit 24 v),
     ucast (drop_bit 32 v), ucast (drop_bit 40 v), ucast (drop_bit 48 v), ucast (drop_bit 56 v)]"

definition le_get64 :: "byte list \<Rightarrow> 64 word" where
  "le_get64 b = ucast (b ! 0) OR push_bit 8 (ucast (b ! 1)) OR push_bit 16 (ucast (b ! 2))
     OR push_bit 24 (ucast (b ! 3)) OR push_bit 32 (ucast (b ! 4)) OR push_bit 40 (ucast (b ! 5))
     OR push_bit 48 (ucast (b ! 6)) OR push_bit 56 (ucast (b ! 7))"

fun PutUint32 :: "byte_order \<Rightarrow> 32 word \<Rightarrow> byte list" where
  "PutUint32 LittleEndian v = le_put32 v"
| "PutUint32 BigEndian v = rev (le_put32 v)"

fun Uint32 :: "byte_order \<Rightarrow> byte list \<Rightarrow> 32 word" where
  "Uint32 LittleEndian b = le_get32 b"
| "Uint32 BigEndian b = le_get32 (rev b)"

fun PutUint64 :: "byte_order \<Rightarrow> 64 word \<Rightarrow> byte list" where
  "PutUint64 LittleEndian v = le_put64 v"
| "PutUint64 BigEndian v = rev (le_put64 v)"

fun Uint64 :: "byte_order \<Rightarrow> byte list \<Rightarrow> 64 word" where
  "Uint64 LittleEndian b = le_get64 b"
| "Uint64 BigEndian b = le_get64 (rev b)"

lemma length_le_put [simp]: "length (le_put32 v) = 4" "length (le_put64 w) = 8"
  by (simp_all add: le_put32_def le_put64_def)

lemma length_PutUint [simp]: "length (PutUint32 bo v) = 4" "length (PutUint64 bo w) = 8"
  by (cases bo; simp)+

text \<open>
  The position of a bit decides its byte: \<open>n = 8 * k + r\<close>. Splitting on the byte index
  leaves one equation per byte.
\<close>

lemma byte_cases32:
  assumes "n < (32::nat)"
  obtains (b0) "n < 8" | (b1) r where "r < 8" "n = 8 + r"
    | (b2) r where "r < 8" "n = 16 + r" | (b3) r where "r < 8" "n = 24 + r"
proof -
  consider "n < 8" | "8 \<le> n \<and> n < 16" | "16 \<le> n \<and> n < 24" | "24 \<le> n"
    by linarith
  then show ?thesis
    using assms that(1) that(2) [of "n - 8"] that(3) [of "n - 16"] that(4) [of "n - 24"]
    by cases auto
qed

lemma byte_cases64:
  assumes "n < (64::nat)"
  obtains (lo) "n < 32" | (b4) r where "r < 8" "n = 32 + r" | (b5) r where "r < 8" "n = 40 + r"
    | (b6) r where "r < 8" "n = 48 + r" | (b7) r where "r < 8" "n = 56 + r"
proof -
  consider "n < 32" | "32 \<le> n \<and> n < 40" | "40 \<le> n \<and> n < 48" | "48 \<le> n \<and> n < 56" | "56 \<le> n"
    by linarith
  then show ?thesis
    using assms that(1) that(2) [of "n - 32"] that(3) [of "n - 40"] that(4) [of "n - 48"]
      that(5) [of "n - 56"]
    by cases auto
qed

lemma le_get_put32 [bytes_simps]: "le_get32 (le_put32 v) = v"
proof (rule bit_word_eqI)
  fix n assume "n < LENGTH(32)"
  then have "n < 32" by simp
  then show "bit (le_get32 (le_put32 v)) n = bit v n"
    by (cases rule: byte_cases32) (auto simp: le_get32_def le_put32_def bit_simps)
qed

lemma le_get_put64 [bytes_simps]: "le_get64 (le_put64 v) = v"
proof (rule bit_word_eqI)
  fix n assume "n < LENGTH(64)"
  then have "n < 64" by simp
  then show "bit (le_get64 (le_put64 v)) n = bit v n"
  proof (cases rule: byte_cases64)
    case lo
    then show ?thesis
      by (cases rule: byte_cases32) (auto simp: le_get64_def le_put64_def bit_simps)
  qed (auto simp: le_get64_def le_put64_def bit_simps)
qed

lemma list_length4: "length xs = 4 \<longleftrightarrow> (\<exists>a b c d. xs = [a, b, c, d])"
  by (auto simp: numeral_eq_Suc length_Suc_conv)

lemma list_length8: "length xs = 8 \<longleftrightarrow> (\<exists>a b c d e f g h. xs = [a, b, c, d, e, f, g, h])"
  by (auto simp: numeral_eq_Suc length_Suc_conv)

lemma le_put_get32: "length b = 4 \<Longrightarrow> le_put32 (le_get32 b) = b"
  by (auto simp: list_length4 le_get32_def le_put32_def intro!: bit_word_eqI)
     (auto simp: bit_simps dest: bit_imp_le_length)

lemma le_put_get64: "length b = 8 \<Longrightarrow> le_put64 (le_get64 b) = b"
  by (auto simp: list_length8 le_get64_def le_put64_def intro!: bit_word_eqI)
     (auto simp: bit_simps dest: bit_imp_le_length)

lemma Uint_Put [bytes_simps]: "Uint32 bo (PutUint32 bo v) = v" "Uint64 bo (PutUint64 bo w) = w"
  by (cases bo; simp add: bytes_simps)+

lemma Put_Uint32 [bytes_simps]: "length b = 4 \<Longrightarrow> PutUint32 bo (Uint32 bo b) = b"
  by (cases bo) (simp_all add: le_put_get32)

lemma Put_Uint64 [bytes_simps]: "length b = 8 \<Longrightarrow> PutUint64 bo (Uint64 bo b) = b"
  by (cases bo) (simp_all add: le_put_get64)

section \<open>Time\<close>

text \<open>
  A \<^verbatim>\<open>time.Time\<close> is its distance in nanoseconds from Go's zero time, so the zero time is 0.
  A \<^verbatim>\<open>time.Duration\<close> is a count of nanoseconds that fits 64 bits; \<^verbatim>\<open>t.Sub(u)\<close> saturates at
  the ends of that range. The clock, \<^verbatim>\<open>time.Now()\<close>, is an argument of the operations.
\<close>

type_synonym time = int
type_synonym duration = int

definition max_duration :: duration where "max_duration = 2 ^ 63 - 1"
definition min_duration :: duration where "min_duration = - (2 ^ 63)"

definition IsZero :: "time \<Rightarrow> bool" where "IsZero t \<longleftrightarrow> t = 0"

definition time_Sub :: "time \<Rightarrow> time \<Rightarrow> duration" where
  "time_Sub t u = max min_duration (min max_duration (t - u))"

text \<open>64-bit signed wrap-around, for durations the code multiplies without a guard.\<close>

definition wrap64 :: "int \<Rightarrow> int" where
  "wrap64 i = (i + 2 ^ 63) mod 2 ^ 64 - 2 ^ 63"

lemma wrap64_id: "- (2 ^ 63) \<le> i \<Longrightarrow> i < 2 ^ 63 \<Longrightarrow> wrap64 i = i"
  by (simp add: wrap64_def)

section \<open>Division\<close>

text \<open>Division of the language rounds towards zero.\<close>

definition quot :: "int \<Rightarrow> int \<Rightarrow> int" where
  "quot a b = sgn a * sgn b * (\<bar>a\<bar> div \<bar>b\<bar>)"

section \<open>Strings\<close>

text \<open>
  Go strings are byte strings. \<^verbatim>\<open>strings.TrimSpace\<close> removes the white space of Unicode, whose
  characters outside ASCII take two or three bytes.
\<close>

definition byte_in :: "char \<Rightarrow> nat list \<Rightarrow> bool" where
  "byte_in c ns \<longleftrightarrow> of_char c \<in> set ns"

fun space_len :: "string \<Rightarrow> nat" where
  "space_len (a # b # c # s) =
     (if byte_in a [9, 10, 11, 12, 13, 32] then 1
      else if byte_in a [0xC2] \<and> byte_in b [0x85, 0xA0] then 2
      else if byte_in a [0xE1] \<and> byte_in b [0x9A] \<and> byte_in c [0x80] then 3
      else if byte_in a [0xE2] \<and> byte_in b [0x80] \<and> byte_in c ([0x80..<0x8B] @ [0xA8, 0xA9, 0xAF]) then 3
      else if byte_in a [0xE2] \<and> byte_in b [0x81] \<and> byte_in c [0x9F] then 3
      else if byte_in a [0xE3] \<and> byte_in b [0x80] \<and> byte_in c [0x80] then 3 else 0)"
| "space_len [a, b] =
     (if byte_in a [9, 10, 11, 12, 13, 32] then 1 else if byte_in a [0xC2] \<and> byte_in b [0x85, 0xA0] then 2 else 0)"
| "space_len [a] = (if byte_in a [9, 10, 11, 12, 13, 32] then 1 else 0)"
| "space_len [] = 0"

text \<open>White space at the end, for the reversed string.\<close>

fun space_len_rev :: "string \<Rightarrow> nat" where
  "space_len_rev (c # b # a # s) =
     (if space_len [c] = 1 then 1 else if space_len [b, c] = 2 then 2 else if space_len [a, b, c] = 3 then 3 else 0)"
| "space_len_rev [c, b] = (if space_len [c] = 1 then 1 else if space_len [b, c] = 2 then 2 else 0)"
| "space_len_rev [c] = space_len [c]"
| "space_len_rev [] = 0"

function trim_by :: "(string \<Rightarrow> nat) \<Rightarrow> string \<Rightarrow> string" where
  "trim_by f s = (if s = [] \<or> f s = 0 then s else trim_by f (drop (f s) s))"
  by pat_completeness auto

termination
  by (relation "measure (\<lambda>(f, s). length s)") auto

declare trim_by.simps [simp del]

definition TrimSpace :: "string \<Rightarrow> string" where
  "TrimSpace s = rev (trim_by space_len_rev (rev (trim_by space_len s)))"

section \<open>Typed maps\<close>

text \<open>
  \<^verbatim>\<open>zMap.TypedMap\<close> is the sharded concurrent map of zUtil. Its operations are the fields of
  a record that the definitions of this development take as an argument: \<open>tm_range\<close> lists
  the entries in the order \<^verbatim>\<open>Range\<close> visits them, which the package does not promise to be
  any particular one. \<open>tm_laws\<close> says what the code relies on.
\<close>

record ('m, 'k, 'v) tmap =
  tm_new :: 'm
  tm_load :: "'m \<Rightarrow> 'k \<Rightarrow> 'v option"
  tm_store :: "'m \<Rightarrow> 'k \<Rightarrow> 'v \<Rightarrow> 'm"
  tm_delete :: "'m \<Rightarrow> 'k \<Rightarrow> 'm"
  tm_range :: "'m \<Rightarrow> ('k \<times> 'v) list"
  tm_len :: "'m \<Rightarrow> int"

definition tm_laws :: "('m, 'k, 'v) tmap \<Rightarrow> bool" where
  "tm_laws T \<longleftrightarrow>
     (\<forall>k. tm_load T (tm_new T) k = None) \<and>
     (\<forall>m k v. tm_load T (tm_store T m k v) = (tm_load T m)(k \<mapsto> v)) \<and>
     (\<forall>m k. tm_load T (tm_delete T m k) = (tm_load T m)(k := None)) \<and>
     (\<forall>m. distinct (map fst (tm_range T m)) \<and> map_of (tm_range T m) = tm_load T m) \<and>
     (\<forall>m. tm_len T m = int (length (tm_range T m)))"

text \<open>\<^verbatim>\<open>LoadOrStore\<close>: the entry found and \<open>True\<close>, or the value stored and \<open>False\<close>.\<close>

definition tm_load_or_store ::
    "('m, 'k, 'v) tmap \<Rightarrow> 'm \<Rightarrow> 'k \<Rightarrow> 'v \<Rightarrow> ('v \<times> bool) \<times> 'm" where
  "tm_load_or_store T m k v =
     (case tm_load T m k of Some w \<Rightarrow> ((w, True), m) | None \<Rightarrow> ((v, False), tm_store T m k v))"

locale typed_map =
  fixes T :: "('m, 'k, 'v) tmap"
  assumes laws: "tm_laws T"
begin

lemma load_new [tm_simps]: "tm_load T (tm_new T) = Map.empty"
  using laws by (auto simp: tm_laws_def)

lemma load_store [tm_simps]: "tm_load T (tm_store T m k v) = (tm_load T m)(k \<mapsto> v)"
  using laws by (simp add: tm_laws_def)

lemma load_delete [tm_simps]: "tm_load T (tm_delete T m k) = (tm_load T m)(k := None)"
  using laws by (simp add: tm_laws_def)

lemma distinct_range: "distinct (map fst (tm_range T m))"
  using laws by (simp add: tm_laws_def)

lemma map_of_range: "map_of (tm_range T m) = tm_load T m"
  using laws by (simp add: tm_laws_def)

lemma len_range [tm_simps]: "tm_len T m = int (length (tm_range T m))"
  using laws by (simp add: tm_laws_def)

lemma mem_range: "(k, v) \<in> set (tm_range T m) \<longleftrightarrow> tm_load T m k = Some v"
  using map_of_eq_Some_iff [OF distinct_range [of m]] by (simp add: map_of_range eq_commute)

lemma dom_range: "fst ` set (tm_range T m) = dom (tm_load T m)"
  by (simp add: map_of_range [symmetric] dom_map_of_conv_image_fst)

lemma finite_dom_load: "finite (dom (tm_load T m))"
  by (simp add: dom_range [symmetric])

lemma length_range: "length (tm_range T m) = card (dom (tm_load T m))"
  by (metis distinct_range dom_range distinct_card length_map list.set_map)

lemma len_zero_iff: "tm_len T m = 0 \<longleftrightarrow> tm_load T m = Map.empty"
  using map_of_range [of m] by (auto simp: len_range)

lemma load_delete_list:
  "tm_load T (fold (\<lambda>k m. tm_delete T m k) ks m) = (\<lambda>k. if k \<in> set ks then None else tm_load T m k)"
  by (induction ks arbitrary: m) (auto simp: load_delete)

lemma len_store: "tm_len T (tm_store T m k v) = tm_len T m + (if tm_load T m k = None then 1 else 0)"
proof -
  have "dom (tm_load T (tm_store T m k v)) = insert k (dom (tm_load T m))"
    by (simp add: load_store)
  then show ?thesis
    using finite_dom_load [of m] by (auto simp: len_range length_range card_insert_if domIff)
qed

lemma len_delete: "tm_len T (tm_delete T m k) = tm_len T m - (if tm_load T m k = None then 0 else 1)"
proof -
  have "dom (tm_load T (tm_delete T m k)) = dom (tm_load T m) - {k}"
    by (auto simp: load_delete)
  then show ?thesis
    using finite_dom_load [of m] card_gt_0_iff [of "dom (tm_load T m)"]
    by (auto simp: len_range length_range card_Diff_singleton_if domIff of_nat_diff Suc_leI)
qed

lemma len_delete_list:
  "distinct ks \<Longrightarrow> set ks \<subseteq> dom (tm_load T m) \<Longrightarrow>
     tm_len T (fold (\<lambda>k m. tm_delete T m k) ks m) = tm_len T m - int (length ks)"
proof (induction ks arbitrary: m)
  case (Cons k ks)
  have "set ks \<subseteq> dom (tm_load T (tm_delete T m k))"
    using Cons.prems by (auto simp: load_delete)
  with Cons show ?case
    by (auto simp: len_delete)
qed simp

text \<open>A filtered visit yields distinct keys that are in the map.\<close>

lemma distinct_visited: "distinct (map fst (filter P (tm_range T m)))"
  by (rule distinct_map_filter [OF distinct_range])

lemma visited_dom: "set (map fst (filter P (tm_range T m))) \<subseteq> dom (tm_load T m)"
  using dom_range [of m] by force

end

lemma alist_update_new: "k \<notin> fst ` set al \<Longrightarrow> AList.update k v al = al @ [(k, v)]"
  by (induction al) auto

lemma alist_delete_hd: "k \<notin> fst ` set al \<Longrightarrow> AList.delete k ((k, v) # al) = al"
  by (simp add: delete_id)

text \<open>
  A map that meets the contract: the association lists of the library, visited in insertion
  order. It is the instance on which the development's concrete runs are evaluated.
\<close>

definition alist_tm :: "(('k \<times> 'v) list, 'k, 'v) tmap" where
  "alist_tm = \<lparr>tm_new = [], tm_load = map_of, tm_store = (\<lambda>m k v. AList.update k v m),
     tm_delete = (\<lambda>m k. AList.delete k m),
     tm_range = (\<lambda>m. AList.clearjunk m), tm_len = (\<lambda>m. int (length (AList.clearjunk m)))\<rparr>"

lemma alist_tm_sel [simp]:
  "tm_new alist_tm = []" "tm_load alist_tm = map_of"
  "tm_store alist_tm m k v = AList.update k v m" "tm_delete alist_tm m k = AList.delete k m"
  "tm_range alist_tm m = AList.clearjunk m" "tm_len alist_tm m = int (length (AList.clearjunk m))"
  by (simp_all add: alist_tm_def)

interpretation alist: typed_map alist_tm
  by unfold_locales
     (simp add: tm_laws_def update_conv' delete_conv' map_of_clearjunk distinct_clearjunk)

lemma alist_tm_laws [simp, intro]: "tm_laws alist_tm"
  by (rule alist.laws)

section \<open>Updating a list at a position\<close>

lemma in_set_update_other: "k < length ps \<Longrightarrow> ps ! k \<noteq> p \<Longrightarrow> q \<noteq> p \<Longrightarrow> p \<in> set (ps[k := q]) \<longleftrightarrow> p \<in> set ps"
  by (metis in_set_conv_nth length_list_update nth_list_update_eq nth_list_update_neq)

lemma filter_update_length:
  assumes "k < length xs"
  shows "int (length (filter P (xs[k := y]))) = int (length (filter P xs)) - (if P (xs ! k) then 1 else 0) + (if P y then 1 else 0)"
proof -
  have "xs = take k xs @ xs ! k # drop (Suc k) xs" using assms by (simp add: id_take_nth_drop)
  then have "length (filter P xs) = length (filter P (take k xs @ xs ! k # drop (Suc k) xs))" by simp
  moreover have "xs[k := y] = take k xs @ y # drop (Suc k) xs" using assms by (simp add: upd_conv_take_nth_drop)
  ultimately show ?thesis by simp
qed

lemma filter_one_update:
  assumes "k < length xs" "P (xs ! k)" "length (filter P xs) = 1"
  shows "length (filter P (xs[k := y])) = (if P y then 1 else 0)" "\<And>j. j < length xs \<Longrightarrow> j \<noteq> k \<Longrightarrow> \<not> P (xs ! j)"
proof -
  show "length (filter P (xs[k := y])) = (if P y then 1 else 0)"
    using filter_update_length [OF assms(1), of P y] assms(2,3) by (simp split: if_splits)
  have e: "xs = take k xs @ xs ! k # drop (Suc k) xs" using assms by (simp add: id_take_nth_drop)
  then have "length (filter P (take k xs @ xs ! k # drop (Suc k) xs)) = 1" using assms(3) by simp
  then have "filter P (take k xs) = []" "filter P (drop (Suc k) xs) = []" using assms(2) by auto
  then have n: "\<forall>x\<in>set (take k xs) \<union> set (drop (Suc k) xs). \<not> P x" by (auto simp: filter_empty_conv)
  fix j assume j: "j < length xs" "j \<noteq> k"
  show "\<not> P (xs ! j)"
  proof (cases "j < k")
    case True
    then have "xs ! j \<in> set (take k xs)" using j by (auto simp: in_set_conv_nth intro!: exI [of _ j])
    with n show ?thesis by blast
  next
    case False
    then have "xs ! j \<in> set (drop (Suc k) xs)" using j by (auto simp: in_set_conv_nth intro!: exI [of _ "j - Suc k"])
    with n show ?thesis by blast
  qed
qed

end
