(* ===== verification/Packet.thy ===== *)
theory Packet
  imports Prelude
begin

text \<open>
  The wire format of zNet: \<^verbatim>\<open>zNet/packet.go\<close>, \<^verbatim>\<open>zNet/packet_limits.go\<close> and the byte-order
  part of \<^verbatim>\<open>zNet/common.go\<close>. A packet is a 36-byte header and a body; the codec of an
  endpoint fixes the byte order. The main results say that decoding a frame succeeds exactly
  on the encodings of well-formed packets.
\<close>

section \<open>Byte order of an endpoint (common.go)\<close>

type_synonym WireByteOrder = string

definition WireByteOrderDefault :: WireByteOrder where "WireByteOrderDefault = ''''"
definition WireByteOrderLittle :: WireByteOrder where "WireByteOrderLittle = ''little''"
definition WireByteOrderBig :: WireByteOrder where "WireByteOrderBig = ''big''"

datatype packet_error =
    ErrPacketHeaderSize int int
  | ErrPacketProtoID int32
  | ErrPacketDataSize int32
  | ErrPacketTooLarge int32 int32
  | ErrPacketCompression int32
  | ErrPacketFrameSize int int
  | ErrWireByteOrder string

text \<open>The package variable \<^verbatim>\<open>byteOrder\<close> is the argument \<open>glob\<close>.\<close>

definition SetByteOrder :: "byte_order option \<Rightarrow> byte_order" where
  "SetByteOrder ord = (case ord of None \<Rightarrow> LittleEndian | Some bo \<Rightarrow> bo)"

definition resolveWireByteOrder :: "byte_order \<Rightarrow> WireByteOrder \<Rightarrow> packet_error + byte_order" where
  "resolveWireByteOrder glob ord =
     (if ord = WireByteOrderDefault then Inr glob
      else if ord = WireByteOrderLittle then Inr LittleEndian
      else if ord = WireByteOrderBig then Inr BigEndian
      else Inl (ErrWireByteOrder ord))"

section \<open>Packets and codecs (packet.go)\<close>

type_synonym ProtoIdType = int32

definition HeartbeatProtoId :: ProtoIdType where "HeartbeatProtoId = -1"
definition KeyRotationNotifyProtoId :: ProtoIdType where "KeyRotationNotifyProtoId = -2"
definition CompressionNone :: int32 where "CompressionNone = 0"
definition CompressionSnappy :: int32 where "CompressionSnappy = 1"
definition NetPacketHeadSize :: nat where "NetPacketHeadSize = 36"

record PacketCodec =
  codec_order :: "byte_order option"

definition NewPacketCodec :: "byte_order option \<Rightarrow> PacketCodec" where
  "NewPacketCodec ord =
     \<lparr>codec_order = Some (case ord of None \<Rightarrow> LittleEndian | Some bo \<Rightarrow> bo)\<rparr>"

definition newEndpointPacketCodec :: "byte_order \<Rightarrow> WireByteOrder \<Rightarrow> packet_error + PacketCodec" where
  "newEndpointPacketCodec glob ord =
     (case resolveWireByteOrder glob ord of
        Inl e \<Rightarrow> Inl e
      | Inr resolved \<Rightarrow> Inr (NewPacketCodec (Some resolved)))"

definition ByteOrder :: "PacketCodec \<Rightarrow> byte_order" where
  "ByteOrder c = (case codec_order c of None \<Rightarrow> LittleEndian | Some bo \<Rightarrow> bo)"

record NetPacket =
  Sequence :: uint64
  Timestamp :: int64
  ProtoId :: ProtoIdType
  DataSize :: int32
  Version :: int32
  IsCompressed :: int32
  KeyID :: uint32
  Data :: "byte list"

definition zero_packet :: NetPacket where
  "zero_packet = \<lparr>Sequence = 0, Timestamp = 0, ProtoId = 0, DataSize = 0, Version = 0,
     IsCompressed = 0, KeyID = 0, Data = []\<rparr>"

definition UnmarshalHead :: "PacketCodec \<Rightarrow> NetPacket \<Rightarrow> byte list \<Rightarrow> packet_error + NetPacket" where
  "UnmarshalHead c p bs =
     (if length bs < NetPacketHeadSize
      then Inl (ErrPacketHeaderSize (int (length bs)) (int NetPacketHeadSize))
      else let bo = ByteOrder c in
        Inr (p\<lparr>ProtoId := Uint32 bo (subslice 0 4 bs),
               Version := Uint32 bo (subslice 4 8 bs),
               DataSize := Uint32 bo (subslice 8 12 bs),
               IsCompressed := Uint32 bo (subslice 12 16 bs),
               Sequence := Uint64 bo (subslice 16 24 bs),
               Timestamp := Uint64 bo (subslice 24 32 bs),
               KeyID := Uint32 bo (subslice 32 36 bs)\<rparr>))"

definition Marshal :: "PacketCodec \<Rightarrow> NetPacket \<Rightarrow> byte list" where
  "Marshal c p =
     (let data = replicate (NetPacketHeadSize + length (Data p)) 0;
          bo = ByteOrder c;
          data = put_at 0 (PutUint32 bo (ProtoId p)) data;
          data = put_at 4 (PutUint32 bo (Version p)) data;
          data = put_at 8 (PutUint32 bo (DataSize p)) data;
          data = put_at 12 (PutUint32 bo (IsCompressed p)) data;
          data = put_at 16 (PutUint64 bo (Sequence p)) data;
          data = put_at 24 (PutUint64 bo (Timestamp p)) data;
          data = put_at 32 (PutUint32 bo (KeyID p)) data
      in put_at NetPacketHeadSize (Data p) data)"

text \<open>The methods of \<^verbatim>\<open>NetPacket\<close> itself use the package's default byte order.\<close>

definition NetPacket_UnmarshalHead :: "byte_order \<Rightarrow> NetPacket \<Rightarrow> byte list \<Rightarrow> packet_error + NetPacket" where
  "NetPacket_UnmarshalHead glob p bs = UnmarshalHead (NewPacketCodec (Some glob)) p bs"

definition NetPacket_Marshal :: "byte_order \<Rightarrow> NetPacket \<Rightarrow> byte list" where
  "NetPacket_Marshal glob p = Marshal (NewPacketCodec (Some glob)) p"

definition IsValidProtoID :: "ProtoIdType \<Rightarrow> bool" where
  "IsValidProtoID protoID \<longleftrightarrow>
     sint protoID > 0 \<or> protoID = HeartbeatProtoId \<or> protoID = KeyRotationNotifyProtoId"

definition ValidatePacketHeader :: "NetPacket \<Rightarrow> int32 \<Rightarrow> packet_error option" where
  "ValidatePacketHeader packet maxPacketDataSize =
     (if \<not> IsValidProtoID (ProtoId packet) then Some (ErrPacketProtoID (ProtoId packet))
      else if sint (DataSize packet) < 0 then Some (ErrPacketDataSize (DataSize packet))
      else if sint maxPacketDataSize > 0 \<and> sint (DataSize packet) > sint maxPacketDataSize
        then Some (ErrPacketTooLarge (DataSize packet) maxPacketDataSize)
      else if IsCompressed packet \<noteq> CompressionNone \<and> IsCompressed packet \<noteq> CompressionSnappy
        then Some (ErrPacketCompression (IsCompressed packet))
      else None)"

definition DecodeHeader :: "PacketCodec \<Rightarrow> byte list \<Rightarrow> int32 \<Rightarrow> packet_error + NetPacket" where
  "DecodeHeader c bs maxPacketDataSize =
     (if length bs \<noteq> NetPacketHeadSize
      then Inl (ErrPacketHeaderSize (int (length bs)) (int NetPacketHeadSize))
      else case UnmarshalHead c zero_packet bs of
        Inl e \<Rightarrow> Inl e
      | Inr packet \<Rightarrow>
          (case ValidatePacketHeader packet maxPacketDataSize of
             Some e \<Rightarrow> Inl e
           | None \<Rightarrow> Inr packet))"

definition DecodeFrame :: "PacketCodec \<Rightarrow> byte list \<Rightarrow> int32 \<Rightarrow> packet_error + NetPacket" where
  "DecodeFrame c bs maxPacketDataSize =
     (if length bs < NetPacketHeadSize
      then Inl (ErrPacketHeaderSize (int (length bs)) (int NetPacketHeadSize))
      else case DecodeHeader c (take NetPacketHeadSize bs) maxPacketDataSize of
        Inl e \<Rightarrow> Inl e
      | Inr packet \<Rightarrow>
          (let expected = int NetPacketHeadSize + sint (DataSize packet) in
           if int (length bs) \<noteq> expected
           then Inl (ErrPacketFrameSize (int (length bs)) expected)
           else Inr (packet\<lparr>Data := drop NetPacketHeadSize bs\<rparr>)))"

section \<open>Limits (packet\_limits.go)\<close>

definition DefaultWirePacketSize :: int32 where "DefaultWirePacketSize = 1024 * 1024"
definition DefaultDecodedPacketSize :: int32 where "DefaultDecodedPacketSize = 1024 * 1024"

definition normalizePacketSizeLimits :: "int32 \<Rightarrow> int32 \<Rightarrow> int32 \<Rightarrow> int32 \<times> int32 \<times> int32" where
  "normalizePacketSizeLimits maxWire legacyWire maxDecoded =
     (let wire = maxWire;
          wire = (if sint wire \<le> 0 then legacyWire else wire);
          wire = (if sint wire \<le> 0 then DefaultWirePacketSize else wire);
          decoded = maxDecoded;
          decoded = (if sint decoded \<le> 0 then DefaultDecodedPacketSize else decoded)
      in (wire, wire, decoded))"

definition resolveWirePacketSize :: "int32 \<Rightarrow> int32 \<Rightarrow> int32" where
  "resolveWirePacketSize maxWire legacyWire = fst (normalizePacketSizeLimits maxWire legacyWire 0)"

definition resolveDecodedPacketSize :: "int32 \<Rightarrow> int32" where
  "resolveDecodedPacketSize maxDecoded = snd (snd (normalizePacketSizeLimits 0 0 maxDecoded))"

section \<open>Rate limiting of the error log\<close>

text \<open>
  \<^verbatim>\<open>packetErrorLogLimiter.Allow\<close> retries a compare-and-swap until it either sees a later
  deadline or swaps in its own; the iteration that returns acts atomically on the stored
  deadline, and that is the step modelled here.
\<close>

definition invalidPacketLogInterval :: duration where
  "invalidPacketLogInterval = 5 * 1000000000"

definition limiter_Allow :: "time \<Rightarrow> time \<Rightarrow> bool \<times> time" where
  "limiter_Allow nextLog now =
     (if now < nextLog then (False, nextLog) else (True, now + invalidPacketLogInterval))"

primrec limiter_run :: "time \<Rightarrow> time list \<Rightarrow> time list" where
  "limiter_run nextLog [] = []"
| "limiter_run nextLog (now # rest) =
     (case limiter_Allow nextLog now of
        (ok, nextLog') \<Rightarrow> (if ok then now # limiter_run nextLog' rest else limiter_run nextLog' rest))"

section \<open>Layout of an encoded packet\<close>

definition head_bytes :: "PacketCodec \<Rightarrow> NetPacket \<Rightarrow> byte list" where
  "head_bytes c p =
     (let bo = ByteOrder c in
      PutUint32 bo (ProtoId p) @ PutUint32 bo (Version p) @ PutUint32 bo (DataSize p) @
      PutUint32 bo (IsCompressed p) @ PutUint64 bo (Sequence p) @ PutUint64 bo (Timestamp p) @
      PutUint32 bo (KeyID p))"

lemma length_head_bytes [simp]: "length (head_bytes c p) = 36"
  by (simp add: head_bytes_def Let_def)

lemma Marshal_layout: "Marshal c p = head_bytes c p @ Data p"
  unfolding Marshal_def Let_def NetPacketHeadSize_def
  by (simp only: put_at_fill0 put_at_fill length_append length_PutUint head_bytes_def Let_def)
     (simp add: put_at_fill)

lemma length_Marshal: "length (Marshal c p) = 36 + length (Data p)"
  by (simp add: Marshal_layout)

lemma UnmarshalHead_head_bytes:
  "UnmarshalHead c q (head_bytes c p @ rest) = Inr (p\<lparr>Data := Data q\<rparr>)"
  by (simp add: UnmarshalHead_def NetPacketHeadSize_def)
     (simp add: head_bytes_def subslice_def Let_def bytes_simps)

lemma head_bytes_UnmarshalHead:
  assumes "36 \<le> length bs" "UnmarshalHead c q bs = Inr p"
  shows "head_bytes c p = take 36 bs" and "Data p = Data q"
proof -
  have "head_bytes c p = subslice 0 4 bs @ subslice 4 8 bs @ subslice 8 12 bs @ subslice 12 16 bs @
      subslice 16 24 bs @ subslice 24 32 bs @ subslice 32 36 bs"
    using assms by (auto simp: UnmarshalHead_def NetPacketHeadSize_def head_bytes_def Let_def
        bytes_simps)
  then show "head_bytes c p = take 36 bs"
    by (simp add: subslice_join) (simp add: subslice_0)
  show "Data p = Data q"
    using assms by (auto simp: UnmarshalHead_def NetPacketHeadSize_def Let_def)
qed

section \<open>Decoding\<close>

text \<open>The header fields the receiver relies on before it allocates a body.\<close>

definition header_ok :: "NetPacket \<Rightarrow> int32 \<Rightarrow> bool" where
  "header_ok p maxSize \<longleftrightarrow>
     IsValidProtoID (ProtoId p) \<and> 0 \<le> sint (DataSize p) \<and>
     (0 < sint maxSize \<longrightarrow> sint (DataSize p) \<le> sint maxSize) \<and>
     IsCompressed p \<in> {CompressionNone, CompressionSnappy}"

lemma ValidatePacketHeader_None: "ValidatePacketHeader p m = None \<longleftrightarrow> header_ok p m"
  by (auto simp: ValidatePacketHeader_def header_ok_def)

lemma header_ok_Data [simp]: "header_ok (p\<lparr>Data := d\<rparr>) m = header_ok p m"
  by (simp add: header_ok_def)

lemma head_bytes_Data [simp]: "head_bytes c (p\<lparr>Data := d\<rparr>) = head_bytes c p"
  by (simp add: head_bytes_def)

lemma DecodeHeader_iff:
  "DecodeHeader c bs m = Inr p \<longleftrightarrow> bs = head_bytes c p \<and> Data p = [] \<and> header_ok p m"
proof
  assume dec: "DecodeHeader c bs m = Inr p"
  then have len: "length bs = 36"
    and un: "UnmarshalHead c zero_packet bs = Inr p" and ok: "header_ok p m"
    by (auto simp: DecodeHeader_def NetPacketHeadSize_def ValidatePacketHeader_None
        split: if_splits sum.splits option.splits)
  with head_bytes_UnmarshalHead [of bs c zero_packet p]
  show "bs = head_bytes c p \<and> Data p = [] \<and> header_ok p m"
    by (simp add: zero_packet_def)
next
  assume r: "bs = head_bytes c p \<and> Data p = [] \<and> header_ok p m"
  have p: "p\<lparr>Data := []\<rparr> = p" using r by (cases p) simp
  show "DecodeHeader c bs m = Inr p"
    using r UnmarshalHead_head_bytes [of c zero_packet p "[]"] ValidatePacketHeader_None [of p m]
    by (simp add: DecodeHeader_def NetPacketHeadSize_def zero_packet_def p)
qed

lemma DecodeFrame_iff:
  "DecodeFrame c bs m = Inr p \<longleftrightarrow>
     bs = Marshal c p \<and> header_ok p m \<and> sint (DataSize p) = int (length (Data p))"
proof
  assume dec: "DecodeFrame c bs m = Inr p"
  then obtain q where len: "36 \<le> length bs" and h: "DecodeHeader c (take 36 bs) m = Inr q"
    and size: "int (length bs) = 36 + sint (DataSize q)" and p: "p = q\<lparr>Data := drop 36 bs\<rparr>"
    by (auto simp: DecodeFrame_def NetPacketHeadSize_def Let_def not_less
        split: if_splits sum.splits)
  from h have "take 36 bs = head_bytes c q" "header_ok q m"
    by (simp_all add: DecodeHeader_iff)
  with len size p show "bs = Marshal c p \<and> header_ok p m \<and> sint (DataSize p) = int (length (Data p))"
    by (auto simp: Marshal_layout) (metis append_take_drop_id)
next
  assume r: "bs = Marshal c p \<and> header_ok p m \<and> sint (DataSize p) = int (length (Data p))"
  then have "DecodeHeader c (take 36 bs) m = Inr (p\<lparr>Data := []\<rparr>)"
    by (simp add: DecodeHeader_iff Marshal_layout)
  with r show "DecodeFrame c bs m = Inr p"
    by (simp add: DecodeFrame_def NetPacketHeadSize_def Marshal_layout)
qed

section \<open>Properties\<close>

text \<open>
  Property C1. \<open>DecodeFrame\<close> accepts a byte string exactly when it is the encoding, by
  \<open>Marshal\<close> of the same codec, of a packet with a permitted protocol id, a compression flag
  of 0 or 1, a data size within the wire limit and equal to the length of its data; and then
  it returns that packet. So decoding inverts encoding, nothing else is accepted, and a
  length field that lies about the body is refused.
\<close>

theorem decode_frame_exact:
  "DecodeFrame c bs maxSize = Inr p \<longleftrightarrow>
     bs = Marshal c p \<and> header_ok p maxSize \<and> sint (DataSize p) = int (length (Data p))"
  by (rule DecodeFrame_iff)

text \<open>
  The size a TCP reader allocates after \<open>DecodeHeader\<close> is never negative and,
  once the limits have been normalised, never above the endpoint's wire limit, whatever the
  36 bytes received and whatever the configured limits.
\<close>

theorem decode_header_alloc_bound:
  "\<forall>p. DecodeHeader c bs (resolveWirePacketSize maxWire legacyWire) = Inr p \<longrightarrow>
     0 \<le> sint (DataSize p) \<and>
     sint (DataSize p) \<le> sint (resolveWirePacketSize maxWire legacyWire)"
proof -
  have "0 < sint (resolveWirePacketSize maxWire legacyWire)"
    by (auto simp: resolveWirePacketSize_def normalizePacketSizeLimits_def
        DefaultWirePacketSize_def Let_def)
  then show ?thesis by (auto simp: DecodeHeader_iff header_ok_def)
qed

theorem decode_header_alloc_bound_witness:
  "DecodeHeader (NewPacketCodec None) (head_bytes (NewPacketCodec None)
       (zero_packet\<lparr>ProtoId := 7, DataSize := 100\<rparr>)) (resolveWirePacketSize 0 256) =
     Inr (zero_packet\<lparr>ProtoId := 7, DataSize := 100\<rparr>) \<and>
   sint (DataSize (zero_packet\<lparr>ProtoId := 7, DataSize := 100\<rparr>)) \<le>
     sint (resolveWirePacketSize 0 256)"
proof -
  let ?c = "NewPacketCodec None" and ?p = "zero_packet\<lparr>ProtoId := 7, DataSize := 100\<rparr>"
  have d: "DecodeHeader ?c (head_bytes ?c ?p) (resolveWirePacketSize 0 256) = Inr ?p"
    by (simp add: DecodeHeader_iff header_ok_def zero_packet_def IsValidProtoID_def
        CompressionNone_def resolveWirePacketSize_def normalizePacketSizeLimits_def Let_def)
  with decode_header_alloc_bound [of ?c "head_bytes ?c ?p" 0 256] show ?thesis by blast
qed

lemma limiter_run_after:
  "t \<in> set (limiter_run nextLog nows) \<Longrightarrow> nextLog \<le> t"
  by (induction nows arbitrary: nextLog)
     (fastforce simp: limiter_Allow_def invalidPacketLogInterval_def split: if_splits)+

text \<open>
  However often and in whatever order of clock readings malformed packets
  arrive, two lines the limiter lets into the error log are at least five seconds apart.
\<close>

theorem limiter_spacing:
  "sorted_wrt (\<lambda>a b. a + invalidPacketLogInterval \<le> b) (limiter_run nextLog nows)"
  by (induction nows arbitrary: nextLog)
     (auto simp: limiter_Allow_def dest: limiter_run_after)

end
