(* ===== verification/Payload.thy ===== *)
theory Payload
  imports Packet
begin

text \<open>
  \<^verbatim>\<open>zNet/packet_payload.go\<close>: decryption and decompression of a received body under the
  endpoint's limit on decoded sizes. AES-GCM (zCrypto) and Snappy are packages outside the
  repository; their functions are the fields of a record that the operations take as an
  argument.
\<close>

section \<open>The libraries the payload code calls\<close>

record payload_lib =
  AESEncrypt :: "byte list \<Rightarrow> byte list \<Rightarrow> string + byte list"
  AESDecrypt :: "byte list \<Rightarrow> byte list \<Rightarrow> string + byte list"
  snappy_Encode :: "byte list \<Rightarrow> byte list"
  snappy_DecodedLen :: "byte list \<Rightarrow> string + int"
  snappy_Decode :: "byte list \<Rightarrow> string + byte list"

section \<open>decodePacketPayload\<close>

datatype payload_error =
    NilPacket
  | ErrPacketDecodedTooLarge int int32
  | DecryptMissingKey
  | DecryptShort int int
  | DecryptFailed string
  | DecryptLength int int
  | DecompressFailed string
  | DecompressLength int int

definition aesGCMWireOverhead :: int where "aesGCMWireOverhead = 12 + 16"

definition decodedPacketSizeError :: "int \<Rightarrow> int32 \<Rightarrow> payload_error" where
  "decodedPacketSizeError sz maxSize = ErrPacketDecodedTooLarge sz maxSize"

definition validateDecodedPacketSize :: "int \<Rightarrow> int32 \<Rightarrow> payload_error option" where
  "validateDecodedPacketSize sz maxSize =
     (let maxSize = resolveDecodedPacketSize maxSize in
      if sz > sint maxSize then Some (decodedPacketSizeError sz maxSize) else None)"

text \<open>The \<^verbatim>\<open>if encrypted\<close> block: the bytes that replace \<^verbatim>\<open>data\<close>.\<close>

definition decrypt_stage ::
    "payload_lib \<Rightarrow> byte list \<Rightarrow> byte list \<Rightarrow> int32 \<Rightarrow> payload_error + byte list" where
  "decrypt_stage L data decryptKey maxDecoded =
     (if length decryptKey = 0 then Inl DecryptMissingKey
      else if int (length data) < aesGCMWireOverhead
        then Inl (DecryptShort (int (length data)) aesGCMWireOverhead)
      else let plaintextSize = int (length data) - aesGCMWireOverhead in
        (case validateDecodedPacketSize plaintextSize maxDecoded of
           Some e \<Rightarrow> Inl e
         | None \<Rightarrow>
             (case AESDecrypt L data decryptKey of
                Inl msg \<Rightarrow> Inl (DecryptFailed msg)
              | Inr decrypted \<Rightarrow>
                  (if int (length decrypted) \<noteq> plaintextSize
                   then Inl (DecryptLength (int (length decrypted)) plaintextSize)
                   else (case validateDecodedPacketSize (int (length decrypted)) maxDecoded of
                           Some e \<Rightarrow> Inl e
                         | None \<Rightarrow> Inr decrypted)))))"

text \<open>The Snappy branch and its alternative.\<close>

definition decompress_stage ::
    "payload_lib \<Rightarrow> int32 \<Rightarrow> byte list \<Rightarrow> int32 \<Rightarrow> payload_error + byte list" where
  "decompress_stage L compressed data maxDecoded =
     (if compressed = CompressionSnappy then
        (case snappy_DecodedLen L data of
           Inl msg \<Rightarrow> Inl (DecompressFailed msg)
         | Inr decodedSize \<Rightarrow>
             (case validateDecodedPacketSize decodedSize maxDecoded of
                Some e \<Rightarrow> Inl e
              | None \<Rightarrow>
                  (case snappy_Decode L data of
                     Inl msg \<Rightarrow> Inl (DecompressFailed msg)
                   | Inr decoded \<Rightarrow>
                       (if int (length decoded) \<noteq> decodedSize
                        then Inl (DecompressLength (int (length decoded)) decodedSize)
                        else (case validateDecodedPacketSize (int (length decoded)) maxDecoded of
                                Some e \<Rightarrow> Inl e
                              | None \<Rightarrow> Inr decoded)))))
      else (case validateDecodedPacketSize (int (length data)) maxDecoded of
              Some e \<Rightarrow> Inl e
            | None \<Rightarrow> Inr data))"

text \<open>
  The function changes the packet its caller passed: the result is the packet afterwards and
  the error, if any. A nil packet is \<open>None\<close>.
\<close>

definition decodePacketPayload ::
    "payload_lib \<Rightarrow> NetPacket option \<Rightarrow> byte list \<Rightarrow> bool \<Rightarrow> int32 \<Rightarrow>
       NetPacket option \<times> payload_error option" where
  "decodePacketPayload L packet decryptKey encrypted maxDecoded =
     (case packet of
        None \<Rightarrow> (None, Some NilPacket)
      | Some p \<Rightarrow>
          (case (if encrypted then decrypt_stage L (Data p) decryptKey maxDecoded else Inr (Data p)) of
             Inl e \<Rightarrow> (Some p, Some e)
           | Inr data \<Rightarrow>
               (case decompress_stage L (IsCompressed p) data maxDecoded of
                  Inl e \<Rightarrow> (Some p, Some e)
                | Inr data \<Rightarrow>
                    (Some (p\<lparr>Data := data, DataSize := to_int32 (int (length data))\<rparr>), None))))"

section \<open>Size bounds\<close>

lemma resolveDecoded_pos: "0 < sint (resolveDecodedPacketSize m)"
  by (auto simp: resolveDecodedPacketSize_def normalizePacketSizeLimits_def
      DefaultDecodedPacketSize_def Let_def)

lemma resolveDecoded_idem [simp]:
  "resolveDecodedPacketSize (resolveDecodedPacketSize m) = resolveDecodedPacketSize m"
  by (auto simp: resolveDecodedPacketSize_def normalizePacketSizeLimits_def
      DefaultDecodedPacketSize_def Let_def)

lemma validateDecoded_None:
  "validateDecodedPacketSize n m = None \<longleftrightarrow> n \<le> sint (resolveDecodedPacketSize m)"
  by (auto simp: validateDecodedPacketSize_def Let_def)

lemma decompress_stage_bound:
  "decompress_stage L z d m = Inr d' \<Longrightarrow> int (length d') \<le> sint (resolveDecodedPacketSize m)"
  by (auto simp: decompress_stage_def validateDecoded_None split: if_splits sum.splits option.splits)

lemma decrypt_stage_bound:
  "decrypt_stage L d k m = Inr d' \<Longrightarrow> int (length d') \<le> sint (resolveDecodedPacketSize m)"
  by (auto simp: decrypt_stage_def validateDecoded_None Let_def
      split: if_splits sum.splits option.splits)

section \<open>Properties\<close>

text \<open>
  Property C2. Whatever AES and Snappy return, \<open>decodePacketPayload\<close> either succeeds with
  data no longer than the (normalised) decoded limit and a size field that equals the data's
  length and leaves every other field alone, or it reports an error and the packet is
  unchanged: no partly decoded data reaches the dispatcher.
\<close>

theorem decode_payload_bounded_or_unchanged:
  "(case decodePacketPayload L (Some p) key encrypted m of
      (Some p', None) \<Rightarrow>
        int (length (Data p')) \<le> sint (resolveDecodedPacketSize m) \<and>
        sint (DataSize p') = int (length (Data p')) \<and>
        p' = p\<lparr>Data := Data p', DataSize := DataSize p'\<rparr>
    | (p', Some _) \<Rightarrow> p' = Some p
    | (None, None) \<Rightarrow> False)"
proof (cases "if encrypted then decrypt_stage L (Data p) key m else Inr (Data p)")
  case (Inl e)
  then show ?thesis by (simp add: decodePacketPayload_def)
next
  case (Inr d)
  show ?thesis
  proof (cases "decompress_stage L (IsCompressed p) d m")
    case (Inl e)
    with Inr show ?thesis by (simp add: decodePacketPayload_def)
  next
    case d': (Inr d')
    from decompress_stage_bound [OF d'] sint_int32_bounds [of "resolveDecodedPacketSize m"]
    have "int (length d') \<le> sint (resolveDecodedPacketSize m)" "int (length d') < 2 ^ 31"
      by linarith+
    with Inr d' show ?thesis by (simp add: decodePacketPayload_def)
  qed
qed

end
