(* ===== verification/Sequence_Window.thy ===== *)
theory Sequence_Window
  imports Prelude
begin

text \<open>
  The replay check of zNet, \<^verbatim>\<open>SequenceManager\<close> in \<^verbatim>\<open>zNet/key_rotation.go\<close>: a timestamp
  tolerance and, for every session, the highest sequence number seen and a window of recent
  numbers. Both tables are typed maps. A \<^verbatim>\<open>*SessionSequenceInfo\<close> is reached only through
  the session table, so the updated record is stored back under its session.
\<close>

record 'w SessionSequenceInfo =
  lastSeq :: uint64
  windowStart :: uint64
  window :: 'w

record 's SequenceManager =
  sm_sessions :: 's
  windowSize :: uint64
  timestampTolerance :: int64

type_synonym ('s, 'w) session_map = "('s, uint64, 'w SessionSequenceInfo) tmap"
type_synonym 'w window_map = "('w, uint64, bool) tmap"

definition NewSequenceManager :: "('s, 'w) session_map \<Rightarrow> uint64 \<Rightarrow> int64 \<Rightarrow> 's SequenceManager" where
  "NewSequenceManager S wsize tol =
     \<lparr>sm_sessions = tm_new S, windowSize = wsize, timestampTolerance = tol\<rparr>"

text \<open>The timestamp test; \<open>now\<close> is \<^verbatim>\<open>time.Now().Unix()\<close> and the subtraction wraps.\<close>

definition timestamp_ok :: "int64 \<Rightarrow> int64 \<Rightarrow> int64 \<Rightarrow> bool" where
  "timestamp_ok tolerance now timestamp =
     (if timestamp \<noteq> 0 then
        (let diff = now - timestamp;
             diff = (if sint diff < 0 then - diff else diff)
         in \<not> sint diff > sint tolerance)
      else True)"

text \<open>The loop that deletes the numbers from the old window start up to the new one.\<close>

definition delete_range :: "'w window_map \<Rightarrow> uint64 \<Rightarrow> uint64 \<Rightarrow> 'w \<Rightarrow> 'w" where
  "delete_range W i j w = fold (\<lambda>k w. tm_delete W w (word_of_nat k)) [unat i ..< unat j] w"

definition next_window_start :: "uint64 \<Rightarrow> uint64 \<Rightarrow> uint64" where
  "next_window_start wsize seq = (if seq + 1 > wsize then seq + 1 - wsize else 0)"

text \<open>The session part of the check, on a session already known.\<close>

definition validate_known ::
    "'w window_map \<Rightarrow> uint64 \<Rightarrow> 'w SessionSequenceInfo \<Rightarrow> uint64 \<Rightarrow> bool \<times> 'w SessionSequenceInfo" where
  "validate_known W wsize info seq =
     (if seq \<le> lastSeq info then
        (if seq = lastSeq info then (False, info)
         else if lastSeq info - seq < wsize
         then (tm_load W (window info) seq = None, info)
         else (False, info))
      else if tm_load W (window info) seq \<noteq> None then (False, info)
      else
        (let info = info\<lparr>window := tm_store W (window info) seq True\<rparr>;
             oldWindowStart = windowStart info;
             newWindowStart = next_window_start wsize seq;
             info = (if newWindowStart > oldWindowStart
                     then info\<lparr>window := delete_range W oldWindowStart newWindowStart (window info),
                               windowStart := newWindowStart\<rparr>
                     else info)
         in (True, info\<lparr>lastSeq := seq\<rparr>)))"

definition ValidateSequence ::
    "('s, 'w) session_map \<Rightarrow> 'w window_map \<Rightarrow> 's SequenceManager \<Rightarrow>
       uint64 \<Rightarrow> uint64 \<Rightarrow> int64 \<Rightarrow> int64 \<Rightarrow> bool \<times> 's SequenceManager" where
  "ValidateSequence S W sm sid seq timestamp now =
     (if \<not> timestamp_ok (timestampTolerance sm) now timestamp then (False, sm)
      else case tm_load S (sm_sessions sm) sid of
        None \<Rightarrow>
          (let info = \<lparr>lastSeq = seq, windowStart = seq, window = tm_store W (tm_new W) seq True\<rparr>
           in (True, sm\<lparr>sm_sessions := tm_store S (sm_sessions sm) sid info\<rparr>))
      | Some info \<Rightarrow>
          (case validate_known W (windowSize sm) info seq of
             (ok, info') \<Rightarrow> (ok, sm\<lparr>sm_sessions := tm_store S (sm_sessions sm) sid info'\<rparr>)))"

definition RemoveSession :: "('s, 'w) session_map \<Rightarrow> 's SequenceManager \<Rightarrow> uint64 \<Rightarrow> 's SequenceManager" where
  "RemoveSession S sm sid = sm\<lparr>sm_sessions := tm_delete S (sm_sessions sm) sid\<rparr>"

text \<open>Packets of any sessions one after the other.\<close>

record seq_packet =
  sp_sid :: uint64
  sp_seq :: uint64
  sp_timestamp :: int64
  sp_now :: int64

definition validate_packet ::
    "('s, 'w) session_map \<Rightarrow> 'w window_map \<Rightarrow> 's SequenceManager \<Rightarrow> seq_packet \<Rightarrow>
       bool \<times> 's SequenceManager" where
  "validate_packet S W sm p = ValidateSequence S W sm (sp_sid p) (sp_seq p) (sp_timestamp p) (sp_now p)"

primrec validate_run ::
    "('s, 'w) session_map \<Rightarrow> 'w window_map \<Rightarrow> seq_packet list \<Rightarrow> 's SequenceManager \<Rightarrow>
       bool list \<times> 's SequenceManager" where
  "validate_run S W [] sm = ([], sm)"
| "validate_run S W (p # ps) sm =
     (case validate_packet S W sm p of
        (ok, sm') \<Rightarrow> (case validate_run S W ps sm' of (oks, sm'') \<Rightarrow> (ok # oks, sm'')))"

section \<open>The window\<close>

text \<open>
  The window of a session holds numbers between its start and the highest number seen, and
  its start is not below what the window size allows.
\<close>

definition window_ok :: "'w window_map \<Rightarrow> uint64 \<Rightarrow> 'w SessionSequenceInfo \<Rightarrow> bool" where
  "window_ok W wsize info \<longleftrightarrow>
     (\<forall>k \<in> dom (tm_load W (window info)). windowStart info \<le> k \<and> k \<le> lastSeq info) \<and>
     unat (windowStart info) \<le> unat (lastSeq info) + 1 \<and>
     unat (lastSeq info) + 1 \<le> unat (windowStart info) + max 1 (unat wsize)"

text \<open>The highest number itself is in the window, unless the window has size 0.\<close>

definition last_recorded :: "'w window_map \<Rightarrow> uint64 \<Rightarrow> 'w SessionSequenceInfo \<Rightarrow> bool" where
  "last_recorded W wsize info \<longleftrightarrow> (0 < wsize \<longrightarrow> tm_load W (window info) (lastSeq info) \<noteq> None)"

text \<open>A number the session accepted, at some time, as the highest so far.\<close>

definition spent :: "'w window_map \<Rightarrow> uint64 \<Rightarrow> 'w SessionSequenceInfo \<Rightarrow> uint64 \<Rightarrow> bool" where
  "spent W wsize info n \<longleftrightarrow>
     n = lastSeq info \<or>
     n < lastSeq info \<and> (lastSeq info - n < wsize \<longrightarrow> tm_load W (window info) n \<noteq> None)"

lemma validate_known_older:
  "seq \<le> lastSeq info \<Longrightarrow> snd (validate_known W wsize info seq) = info"
  by (simp add: validate_known_def)

lemma validate_known_spent:
  "spent W wsize info n \<Longrightarrow> \<not> fst (validate_known W wsize info n)"
  by (auto simp: spent_def validate_known_def)

context typed_map
begin

lemma load_delete_nat_range:
  "tm_load T (fold (\<lambda>k w. tm_delete T w (f k)) ks w) =
     (\<lambda>x. if x \<in> f ` set ks then None else tm_load T w x)"
  by (induction ks arbitrary: w) (auto simp: load_delete)

end

lemma load_delete_range:
  assumes "tm_laws W"
  shows "tm_load W (delete_range W i j w) =
           (\<lambda>x. if i \<le> x \<and> x < j then None else tm_load W w x)"
proof -
  have "word_of_nat ` set [unat i ..< unat j] = {x. i \<le> x \<and> x < j}"
  proof safe
    fix x :: "64 word" assume "i \<le> x" "x < j"
    then have "unat x \<in> set [unat i ..< unat j]" "x = word_of_nat (unat x)"
      by (simp_all add: word_le_nat_alt word_less_nat_alt)
    then show "x \<in> word_of_nat ` set [unat i ..< unat j]" by blast
  next
    fix k assume "k \<in> set [unat i ..< unat j]"
    then have k: "unat i \<le> k" "k < unat j" by auto
    moreover have "unat j < 2 ^ 64" using unsigned_less [of j] by simp
    ultimately have "unat (word_of_nat k :: uint64) = k"
      by (simp add: unat_of_nat)
    with k show "i \<le> word_of_nat k" "word_of_nat k < j"
      by (simp_all add: word_le_nat_alt word_less_nat_alt)
  qed
  then show ?thesis
    using typed_map.load_delete_nat_range [OF typed_map.intro [OF assms], of word_of_nat]
    by (simp add: delete_range_def)
qed

lemma unat_next_window_start:
  "unat (next_window_start wsize seq) = (if seq + 1 = 0 then 0 else unat seq + 1 - unat wsize)"
proof (cases "seq + 1 = 0")
  case True
  then show ?thesis by (simp add: next_window_start_def)
next
  case False
  then have "unat (seq + 1) = unat seq + 1"
    using unatSuc [of seq] by (simp add: add.commute)
  then show ?thesis
    using False unat_sub [of wsize "seq + 1"]
    by (auto simp: next_window_start_def word_less_nat_alt word_le_nat_alt)
qed

lemma next_window_start_le: "0 < wsize \<Longrightarrow> next_window_start wsize seq \<le> seq"
  by (auto simp: word_le_nat_alt unat_next_window_start word_less_nat_alt)

lemma next_window_start_keeps:
  "n < seq \<Longrightarrow> seq - n < wsize \<Longrightarrow> next_window_start wsize seq \<le> n"
  using unat_sub [of n seq]
  by (auto simp: word_le_nat_alt unat_next_window_start word_less_nat_alt)

lemma validate_known_window:
  assumes W: "tm_laws W" and new: "lastSeq info < seq" and ok: "validate_known W wsize info seq = (ok, info')"
  shows "info' = info \<and> \<not> ok \<or>
    ok \<and> lastSeq info' = seq \<and>
    windowStart info' = max (windowStart info) (next_window_start wsize seq) \<and>
    tm_load W (window info') = (\<lambda>x. if windowStart info \<le> x \<and> x < next_window_start wsize seq then None
                                    else ((tm_load W (window info))(seq \<mapsto> True)) x)"
proof -
  note store = typed_map.load_store [OF typed_map.intro [OF W]]
  have n: "\<not> seq \<le> lastSeq info" using new by simp
  consider "tm_load W (window info) seq \<noteq> None"
    | "tm_load W (window info) seq = None" "windowStart info < next_window_start wsize seq"
    | "tm_load W (window info) seq = None" "\<not> windowStart info < next_window_start wsize seq"
    by blast
  then show ?thesis
  proof cases
    case 1
    with n ok show ?thesis by (auto simp: validate_known_def)
  next
    case 2
    with n ok have "ok" and i: "info' = info\<lparr>lastSeq := seq, windowStart := next_window_start wsize seq,
        window := delete_range W (windowStart info) (next_window_start wsize seq)
          (tm_store W (window info) seq True)\<rparr>"
      by (auto simp: validate_known_def Let_def)
    with 2 show ?thesis by (simp add: i store load_delete_range [OF W] max.absorb4 fun_eq_iff)
  next
    case 3
    with n ok have "ok" and i: "info' = info\<lparr>lastSeq := seq, window := tm_store W (window info) seq True\<rparr>"
      by (auto simp: validate_known_def Let_def)
    moreover have "\<not> (windowStart info \<le> x \<and> x < next_window_start wsize seq)" for x
      using 3 le_less_trans by blast
    ultimately show ?thesis using 3 by (simp add: i store max.absorb1 not_less fun_eq_iff) (use leD in blast)
  qed
qed

lemma validate_known_keeps_spent:
  assumes W: "tm_laws W" and ok: "validate_known W wsize info seq = (ok, info')"
    and r: "last_recorded W wsize info"
  shows "last_recorded W wsize info'" and "spent W wsize info n \<Longrightarrow> spent W wsize info' n"
    and "ok \<Longrightarrow> lastSeq info < seq \<Longrightarrow> spent W wsize info' seq"
proof -
  have old: "info' = info" if "seq \<le> lastSeq info"
    using validate_known_older [OF that, of W wsize] ok by simp
  note new = validate_known_window [OF W _ ok]
  show "last_recorded W wsize info'"
  proof (cases "seq \<le> lastSeq info")
    case True with old r show ?thesis by simp
  next
    case False
    with new next_window_start_le [of wsize seq] r show ?thesis
      by (auto simp: last_recorded_def not_le)
  qed
  show "spent W wsize info' n" if s: "spent W wsize info n"
  proof (cases "seq \<le> lastSeq info")
    case True with old s show ?thesis by simp
  next
    case False
    then have lt: "lastSeq info < seq" by simp
    from new [OF lt] show ?thesis
    proof (elim disjE conjE)
      assume "info' = info" with s show ?thesis by simp
    next
      assume l: "lastSeq info' = seq"
        and w: "tm_load W (window info') = (\<lambda>x. if windowStart info \<le> x \<and> x < next_window_start wsize seq
            then None else ((tm_load W (window info))(seq \<mapsto> True)) x)"
      have n: "n < seq" using s lt by (auto simp: spent_def)
      moreover have "tm_load W (window info') n \<noteq> None" if d: "seq - n < wsize"
      proof -
        have "\<not> n < next_window_start wsize seq"
          using next_window_start_keeps [OF n d] by simp
        moreover have "tm_load W (window info) n \<noteq> None"
        proof (cases "n = lastSeq info")
          case True
          have "0 < wsize" using d by (metis word_not_simps(1) word_neq_0_conv)
          with r True show ?thesis by (simp add: last_recorded_def)
        next
          case False
          then have "n < lastSeq info" using s by (auto simp: spent_def)
          moreover have "lastSeq info - n < wsize"
            using \<open>n < lastSeq info\<close> lt d unat_sub [of n seq] unat_sub [of n "lastSeq info"]
            by (simp add: word_less_nat_alt word_le_nat_alt)
          ultimately show ?thesis using s by (auto simp: spent_def)
        qed
        ultimately show ?thesis by (auto simp: w)
      qed
      ultimately show ?thesis by (simp add: spent_def l)
    qed
  qed
  show "spent W wsize info' seq" if "ok" "lastSeq info < seq"
    using new [OF that(2)] that(1) by (auto simp: spent_def)
qed

section \<open>The manager\<close>

definition fresh_info :: "'w window_map \<Rightarrow> uint64 \<Rightarrow> 'w SessionSequenceInfo" where
  "fresh_info W seq = \<lparr>lastSeq = seq, windowStart = seq, window = tm_store W (tm_new W) seq True\<rparr>"

definition sm_all ::
    "('s, 'w) session_map \<Rightarrow> (uint64 \<Rightarrow> 'w SessionSequenceInfo \<Rightarrow> bool) \<Rightarrow> 's SequenceManager \<Rightarrow> bool" where
  "sm_all S P sm \<longleftrightarrow>
     (\<forall>sid info. tm_load S (sm_sessions sm) sid = Some info \<longrightarrow> P (windowSize sm) info)"

lemma ValidateSequence_effect:
  assumes S: "tm_laws S" and v: "ValidateSequence S W sm sid seq ts now = (ok, sm')"
  shows "windowSize sm' = windowSize sm \<and> timestampTolerance sm' = timestampTolerance sm \<and>
    (sm' = sm \<and> \<not> ok \<or>
     tm_load S (sm_sessions sm) sid = None \<and> ok \<and>
       tm_load S (sm_sessions sm') = (tm_load S (sm_sessions sm))(sid \<mapsto> fresh_info W seq) \<or>
     (\<exists>info info'. tm_load S (sm_sessions sm) sid = Some info \<and>
       validate_known W (windowSize sm) info seq = (ok, info') \<and>
       tm_load S (sm_sessions sm') = (tm_load S (sm_sessions sm))(sid \<mapsto> info')))"
  using v typed_map.load_store [OF typed_map.intro [OF S]]
  by (auto simp: ValidateSequence_def fresh_info_def Let_def
      split: if_splits option.splits prod.splits)

lemma NewSequenceManager_all: "tm_laws S \<Longrightarrow> sm_all S P (NewSequenceManager S wsize tol)"
  by (simp add: sm_all_def NewSequenceManager_def typed_map.load_new [OF typed_map.intro])

lemma ValidateSequence_all:
  assumes S: "tm_laws S" and v: "ValidateSequence S W sm sid seq ts now = (ok, sm')"
    and all: "sm_all S P sm" and fresh: "P (windowSize sm) (fresh_info W seq)"
    and step: "\<And>info ok info'. P (windowSize sm) info \<Longrightarrow>
      validate_known W (windowSize sm) info seq = (ok, info') \<Longrightarrow> P (windowSize sm) info'"
  shows "sm_all S P sm'"
  using ValidateSequence_effect [OF S v] all fresh step
  by (auto simp: sm_all_def split: if_splits) blast

lemma validate_run_all:
  assumes S: "tm_laws S" and r: "validate_run S W ps sm = (oks, sm')" and all: "sm_all S P sm"
    and fresh: "\<And>p ws. p \<in> set ps \<Longrightarrow> P ws (fresh_info W (sp_seq p))"
    and step: "\<And>p ws info ok info'. p \<in> set ps \<Longrightarrow> P ws info \<Longrightarrow>
      validate_known W ws info (sp_seq p) = (ok, info') \<Longrightarrow> P ws info'"
  shows "sm_all S P sm' \<and> windowSize sm' = windowSize sm"
  using r all fresh step
proof (induction ps arbitrary: sm oks)
  case (Cons p ps)
  obtain ok sm1 where v: "ValidateSequence S W sm (sp_sid p) (sp_seq p) (sp_timestamp p) (sp_now p) = (ok, sm1)"
    by fastforce
  have all1: "sm_all S P sm1"
    by (rule ValidateSequence_all [OF S v Cons.prems(2)], rule Cons.prems(3), simp,
        rule Cons.prems(4) [of p], simp_all)
  have size1: "windowSize sm1 = windowSize sm"
    using ValidateSequence_effect [OF S v] by simp
  obtain oks1 where run1: "validate_run S W ps sm1 = (oks1, sm')"
    using Cons.prems(1) v by (auto simp: validate_packet_def split: prod.splits)
  have "sm_all S P sm' \<and> windowSize sm' = windowSize sm1"
  proof (rule Cons.IH [OF run1 all1])
    show "P ws (fresh_info W (sp_seq q))" if "q \<in> set ps" for q ws
      using Cons.prems(3) [of q] that by simp
    show "P ws info'" if "q \<in> set ps" "P ws info" "validate_known W ws info (sp_seq q) = (ok, info')"
      for q ws info ok info'
      using Cons.prems(4) [of q ws info ok info'] that by simp
  qed
  with size1 show ?case by simp
qed simp

lemma fresh_last_recorded: "tm_laws W \<Longrightarrow> last_recorded W ws (fresh_info W seq)"
  by (simp add: last_recorded_def fresh_info_def typed_map.load_store [OF typed_map.intro])

text \<open>The session \<open>sid\<close> is known and has spent the number \<open>n\<close>.\<close>

definition sid_spent ::
    "('s, 'w) session_map \<Rightarrow> 'w window_map \<Rightarrow> 's SequenceManager \<Rightarrow> uint64 \<Rightarrow> uint64 \<Rightarrow> bool" where
  "sid_spent S W sm sid n \<longleftrightarrow>
     (\<exists>info. tm_load S (sm_sessions sm) sid = Some info \<and> spent W (windowSize sm) info n)"

lemma sid_spent_refused:
  "sid_spent S W sm sid n \<Longrightarrow> \<not> fst (ValidateSequence S W sm sid n ts now)"
  by (auto simp: sid_spent_def ValidateSequence_def split: option.splits prod.splits
      dest!: validate_known_spent)

lemma ValidateSequence_keeps_spent:
  assumes S: "tm_laws S" and W: "tm_laws W" and all: "sm_all S (last_recorded W) sm"
    and v: "ValidateSequence S W sm sid' seq ts now = (ok, sm')" and s: "sid_spent S W sm sid n"
  shows "sid_spent S W sm' sid n"
  using ValidateSequence_effect [OF S v] s all validate_known_keeps_spent(2) [OF W]
  by (auto simp: sid_spent_def sm_all_def)

lemma fresh_spent: "spent W ws (fresh_info W n) n"
  by (simp add: spent_def fresh_info_def)

lemma ValidateSequence_spends:
  assumes S: "tm_laws S" and W: "tm_laws W" and all: "sm_all S (last_recorded W) sm"
    and v: "ValidateSequence S W sm sid n ts now = (True, sm')"
    and top: "\<And>info. tm_load S (sm_sessions sm) sid = Some info \<Longrightarrow> lastSeq info < n"
  shows "sid_spent S W sm' sid n"
  using ValidateSequence_effect [OF S v] top all validate_known_keeps_spent(3) [OF W]
  by (auto simp: sid_spent_def sm_all_def fresh_spent)

lemma validate_run_keeps_spent:
  assumes S: "tm_laws S" and W: "tm_laws W"
  shows "validate_run S W ps sm = (oks, sm') \<Longrightarrow> sm_all S (last_recorded W) sm \<Longrightarrow>
    sid_spent S W sm sid n \<Longrightarrow> sid_spent S W sm' sid n"
proof (induction ps arbitrary: sm oks)
  case (Cons p ps)
  obtain ok sm1 where v: "ValidateSequence S W sm (sp_sid p) (sp_seq p) (sp_timestamp p) (sp_now p) = (ok, sm1)"
    by fastforce
  have "sm_all S (last_recorded W) sm1"
    using ValidateSequence_all [OF S v Cons.prems(2)] fresh_last_recorded [OF W]
      validate_known_keeps_spent(1) [OF W] by blast
  moreover have "sid_spent S W sm1 sid n"
    by (rule ValidateSequence_keeps_spent [OF S W Cons.prems(2) v Cons.prems(3)])
  ultimately show ?case
    using Cons.IH [of sm1] Cons.prems(1) v by (auto simp: validate_packet_def split: prod.splits)
qed simp

section \<open>Properties\<close>

lemma run_last_recorded:
  assumes "tm_laws S" "tm_laws W" "validate_run S W ps (NewSequenceManager S wsize tol) = (oks, sm)"
  shows "sm_all S (last_recorded W) sm"
  by (rule validate_run_all [OF assms(1,3) NewSequenceManager_all [OF assms(1)], THEN conjunct1],
      rule fresh_last_recorded [OF assms(2)], erule (1) validate_known_keeps_spent(1) [OF assms(2), rotated])

text \<open>
  Property C3. Replays of in-order traffic are refused: once a session's number has been
  accepted as that session's highest, no later packet of the session with the same number is
  accepted, however many packets of any sessions come between, and whatever their timestamps
  and the clock. (The session must stay registered: there is no \<open>RemoveSession\<close> between.)
\<close>

theorem accepted_highest_never_replayed:
  assumes "tm_laws S" "tm_laws W"
    and "validate_run S W before (NewSequenceManager S wsize tol) = (oks1, sm1)"
    and "ValidateSequence S W sm1 sid n ts now = (True, sm2)"
    and "\<And>info. tm_load S (sm_sessions sm1) sid = Some info \<Longrightarrow> lastSeq info < n"
    and "validate_run S W between sm2 = (oks2, sm3)"
  shows "\<not> fst (ValidateSequence S W sm3 sid n ts' now')"
proof -
  have r1: "sm_all S (last_recorded W) sm1"
    by (rule run_last_recorded [OF assms(1-3)])
  then have r2: "sm_all S (last_recorded W) sm2"
    using ValidateSequence_all [OF assms(1,4)] fresh_last_recorded [OF assms(2)]
      validate_known_keeps_spent(1) [OF assms(2)] by blast
  have "sid_spent S W sm2 sid n"
    by (rule ValidateSequence_spends [OF assms(1,2) r1 assms(4,5)])
  then have "sid_spent S W sm3 sid n"
    by (rule validate_run_keeps_spent [OF assms(1,2,6) r2])
  then show ?thesis by (rule sid_spent_refused)
qed

definition pkt :: "uint64 \<Rightarrow> uint64 \<Rightarrow> seq_packet" where
  "pkt sid seq = \<lparr>sp_sid = sid, sp_seq = seq, sp_timestamp = 0, sp_now = 0\<rparr>"

type_synonym alist_window = "(uint64 \<times> bool) list"
type_synonym alist_sessions = "(uint64 \<times> alist_window SessionSequenceInfo) list"

definition al_S :: "(alist_sessions, alist_window) session_map" where "al_S = alist_tm"
definition al_W :: "alist_window window_map" where "al_W = alist_tm"

lemmas run_eval = pkt_def validate_packet_def ValidateSequence_def validate_known_def Let_def
  timestamp_ok_def next_window_start_def delete_range_def NewSequenceManager_def al_S_def al_W_def

text \<open>A session at 7 takes 9 and then 12; a second 9 is refused.\<close>

theorem accepted_highest_never_replayed_witness:
  "fst (validate_run al_S al_W [pkt 1 7, pkt 1 9, pkt 2 9, pkt 1 12] (NewSequenceManager al_S 8 0)) =
     [True, True, True, True] \<and>
   \<not> fst (ValidateSequence al_S al_W
       (snd (validate_run al_S al_W [pkt 1 7, pkt 1 9, pkt 2 9, pkt 1 12] (NewSequenceManager al_S 8 0)))
       1 9 0 0)"
proof -
  let ?sm0 = "NewSequenceManager al_S 8 0"
  let ?sm1 = "snd (validate_run al_S al_W [pkt 1 7] ?sm0)"
  let ?sm2 = "snd (ValidateSequence al_S al_W ?sm1 1 9 0 0)"
  have run: "fst (validate_run al_S al_W [pkt 1 7, pkt 1 9, pkt 2 9, pkt 1 12] ?sm0) =
      [True, True, True, True]"
    by (simp add: run_eval)
  have "\<not> fst (ValidateSequence al_S al_W (snd (validate_run al_S al_W [pkt 2 9, pkt 1 12] ?sm2)) 1 9 0 0)"
  proof (rule accepted_highest_never_replayed)
    show "tm_laws al_S" "tm_laws al_W" by (simp_all add: al_S_def al_W_def)
    show "validate_run al_S al_W [pkt 1 7] ?sm0 = (fst (validate_run al_S al_W [pkt 1 7] ?sm0), ?sm1)"
      by simp
    show "ValidateSequence al_S al_W ?sm1 1 9 0 0 = (True, ?sm2)" by (simp add: run_eval)
    show "lastSeq info < 9" if "tm_load al_S (sm_sessions ?sm1) 1 = Some info" for info
      using that by (simp add: run_eval) auto
    show "validate_run al_S al_W [pkt 2 9, pkt 1 12] ?sm2 =
        (fst (validate_run al_S al_W [pkt 2 9, pkt 1 12] ?sm2),
         snd (validate_run al_S al_W [pkt 2 9, pkt 1 12] ?sm2))" by simp
  qed
  with run show ?thesis
    by (simp add: validate_packet_def pkt_def case_prod_unfold)
qed

text \<open>
  Property C4. A flaw of the check: a late number that is inside the window and was not yet
  seen is accepted without being recorded, so the same packet is accepted again and again.
  After any history, \<open>k\<close> copies of such a packet are all accepted, for every \<open>k\<close>.
\<close>

theorem late_packet_replayed_forever:
  assumes "tm_laws S" "tm_laws W"
    and "tm_load S (sm_sessions sm) (sp_sid p) = Some info"
    and "sp_seq p < lastSeq info" "lastSeq info - sp_seq p < windowSize sm"
    and "tm_load W (window info) (sp_seq p) = None"
    and "timestamp_ok (timestampTolerance sm) (sp_now p) (sp_timestamp p)"
  shows "fst (validate_run S W (replicate k p) sm) = replicate k True"
  using assms(3-)
proof (induction k arbitrary: sm)
  case (Suc k)
  let ?sm = "sm\<lparr>sm_sessions := tm_store S (sm_sessions sm) (sp_sid p) info\<rparr>"
  have "sp_seq p \<noteq> lastSeq info" "sp_seq p \<le> lastSeq info"
    using Suc.prems(2) by auto
  then have "validate_packet S W sm p = (True, ?sm)"
    using Suc.prems by (simp add: validate_packet_def ValidateSequence_def validate_known_def)
  moreover have "fst (validate_run S W (replicate k p) ?sm) = replicate k True"
    by (rule Suc.IH) (use Suc.prems in
        \<open>simp_all add: typed_map.load_store [OF typed_map.intro [OF assms(1)]]\<close>)
  ultimately show ?case by (simp add: case_prod_unfold)
qed simp

theorem late_packet_replayed_forever_witness:
  "fst (validate_run al_S al_W [pkt 1 5, pkt 1 7, pkt 1 6, pkt 1 6, pkt 1 6] (NewSequenceManager al_S 8 0)) =
     [True, True, True, True, True]"
proof -
  let ?sm = "snd (validate_run al_S al_W [pkt 1 5, pkt 1 7] (NewSequenceManager al_S 8 0))"
  let ?info = "\<lparr>lastSeq = 7, windowStart = 5, window = [(5, True), (7, True)]\<rparr>"
  have "fst (validate_run al_S al_W (replicate 3 (pkt 1 6)) ?sm) = replicate 3 True"
    by (rule late_packet_replayed_forever [where info = ?info]) (simp_all add: run_eval)
  moreover have "fst (validate_run al_S al_W [pkt 1 5, pkt 1 7] (NewSequenceManager al_S 8 0)) = [True, True]"
    by (simp add: run_eval)
  ultimately show ?thesis
    by (simp add: case_prod_unfold numeral_3_eq_3)
qed

lemma fresh_window_ok: "tm_laws W \<Longrightarrow> window_ok W ws (fresh_info W seq)"
  by (simp add: window_ok_def fresh_info_def typed_map.load_store [OF typed_map.intro]
      typed_map.load_new [OF typed_map.intro])

lemma validate_known_window_ok:
  assumes W: "tm_laws W" and ok: "window_ok W ws info" and "seq + 1 \<noteq> 0"
    and v: "validate_known W ws info seq = (r, info')"
  shows "window_ok W ws info'"
proof (cases "seq \<le> lastSeq info")
  case True
  with validate_known_older [OF True, of W ws] v ok show ?thesis by simp
next
  case False
  then have lt: "lastSeq info < seq" by simp
  let ?st = "next_window_start ws seq"
  from validate_known_window [OF W lt v] show ?thesis
  proof (elim disjE conjE)
    assume "info' = info" with ok show ?thesis by simp
  next
    assume l: "lastSeq info' = seq" and st: "windowStart info' = max (windowStart info) ?st"
      and w: "tm_load W (window info') = (\<lambda>x. if windowStart info \<le> x \<and> x < ?st then None
               else ((tm_load W (window info))(seq \<mapsto> True)) x)"
    have start: "windowStart info \<le> seq"
      using ok lt by (simp add: window_ok_def word_le_nat_alt word_less_nat_alt)
    have "windowStart info' \<le> k \<and> k \<le> lastSeq info'" if k: "k \<in> dom (tm_load W (window info'))" for k
    proof (cases "k = seq")
      case True
      with k start show ?thesis by (auto simp: w st l not_less split: if_splits)
    next
      case False
      with k w have "tm_load W (window info) k \<noteq> None" "\<not> (windowStart info \<le> k \<and> k < ?st)"
        by (auto split: if_splits)
      moreover from this(1) ok have "windowStart info \<le> k" "k \<le> lastSeq info"
        by (auto simp: window_ok_def)
      moreover from this(2) lt have "k \<le> seq" by (rule order_trans [OF _ less_imp_le])
      ultimately show ?thesis by (auto simp: st l)
    qed
    moreover have "unat (windowStart info') \<le> unat seq + 1"
      using start unat_next_window_start [of ws seq] by (auto simp: st max_def word_le_nat_alt)
    moreover have "unat seq + 1 \<le> unat (windowStart info') + max 1 (unat ws)"
      using assms(3) unat_next_window_start [of ws seq]
      by (auto simp: st max_def word_le_nat_alt)
    ultimately show ?thesis by (simp add: window_ok_def l)
  qed
qed

lemma window_ok_len:
  assumes W: "tm_laws W" and ok: "window_ok W ws info"
  shows "tm_len W (window info) \<le> max 1 (uint ws)"
proof -
  let ?D = "dom (tm_load W (window info))"
  have "unat ` ?D \<subseteq> {unat (windowStart info) ..< unat (lastSeq info) + 1}"
    using ok by (auto simp: window_ok_def word_le_nat_alt less_Suc_eq_le)
  then have "card (unat ` ?D) \<le> unat (lastSeq info) + 1 - unat (windowStart info)"
    using card_mono [of "{unat (windowStart info) ..< unat (lastSeq info) + 1}" "unat ` ?D"] by simp
  moreover have "card (unat ` ?D) = card ?D"
    by (rule card_image) (simp add: inj_on_def word_unat_eq_iff)
  moreover have "unat (lastSeq info) + 1 \<le> unat (windowStart info) + max 1 (unat ws)"
    using ok by (simp add: window_ok_def)
  ultimately have "card ?D \<le> max 1 (unat ws)" by linarith
  then have "int (card ?D) \<le> int (max 1 (unat ws))" by (rule of_nat_mono)
  moreover have "int (max 1 (unat ws)) = max 1 (uint ws)"
    by (simp add: of_nat_max)
  ultimately show ?thesis
    by (simp only: typed_map.len_range [OF typed_map.intro [OF W]]
        typed_map.length_range [OF typed_map.intro [OF W]])
qed

text \<open>
  The memory of the replay check is bounded: after any run of packets (of any
  sessions, none carrying the number \<open>2 ^ 64 - 1\<close>), the window of every session holds no more
  than \<open>windowSize\<close> numbers (or one number when the size is 0).
\<close>

theorem window_memory_bounded:
  assumes "tm_laws S" "tm_laws W"
    and "validate_run S W ps (NewSequenceManager S wsize tol) = (oks, sm)"
    and "\<And>p. p \<in> set ps \<Longrightarrow> sp_seq p + 1 \<noteq> 0"
    and "tm_load S (sm_sessions sm) sid = Some info"
  shows "tm_len W (window info) \<le> max 1 (uint wsize)"
proof -
  have "sm_all S (window_ok W) sm \<and> windowSize sm = windowSize (NewSequenceManager S wsize tol)"
    by (rule validate_run_all [OF assms(1,3) NewSequenceManager_all [OF assms(1)]],
        rule fresh_window_ok [OF assms(2)],
        rule validate_known_window_ok [OF assms(2)], assumption, rule assms(4), assumption+)
  then have "window_ok W wsize info"
    using assms(5) by (auto simp: sm_all_def NewSequenceManager_def)
  then show ?thesis by (rule window_ok_len [OF assms(2)])
qed

theorem window_memory_bounded_witness:
  "tm_len al_W (window \<lparr>lastSeq = 4, windowStart = 3, window = [(3, True), (4, True)]\<rparr>) \<le> 2"
proof -
  let ?ps = "[pkt 1 1, pkt 1 2, pkt 1 3, pkt 1 4]" and ?sm0 = "NewSequenceManager al_S 2 0"
  have "tm_len al_W (window \<lparr>lastSeq = 4, windowStart = 3, window = [(3, True), (4, True)]\<rparr>)
      \<le> max 1 (uint (2 :: uint64))"
  proof (rule window_memory_bounded [of al_S al_W ?ps 2 0 _ _ 1])
    show "tm_laws al_S" "tm_laws al_W" by (simp_all add: al_S_def al_W_def)
    show "validate_run al_S al_W ?ps ?sm0 = (fst (validate_run al_S al_W ?ps ?sm0), snd (validate_run al_S al_W ?ps ?sm0))"
      by simp
    show "sp_seq p + 1 \<noteq> 0" if "p \<in> set ?ps" for p using that by (auto simp: pkt_def)
    show "tm_load al_S (sm_sessions (snd (validate_run al_S al_W ?ps ?sm0))) 1 =
        Some \<lparr>lastSeq = 4, windowStart = 3, window = [(3, True), (4, True)]\<rparr>"
      by (simp add: run_eval upt_rec word_le_nat_alt)
  qed
  then show ?thesis by simp
qed

lemma sint_minus_int64:
  "sint (- d :: int64) = (if d = 2 ^ 63 then - (2 ^ 63) else - sint d)"
proof (cases "d = 2 ^ 63")
  case False
  have "sint d \<noteq> - (2 ^ 63)"
  proof
    assume "sint d = - (2 ^ 63)"
    moreover have "word_of_int (sint d) = d" by simp
    ultimately have "d = word_of_int (- (2 ^ 63))" by simp
    with False show False by simp
  qed
  with sint_greater_eq [of d] sint_less [of d]
  have "- (2 ^ 63) \<le> - sint d" "- sint d < 2 ^ 63" by auto
  then have "signed_take_bit (LENGTH(64) - 1) (- sint d) = - sint d"
    by (simp add: signed_take_bit_int_eq_self)
  then have "sint (word_of_int (- sint d) :: int64) = - sint d"
    by (simp only: sint_sbintrunc')
  moreover have "word_of_int (- sint d) = - d" by simp
  ultimately show ?thesis using False by simp
qed simp

text \<open>
  What the timestamp test accepts: a timestamp of 0, a timestamp whose 64-bit
  distance from the clock is within the tolerance, and, a flaw, the one timestamp at distance
  \<open>2 ^ 63\<close>, whose negation overflows and stays negative, however small the tolerance is.
\<close>

theorem timestamp_test_exact:
  "timestamp_ok tolerance now ts \<longleftrightarrow>
     ts = 0 \<or> now - ts = 2 ^ 63 \<or> \<bar>sint (now - ts)\<bar> \<le> sint tolerance"
proof -
  obtain d where d: "now - ts = d" by blast
  show ?thesis
    using sint_greater_eq [of tolerance]
    by (auto simp: timestamp_ok_def Let_def d sint_minus_int64 not_less abs_if)
qed

end
