(* ===== verification/Key_Rotation.thy ===== *)
theory Key_Rotation
  imports Prelude
begin

text \<open>
  Key rotation, \<^verbatim>\<open>zNet/key_rotation.go\<close>: a current AES key with an id, a bounded history of
  the keys before it, and the notification message. The random key of \<^verbatim>\<open>generateAESKey\<close> is
  an argument. The history, a Go map from key ids, is an association list whose order stands
  for the order in which \<^verbatim>\<open>range\<close> visits it.
\<close>

record keyRotationData =
  currentKey :: "byte list"
  currentKeyID :: uint32
  previousKeys :: "(uint32 \<times> byte list) list"

record KeyRotationManager =
  krm_data :: keyRotationData
  krm_interval :: duration
  maxHistoryKeys :: int
  lastRotation :: int

definition NewKeyRotationManager :: "byte list \<Rightarrow> int \<Rightarrow> duration \<Rightarrow> int \<Rightarrow> KeyRotationManager" where
  "NewKeyRotationManager initialKey nowUnix interval maxHistory =
     \<lparr>krm_data = \<lparr>currentKey = initialKey, currentKeyID = 1, previousKeys = []\<rparr>,
      krm_interval = interval, maxHistoryKeys = maxHistory, lastRotation = nowUnix\<rparr>"

text \<open>The loop that looks for the smallest id; 0 means that none was found yet.\<close>

definition min_key_id :: "uint32 list \<Rightarrow> uint32" where
  "min_key_id ids = foldl (\<lambda>minKeyID k. if minKeyID = 0 \<or> k < minKeyID then k else minKeyID) 0 ids"

definition Rotate :: "KeyRotationManager \<Rightarrow> byte list \<Rightarrow> int \<Rightarrow> (byte list \<times> uint32) \<times> KeyRotationManager" where
  "Rotate krm newKey nowUnix =
     (let data = krm_data krm;
          newKeyID = currentKeyID data + 1;
          prev = AList.update (currentKeyID data) (currentKey data) (previousKeys data);
          prev = (if int (length prev) > maxHistoryKeys krm
                  then let minKeyID = min_key_id (map fst prev)
                       in if minKeyID > 0 then AList.delete minKeyID prev else prev
                  else prev);
          newData = \<lparr>currentKey = newKey, currentKeyID = newKeyID, previousKeys = prev\<rparr>
      in ((newKey, newKeyID), krm\<lparr>krm_data := newData, lastRotation := nowUnix\<rparr>))"

definition GetCurrentKey :: "KeyRotationManager \<Rightarrow> byte list \<times> uint32" where
  "GetCurrentKey krm = (currentKey (krm_data krm), currentKeyID (krm_data krm))"

definition GetKeyByID :: "KeyRotationManager \<Rightarrow> uint32 \<Rightarrow> byte list option" where
  "GetKeyByID krm keyID =
     (let data = krm_data krm in
      if keyID = currentKeyID data then Some (currentKey data)
      else map_of (previousKeys data) keyID)"

text \<open>\<open>now\<close> in nanoseconds of the Unix epoch, the stored instant in seconds.\<close>

definition ShouldRotate :: "KeyRotationManager \<Rightarrow> time \<Rightarrow> bool" where
  "ShouldRotate krm now \<longleftrightarrow> time_Sub now (lastRotation krm * 1000000000) \<ge> krm_interval krm"

text \<open>
  One tick of the rotation goroutine: the manager afterwards and the key and id that
  \<^verbatim>\<open>notifySessions\<close> hands to every session, if there was a rotation.
\<close>

definition rotation_tick ::
    "KeyRotationManager \<Rightarrow> byte list \<Rightarrow> time \<Rightarrow> (byte list \<times> uint32) option \<times> KeyRotationManager" where
  "rotation_tick krm newKey now =
     (if ShouldRotate krm now
      then (case Rotate krm newKey (now div 1000000000) of (kid, krm') \<Rightarrow> (Some kid, krm'))
      else (None, krm))"

section \<open>The notification\<close>

record KeyRotationNotify =
  notify_KeyID :: uint32
  notify_Timestamp :: int64
  notify_Nonce :: uint64

definition order_or_little :: "byte_order option \<Rightarrow> byte_order" where
  "order_or_little ord = (case ord of None \<Rightarrow> LittleEndian | Some bo \<Rightarrow> bo)"

definition MarshalWithByteOrder :: "KeyRotationNotify \<Rightarrow> byte_order option \<Rightarrow> byte list" where
  "MarshalWithByteOrder k ord =
     (let bo = order_or_little ord;
          data = replicate 20 0;
          data = put_at 0 (PutUint32 bo (notify_KeyID k)) data;
          data = put_at 4 (PutUint64 bo (notify_Timestamp k)) data
      in put_at 12 (PutUint64 bo (notify_Nonce k)) data)"

text \<open>\<open>None\<close> for the result \<^verbatim>\<open>false\<close>, which leaves the receiver alone.\<close>

definition UnmarshalWithByteOrder :: "byte list \<Rightarrow> byte_order option \<Rightarrow> KeyRotationNotify option" where
  "UnmarshalWithByteOrder data ord =
     (if length data < 20 then None
      else let bo = order_or_little ord in
        Some \<lparr>notify_KeyID = Uint32 bo (subslice 0 4 data),
              notify_Timestamp = Uint64 bo (subslice 4 12 data),
              notify_Nonce = Uint64 bo (subslice 12 20 data)\<rparr>)"

lemma notify_layout:
  "MarshalWithByteOrder k ord =
     PutUint32 (order_or_little ord) (notify_KeyID k) @
     PutUint64 (order_or_little ord) (notify_Timestamp k) @
     PutUint64 (order_or_little ord) (notify_Nonce k)"
  unfolding MarshalWithByteOrder_def Let_def
  by (simp only: put_at_fill0 put_at_fill length_append length_PutUint) (simp add: put_at_fill)

section \<open>The history\<close>

text \<open>The keys of ids \<open>lo, \<dots>, hi - 1\<close>; \<open>keys ! 0\<close> is the key with id 1.\<close>

definition history :: "byte list list \<Rightarrow> nat \<Rightarrow> nat \<Rightarrow> (uint32 \<times> byte list) list" where
  "history keys lo hi = map (\<lambda>i. (word_of_nat i, keys ! (i - 1))) [lo ..< hi]"

lemma unat_id: "i < 2 ^ 32 \<Longrightarrow> unat (word_of_nat i :: uint32) = i"
  by (simp add: unat_of_nat)

lemma id_eq_iff: "i < 2 ^ 32 \<Longrightarrow> j < 2 ^ 32 \<Longrightarrow> (word_of_nat i :: uint32) = word_of_nat j \<longleftrightarrow> i = j"
  by (metis unat_id)

lemma foldl_min_keeps:
  "k \<noteq> 0 \<Longrightarrow> (\<And>x. x \<in> set xs \<Longrightarrow> \<not> x < k) \<Longrightarrow>
     foldl (\<lambda>m (k :: uint32). if m = 0 \<or> k < m then k else m) k xs = k"
  by (induction xs) auto

lemma min_key_id_Cons:
  "k \<noteq> 0 \<Longrightarrow> (\<And>x. x \<in> set xs \<Longrightarrow> \<not> x < k) \<Longrightarrow> min_key_id (k # xs) = k"
  by (simp add: min_key_id_def foldl_min_keeps)

lemma map_of_history:
  assumes "hi \<le> 2 ^ 32"
  shows "map_of (history keys lo hi) kid =
     (if lo \<le> unat kid \<and> unat kid < hi then Some (keys ! (unat kid - 1)) else None)"
  using assms
proof (induction hi)
  case (Suc hi)
  have "kid = word_of_nat hi \<longleftrightarrow> unat kid = hi"
    using Suc.prems by (simp add: word_unat_eq_iff unat_id)
  with Suc show ?case by (auto simp: history_def map_add_def split: option.splits)
qed (simp add: history_def)

lemma distinct_history: "hi \<le> 2 ^ 32 \<Longrightarrow> distinct (map fst (history keys lo hi))"
  by (auto simp: history_def distinct_map inj_on_def comp_def word_unat_eq_iff unat_id)

lemma id_notin_history:
  "hi \<le> 2 ^ 32 \<Longrightarrow> i < 2 ^ 32 \<Longrightarrow> i < lo \<or> hi \<le> i \<Longrightarrow> word_of_nat i \<notin> fst ` set (history keys lo hi)"
  by (auto simp: history_def id_eq_iff)

lemma update_history:
  assumes "hi < 2 ^ 32" "lo \<le> hi"
  shows "AList.update (word_of_nat hi) (keys ! (hi - 1)) (history keys lo hi) = history keys lo (Suc hi)"
  using assms id_notin_history [of hi hi lo keys] by (simp add: alist_update_new history_def)

lemma history_Cons: "lo < hi \<Longrightarrow> history keys lo hi = (word_of_nat lo, keys ! (lo - 1)) # history keys (Suc lo) hi"
  by (simp add: history_def upt_conv_Cons)

lemma length_history [simp]: "length (history keys lo hi) = hi - lo"
  by (simp add: history_def)

lemma min_key_id_history:
  assumes "0 < lo" "lo < hi" "hi \<le> 2 ^ 32"
  shows "min_key_id (map fst (history keys lo hi)) = word_of_nat lo" and "(0 :: uint32) < word_of_nat lo"
proof -
  have "unat (word_of_nat lo :: uint32) = lo" using assms by (simp add: unat_id)
  then show pos: "(0 :: uint32) < word_of_nat lo"
    using assms by (simp add: word_less_nat_alt)
  have "\<not> x < word_of_nat lo" if "x \<in> set (map fst (history keys (Suc lo) hi))" for x
    using that assms by (auto simp: history_def word_less_nat_alt unat_id)
  then show "min_key_id (map fst (history keys lo hi)) = word_of_nat lo"
    using assms(2) pos by (simp add: history_Cons) (rule min_key_id_Cons, auto)
qed

primrec rotate_all :: "KeyRotationManager \<Rightarrow> (byte list \<times> int) list \<Rightarrow> KeyRotationManager" where
  "rotate_all krm [] = krm"
| "rotate_all krm (r # rs) = rotate_all (snd (Rotate krm (fst r) (snd r))) rs"

lemma rotate_all_append: "rotate_all krm (rs @ [r]) = snd (Rotate (rotate_all krm rs) (fst r) (snd r))"
  by (induction rs arbitrary: krm) auto

lemma maxHistoryKeys_rotate_all [simp]: "maxHistoryKeys (rotate_all krm rs) = maxHistoryKeys krm"
  by (induction rs arbitrary: krm) (auto simp: Rotate_def Let_def)

lemma history_cong:
  "(\<And>i. lo \<le> i \<Longrightarrow> i < hi \<Longrightarrow> keys ! (i - 1) = keys' ! (i - 1)) \<Longrightarrow> history keys lo hi = history keys' lo hi"
  by (simp add: history_def)

lemma Rotate_history:
  assumes d: "krm_data krm = \<lparr>currentKey = keys ! (hi - 1), currentKeyID = word_of_nat hi,
      previousKeys = history keys (hi - h) hi\<rparr>"
    and h: "h = min (hi - 1) (nat (maxHistoryKeys krm))" and hi: "0 < hi" "Suc hi < 2 ^ 32"
  shows "krm_data (snd (Rotate krm k t)) = \<lparr>currentKey = k, currentKeyID = word_of_nat (Suc hi),
      previousKeys = history keys (Suc hi - min hi (nat (maxHistoryKeys krm))) (Suc hi)\<rparr>"
proof -
  let ?m = "maxHistoryKeys krm"
  have upd: "AList.update (word_of_nat hi) (keys ! (hi - Suc 0)) (history keys (hi - h) hi) = history keys (hi - h) (Suc hi)"
    using update_history [of hi "hi - h" keys] hi by simp
  have lo: "0 < hi - h" "hi - h < Suc hi" using h hi by auto
  note mini = min_key_id_history(1) [OF lo, of keys] min_key_id_history(2) [OF lo]
  have del: "AList.delete (word_of_nat (hi - h)) (history keys (hi - h) (Suc hi)) = history keys (Suc (hi - h)) (Suc hi)"
  proof -
    have "word_of_nat (hi - h) \<notin> fst ` set (history keys (Suc (hi - h)) (Suc hi))"
      by (rule id_notin_history) (use hi in auto)
    then show ?thesis unfolding history_Cons [OF lo(2)] by (rule alist_delete_hd)
  qed
  show ?thesis
  proof (cases "int (length (history keys (hi - h) (Suc hi))) > ?m")
    case True
    moreover have "Suc (hi - h) = Suc hi - min hi (nat ?m)"
      using True h hi by auto
    ultimately show ?thesis
      using mini hi del by (simp add: Rotate_def d upd Let_def del: length_history)
  next
    case False
    moreover have "Suc hi - min hi (nat ?m) = hi - h" using False h hi by auto
    ultimately show ?thesis by (simp add: Rotate_def d upd Let_def del: length_history)
  qed
qed

lemma rotate_all_history:
  fixes rs :: "(byte list \<times> int) list" and k1 :: "byte list"
  defines "keys \<equiv> \<lambda>rs. k1 # map fst rs"
  assumes "length rs + 1 < 2 ^ 32"
  shows "krm_data (rotate_all (NewKeyRotationManager k1 t0 iv maxH) rs) =
    \<lparr>currentKey = keys rs ! length rs, currentKeyID = word_of_nat (length rs + 1),
     previousKeys = history (keys rs) (length rs + 1 - min (length rs) (nat maxH)) (length rs + 1)\<rparr>"
  using assms(2)
proof (induction rs rule: rev_induct)
  case Nil
  then show ?case by (simp add: keys_def NewKeyRotationManager_def history_def)
next
  case (snoc r rs)
  let ?n = "length rs" and ?krm = "rotate_all (NewKeyRotationManager k1 t0 iv maxH) rs"
  have m: "maxHistoryKeys ?krm = maxH" by (simp add: NewKeyRotationManager_def)
  have "krm_data ?krm = \<lparr>currentKey = keys rs ! (?n + 1 - 1), currentKeyID = word_of_nat (?n + 1),
      previousKeys = history (keys rs) (?n + 1 - min (?n + 1 - 1) (nat maxH)) (?n + 1)\<rparr>"
    using snoc by simp
  from Rotate_history [OF this, of "fst r" "snd r"] snoc.prems
  have "krm_data (snd (Rotate ?krm (fst r) (snd r))) = \<lparr>currentKey = fst r, currentKeyID = word_of_nat (?n + 2),
      previousKeys = history (keys rs) (?n + 2 - min (?n + 1) (nat maxH)) (?n + 2)\<rparr>"
    by (simp add: m del: maxHistoryKeys_rotate_all)
  moreover have "history (keys rs) lo (?n + 2) = history (keys (rs @ [r])) lo (?n + 2)" for lo
    by (rule history_cong) (auto simp: keys_def nth_append nth_Cons split: nat.splits)
  moreover have "keys (rs @ [r]) ! (?n + 1) = fst r" by (simp add: keys_def nth_append)
  ultimately show ?case by (simp add: rotate_all_append)
qed

section \<open>Properties\<close>

text \<open>
  Property C5. Which keys survive rotation: after the initial key and fewer than \<open>2 ^ 32 - 1\<close>
  rotations, \<open>GetKeyByID\<close> returns, for the ids of the last \<open>maxHistoryKeys\<close> keys and of the
  current one, exactly the key generated for that id, and nothing for any other id. Hence
  the history never holds more than \<open>maxHistoryKeys\<close> keys, and a packet encrypted under a key
  that recent can still be decrypted.
\<close>

theorem key_history_exact:
  assumes "length rs + 1 < 2 ^ 32"
  shows "GetKeyByID (rotate_all (NewKeyRotationManager k1 t0 iv maxH) rs) kid =
    (if unat kid \<le> length rs + 1 \<and> length rs + 1 - min (length rs) (nat maxH) \<le> unat kid
     then Some ((k1 # map fst rs) ! (unat kid - 1)) else None)"
proof -
  have "kid = word_of_nat (length rs + 1) \<longleftrightarrow> unat kid = length rs + 1"
    using assms unat_id [of "length rs + 1"] by (auto simp: word_unat_eq_iff)
  then show ?thesis
    using assms by (auto simp: GetKeyByID_def rotate_all_history map_of_history Let_def)
qed

theorem key_history_exact_witness:
  "GetKeyByID (rotate_all (NewKeyRotationManager [1] 0 0 2) [([2], 0), ([3], 0), ([4], 0)]) 2 = Some [2] \<and>
   GetKeyByID (rotate_all (NewKeyRotationManager [1] 0 0 2) [([2], 0), ([3], 0), ([4], 0)]) 1 = None"
  using key_history_exact [of "[([2], 0), ([3], 0), ([4], 0)]" "[1]" 0 0 2] by simp

text \<open>
  The rotation notice: decoding accepts any byte string of at least 20 bytes and
  returns the notice whose encoding, in the same byte order, is its first 20 bytes; shorter
  strings are refused.
\<close>

theorem rotation_notice_roundtrip:
  "UnmarshalWithByteOrder data ord = Some k \<longleftrightarrow>
     20 \<le> length data \<and> take 20 data = MarshalWithByteOrder k ord"
proof (cases "length data < 20")
  case False
  let ?bo = "order_or_little ord"
  have cut: "take 20 data = subslice 0 4 data @ subslice 4 12 data @ subslice 12 20 data"
    by (simp add: subslice_join) (simp add: subslice_0)
  have len: "length (subslice 0 4 data) = 4" "length (subslice 4 12 data) = 8" "length (subslice 12 20 data) = 8"
    using False by simp_all
  have "take 20 data = MarshalWithByteOrder k ord \<longleftrightarrow>
      subslice 0 4 data = PutUint32 ?bo (notify_KeyID k) \<and>
      subslice 4 12 data = PutUint64 ?bo (notify_Timestamp k) \<and>
      subslice 12 20 data = PutUint64 ?bo (notify_Nonce k)"
    using len unfolding cut notify_layout by simp
  then show ?thesis
    using False len by (auto simp: UnmarshalWithByteOrder_def Let_def bytes_simps)
qed (simp add: UnmarshalWithByteOrder_def)

end
