(* ===== verification/Outbound_Queue.thy ===== *)
theory Outbound_Queue
  imports Prelude
begin

text \<open>
  The bounded send queue that the server sessions share, \<^verbatim>\<open>zNet/delivery.go\<close>. Three delivery
  classes are admitted differently: a reliable command waits for room, a best-effort event is
  refused when there is none, and a latest frame overwrites the queued frame of its key (or the
  oldest queued frame). Every operation is the body of one critical section, so a concurrent
  execution is a sequence of these operations; a producer that waits for room is an operation
  that answers \<open>Waiting\<close> and is tried again later.
\<close>

section \<open>Data\<close>

type_synonym DeliveryClass = "8 word"

definition LatestFrame :: DeliveryClass where "LatestFrame = 1"
definition BestEffortEvent :: DeliveryClass where "BestEffortEvent = 2"
definition ReliableCommand :: DeliveryClass where "ReliableCommand = 3"

lemmas class_defs = LatestFrame_def BestEffortEvent_def ReliableCommand_def

record SendOptions =
  Class :: DeliveryClass
  CoalesceKey :: uint64

text \<open>
  The reason given to \<open>Close\<close>; \<open>CauseClosed\<close> stands for every error that is, or wraps,
  \<^verbatim>\<open>ErrSessionClosed\<close>.
\<close>

datatype close_cause = CauseClosed | CauseOther string

datatype send_error =
    NilOutbound
  | ContextError string
  | ErrInvalidDeliveryClass DeliveryClass
  | ErrSendQueueFull
  | ErrSessionClosed
  | ErrSessionClosedBy string

datatype metric_event =
    AddSendQueueCapacity int
  | AddSendQueueDepth int
  | RecordSendQueueWait
  | IncLatestFrameDropped
  | IncBestEffortEventRejected
  | IncReliableCommandRejected

record 'p queuedOutbound =
  outbound :: 'p
  qclass :: DeliveryClass
  qkey :: uint64

text \<open>
  \<^verbatim>\<open>items\<close> is a \<^verbatim>\<open>container/list\<close>; each element carries the number it was allocated with,
  and \<^verbatim>\<open>latest\<close> maps a key to the number of an element, as the code maps it to the element's
  address. \<^verbatim>\<open>changed\<close> is replaced by a fresh channel when it is closed: a generation number.
  \<^verbatim>\<open>ready\<close> is a channel of capacity 1: whether it holds its token. \<^verbatim>\<open>metrics\<close> is the list of
  calls made on the recorder, newest last, or \<open>None\<close> when there is no recorder.
\<close>

record 'p outboundQueue =
  capacity :: int
  items :: "(nat \<times> 'p queuedOutbound) list"
  latest :: "uint64 \<rightharpoonup> nat"
  next_element :: nat
  changed :: nat
  ready :: bool
  closed :: bool
  cause :: "close_cause option"
  metrics :: "metric_event list option"
  close_done :: bool

datatype enqueue_result = Returned "send_error option" | Waiting nat

section \<open>Operations\<close>

definition DefaultChanSize :: int where "DefaultChanSize = 1024"

definition record_metric :: "metric_event \<Rightarrow> 'p outboundQueue \<Rightarrow> 'p outboundQueue" where
  "record_metric e q = q\<lparr>metrics := map_option (\<lambda>es. es @ [e]) (metrics q)\<rparr>"

definition newOutboundQueue :: "int \<Rightarrow> bool \<Rightarrow> 'p outboundQueue" where
  "newOutboundQueue cap has_metrics =
     (let cap = (if cap \<le> 0 then DefaultChanSize else cap);
          q = \<lparr>capacity = cap, items = [], latest = Map.empty, next_element = 0, changed = 0,
               ready = False, closed = False, cause = None,
               metrics = (if has_metrics then Some [] else None), close_done = False\<rparr>
      in record_metric (AddSendQueueCapacity cap) q)"

definition recordRejected :: "DeliveryClass \<Rightarrow> 'p outboundQueue \<Rightarrow> 'p outboundQueue" where
  "recordRejected cls q =
     (if cls = BestEffortEvent then record_metric IncBestEffortEventRejected q
      else if cls = ReliableCommand then record_metric IncReliableCommandRejected q
      else if cls = LatestFrame then record_metric IncLatestFrameDropped q
      else q)"

definition recordLatestDropped :: "'p outboundQueue \<Rightarrow> 'p outboundQueue" where
  "recordLatestDropped q = record_metric IncLatestFrameDropped q"

definition addDepth :: "int \<Rightarrow> 'p outboundQueue \<Rightarrow> 'p outboundQueue" where
  "addDepth delta q = record_metric (AddSendQueueDepth delta) q"

definition signalReadyLocked :: "'p outboundQueue \<Rightarrow> 'p outboundQueue" where
  "signalReadyLocked q = q\<lparr>ready := True\<rparr>"

definition signalChangedLocked :: "'p outboundQueue \<Rightarrow> 'p outboundQueue" where
  "signalChangedLocked q = q\<lparr>changed := changed q + 1\<rparr>"

definition closeErrorLocked :: "'p outboundQueue \<Rightarrow> send_error" where
  "closeErrorLocked q =
     (case cause q of
        None \<Rightarrow> ErrSessionClosed
      | Some CauseClosed \<Rightarrow> ErrSessionClosed
      | Some (CauseOther msg) \<Rightarrow> ErrSessionClosedBy msg)"

definition PushBack :: "'p queuedOutbound \<Rightarrow> 'p outboundQueue \<Rightarrow> 'p outboundQueue" where
  "PushBack v q = q\<lparr>items := items q @ [(next_element q, v)], next_element := next_element q + 1\<rparr>"

text \<open>The scan for the oldest latest frame: its element's number and its key.\<close>

fun find_latest :: "(nat \<times> 'p queuedOutbound) list \<Rightarrow> (nat \<times> uint64) option" where
  "find_latest [] = None"
| "find_latest ((e, v) # rest) =
     (if qclass v \<noteq> LatestFrame then find_latest rest else Some (e, qkey v))"

definition set_value :: "nat \<Rightarrow> 'p queuedOutbound \<Rightarrow> (nat \<times> 'p queuedOutbound) list \<Rightarrow> (nat \<times> 'p queuedOutbound) list" where
  "set_value e v xs = map (\<lambda>(e', v'). (e', if e' = e then v else v')) xs"

definition set_outbound :: "nat \<Rightarrow> 'p \<Rightarrow> (nat \<times> 'p queuedOutbound) list \<Rightarrow> (nat \<times> 'p queuedOutbound) list" where
  "set_outbound e p xs = map (\<lambda>(e', v'). (e', if e' = e then v'\<lparr>outbound := p\<rparr> else v')) xs"

definition enqueueLatest :: "'p \<Rightarrow> uint64 \<Rightarrow> 'p outboundQueue \<Rightarrow> send_error option \<times> 'p outboundQueue" where
  "enqueueLatest p key q =
     (if closed q then (Some (closeErrorLocked q), recordRejected LatestFrame q)
      else case latest q key of
        Some e \<Rightarrow>
          (None, recordLatestDropped (signalReadyLocked (q\<lparr>items := set_outbound e p (items q)\<rparr>)))
      | None \<Rightarrow>
          (let v = \<lparr>outbound = p, qclass = LatestFrame, qkey = key\<rparr> in
           if int (length (items q)) \<ge> capacity q then
             (case find_latest (items q) of
                Some (e, oldkey) \<Rightarrow>
                  (None, recordLatestDropped (signalReadyLocked
                     (q\<lparr>items := set_value e v (items q), latest := (latest q)(oldkey := None, key \<mapsto> e)\<rparr>)))
              | None \<Rightarrow> (None, recordLatestDropped q))
           else
             (let e = next_element q in
              (None, addDepth 1 (signalReadyLocked
                 ((PushBack v q)\<lparr>latest := (latest q)(key \<mapsto> e)\<rparr>))))))"

text \<open>One pass of the loop of \<^verbatim>\<open>Enqueue\<close>; \<open>waited\<close> says whether an earlier pass waited.\<close>

definition enqueue_pass ::
    "'p \<Rightarrow> DeliveryClass \<Rightarrow> bool \<Rightarrow> 'p outboundQueue \<Rightarrow> enqueue_result \<times> 'p outboundQueue" where
  "enqueue_pass p cls waited q =
     (if closed q then (Returned (Some (closeErrorLocked q)), recordRejected cls q)
      else if int (length (items q)) < capacity q then
        (let q = signalReadyLocked (PushBack \<lparr>outbound = p, qclass = cls, qkey = 0\<rparr> q);
             q = addDepth 1 q;
             q = (if waited then record_metric RecordSendQueueWait q else q)
         in (Returned None, q))
      else if cls = BestEffortEvent then (Returned (Some ErrSendQueueFull), recordRejected cls q)
      else (Waiting (changed q), q))"

text \<open>The branch in which the context ends while the producer waits.\<close>

definition enqueue_cancelled ::
    "DeliveryClass \<Rightarrow> string \<Rightarrow> 'p outboundQueue \<Rightarrow> send_error option \<times> 'p outboundQueue" where
  "enqueue_cancelled cls err q =
     (Some (ContextError err), record_metric RecordSendQueueWait (recordRejected cls q))"

definition Enqueue ::
    "string option \<Rightarrow> 'p option \<Rightarrow> SendOptions \<Rightarrow> 'p outboundQueue \<Rightarrow> enqueue_result \<times> 'p outboundQueue" where
  "Enqueue ctxErr outb options q =
     (case outb of
        None \<Rightarrow> (Returned (Some NilOutbound), q)
      | Some p \<Rightarrow>
          (case ctxErr of
             Some err \<Rightarrow> (Returned (Some (ContextError err)), recordRejected (Class options) q)
           | None \<Rightarrow>
               (if Class options < LatestFrame \<or> Class options > ReliableCommand
                then (Returned (Some (ErrInvalidDeliveryClass (Class options))), q)
                else if Class options = LatestFrame
                then (case enqueueLatest p (CoalesceKey options) q of (r, q') \<Rightarrow> (Returned r, q'))
                else enqueue_pass p (Class options) False q)))"

definition TryDequeue :: "'p outboundQueue \<Rightarrow> 'p option \<times> 'p outboundQueue" where
  "TryDequeue q =
     (case items q of
        [] \<Rightarrow> (None, q)
      | (e, queued) # rest \<Rightarrow>
          (let q = q\<lparr>items := rest\<rparr>;
               q = (if qclass queued = LatestFrame then q\<lparr>latest := (latest q)(qkey queued := None)\<rparr> else q);
               q = signalChangedLocked q;
               q = (if length (items q) > 0 then signalReadyLocked q else q)
           in (Some (outbound queued), addDepth (- 1) q)))"

definition Close :: "close_cause option \<Rightarrow> 'p outboundQueue \<Rightarrow> 'p outboundQueue" where
  "Close c q =
     (if close_done q then q
      else
        (let c = (case c of None \<Rightarrow> CauseClosed | Some c \<Rightarrow> c);
             q = q\<lparr>closed := True, cause := Some c, close_done := True\<rparr>;
             q = signalReadyLocked (signalChangedLocked q)
         in record_metric (AddSendQueueCapacity (- capacity q)) q))"

text \<open>The receive on \<open>Ready()\<close> takes the token.\<close>

definition take_ready :: "'p outboundQueue \<Rightarrow> bool \<times> 'p outboundQueue" where
  "take_ready q = (ready q, q\<lparr>ready := False\<rparr>)"

section \<open>Deadlines and the write gate of the clients\<close>

definition DefaultSendTimeout :: duration where "DefaultSendTimeout = 5 * 1000000000"

text \<open>The deadline of the context that the send uses; \<open>None\<close> is a context without one.\<close>

definition normalizeSendContext :: "time option \<Rightarrow> duration \<Rightarrow> time \<Rightarrow> time" where
  "normalizeSendContext deadline timeout now =
     (case deadline of
        Some d \<Rightarrow> d
      | None \<Rightarrow> now + (if timeout \<le> 0 then DefaultSendTimeout else timeout))"

text \<open>
  The write gate of the clients is a channel of capacity 1 that holds one token. \<open>ctxErr\<close> is the
  context's error once it is done; \<open>pick\<close> is the choice of \<^verbatim>\<open>select\<close> when both of its branches
  are ready. The answer \<open>None\<close> means that the caller blocks.
\<close>

definition newContextWriteGate :: bool where "newContextWriteGate = True"

definition gate_acquire ::
    "string option \<Rightarrow> DeliveryClass \<Rightarrow> bool \<Rightarrow> bool \<Rightarrow> (bool \<times> send_error option) option \<times> bool" where
  "gate_acquire ctxErr cls pick gate =
     (if cls < LatestFrame \<or> cls > ReliableCommand
      then (Some (False, Some (ErrInvalidDeliveryClass cls)), gate)
      else if cls = ReliableCommand then
        (case ctxErr of
           Some err \<Rightarrow>
             (if gate \<and> pick then (Some (True, None), False)
              else (Some (False, Some (ContextError err)), gate))
         | None \<Rightarrow> (if gate then (Some (True, None), False) else (None, gate)))
      else if gate then (Some (True, None), False)
      else if cls = LatestFrame then (Some (False, None), gate)
      else (Some (False, Some ErrSendQueueFull), gate))"

text \<open>\<open>None\<close>: the channel is full and the send blocks.\<close>

definition gate_release :: "bool \<Rightarrow> bool option" where
  "gate_release gate = (if gate then None else Some True)"

text \<open>
  The drain of a closing session (the end of \<^verbatim>\<open>process\<close> in \<^verbatim>\<open>TcpServerSession.go\<close>): packets
  are taken and written until the queue is empty or a write fails. \<open>send\<close> is the outcome of
  the write, \<open>n\<close> a bound on the passes; the packets handed to the socket, in order.
\<close>

fun drain :: "('q \<Rightarrow> 'p option \<times> 'q) \<Rightarrow> ('p \<Rightarrow> bool) \<Rightarrow> nat \<Rightarrow> 'q \<Rightarrow> ('p list \<times> 'q) option" where
  "drain deq send 0 q = None"
| "drain deq send (Suc n) q =
     (case deq q of
        (None, q') \<Rightarrow> Some ([], q')
      | (Some p, q') \<Rightarrow>
          (if send p
           then (case drain deq send n q' of None \<Rightarrow> None | Some (ps, q'') \<Rightarrow> Some (p # ps, q''))
           else Some ([p], q')))"

section \<open>Contents and invariant\<close>

definition contents :: "'p outboundQueue \<Rightarrow> 'p queuedOutbound list" where
  "contents q = map snd (items q)"

definition is_latest :: "'p queuedOutbound \<Rightarrow> bool" where
  "is_latest v \<longleftrightarrow> qclass v = LatestFrame"

text \<open>The packets that must not be dropped, in queue order.\<close>

definition commands :: "'p outboundQueue \<Rightarrow> 'p list" where
  "commands q = map outbound (filter (\<lambda>v. \<not> is_latest v) (contents q))"

definition queue_inv :: "'p outboundQueue \<Rightarrow> bool" where
  "queue_inv q \<longleftrightarrow>
     int (length (items q)) \<le> capacity q \<and>
     distinct (map fst (items q)) \<and> (\<forall>e \<in> fst ` set (items q). e < next_element q) \<and>
     (\<forall>k e. latest q k = Some e \<longleftrightarrow> (\<exists>v. (e, v) \<in> set (items q) \<and> is_latest v \<and> qkey v = k))"

named_theorems queue_defs \<open>the queue's bookkeeping operations\<close>

lemma record_metric_sel [simp]:
  "items (record_metric m q) = items q" "latest (record_metric m q) = latest q"
  "capacity (record_metric m q) = capacity q" "next_element (record_metric m q) = next_element q"
  "closed (record_metric m q) = closed q" "cause (record_metric m q) = cause q"
  "ready (record_metric m q) = ready q" "changed (record_metric m q) = changed q"
  "close_done (record_metric m q) = close_done q"
  "metrics (record_metric m q) = map_option (\<lambda>es. es @ [m]) (metrics q)"
  by (simp_all add: record_metric_def)

lemma recordRejected_sel [simp]:
  "items (recordRejected c q) = items q" "latest (recordRejected c q) = latest q"
  "capacity (recordRejected c q) = capacity q" "next_element (recordRejected c q) = next_element q"
  "closed (recordRejected c q) = closed q" "cause (recordRejected c q) = cause q"
  "ready (recordRejected c q) = ready q" "close_done (recordRejected c q) = close_done q"
  "changed (recordRejected c q) = changed q"
  by (simp_all add: recordRejected_def)

declare recordLatestDropped_def [queue_defs] addDepth_def [queue_defs]
  signalReadyLocked_def [queue_defs] signalChangedLocked_def [queue_defs] PushBack_def [queue_defs]

lemma bookkeeping_sel [simp]:
  "items (addDepth n q) = items q"
  "latest (addDepth n q) = latest q"
  "capacity (addDepth n q) = capacity q"
  "next_element (addDepth n q) = next_element q"
  "closed (addDepth n q) = closed q"
  "cause (addDepth n q) = cause q"
  "ready (addDepth n q) = ready q"
  "changed (addDepth n q) = changed q"
  "close_done (addDepth n q) = close_done q"
  "items (recordLatestDropped q) = items q"
  "latest (recordLatestDropped q) = latest q"
  "capacity (recordLatestDropped q) = capacity q"
  "next_element (recordLatestDropped q) = next_element q"
  "closed (recordLatestDropped q) = closed q"
  "cause (recordLatestDropped q) = cause q"
  "ready (recordLatestDropped q) = ready q"
  "changed (recordLatestDropped q) = changed q"
  "close_done (recordLatestDropped q) = close_done q"
  "items (signalReadyLocked q) = items q"
  "latest (signalReadyLocked q) = latest q"
  "capacity (signalReadyLocked q) = capacity q"
  "next_element (signalReadyLocked q) = next_element q"
  "closed (signalReadyLocked q) = closed q"
  "cause (signalReadyLocked q) = cause q"
  "ready (signalReadyLocked q) = True"
  "changed (signalReadyLocked q) = changed q"
  "close_done (signalReadyLocked q) = close_done q"
  "items (signalChangedLocked q) = items q"
  "latest (signalChangedLocked q) = latest q"
  "capacity (signalChangedLocked q) = capacity q"
  "next_element (signalChangedLocked q) = next_element q"
  "closed (signalChangedLocked q) = closed q"
  "cause (signalChangedLocked q) = cause q"
  "ready (signalChangedLocked q) = ready q"
  "changed (signalChangedLocked q) = changed q + 1"
  "close_done (signalChangedLocked q) = close_done q"
  "items (PushBack v q) = items q @ [(next_element q, v)]"
  "latest (PushBack v q) = latest q"
  "capacity (PushBack v q) = capacity q"
  "next_element (PushBack v q) = next_element q + 1"
  "closed (PushBack v q) = closed q"
  "cause (PushBack v q) = cause q"
  "ready (PushBack v q) = ready q"
  "changed (PushBack v q) = changed q"
  "close_done (PushBack v q) = close_done q"
  by (simp_all add: addDepth_def recordLatestDropped_def signalReadyLocked_def signalChangedLocked_def PushBack_def)

lemma queue_inv_cong:
  "items q' = items q \<Longrightarrow> latest q' = latest q \<Longrightarrow> capacity q' = capacity q \<Longrightarrow>
     next_element q' = next_element q \<Longrightarrow> queue_inv q' = queue_inv q"
  by (simp add: queue_inv_def)

lemma commands_cong: "items q' = items q \<Longrightarrow> commands q' = commands q"
  by (simp add: commands_def contents_def)

lemma find_latest_Some:
  "find_latest xs = Some (e, k) \<Longrightarrow> \<exists>v. (e, v) \<in> set xs \<and> is_latest v \<and> qkey v = k"
  by (induction xs rule: find_latest.induct) (auto simp: is_latest_def split: if_splits)

lemma find_latest_None: "find_latest xs = None \<Longrightarrow> (e, v) \<in> set xs \<Longrightarrow> \<not> is_latest v"
  by (induction xs rule: find_latest.induct) (auto simp: is_latest_def split: if_splits)

lemma set_value_fst [simp]: "map fst (set_value e v xs) = map fst xs" "length (set_value e v xs) = length xs"
  by (auto simp: set_value_def)

lemma set_outbound_fst [simp]: "map fst (set_outbound e p xs) = map fst xs" "length (set_outbound e p xs) = length xs"
  by (auto simp: set_outbound_def)

lemma mem_set_value:
  "(e', v') \<in> set (set_value e v xs) \<longleftrightarrow>
     (if e' = e then v' = v \<and> e \<in> fst ` set xs else (e', v') \<in> set xs)"
  by (force simp: set_value_def)

lemma mem_set_outbound:
  "(e', v') \<in> set (set_outbound e p xs) \<longleftrightarrow>
     (if e' = e then (\<exists>v. (e, v) \<in> set xs \<and> v' = v\<lparr>outbound := p\<rparr>) else (e', v') \<in> set xs)"
  by (force simp: set_outbound_def)

text \<open>Overwriting a latest frame, in place or by another latest frame, keeps the commands.\<close>

lemma set_value_id: "e \<notin> fst ` set ys \<Longrightarrow> set_value e v ys = ys"
  by (induction ys) (auto simp: set_value_def)

lemma set_outbound_id: "e \<notin> fst ` set ys \<Longrightarrow> set_outbound e p ys = ys"
  by (induction ys) (auto simp: set_outbound_def)

lemma set_value_split:
  assumes "distinct (map fst xs)" "(e, w) \<in> set xs"
  obtains ys zs where "xs = ys @ (e, w) # zs" "set_value e v xs = ys @ (e, v) # zs"
proof -
  obtain ys zs where xs: "xs = ys @ (e, w) # zs"
    using assms(2) by (meson split_list)
  then have "e \<notin> fst ` set ys" "e \<notin> fst ` set zs"
    using assms(1) by (auto simp del: set_map simp: set_map [symmetric])
  then have "set_value e v xs = ys @ (e, v) # zs"
    using set_value_id [of e ys v] set_value_id [of e zs v] by (simp add: xs set_value_def)
  with xs show ?thesis
    by (rule that)
qed

lemma set_outbound_set_value:
  assumes "distinct (map fst xs)" "(e, w) \<in> set xs"
  shows "set_outbound e p xs = set_value e (w\<lparr>outbound := p\<rparr>) xs"
  using assms by (force simp: set_outbound_def set_value_def dest: eq_key_imp_eq_value)

lemma filter_set_value:
  assumes "distinct (map fst xs)" "(e, w) \<in> set xs" "is_latest w" "is_latest v"
  shows "filter (\<lambda>v. \<not> is_latest v) (map snd (set_value e v xs)) = filter (\<lambda>v. \<not> is_latest v) (map snd xs)"
proof -
  obtain ys zs where "xs = ys @ (e, w) # zs" "set_value e v xs = ys @ (e, v) # zs"
    using set_value_split [OF assms(1,2)] by blast
  then show ?thesis
    using assms(3,4) by simp
qed

section \<open>Every operation keeps the invariant\<close>

text \<open>Overwriting a latest frame by another latest frame, with the index updated as the code does.\<close>

lemma queue_inv_overwrite:
  assumes inv: "queue_inv q" and w: "(e, w) \<in> set (items q)" "is_latest w" and v: "is_latest v"
    and free: "qkey v = qkey w \<or> latest q (qkey v) = None"
  shows "queue_inv (q\<lparr>items := set_value e v (items q), latest := (latest q)(qkey w := None, qkey v \<mapsto> e)\<rparr>)"
proof -
  have dist: "distinct (map fst (items q))"
    using inv by (simp add: queue_inv_def)
  have ix: "latest q k = Some d \<longleftrightarrow> (\<exists>u. (d, u) \<in> set (items q) \<and> is_latest u \<and> qkey u = k)" for k d
    using inv by (simp add: queue_inv_def)
  have fsts: "fst ` set (set_value e v (items q)) = fst ` set (items q)"
    using set_value_fst(1) [of e v "items q"] by (metis set_map)
  have same: "u = w" if "(e, u) \<in> set (items q)" for u
    using eq_key_imp_eq_value [OF dist] that w(1) by metis
  have key: "latest q (qkey w) = Some e"
    using ix w by blast
  have "((latest q)(qkey w := None, qkey v \<mapsto> e)) k = Some d \<longleftrightarrow>
      (\<exists>u. (d, u) \<in> set (set_value e v (items q)) \<and> is_latest u \<and> qkey u = k)" for k d
  proof (cases "d = e")
    case True
    have "latest q k = Some e \<longleftrightarrow> k = qkey w"
      using ix [of k e] ix [of "qkey w" e] same w by metis
    moreover have "e \<in> fst ` set (items q)"
      using w(1) by force
    ultimately show ?thesis
      using True v by (auto simp: mem_set_value)
  next
    case False
    then have "(\<exists>u. (d, u) \<in> set (set_value e v (items q)) \<and> is_latest u \<and> qkey u = k) \<longleftrightarrow> latest q k = Some d"
      by (simp add: mem_set_value ix)
    moreover have "k \<noteq> qkey w" "k \<noteq> qkey v" if "latest q k = Some d"
      using that key free False by auto
    ultimately show ?thesis
      using False by auto
  qed
  then show ?thesis
    using inv by (simp add: queue_inv_def fsts)
qed

lemma queue_inv_push:
  assumes inv: "queue_inv q" and room: "int (length (items q)) < capacity q"
    and lat: "l = (if is_latest v then (latest q)(qkey v \<mapsto> next_element q) else latest q)"
    and free: "is_latest v \<longrightarrow> latest q (qkey v) = None"
  shows "queue_inv ((PushBack v q)\<lparr>latest := l\<rparr>)"
proof -
  have ix: "latest q k = Some d \<longleftrightarrow> (\<exists>u. (d, u) \<in> set (items q) \<and> is_latest u \<and> qkey u = k)" for k d
    using inv by (simp add: queue_inv_def)
  have fresh: "(next_element q, u) \<notin> set (items q)" for u
    using inv by (force simp: queue_inv_def)
  have "l k = Some d \<longleftrightarrow> (\<exists>u. (d, u) \<in> set (items q @ [(next_element q, v)]) \<and> is_latest u \<and> qkey u = k)" for k d
    using ix [of k d] fresh free by (auto simp: lat split: if_splits)
  moreover have "next_element q \<notin> fst ` set (items q)"
    using fresh by force
  ultimately show ?thesis
    using inv room by (auto simp: queue_inv_def PushBack_def)
qed

lemma commands_push:
  "commands (PushBack v q) = commands q @ (if is_latest v then [] else [outbound v])"
  by (simp add: commands_def contents_def PushBack_def)

lemma commands_latest [simp]: "commands (q\<lparr>latest := l\<rparr>) = commands q"
  by (rule commands_cong) simp

lemma commands_overwrite:
  assumes "queue_inv q" "(e, w) \<in> set (items q)" "is_latest w" "is_latest v"
    and "items q' = set_value e v (items q)"
  shows "commands q' = commands q"
proof -
  have "distinct (map fst (items q))"
    using assms(1) by (simp add: queue_inv_def)
  from filter_set_value [OF this assms(2,3,4)] show ?thesis
    using assms(5) by (simp add: commands_def contents_def)
qed

text \<open>
  The four outcomes of \<^verbatim>\<open>enqueueLatest\<close> on an open queue, as one case rule: overwrite the frame of
  the key, overwrite the oldest frame, drop the new frame, append it.
\<close>

lemma enqueueLatest_cases:
  assumes inv: "queue_inv q" and op: "enqueueLatest p key q = (r, q')"
  obtains
    (closed) "closed q" "r = Some (closeErrorLocked q)" "q' = recordRejected LatestFrame q"
  | (overwrite) e w v where "\<not> closed q" "r = None" "(e, w) \<in> set (items q)" "is_latest w"
      "v = \<lparr>outbound = p, qclass = LatestFrame, qkey = key\<rparr>"
      "qkey w = key \<or> latest q key = None"
      "q' = recordLatestDropped (signalReadyLocked
         (q\<lparr>items := set_value e v (items q), latest := (latest q)(qkey w := None, key \<mapsto> e)\<rparr>))"
  | (dropped) "\<not> closed q" "r = None" "q' = recordLatestDropped q"
      "int (length (items q)) \<ge> capacity q" "\<forall>v \<in> set (contents q). \<not> is_latest v"
  | (appended) v where "\<not> closed q" "r = None" "int (length (items q)) < capacity q"
      "v = \<lparr>outbound = p, qclass = LatestFrame, qkey = key\<rparr>" "latest q key = None"
      "q' = addDepth 1 (signalReadyLocked
         ((PushBack v q)\<lparr>latest := (latest q)(key \<mapsto> next_element q)\<rparr>))"
proof (cases "closed q")
  case True
  with op show ?thesis
    by (intro closed) (auto simp: enqueueLatest_def)
next
  case open': False
  have ix: "latest q k = Some d \<longleftrightarrow> (\<exists>u. (d, u) \<in> set (items q) \<and> is_latest u \<and> qkey u = k)" for k d
    using inv by (simp add: queue_inv_def)
  have dist: "distinct (map fst (items q))"
    using inv by (simp add: queue_inv_def)
  show ?thesis
  proof (cases "latest q key")
    case (Some e)
    then obtain w where w: "(e, w) \<in> set (items q)" "is_latest w" "qkey w = key"
      using ix by blast
    have "w\<lparr>outbound := p\<rparr> = \<lparr>outbound = p, qclass = LatestFrame, qkey = key\<rparr>"
      using w(2,3) by (simp add: is_latest_def)
    then have set: "set_outbound e p (items q) = set_value e \<lparr>outbound = p, qclass = LatestFrame, qkey = key\<rparr> (items q)"
      using set_outbound_set_value [OF dist w(1), of p] by simp
    have "(latest q)(qkey w := None, key \<mapsto> e) = latest q"
      using Some w(3) by (auto simp: fun_eq_iff)
    then show ?thesis
      using overwrite [OF open' _ w(1,2) refl] op Some w(3) set open' by (simp add: enqueueLatest_def)
  next
    case None
    show ?thesis
    proof (cases "int (length (items q)) \<ge> capacity q")
      case full: True
      show ?thesis
      proof (cases "find_latest (items q)")
        case None
        then have "\<forall>v \<in> set (contents q). \<not> is_latest v"
          by (auto simp: contents_def dest: find_latest_None)
        with op open' full \<open>latest q key = None\<close> None show ?thesis
          by (intro dropped) (auto simp: enqueueLatest_def)
      next
        case (Some ek)
        obtain e old where ek: "ek = (e, old)"
          by (cases ek)
        then obtain w where w: "(e, w) \<in> set (items q)" "is_latest w" "qkey w = old"
          using find_latest_Some Some by blast
        show ?thesis
          using overwrite [OF open' _ w(1,2) refl] op open' full \<open>latest q key = None\<close> Some ek w(3)
          by (simp add: enqueueLatest_def)
      qed
    next
      case False
      with op open' None show ?thesis
        by (intro appended [OF open' _ _ refl None]) (auto simp: enqueueLatest_def Let_def)
    qed
  qed
qed

lemma bookkeeping_inv [simp]:
  "queue_inv (record_metric m q) = queue_inv q" "commands (record_metric m q) = commands q"
  "queue_inv (recordRejected c q) = queue_inv q" "commands (recordRejected c q) = commands q"
  "queue_inv (recordLatestDropped q) = queue_inv q" "commands (recordLatestDropped q) = commands q"
  "queue_inv (addDepth n q) = queue_inv q" "commands (addDepth n q) = commands q"
  "queue_inv (signalReadyLocked q) = queue_inv q" "commands (signalReadyLocked q) = commands q"
  "queue_inv (signalChangedLocked q) = queue_inv q" "commands (signalChangedLocked q) = commands q"
  by (simp_all add: queue_defs queue_inv_def commands_def contents_def)

lemma enqueueLatest_keeps:
  assumes inv: "queue_inv q" and op: "enqueueLatest p key q = (r, q')"
  shows "queue_inv q'" "commands q' = commands q"
proof -
  have "queue_inv q' \<and> commands q' = commands q"
    using inv op
  proof (cases rule: enqueueLatest_cases)
    case (overwrite e w v)
    have "is_latest v" "qkey v = key"
      using overwrite by (auto simp: is_latest_def)
    then show ?thesis
      using queue_inv_overwrite [OF inv overwrite(3,4), of v] commands_overwrite [OF inv overwrite(3,4), of v]
        overwrite(6,7) by auto
  next
    case (appended v)
    have "is_latest v" "qkey v = key"
      using appended by (auto simp: is_latest_def)
    then show ?thesis
      using queue_inv_push [OF inv appended(3) refl, of v] appended commands_push [of v q] by simp
  qed (use inv in simp_all)
  then show "queue_inv q'" "commands q' = commands q"
    by auto
qed

lemma enqueue_pass_keeps:
  assumes inv: "queue_inv q" and cls: "cls \<noteq> LatestFrame" and op: "enqueue_pass p cls w q = (r, q')"
  shows "queue_inv q'" "commands q' = commands q @ (if r = Returned None then [p] else [])"
proof -
  define v where "v = \<lparr>outbound = p, qclass = cls, qkey = 0\<rparr>"
  have v: "\<not> is_latest v" "outbound v = p"
    using cls by (auto simp: v_def is_latest_def)
  have push: "queue_inv (PushBack v q)" if "int (length (items q)) < capacity q"
    using queue_inv_push [OF inv that refl, of v] v by (simp add: PushBack_def)
  have "queue_inv q' \<and> commands q' = commands q @ (if r = Returned None then [p] else [])"
    using op inv push v commands_push [of v q]
    by (auto simp: enqueue_pass_def Let_def v_def [symmetric] split: if_splits)
  then show "queue_inv q'" "commands q' = commands q @ (if r = Returned None then [p] else [])"
    by auto
qed

lemma Enqueue_cases:
  obtains (same) "snd (Enqueue c outb opts q) = q"
  | (rejected) "snd (Enqueue c outb opts q) = recordRejected (Class opts) q"
  | (latest) p where "outb = Some p" "Class opts = LatestFrame"
      "snd (Enqueue c outb opts q) = snd (enqueueLatest p (CoalesceKey opts) q)"
  | (pass) p where "outb = Some p" "Class opts \<noteq> LatestFrame"
      "Enqueue c outb opts q = enqueue_pass p (Class opts) False q"
proof (cases "outb = None \<or> c \<noteq> None \<or> Class opts < LatestFrame \<or> Class opts > ReliableCommand")
  case True
  then have "snd (Enqueue c outb opts q) = q \<or> snd (Enqueue c outb opts q) = recordRejected (Class opts) q"
    by (auto simp: Enqueue_def split: option.split)
  then show ?thesis
    using same rejected by blast
next
  case False
  then obtain p where "outb = Some p" "c = None"
    by auto
  then show ?thesis
    using False latest [of p] pass [of p]
    by (cases "Class opts = LatestFrame") (simp_all add: Enqueue_def split: prod.split)
qed

lemma enqueue_keeps:
  assumes inv: "queue_inv q" and op: "Enqueue c outb opts q = (r, q')"
  shows "queue_inv q'"
    and "commands q' = commands q @ (if r = Returned None \<and> Class opts \<noteq> LatestFrame then [the outb] else [])"
proof -
  have "queue_inv q' \<and>
      commands q' = commands q @ (if r = Returned None \<and> Class opts \<noteq> LatestFrame then [the outb] else [])"
  proof (cases "outb = None \<or> c \<noteq> None \<or> Class opts < LatestFrame \<or> Class opts > ReliableCommand")
    case True
    then show ?thesis
      using op inv by (auto simp: Enqueue_def split: option.splits if_splits)
  next
    case False
    then obtain p where p: "outb = Some p" "c = None"
      by auto
    show ?thesis
    proof (cases "Class opts = LatestFrame")
      case True
      then show ?thesis
        using op p False enqueueLatest_keeps [OF inv]
        by (auto simp: Enqueue_def class_defs split: prod.splits)
    next
      case cls: False
      then have "enqueue_pass p (Class opts) False q = (r, q')"
        using op p False by (simp add: Enqueue_def)
      from enqueue_pass_keeps [OF inv cls this] cls p show ?thesis
        by simp
    qed
  qed
  then show "queue_inv q'"
    and "commands q' = commands q @ (if r = Returned None \<and> Class opts \<noteq> LatestFrame then [the outb] else [])"
    by auto
qed

lemma dequeue_keeps:
  assumes inv: "queue_inv q" and op: "TryDequeue q = (r, q')"
  shows "queue_inv q'"
    and "r = (case contents q of [] \<Rightarrow> None | v # _ \<Rightarrow> Some (outbound v))"
    and "contents q' = tl (contents q)"
proof -
  have "queue_inv q' \<and> r = (case contents q of [] \<Rightarrow> None | v # _ \<Rightarrow> Some (outbound v)) \<and>
      contents q' = tl (contents q)"
  proof (cases "items q")
    case Nil
    then show ?thesis
      using op inv by (simp add: TryDequeue_def contents_def)
  next
    case (Cons x rest)
    obtain e v where x: "x = (e, v)"
      by (cases x)
    define l where "l = (if is_latest v then (latest q)(qkey v := None) else latest q)"
    have ix: "latest q k = Some d \<longleftrightarrow> (\<exists>u. (d, u) \<in> set (items q) \<and> is_latest u \<and> qkey u = k)" for k d
      using inv by (simp add: queue_inv_def)
    have e: "(e, u) \<notin> set rest" for u
      using inv by (force simp: queue_inv_def Cons x)
    have "l k = Some d \<longleftrightarrow> (\<exists>u. (d, u) \<in> set rest \<and> is_latest u \<and> qkey u = k)" for k d
    proof -
      have "latest q (qkey v) = Some e" if "is_latest v"
        using ix [of "qkey v" e] that by (auto simp: Cons x)
      then have "(d, u) \<notin> set rest" if "is_latest v" "is_latest u" "qkey u = qkey v" for u
        using that e ix [of "qkey v" d] by (auto simp: Cons x)
      then show ?thesis
        using ix [of k d] by (auto simp: l_def Cons x)
    qed
    then have "queue_inv (q\<lparr>items := rest, latest := l\<rparr>)"
      using inv by (auto simp: queue_inv_def Cons x)
    moreover have "items q' = rest" "latest q' = l" "capacity q' = capacity q"
        "next_element q' = next_element q" "r = Some (outbound v)"
      using op by (auto simp: TryDequeue_def Cons x Let_def queue_defs l_def is_latest_def)
    ultimately show ?thesis
      by (simp add: queue_inv_def contents_def Cons x)
  qed
  then show "queue_inv q'" and "r = (case contents q of [] \<Rightarrow> None | v # _ \<Rightarrow> Some (outbound v))"
    and "contents q' = tl (contents q)"
    by auto
qed

lemma close_keeps: "queue_inv (Close c q) = queue_inv q" "commands (Close c q) = commands q"
  "contents (Close c q) = contents q"
  by (simp_all add: Close_def Let_def queue_defs queue_inv_def commands_def contents_def)

section \<open>Executions\<close>

text \<open>
  The queue under any interleaving of producers, one writer and the closer. \<open>w\<close> says that the
  writer has taken the token of \<open>Ready()\<close> and has not dequeued yet; \<open>acc\<close> lists the commands
  and events that were admitted, \<open>del\<close> those that were handed to the writer.
\<close>

definition dequeued_command :: "'p outboundQueue \<Rightarrow> 'p list" where
  "dequeued_command q = (case contents q of [] \<Rightarrow> [] | v # _ \<Rightarrow> if is_latest v then [] else [outbound v])"

inductive qreach :: "int \<Rightarrow> bool \<Rightarrow> 'p outboundQueue \<Rightarrow> bool \<Rightarrow> 'p list \<Rightarrow> 'p list \<Rightarrow> bool"
  for cap :: int and hm :: bool
where
  new: "qreach cap hm (newOutboundQueue cap hm) False [] []"
| enqueue: "qreach cap hm q w acc del \<Longrightarrow> Enqueue c outb opts q = (r, q') \<Longrightarrow>
     qreach cap hm q' w (acc @ (if r = Returned None \<and> Class opts \<noteq> LatestFrame then [the outb] else [])) del"
| retry: "qreach cap hm q w acc del \<Longrightarrow> enqueue_pass p ReliableCommand True q = (r, q') \<Longrightarrow>
     qreach cap hm q' w (acc @ (if r = Returned None then [p] else [])) del"
| cancel: "qreach cap hm q w acc del \<Longrightarrow> enqueue_cancelled ReliableCommand err q = (r, q') \<Longrightarrow>
     qreach cap hm q' w acc del"
| wake: "qreach cap hm q False acc del \<Longrightarrow> take_ready q = (True, q') \<Longrightarrow> qreach cap hm q' True acc del"
| dequeue: "qreach cap hm q w acc del \<Longrightarrow> TryDequeue q = (r, q') \<Longrightarrow>
     qreach cap hm q' False acc (del @ dequeued_command q)"
| close: "qreach cap hm q w acc del \<Longrightarrow> qreach cap hm (Close cz q) w acc del"

lemma commands_dequeued: "commands q = dequeued_command q @ map outbound (filter (\<lambda>v. \<not> is_latest v) (tl (contents q)))"
  by (simp add: commands_def dequeued_command_def split: list.split)

lemma qreach_inv: "qreach cap hm q w acc del \<Longrightarrow> queue_inv q \<and> acc = del @ commands q"
proof (induction rule: qreach.induct)
  case new
  then show ?case
    by (simp add: newOutboundQueue_def Let_def queue_inv_def commands_def contents_def DefaultChanSize_def)
next
  case (enqueue q w acc del c outb opts r q')
  then show ?case
    using enqueue_keeps [of q c outb opts r q'] by simp
next
  case (retry q w acc del p r q')
  then show ?case
    using enqueue_pass_keeps [of q ReliableCommand p True r q'] by (simp add: class_defs)
next
  case (cancel q w acc del err r q')
  then show ?case
    by (auto simp: enqueue_cancelled_def)
next
  case (wake q acc del q')
  then have "q' = q\<lparr>ready := False\<rparr>"
    by (simp add: take_ready_def)
  with wake show ?case
    by (simp add: queue_inv_def commands_def contents_def)
next
  case (dequeue q w acc del r q')
  then show ?case
    using dequeue_keeps [of q r q'] commands_dequeued [of q] by (simp add: commands_def)
next
  case (close q w acc del cz)
  then show ?case
    by (simp add: close_keeps)
qed

lemma capacity_keeps:
  "Enqueue c outb opts q = (r, q') \<Longrightarrow> capacity q' = capacity q"
  "enqueue_pass p cls wt q = (r', q') \<Longrightarrow> capacity q' = capacity q"
  "TryDequeue q = (r'', q') \<Longrightarrow> capacity q' = capacity q"
  "capacity (Close cz q) = capacity q"
  by (auto simp: Enqueue_def enqueueLatest_def enqueue_pass_def TryDequeue_def Close_def Let_def queue_defs
      split: option.splits if_splits list.splits prod.splits)

lemma qreach_capacity: "qreach cap hm q w acc del \<Longrightarrow> capacity q = (if cap \<le> 0 then DefaultChanSize else cap)"
  by (induction rule: qreach.induct)
    (auto simp: newOutboundQueue_def Let_def enqueue_cancelled_def take_ready_def capacity_keeps(4)
      dest: capacity_keeps(1,2,3))

text \<open>The index of a queue is injective, so at most one frame per key is queued.\<close>

lemma queue_inv_distinct_keys:
  assumes "queue_inv q"
  shows "distinct (map qkey (filter is_latest (contents q)))"
proof -
  have d: "distinct (map fst (items q))" and
    ix: "latest q k = Some d \<longleftrightarrow> (\<exists>u. (d, u) \<in> set (items q) \<and> is_latest u \<and> qkey u = k)" for k d
    using assms by (simp_all add: queue_inv_def)
  have "distinct (map qkey (filter is_latest (map snd xs)))"
    if "distinct (map fst xs)" "\<And>d e u v. (d, u) \<in> set xs \<Longrightarrow> (e, v) \<in> set xs \<Longrightarrow>
          is_latest u \<Longrightarrow> is_latest v \<Longrightarrow> qkey u = qkey v \<Longrightarrow> d = e" for xs :: "(nat \<times> 'a queuedOutbound) list"
    using that
  proof (induction xs)
    case (Cons x xs)
    have IH: "distinct (map qkey (filter is_latest (map snd xs)))"
      using Cons.prems by (intro Cons.IH) auto
    have "qkey (snd x) \<notin> qkey ` {u \<in> snd ` set xs. is_latest u}" if "is_latest (snd x)"
    proof
      assume "qkey (snd x) \<in> qkey ` {u \<in> snd ` set xs. is_latest u}"
      then obtain e u where u: "(e, u) \<in> set xs" "is_latest u" "qkey (snd x) = qkey u"
        by auto
      then have "fst x = e"
        using Cons.prems(2) [of "fst x" "snd x" e u] that by simp
      moreover have "e \<in> fst ` set xs"
        using u(1) by force
      ultimately show False
        using Cons.prems(1) by simp
    qed
    with IH show ?case
      by auto
  qed simp
  from this [OF d] show ?thesis
    unfolding contents_def using ix by (metis option.inject)
qed


lemmas queue_eval = newOutboundQueue_def Enqueue_def enqueueLatest_def enqueue_pass_def TryDequeue_def
  Close_def queue_defs record_metric_def class_defs recordRejected_def DefaultChanSize_def

definition sample_queue :: "nat outboundQueue" where
  "sample_queue = snd (Enqueue None (Some 7) \<lparr>Class = ReliableCommand, CoalesceKey = 0\<rparr> (newOutboundQueue 2 True))"

lemma sample_queue_reach: "qreach 2 True sample_queue False [7] []"
proof -
  let ?r = "Enqueue None (Some (7::nat)) \<lparr>Class = ReliableCommand, CoalesceKey = 0\<rparr> (newOutboundQueue 2 True)"
  have "fst ?r = Returned None"
    by (simp add: queue_eval)
  then show ?thesis
    using qreach.enqueue [OF qreach.new, of None "Some (7::nat)" "\<lparr>Class = ReliableCommand, CoalesceKey = 0\<rparr>" 2 True "fst ?r" "snd ?r"]
    by (simp add: sample_queue_def class_defs prod_eq_iff)
qed


text \<open>Every operation that leaves something queued leaves the token in place, or sets it.\<close>

lemma enqueueLatest_ready:
  "items q \<noteq> [] \<longrightarrow> ready q \<or> w \<Longrightarrow>
     items (snd (enqueueLatest p k q)) \<noteq> [] \<longrightarrow> ready (snd (enqueueLatest p k q)) \<or> w"
  by (simp add: enqueueLatest_def Let_def split: option.split prod.split)

lemma enqueue_pass_ready:
  "items q \<noteq> [] \<longrightarrow> ready q \<or> w \<Longrightarrow>
     items (snd (enqueue_pass p cls wt q)) \<noteq> [] \<longrightarrow> ready (snd (enqueue_pass p cls wt q)) \<or> w"
  by (simp add: enqueue_pass_def Let_def)

lemma Enqueue_ready:
  assumes "items q \<noteq> [] \<longrightarrow> ready q \<or> w"
  shows "items (snd (Enqueue c outb opts q)) \<noteq> [] \<longrightarrow> ready (snd (Enqueue c outb opts q)) \<or> w"
  by (cases rule: Enqueue_cases [of c outb opts q])
    (use assms enqueueLatest_ready [OF assms] enqueue_pass_ready [OF assms] in simp_all)

lemma TryDequeue_ready: "items (snd (TryDequeue q)) \<noteq> [] \<longrightarrow> ready (snd (TryDequeue q))"
  by (simp add: TryDequeue_def Let_def queue_defs split: list.split prod.split)

text \<open>
  Property C7. The writer never sleeps on a non-empty queue: in every execution, while something is
  queued, the ready token is available or the writer holds it and is about to dequeue.
\<close>

theorem writer_never_sleeps:
  assumes "qreach cap hm q w acc del"
  shows "contents q \<noteq> [] \<longrightarrow> ready q \<or> w"
proof -
  have "items q \<noteq> [] \<longrightarrow> ready q \<or> w"
    using assms
  proof (induction rule: qreach.induct)
    case (enqueue q w acc del c outb opts r q')
    show ?case
      using Enqueue_ready [OF enqueue.IH, of c outb opts] enqueue.hyps(2) by simp
  next
    case (retry q w acc del p r q')
    show ?case
      using enqueue_pass_ready [OF retry.IH, of p ReliableCommand True] retry.hyps(2) by simp
  next
    case (dequeue q w acc del r q')
    show ?case
      using TryDequeue_ready [of q] dequeue.hyps(2) by simp
  qed (auto simp: newOutboundQueue_def Let_def enqueue_cancelled_def take_ready_def Close_def queue_defs)
  then show ?thesis
    by (simp add: contents_def)
qed

lemma writer_never_sleeps_witness: "contents sample_queue \<noteq> [] \<and> (ready sample_queue \<or> False)"
  using writer_never_sleeps [OF sample_queue_reach]
  by (simp add: sample_queue_def queue_eval contents_def)

section \<open>Waiting producers\<close>

text \<open>One operation on the queue by anyone.\<close>

inductive qstep :: "'p outboundQueue \<Rightarrow> 'p outboundQueue \<Rightarrow> bool" where
  "qstep q (snd (Enqueue c outb opts q))"
| "qstep q (snd (enqueue_pass p ReliableCommand True q))"
| "qstep q (snd (enqueue_cancelled ReliableCommand err q))"
| "qstep q (snd (take_ready q))"
| "qstep q (snd (TryDequeue q))"
| "qstep q (Close cz q)"

definition no_room_made :: "'p outboundQueue \<Rightarrow> 'p outboundQueue \<Rightarrow> bool" where
  "no_room_made q q' \<longleftrightarrow> closed q' = closed q \<and> capacity q' = capacity q \<and> length (items q) \<le> length (items q')"

lemma enqueue_no_room_made:
  "no_room_made q (snd (enqueueLatest p k q)) \<and> changed (snd (enqueueLatest p k q)) = changed q"
  "no_room_made q (snd (enqueue_pass p cls wt q)) \<and> changed (snd (enqueue_pass p cls wt q)) = changed q"
  by (simp_all add: no_room_made_def enqueueLatest_def enqueue_pass_def Let_def split: option.split prod.split)

lemma qstep_changed:
  "qstep q q' \<Longrightarrow> changed q \<le> changed q' \<and> (changed q' = changed q \<longrightarrow> no_room_made q q')"
proof (induction rule: qstep.induct)
  case (1 q c outb opts)
  show ?case
    by (cases rule: Enqueue_cases [of c outb opts q])
      (use enqueue_no_room_made [of q] in \<open>simp_all add: no_room_made_def\<close>)
next
  case (2 q p)
  show ?case
    using enqueue_no_room_made(2) [of q p ReliableCommand True] by simp
next
  case (5 q)
  show ?case
    by (simp add: TryDequeue_def Let_def no_room_made_def split: list.split prod.split)
qed (simp_all add: no_room_made_def enqueue_cancelled_def take_ready_def Close_def Let_def)

lemma qsteps_changed:
  "qstep\<^sup>*\<^sup>* q q' \<Longrightarrow> changed q \<le> changed q' \<and> (changed q' = changed q \<longrightarrow> no_room_made q q')"
proof (induction rule: rtranclp_induct)
  case (step q1 q2)
  have "changed q1 = changed q" "changed q2 = changed q1" if "changed q2 = changed q"
    using that step.IH qstep_changed [OF step.hyps(2)] by simp_all
  then show ?case
    using step.IH qstep_changed [OF step.hyps(2)] by (auto simp: no_room_made_def)
qed (simp add: no_room_made_def)

text \<open>
  A waiting producer misses nothing: a reliable command that had to wait on generation
  \<open>g\<close> of the change channel finds the queue still full and still open for as long as no later
  operation has closed that channel. So whenever room appears or the queue closes, it is woken.
\<close>

theorem producer_never_misses_room:
  assumes "enqueue_pass p ReliableCommand wt q = (Waiting g, q0)" "qstep\<^sup>*\<^sup>* q0 q'" "changed q' = g"
  shows "\<not> closed q' \<and> int (length (items q')) \<ge> capacity q'"
proof -
  have "q0 = q" "changed q = g" "\<not> closed q" "int (length (items q)) \<ge> capacity q"
    using assms(1) by (auto simp: enqueue_pass_def Let_def split: if_splits)
  then show ?thesis
    using qsteps_changed [OF assms(2)] assms(3) by (auto simp: no_room_made_def)
qed

definition full_queue :: "nat outboundQueue" where
  "full_queue = snd (Enqueue None (Some 7) \<lparr>Class = ReliableCommand, CoalesceKey = 0\<rparr> (newOutboundQueue 1 True))"

lemma producer_never_misses_room_witness:
  "\<not> closed (snd (enqueueLatest 8 3 full_queue)) \<and> int (length (items (snd (enqueueLatest 8 3 full_queue)))) \<ge> 1"
proof -
  have "enqueue_pass 9 ReliableCommand False full_queue = (Waiting 0, full_queue)"
    by (simp add: full_queue_def queue_eval)
  moreover have "qstep full_queue (snd (enqueueLatest 8 3 full_queue))"
    using qstep.intros(1) [of full_queue None "Some 8" "\<lparr>Class = LatestFrame, CoalesceKey = 3\<rparr>"]
    by (simp add: Enqueue_def class_defs split: prod.splits)
  moreover have "changed (snd (enqueueLatest 8 3 full_queue)) = 0" "capacity (snd (enqueueLatest 8 3 full_queue)) = 1"
    by (simp_all add: full_queue_def queue_eval)
  ultimately show ?thesis
    using producer_never_misses_room [of 9 False full_queue 0 full_queue "snd (enqueueLatest 8 3 full_queue)"] by auto
qed

section \<open>Latest frames\<close>

lemma filter_unique:
  assumes "distinct (map f (filter P xs))" "v \<in> set xs" "P v" "f v = k"
  shows "filter (\<lambda>x. P x \<and> f x = k) xs = [v]"
  using assms
proof (induction xs)
  case (Cons x xs)
  show ?case
  proof (cases "x = v")
    case True
    have "filter (\<lambda>x. P x \<and> f x = k) xs = []"
      using Cons.prems True by (auto simp: filter_empty_conv image_iff)
    then show ?thesis
      using True Cons.prems by simp
  next
    case False
    then have "v \<in> set xs"
      using Cons.prems by simp
    moreover have "\<not> (P x \<and> f x = k)"
      using Cons.prems \<open>v \<in> set xs\<close> by auto
    ultimately show ?thesis
      using Cons by (auto split: if_splits)
  qed
qed simp

text \<open>
  After a latest frame is accepted, it is the only queued frame of its key, unless the
  queue is full of commands and events: then the frame is dropped, counted, and the queue keeps
  its contents.
\<close>

theorem latest_frame_newest:
  assumes "qreach cap hm q w acc del" "enqueueLatest p key q = (None, q')"
  shows "filter (\<lambda>v. is_latest v \<and> qkey v = key) (contents q') = [\<lparr>outbound = p, qclass = LatestFrame, qkey = key\<rparr>] \<or>
    q' = recordLatestDropped q \<and> int (length (contents q)) = capacity q \<and> (\<forall>v \<in> set (contents q). \<not> is_latest v)"
proof -
  have inv: "queue_inv q"
    using qreach_inv [OF assms(1)] by simp
  have inv': "queue_inv q'"
    by (rule enqueueLatest_keeps [OF inv assms(2)])
  have unique: "filter (\<lambda>v. is_latest v \<and> qkey v = key) (contents q') = [v]"
    if "v = \<lparr>outbound = p, qclass = LatestFrame, qkey = key\<rparr>" "(e, v) \<in> set (items q')" for e v
    using filter_unique [OF queue_inv_distinct_keys [OF inv'], of v key] that
    by (force simp: is_latest_def contents_def)
  from inv assms(2) show ?thesis
  proof (cases rule: enqueueLatest_cases)
    case (overwrite e w v)
    then have "(e, v) \<in> set (items q')"
      by (force simp: mem_set_value)
    with unique overwrite show ?thesis
      by blast
  next
    case dropped
    then show ?thesis
      using inv by (simp add: queue_inv_def contents_def)
  next
    case (appended v)
    then have "(next_element q, v) \<in> set (items q')"
      by simp
    with unique appended show ?thesis
      by blast
  qed simp
qed

lemma latest_frame_newest_witness:
  "filter (\<lambda>v. is_latest v \<and> qkey v = 3) (contents (snd (enqueueLatest 8 3 sample_queue))) =
     [\<lparr>outbound = 8, qclass = LatestFrame, qkey = 3\<rparr>]"
proof -
  have "enqueueLatest 8 3 sample_queue = (None, snd (enqueueLatest 8 3 sample_queue))"
    "int (length (contents sample_queue)) \<noteq> capacity sample_queue"
    by (simp_all add: sample_queue_def queue_eval contents_def)
  with latest_frame_newest [OF sample_queue_reach, of 8 3] show ?thesis
    by blast
qed

section \<open>Closing and draining\<close>

text \<open>What the closing session relies on: taking a packet shortens the contents by their head.\<close>

locale draining =
  fixes deq :: "'q \<Rightarrow> 'p option \<times> 'q" and cont :: "'q \<Rightarrow> 'p list"
  assumes deq_empty: "cont q = [] \<Longrightarrow> deq q = (None, q)"
    and deq_cons: "cont q = p # ps \<Longrightarrow> \<exists>q'. deq q = (Some p, q') \<and> cont q' = ps"
begin

text \<open>With one pass more than there are packets the loop ends: at the first failed write, or empty.\<close>

lemma drain_until_failure:
  "length (cont q) \<le> n \<Longrightarrow>
     \<exists>q'. drain deq send (Suc n) q =
       Some (takeWhile send (cont q) @ take 1 (dropWhile send (cont q)), q') \<and>
       cont q' = drop 1 (dropWhile send (cont q))"
proof (induction "cont q" arbitrary: q n)
  case Nil
  then show ?case
    by (simp add: deq_empty)
next
  case (Cons p ps)
  obtain q1 where q1: "deq q = (Some p, q1)" "cont q1 = ps"
    using deq_cons Cons.hyps(2) by metis
  obtain m where m: "n = Suc m"
    using Cons.prems Cons.hyps(2) [symmetric] by (cases n) auto
  show ?case
  proof (cases "send p")
    case True
    have "length (cont q1) \<le> m"
      using Cons.prems q1(2) m Cons.hyps(2) [symmetric] by simp
    from Cons.hyps(1) [OF q1(2) [symmetric] this] obtain q' where
      "drain deq send (Suc m) q1 = Some (takeWhile send ps @ take 1 (dropWhile send ps), q')"
      "cont q' = drop 1 (dropWhile send ps)"
      using q1(2) by auto
    then show ?thesis
      using q1(1) True by (simp add: m Cons.hyps(2) [symmetric])
  next
    case False
    then show ?thesis
      using q1 by (simp add: Cons.hyps(2) [symmetric])
  qed
qed

lemma drain_all:
  assumes "\<forall>p \<in> set (cont q). send p"
  shows "\<exists>q'. drain deq send (Suc (length (cont q))) q = Some (cont q, q') \<and> cont q' = []"
  using drain_until_failure [of q "length (cont q)" send] assms
  by (auto simp: takeWhile_eq_all_conv [THEN iffD2] dropWhile_eq_Nil_conv [THEN iffD2])

end

interpretation outq: draining TryDequeue "\<lambda>q. map outbound (contents q)"
proof
  fix q :: "'a outboundQueue"
  assume "map outbound (contents q) = []"
  then show "TryDequeue q = (None, q)"
    by (simp add: TryDequeue_def contents_def)
next
  fix q :: "'a outboundQueue" and p ps
  assume "map outbound (contents q) = p # ps"
  then obtain e v rest where "items q = (e, v) # rest" "outbound v = p" "map outbound (map snd rest) = ps"
    by (cases "items q") (auto simp: contents_def)
  then show "\<exists>q'. TryDequeue q = (Some p, q') \<and> map outbound (contents q') = ps"
    by (auto simp: TryDequeue_def Let_def contents_def)
qed

definition close_flags :: "'p outboundQueue \<Rightarrow> bool \<times> bool" where
  "close_flags q = (close_done q, closed q)"

lemma close_flags_keeps:
  "close_flags (snd (enqueueLatest p k q)) = close_flags q"
  "close_flags (snd (enqueue_pass p cls wt q)) = close_flags q"
  "close_flags (snd (TryDequeue q)) = close_flags q"
  by (simp_all add: close_flags_def enqueueLatest_def enqueue_pass_def TryDequeue_def Let_def
      split: option.split prod.split list.split)

lemma qreach_close_flags: "qreach cap hm q w acc del \<Longrightarrow> fst (close_flags q) = snd (close_flags q)"
proof (induction rule: qreach.induct)
  case (enqueue q w acc del c outb opts r q')
  have "close_flags (snd (Enqueue c outb opts q)) = close_flags q"
    by (cases rule: Enqueue_cases [of c outb opts q]) (simp_all add: close_flags_keeps, simp add: close_flags_def)
  then show ?case
    using enqueue by simp
next
  case (retry q w acc del p r q')
  then show ?case
    using close_flags_keeps(2) [of p ReliableCommand True q] by simp
next
  case (dequeue q w acc del r q')
  then show ?case
    using close_flags_keeps(3) [of q] by simp
qed (auto simp: close_flags_def newOutboundQueue_def Let_def enqueue_cancelled_def take_ready_def Close_def)

text \<open>
  Once closed, the queue refuses every further packet of a valid class with an
  \<^verbatim>\<open>ErrSessionClosed\<close> error, and what was queued is still delivered: the final loop of the session,
  given one pass more than there are packets, returns and hands them all to the socket in queue
  order when no write fails.
\<close>

theorem close_refuses_and_drains:
  assumes reach: "qreach cap hm q w acc del"
    and cls: "LatestFrame \<le> Class opts" "Class opts \<le> ReliableCommand"
  shows "fst (Enqueue None (Some p) opts (Close cz q)) \<in>
      {Returned (Some ErrSessionClosed)} \<union> range (\<lambda>m. Returned (Some (ErrSessionClosedBy m))) \<and>
    (\<exists>q'. drain TryDequeue (\<lambda>_. True) (Suc (length (contents q))) (Close cz q) =
           Some (map outbound (contents q), q') \<and> contents q' = [])"
proof
  have "closed (Close cz q)"
    using qreach_close_flags [OF reach] by (simp add: Close_def Let_def close_flags_def)
  then show "fst (Enqueue None (Some p) opts (Close cz q)) \<in>
      {Returned (Some ErrSessionClosed)} \<union> range (\<lambda>m. Returned (Some (ErrSessionClosedBy m)))"
    using cls by (auto simp: Enqueue_def enqueueLatest_def enqueue_pass_def closeErrorLocked_def
        split: option.splits close_cause.splits)
  show "\<exists>q'. drain TryDequeue (\<lambda>_. True) (Suc (length (contents q))) (Close cz q) =
           Some (map outbound (contents q), q') \<and> contents q' = []"
    using outq.drain_all [of "Close cz q" "\<lambda>_. True"] by (simp add: close_keeps)
qed

lemma close_refuses_and_drains_witness:
  "fst (Enqueue None (Some 8) \<lparr>Class = BestEffortEvent, CoalesceKey = 0\<rparr> (Close None sample_queue)) \<in>
     {Returned (Some ErrSessionClosed)} \<union> range (\<lambda>m. Returned (Some (ErrSessionClosedBy m)))"
  using close_refuses_and_drains [OF sample_queue_reach, of "\<lparr>Class = BestEffortEvent, CoalesceKey = 0\<rparr>" 8 None]
  by (simp add: class_defs)

section \<open>Gauges\<close>

definition depth_gauge :: "metric_event list \<Rightarrow> int" where
  "depth_gauge es = sum_list (map (\<lambda>e. case e of AddSendQueueDepth d \<Rightarrow> d | _ \<Rightarrow> 0) es)"

definition capacity_gauge :: "metric_event list \<Rightarrow> int" where
  "capacity_gauge es = sum_list (map (\<lambda>e. case e of AddSendQueueCapacity d \<Rightarrow> d | _ \<Rightarrow> 0) es)"

text \<open>The two gauges agree with the queue.\<close>

definition gauges_ok :: "'p outboundQueue \<Rightarrow> bool" where
  "gauges_ok q \<longleftrightarrow> (case metrics q of None \<Rightarrow> True | Some es \<Rightarrow>
     depth_gauge es = int (length (items q)) \<and> capacity_gauge es = (if close_done q then 0 else capacity q))"

lemma gauge_append [simp]:
  "depth_gauge (es @ [m]) = depth_gauge es + (case m of AddSendQueueDepth d \<Rightarrow> d | _ \<Rightarrow> 0)"
  "capacity_gauge (es @ [m]) = capacity_gauge es + (case m of AddSendQueueCapacity d \<Rightarrow> d | _ \<Rightarrow> 0)"
  "depth_gauge [] = 0" "capacity_gauge [] = 0"
  by (simp_all add: depth_gauge_def capacity_gauge_def)

lemma gauges_counter [simp]:
  "gauges_ok (record_metric RecordSendQueueWait q) = gauges_ok q"
  "gauges_ok (recordRejected c q) = gauges_ok q" "gauges_ok (recordLatestDropped q) = gauges_ok q"
  by (auto simp: gauges_ok_def recordRejected_def recordLatestDropped_def split: option.split)

lemma gauges_push:
  "gauges_ok q \<Longrightarrow> gauges_ok (addDepth 1 (signalReadyLocked ((PushBack v q)\<lparr>latest := l\<rparr>)))"
  "gauges_ok q \<Longrightarrow> gauges_ok (addDepth 1 (signalReadyLocked (PushBack v q)))"
  by (auto simp: gauges_ok_def queue_defs split: option.split)

lemma gauges_keeps:
  "gauges_ok q \<Longrightarrow> gauges_ok (snd (enqueue_pass p cls wt q))"
  "gauges_ok q \<Longrightarrow> gauges_ok (snd (enqueueLatest p k q))"
  "gauges_ok q \<Longrightarrow> gauges_ok (snd (TryDequeue q))"
  "gauges_ok q \<Longrightarrow> gauges_ok (Close cz q)"
proof -
  assume ok: "gauges_ok q"
  show "gauges_ok (snd (enqueue_pass p cls wt q))"
    using ok by (auto simp: enqueue_pass_def Let_def gauges_push)
  have "gauges_ok (signalReadyLocked (q\<lparr>items := set_outbound e p (items q)\<rparr>))"
    "gauges_ok (signalReadyLocked (q\<lparr>items := set_value e v (items q), latest := l\<rparr>))" for e v l
    using ok by (simp_all add: gauges_ok_def signalReadyLocked_def split: option.splits)
  then show "gauges_ok (snd (enqueueLatest p k q))"
    using ok by (auto simp: enqueueLatest_def Let_def gauges_push split: option.split)
  show "gauges_ok (snd (TryDequeue q))"
    using ok by (auto simp: TryDequeue_def Let_def gauges_ok_def queue_defs split: option.split list.split)
  show "gauges_ok (Close cz q)"
    using ok by (auto simp: Close_def Let_def gauges_ok_def queue_defs split: option.split)
qed

lemma metrics_recorder_keeps:
  "metrics (recordRejected c q) = None \<longleftrightarrow> metrics q = None"
  "metrics (snd (enqueue_pass p cls wt q)) = None \<longleftrightarrow> metrics q = None"
  "metrics (snd (enqueueLatest p k q)) = None \<longleftrightarrow> metrics q = None"
  "metrics (snd (TryDequeue q)) = None \<longleftrightarrow> metrics q = None"
  by (auto simp: enqueue_pass_def enqueueLatest_def TryDequeue_def Let_def queue_defs recordRejected_def
      split: option.split list.split)

lemma qreach_gauges:
  "qreach cap hm q w acc del \<Longrightarrow> gauges_ok q \<and> (metrics q = None \<longleftrightarrow> \<not> hm)"
proof (induction rule: qreach.induct)
  case (enqueue q w acc del c outb opts r q')
  have "gauges_ok (snd (Enqueue c outb opts q)) \<and> (metrics (snd (Enqueue c outb opts q)) = None \<longleftrightarrow> \<not> hm)"
    by (cases rule: Enqueue_cases [of c outb opts q])
      (use enqueue.IH in \<open>simp_all add: gauges_keeps metrics_recorder_keeps\<close>)
  then show ?case
    using enqueue.hyps(2) by simp
next
  case (retry q w acc del p r q')
  then show ?case
    using gauges_keeps(1) [of q p ReliableCommand True] metrics_recorder_keeps(2) [of p ReliableCommand True q] by simp
next
  case (dequeue q w acc del r q')
  then show ?case
    using gauges_keeps(3) [of q] metrics_recorder_keeps(4) [of q] by simp
next
  case (close q w acc del cz)
  then show ?case
    using gauges_keeps(4) [of q cz] by (simp add: Close_def Let_def queue_defs)
next
  case new
  then show ?case
    by (simp add: gauges_ok_def newOutboundQueue_def depth_gauge_def capacity_gauge_def Let_def)
next
  case (cancel q w acc del err r q')
  then show ?case
    by (auto simp: enqueue_cancelled_def metrics_recorder_keeps)
next
  case (wake q acc del q')
  then show ?case
    by (auto simp: take_ready_def gauges_ok_def split: option.splits)
qed

text \<open>
  The back-pressure gauges never drift: whenever no operation is under way, the depth
  gauge is the number of queued packets, and the capacity gauge is the queue's capacity until it
  is closed and zero afterwards.
\<close>

theorem gauges_never_drift:
  assumes "qreach cap True q w acc del"
  shows "\<exists>es. metrics q = Some es \<and> depth_gauge es = int (length (contents q)) \<and>
    capacity_gauge es = (if closed q then 0 else if cap \<le> 0 then DefaultChanSize else cap)"
proof -
  have "gauges_ok q" and "metrics q \<noteq> None"
    using qreach_gauges [OF assms] by simp_all
  moreover have "close_done q = closed q"
    using qreach_close_flags [OF assms] by (simp add: close_flags_def)
  ultimately show ?thesis
    using qreach_capacity [OF assms] by (auto simp: gauges_ok_def contents_def)
qed

lemma gauges_never_drift_witness:
  "\<exists>es. metrics sample_queue = Some es \<and> depth_gauge es = int (length (contents sample_queue)) \<and> capacity_gauge es = 2"
  using gauges_never_drift [OF sample_queue_reach] by (simp add: sample_queue_def queue_eval)

section \<open>The write gate\<close>

text \<open>The clients' use of the gate: \<open>holders\<close> counts the writers between acquire and release.\<close>

inductive gate_reach :: "bool \<Rightarrow> nat \<Rightarrow> bool" where
  "gate_reach newContextWriteGate 0"
| "gate_reach g n \<Longrightarrow> gate_acquire c cls pick g = (Some (True, None), g') \<Longrightarrow> gate_reach g' (Suc n)"
| "gate_reach g n \<Longrightarrow> gate_acquire c cls pick g = (Some (False, e), g') \<Longrightarrow> gate_reach g' n"
| "gate_reach g (Suc n) \<Longrightarrow> gate_release g = Some g' \<Longrightarrow> gate_reach g' n"

lemma gate_reach_token: "gate_reach g n \<Longrightarrow> n = (if g then 0 else 1)"
  by (induction rule: gate_reach.induct)
    (auto simp: newContextWriteGate_def gate_acquire_def gate_release_def split: if_splits option.splits)

text \<open>
  The write gate of a client admits one writer at a time, and a writer that releases it
  never blocks: the token is in the channel exactly when nobody holds it.
\<close>

theorem gate_exclusive:
  assumes "gate_reach g n"
  shows "n \<le> 1 \<and> (g \<longleftrightarrow> n = 0) \<and> (n = 1 \<longrightarrow> gate_release g = Some True)"
  using gate_reach_token [OF assms] by (simp add: gate_release_def)

lemma gate_exclusive_witness: "gate_reach False 1 \<and> gate_release False = Some True"
proof -
  have "gate_reach False 1"
    using gate_reach.intros(2) [OF gate_reach.intros(1), of None ReliableCommand False False]
    by (simp add: newContextWriteGate_def gate_acquire_def class_defs)
  with gate_exclusive [OF this] show ?thesis
    by simp
qed

end
