(* ===== verification/Consistency_Types.thy ===== *)
theory Consistency_Types
  imports Prelude
begin

text \<open>
  The vocabulary of the consistency stores, \<^verbatim>\<open>zConsistency/store_v2.go\<close> and the message type of
  \<^verbatim>\<open>memory_store.go\<close>: delivery states and their derivation from the three legacy flags, the
  validation of requests, and the retry schedule.
\<close>

section \<open>Data\<close>

datatype OutboxState =
    OutboxStateUnknown
  | OutboxStateEnqueued
  | OutboxStateTransported
  | OutboxStateApplied
  | OutboxStateDeadLetter

datatype InboxAcceptResult = InboxAcceptUnknown | InboxAccepted | InboxInProgress | InboxProcessed

datatype InboxState = InboxStateUnknown | InboxStateInProgress | InboxStateProcessed

datatype consistency_error =
    ErrInvalidConsistencyContext
  | ErrInvalidConsistencyRequestID
  | ErrConsistencyEntryExists
  | ErrConsistencyEntryNotFound
  | ErrInvalidConsistencyTransition
  | ErrUnsupportedConsistencyStore
  | ConsistencyTransitionError uint64 OutboxState OutboxState
  | ContextErr string

text \<open>A context is nil, or live, or done with an error.\<close>

datatype go_context = NilContext | Context "string option"

record OutboxMessage =
  RequestID :: uint64
  Topic :: string
  TargetServerID :: string
  TargetMapID :: int32
  ProtoID :: int32
  Payload :: "byte list"
  Sent :: bool
  Acked :: bool
  Attempts :: int
  LastError :: string
  DeadLetter :: bool
  CreatedAt :: time
  LastAttemptAt :: time
  NextRetryAt :: time
  State :: OutboxState

definition zero_message :: OutboxMessage where
  "zero_message = \<lparr>RequestID = 0, Topic = '''', TargetServerID = '''', TargetMapID = 0, ProtoID = 0,
     Payload = [], Sent = False, Acked = False, Attempts = 0, LastError = '''', DeadLetter = False,
     CreatedAt = 0, LastAttemptAt = 0, NextRetryAt = 0, State = OutboxStateUnknown\<rparr>"

section \<open>Operations\<close>

definition checkConsistencyContext :: "go_context \<Rightarrow> consistency_error option" where
  "checkConsistencyContext ctx =
     (case ctx of
        NilContext \<Rightarrow> Some ErrInvalidConsistencyContext
      | Context e \<Rightarrow> map_option ContextErr e)"

definition validateConsistencyRequest :: "go_context \<Rightarrow> uint64 \<Rightarrow> consistency_error option" where
  "validateConsistencyRequest ctx requestID =
     (case checkConsistencyContext ctx of
        Some err \<Rightarrow> Some err
      | None \<Rightarrow> if requestID = 0 then Some ErrInvalidConsistencyRequestID else None)"

definition outboxState :: "OutboxMessage \<Rightarrow> OutboxState" where
  "outboxState msg =
     (if DeadLetter msg then OutboxStateDeadLetter
      else if Acked msg then OutboxStateApplied
      else if Sent msg then OutboxStateTransported
      else OutboxStateEnqueued)"

definition setOutboxState :: "OutboxState \<Rightarrow> OutboxMessage \<Rightarrow> OutboxMessage" where
  "setOutboxState s msg =
     (let msg = msg\<lparr>State := s\<rparr> in
      case s of
        OutboxStateEnqueued \<Rightarrow> msg\<lparr>Sent := False, Acked := False, DeadLetter := False\<rparr>
      | OutboxStateTransported \<Rightarrow> msg\<lparr>Sent := True, Acked := False, DeadLetter := False\<rparr>
      | OutboxStateApplied \<Rightarrow> msg\<lparr>Sent := True, Acked := True, DeadLetter := False\<rparr>
      | OutboxStateDeadLetter \<Rightarrow> msg\<lparr>Acked := False, DeadLetter := True\<rparr>
      | OutboxStateUnknown \<Rightarrow> msg)"

definition cloneOutboxMessage :: "OutboxMessage \<Rightarrow> OutboxMessage" where
  "cloneOutboxMessage msg = msg\<lparr>State := outboxState msg\<rparr>"

definition transitionError :: "uint64 \<Rightarrow> OutboxState \<Rightarrow> OutboxState \<Rightarrow> consistency_error" where
  "transitionError requestID from to = ConsistencyTransitionError requestID from to"

definition normalizedLimit :: "int \<Rightarrow> int" where
  "normalizedLimit limit = (if limit \<le> 0 then 100 else limit)"

text \<open>
  The loop of \<^verbatim>\<open>retryDelay\<close>; the doubling wraps as the code's does. \<open>Inl\<close> is the early
  return, \<open>Inr\<close> the delay with which the loop ends.
\<close>

fun retry_loop :: "duration \<Rightarrow> nat \<Rightarrow> duration \<Rightarrow> duration + duration" where
  "retry_loop maximum 0 delay = Inr delay"
| "retry_loop maximum (Suc n) delay =
     (if maximum > 0 \<and> delay \<ge> maximum div 2 then Inl maximum
      else retry_loop maximum n (wrap64 (delay * 2)))"

definition retryDelay :: "duration \<Rightarrow> duration \<Rightarrow> int \<Rightarrow> duration" where
  "retryDelay base maximum attempts =
     (if base \<le> 0 then 0
      else case retry_loop maximum (nat attempts) base of
        Inl d \<Rightarrow> d
      | Inr delay \<Rightarrow> if maximum > 0 \<and> delay > maximum then maximum else delay)"

section \<open>States and flags\<close>

lemma outboxState_set [simp]:
  "s \<noteq> OutboxStateUnknown \<Longrightarrow> outboxState (setOutboxState s msg) = s"
  by (cases s) (simp_all add: setOutboxState_def outboxState_def Let_def)

lemma outboxState_clone [simp]: "outboxState (cloneOutboxMessage msg) = outboxState msg"
  by (simp add: cloneOutboxMessage_def outboxState_def)

lemma outboxState_known [simp]: "outboxState msg \<noteq> OutboxStateUnknown"
  by (simp add: outboxState_def)

lemma outboxState_update [simp]:
  "outboxState (msg\<lparr>CreatedAt := t\<rparr>) = outboxState msg" "outboxState (msg\<lparr>NextRetryAt := t\<rparr>) = outboxState msg"
  "outboxState (msg\<lparr>Attempts := n\<rparr>) = outboxState msg" "outboxState (msg\<lparr>LastAttemptAt := t\<rparr>) = outboxState msg"
  "outboxState (msg\<lparr>LastError := e\<rparr>) = outboxState msg"
  by (simp_all add: outboxState_def)

lemma RequestID_set [simp]: "RequestID (setOutboxState s msg) = RequestID msg"
  by (cases s) (simp_all add: setOutboxState_def Let_def)

lemma CreatedAt_set [simp]: "CreatedAt (setOutboxState s msg) = CreatedAt msg"
  by (cases s) (simp_all add: setOutboxState_def Let_def)

lemma clone_sel [simp]:
  "RequestID (cloneOutboxMessage msg) = RequestID msg" "CreatedAt (cloneOutboxMessage msg) = CreatedAt msg"
  "cloneOutboxMessage (cloneOutboxMessage msg) = cloneOutboxMessage msg"
  by (simp_all add: cloneOutboxMessage_def outboxState_def)

section \<open>The retry schedule\<close>

lemma retry_loop_bound:
  assumes "0 < maximum" "maximum < 2 ^ 63" "0 < delay" "delay \<le> maximum \<or> n = 0"
  shows "case retry_loop maximum n delay of
      Inl d \<Rightarrow> d = maximum \<and> maximum \<le> delay * 2 ^ n + 1
    | Inr d \<Rightarrow> d = delay * 2 ^ n \<and> (n = 0 \<or> d \<le> maximum)"
  using assms
proof (induction n arbitrary: delay)
  case (Suc n)
  show ?case
  proof (cases "delay \<ge> maximum div 2")
    case True
    have "maximum \<le> delay * 2 + 1"
      using True by presburger
    also have "delay * 2 \<le> delay * 2 ^ Suc n"
      using Suc.prems(3) by simp
    finally show ?thesis
      using True Suc.prems(1) by simp
  next
    case False
    then have small: "delay * 2 \<le> maximum"
      by presburger
    then have "wrap64 (delay * 2) = delay * 2"
      using Suc.prems by (intro wrap64_id) auto
    then show ?thesis
      using False Suc.IH [of "delay * 2"] Suc.prems small
      by (auto simp: algebra_simps split: sum.splits)
  qed
qed simp

text \<open>
  The retry schedule with a ceiling never overflows: for a positive base and a positive
  64-bit ceiling, the delay before a retry is positive, at most the ceiling, at least
  \<open>base * 2 ^ attempts\<close> or the ceiling, whichever is less, and exceeds \<open>base * 2 ^ attempts\<close> by at
  most a nanosecond.
\<close>

theorem retry_delay_exponential:
  assumes "0 < base" "base < 2 ^ 63" "0 < maximum" "maximum < 2 ^ 63"
  shows "0 < retryDelay base maximum attempts \<and> retryDelay base maximum attempts \<le> maximum \<and>
    min (base * 2 ^ nat attempts) maximum \<le> retryDelay base maximum attempts \<and>
    retryDelay base maximum attempts \<le> base * 2 ^ nat attempts + 1"
proof (cases "base \<le> maximum \<or> nat attempts = 0")
  case True
  from retry_loop_bound [OF assms(3,4,1) this] assms show ?thesis
    by (auto simp: retryDelay_def split: sum.splits)
next
  case False
  then obtain n where n: "nat attempts = Suc n"
    by (cases "nat attempts") auto
  have large: "maximum < base"
    using False by simp
  then have "maximum div 2 \<le> base"
    using assms(3) by presburger
  moreover have "base * 1 \<le> base * 2 ^ nat attempts"
    using assms(1) by (intro mult_left_mono) simp_all
  then have "maximum \<le> base * 2 ^ nat attempts"
    using large by linarith
  ultimately show ?thesis
    using assms(1,3) by (simp add: retryDelay_def n)
qed

theorem retry_delay_exponential_witness:
  "0 < retryDelay 500000000 30000000000 7 \<and> retryDelay 500000000 30000000000 7 \<le> 30000000000"
  using retry_delay_exponential [of 500000000 30000000000 7] by simp

end
