(* ===== verification/Outbox.thy ===== *)
theory Outbox
  imports Consistency_Types "HOL-Library.Product_Lexorder"
begin

text \<open>
  The in-memory outbox of \<^verbatim>\<open>zConsistency\<close>: the original operations (\<^verbatim>\<open>memory_store.go\<close>) and the
  checked ones (\<^verbatim>\<open>memory_store_v2.go\<close>), over the concurrent map that stores the messages. Each
  operation is the body of one critical section of \<^verbatim>\<open>v2Mu\<close>.
\<close>

section \<open>State\<close>

record 'm MemoryOutbox =
  messages :: 'm
  maxRetries :: int
  retryBackoff :: duration
  maxRetryDelay :: duration

type_synonym 'm message_map = "('m, uint64, OutboxMessage) tmap"

datatype OutboxOption = WithMaxRetries int | WithRetryBackoff duration | WithMaxRetryDelay duration

definition apply_option :: "OutboxOption \<Rightarrow> 'm MemoryOutbox \<Rightarrow> 'm MemoryOutbox" where
  "apply_option opt ob =
     (case opt of
        WithMaxRetries n \<Rightarrow> ob\<lparr>maxRetries := n\<rparr>
      | WithRetryBackoff d \<Rightarrow> ob\<lparr>retryBackoff := d\<rparr>
      | WithMaxRetryDelay d \<Rightarrow> ob\<lparr>maxRetryDelay := d\<rparr>)"

definition NewMemoryOutbox :: "'m message_map \<Rightarrow> OutboxOption list \<Rightarrow> 'm MemoryOutbox" where
  "NewMemoryOutbox T opts =
     fold apply_option opts
       \<lparr>messages = tm_new T, maxRetries = 5, retryBackoff = 500 * 1000000, maxRetryDelay = 30 * 1000000000\<rparr>"

definition put_message :: "'m message_map \<Rightarrow> uint64 \<Rightarrow> OutboxMessage \<Rightarrow> 'm MemoryOutbox \<Rightarrow> 'm MemoryOutbox" where
  "put_message T rid msg ob = ob\<lparr>messages := tm_store T (messages ob) rid msg\<rparr>"

definition drop_message :: "'m message_map \<Rightarrow> uint64 \<Rightarrow> 'm MemoryOutbox \<Rightarrow> 'm MemoryOutbox" where
  "drop_message T rid ob = ob\<lparr>messages := tm_delete T (messages ob) rid\<rparr>"

section \<open>The original operations\<close>

definition Add :: "'m message_map \<Rightarrow> time \<Rightarrow> OutboxMessage \<Rightarrow> 'm MemoryOutbox \<Rightarrow> 'm MemoryOutbox" where
  "Add T now msg ob =
     (let msg = (if IsZero (CreatedAt msg) then msg\<lparr>CreatedAt := now\<rparr> else msg);
          msg = (if IsZero (NextRetryAt msg) then msg\<lparr>NextRetryAt := CreatedAt msg\<rparr> else msg)
      in put_message T (RequestID msg) (cloneOutboxMessage msg) ob)"

definition MarkSent :: "'m message_map \<Rightarrow> uint64 \<Rightarrow> 'm MemoryOutbox \<Rightarrow> 'm MemoryOutbox" where
  "MarkSent T rid ob = drop_message T rid ob"

definition MarkAcked :: "'m message_map \<Rightarrow> uint64 \<Rightarrow> 'm MemoryOutbox \<Rightarrow> 'm MemoryOutbox" where
  "MarkAcked T rid ob = drop_message T rid ob"

text \<open>\<^verbatim>\<open>time.Duration(1<<uint(n))\<close> at 64 bits: \<open>n\<close> of 64 or more (also a negative one) gives 0.\<close>

definition shift_one :: "int \<Rightarrow> duration" where
  "shift_one n = (if 0 \<le> n \<and> n < 64 then wrap64 (2 ^ nat n) else 0)"

definition backoff_delay :: "duration \<Rightarrow> duration \<Rightarrow> int \<Rightarrow> duration" where
  "backoff_delay backoff maximum attempts =
     (let delay = wrap64 (backoff * shift_one (attempts - 1)) in
      if delay > maximum then maximum else delay)"

text \<open>\<open>now\<close> and \<open>now'\<close> are the two readings of the clock; \<open>err\<close> the text of a non-nil error.\<close>

definition MarkAttempt ::
    "'m message_map \<Rightarrow> time \<Rightarrow> time \<Rightarrow> uint64 \<Rightarrow> string option \<Rightarrow> 'm MemoryOutbox \<Rightarrow> 'm MemoryOutbox" where
  "MarkAttempt T now now' rid err ob =
     (case tm_load T (messages ob) rid of
        None \<Rightarrow> ob
      | Some msg \<Rightarrow>
          (let msg = msg\<lparr>Attempts := Attempts msg + 1\<rparr>;
               msg = msg\<lparr>LastAttemptAt := now\<rparr>;
               msg = (case err of
                        None \<Rightarrow> msg
                      | Some e \<Rightarrow>
                          msg\<lparr>LastError := e, Sent := False,
                              NextRetryAt := now' + backoff_delay (retryBackoff ob) (maxRetryDelay ob) (Attempts msg)\<rparr>)
           in put_message T rid msg ob))"

definition MarkDeadLetter ::
    "'m message_map \<Rightarrow> time \<Rightarrow> uint64 \<Rightarrow> string \<Rightarrow> 'm MemoryOutbox \<Rightarrow> 'm MemoryOutbox" where
  "MarkDeadLetter T now rid reason ob =
     (case tm_load T (messages ob) rid of
        None \<Rightarrow> ob
      | Some msg \<Rightarrow> put_message T rid (msg\<lparr>DeadLetter := True, LastError := reason, LastAttemptAt := now\<rparr>) ob)"

text \<open>
  The visitors of the three listings: a message that is not wanted is skipped, a wanted one is
  appended and the visit goes on while the result is shorter than the limit.
\<close>

fun visit_until :: "(OutboxMessage \<Rightarrow> bool) \<Rightarrow> int \<Rightarrow> (uint64 \<times> OutboxMessage) list \<Rightarrow> OutboxMessage list \<Rightarrow> OutboxMessage list" where
  "visit_until skip limit [] out = out"
| "visit_until skip limit ((rid, msg) # rest) out =
     (if skip msg then visit_until skip limit rest out
      else
        (let out = out @ [cloneOutboxMessage msg] in
         if int (length out) < limit then visit_until skip limit rest out else out))"

definition not_due :: "'m MemoryOutbox \<Rightarrow> time \<Rightarrow> OutboxMessage \<Rightarrow> bool" where
  "not_due ob now msg \<longleftrightarrow>
     Sent msg \<or> DeadLetter msg \<or> Acked msg \<or> Attempts msg \<ge> maxRetries ob \<or>
     (\<not> IsZero (NextRetryAt msg) \<and> now < NextRetryAt msg)"

definition ListPending :: "'m message_map \<Rightarrow> int \<Rightarrow> 'm MemoryOutbox \<Rightarrow> OutboxMessage list" where
  "ListPending T limit ob =
     (let limit = (if limit \<le> 0 then 100 else limit) in
      visit_until (\<lambda>msg. Sent msg \<or> DeadLetter msg) limit (tm_range T (messages ob)) [])"

definition ListRetryable :: "'m message_map \<Rightarrow> time \<Rightarrow> int \<Rightarrow> 'm MemoryOutbox \<Rightarrow> OutboxMessage list" where
  "ListRetryable T now limit ob =
     (let limit = (if limit \<le> 0 then 100 else limit) in
      visit_until (not_due ob now) limit (tm_range T (messages ob)) [])"

definition ListDeadLetters :: "'m message_map \<Rightarrow> int \<Rightarrow> 'm MemoryOutbox \<Rightarrow> OutboxMessage list" where
  "ListDeadLetters T limit ob =
     (let limit = (if limit \<le> 0 then 100 else limit) in
      visit_until (\<lambda>msg. \<not> DeadLetter msg) limit (tm_range T (messages ob)) [])"

definition count_messages :: "'m message_map \<Rightarrow> (OutboxMessage \<Rightarrow> bool) \<Rightarrow> 'm MemoryOutbox \<Rightarrow> int" where
  "count_messages T incl ob =
     fold (\<lambda>(rid, msg) n. if incl msg then n + 1 else n) (tm_range T (messages ob)) 0"

definition CountPending :: "'m message_map \<Rightarrow> 'm MemoryOutbox \<Rightarrow> int" where
  "CountPending T ob = count_messages T (\<lambda>msg. \<not> Sent msg \<and> \<not> DeadLetter msg) ob"

definition CountRetryable :: "'m message_map \<Rightarrow> time \<Rightarrow> 'm MemoryOutbox \<Rightarrow> int" where
  "CountRetryable T now ob = count_messages T (\<lambda>msg. \<not> not_due ob now msg) ob"

definition CountDeadLetters :: "'m message_map \<Rightarrow> 'm MemoryOutbox \<Rightarrow> int" where
  "CountDeadLetters T ob = count_messages T DeadLetter ob"

definition purge_age_ok :: "duration \<Rightarrow> time \<Rightarrow> OutboxMessage \<Rightarrow> bool" where
  "purge_age_ok olderThan now msg =
     (let ageBase = (if IsZero (LastAttemptAt msg) then CreatedAt msg else LastAttemptAt msg)
      in olderThan \<le> 0 \<or> time_Sub now ageBase \<ge> olderThan)"

definition PurgeDeadLetters :: "'m message_map \<Rightarrow> time \<Rightarrow> duration \<Rightarrow> 'm MemoryOutbox \<Rightarrow> int \<times> 'm MemoryOutbox" where
  "PurgeDeadLetters T now olderThan ob =
     fold (\<lambda>(rid, msg) (removed, ob).
             if \<not> DeadLetter msg then (removed, ob)
             else if purge_age_ok olderThan now msg then (removed + 1, drop_message T rid ob)
             else (removed, ob))
       (tm_range T (messages ob)) (0, ob)"

section \<open>The checked operations\<close>

type_synonym 'm outbox_result = "consistency_error option \<times> 'm MemoryOutbox"

text \<open>The creation time and the first retry time that \<^verbatim>\<open>Enqueue\<close> fills in.\<close>

definition stamp_message :: "'m MemoryOutbox \<Rightarrow> time \<Rightarrow> OutboxMessage \<Rightarrow> OutboxMessage" where
  "stamp_message ob now msg =
     (let msg = (if IsZero (CreatedAt msg) then msg\<lparr>CreatedAt := now\<rparr> else msg) in
      if IsZero (NextRetryAt msg)
      then msg\<lparr>NextRetryAt := CreatedAt msg + retryDelay (retryBackoff ob) (maxRetryDelay ob) 0\<rparr>
      else msg)"

definition outbox_Enqueue :: "'m message_map \<Rightarrow> time \<Rightarrow> go_context \<Rightarrow> OutboxMessage \<Rightarrow> 'm MemoryOutbox \<Rightarrow> 'm outbox_result" where
  "outbox_Enqueue T now ctx msg ob =
     (case validateConsistencyRequest ctx (RequestID msg) of
        Some err \<Rightarrow> (Some err, ob)
      | None \<Rightarrow>
          (case tm_load T (messages ob) (RequestID msg) of
             Some _ \<Rightarrow> (Some ErrConsistencyEntryExists, ob)
           | None \<Rightarrow>
               (let msg = setOutboxState OutboxStateEnqueued (stamp_message ob now msg)
                in (None, put_message T (RequestID msg) (cloneOutboxMessage msg) ob))))"

definition outbox_Get :: "'m message_map \<Rightarrow> go_context \<Rightarrow> uint64 \<Rightarrow> 'm MemoryOutbox \<Rightarrow> consistency_error + OutboxMessage" where
  "outbox_Get T ctx rid ob =
     (case validateConsistencyRequest ctx rid of
        Some err \<Rightarrow> Inl err
      | None \<Rightarrow>
          (case tm_load T (messages ob) rid of
             None \<Rightarrow> Inl ErrConsistencyEntryNotFound
           | Some msg \<Rightarrow> Inr (cloneOutboxMessage msg)))"

definition outbox_transition ::
    "'m message_map \<Rightarrow> go_context \<Rightarrow> uint64 \<Rightarrow> OutboxState \<Rightarrow> 'm MemoryOutbox \<Rightarrow> 'm outbox_result" where
  "outbox_transition T ctx rid target ob =
     (case validateConsistencyRequest ctx rid of
        Some err \<Rightarrow> (Some err, ob)
      | None \<Rightarrow>
          (case tm_load T (messages ob) rid of
             None \<Rightarrow> (Some ErrConsistencyEntryNotFound, ob)
           | Some msg \<Rightarrow>
               (let current = outboxState msg in
                if current = target then (None, ob)
                else
                  (let allowed = (target = OutboxStateTransported \<and> current = OutboxStateEnqueued);
                       allowed = (allowed \<or> target = OutboxStateApplied \<and> current = OutboxStateTransported)
                   in if \<not> allowed then (Some (transitionError rid current target), ob)
                      else (None, put_message T rid (setOutboxState target msg) ob)))))"

definition MarkTransported :: "'m message_map \<Rightarrow> go_context \<Rightarrow> uint64 \<Rightarrow> 'm MemoryOutbox \<Rightarrow> 'm outbox_result" where
  "MarkTransported T ctx rid ob = outbox_transition T ctx rid OutboxStateTransported ob"

definition MarkApplied :: "'m message_map \<Rightarrow> go_context \<Rightarrow> uint64 \<Rightarrow> 'm MemoryOutbox \<Rightarrow> 'm outbox_result" where
  "MarkApplied T ctx rid ob = outbox_transition T ctx rid OutboxStateApplied ob"

definition RecordAttempt ::
    "'m message_map \<Rightarrow> time \<Rightarrow> go_context \<Rightarrow> uint64 \<Rightarrow> string option \<Rightarrow> 'm MemoryOutbox \<Rightarrow> 'm outbox_result" where
  "RecordAttempt T now ctx rid cause ob =
     (case validateConsistencyRequest ctx rid of
        Some err \<Rightarrow> (Some err, ob)
      | None \<Rightarrow>
          (case tm_load T (messages ob) rid of
             None \<Rightarrow> (Some ErrConsistencyEntryNotFound, ob)
           | Some msg \<Rightarrow>
               (let st = outboxState msg in
                if st = OutboxStateApplied \<or> st = OutboxStateDeadLetter
                then (Some (transitionError rid st OutboxStateEnqueued), ob)
                else
                  (let msg = msg\<lparr>Attempts := Attempts msg + 1\<rparr>;
                       msg = msg\<lparr>LastAttemptAt := now\<rparr>;
                       msg = msg\<lparr>NextRetryAt := LastAttemptAt msg +
                               retryDelay (retryBackoff ob) (maxRetryDelay ob) (Attempts msg - 1)\<rparr>;
                       msg = (case cause of
                                None \<Rightarrow> msg
                              | Some e \<Rightarrow> setOutboxState OutboxStateEnqueued (msg\<lparr>LastError := e\<rparr>))
                   in (None, put_message T rid msg ob)))))"

definition MoveToDeadLetter ::
    "'m message_map \<Rightarrow> time \<Rightarrow> go_context \<Rightarrow> uint64 \<Rightarrow> string \<Rightarrow> 'm MemoryOutbox \<Rightarrow> 'm outbox_result" where
  "MoveToDeadLetter T now ctx rid reason ob =
     (case validateConsistencyRequest ctx rid of
        Some err \<Rightarrow> (Some err, ob)
      | None \<Rightarrow>
          (case tm_load T (messages ob) rid of
             None \<Rightarrow> (Some ErrConsistencyEntryNotFound, ob)
           | Some msg \<Rightarrow>
               (let st = outboxState msg in
                if st = OutboxStateDeadLetter then (None, ob)
                else if st = OutboxStateApplied then (Some (transitionError rid st OutboxStateDeadLetter), ob)
                else
                  (let msg = msg\<lparr>LastError := reason, LastAttemptAt := now\<rparr>
                   in (None, put_message T rid (setOutboxState OutboxStateDeadLetter msg) ob)))))"

definition outbox_Complete ::
    "'m message_map \<Rightarrow> go_context \<Rightarrow> uint64 \<Rightarrow> OutboxState \<Rightarrow> 'm MemoryOutbox \<Rightarrow> 'm outbox_result" where
  "outbox_Complete T ctx rid terminal ob =
     (case validateConsistencyRequest ctx rid of
        Some err \<Rightarrow> (Some err, ob)
      | None \<Rightarrow>
          (if terminal \<noteq> OutboxStateTransported \<and> terminal \<noteq> OutboxStateApplied
           then (Some (transitionError rid OutboxStateUnknown terminal), ob)
           else
             (case tm_load T (messages ob) rid of
                None \<Rightarrow> (Some ErrConsistencyEntryNotFound, ob)
              | Some msg \<Rightarrow>
                  (let current = outboxState msg in
                   if current \<noteq> terminal then (Some (transitionError rid current terminal), ob)
                   else (None, drop_message T rid ob)))))"

text \<open>
  \<^verbatim>\<open>sort.Slice\<close> orders by creation time and then by request number. The stored messages have
  distinct numbers, so the order has no ties and every sorting algorithm gives this list.
\<close>

definition list_key :: "OutboxMessage \<Rightarrow> time \<times> uint64" where
  "list_key msg = (CreatedAt msg, RequestID msg)"

definition listV2 ::
    "'m message_map \<Rightarrow> go_context \<Rightarrow> int \<Rightarrow> (OutboxMessage \<Rightarrow> bool) \<Rightarrow> 'm MemoryOutbox \<Rightarrow> consistency_error + OutboxMessage list" where
  "listV2 T ctx limit incl ob =
     (case checkConsistencyContext ctx of
        Some err \<Rightarrow> Inl err
      | None \<Rightarrow>
          (let result = map (\<lambda>(rid, msg). cloneOutboxMessage msg) (filter (\<lambda>(rid, msg). incl msg) (tm_range T (messages ob)));
               result = sort_key list_key result
           in if int (length result) > normalizedLimit limit then Inr (take (nat (normalizedLimit limit)) result)
              else Inr result))"

definition countV2 ::
    "'m message_map \<Rightarrow> go_context \<Rightarrow> (OutboxMessage \<Rightarrow> bool) \<Rightarrow> 'm MemoryOutbox \<Rightarrow> consistency_error + int" where
  "countV2 T ctx incl ob =
     (case checkConsistencyContext ctx of
        Some err \<Rightarrow> Inl err
      | None \<Rightarrow> Inr (count_messages T incl ob))"

definition is_unresolved :: "OutboxMessage \<Rightarrow> bool" where
  "is_unresolved msg \<longleftrightarrow> outboxState msg = OutboxStateEnqueued \<or> outboxState msg = OutboxStateTransported"

definition is_retryable :: "'m MemoryOutbox \<Rightarrow> time \<Rightarrow> OutboxMessage \<Rightarrow> bool" where
  "is_retryable ob now msg \<longleftrightarrow>
     is_unresolved msg \<and> Attempts msg < maxRetries ob \<and> (IsZero (NextRetryAt msg) \<or> \<not> now < NextRetryAt msg)"

definition is_dead :: "OutboxMessage \<Rightarrow> bool" where
  "is_dead msg \<longleftrightarrow> outboxState msg = OutboxStateDeadLetter"

definition ListUnresolved :: "'m message_map \<Rightarrow> go_context \<Rightarrow> int \<Rightarrow> 'm MemoryOutbox \<Rightarrow> consistency_error + OutboxMessage list" where
  "ListUnresolved T ctx limit ob = listV2 T ctx limit is_unresolved ob"

definition ListRetryableContext ::
    "'m message_map \<Rightarrow> go_context \<Rightarrow> time \<Rightarrow> int \<Rightarrow> 'm MemoryOutbox \<Rightarrow> consistency_error + OutboxMessage list" where
  "ListRetryableContext T ctx now limit ob = listV2 T ctx limit (is_retryable ob now) ob"

definition ListDeadLettersContext :: "'m message_map \<Rightarrow> go_context \<Rightarrow> int \<Rightarrow> 'm MemoryOutbox \<Rightarrow> consistency_error + OutboxMessage list" where
  "ListDeadLettersContext T ctx limit ob = listV2 T ctx limit is_dead ob"

definition CountUnresolved :: "'m message_map \<Rightarrow> go_context \<Rightarrow> 'm MemoryOutbox \<Rightarrow> consistency_error + int" where
  "CountUnresolved T ctx ob = countV2 T ctx is_unresolved ob"

definition CountRetryableContext :: "'m message_map \<Rightarrow> go_context \<Rightarrow> time \<Rightarrow> 'm MemoryOutbox \<Rightarrow> consistency_error + int" where
  "CountRetryableContext T ctx now ob = countV2 T ctx (is_retryable ob now) ob"

definition CountDeadLettersContext :: "'m message_map \<Rightarrow> go_context \<Rightarrow> 'm MemoryOutbox \<Rightarrow> consistency_error + int" where
  "CountDeadLettersContext T ctx ob = countV2 T ctx is_dead ob"

definition PurgeDeadLettersContext ::
    "'m message_map \<Rightarrow> time \<Rightarrow> go_context \<Rightarrow> duration \<Rightarrow> 'm MemoryOutbox \<Rightarrow> (consistency_error + int) \<times> 'm MemoryOutbox" where
  "PurgeDeadLettersContext T now ctx olderThan ob =
     (case checkConsistencyContext ctx of
        Some err \<Rightarrow> (Inl err, ob)
      | None \<Rightarrow>
          (let requestIDs = map fst (filter (\<lambda>(rid, msg). is_dead msg \<and> purge_age_ok olderThan now msg)
                              (tm_range T (messages ob)))
           in (Inr (int (length requestIDs)), fold (drop_message T) requestIDs ob)))"

section \<open>The life of a message\<close>

definition message_state :: "'m message_map \<Rightarrow> 'm MemoryOutbox \<Rightarrow> uint64 \<Rightarrow> OutboxState option" where
  "message_state T ob rid = map_option outboxState (tm_load T (messages ob) rid)"

datatype outbox_op =
    OpEnqueue OutboxMessage
  | OpTransported uint64
  | OpApplied uint64
  | OpAttempt uint64 "string option"
  | OpDead uint64 string
  | OpComplete uint64 OutboxState
  | OpPurge duration

definition exec_op :: "'m message_map \<Rightarrow> time \<Rightarrow> go_context \<Rightarrow> outbox_op \<Rightarrow> 'm MemoryOutbox \<Rightarrow> 'm outbox_result" where
  "exec_op T now ctx op ob =
     (case op of
        OpEnqueue msg \<Rightarrow> outbox_Enqueue T now ctx msg ob
      | OpTransported rid \<Rightarrow> MarkTransported T ctx rid ob
      | OpApplied rid \<Rightarrow> MarkApplied T ctx rid ob
      | OpAttempt rid cause \<Rightarrow> RecordAttempt T now ctx rid cause ob
      | OpDead rid reason \<Rightarrow> MoveToDeadLetter T now ctx rid reason ob
      | OpComplete rid terminal \<Rightarrow> outbox_Complete T ctx rid terminal ob
      | OpPurge olderThan \<Rightarrow>
          (case PurgeDeadLettersContext T now ctx olderThan ob of
             (Inl err, ob') \<Rightarrow> (Some err, ob')
           | (Inr n, ob') \<Rightarrow> (None, ob')))"

text \<open>The edges of the life cycle; \<open>None\<close> is a number the outbox does not hold.\<close>

definition life_edge :: "outbox_op \<Rightarrow> uint64 \<Rightarrow> OutboxState option \<Rightarrow> OutboxState option \<Rightarrow> bool" where
  "life_edge op rid a b \<longleftrightarrow>
     (case op of
        OpEnqueue msg \<Rightarrow> rid = RequestID msg \<and> a = None \<and> b = Some OutboxStateEnqueued
      | OpTransported r \<Rightarrow> r = rid \<and> a = Some OutboxStateEnqueued \<and> b = Some OutboxStateTransported
      | OpApplied r \<Rightarrow> r = rid \<and> a = Some OutboxStateTransported \<and> b = Some OutboxStateApplied
      | OpAttempt r cause \<Rightarrow>
          r = rid \<and> cause \<noteq> None \<and> a = Some OutboxStateTransported \<and> b = Some OutboxStateEnqueued
      | OpDead r reason \<Rightarrow>
          r = rid \<and> a \<in> {Some OutboxStateEnqueued, Some OutboxStateTransported} \<and> b = Some OutboxStateDeadLetter
      | OpComplete r terminal \<Rightarrow>
          r = rid \<and> terminal \<in> {OutboxStateTransported, OutboxStateApplied} \<and> a = Some terminal \<and> b = None
      | OpPurge d \<Rightarrow> a = Some OutboxStateDeadLetter \<and> b = None)"

lemma message_state_put:
  "tm_laws T \<Longrightarrow> message_state T (put_message T rid msg ob) = (message_state T ob)(rid \<mapsto> outboxState msg)"
  by (auto simp: message_state_def put_message_def fun_eq_iff typed_map.load_store [OF typed_map.intro])

lemma message_state_drop:
  "tm_laws T \<Longrightarrow> message_state T (drop_message T rid ob) = (message_state T ob)(rid := None)"
  by (auto simp: message_state_def drop_message_def fun_eq_iff typed_map.load_delete [OF typed_map.intro])

lemma message_state_drop_list:
  "tm_laws T \<Longrightarrow> message_state T (fold (drop_message T) rids ob) rid =
     (if rid \<in> set rids then None else message_state T ob rid)"
  by (induction rids arbitrary: ob) (auto simp: message_state_drop)

lemma message_state_range:
  assumes "tm_laws T" "(rid, msg) \<in> set (tm_range T (messages ob))"
  shows "message_state T ob rid = Some (outboxState msg)"
  using assms(2) typed_map.mem_range [OF typed_map.intro [OF assms(1)]] by (auto simp: message_state_def)

lemma message_state_load:
  "tm_load T (messages ob) rid = Some msg \<Longrightarrow> message_state T ob rid = Some (outboxState msg)"
  "tm_load T (messages ob) rid = None \<Longrightarrow> message_state T ob rid = None"
  by (simp_all add: message_state_def)

lemma RequestID_stamp [simp]: "RequestID (stamp_message ob now msg) = RequestID msg"
  by (simp add: stamp_message_def Let_def)

lemmas checked_op_defs = outbox_Enqueue_def outbox_transition_def MarkTransported_def MarkApplied_def
  RecordAttempt_def MoveToDeadLetter_def outbox_Complete_def PurgeDeadLettersContext_def

lemma outboxState_cases:
  obtains "outboxState msg = OutboxStateEnqueued" | "outboxState msg = OutboxStateTransported"
  | "outboxState msg = OutboxStateApplied" | "outboxState msg = OutboxStateDeadLetter"
  using outboxState_known [of msg] by (cases "outboxState msg") auto

text \<open>One checked operation changes the state of one request, along an edge, and reports success.\<close>

lemma exec_op_edge:
  assumes laws: "tm_laws T" and op: "exec_op T now ctx op ob = (r, ob')"
  shows "message_state T ob' rid = message_state T ob rid \<or>
    r = None \<and> life_edge op rid (message_state T ob rid) (message_state T ob' rid)"
proof (cases op)
  case (OpEnqueue msg)
  then show ?thesis
    using op laws
    by (auto simp: exec_op_def checked_op_defs life_edge_def message_state_put Let_def message_state_load(2)
        split: option.splits if_splits)
next
  case (OpTransported r)
  then show ?thesis
    using op laws
    by (auto simp: exec_op_def checked_op_defs life_edge_def message_state_put Let_def message_state_load
        split: option.splits if_splits)
next
  case (OpApplied r)
  then show ?thesis
    using op laws
    by (auto simp: exec_op_def checked_op_defs life_edge_def message_state_put Let_def message_state_load
        split: option.splits if_splits)
next
  case (OpAttempt q cause)
  show ?thesis
  proof (cases "tm_load T (messages ob) q")
    case None
    then show ?thesis
      using op OpAttempt by (auto simp: exec_op_def checked_op_defs split: option.splits)
  next
    case (Some msg)
    then show ?thesis
      using op laws OpAttempt message_state_load(1) [OF Some]
      by (cases rule: outboxState_cases [of msg])
        (auto simp: exec_op_def checked_op_defs life_edge_def message_state_put Let_def split: option.splits if_splits)
  qed
next
  case (OpDead q reason)
  show ?thesis
  proof (cases "tm_load T (messages ob) q")
    case None
    then show ?thesis
      using op OpDead by (auto simp: exec_op_def checked_op_defs split: option.splits)
  next
    case (Some msg)
    then show ?thesis
      using op laws OpDead message_state_load(1) [OF Some]
      by (cases rule: outboxState_cases [of msg])
        (auto simp: exec_op_def checked_op_defs life_edge_def message_state_put Let_def split: option.splits if_splits)
  qed
next
  case (OpComplete q terminal)
  then show ?thesis
    using op laws
    by (auto simp: exec_op_def checked_op_defs life_edge_def message_state_drop Let_def message_state_load
        split: option.splits if_splits)
next
  case (OpPurge d)
  have dead: "message_state T ob rid = Some OutboxStateDeadLetter"
    if "(rid, b) \<in> set (tm_range T (messages ob))" "outboxState b = OutboxStateDeadLetter" for b
    using message_state_range [OF laws that(1)] that(2) by simp
  show ?thesis
    using op laws OpPurge
    by (auto simp: exec_op_def checked_op_defs life_edge_def message_state_drop_list Let_def is_dead_def
        split: option.splits if_splits) (rule dead)
qed

text \<open>
  Property C8. The life of a message under the checked operations: an operation that fails changes
  no message's state; one that succeeds changes at most the state of its own request, and only
  along the edges of the life cycle (enqueued, transported, applied; dead letter from the first
  two; removal by completion from transported or applied, by purging from dead letter). So
  nothing is applied that was not transported, and applied messages never go back.
\<close>

theorem outbox_life_cycle:
  assumes "tm_laws T" "exec_op T now ctx op ob = (r, ob')"
  shows "message_state T ob' rid = message_state T ob rid \<or>
    r = None \<and> life_edge op rid (message_state T ob rid) (message_state T ob' rid)"
  by (rule exec_op_edge [OF assms])

primrec run_ops ::
    "'m message_map \<Rightarrow> (time \<times> go_context \<times> outbox_op) list \<Rightarrow> 'm MemoryOutbox \<Rightarrow> (outbox_op \<times> consistency_error option) list \<times> 'm MemoryOutbox" where
  "run_ops T [] ob = ([], ob)"
| "run_ops T (c # cs) ob =
     (case c of (now, ctx, op) \<Rightarrow>
        (case exec_op T now ctx op ob of (r, ob') \<Rightarrow>
           (case run_ops T cs ob' of (rs, ob'') \<Rightarrow> ((op, r) # rs, ob''))))"

definition completed_in :: "uint64 \<Rightarrow> (outbox_op \<times> consistency_error option) list \<Rightarrow> bool" where
  "completed_in rid h \<longleftrightarrow> (OpComplete rid OutboxStateTransported, None) \<in> set h \<or>
     (OpComplete rid OutboxStateApplied, None) \<in> set h"

definition dead_lettered_in :: "uint64 \<Rightarrow> (outbox_op \<times> consistency_error option) list \<Rightarrow> bool" where
  "dead_lettered_in rid h \<longleftrightarrow> (\<exists>reason. (OpDead rid reason, None) \<in> set h)"

definition purged_in :: "(outbox_op \<times> consistency_error option) list \<Rightarrow> bool" where
  "purged_in h \<longleftrightarrow> (\<exists>d. (OpPurge d, None) \<in> set h)"

lemma run_ops_loss:
  assumes laws: "tm_laws T" and run: "run_ops T cs ob = (h, ob')"
    and "message_state T ob rid = Some s" "message_state T ob' rid = None"
  shows "completed_in rid h \<or> (s = OutboxStateDeadLetter \<or> dead_lettered_in rid h) \<and> purged_in h"
  using run assms(3)
proof (induction cs arbitrary: ob h s)
  case Nil
  then show ?case
    using assms(4) by simp
next
  case (Cons c cs)
  obtain now ctx op where c: "c = (now, ctx, op)"
    by (cases c)
  obtain r ob1 where step: "exec_op T now ctx op ob = (r, ob1)"
    by fastforce
  obtain h1 where h1: "run_ops T cs ob1 = (h1, ob')" "h = (op, r) # h1"
    using Cons.prems(1) by (auto simp: c step split: prod.splits)
  from exec_op_edge [OF laws step, of rid]
  consider "message_state T ob1 rid = Some s"
    | "r = None" "life_edge op rid (Some s) (message_state T ob1 rid)"
    using Cons.prems(2) by auto
  then show ?case
  proof cases
    case 1
    from Cons.IH [OF h1(1) this] show ?thesis
      by (auto simp: h1(2) completed_in_def dead_lettered_in_def purged_in_def)
  next
    case 2
    show ?thesis
    proof (cases "message_state T ob1 rid")
      case None
      then show ?thesis
        using 2 by (auto simp: h1(2) life_edge_def completed_in_def dead_lettered_in_def purged_in_def
            split: outbox_op.splits)
    next
      case (Some s1)
      from Cons.IH [OF h1(1) Some] show ?thesis
        using 2 Some by (auto simp: h1(2) life_edge_def completed_in_def dead_lettered_in_def purged_in_def
            split: outbox_op.splits)
    qed
  qed
qed

text \<open>
  Property C9. No message is lost silently: over any sequence of checked operations, whatever their
  contexts and whatever the clock, a message that the outbox held and no longer holds was
  removed by a successful completion of its request, or had become a dead letter and was purged.
\<close>

theorem outbox_no_silent_loss:
  assumes "tm_laws T" "run_ops T cs ob = (h, ob')"
    and "message_state T ob rid = Some s" "message_state T ob' rid = None"
  shows "completed_in rid h \<or> (s = OutboxStateDeadLetter \<or> dead_lettered_in rid h) \<and> purged_in h"
  by (rule run_ops_loss [OF assms])

lemmas outbox_eval = run_ops.simps exec_op_def checked_op_defs validateConsistencyRequest_def
  checkConsistencyContext_def put_message_def drop_message_def Let_def setOutboxState_def
  outboxState_def cloneOutboxMessage_def stamp_message_def zero_message_def message_state_def

definition sample_outbox :: "(uint64 \<times> OutboxMessage) list MemoryOutbox" where
  "sample_outbox = snd (outbox_Enqueue alist_tm 10 (Context None) (zero_message\<lparr>RequestID := 4\<rparr>) (NewMemoryOutbox alist_tm []))"

lemma sample_outbox_state: "message_state alist_tm sample_outbox 4 = Some OutboxStateEnqueued"
  by (simp add: sample_outbox_def NewMemoryOutbox_def outbox_eval IsZero_def)

lemma outbox_life_cycle_witness:
  "fst (exec_op alist_tm 11 (Context None) (OpTransported 4) sample_outbox) = None \<and>
   life_edge (OpTransported 4) 4 (Some OutboxStateEnqueued)
     (message_state alist_tm (snd (exec_op alist_tm 11 (Context None) (OpTransported 4) sample_outbox)) 4)"
proof -
  let ?r = "exec_op alist_tm 11 (Context None) (OpTransported 4) sample_outbox"
  have "message_state alist_tm (snd ?r) 4 \<noteq> message_state alist_tm sample_outbox 4"
    by (simp add: sample_outbox_def NewMemoryOutbox_def outbox_eval IsZero_def)
  then show ?thesis
    using outbox_life_cycle [of alist_tm 11 "Context None" "OpTransported 4" sample_outbox "fst ?r" "snd ?r" 4]
    by (simp add: sample_outbox_state)
qed

lemma outbox_no_silent_loss_witness:
  "completed_in 4 (fst (run_ops alist_tm
     [(11, Context None, OpTransported 4), (12, Context None, OpComplete 4 OutboxStateTransported)] sample_outbox))"
proof -
  define cs where "cs = [(11 :: int, Context None, OpTransported 4), (12, Context None, OpComplete 4 OutboxStateTransported)]"
  have "message_state alist_tm (snd (run_ops alist_tm cs sample_outbox)) 4 = None"
    "\<not> dead_lettered_in 4 (fst (run_ops alist_tm cs sample_outbox))"
    by (simp_all add: cs_def sample_outbox_def NewMemoryOutbox_def outbox_eval IsZero_def dead_lettered_in_def)
  then show ?thesis
    using outbox_no_silent_loss [of alist_tm cs sample_outbox _ _ 4, OF alist_tm_laws prod.collapse [symmetric] sample_outbox_state]
    by (auto simp: cs_def [symmetric])
qed

section \<open>Listings and counts\<close>

text \<open>Every message is stored under its own number.\<close>

definition keyed :: "'m message_map \<Rightarrow> 'm MemoryOutbox \<Rightarrow> bool" where
  "keyed T ob \<longleftrightarrow> (\<forall>rid msg. tm_load T (messages ob) rid = Some msg \<longrightarrow> RequestID msg = rid)"

lemma keyed_put: "tm_laws T \<Longrightarrow> keyed T ob \<Longrightarrow> RequestID msg = rid \<Longrightarrow> keyed T (put_message T rid msg ob)"
  by (simp add: keyed_def put_message_def typed_map.load_store [OF typed_map.intro])

lemma keyed_drop: "tm_laws T \<Longrightarrow> keyed T ob \<Longrightarrow> keyed T (drop_message T rid ob)"
  by (simp add: keyed_def drop_message_def typed_map.load_delete [OF typed_map.intro])

lemma keyed_drop_list: "tm_laws T \<Longrightarrow> keyed T ob \<Longrightarrow> keyed T (fold (drop_message T) rids ob)"
  by (induction rids arbitrary: ob) (auto simp: keyed_drop)

lemma keyed_new: "tm_laws T \<Longrightarrow> keyed T (NewMemoryOutbox T opts)"
proof -
  assume "tm_laws T"
  have "messages (fold apply_option opts ob) = messages ob" for ob :: "'a MemoryOutbox"
    by (induction opts arbitrary: ob) (simp_all add: apply_option_def split: OutboxOption.split)
  then show ?thesis
    by (simp add: keyed_def NewMemoryOutbox_def typed_map.load_new [OF typed_map.intro [OF \<open>tm_laws T\<close>]])
qed

lemma exec_op_keyed:
  assumes laws: "tm_laws T" and ob: "keyed T ob"
  shows "keyed T (snd (exec_op T now ctx op ob))"
proof -
  have key: "RequestID msg = rid" if "tm_load T (messages ob) rid = Some msg" for rid msg
    using ob that by (simp add: keyed_def)
  note keep = keyed_put [OF laws ob] keyed_drop [OF laws ob] keyed_drop_list [OF laws ob]
  show ?thesis
    by (cases op)
      (auto simp: exec_op_def checked_op_defs Let_def ob key keep split: option.split)
qed

lemma run_ops_keyed: "tm_laws T \<Longrightarrow> keyed T ob \<Longrightarrow> keyed T (snd (run_ops T cs ob))"
proof (induction cs arbitrary: ob)
  case (Cons c cs)
  obtain now ctx op where c: "c = (now, ctx, op)"
    by (cases c)
  show ?case
    using Cons.IH [OF Cons.prems(1) exec_op_keyed [OF Cons.prems, of now ctx op]]
    by (auto simp: c split: prod.split)
qed simp

lemma count_messages_filter:
  "count_messages T incl ob = int (length (filter (\<lambda>(rid, msg). incl msg) (tm_range T (messages ob))))"
proof -
  have "fold (\<lambda>(rid, msg) n. if incl msg then n + 1 else n) xs (k :: int) = k + int (length (filter (\<lambda>(rid, msg). incl msg) xs))"
    for xs :: "(uint64 \<times> OutboxMessage) list" and k
    by (induction xs arbitrary: k) auto
  then show ?thesis
    by (simp add: count_messages_def)
qed

text \<open>The matching messages, as the listings return them: copies whose state field is refreshed.\<close>

definition matching :: "'m message_map \<Rightarrow> (OutboxMessage \<Rightarrow> bool) \<Rightarrow> 'm MemoryOutbox \<Rightarrow> OutboxMessage set" where
  "matching T incl ob = {cloneOutboxMessage msg |rid msg. tm_load T (messages ob) rid = Some msg \<and> incl msg}"

lemma sorted_wrt_key_less:
  assumes "distinct (map f xs)"
  shows "sorted_wrt (\<lambda>a b. f a < f b) (sort_key f xs)"
proof -
  have "sorted (map f (sort_key f xs))" "distinct (map f (sort_key f xs))"
    using assms by (simp_all add: distinct_map)
  then have "sorted_wrt (<) (map f (sort_key f xs))"
    by (simp add: strict_sorted_iff)
  then show ?thesis
    by (simp add: sorted_wrt_map)
qed

lemma sorted_wrt_take_drop:
  "sorted_wrt P xs \<Longrightarrow> a \<in> set (take n xs) \<Longrightarrow> b \<in> set (drop n xs) \<Longrightarrow> P a b"
  using sorted_wrt_append [of P "take n xs" "drop n xs"] by simp

lemma sorted_wrt_take: "sorted_wrt P xs \<Longrightarrow> sorted_wrt P (take n xs)"
  using sorted_wrt_append [of P "take n xs" "drop n xs"] by simp

lemma listV2_exact:
  assumes laws: "tm_laws T" and ob: "keyed T ob" and result: "listV2 T ctx limit incl ob = Inr ms"
  shows "set ms \<subseteq> matching T incl ob" "sorted_wrt (\<lambda>a b. list_key a < list_key b) ms"
    "int (length ms) = min (normalizedLimit limit) (count_messages T incl ob)"
    "a \<in> set ms \<Longrightarrow> b \<in> matching T incl ob \<Longrightarrow> b \<notin> set ms \<Longrightarrow> list_key a < list_key b"
proof -
  define hits where "hits = filter (\<lambda>(rid, msg). incl msg) (tm_range T (messages ob))"
  define all where "all = sort_key list_key (map (\<lambda>(rid, msg). cloneOutboxMessage msg) hits)"
  have mem: "(rid, msg) \<in> set (tm_range T (messages ob)) \<longleftrightarrow> tm_load T (messages ob) rid = Some msg" for rid msg
    by (rule typed_map.mem_range [OF typed_map.intro [OF laws]])
  have "map (RequestID \<circ> (\<lambda>(rid, msg). cloneOutboxMessage msg)) hits = map fst hits"
    using ob by (auto simp: hits_def mem keyed_def)
  moreover have "distinct (map fst hits)"
    unfolding hits_def by (rule distinct_map_filter [OF typed_map.distinct_range [OF typed_map.intro [OF laws]]])
  ultimately have "distinct (map RequestID (map (\<lambda>(rid, msg). cloneOutboxMessage msg) hits))"
    by (simp only: map_map)
  then have "distinct (map list_key (map (\<lambda>(rid, msg). cloneOutboxMessage msg) hits))"
    by (auto simp: distinct_map inj_on_def list_key_def)
  then have sorted: "sorted_wrt (\<lambda>a b. list_key a < list_key b) all"
    unfolding all_def by (rule sorted_wrt_key_less)
  have set_all: "set all = matching T incl ob"
    by (force simp: all_def hits_def matching_def mem)
  have len: "int (length all) = count_messages T incl ob"
    by (simp add: all_def hits_def count_messages_filter)
  have ms: "ms = take (nat (normalizedLimit limit)) all"
    using result by (auto simp: listV2_def Let_def all_def hits_def split: option.splits if_splits)
  show "set ms \<subseteq> matching T incl ob"
    using set_take_subset set_all by (fastforce simp: ms)
  show "sorted_wrt (\<lambda>a b. list_key a < list_key b) ms"
    using sorted by (simp add: ms sorted_wrt_take)
  show "int (length ms) = min (normalizedLimit limit) (count_messages T incl ob)"
    using len by (auto simp: ms normalizedLimit_def min_def)
  show "list_key a < list_key b" if "a \<in> set ms" "b \<in> matching T incl ob" "b \<notin> set ms"
  proof -
    have "b \<in> set (drop (nat (normalizedLimit limit)) all)"
      using that(2,3) set_all ms by (metis Un_iff append_take_drop_id set_append)
    with that(1) sorted_wrt_take_drop [OF sorted] show ?thesis
      by (simp add: ms)
  qed
qed

text \<open>
  What the checked listings return, in every outbox that operations can produce: at most
  the limit (100 by default) and exactly the oldest matching messages, in strictly increasing
  order of creation time and request number; every message left out is younger than every
  message listed.
\<close>

theorem retryable_listing_exact:
  assumes "tm_laws T" "ob = snd (run_ops T cs (NewMemoryOutbox T opts))"
    and "ListRetryableContext T ctx now limit ob = Inr ms"
  shows "set ms \<subseteq> matching T (is_retryable ob now) ob \<and> sorted_wrt (\<lambda>a b. list_key a < list_key b) ms \<and>
    CountRetryableContext T ctx now ob = Inr (count_messages T (is_retryable ob now) ob) \<and>
    int (length ms) = min (normalizedLimit limit) (count_messages T (is_retryable ob now) ob) \<and>
    (\<forall>a \<in> set ms. \<forall>b \<in> matching T (is_retryable ob now) ob - set ms. list_key a < list_key b)"
proof -
  have "keyed T ob"
    unfolding assms(2) by (rule run_ops_keyed [OF assms(1) keyed_new [OF assms(1)]])
  moreover have "listV2 T ctx limit (is_retryable ob now) ob = Inr ms"
    using assms(3) by (simp add: ListRetryableContext_def)
  moreover have "checkConsistencyContext ctx = None"
    using assms(3) by (simp add: ListRetryableContext_def listV2_def split: option.splits)
  ultimately show ?thesis
    using listV2_exact [OF assms(1), of ob ctx limit "is_retryable ob now" ms]
    by (auto simp: CountRetryableContext_def countV2_def)
qed

lemma listV2_live: "\<exists>ms. listV2 T (Context None) limit incl ob = Inr ms"
  by (auto simp: listV2_def checkConsistencyContext_def Let_def)

definition two_messages :: "(time \<times> go_context \<times> outbox_op) list" where
  "two_messages = [(20, Context None, OpEnqueue (zero_message\<lparr>RequestID := 9\<rparr>)),
                   (10, Context None, OpEnqueue (zero_message\<lparr>RequestID := 4\<rparr>))]"

lemma retryable_listing_exact_witness:
  "\<exists>ms. ListRetryableContext alist_tm (Context None) 600000000 1
      (snd (run_ops alist_tm two_messages (NewMemoryOutbox alist_tm []))) = Inr ms \<and> length ms = 1"
proof -
  define ob where "ob = snd (run_ops alist_tm two_messages (NewMemoryOutbox alist_tm []))"
  have eval: "messages ob = [(9, zero_message\<lparr>RequestID := 9, CreatedAt := 20, NextRetryAt := 500000020, State := OutboxStateEnqueued\<rparr>),
      (4, zero_message\<lparr>RequestID := 4, CreatedAt := 10, NextRetryAt := 500000010, State := OutboxStateEnqueued\<rparr>)]"
      "maxRetries ob = 5"
    by (simp_all add: ob_def two_messages_def NewMemoryOutbox_def outbox_eval IsZero_def retryDelay_def)
  have count: "count_messages alist_tm (is_retryable ob 600000000) ob = 2"
    by (simp add: count_messages_def eval is_retryable_def is_unresolved_def outboxState_def zero_message_def IsZero_def)
  obtain ms where ms: "ListRetryableContext alist_tm (Context None) 600000000 1 ob = Inr ms"
    using listV2_live [of alist_tm 1 "is_retryable ob 600000000" ob] by (auto simp: ListRetryableContext_def)
  have "length ms = 1"
    using retryable_listing_exact [OF alist_tm_laws ob_def ms] count by (simp add: normalizedLimit_def)
  with ms show ?thesis
    by (auto simp: ob_def)
qed

section \<open>The original retry schedule\<close>

lemma wrap64_multiple: "wrap64 (2 ^ 64 * k) = 0"
  by (simp add: wrap64_def)

text \<open>
  A flaw of the original schedule: \<^verbatim>\<open>MarkAttempt\<close> multiplies the backoff by a power of two
  without a guard against overflow. With the default settings (500 ms, at most 30 s) the delay
  after the 36th attempt is negative, and from the 57th attempt on it is zero, so a message
  that keeps failing is due again at once instead of after the maximal delay.
\<close>

theorem mark_attempt_backoff_lost:
  "backoff_delay 500000000 30000000000 36 < 0 \<and> (57 \<le> n \<longrightarrow> backoff_delay 500000000 30000000000 n = 0)"
proof -
  have "backoff_delay 500000000 30000000000 n = 0" if n: "57 \<le> n"
  proof -
    consider (mid) k where "n - 1 = 56 + int k" "k < 7" | (top) "n - 1 = 63" | (out) "64 \<le> n - 1"
    proof (cases "n - 1 < 63")
      case True
      then show ?thesis
        using n mid [of "nat (n - 57)"] by simp
    next
      case False
      then show ?thesis
        using top out by force
    qed
    then have "\<exists>k. 500000000 * shift_one (n - 1) = 2 ^ 64 * k"
    proof cases
      case (mid k)
      then have "k = 0 \<or> k = 1 \<or> k = 2 \<or> k = 3 \<or> k = 4 \<or> k = 5 \<or> k = 6"
        by linarith
      then show ?thesis
        using mid by (intro exI [of _ "1953125 * 2 ^ k"]) (auto simp: shift_one_def wrap64_def nat_add_distrib)
    next
      case top
      then show ?thesis
        by (intro exI [of _ "- 250000000"]) (simp add: shift_one_def wrap64_def)
    qed (simp add: shift_one_def)
    then obtain k where "500000000 * shift_one (n - 1) = 2 ^ 64 * k"
      by blast
    then have "wrap64 (500000000 * shift_one (n - 1)) = 0"
      by (metis wrap64_multiple)
    then show ?thesis
      by (simp add: backoff_delay_def)
  qed
  moreover have "backoff_delay 500000000 30000000000 36 < 0"
    by (simp add: backoff_delay_def shift_one_def wrap64_def)
  ultimately show ?thesis
    by blast
qed

lemma mark_attempt_backoff_lost_witness: "backoff_delay 500000000 30000000000 60 = 0"
  using mark_attempt_backoff_lost [of 60] by simp

end
