(* ===== verification/Inbox.thy ===== *)
theory Inbox
  imports Consistency_Types
begin

text \<open>
  The in-memory inbox of \<^verbatim>\<open>zConsistency\<close> (the idempotency table), with its original
  (\<^verbatim>\<open>memory_store.go\<close>) and checked (\<^verbatim>\<open>memory_store_v2.go\<close>) operations, and the operation log of
  \<^verbatim>\<open>memory_store.go\<close>. Each operation is the body of one critical section of \<^verbatim>\<open>v2Mu\<close>.
\<close>

section \<open>State\<close>

record inboxEntry =
  processedAt :: time
  acked :: bool

record 'm MemoryInbox =
  entries :: 'm
  in_count :: int

type_synonym 'm entry_map = "('m, uint64, inboxEntry) tmap"

definition NewMemoryInbox :: "'m entry_map \<Rightarrow> 'm MemoryInbox" where
  "NewMemoryInbox T = \<lparr>entries = tm_new T, in_count = 0\<rparr>"

section \<open>The original operations\<close>

definition TryAccept :: "'m entry_map \<Rightarrow> time \<Rightarrow> uint64 \<Rightarrow> 'm MemoryInbox \<Rightarrow> bool \<times> 'm MemoryInbox" where
  "TryAccept T now rid m =
     (if rid = 0 then (True, m)
      else
        (case tm_load_or_store T (entries m) rid \<lparr>processedAt = now, acked = False\<rparr> of
           ((e, loaded), es) \<Rightarrow>
             (let m = m\<lparr>entries := es\<rparr> in
              if loaded then (False, m) else (True, m\<lparr>in_count := in_count m + 1\<rparr>))))"

definition Ack :: "'m entry_map \<Rightarrow> uint64 \<Rightarrow> 'm MemoryInbox \<Rightarrow> bool \<times> 'm MemoryInbox" where
  "Ack T rid m =
     (case tm_load T (entries m) rid of
        Some entry \<Rightarrow> (True, m\<lparr>entries := tm_store T (entries m) rid (entry\<lparr>acked := True\<rparr>)\<rparr>)
      | None \<Rightarrow> (False, m))"

definition IsProcessed :: "'m entry_map \<Rightarrow> uint64 \<Rightarrow> 'm MemoryInbox \<Rightarrow> bool" where
  "IsProcessed T rid m = (tm_load T (entries m) rid \<noteq> None)"

definition Release :: "'m entry_map \<Rightarrow> uint64 \<Rightarrow> 'm MemoryInbox \<Rightarrow> 'm MemoryInbox" where
  "Release T rid m =
     (if rid = 0 then m
      else
        (case tm_load T (entries m) rid of
           Some _ \<Rightarrow> m\<lparr>entries := tm_delete T (entries m) rid, in_count := in_count m - 1\<rparr>
         | None \<Rightarrow> m))"

definition delete_entries :: "'m entry_map \<Rightarrow> uint64 list \<Rightarrow> 'm MemoryInbox \<Rightarrow> 'm MemoryInbox" where
  "delete_entries T rids m =
     m\<lparr>entries := fold (\<lambda>rid es. tm_delete T es rid) rids (entries m), in_count := in_count m - int (length rids)\<rparr>"

definition inbox_Cleanup :: "'m entry_map \<Rightarrow> time \<Rightarrow> duration \<Rightarrow> 'm MemoryInbox \<Rightarrow> 'm MemoryInbox" where
  "inbox_Cleanup T now olderThan m =
     (let toDelete = map fst (filter (\<lambda>(rid, entry). time_Sub now (processedAt entry) > olderThan) (tm_range T (entries m)))
      in delete_entries T toDelete m)"

section \<open>The checked operations\<close>

definition inbox_Acquire ::
    "'m entry_map \<Rightarrow> time \<Rightarrow> go_context \<Rightarrow> uint64 \<Rightarrow> 'm MemoryInbox \<Rightarrow> (consistency_error + InboxAcceptResult) \<times> 'm MemoryInbox" where
  "inbox_Acquire T now ctx rid m =
     (case validateConsistencyRequest ctx rid of
        Some err \<Rightarrow> (Inl err, m)
      | None \<Rightarrow>
          (case tm_load T (entries m) rid of
             Some entry \<Rightarrow> (Inr (if acked entry then InboxProcessed else InboxInProgress), m)
           | None \<Rightarrow>
               (Inr InboxAccepted,
                m\<lparr>entries := tm_store T (entries m) rid \<lparr>processedAt = now, acked = False\<rparr>,
                  in_count := in_count m + 1\<rparr>)))"

definition inbox_Status :: "'m entry_map \<Rightarrow> go_context \<Rightarrow> uint64 \<Rightarrow> 'm MemoryInbox \<Rightarrow> consistency_error + InboxState" where
  "inbox_Status T ctx rid m =
     (case validateConsistencyRequest ctx rid of
        Some err \<Rightarrow> Inl err
      | None \<Rightarrow>
          (case tm_load T (entries m) rid of
             None \<Rightarrow> Inl ErrConsistencyEntryNotFound
           | Some entry \<Rightarrow> Inr (if acked entry then InboxStateProcessed else InboxStateInProgress)))"

definition MarkProcessed ::
    "'m entry_map \<Rightarrow> time \<Rightarrow> go_context \<Rightarrow> uint64 \<Rightarrow> 'm MemoryInbox \<Rightarrow> consistency_error option \<times> 'm MemoryInbox" where
  "MarkProcessed T now ctx rid m =
     (case validateConsistencyRequest ctx rid of
        Some err \<Rightarrow> (Some err, m)
      | None \<Rightarrow>
          (case tm_load T (entries m) rid of
             None \<Rightarrow> (Some ErrConsistencyEntryNotFound, m)
           | Some entry \<Rightarrow>
               (if acked entry then (None, m)
                else (None, m\<lparr>entries := tm_store T (entries m) rid (entry\<lparr>acked := True, processedAt := now\<rparr>)\<rparr>))))"

definition Abandon ::
    "'m entry_map \<Rightarrow> go_context \<Rightarrow> uint64 \<Rightarrow> 'm MemoryInbox \<Rightarrow> consistency_error option \<times> 'm MemoryInbox" where
  "Abandon T ctx rid m =
     (case validateConsistencyRequest ctx rid of
        Some err \<Rightarrow> (Some err, m)
      | None \<Rightarrow>
          (case tm_load T (entries m) rid of
             None \<Rightarrow> (Some ErrConsistencyEntryNotFound, m)
           | Some entry \<Rightarrow>
               (if acked entry then (Some ErrInvalidConsistencyTransition, m)
                else (None, m\<lparr>entries := tm_delete T (entries m) rid, in_count := in_count m - 1\<rparr>))))"

definition CleanupContext ::
    "'m entry_map \<Rightarrow> time \<Rightarrow> go_context \<Rightarrow> duration \<Rightarrow> 'm MemoryInbox \<Rightarrow> (consistency_error + int) \<times> 'm MemoryInbox" where
  "CleanupContext T now ctx olderThan m =
     (case checkConsistencyContext ctx of
        Some err \<Rightarrow> (Inl err, m)
      | None \<Rightarrow>
          (let requestIDs = map fst (filter (\<lambda>(rid, entry). acked entry \<and>
                 (olderThan \<le> 0 \<or> time_Sub now (processedAt entry) > olderThan)) (tm_range T (entries m)))
           in (Inr (int (length requestIDs)), delete_entries T requestIDs m)))"

section \<open>The operation log\<close>

record 'd LogEntry =
  log_ID :: uint64
  Operation :: string
  log_Data :: 'd
  Timestamp :: time
  Completed :: bool

type_synonym ('m, 'd) log_map = "('m, uint64, 'd LogEntry) tmap"

definition Record :: "('m, 'd) log_map \<Rightarrow> time \<Rightarrow> uint64 \<Rightarrow> string \<Rightarrow> 'd \<Rightarrow> 'm \<Rightarrow> 'm" where
  "Record T now k op dat es =
     tm_store T es k \<lparr>log_ID = k, Operation = op, log_Data = dat, Timestamp = now, Completed = False\<rparr>"

definition log_Complete :: "('m, 'd) log_map \<Rightarrow> uint64 \<Rightarrow> 'm \<Rightarrow> 'm" where
  "log_Complete T k es =
     (case tm_load T es k of Some entry \<Rightarrow> tm_store T es k (entry\<lparr>Completed := True\<rparr>) | None \<Rightarrow> es)"

definition GetIncomplete :: "('m, 'd) log_map \<Rightarrow> 'm \<Rightarrow> 'd LogEntry list" where
  "GetIncomplete T es = map snd (filter (\<lambda>(k, entry). \<not> Completed entry) (tm_range T es))"

definition log_Cleanup :: "('m, 'd) log_map \<Rightarrow> time \<Rightarrow> duration \<Rightarrow> 'm \<Rightarrow> 'm" where
  "log_Cleanup T now maxAge es =
     fold (\<lambda>k es. tm_delete T es k)
       (map fst (filter (\<lambda>(k, entry). Completed entry \<and> time_Sub now (Timestamp entry) > maxAge) (tm_range T es))) es"

section \<open>Executions\<close>

text \<open>The calls of either interface, and what the caller learns from them.\<close>

datatype inbox_op =
    IAcquire uint64 | IProcessed uint64 | IAbandon uint64 | ICleanup duration
  | ITryAccept uint64 | IAck uint64 | IRelease uint64 | IOldCleanup duration

datatype inbox_answer = Taken | Refused | Done

definition exec_inbox :: "'m entry_map \<Rightarrow> time \<Rightarrow> go_context \<Rightarrow> inbox_op \<Rightarrow> 'm MemoryInbox \<Rightarrow> inbox_answer \<times> 'm MemoryInbox" where
  "exec_inbox T now ctx op m =
     (case op of
        IAcquire rid \<Rightarrow>
          (case inbox_Acquire T now ctx rid m of (r, m') \<Rightarrow> (if r = Inr InboxAccepted then Taken else Refused, m'))
      | IProcessed rid \<Rightarrow>
          (case MarkProcessed T now ctx rid m of (r, m') \<Rightarrow> (if r = None then Done else Refused, m'))
      | IAbandon rid \<Rightarrow>
          (case Abandon T ctx rid m of (r, m') \<Rightarrow> (if r = None then Done else Refused, m'))
      | ICleanup d \<Rightarrow> (Done, snd (CleanupContext T now ctx d m))
      | ITryAccept rid \<Rightarrow> (case TryAccept T now rid m of (r, m') \<Rightarrow> (if r then Taken else Refused, m'))
      | IAck rid \<Rightarrow> (case Ack T rid m of (r, m') \<Rightarrow> (if r then Done else Refused, m'))
      | IRelease rid \<Rightarrow> (Done, Release T rid m)
      | IOldCleanup d \<Rightarrow> (Done, inbox_Cleanup T now d m))"

primrec run_inbox ::
    "'m entry_map \<Rightarrow> (time \<times> go_context \<times> inbox_op) list \<Rightarrow> 'm MemoryInbox \<Rightarrow> (inbox_op \<times> inbox_answer) list \<times> 'm MemoryInbox" where
  "run_inbox T [] m = ([], m)"
| "run_inbox T (c # cs) m =
     (case c of (now, ctx, op) \<Rightarrow>
        (case exec_inbox T now ctx op m of (r, m') \<Rightarrow>
           (case run_inbox T cs m' of (rs, m'') \<Rightarrow> ((op, r) # rs, m''))))"

lemmas inbox_defs = inbox_Acquire_def MarkProcessed_def Abandon_def CleanupContext_def TryAccept_def Ack_def
  Release_def inbox_Cleanup_def tm_load_or_store_def

section \<open>The entry counter\<close>

text \<open>The counter is the number of entries.\<close>

definition count_ok :: "'m entry_map \<Rightarrow> 'm MemoryInbox \<Rightarrow> bool" where
  "count_ok T m \<longleftrightarrow> in_count m = tm_len T (entries m)"

lemma delete_entries_count:
  assumes "tm_laws T" "count_ok T m"
  shows "count_ok T (delete_entries T (map fst (filter P (tm_range T (entries m)))) m)"
proof -
  note map = typed_map.intro [OF assms(1)]
  show ?thesis
    using assms(2) typed_map.len_delete_list [OF map typed_map.distinct_visited [OF map] typed_map.visited_dom [OF map]]
    by (simp add: count_ok_def delete_entries_def)
qed

lemma exec_inbox_count:
  assumes "tm_laws T" "count_ok T m"
  shows "count_ok T (snd (exec_inbox T now ctx op m))"
proof -
  note map = typed_map.intro [OF assms(1)]
  have "count_ok T (m\<lparr>entries := tm_store T (entries m) rid v, in_count := in_count m + 1\<rparr>)"
    if "tm_load T (entries m) rid = None" for rid v
    using assms(2) that by (simp add: count_ok_def typed_map.len_store [OF map])
  moreover have "count_ok T (m\<lparr>entries := tm_store T (entries m) rid v\<rparr>)"
    if "tm_load T (entries m) rid = Some w" for rid v w
    using assms(2) that by (simp add: count_ok_def typed_map.len_store [OF map])
  moreover have "count_ok T (m\<lparr>entries := tm_delete T (entries m) rid, in_count := in_count m - 1\<rparr>)"
    if "tm_load T (entries m) rid = Some w" for rid w
    using assms(2) that by (simp add: count_ok_def typed_map.len_delete [OF map])
  moreover note delete_entries_count [OF assms]
  ultimately show ?thesis
    using assms(2) by (cases op) (simp_all add: exec_inbox_def inbox_defs Let_def split: option.split)
qed

text \<open>
  The inbox counter never drifts: over any sequence of original and checked operations on
  a new inbox it equals the number of recorded requests.
\<close>

theorem inbox_count_exact:
  assumes "tm_laws T"
  shows "in_count (snd (run_inbox T cs (NewMemoryInbox T))) = tm_len T (entries (snd (run_inbox T cs (NewMemoryInbox T))))"
proof -
  have "count_ok T m \<Longrightarrow> count_ok T (snd (run_inbox T cs m))" for m
  proof (induction cs arbitrary: m)
    case (Cons c cs)
    obtain now ctx op where c: "c = (now, ctx, op)"
      by (cases c)
    show ?case
      using Cons.IH [OF exec_inbox_count [OF assms Cons.prems, of now ctx op]]
      by (auto simp: c split: prod.split)
  qed simp
  moreover have "count_ok T (NewMemoryInbox T)"
    using typed_map.len_zero_iff [OF typed_map.intro [OF assms]] typed_map.load_new [OF typed_map.intro [OF assms]]
    by (simp add: count_ok_def NewMemoryInbox_def)
  ultimately show ?thesis
    by (simp add: count_ok_def)
qed

lemmas inbox_eval = run_inbox.simps exec_inbox_def inbox_defs NewMemoryInbox_def validateConsistencyRequest_def
  checkConsistencyContext_def Let_def delete_entries_def

lemma inbox_count_exact_witness:
  "in_count (snd (run_inbox alist_tm [(1, Context None, IAcquire 4), (2, Context None, ITryAccept 4), (3, Context None, ITryAccept 5)]
     (NewMemoryInbox alist_tm))) = 2"
  using inbox_count_exact [of alist_tm, OF alist_tm_laws,
      of "[(1, Context None, IAcquire 4), (2, Context None, ITryAccept 4), (3, Context None, ITryAccept 5)]"]
  by (simp add: inbox_eval)

section \<open>One owner at a time\<close>

definition entry_state :: "'m entry_map \<Rightarrow> 'm MemoryInbox \<Rightarrow> uint64 \<Rightarrow> bool option" where
  "entry_state T m rid = map_option acked (tm_load T (entries m) rid)"

definition is_checked :: "inbox_op \<Rightarrow> bool" where
  "is_checked op \<longleftrightarrow> (case op of IAcquire _ \<Rightarrow> True | IProcessed _ \<Rightarrow> True | IAbandon _ \<Rightarrow> True | ICleanup _ \<Rightarrow> True | _ \<Rightarrow> False)"

text \<open>How a checked operation changes the entry of a request.\<close>

definition inbox_edge :: "inbox_op \<Rightarrow> inbox_answer \<Rightarrow> uint64 \<Rightarrow> bool option \<Rightarrow> bool option \<Rightarrow> bool" where
  "inbox_edge op r rid a b \<longleftrightarrow>
     op = IAcquire rid \<and> r = Taken \<and> a = None \<and> b = Some False \<or>
     op = IProcessed rid \<and> r = Done \<and> a = Some False \<and> b = Some True \<or>
     op = IAbandon rid \<and> r = Done \<and> a = Some False \<and> b = None \<or>
     (\<exists>d. op = ICleanup d) \<and> a = Some True \<and> b = None"

lemma exec_inbox_edge:
  assumes laws: "tm_laws T" and "is_checked op" and op: "exec_inbox T now ctx op m = (r, m')"
  shows "(entry_state T m' rid = entry_state T m rid \<and> (op, r) \<noteq> (IAcquire rid, Taken)) \<or>
    inbox_edge op r rid (entry_state T m rid) (entry_state T m' rid)"
proof -
  note map = typed_map.intro [OF laws]
  note tm = typed_map.load_store [OF map] typed_map.load_delete [OF map] typed_map.load_delete_list [OF map]
  show ?thesis
  proof (cases op)
    case (IAcquire q)
    then show ?thesis
      using op by (auto simp: exec_inbox_def inbox_defs entry_state_def inbox_edge_def tm
          split: option.splits if_splits)
  next
    case (IProcessed q)
    then show ?thesis
      using op by (auto simp: exec_inbox_def inbox_defs entry_state_def inbox_edge_def tm
          split: option.splits if_splits)
  next
    case (IAbandon q)
    then show ?thesis
      using op by (auto simp: exec_inbox_def inbox_defs entry_state_def inbox_edge_def tm
          split: option.splits if_splits)
  next
    case (ICleanup d)
    then show ?thesis
      using op by (auto simp: exec_inbox_def inbox_defs entry_state_def inbox_edge_def tm Let_def delete_entries_def
          typed_map.mem_range [OF map] split: option.splits if_splits)
  qed (use assms(2) in \<open>simp_all add: is_checked_def\<close>)
qed

text \<open>From an entry in progress to no entry: an abandon, or completion and then a cleanup.\<close>

lemma run_inbox_released:
  assumes laws: "tm_laws T"
  shows "\<lbrakk>run_inbox T cs m = (h, m'); list_all (\<lambda>c. is_checked (snd (snd c))) cs;
     entry_state T m rid = Some a; entry_state T m' rid = None\<rbrakk> \<Longrightarrow>
     (IAbandon rid, Done) \<in> set h \<or> (a \<or> (IProcessed rid, Done) \<in> set h) \<and> (\<exists>d. (ICleanup d, Done) \<in> set h)"
proof (induction cs arbitrary: m h a)
  case Nil
  then show ?case by simp
next
  case (Cons c cs)
  obtain now ctx op where c: "c = (now, ctx, op)"
    by (cases c)
  obtain r m1 where step: "exec_inbox T now ctx op m = (r, m1)"
    by fastforce
  obtain h1 where h1: "run_inbox T cs m1 = (h1, m')" "h = (op, r) # h1"
    using Cons.prems(1) by (auto simp: c step split: prod.splits)
  have chk: "is_checked op" "list_all (\<lambda>c. is_checked (snd (snd c))) cs"
    using Cons.prems(2) by (simp_all add: c)
  note IH = Cons.IH [OF h1(1) chk(2) _ Cons.prems(4)]
  have clean: "r = Done" if "op = ICleanup d" for d
    using step that by (simp add: exec_inbox_def)
  from exec_inbox_edge [OF laws chk(1) step, of rid] Cons.prems(3)
  consider "entry_state T m1 rid = Some a"
    | "op = IProcessed rid" "r = Done" "entry_state T m1 rid = Some True"
    | "op = IAbandon rid" "r = Done" | d where "op = ICleanup d" "a" "entry_state T m1 rid = None"
    by (auto simp: inbox_edge_def)
  then show ?case
  proof cases
    case 1
    from IH [OF this] show ?thesis
      by (auto simp: h1(2))
  next
    case 2
    from IH [OF 2(3)] show ?thesis
      using 2 by (auto simp: h1(2))
  next
    case 3
    then show ?thesis
      by (auto simp: h1(2))
  next
    case (4 d)
    then show ?thesis
      using clean [OF 4(1)] by (auto simp: h1(2))
  qed
qed

lemma run_inbox_split:
  "run_inbox T cs m = (h @ h', m') \<Longrightarrow>
     \<exists>cs1 cs2 m1. cs = cs1 @ cs2 \<and> run_inbox T cs1 m = (h, m1) \<and> run_inbox T cs2 m1 = (h', m')"
proof (induction h arbitrary: cs m)
  case Nil
  then show ?case
    by (intro exI [of _ "[]"] exI [of _ cs] exI [of _ m]) simp
next
  case (Cons x h)
  obtain c cs1 where cs: "cs = c # cs1"
    using Cons.prems by (cases cs) auto
  obtain now ctx op where c: "c = (now, ctx, op)"
    by (cases c)
  obtain r m1 where step: "exec_inbox T now ctx op m = (r, m1)"
    by fastforce
  have rest: "run_inbox T cs1 m1 = (h @ h', m')" "x = (op, r)"
    using Cons.prems by (auto simp: cs c step split: prod.splits)
  from Cons.IH [OF rest(1)] obtain cs2 cs3 m2 where
    "cs1 = cs2 @ cs3" "run_inbox T cs2 m1 = (h, m2)" "run_inbox T cs3 m2 = (h', m')"
    by blast
  then show ?case
    by (intro exI [of _ "c # cs2"] exI [of _ cs3] exI [of _ m2]) (simp add: cs c step rest(2))
qed

lemma run_inbox_taken:
  assumes laws: "tm_laws T" and run: "run_inbox T cs m = ((IAcquire rid, Taken) # h, m')"
    and chk: "list_all (\<lambda>c. is_checked (snd (snd c))) cs"
  obtains cs' m1 where "run_inbox T cs' m1 = (h, m')" "list_all (\<lambda>c. is_checked (snd (snd c))) cs'"
    "entry_state T m rid = None" "entry_state T m1 rid = Some False"
proof -
  obtain now ctx op cs' where cs: "cs = (now, ctx, op) # cs'"
    using run by (cases cs) auto
  obtain r m1 where step: "exec_inbox T now ctx op m = (r, m1)"
    by fastforce
  have "run_inbox T cs' m1 = (h, m')" "op = IAcquire rid" "r = Taken"
    using run by (auto simp: cs step split: prod.splits)
  moreover have "is_checked op" "list_all (\<lambda>c. is_checked (snd (snd c))) cs'"
    using chk by (simp_all add: cs)
  ultimately show ?thesis
    using exec_inbox_edge [OF laws _ step, of rid] that by (auto simp: inbox_edge_def)
qed

text \<open>
  Property C10. A request has one owner at a time: in any execution of the checked operations, between
  two acquisitions of the same request that were both accepted, the first owner abandoned it, or
  it was marked processed and its record was cleaned up. So while the record is kept, a
  processed request is never processed again.
\<close>

theorem inbox_single_owner:
  assumes laws: "tm_laws T"
    and run: "run_inbox T cs m = (h1 @ (IAcquire rid, Taken) # h2 @ (IAcquire rid, Taken) # h3, m')"
    and chk: "list_all (\<lambda>c. is_checked (snd (snd c))) cs"
  shows "(IAbandon rid, Done) \<in> set h2 \<or>
    (IProcessed rid, Done) \<in> set h2 \<and> (\<exists>d. (ICleanup d, Done) \<in> set h2)"
proof -
  obtain cs1 cs2 m1 where a: "cs = cs1 @ cs2"
    "run_inbox T cs2 m1 = ((IAcquire rid, Taken) # h2 @ (IAcquire rid, Taken) # h3, m')"
    using run_inbox_split [OF run] by blast
  have "list_all (\<lambda>c. is_checked (snd (snd c))) cs2"
    using chk a(1) by simp
  from run_inbox_taken [OF laws a(2) this] obtain cs3 m2 where b:
    "run_inbox T cs3 m2 = (h2 @ (IAcquire rid, Taken) # h3, m')" "list_all (\<lambda>c. is_checked (snd (snd c))) cs3"
    "entry_state T m2 rid = Some False" .
  obtain cs4 cs5 m3 where c: "cs3 = cs4 @ cs5" "run_inbox T cs4 m2 = (h2, m3)"
    "run_inbox T cs5 m3 = ((IAcquire rid, Taken) # h3, m')"
    using run_inbox_split [OF b(1)] by blast
  have d: "list_all (\<lambda>c. is_checked (snd (snd c))) cs4" "list_all (\<lambda>c. is_checked (snd (snd c))) cs5"
    using b(2) c(1) by simp_all
  have "entry_state T m3 rid = None"
    using run_inbox_taken [OF laws c(3) d(2)] by blast
  from run_inbox_released [OF laws c(2) d(1) b(3) this] show ?thesis
    by blast
qed

lemma inbox_single_owner_witness:
  "(IAbandon 4, Done) \<in> set [(IAbandon 4, Done)] \<or>
   (IProcessed 4, Done) \<in> set [(IAbandon 4, Done)] \<and> (\<exists>d. (ICleanup d, Done) \<in> set [(IAbandon 4, Done)])"
proof (rule inbox_single_owner [OF alist_tm_laws])
  let ?cs = "[(1, Context None, IAcquire 4), (2, Context None, IAbandon 4), (3, Context None, IAcquire 4)]"
  show "run_inbox alist_tm ?cs (NewMemoryInbox alist_tm) =
      ([] @ (IAcquire 4, Taken) # [(IAbandon 4, Done)] @ (IAcquire 4, Taken) # [],
       snd (run_inbox alist_tm ?cs (NewMemoryInbox alist_tm)))"
    by (simp add: inbox_eval)
  show "list_all (\<lambda>c. is_checked (snd (snd c))) ?cs"
    by (simp add: is_checked_def)
qed

section \<open>The log keeps what is not complete\<close>

lemma log_cleanup_keeps_incomplete:
  assumes "tm_laws T"
  shows "set (GetIncomplete T (log_Cleanup T now maxAge es)) = set (GetIncomplete T es)"
proof -
  note map = typed_map.intro [OF assms]
  have inc: "set (GetIncomplete T es) = {e. \<exists>k. tm_load T es k = Some e \<and> \<not> Completed e}" for es
    by (force simp: GetIncomplete_def typed_map.mem_range [OF map])
  have "tm_load T (log_Cleanup T now maxAge es) k = Some e \<longleftrightarrow> tm_load T es k = Some e" if "\<not> Completed e" for k e
    using that by (auto simp: log_Cleanup_def typed_map.load_delete_list [OF map] typed_map.mem_range [OF map])
  then show ?thesis
    by (auto simp: inc)
qed

end
