(* ===== verification/Store_Compat.thy ===== *)
theory Store_Compat
  imports Outbox Inbox
begin

text \<open>
  The adapters of \<^verbatim>\<open>zConsistency/store_v2_compat.go\<close>, which present a store of the original
  interface as a checked one. The original interfaces are records of operations on a state \<open>'s\<close>;
  an operation that reads the clock takes the reading as its first argument.
\<close>

section \<open>The original interfaces\<close>

record 's OutboxStore =
  os_Add :: "time \<Rightarrow> OutboxMessage \<Rightarrow> 's \<Rightarrow> 's"
  os_MarkSent :: "uint64 \<Rightarrow> 's \<Rightarrow> 's"
  os_MarkAcked :: "uint64 \<Rightarrow> 's \<Rightarrow> 's"
  os_MarkAttempt :: "time \<Rightarrow> uint64 \<Rightarrow> string option \<Rightarrow> 's \<Rightarrow> 's"
  os_MarkDeadLetter :: "time \<Rightarrow> uint64 \<Rightarrow> string \<Rightarrow> 's \<Rightarrow> 's"
  os_ListPending :: "int \<Rightarrow> 's \<Rightarrow> OutboxMessage list"
  os_ListRetryable :: "time \<Rightarrow> int \<Rightarrow> 's \<Rightarrow> OutboxMessage list"
  os_ListDeadLetters :: "int \<Rightarrow> 's \<Rightarrow> OutboxMessage list"
  os_CountPending :: "'s \<Rightarrow> int"
  os_CountRetryable :: "time \<Rightarrow> 's \<Rightarrow> int"
  os_CountDeadLetters :: "'s \<Rightarrow> int"
  os_PurgeDeadLetters :: "time \<Rightarrow> duration \<Rightarrow> 's \<Rightarrow> int \<times> 's"

record 's InboxStore =
  is_TryAccept :: "time \<Rightarrow> uint64 \<Rightarrow> 's \<Rightarrow> bool \<times> 's"
  is_Ack :: "uint64 \<Rightarrow> 's \<Rightarrow> bool \<times> 's"
  is_IsProcessed :: "uint64 \<Rightarrow> 's \<Rightarrow> bool"
  is_Release :: "uint64 \<Rightarrow> 's \<Rightarrow> 's"
  is_Cleanup :: "time \<Rightarrow> duration \<Rightarrow> 's \<Rightarrow> 's"

section \<open>The outbox adapter\<close>

definition cloneOutboxMessages :: "OutboxMessage list \<Rightarrow> OutboxMessage list" where
  "cloneOutboxMessages msgs = map cloneOutboxMessage msgs"

definition lo_Enqueue :: "'s OutboxStore \<Rightarrow> time \<Rightarrow> go_context \<Rightarrow> OutboxMessage \<Rightarrow> 's \<Rightarrow> consistency_error option \<times> 's" where
  "lo_Enqueue S now ctx msg s =
     (case validateConsistencyRequest ctx (RequestID msg) of
        Some err \<Rightarrow> (Some err, s)
      | None \<Rightarrow> (None, os_Add S now (cloneOutboxMessage msg) s))"

definition lo_Get :: "'s OutboxStore \<Rightarrow> go_context \<Rightarrow> uint64 \<Rightarrow> 's \<Rightarrow> consistency_error + OutboxMessage" where
  "lo_Get S ctx rid s =
     (case validateConsistencyRequest ctx rid of
        Some err \<Rightarrow> Inl err
      | None \<Rightarrow> Inl ErrUnsupportedConsistencyStore)"

definition lo_MarkTransported :: "'s OutboxStore \<Rightarrow> go_context \<Rightarrow> uint64 \<Rightarrow> 's \<Rightarrow> consistency_error option \<times> 's" where
  "lo_MarkTransported S ctx rid s = (validateConsistencyRequest ctx rid, s)"

definition lo_MarkApplied :: "'s OutboxStore \<Rightarrow> go_context \<Rightarrow> uint64 \<Rightarrow> 's \<Rightarrow> consistency_error option \<times> 's" where
  "lo_MarkApplied S ctx rid s = (validateConsistencyRequest ctx rid, s)"

definition lo_RecordAttempt ::
    "'s OutboxStore \<Rightarrow> time \<Rightarrow> go_context \<Rightarrow> uint64 \<Rightarrow> string option \<Rightarrow> 's \<Rightarrow> consistency_error option \<times> 's" where
  "lo_RecordAttempt S now ctx rid cause s =
     (case validateConsistencyRequest ctx rid of
        Some err \<Rightarrow> (Some err, s)
      | None \<Rightarrow> (None, os_MarkAttempt S now rid cause s))"

definition lo_MoveToDeadLetter ::
    "'s OutboxStore \<Rightarrow> time \<Rightarrow> go_context \<Rightarrow> uint64 \<Rightarrow> string \<Rightarrow> 's \<Rightarrow> consistency_error option \<times> 's" where
  "lo_MoveToDeadLetter S now ctx rid reason s =
     (case validateConsistencyRequest ctx rid of
        Some err \<Rightarrow> (Some err, s)
      | None \<Rightarrow> (None, os_MarkDeadLetter S now rid reason s))"

definition lo_Complete ::
    "'s OutboxStore \<Rightarrow> go_context \<Rightarrow> uint64 \<Rightarrow> OutboxState \<Rightarrow> 's \<Rightarrow> consistency_error option \<times> 's" where
  "lo_Complete S ctx rid terminal s =
     (case validateConsistencyRequest ctx rid of
        Some err \<Rightarrow> (Some err, s)
      | None \<Rightarrow>
          (case terminal of
             OutboxStateTransported \<Rightarrow> (None, os_MarkSent S rid s)
           | OutboxStateApplied \<Rightarrow> (None, os_MarkAcked S rid s)
           | _ \<Rightarrow> (Some (transitionError rid OutboxStateUnknown terminal), s)))"

definition checked_read :: "go_context \<Rightarrow> 'a \<Rightarrow> consistency_error + 'a" where
  "checked_read ctx v = (case checkConsistencyContext ctx of Some err \<Rightarrow> Inl err | None \<Rightarrow> Inr v)"

definition lo_ListUnresolved :: "'s OutboxStore \<Rightarrow> go_context \<Rightarrow> int \<Rightarrow> 's \<Rightarrow> consistency_error + OutboxMessage list" where
  "lo_ListUnresolved S ctx limit s = checked_read ctx (cloneOutboxMessages (os_ListPending S limit s))"

definition lo_ListRetryableContext ::
    "'s OutboxStore \<Rightarrow> go_context \<Rightarrow> time \<Rightarrow> int \<Rightarrow> 's \<Rightarrow> consistency_error + OutboxMessage list" where
  "lo_ListRetryableContext S ctx now limit s = checked_read ctx (cloneOutboxMessages (os_ListRetryable S now limit s))"

definition lo_ListDeadLettersContext :: "'s OutboxStore \<Rightarrow> go_context \<Rightarrow> int \<Rightarrow> 's \<Rightarrow> consistency_error + OutboxMessage list" where
  "lo_ListDeadLettersContext S ctx limit s = checked_read ctx (cloneOutboxMessages (os_ListDeadLetters S limit s))"

definition lo_CountUnresolved :: "'s OutboxStore \<Rightarrow> go_context \<Rightarrow> 's \<Rightarrow> consistency_error + int" where
  "lo_CountUnresolved S ctx s = checked_read ctx (os_CountPending S s)"

text \<open>The time argument is ignored: the store reads the clock itself (\<open>clock\<close>).\<close>

definition lo_CountRetryableContext :: "'s OutboxStore \<Rightarrow> time \<Rightarrow> go_context \<Rightarrow> time \<Rightarrow> 's \<Rightarrow> consistency_error + int" where
  "lo_CountRetryableContext S clock ctx now s = checked_read ctx (os_CountRetryable S clock s)"

definition lo_CountDeadLettersContext :: "'s OutboxStore \<Rightarrow> go_context \<Rightarrow> 's \<Rightarrow> consistency_error + int" where
  "lo_CountDeadLettersContext S ctx s = checked_read ctx (os_CountDeadLetters S s)"

definition lo_PurgeDeadLettersContext ::
    "'s OutboxStore \<Rightarrow> time \<Rightarrow> go_context \<Rightarrow> duration \<Rightarrow> 's \<Rightarrow> (consistency_error + int) \<times> 's" where
  "lo_PurgeDeadLettersContext S now ctx olderThan s =
     (case checkConsistencyContext ctx of
        Some err \<Rightarrow> (Inl err, s)
      | None \<Rightarrow> (case os_PurgeDeadLetters S now olderThan s of (n, s') \<Rightarrow> (Inr n, s')))"

section \<open>The inbox adapter\<close>

definition li_Acquire ::
    "'s InboxStore \<Rightarrow> time \<Rightarrow> go_context \<Rightarrow> uint64 \<Rightarrow> 's \<Rightarrow> (consistency_error + InboxAcceptResult) \<times> 's" where
  "li_Acquire S now ctx rid s =
     (case validateConsistencyRequest ctx rid of
        Some err \<Rightarrow> (Inl err, s)
      | None \<Rightarrow>
          (case is_TryAccept S now rid s of
             (True, s') \<Rightarrow> (Inr InboxAccepted, s')
           | (False, s') \<Rightarrow> (Inr (if is_IsProcessed S rid s' then InboxProcessed else InboxInProgress), s')))"

definition li_Status :: "'s InboxStore \<Rightarrow> go_context \<Rightarrow> uint64 \<Rightarrow> 's \<Rightarrow> consistency_error + InboxState" where
  "li_Status S ctx rid s =
     (case validateConsistencyRequest ctx rid of
        Some err \<Rightarrow> Inl err
      | None \<Rightarrow> (if \<not> is_IsProcessed S rid s then Inl ErrConsistencyEntryNotFound else Inr InboxStateProcessed))"

definition li_MarkProcessed :: "'s InboxStore \<Rightarrow> go_context \<Rightarrow> uint64 \<Rightarrow> 's \<Rightarrow> consistency_error option \<times> 's" where
  "li_MarkProcessed S ctx rid s =
     (case validateConsistencyRequest ctx rid of
        Some err \<Rightarrow> (Some err, s)
      | None \<Rightarrow> (case is_Ack S rid s of (ok, s') \<Rightarrow> (if \<not> ok then Some ErrConsistencyEntryNotFound else None, s')))"

definition li_Abandon :: "'s InboxStore \<Rightarrow> go_context \<Rightarrow> uint64 \<Rightarrow> 's \<Rightarrow> consistency_error option \<times> 's" where
  "li_Abandon S ctx rid s =
     (case validateConsistencyRequest ctx rid of
        Some err \<Rightarrow> (Some err, s)
      | None \<Rightarrow> (None, is_Release S rid s))"

definition li_CleanupContext :: "'s InboxStore \<Rightarrow> time \<Rightarrow> go_context \<Rightarrow> duration \<Rightarrow> 's \<Rightarrow> (consistency_error + int) \<times> 's" where
  "li_CleanupContext S now ctx olderThan s =
     (case checkConsistencyContext ctx of
        Some err \<Rightarrow> (Inl err, s)
      | None \<Rightarrow> (Inr 0, is_Cleanup S now olderThan s))"

section \<open>The in-memory stores behind the original interfaces\<close>

definition memory_inbox_store :: "'m entry_map \<Rightarrow> 'm MemoryInbox InboxStore" where
  "memory_inbox_store T = \<lparr>is_TryAccept = TryAccept T, is_Ack = Ack T, is_IsProcessed = IsProcessed T,
     is_Release = Release T, is_Cleanup = inbox_Cleanup T\<rparr>"

definition memory_outbox_store :: "'m message_map \<Rightarrow> 'm MemoryOutbox OutboxStore" where
  "memory_outbox_store T = \<lparr>os_Add = Add T, os_MarkSent = MarkSent T, os_MarkAcked = MarkAcked T,
     os_MarkAttempt = (\<lambda>now. MarkAttempt T now now), os_MarkDeadLetter = MarkDeadLetter T,
     os_ListPending = ListPending T, os_ListRetryable = ListRetryable T, os_ListDeadLetters = ListDeadLetters T,
     os_CountPending = CountPending T, os_CountRetryable = CountRetryable T, os_CountDeadLetters = CountDeadLetters T,
     os_PurgeDeadLetters = PurgeDeadLetters T\<rparr>"

definition blur :: "consistency_error + InboxAcceptResult \<Rightarrow> consistency_error + InboxAcceptResult" where
  "blur r = (if r = Inr InboxInProgress then Inr InboxProcessed else r)"

text \<open>
  The adapter over an inbox of the original interface is as safe as the checked inbox: over
  the in-memory inbox's own original operations its \<open>Acquire\<close> leaves the same inbox as the checked
  \<open>Acquire\<close> and gives the same answer, except that a request in progress is reported as
  processed, as documented; it never grants a request that the checked inbox would not grant.
\<close>

theorem legacy_acquire_agrees:
  "li_Acquire (memory_inbox_store T) now ctx rid m =
     (blur (fst (inbox_Acquire T now ctx rid m)), snd (inbox_Acquire T now ctx rid m))"
  by (auto simp: li_Acquire_def memory_inbox_store_def inbox_Acquire_def TryAccept_def tm_load_or_store_def
      IsProcessed_def blur_def validateConsistencyRequest_def Let_def split: option.splits if_splits)

text \<open>The adapter's purge and the checked purge remove the same messages.\<close>

lemma is_dead_iff: "is_dead msg \<longleftrightarrow> DeadLetter msg"
  by (simp add: is_dead_def outboxState_def)

lemma purge_fold:
  "fold (\<lambda>(rid, msg) (removed, ob).
             if \<not> DeadLetter msg then (removed, ob)
             else if purge_age_ok olderThan now msg then (removed + 1, drop_message T rid ob)
             else (removed, ob)) xs (k :: int, ob) =
     (k + int (length (filter (\<lambda>(rid, msg). is_dead msg \<and> purge_age_ok olderThan now msg) xs)),
      fold (drop_message T) (map fst (filter (\<lambda>(rid, msg). is_dead msg \<and> purge_age_ok olderThan now msg) xs)) ob)"
proof (induction xs arbitrary: k ob)
  case (Cons x xs)
  obtain rid msg where "x = (rid, msg)"
    by (cases x)
  then show ?case
    by (cases "DeadLetter msg"; cases "purge_age_ok olderThan now msg") (simp_all add: Cons is_dead_iff)
qed simp

lemma legacy_purge_agrees:
  "lo_PurgeDeadLettersContext (memory_outbox_store T) now ctx olderThan ob = PurgeDeadLettersContext T now ctx olderThan ob"
  by (simp add: lo_PurgeDeadLettersContext_def PurgeDeadLettersContext_def memory_outbox_store_def PurgeDeadLetters_def
      purge_fold Let_def split: option.split)

end
