(* ===== verification/Transaction.thy ===== *)
theory Transaction
  imports Prelude
begin

text \<open>
  The in-process two-phase coordinator, \<^verbatim>\<open>zConsistency/transaction.go\<close>. The coordinator calls the
  vote, prepare, commit and rollback callbacks outside the transaction's lock, so other callers
  may vote, abort or clean up in between. Each critical section is one definition; a transaction
  under concurrent use is a sequence of these sections and of callback calls, in any interleaving.
  The answers of the callbacks and of the context are arguments of the steps.
\<close>

section \<open>Data\<close>

datatype TransactionState =
    TransactionStatePending
  | TransactionStateVoting
  | TransactionStatePrepared
  | TransactionStateCommitted
  | TransactionStateAborted
  | TransactionStateInconsistent
  | TransactionStateCommitting

datatype VoteResult = VoteCommit | VoteAbort

record ParticipantVote =
  pv_Participant :: string
  Vote_of :: VoteResult
  Reason :: string
  pv_Timestamp :: time

record 'd Transaction =
  tx_ID :: uint64
  tx_State :: TransactionState
  Participants :: "string list"
  Votes :: "string \<rightharpoonup> ParticipantVote"
  Prepared :: "string \<rightharpoonup> bool"
  tx_CreatedAt :: time
  Timeout :: duration
  tx_Data :: 'd
  Coordinator :: string

datatype tx_error =
    ErrTransactionNotFound
  | ErrTransactionAborted
  | ErrTransactionTimeout
  | ErrVoteRejected string
  | TxContextErr
  | CannotVoteIn TransactionState
  | NotPendingState TransactionState
  | WrongState TransactionState TransactionState
  | VoteRequestFailed string
  | PrepareFunctionNil
  | PrepareFailed string
  | LeftVotingState string TransactionState
  | CannotFinishPrepare TransactionState
  | NotPreparedState TransactionState
  | CommitErrors "string list"

section \<open>The critical sections\<close>

definition new_transaction :: "uint64 \<Rightarrow> string \<Rightarrow> string list \<Rightarrow> duration \<Rightarrow> 'd \<Rightarrow> time \<Rightarrow> 'd Transaction" where
  "new_transaction txID coord participants timeout dat now =
     \<lparr>tx_ID = txID, tx_State = TransactionStatePending, Participants = participants, Votes = Map.empty,
      Prepared = Map.empty, tx_CreatedAt = now, Timeout = timeout, tx_Data = dat, Coordinator = coord\<rparr>"

definition preparedParticipantsLocked :: "'d Transaction \<Rightarrow> string list" where
  "preparedParticipantsLocked tx = filter (\<lambda>p. Prepared tx p = Some True) (Participants tx)"

definition vote_section ::
    "time \<Rightarrow> string \<Rightarrow> VoteResult \<Rightarrow> string \<Rightarrow> 'd Transaction \<Rightarrow> tx_error + string list \<times> 'd Transaction" where
  "vote_section now participant vote reason tx =
     (if tx_State tx \<noteq> TransactionStatePending \<and> tx_State tx \<noteq> TransactionStateVoting \<and> tx_State tx \<noteq> TransactionStatePrepared
      then Inl (CannotVoteIn (tx_State tx))
      else
        (let tx = tx\<lparr>Votes := (Votes tx)(participant \<mapsto>
               \<lparr>pv_Participant = participant, Vote_of = vote, Reason = reason, pv_Timestamp = now\<rparr>)\<rparr>
         in if vote = VoteAbort
            then (let tx = tx\<lparr>tx_State := TransactionStateAborted\<rparr> in Inr (preparedParticipantsLocked tx, tx))
            else Inr ([], tx)))"

definition transactionMustBe :: "TransactionState \<Rightarrow> 'd Transaction \<Rightarrow> tx_error option" where
  "transactionMustBe required tx =
     (if tx_State tx = required then None
      else if tx_State tx = TransactionStateAborted then Some ErrTransactionAborted
      else Some (WrongState (tx_State tx) required))"

text \<open>The prepared participants to roll back, or \<open>None\<close> when the state does not allow the abort.\<close>

definition transitionToAborted :: "'d Transaction \<Rightarrow> string list option \<times> 'd Transaction" where
  "transitionToAborted tx =
     (if tx_State tx \<in> {TransactionStatePending, TransactionStateVoting, TransactionStatePrepared}
      then (let tx = tx\<lparr>tx_State := TransactionStateAborted\<rparr> in (Some (preparedParticipantsLocked tx), tx))
      else (None, tx))"

definition prepare_begin :: "'d Transaction \<Rightarrow> tx_error option \<times> 'd Transaction" where
  "prepare_begin tx =
     (if tx_State tx \<noteq> TransactionStatePending then (Some (NotPendingState (tx_State tx)), tx)
      else (None, tx\<lparr>tx_State := TransactionStateVoting\<rparr>))"

definition mark_prepared :: "string \<Rightarrow> 'd Transaction \<Rightarrow> tx_error option \<times> 'd Transaction" where
  "mark_prepared participant tx =
     (if tx_State tx \<noteq> TransactionStateVoting then (Some (LeftVotingState participant (tx_State tx)), tx)
      else (None, tx\<lparr>Prepared := (Prepared tx)(participant \<mapsto> True)\<rparr>))"

definition prepare_finish :: "'d Transaction \<Rightarrow> tx_error option \<times> 'd Transaction" where
  "prepare_finish tx =
     (if tx_State tx \<noteq> TransactionStateVoting then (Some (CannotFinishPrepare (tx_State tx)), tx)
      else (None, tx\<lparr>tx_State := TransactionStatePrepared\<rparr>))"

definition commit_begin :: "'d Transaction \<Rightarrow> tx_error option \<times> 'd Transaction" where
  "commit_begin tx =
     (if tx_State tx \<noteq> TransactionStatePrepared then (Some (NotPreparedState (tx_State tx)), tx)
      else (None, tx\<lparr>tx_State := TransactionStateCommitting\<rparr>))"

definition commit_finish :: "string list \<Rightarrow> 'd Transaction \<Rightarrow> tx_error option \<times> 'd Transaction" where
  "commit_finish commitErrors tx =
     (if length commitErrors > 0
      then (Some (CommitErrors commitErrors), tx\<lparr>tx_State := TransactionStateInconsistent\<rparr>)
      else (None, tx\<lparr>tx_State := TransactionStateCommitted\<rparr>))"

text \<open>The visitor of \<^verbatim>\<open>Cleanup\<close>: the transaction after it, and whether it is to be deleted.\<close>

definition cleanup_section :: "time \<Rightarrow> duration \<Rightarrow> 'd Transaction \<Rightarrow> bool \<times> 'd Transaction" where
  "cleanup_section now maxAge tx =
     (let age = time_Sub now (tx_CreatedAt tx);
          timedOut = (tx_State tx = TransactionStatePending \<and> age > Timeout tx);
          tx = (if timedOut then tx\<lparr>tx_State := TransactionStateAborted\<rparr> else tx)
      in ((tx_State tx = TransactionStateCommitted \<or> tx_State tx = TransactionStateAborted) \<and>
          (age > maxAge \<or> timedOut), tx))"

section \<open>The coordinator's map\<close>

record 'm coordinator =
  transactions :: 'm
  nextID :: uint64

type_synonym ('m, 'd) tx_map = "('m, uint64, 'd Transaction) tmap"

definition NewInMemoryTransactionCoordinator :: "('m, 'd) tx_map \<Rightarrow> 'm coordinator" where
  "NewInMemoryTransactionCoordinator T = \<lparr>transactions = tm_new T, nextID = 0\<rparr>"

definition Begin ::
    "('m, 'd) tx_map \<Rightarrow> time \<Rightarrow> string \<Rightarrow> string list \<Rightarrow> duration \<Rightarrow> 'd \<Rightarrow> 'm coordinator \<Rightarrow> 'd Transaction \<times> 'm coordinator" where
  "Begin T now coord participants timeout dat tm =
     (let txID = nextID tm + 1;
          tx = new_transaction txID coord participants timeout dat now
      in (tx, tm\<lparr>nextID := txID, transactions := tm_store T (transactions tm) txID tx\<rparr>))"

definition GetTransactionState :: "('m, 'd) tx_map \<Rightarrow> uint64 \<Rightarrow> 'm coordinator \<Rightarrow> TransactionState \<times> bool" where
  "GetTransactionState T txID tm =
     (case tm_load T (transactions tm) txID of
        None \<Rightarrow> (TransactionStatePending, False)
      | Some tx \<Rightarrow> (tx_State tx, True))"

definition tx_Cleanup :: "('m, 'd) tx_map \<Rightarrow> time \<Rightarrow> duration \<Rightarrow> 'm coordinator \<Rightarrow> 'm coordinator" where
  "tx_Cleanup T now maxAge tm =
     (let visit = (\<lambda>(k, tx) (ts, toDelete).
            case cleanup_section now maxAge tx of (del, tx') \<Rightarrow>
              (tm_store T ts k tx', if del then toDelete @ [k] else toDelete));
          (ts, toDelete) = fold visit (tm_range T (transactions tm)) (transactions tm, [])
      in tm\<lparr>transactions := fold (\<lambda>k ts. tm_delete T ts k) toDelete ts\<rparr>)"

definition ActiveCount :: "('m, 'd) tx_map \<Rightarrow> 'm coordinator \<Rightarrow> int" where
  "ActiveCount T tm =
     fold (\<lambda>(k, tx) n. if tx_State tx \<in> {TransactionStatePending, TransactionStateVoting, TransactionStatePrepared,
               TransactionStateCommitting} then n + 1 else n)
       (tm_range T (transactions tm)) 0"

definition TotalCount :: "('m, 'd) tx_map \<Rightarrow> 'm coordinator \<Rightarrow> int" where
  "TotalCount T tm = tm_len T (transactions tm)"

section \<open>The threads that work on a transaction\<close>

text \<open>
  Where the one call of \<^verbatim>\<open>Prepare\<close> that found the transaction pending stands (every other call
  returns an error and changes nothing), and the same for \<^verbatim>\<open>Commit\<close>. \<open>PAborting\<close> is about to
  call \<^verbatim>\<open>Abort\<close> and to return the error.
\<close>

datatype prep_pc =
    PStart
  | PVote "string list"
  | PVoteCall string "string list"
  | PPrepare "string list"
  | PPrepareCall string "string list"
  | PPrepareMark string "string list"
  | PFinish
  | PAborting tx_error
  | PReturned "tx_error option"

datatype commit_pc =
    CStart
  | CCommit "string list" nat "string list"
  | CFinish "string list"
  | CReturned "tx_error option"

datatype tx_event = EvPrepare string bool | EvCommit string bool | EvRollback string

text \<open>
  A transaction with its threads. \<open>rolling\<close> holds the rollback calls that aborting callers still
  have to make; \<open>tx_log\<close> the callback calls made so far. The three flags say which callbacks
  are set; \<^verbatim>\<open>maxCommitAttempts\<close> is 3.
\<close>

record 'd tx_config =
  the_tx :: "'d Transaction"
  prep :: prep_pc
  com :: commit_pc
  rolling :: "string list"
  tx_log :: "tx_event list"

record callbacks =
  has_vote :: bool
  has_prepare :: bool
  has_commit :: bool
  has_rollback :: bool

definition maxCommitAttempts :: nat where "maxCommitAttempts = 3"

text \<open>
  \<^verbatim>\<open>rollbackParticipants\<close>: nothing to do without participants, an error line without a rollback
  function, otherwise one call per participant, still to be made.
\<close>

definition rollbackParticipants :: "callbacks \<Rightarrow> string list \<Rightarrow> 'd tx_config \<Rightarrow> 'd tx_config" where
  "rollbackParticipants F participants c =
     (if length participants = 0 then c
      else if \<not> has_rollback F then c
      else c\<lparr>rolling := rolling c @ participants\<rparr>)"

definition Abort :: "callbacks \<Rightarrow> 'd tx_config \<Rightarrow> 'd tx_config" where
  "Abort F c =
     (case transitionToAborted (the_tx c) of
        (None, tx) \<Rightarrow> c
      | (Some prepared, tx) \<Rightarrow> rollbackParticipants F prepared (c\<lparr>the_tx := tx\<rparr>))"

definition Vote ::
    "callbacks \<Rightarrow> time \<Rightarrow> bool \<Rightarrow> string \<Rightarrow> VoteResult \<Rightarrow> string \<Rightarrow> 'd tx_config \<Rightarrow> tx_error option \<times> 'd tx_config" where
  "Vote F now ctxDone participant vote reason c =
     (if ctxDone then (Some TxContextErr, c)
      else
        (case vote_section now participant vote reason (the_tx c) of
           Inl err \<Rightarrow> (Some err, c)
         | Inr (prepared, tx) \<Rightarrow>
             (let c = c\<lparr>the_tx := tx\<rparr> in
              (None, if vote = VoteAbort then rollbackParticipants F prepared c else c))))"

definition after_votes :: "callbacks \<Rightarrow> 'd Transaction \<Rightarrow> prep_pc" where
  "after_votes F tx = (if \<not> has_prepare F then PAborting PrepareFunctionNil else PPrepare (Participants tx))"

text \<open>
  The next piece of \<^verbatim>\<open>Prepare\<close>. \<open>ctxDone\<close>: whether the context is done at this point; \<open>answer\<close>:
  the vote callback's answer (\<open>None\<close> an error); \<open>ok\<close>: whether the prepare callback succeeds.
\<close>

definition prepare_step ::
    "callbacks \<Rightarrow> time \<Rightarrow> bool \<Rightarrow> VoteResult option \<Rightarrow> bool \<Rightarrow> 'd tx_config \<Rightarrow> 'd tx_config" where
  "prepare_step F now ctxDone answer ok c =
     (case prep c of
        PStart \<Rightarrow>
          (case prepare_begin (the_tx c) of
             (Some err, tx) \<Rightarrow> c\<lparr>prep := PReturned (Some err)\<rparr>
           | (None, tx) \<Rightarrow>
               c\<lparr>the_tx := tx, prep := (if has_vote F then PVote (Participants tx) else after_votes F tx)\<rparr>)
      | PVote [] \<Rightarrow> c\<lparr>prep := after_votes F (the_tx c)\<rparr>
      | PVote (p # ps) \<Rightarrow>
          (if ctxDone then c\<lparr>prep := PAborting ErrTransactionTimeout\<rparr>
           else
             (case transactionMustBe TransactionStateVoting (the_tx c) of
                Some err \<Rightarrow> c\<lparr>prep := PReturned (Some err)\<rparr>
              | None \<Rightarrow> c\<lparr>prep := PVoteCall p ps\<rparr>))
      | PVoteCall p ps \<Rightarrow>
          (case answer of
             None \<Rightarrow> c\<lparr>prep := PAborting (VoteRequestFailed p)\<rparr>
           | Some vote \<Rightarrow>
               (case Vote F now ctxDone p vote ''vote callback'' c of
                  (Some err, c') \<Rightarrow> c'\<lparr>prep := PAborting err\<rparr>
                | (None, c') \<Rightarrow>
                    (if vote = VoteAbort then c'\<lparr>prep := PReturned (Some (ErrVoteRejected p))\<rparr>
                     else c'\<lparr>prep := PVote ps\<rparr>)))
      | PPrepare [] \<Rightarrow> c\<lparr>prep := PFinish\<rparr>
      | PPrepare (p # ps) \<Rightarrow>
          (if ctxDone then c\<lparr>prep := PAborting ErrTransactionTimeout\<rparr>
           else
             (case transactionMustBe TransactionStateVoting (the_tx c) of
                Some err \<Rightarrow> c\<lparr>prep := PReturned (Some err)\<rparr>
              | None \<Rightarrow> c\<lparr>prep := PPrepareCall p ps\<rparr>))
      | PPrepareCall p ps \<Rightarrow>
          c\<lparr>tx_log := tx_log c @ [EvPrepare p ok],
            prep := (if ok then PPrepareMark p ps else PAborting (PrepareFailed p))\<rparr>
      | PPrepareMark p ps \<Rightarrow>
          (case mark_prepared p (the_tx c) of
             (Some err, tx) \<Rightarrow> (rollbackParticipants F [p] c)\<lparr>prep := PReturned (Some err)\<rparr>
           | (None, tx) \<Rightarrow>
               c\<lparr>the_tx := tx, prep := (if ctxDone then PAborting ErrTransactionTimeout else PPrepare ps)\<rparr>)
      | PFinish \<Rightarrow>
          (if ctxDone then c\<lparr>prep := PAborting ErrTransactionTimeout\<rparr>
           else
             (case prepare_finish (the_tx c) of
                (Some err, tx) \<Rightarrow> c\<lparr>prep := PReturned (Some err)\<rparr>
              | (None, tx) \<Rightarrow> c\<lparr>the_tx := tx, prep := PReturned None\<rparr>))
      | PAborting err \<Rightarrow> (Abort F c)\<lparr>prep := PReturned (Some err)\<rparr>
      | PReturned r \<Rightarrow> c)"

text \<open>The next piece of \<^verbatim>\<open>Commit\<close>; \<open>ok\<close> is the commit callback's answer.\<close>

definition commit_step :: "callbacks \<Rightarrow> bool \<Rightarrow> 'd tx_config \<Rightarrow> 'd tx_config" where
  "commit_step F ok c =
     (case com c of
        CStart \<Rightarrow>
          (case commit_begin (the_tx c) of
             (Some err, tx) \<Rightarrow> c\<lparr>com := CReturned (Some err)\<rparr>
           | (None, tx) \<Rightarrow> c\<lparr>the_tx := tx, com := CCommit (Participants tx) 0 []\<rparr>)
      | CCommit [] n errs \<Rightarrow> c\<lparr>com := CFinish errs\<rparr>
      | CCommit (p # ps) n errs \<Rightarrow>
          (if n < maxCommitAttempts
           then
             (if \<not> has_commit F then c\<lparr>com := CCommit (p # ps) (n + 1) errs\<rparr>
              else
                c\<lparr>tx_log := tx_log c @ [EvCommit p ok],
                  com := (if ok then CCommit ps 0 errs else CCommit (p # ps) (n + 1) errs)\<rparr>)
           else c\<lparr>com := CCommit ps 0 (errs @ [p])\<rparr>)
      | CFinish errs \<Rightarrow>
          (case commit_finish errs (the_tx c) of (r, tx) \<Rightarrow> c\<lparr>the_tx := tx, com := CReturned r\<rparr>)
      | CReturned r \<Rightarrow> c)"

text \<open>One of the outstanding rollback calls; its error is only logged.\<close>

definition rollback_step :: "'d tx_config \<Rightarrow> 'd tx_config" where
  "rollback_step c =
     (case rolling c of
        [] \<Rightarrow> c
      | p # ps \<Rightarrow> c\<lparr>rolling := ps, tx_log := tx_log c @ [EvRollback p]\<rparr>)"

definition tx_start :: "'d Transaction \<Rightarrow> 'd tx_config" where
  "tx_start tx = \<lparr>the_tx = tx, prep = PStart, com = CStart, rolling = [], tx_log = []\<rparr>"

text \<open>
  Any interleaving of the two phases with votes, aborts and clean-ups of other callers. A second
  call of \<^verbatim>\<open>Prepare\<close> or \<^verbatim>\<open>Commit\<close>, and one that comes too early, returns an error; the thread
  that succeeds is the one followed, so \<open>prep\<close> and \<open>com\<close> may be tried again after such an error.
\<close>

inductive tx_reach :: "callbacks \<Rightarrow> 'd Transaction \<Rightarrow> 'd tx_config \<Rightarrow> bool" for F tx0 where
  start: "tx_reach F tx0 (tx_start tx0)"
| prepare: "tx_reach F tx0 c \<Longrightarrow> tx_reach F tx0 (prepare_step F now ctxDone answer ok c)"
| commit: "tx_reach F tx0 c \<Longrightarrow> tx_reach F tx0 (commit_step F ok c)"
| commit_again: "tx_reach F tx0 c \<Longrightarrow> com c = CReturned (Some (NotPreparedState s)) \<Longrightarrow> tx_reach F tx0 (c\<lparr>com := CStart\<rparr>)"
| vote: "tx_reach F tx0 c \<Longrightarrow> tx_reach F tx0 (snd (Vote F now ctxDone p v reason c))"
| abort: "tx_reach F tx0 c \<Longrightarrow> tx_reach F tx0 (Abort F c)"
| rollback: "tx_reach F tx0 c \<Longrightarrow> tx_reach F tx0 (rollback_step c)"
| cleanup: "tx_reach F tx0 c \<Longrightarrow> tx_reach F tx0 (c\<lparr>the_tx := snd (cleanup_section now maxAge (the_tx c))\<rparr>)"

section \<open>The invariant\<close>

definition marked :: "'d Transaction \<Rightarrow> string set" where
  "marked tx = {p. Prepared tx p = Some True}"

definition open_states :: "TransactionState set" where
  "open_states = {TransactionStatePending, TransactionStateVoting, TransactionStatePrepared}"

definition commit_states :: "TransactionState set" where
  "commit_states = {TransactionStateCommitting, TransactionStateCommitted, TransactionStateInconsistent}"

lemmas state_sets = open_states_def commit_states_def

text \<open>Where the prepare thread stands against the state and the marks.\<close>

fun prep_ok :: "prep_pc \<Rightarrow> 'd Transaction \<Rightarrow> bool" where
  "prep_ok PStart tx \<longleftrightarrow> tx_State tx \<in> {TransactionStatePending, TransactionStateAborted} \<and> marked tx = {}"
| "prep_ok (PVote _) tx \<longleftrightarrow> tx_State tx \<in> {TransactionStateVoting, TransactionStateAborted} \<and> marked tx = {}"
| "prep_ok (PVoteCall _ _) tx \<longleftrightarrow> tx_State tx \<in> {TransactionStateVoting, TransactionStateAborted} \<and> marked tx = {}"
| "prep_ok (PPrepare ps) tx \<longleftrightarrow> tx_State tx \<in> {TransactionStateVoting, TransactionStateAborted} \<and>
     (\<exists>ds. Participants tx = ds @ ps \<and> marked tx = set ds)"
| "prep_ok (PPrepareCall p ps) tx \<longleftrightarrow> tx_State tx \<in> {TransactionStateVoting, TransactionStateAborted} \<and>
     (\<exists>ds. Participants tx = ds @ p # ps \<and> marked tx = set ds)"
| "prep_ok (PPrepareMark p ps) tx \<longleftrightarrow> tx_State tx \<in> {TransactionStateVoting, TransactionStateAborted} \<and>
     (\<exists>ds. Participants tx = ds @ p # ps \<and> marked tx = set ds)"
| "prep_ok PFinish tx \<longleftrightarrow> tx_State tx \<in> {TransactionStateVoting, TransactionStateAborted} \<and> marked tx = set (Participants tx)"
| "prep_ok (PAborting e) tx \<longleftrightarrow> tx_State tx \<in> {TransactionStateVoting, TransactionStateAborted} \<and>
     marked tx \<subseteq> set (Participants tx)"
| "prep_ok (PReturned None) tx \<longleftrightarrow> tx_State tx \<notin> {TransactionStatePending, TransactionStateVoting} \<and>
     marked tx = set (Participants tx)"
| "prep_ok (PReturned (Some e)) tx \<longleftrightarrow> tx_State tx = TransactionStateAborted \<and> marked tx \<subseteq> set (Participants tx)"

fun com_ok :: "commit_pc \<Rightarrow> 'd Transaction \<Rightarrow> tx_event list \<Rightarrow> bool" where
  "com_ok CStart tx l \<longleftrightarrow> tx_State tx \<notin> commit_states \<and> (\<forall>p b. EvCommit p b \<notin> set l)"
| "com_ok (CCommit ps n errs) tx l \<longleftrightarrow> tx_State tx = TransactionStateCommitting \<and>
     (\<exists>ds. Participants tx = ds @ ps \<and> (\<forall>p \<in> set ds. EvCommit p True \<in> set l \<or> p \<in> set errs))"
| "com_ok (CFinish errs) tx l \<longleftrightarrow> tx_State tx = TransactionStateCommitting \<and>
     (\<forall>p \<in> set (Participants tx). EvCommit p True \<in> set l \<or> p \<in> set errs)"
| "com_ok (CReturned None) tx l \<longleftrightarrow> tx_State tx = TransactionStateCommitted \<and>
     (\<forall>p \<in> set (Participants tx). EvCommit p True \<in> set l)"
| "com_ok (CReturned (Some (CommitErrors es))) tx l \<longleftrightarrow> tx_State tx = TransactionStateInconsistent"
| "com_ok (CReturned (Some (NotPreparedState s))) tx l \<longleftrightarrow> tx_State tx \<notin> commit_states \<and> (\<forall>p b. EvCommit p b \<notin> set l)"
| "com_ok (CReturned (Some e)) tx l \<longleftrightarrow> False"

definition inflight :: "prep_pc \<Rightarrow> string \<Rightarrow> nat" where
  "inflight pc p = (case pc of PPrepareMark q _ \<Rightarrow> if q = p then 1 else 0 | _ \<Rightarrow> 0)"

definition bal_ok :: "callbacks \<Rightarrow> 'd tx_config \<Rightarrow> bool" where
  "bal_ok F c \<longleftrightarrow>
     (tx_State (the_tx c) \<noteq> TransactionStateAborted \<longrightarrow>
        rolling c = [] \<and> (\<forall>p. EvRollback p \<notin> set (tx_log c)) \<and>
        (\<forall>p. count_list (tx_log c) (EvPrepare p True) = (if p \<in> marked (the_tx c) then 1 else 0) + inflight (prep c) p)) \<and>
     (tx_State (the_tx c) = TransactionStateAborted \<and> has_rollback F \<longrightarrow>
        (\<forall>p. count_list (tx_log c) (EvPrepare p True) =
             count_list (tx_log c) (EvRollback p) + count_list (rolling c) p + inflight (prep c) p))"

definition tx_inv :: "callbacks \<Rightarrow> 'd tx_config \<Rightarrow> bool" where
  "tx_inv F c \<longleftrightarrow> distinct (Participants (the_tx c)) \<and> prep_ok (prep c) (the_tx c) \<and>
     com_ok (com c) (the_tx c) (tx_log c) \<and> bal_ok F c"

lemma prep_ok_aborted:
  assumes "prep_ok pc tx" "Participants tx' = Participants tx" "Prepared tx' = Prepared tx"
    and "tx_State tx' = tx_State tx \<or> tx_State tx' = TransactionStateAborted"
  shows "prep_ok pc tx'"
proof -
  have "marked tx' = marked tx"
    using assms(3) by (simp add: marked_def)
  with assms show ?thesis
    by (cases "(pc, tx)" rule: prep_ok.cases) auto
qed

lemma prep_ok_marked: "prep_ok pc tx \<Longrightarrow> marked tx \<subseteq> set (Participants tx)"
  by (cases "(pc, tx)" rule: prep_ok.cases) auto

lemma com_ok_open:
  assumes "com_ok pc tx l" "tx_State tx \<notin> commit_states" "tx_State tx' \<notin> commit_states" "(\<forall>p b. EvCommit p b \<in> set l' \<longrightarrow> EvCommit p b \<in> set l)"
  shows "com_ok pc tx' l'"
  using assms by (cases "(pc, tx, l)" rule: com_ok.cases) (auto simp: commit_states_def)

lemma rollbackParticipants_sel [simp]:
  "the_tx (rollbackParticipants F ps c) = the_tx c" "prep (rollbackParticipants F ps c) = prep c"
  "com (rollbackParticipants F ps c) = com c" "tx_log (rollbackParticipants F ps c) = tx_log c"
  "rolling (rollbackParticipants F ps c) = (if has_rollback F then rolling c @ ps else rolling c)"
  by (simp_all add: rollbackParticipants_def)

lemma count_list_distinct: "distinct xs \<Longrightarrow> count_list xs x = (if x \<in> set xs then 1 else 0)"
  by (induction xs) auto

lemma count_prepared:
  assumes "distinct (Participants tx)" "marked tx \<subseteq> set (Participants tx)"
  shows "count_list (preparedParticipantsLocked tx) p = (if p \<in> marked tx then 1 else 0)"
proof -
  have "distinct (preparedParticipantsLocked tx)" "set (preparedParticipantsLocked tx) = marked tx"
    using assms by (auto simp: preparedParticipantsLocked_def marked_def)
  then show ?thesis
    by (simp add: count_list_distinct)
qed

text \<open>Leaving an open state for the aborted one, with the marked participants to be rolled back.\<close>

lemma tx_inv_abort:
  assumes inv: "tx_inv F c" and st: "tx_State (the_tx c) \<in> open_states"
    and tx: "tx_State tx = TransactionStateAborted" "Participants tx = Participants (the_tx c)" "Prepared tx = Prepared (the_tx c)"
  shows "tx_inv F (rollbackParticipants F (preparedParticipantsLocked tx) (c\<lparr>the_tx := tx\<rparr>))"
proof -
  have parts: "distinct (Participants (the_tx c))" "prep_ok (prep c) (the_tx c)"
    "com_ok (com c) (the_tx c) (tx_log c)" "bal_ok F c"
    using inv unfolding tx_inv_def by blast+
  have marks: "marked tx = marked (the_tx c)"
    using tx(3) by (simp add: marked_def)
  have sub: "marked tx \<subseteq> set (Participants tx)" "distinct (Participants tx)"
    using prep_ok_marked [OF parts(2)] parts(1) unfolding tx(2) marks by blast+
  have prep: "prep_ok (prep c) tx"
    by (rule prep_ok_aborted [OF parts(2) tx(2,3)]) (simp add: tx(1))
  have closed: "tx_State (the_tx c) \<notin> commit_states" "tx_State tx \<notin> commit_states"
    "tx_State (the_tx c) \<noteq> TransactionStateAborted"
    using st tx(1) by (auto simp: state_sets)
  have com: "com_ok (com c) tx (tx_log c)"
    by (rule com_ok_open [OF parts(3) closed(1,2)]) simp
  have "rolling c = []" "EvRollback p \<notin> set (tx_log c)"
    "count_list (tx_log c) (EvPrepare p True) = (if p \<in> marked tx then 1 else 0) + inflight (prep c) p" for p
    using parts(4) closed(3) unfolding bal_ok_def marks by blast+
  then have "bal_ok F (rollbackParticipants F (preparedParticipantsLocked tx) (c\<lparr>the_tx := tx\<rparr>))"
    using count_prepared [OF sub(2,1)] unfolding bal_ok_def by (simp add: tx(1))
  then show ?thesis
    using sub(2) prep com unfolding tx_inv_def by simp
qed

lemma tx_inv_Abort: "tx_inv F c \<Longrightarrow> tx_inv F (Abort F c)"
  using tx_inv_abort [of F c "(the_tx c)\<lparr>tx_State := TransactionStateAborted\<rparr>"]
  by (auto simp: Abort_def transitionToAborted_def open_states_def Let_def)

lemma tx_inv_cong:
  "tx_inv F c \<Longrightarrow> tx_State tx = tx_State (the_tx c) \<Longrightarrow> Participants tx = Participants (the_tx c) \<Longrightarrow>
     Prepared tx = Prepared (the_tx c) \<Longrightarrow> tx_inv F (c\<lparr>the_tx := tx\<rparr>)"
  using prep_ok_aborted [of "prep c" "the_tx c" tx]
  by (cases "(com c, the_tx c, tx_log c)" rule: com_ok.cases) (simp_all add: tx_inv_def bal_ok_def marked_def)

lemma tx_inv_Vote: "tx_inv F c \<Longrightarrow> tx_inv F (snd (Vote F now d p v reason c))"
proof -
  assume inv: "tx_inv F c"
  define tx where "tx = (the_tx c)\<lparr>Votes := (Votes (the_tx c))(p \<mapsto>
      \<lparr>pv_Participant = p, Vote_of = v, Reason = reason, pv_Timestamp = now\<rparr>)\<rparr>"
  have "tx_inv F (c\<lparr>the_tx := tx\<rparr>)"
    using inv by (intro tx_inv_cong) (simp_all add: tx_def)
  moreover have "tx_inv F (rollbackParticipants F (preparedParticipantsLocked (tx\<lparr>tx_State := TransactionStateAborted\<rparr>))
      (c\<lparr>the_tx := tx\<lparr>tx_State := TransactionStateAborted\<rparr>\<rparr>))" if "tx_State (the_tx c) \<in> open_states"
    using tx_inv_abort [OF inv that, of "tx\<lparr>tx_State := TransactionStateAborted\<rparr>"] by (simp add: tx_def)
  ultimately show ?thesis
    using inv by (simp add: Vote_def vote_section_def Let_def tx_def [symmetric] open_states_def)
qed

lemma tx_inv_cleanup: "tx_inv F c \<Longrightarrow> tx_inv F (c\<lparr>the_tx := snd (cleanup_section now maxAge (the_tx c))\<rparr>)"
proof -
  assume inv: "tx_inv F c"
  let ?tx = "(the_tx c)\<lparr>tx_State := TransactionStateAborted\<rparr>"
  have "tx_inv F (c\<lparr>the_tx := ?tx\<rparr>)" if "tx_State (the_tx c) = TransactionStatePending"
  proof -
    have "marked (the_tx c) = {}"
      using inv that by (cases "(prep c, the_tx c)" rule: prep_ok.cases) (auto simp: tx_inv_def)
    then have "preparedParticipantsLocked ?tx = []"
      by (auto simp: preparedParticipantsLocked_def marked_def filter_empty_conv)
    then show ?thesis
      using tx_inv_abort [OF inv, of ?tx] that by (simp add: open_states_def rollbackParticipants_def)
  qed
  then show ?thesis
    using inv by (simp add: cleanup_section_def Let_def)
qed

lemma tx_inv_parts:
  assumes "tx_inv F c"
  shows "distinct (Participants (the_tx c))" "prep_ok (prep c) (the_tx c)"
    "com_ok (com c) (the_tx c) (tx_log c)" "bal_ok F c"
  using assms unfolding tx_inv_def by blast+

lemma tx_inv_pc:
  assumes "tx_inv F c" "prep_ok pc (the_tx c)" "\<And>p. inflight pc p = inflight (prep c) p"
  shows "tx_inv F (c\<lparr>prep := pc\<rparr>)"
  using assms by (simp add: tx_inv_def bal_ok_def)

lemma tx_inv_state:
  assumes inv: "tx_inv F c" and st: "tx_State (the_tx c) \<in> open_states" "tx_State tx \<in> open_states"
    and tx: "Participants tx = Participants (the_tx c)" "Prepared tx = Prepared (the_tx c)"
    and pc: "prep_ok pc tx" "\<And>p. inflight pc p = inflight (prep c) p"
  shows "tx_inv F (c\<lparr>the_tx := tx, prep := pc\<rparr>)"
proof -
  have "com_ok (com c) tx (tx_log c)"
    using st by (intro com_ok_open [OF tx_inv_parts(3) [OF inv]]) (auto simp: state_sets)
  moreover have "tx_State (the_tx c) \<noteq> TransactionStateAborted" "tx_State tx \<noteq> TransactionStateAborted"
    using st by (auto simp: open_states_def)
  moreover have "marked tx = marked (the_tx c)"
    using tx(2) by (simp add: marked_def)
  ultimately show ?thesis
    using tx_inv_parts [OF inv] tx(1) pc by (simp add: tx_inv_def bal_ok_def)
qed

lemma inflight_simps [simp]:
  "inflight PStart p = 0" "inflight (PVote ps) p = 0" "inflight (PVoteCall q ps) p = 0" "inflight (PPrepare ps) p = 0"
  "inflight (PPrepareCall q ps) p = 0" "inflight (PPrepareMark q ps) p = (if q = p then 1 else 0)"
  "inflight PFinish p = 0" "inflight (PAborting e) p = 0" "inflight (PReturned r) p = 0"
  by (simp_all add: inflight_def)

lemma must_be_cases:
  "transactionMustBe TransactionStateVoting tx = None \<longleftrightarrow> tx_State tx = TransactionStateVoting"
  by (simp add: transactionMustBe_def)

lemma after_votes_ok:
  "tx_State tx \<in> {TransactionStateVoting, TransactionStateAborted} \<Longrightarrow> marked tx = {} \<Longrightarrow> prep_ok (after_votes F tx) tx"
  "inflight (after_votes F tx) p = 0"
  by (simp_all add: after_votes_def)

lemma prepare_start_keeps:
  assumes inv: "tx_inv F c" and pc: "prep c = PStart"
  shows "tx_inv F (prepare_step F now d a ok c)"
proof (cases "tx_State (the_tx c) = TransactionStatePending")
  case True
  let ?tx = "(the_tx c)\<lparr>tx_State := TransactionStateVoting\<rparr>"
  have "marked (the_tx c) = {}"
    using tx_inv_parts(2) [OF inv] pc by simp
  then have "marked ?tx = {}"
    by (simp add: marked_def)
  then have "tx_inv F (c\<lparr>the_tx := ?tx, prep := (if has_vote F then PVote (Participants ?tx) else after_votes F ?tx)\<rparr>)"
    using True by (intro tx_inv_state [OF inv]) (simp_all add: open_states_def pc after_votes_ok)
  then show ?thesis
    using True by (simp add: prepare_step_def pc prepare_begin_def)
next
  case False
  then show ?thesis
    using tx_inv_parts(2) [OF inv] pc
    by (auto simp: prepare_step_def prepare_begin_def intro!: tx_inv_pc [OF inv])
qed

lemma prepare_vote_keeps:
  assumes inv: "tx_inv F c" and pc: "prep c = PVote ps \<or> prep c = PVoteCall p ps"
  shows "tx_inv F (prepare_step F now d a ok c)"
  using pc
proof
  assume pc: "prep c = PVote ps"
  show ?thesis
    using tx_inv_parts(2) [OF inv] pc
    by (cases ps)
      (auto simp: prepare_step_def must_be_cases after_votes_ok transactionMustBe_def
        intro!: tx_inv_pc [OF inv])
next
  assume pc: "prep c = PVoteCall p ps"
  have ok: "tx_State (the_tx c) \<in> {TransactionStateVoting, TransactionStateAborted}" "marked (the_tx c) = {}"
    using tx_inv_parts(2) [OF inv] pc by simp_all
  show ?thesis
  proof (cases a)
    case None
    then show ?thesis
      using ok by (simp add: prepare_step_def pc tx_inv_pc [OF inv])
  next
    case (Some v)
    obtain r c' where vote: "Vote F now d p v ''vote callback'' c = (r, c')"
      by fastforce
    have inv': "tx_inv F c'"
      using tx_inv_Vote [OF inv, of now d p v "''vote callback''"] vote by simp
    have same: "prep c' = PVoteCall p ps" "marked (the_tx c') = {}"
      "r = None \<Longrightarrow> tx_State (the_tx c') = (if v = VoteAbort then TransactionStateAborted else tx_State (the_tx c))"
      "r \<noteq> None \<Longrightarrow> tx_State (the_tx c') = tx_State (the_tx c)"
      using vote ok pc by (auto simp: Vote_def vote_section_def Let_def marked_def split: if_splits)
    have "prep_ok (PAborting e) (the_tx c')" if "r = Some e" for e
      using same(2,4) ok that by simp
    moreover have "prep_ok (if v = VoteAbort then PReturned (Some (ErrVoteRejected p)) else PVote ps) (the_tx c')" if "r = None"
      using same(2,3) ok that by simp
    ultimately have "tx_inv F (c'\<lparr>prep := (case r of Some e \<Rightarrow> PAborting e
        | None \<Rightarrow> if v = VoteAbort then PReturned (Some (ErrVoteRejected p)) else PVote ps)\<rparr>)"
      by (intro tx_inv_pc [OF inv']) (auto simp: same(1) split: option.split)
    then show ?thesis
      using vote by (cases r) (auto simp: prepare_step_def pc Some)
  qed
qed

lemma prepare_call_keeps:
  assumes inv: "tx_inv F c" and pc: "prep c = PPrepareCall p ps"
  shows "tx_inv F (prepare_step F now d a ok c)"
proof -
  let ?c = "c\<lparr>tx_log := tx_log c @ [EvPrepare p ok], prep := (if ok then PPrepareMark p ps else PAborting (PrepareFailed p))\<rparr>"
  have ok: "prep_ok (prep ?c) (the_tx c)"
    using tx_inv_parts(2) [OF inv] by (auto simp: pc)
  have open': "tx_State (the_tx c) \<notin> commit_states"
    using tx_inv_parts(2) [OF inv] by (auto simp: pc commit_states_def)
  have "com_ok (com c) (the_tx c) (tx_log c @ [EvPrepare p ok])"
    by (rule com_ok_open [OF tx_inv_parts(3) [OF inv] open' open']) simp
  moreover have "bal_ok F ?c"
    using tx_inv_parts(4) [OF inv] by (simp add: bal_ok_def pc)
  ultimately show ?thesis
    using tx_inv_parts(1) [OF inv] ok by (simp add: prepare_step_def pc tx_inv_def)
qed

lemma prepare_mark_keeps:
  assumes inv: "tx_inv F c" and pc: "prep c = PPrepareMark p ps"
  shows "tx_inv F (prepare_step F now d a ok c)"
proof (cases "tx_State (the_tx c) = TransactionStateVoting")
  case True
  let ?tx = "(the_tx c)\<lparr>Prepared := (Prepared (the_tx c))(p \<mapsto> True)\<rparr>"
  let ?pc = "if d then PAborting ErrTransactionTimeout else PPrepare ps"
  obtain ds where ds: "Participants (the_tx c) = ds @ p # ps" "marked (the_tx c) = set ds"
    using tx_inv_parts(2) [OF inv] by (auto simp: pc)
  have marks: "marked ?tx = set (ds @ [p])" "p \<notin> marked (the_tx c)"
    using ds tx_inv_parts(1) [OF inv] by (auto simp: marked_def)
  have "prep_ok ?pc ?tx"
    using True ds(1) marks(1) by (auto intro!: exI [of _ "ds @ [p]"])
  moreover have "com_ok (com c) ?tx (tx_log c)"
    using True by (intro com_ok_open [OF tx_inv_parts(3) [OF inv]]) (simp_all add: commit_states_def)
  moreover have "bal_ok F (c\<lparr>the_tx := ?tx, prep := ?pc\<rparr>)"
    using tx_inv_parts(4) [OF inv] True marks ds(2) by (auto simp: bal_ok_def pc)
  ultimately have "tx_inv F (c\<lparr>the_tx := ?tx, prep := ?pc\<rparr>)"
    using tx_inv_parts(1) [OF inv] by (simp add: tx_inv_def)
  then show ?thesis
    using True by (simp add: prepare_step_def pc mark_prepared_def)
next
  case False
  then have st: "tx_State (the_tx c) = TransactionStateAborted"
    using tx_inv_parts(2) [OF inv] by (auto simp: pc)
  let ?c = "(rollbackParticipants F [p] c)\<lparr>prep := PReturned (Some (LeftVotingState p TransactionStateAborted))\<rparr>"
  have "bal_ok F ?c"
    using tx_inv_parts(4) [OF inv] st by (simp add: bal_ok_def pc)
  moreover have "prep_ok (prep ?c) (the_tx c)"
    using prep_ok_marked [OF tx_inv_parts(2) [OF inv]] st by simp
  ultimately have "tx_inv F ?c"
    using tx_inv_parts(1,3) [OF inv] by (simp add: tx_inv_def)
  then show ?thesis
    using st by (simp add: prepare_step_def pc mark_prepared_def)
qed

lemma prepare_finish_keeps:
  assumes inv: "tx_inv F c" and pc: "prep c = PFinish"
  shows "tx_inv F (prepare_step F now d a ok c)"
proof (cases "d \<or> tx_State (the_tx c) \<noteq> TransactionStateVoting")
  case True
  then show ?thesis
    using tx_inv_parts(2) [OF inv] pc
    by (auto simp: prepare_step_def prepare_finish_def intro!: tx_inv_pc [OF inv])
next
  case False
  let ?tx = "(the_tx c)\<lparr>tx_State := TransactionStatePrepared\<rparr>"
  have "marked ?tx = set (Participants ?tx)"
    using tx_inv_parts(2) [OF inv] pc by (simp add: marked_def)
  then have "tx_inv F (c\<lparr>the_tx := ?tx, prep := PReturned None\<rparr>)"
    using False by (intro tx_inv_state [OF inv]) (simp_all add: open_states_def pc)
  then show ?thesis
    using False by (simp add: prepare_step_def pc prepare_finish_def)
qed

lemma prepare_abort_keeps:
  assumes inv: "tx_inv F c" and pc: "prep c = PAborting e"
  shows "tx_inv F (prepare_step F now d a ok c)"
proof -
  have inv': "tx_inv F (Abort F c)"
    by (rule tx_inv_Abort [OF inv])
  have same: "prep (Abort F c) = PAborting e" "tx_State (the_tx (Abort F c)) = TransactionStateAborted"
    using tx_inv_parts(2) [OF inv] pc by (auto simp: Abort_def transitionToAborted_def Let_def)
  have "tx_inv F ((Abort F c)\<lparr>prep := PReturned (Some e)\<rparr>)"
    using same prep_ok_marked [OF tx_inv_parts(2) [OF inv']] by (intro tx_inv_pc [OF inv']) simp_all
  then show ?thesis
    by (simp add: prepare_step_def pc)
qed

lemma prepare_step_keeps:
  assumes inv: "tx_inv F c"
  shows "tx_inv F (prepare_step F now d a ok c)"
proof (cases "prep c")
  case (PPrepare ps)
  show ?thesis
  proof (cases ps)
    case Nil
    then show ?thesis
      using tx_inv_parts(2) [OF inv] PPrepare
      by (auto simp: prepare_step_def intro!: tx_inv_pc [OF inv])
  next
    case (Cons p qs)
    then show ?thesis
      using tx_inv_parts(2) [OF inv] PPrepare
      by (auto simp: prepare_step_def transactionMustBe_def intro!: tx_inv_pc [OF inv])
  qed
next
  case (PReturned r)
  then show ?thesis
    using inv by (simp add: prepare_step_def)
qed (use prepare_start_keeps [OF inv] prepare_vote_keeps [OF inv] prepare_call_keeps [OF inv] prepare_mark_keeps [OF inv]
      prepare_finish_keeps [OF inv] prepare_abort_keeps [OF inv] in auto)

lemma commit_log_bal:
  "bal_ok F c \<Longrightarrow> bal_ok F (c\<lparr>tx_log := tx_log c @ [EvCommit p ok], com := pc\<rparr>)"
  "bal_ok F c \<Longrightarrow> bal_ok F (c\<lparr>com := pc\<rparr>)"
  by (simp_all add: bal_ok_def)

lemma tx_inv_com:
  "tx_inv F c \<Longrightarrow> com_ok pc (the_tx c) (tx_log c) \<Longrightarrow> tx_inv F (c\<lparr>com := pc\<rparr>)"
  by (simp add: tx_inv_def commit_log_bal)

text \<open>The commit phase moves from prepared on, where the prepare thread has returned without an error.\<close>

lemma tx_inv_commit_state:
  assumes inv: "tx_inv F c" and st: "tx_State (the_tx c) = TransactionStatePrepared \<or> tx_State (the_tx c) \<in> commit_states"
    and tx: "tx_State tx \<in> commit_states" "Participants tx = Participants (the_tx c)" "Prepared tx = Prepared (the_tx c)"
    and pc: "com_ok pc tx (tx_log c)"
  shows "tx_inv F (c\<lparr>the_tx := tx, com := pc\<rparr>)"
proof -
  have marks: "marked tx = marked (the_tx c)"
    using tx(3) by (simp add: marked_def)
  have live: "tx_State (the_tx c) \<noteq> TransactionStateAborted" "tx_State tx \<noteq> TransactionStateAborted"
    using st tx(1) by (auto simp: commit_states_def)
  have "prep c = PReturned None"
    using tx_inv_parts(2) [OF inv] st
    by (cases "(prep c, the_tx c)" rule: prep_ok.cases) (auto simp: commit_states_def)
  then have "prep_ok (prep c) tx"
    using tx_inv_parts(2) [OF inv] tx(1,2) marks by (auto simp: commit_states_def)
  moreover have "bal_ok F (c\<lparr>the_tx := tx, com := pc\<rparr>)"
    using tx_inv_parts(4) [OF inv] live by (simp add: bal_ok_def marks)
  ultimately show ?thesis
    using tx_inv_parts(1) [OF inv] tx(2) pc by (simp add: tx_inv_def)
qed

lemma commit_step_keeps:
  assumes inv: "tx_inv F c"
  shows "tx_inv F (commit_step F ok c)"
proof (cases "com c")
  case CStart
  show ?thesis
  proof (cases "tx_State (the_tx c) = TransactionStatePrepared")
    case True
    then have "tx_inv F (c\<lparr>the_tx := (the_tx c)\<lparr>tx_State := TransactionStateCommitting\<rparr>, com := CCommit (Participants (the_tx c)) 0 []\<rparr>)"
      by (intro tx_inv_commit_state [OF inv]) (simp_all add: commit_states_def)
    then show ?thesis
      using True by (simp add: commit_step_def CStart commit_begin_def)
  next
    case False
    then show ?thesis
      using tx_inv_parts(3) [OF inv] CStart
      by (simp add: commit_step_def commit_begin_def tx_inv_com [OF inv])
  qed
next
  case (CCommit ps n errs)
  obtain ds where ds: "tx_State (the_tx c) = TransactionStateCommitting" "Participants (the_tx c) = ds @ ps"
    "\<forall>p \<in> set ds. EvCommit p True \<in> set (tx_log c) \<or> p \<in> set errs"
    using tx_inv_parts(3) [OF inv] CCommit by auto
  show ?thesis
  proof (cases ps)
    case Nil
    then show ?thesis
      using ds by (simp add: commit_step_def CCommit tx_inv_com [OF inv])
  next
    case (Cons p qs)
    have retry: "com_ok (CCommit (p # qs) m errs) (the_tx c) (tx_log c @ es)" for m es
      using ds Cons by (auto intro!: exI [of _ ds])
    have give_up: "com_ok (CCommit qs 0 (errs @ [p])) (the_tx c) (tx_log c)"
      using ds Cons by (auto intro!: exI [of _ "ds @ [p]"])
    have done': "com_ok (CCommit qs 0 errs) (the_tx c) (tx_log c @ [EvCommit p True])"
      using ds Cons by (auto intro!: exI [of _ "ds @ [p]"])
    have call: "tx_inv F (c\<lparr>tx_log := tx_log c @ [EvCommit p ok], com := pc\<rparr>)"
      if "com_ok pc (the_tx c) (tx_log c @ [EvCommit p ok])" for pc
      using tx_inv_parts [OF inv] that by (simp add: tx_inv_def commit_log_bal)
    show ?thesis
      using tx_inv_com [OF inv give_up] tx_inv_com [OF inv] retry [of _ "[]"] call [OF retry] call [of "CCommit qs 0 errs"] done'
      by (cases ok) (simp_all add: commit_step_def CCommit Cons del: com_ok.simps)
  qed
next
  case (CFinish errs)
  then have ds: "tx_State (the_tx c) = TransactionStateCommitting"
    "\<forall>p \<in> set (Participants (the_tx c)). EvCommit p True \<in> set (tx_log c) \<or> p \<in> set errs"
    using tx_inv_parts(3) [OF inv] by auto
  obtain r tx where fin: "commit_finish errs (the_tx c) = (r, tx)"
    by fastforce
  have "tx_inv F (c\<lparr>the_tx := tx, com := CReturned r\<rparr>)"
    using fin ds by (intro tx_inv_commit_state [OF inv]) (auto simp: commit_finish_def commit_states_def split: if_splits)
  then show ?thesis
    by (simp add: commit_step_def CFinish fin)
next
  case (CReturned r)
  then show ?thesis
    using inv by (simp add: commit_step_def)
qed

lemma rollback_step_keeps:
  assumes inv: "tx_inv F c"
  shows "tx_inv F (rollback_step c)"
proof (cases "rolling c")
  case Nil
  then show ?thesis
    using inv by (simp add: rollback_step_def)
next
  case (Cons p ps)
  then have st: "tx_State (the_tx c) = TransactionStateAborted"
    using tx_inv_parts(4) [OF inv] by (auto simp: bal_ok_def)
  then have "com_ok (com c) (the_tx c) (tx_log c @ [EvRollback p])"
    by (intro com_ok_open [OF tx_inv_parts(3) [OF inv]]) (simp_all add: commit_states_def)
  moreover have "bal_ok F (c\<lparr>rolling := ps, tx_log := tx_log c @ [EvRollback p]\<rparr>)"
    using tx_inv_parts(4) [OF inv] st Cons by (simp add: bal_ok_def)
  ultimately show ?thesis
    using tx_inv_parts(1,2) [OF inv] by (simp add: rollback_step_def Cons tx_inv_def)
qed

lemma tx_reach_inv:
  assumes "tx_reach F tx0 c" "tx_State tx0 = TransactionStatePending" "Prepared tx0 = Map.empty" "distinct (Participants tx0)"
  shows "tx_inv F c \<and> Participants (the_tx c) = Participants tx0"
  using assms(1)
proof (induction rule: tx_reach.induct)
  case start
  have "tx_inv F (tx_start tx0)"
    using assms(2-4) by (simp add: tx_inv_def tx_start_def bal_ok_def marked_def commit_states_def)
  then show ?case
    by (simp add: tx_start_def)
next
  case (prepare c now ctxDone answer ok)
  have "Participants (the_tx (prepare_step F now ctxDone answer ok c)) = Participants (the_tx c)"
    by (simp add: prepare_step_def prepare_begin_def Vote_def vote_section_def mark_prepared_def prepare_finish_def
        Abort_def transitionToAborted_def Let_def split: prep_pc.split list.split option.split)
  with prepare show ?case
    by (simp add: prepare_step_keeps)
next
  case (commit c ok)
  have "Participants (the_tx (commit_step F ok c)) = Participants (the_tx c)"
    by (simp add: commit_step_def commit_begin_def commit_finish_def Let_def split: commit_pc.split list.split)
  with commit show ?case
    by (simp add: commit_step_keeps)
next
  case (commit_again c s)
  then have "com_ok CStart (the_tx c) (tx_log c)"
    using tx_inv_parts(3) [of F c] by simp
  with commit_again show ?case
    by (simp add: tx_inv_com)
next
  case (vote c now ctxDone p v reason)
  have "Participants (the_tx (snd (Vote F now ctxDone p v reason c))) = Participants (the_tx c)"
    by (simp add: Vote_def vote_section_def Let_def)
  with vote show ?case
    by (simp add: tx_inv_Vote)
next
  case (abort c)
  have "Participants (the_tx (Abort F c)) = Participants (the_tx c)"
    by (simp add: Abort_def transitionToAborted_def Let_def)
  with abort show ?case
    by (simp add: tx_inv_Abort)
next
  case (rollback c)
  have "the_tx (rollback_step c) = the_tx c"
    by (simp add: rollback_step_def split: list.split)
  with rollback show ?case
    by (simp add: rollback_step_keeps)
next
  case (cleanup c now maxAge)
  have "Participants (snd (cleanup_section now maxAge (the_tx c))) = Participants (the_tx c)"
    by (simp add: cleanup_section_def Let_def)
  with cleanup show ?case
    by (simp add: tx_inv_cleanup)
qed

lemma commit_event_state:
  "com_ok pc tx l \<Longrightarrow> EvCommit p b \<in> set l \<Longrightarrow> tx_State tx \<in> commit_states"
  by (cases "(pc, tx, l)" rule: com_ok.cases) (auto simp: commit_states_def)

lemma commit_state_marks:
  assumes "prep_ok pc tx" "tx_State tx \<in> commit_states"
  shows "marked tx = set (Participants tx)"
proof -
  have "tx_State tx \<noteq> TransactionStatePending" "tx_State tx \<noteq> TransactionStateVoting" "tx_State tx \<noteq> TransactionStateAborted"
    using assms(2) by (auto simp: commit_states_def)
  then show ?thesis
    using assms(1) by (cases "(pc, tx)" rule: prep_ok.cases) simp_all
qed

lemma commit_means_prepared:
  assumes inv: "tx_inv F c" and ev: "EvCommit p b \<in> set (tx_log c)"
  shows "(\<forall>q \<in> set (Participants (the_tx c)). EvPrepare q True \<in> set (tx_log c)) \<and>
    (\<forall>q. EvRollback q \<notin> set (tx_log c)) \<and> rolling c = []"
proof -
  have st: "tx_State (the_tx c) \<in> commit_states"
    by (rule commit_event_state [OF tx_inv_parts(3) [OF inv] ev])
  have marks: "marked (the_tx c) = set (Participants (the_tx c))"
    by (rule commit_state_marks [OF tx_inv_parts(2) [OF inv] st])
  have "tx_State (the_tx c) \<noteq> TransactionStateAborted"
    using st by (auto simp: commit_states_def)
  then have bal: "rolling c = []" "EvRollback q \<notin> set (tx_log c)"
    "count_list (tx_log c) (EvPrepare q True) = (if q \<in> marked (the_tx c) then 1 else 0) + inflight (prep c) q" for q
    using tx_inv_parts(4) [OF inv] unfolding bal_ok_def by blast+
  have "EvPrepare q True \<in> set (tx_log c)" if "q \<in> set (Participants (the_tx c))" for q
  proof (rule ccontr)
    assume "EvPrepare q True \<notin> set (tx_log c)"
    then have "count_list (tx_log c) (EvPrepare q True) = 0"
      by (rule count_notin)
    then show False
      using bal(3) [of q] that marks by simp
  qed
  with bal(1,2) show ?thesis
    by blast
qed

lemma committed_means_all:
  assumes "tx_inv F c" "tx_State (the_tx c) = TransactionStateCommitted"
  shows "\<forall>q \<in> set (Participants (the_tx c)). EvCommit q True \<in> set (tx_log c)"
proof -
  have "\<forall>q \<in> set (Participants tx). EvCommit q True \<in> set l" if "com_ok pc tx l" "tx_State tx = TransactionStateCommitted"
    for pc :: commit_pc and tx :: "'a Transaction" and l
    using that by (cases "(pc, tx, l)" rule: com_ok.cases) (auto simp: commit_states_def)
  then show ?thesis
    using tx_inv_parts(3) [OF assms(1)] assms(2) by blast
qed

lemma aborted_means_balanced:
  assumes "tx_inv F c" "tx_State (the_tx c) = TransactionStateAborted" "has_rollback F" "rolling c = []"
    and "inflight (prep c) p = 0"
  shows "count_list (tx_log c) (EvRollback p) = count_list (tx_log c) (EvPrepare p True)"
  using tx_inv_parts(4) [OF assms(1)] assms(2-) by (simp add: bal_ok_def)

text \<open>
  Property C11. Atomicity of the coordinator under concurrent use, for distinct participants: however
  votes, aborts and clean-ups of other callers interleave with the two phases, a commit call is
  made only after every participant was prepared, and then nothing is ever rolled back; a
  transaction reported committed had a successful commit of every participant; and in an aborted
  transaction with a rollback function, once the callers that abort it have made their calls and no prepare call is being
  recorded, every participant was rolled back exactly as often as it was prepared.
\<close>

theorem transaction_atomic:
  assumes reach: "tx_reach F (new_transaction txID coord ps timeout dat now) c" and dist: "distinct ps"
  shows "(EvCommit p b \<in> set (tx_log c) \<longrightarrow>
      (\<forall>q \<in> set ps. EvPrepare q True \<in> set (tx_log c)) \<and> (\<forall>q. EvRollback q \<notin> set (tx_log c)) \<and> rolling c = []) \<and>
    (tx_State (the_tx c) = TransactionStateCommitted \<longrightarrow> (\<forall>q \<in> set ps. EvCommit q True \<in> set (tx_log c))) \<and>
    (tx_State (the_tx c) = TransactionStateAborted \<and> has_rollback F \<and> rolling c = [] \<and> inflight (prep c) p = 0 \<longrightarrow>
      count_list (tx_log c) (EvRollback p) = count_list (tx_log c) (EvPrepare p True))"
proof -
  have inv: "tx_inv F c" "Participants (the_tx c) = ps"
    using tx_reach_inv [OF reach] dist by (simp_all add: new_transaction_def)
  show ?thesis
    using commit_means_prepared [OF inv(1)] committed_means_all [OF inv(1)] aborted_means_balanced [OF inv(1)] inv(2)
    by blast
qed

definition all_callbacks :: callbacks where
  "all_callbacks = \<lparr>has_vote = False, has_prepare = True, has_commit = True, has_rollback = True\<rparr>"

text \<open>A concrete execution: one participant is prepared, another caller aborts, the rollback is made.\<close>

definition sample_aborted :: "unit tx_config" where
  "sample_aborted = (let step = prepare_step all_callbacks 0 False None True;
       c = step (step (step (step (tx_start (new_transaction 1 [] [''a'', ''b''] 10 () 0)))))
     in rollback_step (Abort all_callbacks c))"

lemmas tx_eval = all_callbacks_def prepare_step_def commit_step_def tx_start_def new_transaction_def prepare_begin_def
  after_votes_def transactionMustBe_def mark_prepared_def prepare_finish_def Abort_def transitionToAborted_def
  preparedParticipantsLocked_def rollbackParticipants_def rollback_step_def

lemma transaction_atomic_witness:
  "count_list (tx_log sample_aborted) (EvRollback ''a'') = 1"
proof -
  have "tx_reach all_callbacks (new_transaction 1 [] [''a'', ''b''] 10 () 0) sample_aborted"
    unfolding sample_aborted_def Let_def by (intro tx_reach.intros)
  moreover have "tx_State (the_tx sample_aborted) = TransactionStateAborted" "rolling sample_aborted = []"
    "inflight (prep sample_aborted) ''a'' = 0" "count_list (tx_log sample_aborted) (EvPrepare ''a'' True) = 1"
    by (simp_all add: sample_aborted_def tx_eval Let_def)
  ultimately show ?thesis
    using transaction_atomic [of all_callbacks 1 "[]" "[''a'', ''b'']" 10 "()" 0 sample_aborted "''a''"]
    by (simp add: all_callbacks_def)
qed

end
