(* ===== verification/Server.thy ===== *)
theory Server
  imports Prelude
begin

text \<open>
  The process skeleton of \<^verbatim>\<open>zServer\<close>: the state machine (\<^verbatim>\<open>state.go\<close>), the registry of clean-up
  functions (\<^verbatim>\<open>cleanup.go\<close>) and the start and stop transactions (\<^verbatim>\<open>lifecycle.go\<close>, \<^verbatim>\<open>server.go\<close>).
  Start and stop run concurrently with each other and with callers that change the state or
  register clean-ups; every access to shared state is one step. The outcomes of the
  application's hooks and clean-up functions are arguments.
\<close>

section \<open>States\<close>

datatype ServerState =
    StateStarting
  | StateInitializing
  | StateReady
  | StateHealthy
  | StateDraining
  | StateMaintenance
  | StateStopped
  | StateOther string

fun IsActive :: "ServerState \<Rightarrow> bool" where
  "IsActive StateReady = True"
| "IsActive StateHealthy = True"
| "IsActive _ = False"

definition IsTerminal :: "ServerState \<Rightarrow> bool" where
  "IsTerminal s \<longleftrightarrow> s = StateStopped"

fun CanTransitionTo :: "ServerState \<Rightarrow> ServerState \<Rightarrow> bool" where
  "CanTransitionTo StateStarting t \<longleftrightarrow> t = StateInitializing \<or> t = StateDraining \<or> t = StateStopped"
| "CanTransitionTo StateInitializing t \<longleftrightarrow> t = StateReady \<or> t = StateMaintenance \<or> t = StateDraining \<or> t = StateStopped"
| "CanTransitionTo StateReady t \<longleftrightarrow> t = StateHealthy \<or> t = StateMaintenance \<or> t = StateDraining \<or> t = StateStopped"
| "CanTransitionTo StateHealthy t \<longleftrightarrow> t = StateReady \<or> t = StateMaintenance \<or> t = StateDraining \<or> t = StateStopped"
| "CanTransitionTo StateDraining t \<longleftrightarrow> t = StateStopped"
| "CanTransitionTo StateMaintenance t \<longleftrightarrow> t = StateReady \<or> t = StateHealthy \<or> t = StateDraining \<or> t = StateStopped"
| "CanTransitionTo StateStopped t \<longleftrightarrow> False"
| "CanTransitionTo (StateOther s) t \<longleftrightarrow> False"

record StateChangeEvent =
  OldState :: ServerState
  NewState :: ServerState
  ev_Timestamp :: time
  ev_Reason :: string

section \<open>The server\<close>

datatype server_error =
    InvalidTransition ServerState ServerState
  | ErrCleanupNameRequired
  | ErrCleanupFuncRequired
  | ErrCleanupAlreadyRegistered string
  | ErrCleanupRegistrationClosed
  | ErrStartAlreadyCalled
  | ErrRestartUnsupported
  | ErrServerStopping
  | HookFailed string string
  | HookPanicked string string
  | CleanupFailed string string
  | CleanupPanicked string string
  | SetDrainingFailed server_error
  | SetStoppedFailed server_error

text \<open>How a call of an application function ends.\<close>

datatype call_outcome = Returns | ReturnsError string | Panics string

text \<open>
  The fields that the operations change. A clean-up function is represented by \<open>'f\<close>. A channel
  that is only closed is the number of times it was closed: a second close would panic.
  \<^verbatim>\<open>history\<close> records every state the server has had, oldest first.
\<close>

record 'f server =
  state :: ServerState
  isRunning :: bool
  ctx_cancelled :: bool
  startClaimed :: bool
  startComplete :: bool
  startSucceeded :: bool
  stopping :: bool
  startDone :: nat
  stopDone :: nat
  stopErr :: "server_error list"
  cleanups :: "(string \<times> 'f) list"
  cleanupNames :: "string set"
  cleanupClosed :: bool
  history :: "ServerState list"

definition NewBaseServer :: "'f server" where
  "NewBaseServer = \<lparr>state = StateStarting, isRunning = False, ctx_cancelled = False, startClaimed = False,
     startComplete = False, startSucceeded = False, stopping = False, startDone = 0, stopDone = 0, stopErr = [],
     cleanups = [], cleanupNames = {}, cleanupClosed = False, history = [StateStarting]\<rparr>"

definition SetState :: "time \<Rightarrow> ServerState \<Rightarrow> string \<Rightarrow> 'f server \<Rightarrow> (server_error option \<times> StateChangeEvent option) \<times> 'f server" where
  "SetState now st reason s =
     (let oldState = state s in
      if oldState = st then ((None, None), s)
      else if \<not> CanTransitionTo oldState st then ((Some (InvalidTransition oldState st), None), s)
      else ((None, Some \<lparr>OldState = oldState, NewState = st, ev_Timestamp = now, ev_Reason = reason\<rparr>),
            s\<lparr>state := st, history := history s @ [st]\<rparr>))"

definition Initialize :: "time \<Rightarrow> 'f server \<Rightarrow> (server_error option \<times> StateChangeEvent option) \<times> 'f server" where
  "Initialize now = SetState now StateInitializing ''server initializing''"
definition Ready :: "time \<Rightarrow> 'f server \<Rightarrow> (server_error option \<times> StateChangeEvent option) \<times> 'f server" where
  "Ready now = SetState now StateReady ''server ready''"
definition Healthy :: "time \<Rightarrow> 'f server \<Rightarrow> (server_error option \<times> StateChangeEvent option) \<times> 'f server" where
  "Healthy now = SetState now StateHealthy ''server healthy''"
definition Drain :: "time \<Rightarrow> 'f server \<Rightarrow> (server_error option \<times> StateChangeEvent option) \<times> 'f server" where
  "Drain now = SetState now StateDraining ''server draining''"
definition EnterMaintenance :: "time \<Rightarrow> 'f server \<Rightarrow> (server_error option \<times> StateChangeEvent option) \<times> 'f server" where
  "EnterMaintenance now = SetState now StateMaintenance ''server entering maintenance''"
definition ExitMaintenance :: "time \<Rightarrow> 'f server \<Rightarrow> (server_error option \<times> StateChangeEvent option) \<times> 'f server" where
  "ExitMaintenance now = SetState now StateReady ''server exiting maintenance''"

text \<open>The listeners are kept in a concurrent map under ascending handles; an event goes to each.\<close>

definition AddStateChangeListener ::
    "('m, uint64, 'l) tmap \<Rightarrow> 'l option \<Rightarrow> uint64 \<times> 'm \<Rightarrow> uint64 \<times> uint64 \<times> 'm" where
  "AddStateChangeListener T listener sm =
     (case sm of (listenerSeq, ls) \<Rightarrow>
        (case listener of
           None \<Rightarrow> (0, listenerSeq, ls)
         | Some l \<Rightarrow> (let handle = listenerSeq + 1 in (handle, handle, tm_store T ls handle l))))"

definition RemoveStateChangeListener :: "('m, uint64, 'l) tmap \<Rightarrow> uint64 \<Rightarrow> 'm \<Rightarrow> 'm" where
  "RemoveStateChangeListener T handle ls = (if handle \<noteq> 0 then tm_delete T ls handle else ls)"

definition notify_listeners :: "('m, uint64, 'l) tmap \<Rightarrow> StateChangeEvent option \<Rightarrow> 'm \<Rightarrow> ('l \<times> StateChangeEvent) list" where
  "notify_listeners T ev ls =
     (case ev of None \<Rightarrow> [] | Some e \<Rightarrow> map (\<lambda>(h, l). (l, e)) (tm_range T ls))"

section \<open>Clean-ups\<close>

definition RegisterCleanup :: "string \<Rightarrow> 'f option \<Rightarrow> 'f server \<Rightarrow> server_error option \<times> 'f server" where
  "RegisterCleanup name cleanup s =
     (let name = TrimSpace name in
      if name = [] then (Some ErrCleanupNameRequired, s)
      else
        (case cleanup of
           None \<Rightarrow> (Some ErrCleanupFuncRequired, s)
         | Some fn \<Rightarrow>
             (if cleanupClosed s then (Some ErrCleanupRegistrationClosed, s)
              else if name \<in> cleanupNames s then (Some (ErrCleanupAlreadyRegistered name), s)
              else (None, s\<lparr>cleanupNames := insert name (cleanupNames s), cleanups := cleanups s @ [(name, fn)]\<rparr>))))"

text \<open>\<open>barrier\<close> is the clean-up function that waits for the task.\<close>

definition StartBackground :: "string \<Rightarrow> 'f option \<Rightarrow> 'f server \<Rightarrow> server_error option \<times> 'f server" where
  "StartBackground name barrier s =
     (case barrier of
        None \<Rightarrow> (Some ErrCleanupFuncRequired, s)
      | Some b \<Rightarrow> RegisterCleanup (''background:'' @ name) (Some b) s)"

definition close_cleanups :: "'f server \<Rightarrow> (string \<times> 'f) list \<times> 'f server" where
  "close_cleanups s = (cleanups s, s\<lparr>cleanupClosed := True, cleanups := []\<rparr>)"

definition callCleanup :: "('f \<Rightarrow> call_outcome) \<Rightarrow> string \<times> 'f \<Rightarrow> server_error option" where
  "callCleanup run entry =
     (case run (snd entry) of
        Returns \<Rightarrow> None
      | ReturnsError e \<Rightarrow> Some (CleanupFailed (fst entry) e)
      | Panics e \<Rightarrow> Some (CleanupPanicked (fst entry) e))"

definition callErrorHook :: "string \<Rightarrow> call_outcome \<Rightarrow> server_error option" where
  "callErrorHook name outcome =
     (case outcome of
        Returns \<Rightarrow> None
      | ReturnsError e \<Rightarrow> Some (HookFailed name e)
      | Panics e \<Rightarrow> Some (HookPanicked name e))"

text \<open>A hook without a result returns or panics.\<close>

definition callVoidHook :: "string \<Rightarrow> string option \<Rightarrow> server_error option" where
  "callVoidHook name panic = map_option (HookPanicked name) panic"

section \<open>Start and stop as threads\<close>

text \<open>The application functions that are called, in order.\<close>

datatype 'f life_event =
    EvBeforeStart | EvAfterStart | EvBeforeStop | EvCancel | EvCleanup "string \<times> 'f" | EvAfterStop

text \<open>
  \<open>registered\<close> below lists the clean-ups whose registration succeeded, in order. Where the call of
  \<^verbatim>\<open>Start\<close> that claimed the start stands, and where the one stop transaction
  stands. \<open>SStop errs\<close> is about to join its errors with the result of \<^verbatim>\<open>StopWithError\<close>.
\<close>

datatype start_pc =
    SIdle
  | SHookBefore
  | SHookAfter
  | SFinish "server_error option"
  | SStop server_error
  | SReturned "server_error list"

datatype 'f stop_pc =
    TIdle
  | TLock
  | TWait
  | TRead
  | TDrain
  | TNotRunning "server_error list" bool
  | THookBefore "server_error list"
  | TCancel "server_error list"
  | TClose "server_error list"
  | TCleanup "server_error list" "(string \<times> 'f) list"
  | THookAfter "server_error list"
  | TFinal "server_error list"
  | TDone

record 'f life_config =
  srv :: "'f server"
  start_at :: start_pc
  stop_at :: "'f stop_pc"
  life_log :: "'f life_event list"
  registered :: "(string \<times> 'f) list"

text \<open>The entry of \<^verbatim>\<open>Start\<close>: the error to return, or \<open>None\<close> when this call claims the start.\<close>

definition start_claim :: "'f server \<Rightarrow> server_error option \<times> 'f server" where
  "start_claim s =
     (if startClaimed s then (Some (if IsTerminal (state s) then ErrRestartUnsupported else ErrStartAlreadyCalled), s)
      else if stopping s \<or> IsTerminal (state s) then (Some ErrRestartUnsupported, s)
      else (None, s\<lparr>startClaimed := True\<rparr>))"

definition start_finish :: "server_error option \<Rightarrow> 'f server \<Rightarrow> bool \<times> 'f server" where
  "start_finish startErr s =
     (let s = s\<lparr>startSucceeded := (startErr = None)\<rparr>;
          stoppedDuringStart = stopping s;
          s = (if startErr = None \<and> \<not> stoppedDuringStart then s\<lparr>isRunning := True\<rparr> else s);
          s = s\<lparr>startComplete := True, startDone := startDone s + 1\<rparr>
      in (stoppedDuringStart, s))"

text \<open>\<open>h\<close> is the outcome of the hook that is called in this step.\<close>

definition start_step :: "call_outcome \<Rightarrow> 'f life_config \<Rightarrow> 'f life_config" where
  "start_step h c =
     (case start_at c of
        SIdle \<Rightarrow>
          (case start_claim (srv c) of
             (Some err, s) \<Rightarrow> c
           | (None, s) \<Rightarrow> c\<lparr>srv := s, start_at := SHookBefore\<rparr>)
      | SHookBefore \<Rightarrow>
          c\<lparr>life_log := life_log c @ [EvBeforeStart],
            start_at := (case callErrorHook ''OnBeforeStart'' h of None \<Rightarrow> SHookAfter | Some e \<Rightarrow> SFinish (Some e))\<rparr>
      | SHookAfter \<Rightarrow>
          c\<lparr>life_log := life_log c @ [EvAfterStart], start_at := SFinish (callErrorHook ''OnAfterStart'' h)\<rparr>
      | SFinish startErr \<Rightarrow>
          (case start_finish startErr (srv c) of
             (stoppedDuringStart, s) \<Rightarrow>
               c\<lparr>srv := s,
                 start_at := (case startErr of
                                Some e \<Rightarrow> SStop e
                              | None \<Rightarrow> if stoppedDuringStart then SStop ErrServerStopping else SReturned [])\<rparr>)
      | SStop e \<Rightarrow>
          (if stopDone (srv c) > 0 then c\<lparr>start_at := SReturned (e # stopErr (srv c))\<rparr>
           else if stop_at c = TIdle then c\<lparr>srv := (srv c)\<lparr>stopping := True\<rparr>, stop_at := TLock\<rparr>
           else c)
      | SReturned errs \<Rightarrow> c)"

text \<open>
  The body of \<^verbatim>\<open>stopOnce.Do\<close> and of \<^verbatim>\<open>stopSequence\<close>. \<open>panic\<close> is the panic of the hook called
  in this step, \<open>run\<close> the outcome of the clean-up functions, \<open>has_after\<close> whether the hooks
  implement \<^verbatim>\<open>AfterStopHook\<close>.
\<close>

definition stop_step ::
    "bool \<Rightarrow> time \<Rightarrow> string option \<Rightarrow> ('f \<Rightarrow> call_outcome) \<Rightarrow> 'f life_config \<Rightarrow> 'f life_config" where
  "stop_step has_after now panic run c =
     (case stop_at c of
        TIdle \<Rightarrow> c\<lparr>srv := (srv c)\<lparr>stopping := True\<rparr>, stop_at := TLock\<rparr>
      | TLock \<Rightarrow>
          (let s = srv c;
               s = (if \<not> startClaimed s \<and> \<not> startComplete s
                    then s\<lparr>startComplete := True, startDone := startDone s + 1\<rparr> else s)
           in c\<lparr>srv := s, stop_at := TWait\<rparr>)
      | TWait \<Rightarrow> (if startDone (srv c) > 0 then c\<lparr>stop_at := TRead\<rparr> else c)
      | TRead \<Rightarrow> c\<lparr>stop_at := (if startSucceeded (srv c) then TDrain else TNotRunning [] False)\<rparr>
      | TDrain \<Rightarrow>
          (case SetState now StateDraining ''server stopping'' (srv c) of
             ((err, ev), s) \<Rightarrow>
               c\<lparr>srv := s, stop_at := TNotRunning (case err of None \<Rightarrow> [] | Some e \<Rightarrow> [SetDrainingFailed e]) True\<rparr>)
      | TNotRunning errs started \<Rightarrow>
          c\<lparr>srv := (srv c)\<lparr>isRunning := False\<rparr>, stop_at := (if started then THookBefore errs else TCancel errs)\<rparr>
      | THookBefore errs \<Rightarrow>
          c\<lparr>life_log := life_log c @ [EvBeforeStop],
            stop_at := TCancel (case callVoidHook ''OnBeforeStop'' panic of None \<Rightarrow> errs | Some e \<Rightarrow> errs @ [e])\<rparr>
      | TCancel errs \<Rightarrow>
          c\<lparr>srv := (srv c)\<lparr>ctx_cancelled := True\<rparr>, life_log := life_log c @ [EvCancel], stop_at := TClose errs\<rparr>
      | TClose errs \<Rightarrow>
          (case close_cleanups (srv c) of (todo, s) \<Rightarrow> c\<lparr>srv := s, stop_at := TCleanup errs (rev todo)\<rparr>)
      | TCleanup errs [] \<Rightarrow> c\<lparr>stop_at := THookAfter errs\<rparr>
      | TCleanup errs (entry # todo) \<Rightarrow>
          c\<lparr>life_log := life_log c @ [EvCleanup entry],
            stop_at := TCleanup (case callCleanup run entry of None \<Rightarrow> errs | Some e \<Rightarrow> errs @ [e]) todo\<rparr>
      | THookAfter errs \<Rightarrow>
          (if has_after
           then c\<lparr>life_log := life_log c @ [EvAfterStop],
                  stop_at := TFinal (case callVoidHook ''OnAfterStop'' panic of None \<Rightarrow> errs | Some e \<Rightarrow> errs @ [e])\<rparr>
           else c\<lparr>stop_at := TFinal errs\<rparr>)
      | TFinal errs \<Rightarrow>
          (case SetState now StateStopped ''server stopped'' (srv c) of
             ((err, ev), s) \<Rightarrow>
               c\<lparr>srv := s\<lparr>stopErr := (case err of None \<Rightarrow> errs | Some e \<Rightarrow> errs @ [SetStoppedFailed e]),
                         stopDone := stopDone s + 1\<rparr>,
                 stop_at := TDone\<rparr>)
      | TDone \<Rightarrow> c)"

definition life_start :: "'f life_config" where
  "life_start = \<lparr>srv = NewBaseServer, start_at = SIdle, stop_at = TIdle, life_log = [], registered = []\<rparr>"

text \<open>Any interleaving of the start, the stop transaction, state changes and registrations.\<close>

inductive life_reach :: "bool \<Rightarrow> 'f life_config \<Rightarrow> bool" for has_after where
  init: "life_reach has_after life_start"
| start: "life_reach has_after c \<Longrightarrow> life_reach has_after (start_step h c)"
| stop: "life_reach has_after c \<Longrightarrow> life_reach has_after (stop_step has_after now panic run c)"
| set_state: "life_reach has_after c \<Longrightarrow> life_reach has_after (c\<lparr>srv := snd (SetState now st reason (srv c))\<rparr>)"
| register: "life_reach has_after c \<Longrightarrow> RegisterCleanup name f (srv c) = (r, s) \<Longrightarrow>
     life_reach has_after (c\<lparr>srv := s,
       registered := registered c @ (if r = None then [(TrimSpace name, the f)] else [])\<rparr>)"

section \<open>The invariant\<close>

fun rank :: "'f stop_pc \<Rightarrow> nat" where
  "rank TIdle = 0" | "rank TLock = 1" | "rank TWait = 2" | "rank TRead = 3" | "rank TDrain = 4"
| "rank (TNotRunning _ _) = 5" | "rank (THookBefore _) = 6" | "rank (TCancel _) = 7" | "rank (TClose _) = 8"
| "rank (TCleanup _ _) = 9" | "rank (THookAfter _) = 10" | "rank (TFinal _) = 11" | "rank TDone = 12"

definition hooks_running :: "start_pc \<Rightarrow> bool" where
  "hooks_running pc \<longleftrightarrow> pc = SHookBefore \<or> pc = SHookAfter \<or> (\<exists>e. pc = SFinish e)"

text \<open>The channels and flags against the places of the two threads.\<close>

definition thread_ok :: "'f life_config \<Rightarrow> bool" where
  "thread_ok c \<longleftrightarrow>
     startDone (srv c) = (if startComplete (srv c) then 1 else 0) \<and>
     (startClaimed (srv c) \<longleftrightarrow> start_at c \<noteq> SIdle) \<and>
     (hooks_running (start_at c) \<longrightarrow> \<not> startComplete (srv c)) \<and>
     (start_at c \<noteq> SIdle \<and> \<not> hooks_running (start_at c) \<longrightarrow> startComplete (srv c)) \<and>
     (start_at c = SIdle \<and> startComplete (srv c) \<longrightarrow> rank (stop_at c) \<ge> 2) \<and>
     (stopping (srv c) \<longleftrightarrow> stop_at c \<noteq> TIdle) \<and>
     (rank (stop_at c) \<ge> 3 \<longrightarrow> startComplete (srv c)) \<and>
     (startSucceeded (srv c) \<longrightarrow> startClaimed (srv c) \<and> startComplete (srv c)) \<and>
     (rank (stop_at c) \<ge> 6 \<longrightarrow> \<not> isRunning (srv c)) \<and>
     (ctx_cancelled (srv c) \<longleftrightarrow> rank (stop_at c) \<ge> 8) \<and>
     (cleanupClosed (srv c) \<longleftrightarrow> rank (stop_at c) \<ge> 9) \<and>
     stopDone (srv c) = (if stop_at c = TDone then 1 else 0) \<and>
     (stop_at c = TDone \<longrightarrow> state (srv c) = StateStopped)"

definition reg_ok :: "'f life_config \<Rightarrow> bool" where
  "reg_ok c \<longleftrightarrow>
     distinct (map fst (registered c)) \<and> cleanupNames (srv c) = fst ` set (registered c) \<and>
     (\<not> cleanupClosed (srv c) \<longrightarrow> cleanups (srv c) = registered c)"

fun start_log_ok :: "start_pc \<Rightarrow> bool \<Rightarrow> 'f life_event list \<Rightarrow> bool" where
  "start_log_ok SIdle ok l \<longleftrightarrow> l = []"
| "start_log_ok SHookBefore ok l \<longleftrightarrow> l = []"
| "start_log_ok SHookAfter ok l \<longleftrightarrow> l = [EvBeforeStart]"
| "start_log_ok (SFinish None) ok l \<longleftrightarrow> l = [EvBeforeStart, EvAfterStart]"
| "start_log_ok (SFinish (Some e)) ok l \<longleftrightarrow> l = [EvBeforeStart] \<or> l = [EvBeforeStart, EvAfterStart]"
| "start_log_ok _ ok l \<longleftrightarrow> l = [EvBeforeStart, EvAfterStart] \<or> (\<not> ok \<and> l = [EvBeforeStart])"

fun stop_log_ok :: "bool \<Rightarrow> bool \<Rightarrow> (string \<times> 'f) list \<Rightarrow> 'f stop_pc \<Rightarrow> 'f life_event list \<Rightarrow> bool" where
  "stop_log_ok aft ok reg (TNotRunning es st) l \<longleftrightarrow> l = [] \<and> st = ok"
| "stop_log_ok aft ok reg (THookBefore es) l \<longleftrightarrow> l = [] \<and> ok"
| "stop_log_ok aft ok reg (TCancel es) l \<longleftrightarrow> l = (if ok then [EvBeforeStop] else [])"
| "stop_log_ok aft ok reg (TClose es) l \<longleftrightarrow> l = (if ok then [EvBeforeStop] else []) @ [EvCancel]"
| "stop_log_ok aft ok reg (TCleanup es todo) l \<longleftrightarrow>
     (\<exists>ds. rev reg = ds @ todo \<and> l = (if ok then [EvBeforeStop] else []) @ [EvCancel] @ map EvCleanup ds)"
| "stop_log_ok aft ok reg (THookAfter es) l \<longleftrightarrow>
     l = (if ok then [EvBeforeStop] else []) @ [EvCancel] @ map EvCleanup (rev reg)"
| "stop_log_ok aft ok reg (TFinal es) l \<longleftrightarrow>
     l = (if ok then [EvBeforeStop] else []) @ [EvCancel] @ map EvCleanup (rev reg) @ (if aft then [EvAfterStop] else [])"
| "stop_log_ok aft ok reg TDone l \<longleftrightarrow>
     l = (if ok then [EvBeforeStop] else []) @ [EvCancel] @ map EvCleanup (rev reg) @ (if aft then [EvAfterStop] else [])"
| "stop_log_ok aft ok reg TDrain l \<longleftrightarrow> l = [] \<and> ok"
| "stop_log_ok aft ok reg _ l \<longleftrightarrow> l = []"

definition log_ok :: "bool \<Rightarrow> 'f life_config \<Rightarrow> bool" where
  "log_ok aft c \<longleftrightarrow> (\<exists>l1 l2. life_log c = l1 @ l2 \<and> start_log_ok (start_at c) (startSucceeded (srv c)) l1 \<and>
     stop_log_ok aft (startSucceeded (srv c)) (registered c) (stop_at c) l2)"

text \<open>The states the server has had: each step of the history is one the table allows.\<close>

definition history_ok :: "'f server \<Rightarrow> bool" where
  "history_ok s \<longleftrightarrow> history s \<noteq> [] \<and> hd (history s) = StateStarting \<and> last (history s) = state s \<and>
     (\<forall>i < length (history s) - 1. CanTransitionTo (history s ! i) (history s ! (i + 1))) \<and>
     (\<forall>r. state s \<noteq> StateOther r)"

lemma not_other: "CanTransitionTo a b \<Longrightarrow> b \<noteq> StateOther r"
  by (cases a) auto

lemma can_stop: "(\<forall>r. a \<noteq> StateOther r) \<Longrightarrow> a \<noteq> StateStopped \<Longrightarrow> CanTransitionTo a StateStopped"
  by (cases a) auto

lemma history_SetState:
  assumes "history_ok s"
  shows "history_ok (snd (SetState now st reason s))"
proof (cases "state s \<noteq> st \<and> CanTransitionTo (state s) st")
  case True
  have "history s ! (length (history s) - 1) = state s"
    using assms by (auto simp: history_ok_def last_conv_nth)
  then have "CanTransitionTo ((history s @ [st]) ! i) ((history s @ [st]) ! (i + 1))" if "i < length (history s)" for i
    using assms that True by (cases "i = length (history s) - 1") (auto simp: history_ok_def nth_append)
  then show ?thesis
    using assms True not_other by (auto simp: SetState_def history_ok_def)
qed (use assms in \<open>auto simp: SetState_def Let_def\<close>)

lemma SetState_sel [simp]:
  "isRunning (snd (SetState now st reason s)) = isRunning s" "ctx_cancelled (snd (SetState now st reason s)) = ctx_cancelled s"
  "startClaimed (snd (SetState now st reason s)) = startClaimed s" "startComplete (snd (SetState now st reason s)) = startComplete s"
  "startSucceeded (snd (SetState now st reason s)) = startSucceeded s" "stopping (snd (SetState now st reason s)) = stopping s"
  "startDone (snd (SetState now st reason s)) = startDone s" "stopDone (snd (SetState now st reason s)) = stopDone s"
  "cleanups (snd (SetState now st reason s)) = cleanups s" "cleanupNames (snd (SetState now st reason s)) = cleanupNames s"
  "cleanupClosed (snd (SetState now st reason s)) = cleanupClosed s"
  by (simp_all add: SetState_def Let_def)

lemma SetState_stopped: "state s = StateStopped \<Longrightarrow> state (snd (SetState now st reason s)) = StateStopped"
  by (simp add: SetState_def Let_def)

lemma SetState_to_stopped: "history_ok s \<Longrightarrow> state (snd (SetState now StateStopped reason s)) = StateStopped"
  using can_stop [of "state s"] by (auto simp: SetState_def history_ok_def Let_def)

definition life_inv :: "bool \<Rightarrow> 'f life_config \<Rightarrow> bool" where
  "life_inv aft c \<longleftrightarrow> thread_ok c \<and> reg_ok c \<and> log_ok aft c \<and> history_ok (srv c)"

lemma life_inv_init: "life_inv aft life_start"
  by (simp add: life_inv_def life_start_def NewBaseServer_def thread_ok_def reg_ok_def log_ok_def history_ok_def
      hooks_running_def)

lemma life_inv_set_state:
  assumes "life_inv aft c"
  shows "life_inv aft (c\<lparr>srv := snd (SetState now st reason (srv c))\<rparr>)"
proof -
  let ?c = "c\<lparr>srv := snd (SetState now st reason (srv c))\<rparr>"
  have "thread_ok ?c"
    using assms SetState_stopped [of "srv c" now st reason] unfolding life_inv_def thread_ok_def by auto
  moreover have "reg_ok ?c" "log_ok aft ?c" "history_ok (srv ?c)"
    using assms history_SetState [of "srv c" now st reason] by (simp_all add: life_inv_def reg_ok_def log_ok_def)
  ultimately show ?thesis
    by (simp add: life_inv_def)
qed

lemma life_inv_register:
  assumes inv: "life_inv aft c" and op: "RegisterCleanup name f (srv c) = (r, s)"
  shows "life_inv aft (c\<lparr>srv := s, registered := registered c @ (if r = None then [(TrimSpace name, the f)] else [])\<rparr>)"
proof (cases "r = None")
  case False
  then have "s = srv c"
    using op by (auto simp: RegisterCleanup_def Let_def split: option.splits if_splits)
  then have "c\<lparr>srv := s, registered := registered c @ (if r = None then [(TrimSpace name, the f)] else [])\<rparr> = c"
    using False by simp
  then show ?thesis
    using inv by simp
next
  case True
  then obtain fn where f: "f = Some fn" "\<not> cleanupClosed (srv c)" "TrimSpace name \<notin> cleanupNames (srv c)"
    "s = (srv c)\<lparr>cleanupNames := insert (TrimSpace name) (cleanupNames (srv c)), cleanups := cleanups (srv c) @ [(TrimSpace name, fn)]\<rparr>"
    using op by (auto simp: RegisterCleanup_def Let_def split: option.splits if_splits)
  have rk: "rank (stop_at c) < 9"
    using inv f(2) by (simp add: life_inv_def thread_ok_def not_le [symmetric])
  have log: "stop_log_ok aft ok reg (stop_at c) l \<longleftrightarrow> stop_log_ok aft ok (registered c) (stop_at c) l" for ok reg l
    using rk by (cases "stop_at c") auto
  let ?c = "c\<lparr>srv := s, registered := registered c @ [(TrimSpace name, fn)]\<rparr>"
  have "thread_ok ?c"
    using inv unfolding life_inv_def thread_ok_def by (auto simp: f(4))
  moreover have "reg_ok ?c"
    using inv f(2,3) by (simp add: life_inv_def reg_ok_def f(4))
  moreover have "log_ok aft ?c" "history_ok (srv ?c)"
    using inv log [of _ "registered c @ [(TrimSpace name, fn)]"] by (simp_all add: life_inv_def log_ok_def history_ok_def f(4))
  ultimately show ?thesis
    using True f(1) by (simp add: life_inv_def)
qed

lemma life_inv_parts:
  assumes "life_inv aft c"
  shows "thread_ok c" "reg_ok c" "log_ok aft c" "history_ok (srv c)"
  using assms by (simp_all add: life_inv_def)

lemma log_okI:
  "life_log c = la @ lb \<Longrightarrow> start_log_ok (start_at c) (startSucceeded (srv c)) la \<Longrightarrow>
     stop_log_ok aft (startSucceeded (srv c)) (registered c) (stop_at c) lb \<Longrightarrow> log_ok aft c"
  by (auto simp: log_ok_def)

text \<open>While a hook of the start runs, the stop transaction has called nothing.\<close>

lemma early_stop_log: "rank pc < 4 \<Longrightarrow> stop_log_ok aft ok reg pc l \<longleftrightarrow> l = []"
  by (cases pc) auto

lemma hooks_running_early:
  assumes "thread_ok c" "hooks_running (start_at c)"
  shows "rank (stop_at c) < 3"
  using assms unfolding thread_ok_def by (meson not_le)

lemma start_step_threads:
  assumes "thread_ok c"
  shows "thread_ok (start_step h c)"
proof (cases "start_at c")
  case SIdle
  then show ?thesis
    using assms unfolding thread_ok_def
    by (auto simp: start_step_def start_claim_def hooks_running_def split: if_splits)
next
  case (SFinish e)
  have "rank (stop_at c) < 3"
    using hooks_running_early [OF assms] SFinish by (simp add: hooks_running_def)
  then show ?thesis
    using assms SFinish unfolding thread_ok_def
    by (auto simp: start_step_def start_finish_def hooks_running_def Let_def split: option.split)
next
  case (SStop e)
  then show ?thesis
    using assms unfolding thread_ok_def by (auto simp: start_step_def hooks_running_def)
next
  case (SReturned es)
  then show ?thesis
    using assms by (simp add: start_step_def)
qed (use assms in \<open>auto simp: thread_ok_def start_step_def hooks_running_def split: option.split\<close>)

lemma start_step_log:
  assumes inv: "life_inv aft c"
  shows "log_ok aft (start_step h c)"
proof -
  note parts = life_inv_parts [OF inv]
  obtain l1 l2 where l: "life_log c = l1 @ l2" "start_log_ok (start_at c) (startSucceeded (srv c)) l1"
    "stop_log_ok aft (startSucceeded (srv c)) (registered c) (stop_at c) l2"
    using parts(3) by (auto simp: log_ok_def)
  have early: "rank (stop_at c) < 4" "l2 = []" if "hooks_running (start_at c)"
    using hooks_running_early [OF parts(1) that] l(3) early_stop_log [of "stop_at c"] by auto
  show ?thesis
  proof (cases "start_at c")
    case SIdle
    then show ?thesis
      using l by (auto simp: start_step_def start_claim_def intro!: log_okI)
  next
    case SHookBefore
    then show ?thesis
      using l early by (auto simp: start_step_def hooks_running_def early_stop_log split: option.split
          intro!: log_okI [where lb = "[]"])
  next
    case SHookAfter
    then show ?thesis
      using l early by (cases "callErrorHook ''OnAfterStart'' h")
        (auto simp: start_step_def hooks_running_def early_stop_log intro!: log_okI [where lb = "[]"])
  next
    case (SFinish e)
    then show ?thesis
      using l early by (cases e)
        (auto simp: start_step_def start_finish_def Let_def hooks_running_def early_stop_log intro!: log_okI [where lb = "[]"])
  next
    case (SStop e)
    have "stop_log_ok aft ok reg TLock l2" if "stop_at c = TIdle" for ok reg
      using l(3) that by simp
    then show ?thesis
      using l SStop by (intro log_okI [where la = l1 and lb = l2]) (simp_all add: start_step_def)
  next
    case (SReturned es)
    then show ?thesis
      using parts(3) by (simp add: start_step_def)
  qed
qed

lemma start_step_keeps:
  assumes inv: "life_inv aft c"
  shows "life_inv aft (start_step h c)"
proof -
  note parts = life_inv_parts [OF inv]
  have "registered (start_step h c) = registered c" "cleanupNames (srv (start_step h c)) = cleanupNames (srv c)"
    "cleanupClosed (srv (start_step h c)) = cleanupClosed (srv c)" "cleanups (srv (start_step h c)) = cleanups (srv c)"
    "history (srv (start_step h c)) = history (srv c)" "state (srv (start_step h c)) = state (srv c)"
    by (simp_all add: start_step_def start_claim_def start_finish_def Let_def split: start_pc.split)
  then show ?thesis
    using start_step_threads [OF parts(1)] start_step_log [OF inv] parts(2,4)
    by (simp add: life_inv_def reg_ok_def history_ok_def)
qed

lemma stop_step_threads:
  assumes t: "thread_ok c" and h: "history_ok (srv c)"
  shows "thread_ok (stop_step aft now panic run c)"
proof (cases "stop_at c")
  case TIdle
  then show ?thesis
    using t unfolding thread_ok_def by (auto simp: stop_step_def)
next
  case TLock
  then show ?thesis
    using t unfolding thread_ok_def by (auto simp: stop_step_def Let_def hooks_running_def)
next
  case TWait
  then show ?thesis
    using t unfolding thread_ok_def by (auto simp: stop_step_def split: if_splits)
next
  case TDrain
  then show ?thesis
    using t unfolding thread_ok_def by (auto simp: stop_step_def split_beta)
next
  case (TNotRunning es st)
  then show ?thesis
    using t unfolding thread_ok_def by (auto simp: stop_step_def)
next
  case (TCleanup es todo)
  then show ?thesis
    using t unfolding thread_ok_def by (cases todo) (auto simp: stop_step_def)
next
  case (TFinal es)
  then show ?thesis
    using t SetState_to_stopped [OF h, of now "''server stopped''"] unfolding thread_ok_def
    by (auto simp: stop_step_def split_beta)
qed (use t in \<open>auto simp: thread_ok_def stop_step_def close_cleanups_def\<close>)

lemma stop_step_log:
  assumes inv: "life_inv aft c"
  shows "log_ok aft (stop_step aft now panic run c)"
proof -
  note parts = life_inv_parts [OF inv]
  obtain l1 l2 where l: "life_log c = l1 @ l2" "start_log_ok (start_at c) (startSucceeded (srv c)) l1"
    "stop_log_ok aft (startSucceeded (srv c)) (registered c) (stop_at c) l2"
    using parts(3) by (auto simp: log_ok_def)
  have same: "log_ok aft (stop_step aft now panic run c)"
    if "life_log (stop_step aft now panic run c) = life_log c @ evs" "start_at (stop_step aft now panic run c) = start_at c"
      "startSucceeded (srv (stop_step aft now panic run c)) = startSucceeded (srv c)"
      "registered (stop_step aft now panic run c) = registered c"
      "stop_log_ok aft (startSucceeded (srv c)) (registered c) (stop_at (stop_step aft now panic run c)) (l2 @ evs)" for evs
    using l that by (intro log_okI [where la = l1 and lb = "l2 @ evs"]) simp_all
  have reg: "cleanups (srv c) = registered c" if "stop_at c = TClose es" for es
    using parts(1,2) that by (simp add: reg_ok_def thread_ok_def)
  show ?thesis
  proof (cases "stop_at c")
    case (THookBefore es)
    then show ?thesis
      using l(3) by (intro same [of "[EvBeforeStop]"]) (simp_all add: stop_step_def)
  next
    case (TCancel es)
    then show ?thesis
      using l(3) by (intro same [of "[EvCancel]"]) (simp_all add: stop_step_def)
  next
    case (TClose es)
    then show ?thesis
      using l(3) reg by (intro same [of "[]"]) (simp_all add: stop_step_def close_cleanups_def)
  next
    case (TCleanup es todo)
    then show ?thesis
      using l(3) by (cases todo; intro same [of "case todo of [] \<Rightarrow> [] | e # _ \<Rightarrow> [EvCleanup e]"])
        (auto simp: stop_step_def split: option.split)
  next
    case (THookAfter es)
    then show ?thesis
      using l(3) by (intro same [of "if aft then [EvAfterStop] else []"]) (simp_all add: stop_step_def)
  next
    case TDrain
    then show ?thesis
      using l(3) by (intro same [of "[]"]) (simp_all add: stop_step_def split_beta)
  next
    case (TFinal es)
    then show ?thesis
      using l(3) by (intro same [of "[]"]) (simp_all add: stop_step_def split_beta)
  qed (use l(3) same [of "[]"] in \<open>auto simp: stop_step_def Let_def\<close>)
qed

lemma stop_step_registry:
  assumes "reg_ok c"
  shows "reg_ok (stop_step aft now panic run c)"
proof (cases "stop_at c")
  case (TCleanup es todo)
  then show ?thesis
    using assms by (cases todo) (simp_all add: reg_ok_def stop_step_def)
qed (use assms in \<open>simp_all add: reg_ok_def stop_step_def close_cleanups_def Let_def split_beta\<close>)

lemma stop_step_history:
  assumes "history_ok (srv c)"
  shows "history_ok (srv (stop_step aft now panic run c))"
proof (cases "stop_at c")
  case (TCleanup es todo)
  then show ?thesis
    using assms by (cases todo) (simp_all add: stop_step_def)
next
  case TDrain
  then show ?thesis
    using history_SetState [OF assms] by (simp add: stop_step_def split_beta)
next
  case (TFinal es)
  then show ?thesis
    using history_SetState [OF assms, of now StateStopped "''server stopped''"]
    by (simp add: stop_step_def split_beta history_ok_def)
qed (use assms in \<open>simp_all add: history_ok_def stop_step_def close_cleanups_def Let_def\<close>)

lemma stop_step_keeps: "life_inv aft c \<Longrightarrow> life_inv aft (stop_step aft now panic run c)"
  using stop_step_threads [of c] stop_step_log [of aft c] stop_step_registry [of c] stop_step_history [of c]
  by (simp add: life_inv_def)

lemma life_reach_inv: "life_reach aft c \<Longrightarrow> life_inv aft c"
  by (induction rule: life_reach.induct)
    (simp_all add: life_inv_init start_step_keeps stop_step_keeps life_inv_set_state life_inv_register)

section \<open>What a stop guarantees\<close>

text \<open>
  Property C12. The stop transaction, under any interleaving with the start, with state changes and with
  registrations: when it is complete the server is stopped, not running and its context
  cancelled; the application functions were called in one fixed order (the start hooks; the
  before-stop hook if the start had succeeded; cancellation; every registered clean-up exactly
  once, in reverse order of registration; the after-stop hook); and each completion channel was
  closed exactly once.
\<close>

theorem stop_runs_everything_once:
  assumes "life_reach has_after c" "stop_at c = TDone"
  shows "state (srv c) = StateStopped \<and> \<not> isRunning (srv c) \<and> ctx_cancelled (srv c) \<and>
    startDone (srv c) = 1 \<and> stopDone (srv c) = 1 \<and> distinct (map fst (registered c)) \<and>
    (\<exists>starts. starts \<in> {[], [EvBeforeStart], [EvBeforeStart, EvAfterStart]} \<and>
      (startSucceeded (srv c) \<longrightarrow> starts = [EvBeforeStart, EvAfterStart]) \<and>
      life_log c = starts @ (if startSucceeded (srv c) then [EvBeforeStop] else []) @ [EvCancel] @
        map EvCleanup (rev (registered c)) @ (if has_after then [EvAfterStop] else []))"
proof -
  note parts = life_inv_parts [OF life_reach_inv [OF assms(1)]]
  have t: "state (srv c) = StateStopped" "\<not> isRunning (srv c)" "ctx_cancelled (srv c)" "startDone (srv c) = 1"
    "stopDone (srv c) = 1" "startSucceeded (srv c) \<longrightarrow> start_at c \<noteq> SIdle" "\<not> hooks_running (start_at c)"
    using parts(1) assms(2) unfolding thread_ok_def by auto
  obtain l1 where l: "start_log_ok (start_at c) (startSucceeded (srv c)) l1" "life_log c =
      l1 @ (if startSucceeded (srv c) then [EvBeforeStop] else []) @ [EvCancel] @
        map EvCleanup (rev (registered c)) @ (if has_after then [EvAfterStop] else [])"
    using parts(3) assms(2) by (auto simp: log_ok_def)
  have "l1 \<in> {[], [EvBeforeStart], [EvBeforeStart, EvAfterStart]} \<and>
      (startSucceeded (srv c) \<longrightarrow> l1 = [EvBeforeStart, EvAfterStart])"
    using l(1) t(6,7) by (cases "start_at c") (auto simp: hooks_running_def)
  with t l(2) parts(2) show ?thesis
    by (auto simp: reg_ok_def)
qed

definition stop_steps :: "nat \<Rightarrow> nat life_config \<Rightarrow> nat life_config" where
  "stop_steps n c = (stop_step True 0 None (\<lambda>_. Returns) ^^ n) c"

definition sample_life :: "nat life_config" where
  "sample_life = life_start\<lparr>srv := snd (RegisterCleanup ''db'' (Some 7) NewBaseServer), registered := [(''db'', 7)]\<rparr>"

lemma sample_name: "TrimSpace ''db'' = ''db''"
  by code_simp

lemmas life_eval = sample_life_def life_start_def stop_step_def RegisterCleanup_def sample_name
  NewBaseServer_def close_cleanups_def callCleanup_def callVoidHook_def SetState_def Let_def

lemma sample_life_reach: "life_reach True sample_life"
  using life_reach.register [OF life_reach.init, of "''db''" "Some (7 :: nat)" None _ True]
  by (simp add: life_eval)

lemma stop_steps_reach: "life_reach True (stop_steps n sample_life)"
  by (induction n) (simp_all add: stop_steps_def sample_life_reach life_reach.stop)

lemma stop_runs_everything_once_witness:
  "life_log (stop_steps 12 sample_life) = [EvCancel, EvCleanup (''db'', 7), EvAfterStop]"
proof -
  have "stop_at (stop_steps 12 sample_life) = TDone" "registered (stop_steps 12 sample_life) = [(''db'', 7)]"
    "\<not> startSucceeded (srv (stop_steps 12 sample_life))" "hd (life_log (stop_steps 12 sample_life)) = EvCancel"
    by (simp_all add: stop_steps_def life_eval numeral_eq_Suc)
  then show ?thesis
    using stop_runs_everything_once [OF stop_steps_reach, of 12] by auto
qed

section \<open>Refinement of the published state machine\<close>

text \<open>
  What the documentation of the states promises, independently of the table: a server that has
  left the starting phase never returns to it, draining is left only by stopping, and nothing
  follows a stop. \<open>phase\<close> numbers the phases.
\<close>

fun phase :: "ServerState \<Rightarrow> nat" where
  "phase StateStarting = 0"
| "phase StateInitializing = 1"
| "phase StateReady = 2"
| "phase StateHealthy = 2"
| "phase StateMaintenance = 2"
| "phase StateDraining = 3"
| "phase StateStopped = 4"
| "phase (StateOther r) = 5"

lemma phase_step: "CanTransitionTo a b \<Longrightarrow> phase a \<le> phase b \<and> (phase a = phase b \<longrightarrow> phase a = 2) \<and> phase b \<le> 4"
  by (cases a) auto

lemma phase_mono:
  assumes "\<And>i. i < length xs - 1 \<Longrightarrow> CanTransitionTo (xs ! i) (xs ! (i + 1))" "i \<le> j" "j < length xs"
  shows "phase (xs ! i) \<le> phase (xs ! j)"
  using assms(2,3)
proof (induction j rule: dec_induct)
  case (step n)
  have "phase (xs ! n) \<le> phase (xs ! (n + 1))"
    using phase_step assms(1) [of n] step.prems by simp
  then show ?case
    using step by simp
qed simp

text \<open>
  Whatever callers do, and however start and stop interleave, the states a server goes
  through begin with starting, follow the transition table, and pass the phases starting,
  initialising, serving (ready, healthy, maintenance), draining, stopped in this order; only the
  serving phase holds more than one state.
\<close>

theorem server_phases_monotone:
  assumes "life_reach has_after c" "i < j" "j < length (history (srv c))"
  shows "hd (history (srv c)) = StateStarting \<and> last (history (srv c)) = state (srv c) \<and>
    CanTransitionTo (history (srv c) ! i) (history (srv c) ! (i + 1)) \<and>
    phase (history (srv c) ! i) \<le> phase (history (srv c) ! j) \<and>
    (phase (history (srv c) ! i) = phase (history (srv c) ! j) \<longrightarrow> phase (history (srv c) ! i) = 2)"
proof -
  have h: "history_ok (srv c)"
    using life_reach_inv [OF assms(1)] by (simp add: life_inv_def)
  then have step: "CanTransitionTo (history (srv c) ! k) (history (srv c) ! (k + 1))" if "k < length (history (srv c)) - 1" for k
    using that by (simp add: history_ok_def)
  have i: "i < length (history (srv c)) - 1"
    using assms(2,3) by simp
  have "phase (history (srv c) ! (i + 1)) \<le> phase (history (srv c) ! j)"
    using phase_mono [OF step] assms(2,3) by simp
  with phase_step [OF step [OF i]] step [OF i] h show ?thesis
    by (auto simp: history_ok_def)
qed

lemma server_phases_monotone_witness:
  "phase StateStarting \<le> phase StateStopped \<and> history (srv (stop_steps 12 sample_life)) = [StateStarting, StateStopped]"
proof -
  have "history (srv (stop_steps 12 sample_life)) = [StateStarting, StateStopped]"
    by (simp add: stop_steps_def life_eval numeral_eq_Suc)
  with server_phases_monotone [OF stop_steps_reach [of 12], of 0 1] show ?thesis
    by simp
qed

end
