(* ===== verification/Services.thy ===== *)
theory Services
  imports Prelude "HOL-Library.Char_ord" "HOL-Library.List_Lexorder"
begin

text \<open>
  The service manager of \<^verbatim>\<open>zService\<close> (\<^verbatim>\<open>service_manager.go\<close>, \<^verbatim>\<open>Service.go\<close>, \<^verbatim>\<open>service_registry.go\<close>) with
  the object manager it embeds (\<^verbatim>\<open>zObject/ObjectManager.go\<close>): registration, the depth-first
  topological sort, start with rollback, and shutdown in reverse order. A service is represented
  by its identifier; the outcomes of its methods are arguments.
\<close>

section \<open>Identifiers and states\<close>

text \<open>
  An \<^verbatim>\<open>interface{}\<close> identifier: nil, a value of a type that Go cannot compare (its text), a string
  or a number. The text \<^verbatim>\<open>serviceIDKey\<close> formats for an identifier is the argument \<open>key\<close> below.
\<close>

datatype service_id = NilId | IncomparableId string | NamedId string | NumericId int

fun usable :: "service_id \<Rightarrow> bool" where
  "usable NilId = False"
| "usable (IncomparableId _) = False"
| "usable (NamedId _) = True"
| "usable (NumericId _) = True"

datatype ServiceState =
    ServiceStateUnknown
  | ServiceStateCreated
  | ServiceStateInit
  | ServiceStateRunning
  | ServiceStateStopping
  | ServiceStateStopped

datatype service_error =
    ServiceRequired
  | ServiceIdRequired
  | ServiceIdIncomparable service_id
  | ObjectExists
  | ObjectMissing
  | ErrServiceDependencyMissing service_id
  | ErrServiceDependsOnMissing service_id service_id
  | ErrServiceDependencyCycle service_id
  | InitFailed service_id string
  | CloseFailed service_id string

section \<open>The managers\<close>

text \<open>\<^verbatim>\<open>zMap.Map\<close>, the untyped map of zUtil, is the same parameter as its typed form.\<close>

definition AddObject :: "('m, 'k, 'v) tmap \<Rightarrow> 'k \<Rightarrow> 'v \<Rightarrow> 'm \<Rightarrow> service_error option \<times> 'm" where
  "AddObject T k v objects =
     (case tm_load T objects k of
        Some _ \<Rightarrow> (Some ObjectExists, objects)
      | None \<Rightarrow> (None, tm_store T objects k v))"

definition GetObject :: "('m, 'k, 'v) tmap \<Rightarrow> 'k \<Rightarrow> 'm \<Rightarrow> service_error + 'v" where
  "GetObject T k objects = (case tm_load T objects k of None \<Rightarrow> Inl ObjectMissing | Some v \<Rightarrow> Inr v)"

definition RemoveObject :: "('m, 'k, 'v) tmap \<Rightarrow> 'k \<Rightarrow> 'm \<Rightarrow> service_error option \<times> 'm" where
  "RemoveObject T k objects =
     (case tm_load T objects k of
        None \<Rightarrow> (Some ObjectMissing, objects)
      | Some _ \<Rightarrow> (None, tm_delete T objects k))"

definition GetAllObject :: "('m, 'k, 'v) tmap \<Rightarrow> 'm \<Rightarrow> 'v list" where
  "GetAllObject T objects = map snd (tm_range T objects)"

definition GetObjectsCount :: "('m, 'k, 'v) tmap \<Rightarrow> 'm \<Rightarrow> int" where
  "GetObjectsCount T objects = tm_len T objects"

text \<open>\<^verbatim>\<open>serviceInfos\<close>: identifiers with their dependencies, each identifier once.\<close>

type_synonym service_infos = "(service_id \<times> service_id list) list"

record 'm ServiceManager =
  objects :: 'm
  serviceInfos :: service_infos

definition NewServiceManager :: "('m, service_id, service_id) tmap \<Rightarrow> 'm ServiceManager" where
  "NewServiceManager T = \<lparr>objects = tm_new T, serviceInfos = []\<rparr>"

text \<open>\<open>None\<close> is a nil service.\<close>

definition AddService ::
    "('m, service_id, service_id) tmap \<Rightarrow> service_id option \<Rightarrow> service_id list \<Rightarrow> 'm ServiceManager \<Rightarrow> service_error option \<times> 'm ServiceManager" where
  "AddService T s deps sm =
     (case s of
        None \<Rightarrow> (Some ServiceRequired, sm)
      | Some sid \<Rightarrow>
          (if sid = NilId then (Some ServiceIdRequired, sm)
           else if \<not> usable sid then (Some (ServiceIdIncomparable sid), sm)
           else
             (case AddObject T sid sid (objects sm) of
                (Some err, objs) \<Rightarrow> (Some err, sm)
              | (None, objs) \<Rightarrow>
                  (None, sm\<lparr>objects := objs, serviceInfos := AList.update sid deps (serviceInfos sm)\<rparr>))))"

definition GetService :: "('m, service_id, service_id) tmap \<Rightarrow> service_id \<Rightarrow> 'm ServiceManager \<Rightarrow> service_error + service_id" where
  "GetService T sid sm = GetObject T sid (objects sm)"

definition ListServices :: "('m, service_id, service_id) tmap \<Rightarrow> 'm ServiceManager \<Rightarrow> service_id list" where
  "ListServices T sm = map snd (tm_range T (objects sm))"

section \<open>The topological sort\<close>

record sort_state =
  visited :: "service_id set"
  temp :: "service_id set"
  result :: "service_id list"

text \<open>
  The closure \<^verbatim>\<open>dfs\<close> and its loop over the sorted dependencies. The first argument bounds the
  depth of the recursion; \<open>None\<close> means that it was not enough.
\<close>

function (sequential) dfs ::
    "(service_id \<Rightarrow> string) \<Rightarrow> service_infos \<Rightarrow> nat \<Rightarrow> service_id \<Rightarrow> sort_state \<Rightarrow> (service_error + sort_state) option"
  and dfs_deps ::
    "(service_id \<Rightarrow> string) \<Rightarrow> service_infos \<Rightarrow> nat \<Rightarrow> service_id \<Rightarrow> service_id list \<Rightarrow> sort_state \<Rightarrow> (service_error + sort_state) option"
where
  "dfs key infos 0 sid s = None"
| "dfs key infos (Suc n) sid s =
     (if \<not> usable sid then Some (Inl (ErrServiceDependencyMissing sid))
      else if sid \<in> temp s then Some (Inl (ErrServiceDependencyCycle sid))
      else if sid \<in> visited s then Some (Inr s)
      else
        (let s = s\<lparr>temp := insert sid (temp s)\<rparr> in
         case map_of infos sid of
           None \<Rightarrow> Some (Inl (ErrServiceDependencyMissing sid))
         | Some deps \<Rightarrow>
             (case dfs_deps key infos n sid (sort_key key deps) s of
                None \<Rightarrow> None
              | Some (Inl err) \<Rightarrow> Some (Inl err)
              | Some (Inr s) \<Rightarrow>
                  Some (Inr (s\<lparr>result := result s @ [sid], temp := temp s - {sid}, visited := insert sid (visited s)\<rparr>)))))"
| "dfs_deps key infos n sid [] s = Some (Inr s)"
| "dfs_deps key infos n sid (d # ds) s =
     (if \<not> usable d then Some (Inl (ErrServiceDependsOnMissing sid d))
      else if map_of infos d = None then Some (Inl (ErrServiceDependsOnMissing sid d))
      else
        (case dfs key infos n d s of
           None \<Rightarrow> None
         | Some (Inl err) \<Rightarrow> Some (Inl err)
         | Some (Inr s) \<Rightarrow> dfs_deps key infos n sid ds s))"
  by pat_completeness auto

termination
  by (relation "measures [\<lambda>x. case x of Inl (key, infos, n, sid, s) \<Rightarrow> n | Inr (key, infos, n, sid, ds, s) \<Rightarrow> n,
      \<lambda>x. case x of Inl (key, infos, n, sid, s) \<Rightarrow> 0 | Inr (key, infos, n, sid, ds, s) \<Rightarrow> Suc (length ds)]") auto

fun visit_all ::
    "(service_id \<Rightarrow> string) \<Rightarrow> service_infos \<Rightarrow> nat \<Rightarrow> service_id list \<Rightarrow> sort_state \<Rightarrow> (service_error + sort_state) option" where
  "visit_all key infos n [] s = Some (Inr s)"
| "visit_all key infos n (sid # sids) s =
     (if sid \<notin> visited s
      then
        (case dfs key infos n sid s of
           None \<Rightarrow> None
         | Some (Inl err) \<Rightarrow> Some (Inl err)
         | Some (Inr s) \<Rightarrow> visit_all key infos n sids s)
      else visit_all key infos n sids s)"

text \<open>The bound on the depth: one more than the number of services.\<close>

definition topologicalSort :: "(service_id \<Rightarrow> string) \<Rightarrow> service_infos \<Rightarrow> (service_error + service_id list) option" where
  "topologicalSort key infos =
     (case visit_all key infos (Suc (length infos)) (sort_key key (map fst infos)) \<lparr>visited = {}, temp = {}, result = []\<rparr> of
        None \<Rightarrow> None
      | Some (Inl err) \<Rightarrow> Some (Inl err)
      | Some (Inr s) \<Rightarrow> Some (Inr (result s)))"

section \<open>Start and shutdown\<close>

text \<open>
  What the services' methods see: the states, and the calls that were made, oldest first. A call
  of \<^verbatim>\<open>Init\<close> or \<^verbatim>\<open>Close\<close> that panics counts as one that returns an error.
\<close>

datatype service_event = EvInit service_id | EvClose service_id | EvServe service_id

record service_world =
  svc_state :: "service_id \<Rightarrow> ServiceState"
  svc_log :: "service_event list"

definition set_svc_state :: "service_id \<Rightarrow> ServiceState \<Rightarrow> service_world \<Rightarrow> service_world" where
  "set_svc_state sid st w = w\<lparr>svc_state := (svc_state w)(sid := st)\<rparr>"

definition callServiceInit ::
    "(service_id \<Rightarrow> string option) \<Rightarrow> service_id \<Rightarrow> service_world \<Rightarrow> string option \<times> service_world" where
  "callServiceInit init sid w = (init sid, w\<lparr>svc_log := svc_log w @ [EvInit sid]\<rparr>)"

definition callServiceClose ::
    "(service_id \<Rightarrow> string option) \<Rightarrow> service_id \<Rightarrow> service_world \<Rightarrow> string option \<times> service_world" where
  "callServiceClose close sid w = (close sid, w\<lparr>svc_log := svc_log w @ [EvClose sid]\<rparr>)"

text \<open>The loop of \<^verbatim>\<open>closeServices\<close> over the services in the order in which it visits them.\<close>

fun close_loop ::
    "(service_id \<Rightarrow> string option) \<Rightarrow> service_id list \<Rightarrow> service_world \<Rightarrow> service_error list \<times> service_world" where
  "close_loop close [] w = ([], w)"
| "close_loop close (sid # sids) w =
     (if svc_state w sid \<in> {ServiceStateInit, ServiceStateRunning, ServiceStateStopping}
      then
        (case callServiceClose close sid (set_svc_state sid ServiceStateStopping w) of
           (err, w) \<Rightarrow>
             (case close_loop close sids (set_svc_state sid ServiceStateStopped w) of
                (errs, w) \<Rightarrow> ((case err of None \<Rightarrow> errs | Some e \<Rightarrow> CloseFailed sid e # errs), w)))
      else close_loop close sids w)"

definition closeServices ::
    "(service_id \<Rightarrow> string option) \<Rightarrow> service_id list \<Rightarrow> service_world \<Rightarrow> service_error list \<times> service_world" where
  "closeServices close services w = close_loop close (rev services) w"

fun init_loop ::
    "(service_id \<Rightarrow> string option) \<Rightarrow> (service_id \<Rightarrow> string option) \<Rightarrow> service_id list \<Rightarrow> service_id list \<Rightarrow> service_world \<Rightarrow> service_error list \<times> service_world" where
  "init_loop init close [] initialized w = ([], w)"
| "init_loop init close (sid # sids) initialized w =
     (if svc_state w sid = ServiceStateCreated
      then
        (case callServiceInit init sid (set_svc_state sid ServiceStateInit w) of
           (Some e, w) \<Rightarrow>
             (case closeServices close initialized (set_svc_state sid ServiceStateCreated w) of
                (errs, w) \<Rightarrow> (InitFailed sid e # errs, w))
         | (None, w) \<Rightarrow> init_loop init close sids (initialized @ [sid]) w)
      else init_loop init close sids initialized w)"

text \<open>The errors that are joined; the empty list is nil.\<close>

definition InitServices ::
    "(service_id \<Rightarrow> string) \<Rightarrow> (service_id \<Rightarrow> string option) \<Rightarrow> (service_id \<Rightarrow> string option) \<Rightarrow> service_infos \<Rightarrow> service_world \<Rightarrow> (service_error list \<times> service_world) option" where
  "InitServices key init close infos w =
     (case topologicalSort key infos of
        None \<Rightarrow> None
      | Some (Inl err) \<Rightarrow> Some ([err], w)
      | Some (Inr services) \<Rightarrow> Some (init_loop init close services [] w))"

definition CloseServices ::
    "(service_id \<Rightarrow> string) \<Rightarrow> (service_id \<Rightarrow> string option) \<Rightarrow> service_infos \<Rightarrow> service_world \<Rightarrow> (service_error list \<times> service_world) option" where
  "CloseServices key close infos w =
     (case topologicalSort key infos of
        None \<Rightarrow> None
      | Some (Inl err) \<Rightarrow> Some ([err], w)
      | Some (Inr services) \<Rightarrow> Some (closeServices close services w))"

text \<open>Each service's \<^verbatim>\<open>Serve\<close> runs in a goroutine of its own; the log records the start.\<close>

fun serve_loop :: "service_id list \<Rightarrow> service_world \<Rightarrow> service_world" where
  "serve_loop [] w = w"
| "serve_loop (sid # sids) w =
     (if svc_state w sid = ServiceStateInit
      then serve_loop sids ((set_svc_state sid ServiceStateRunning w)\<lparr>svc_log := svc_log w @ [EvServe sid]\<rparr>)
      else serve_loop sids w)"

definition ServeServicesChecked ::
    "(service_id \<Rightarrow> string) \<Rightarrow> service_infos \<Rightarrow> service_world \<Rightarrow> (service_error list \<times> service_world) option" where
  "ServeServicesChecked key infos w =
     (case topologicalSort key infos of
        None \<Rightarrow> None
      | Some (Inl err) \<Rightarrow> Some ([err], w)
      | Some (Inr services) \<Rightarrow> Some ([], serve_loop services w))"

text \<open>The end of a service's goroutine.\<close>

definition serve_finished :: "service_id \<Rightarrow> service_world \<Rightarrow> service_world" where
  "serve_finished sid w =
     (if svc_state w sid = ServiceStateRunning then set_svc_state sid ServiceStateStopped w else w)"

section \<open>The registry\<close>

text \<open>
  A factory is represented by what it makes: \<open>None\<close>, or the Go type name and the identifier of
  the service. The map is keyed by the type name.
\<close>

type_synonym service_factory = "(string \<times> service_id) option"

record ServiceRegistryInfo =
  Factory :: service_factory
  reg_Deps :: "service_id list"

definition RegisterServiceWithDeps ::
    "service_factory \<Rightarrow> service_id list \<Rightarrow> (string \<rightharpoonup> ServiceRegistryInfo) \<Rightarrow> (string \<rightharpoonup> ServiceRegistryInfo)" where
  "RegisterServiceWithDeps factory deps services =
     (case factory of
        None \<Rightarrow> services
      | Some (serviceName, serviceId) \<Rightarrow>
          (if serviceId = NilId then services
           else services(serviceName \<mapsto> \<lparr>Factory = factory, reg_Deps = deps\<rparr>)))"

text \<open>\<open>infos\<close> is the registry's map in the order in which Go visits it.\<close>

fun AutoRegisterServices ::
    "('m, service_id, service_id) tmap \<Rightarrow> (string \<times> ServiceRegistryInfo) list \<Rightarrow> 'm ServiceManager \<Rightarrow> 'm ServiceManager" where
  "AutoRegisterServices T [] manager = manager"
| "AutoRegisterServices T ((name, info) # rest) manager =
     (case Factory info of
        None \<Rightarrow> AutoRegisterServices T rest manager
      | Some (ty, sid) \<Rightarrow> AutoRegisterServices T rest (snd (AddService T (Some sid) (reg_Deps info) manager)))"

section \<open>The sort is a topological sort\<close>

text \<open>The dependency relation of the registered services.\<close>

definition deps_of :: "service_infos \<Rightarrow> service_id \<Rightarrow> service_id set" where
  "deps_of infos sid = (case map_of infos sid of None \<Rightarrow> {} | Some deps \<Rightarrow> set deps)"

definition depends :: "service_infos \<Rightarrow> (service_id \<times> service_id) set" where
  "depends infos = {(sid, d). d \<in> deps_of infos sid}"

definition registered :: "service_infos \<Rightarrow> service_id set" where
  "registered infos = fst ` set infos"

text \<open>Every service of the list stands after the ones it depends on.\<close>

definition deps_first :: "service_infos \<Rightarrow> service_id list \<Rightarrow> bool" where
  "deps_first infos xs \<longleftrightarrow> (\<forall>i < length xs. deps_of infos (xs ! i) \<subseteq> set (take i xs))"

lemma deps_first_snoc:
  "deps_first infos (xs @ [x]) \<longleftrightarrow> deps_first infos xs \<and> deps_of infos x \<subseteq> set xs"
  unfolding deps_first_def by (auto simp: less_Suc_eq nth_append)

lemma registered_iff: "sid \<in> registered infos \<longleftrightarrow> map_of infos sid \<noteq> None"
  by (simp add: registered_def map_of_eq_None_iff)

lemma finite_registered [simp]: "finite (registered infos)"
  by (simp add: registered_def)

definition sort_inv :: "service_infos \<Rightarrow> sort_state \<Rightarrow> bool" where
  "sort_inv infos s \<longleftrightarrow>
     temp s \<subseteq> registered infos \<and> temp s \<inter> visited s = {} \<and> distinct (result s) \<and>
     set (result s) = visited s \<and> visited s \<subseteq> registered infos \<and> deps_first infos (result s)"

text \<open>What a call of \<^verbatim>\<open>dfs\<close> that returns nil has done to the state.\<close>

definition sort_step :: "service_infos \<Rightarrow> sort_state \<Rightarrow> service_id set \<Rightarrow> sort_state \<Rightarrow> bool" where
  "sort_step infos s new s' \<longleftrightarrow>
     sort_inv infos s' \<and> temp s' = temp s \<and> visited s \<subseteq> visited s' \<and> new \<subseteq> visited s'"

lemma sort_step_trans:
  "sort_step infos s A s' \<Longrightarrow> sort_step infos s' B s'' \<Longrightarrow> sort_step infos s (A \<union> B) s''"
  unfolding sort_step_def by blast

lemma sort_inv_enter:
  "sort_inv infos s \<Longrightarrow> sid \<in> registered infos \<Longrightarrow> sid \<notin> visited s \<Longrightarrow>
     sort_inv infos (s\<lparr>temp := insert sid (temp s)\<rparr>)"
  by (simp add: sort_inv_def)

lemma sort_inv_leave:
  assumes "sort_step infos (s\<lparr>temp := insert sid (temp s)\<rparr>) (deps_of infos sid) s'" "sid \<notin> temp s"
  shows "sort_step infos s {sid}
           (s'\<lparr>result := result s' @ [sid], temp := temp s' - {sid}, visited := insert sid (visited s')\<rparr>)"
proof -
  have inv: "sort_inv infos s'" and t: "temp s' = insert sid (temp s)"
    and v: "visited s \<subseteq> visited s'" "deps_of infos sid \<subseteq> visited s'"
    using assms by (simp_all add: sort_step_def)
  then have "sid \<notin> visited s'" "sid \<in> registered infos" by (auto simp: sort_inv_def)
  then show ?thesis
    using inv t v assms(2) unfolding sort_step_def sort_inv_def by (auto simp: deps_first_snoc)
qed

lemma dfs_step:
  "dfs key infos n sid s = Some (Inr s') \<Longrightarrow> sort_inv infos s \<Longrightarrow> sort_step infos s {sid} s'"
  and "dfs_deps key infos n sid ds s = Some (Inr s') \<Longrightarrow> sort_inv infos s \<Longrightarrow> sort_step infos s (set ds) s'"
proof (induction key infos n sid s and key infos n sid ds s arbitrary: s' and s' rule: dfs_dfs_deps.induct)
  case (2 key infos n sid s)
  show ?case
  proof (cases "sid \<in> visited s")
    case True
    then show ?thesis using 2 by (auto simp: sort_step_def split: if_splits)
  next
    case False
    with 2 obtain deps s1 where
      "usable sid" "sid \<notin> temp s" and deps: "map_of infos sid = Some deps"
      and s1: "dfs_deps key infos n sid (sort_key key deps) (s\<lparr>temp := insert sid (temp s)\<rparr>) = Some (Inr s1)"
      and s': "s' = s1\<lparr>result := result s1 @ [sid], temp := temp s1 - {sid}, visited := insert sid (visited s1)\<rparr>"
      by (auto simp: Let_def split: if_splits option.splits sum.splits)
    moreover have "sort_step infos (s\<lparr>temp := insert sid (temp s)\<rparr>) (set (sort_key key deps)) s1"
      by (rule 2(1) [OF _ _ False refl deps s1])
         (use calculation 2(3) False in \<open>simp_all add: sort_inv_enter registered_iff\<close>)
    ultimately show ?thesis
      using sort_inv_leave [of infos sid s s1] by (simp add: deps_of_def)
  qed
next
  case (4 key infos n sid d ds s)
  then obtain s1 where "usable d" "map_of infos d \<noteq> None" and s1: "dfs key infos n d s = Some (Inr s1)"
    and s': "dfs_deps key infos n sid ds s1 = Some (Inr s')"
    by (auto split: if_splits option.splits sum.splits)
  then have d: "sort_step infos s {d} s1" using 4(1) [OF _ _ s1 4(4)] by simp
  then have "sort_step infos s1 (set ds) s'"
    using 4(2) [OF _ _ s1 refl s'] \<open>usable d\<close> \<open>map_of infos d \<noteq> None\<close> by (simp add: sort_step_def)
  with d show ?case using sort_step_trans [of infos s "{d}" s1 "set ds" s'] by simp
qed (auto simp: sort_step_def)

text \<open>
  Every nested call of \<^verbatim>\<open>dfs\<close> has marked one more registered service, so the depth never
  exceeds the number of services left unmarked.
\<close>

definition unmarked :: "service_infos \<Rightarrow> sort_state \<Rightarrow> nat" where
  "unmarked infos s = card (registered infos - temp s)"

lemma unmarked_enter:
  assumes "sid \<in> registered infos" "sid \<notin> temp s"
  shows "unmarked infos (s\<lparr>temp := insert sid (temp s)\<rparr>) < unmarked infos s"
  unfolding unmarked_def by (rule psubset_card_mono) (use assms in auto)

lemma dfs_fuel:
  "unmarked infos s < n \<Longrightarrow> sort_inv infos s \<Longrightarrow> dfs key infos n sid s \<noteq> None"
  and "unmarked infos s < n \<Longrightarrow> sort_inv infos s \<Longrightarrow> dfs_deps key infos n sid ds s \<noteq> None"
proof (induction key infos n sid s and key infos n sid ds s rule: dfs_dfs_deps.induct)
  case (2 key infos n sid s)
  show ?case
  proof (cases "usable sid \<and> sid \<notin> temp s \<and> sid \<notin> visited s \<and> sid \<in> registered infos")
    case True
    then obtain deps where deps: "map_of infos sid = Some deps" by (auto simp: registered_iff)
    have "dfs_deps key infos n sid (sort_key key deps) (s\<lparr>temp := insert sid (temp s)\<rparr>) \<noteq> None"
      by (rule 2(1) [OF _ _ _ refl deps])
         (use True 2(2,3) unmarked_enter [of sid infos s] in \<open>simp_all add: sort_inv_enter\<close>)
    with True deps show ?thesis by (auto simp: Let_def split: sum.splits)
  next
    case False
    then show ?thesis by (auto simp: Let_def registered_iff split: option.splits)
  qed
next
  case (4 key infos n sid d ds s)
  show ?case
  proof (cases "usable d \<and> map_of infos d \<noteq> None")
    case True
    then obtain r where r: "dfs key infos n d s = Some r" using 4(1,3,4) by auto
    show ?thesis
    proof (cases r)
      case (Inr s1)
      then have "sort_step infos s {d} s1" using r 4(4) dfs_step(1) by blast
      then have "unmarked infos s1 < n" "sort_inv infos s1"
        using 4(3) by (simp_all add: sort_step_def unmarked_def)
      then show ?thesis using 4(2) [OF _ _ r Inr] True r Inr by simp
    qed (use True r in simp)
  qed auto
qed auto

text \<open>
  While the depth-first search stands at a service, every marked service depends on it, directly
  or not: this is what makes a repeated mark a cycle.
\<close>

definition err_sound :: "service_infos \<Rightarrow> service_error \<Rightarrow> bool" where
  "err_sound infos err \<longleftrightarrow>
     (case err of
        ErrServiceDependencyCycle x \<Rightarrow> (x, x) \<in> (depends infos)\<^sup>+
      | ErrServiceDependsOnMissing sid d \<Rightarrow> (sid, d) \<in> depends infos \<and> (\<not> usable d \<or> d \<notin> registered infos)
      | ErrServiceDependencyMissing sid \<Rightarrow> sid \<in> registered infos \<and> \<not> usable sid
      | _ \<Rightarrow> False)"

lemma dependsI: "map_of infos sid = Some deps \<Longrightarrow> d \<in> set deps \<Longrightarrow> (sid, d) \<in> depends infos"
  by (simp add: depends_def deps_of_def)

lemma dfs_error:
  "dfs key infos n sid s = Some (Inl err) \<Longrightarrow> sort_inv infos s \<Longrightarrow>
     temp s \<times> {sid} \<subseteq> (depends infos)\<^sup>+ \<Longrightarrow> sid \<in> registered infos \<Longrightarrow> err_sound infos err"
  and "dfs_deps key infos n sid ds s = Some (Inl err) \<Longrightarrow> sort_inv infos s \<Longrightarrow>
     temp s \<times> {sid} \<subseteq> (depends infos)\<^sup>* \<Longrightarrow> set ds \<subseteq> deps_of infos sid \<Longrightarrow> err_sound infos err"
proof (induction key infos n sid s and key infos n sid ds s rule: dfs_dfs_deps.induct)
  case (2 key infos n sid s)
  show ?case
  proof (cases "usable sid \<and> sid \<notin> temp s \<and> sid \<notin> visited s \<and> sid \<in> registered infos")
    case True
    then obtain deps where deps: "map_of infos sid = Some deps" by (auto simp: registered_iff)
    with True 2(2) have e:
      "dfs_deps key infos n sid (sort_key key deps) (s\<lparr>temp := insert sid (temp s)\<rparr>) = Some (Inl err)"
      by (auto simp: Let_def split: option.splits sum.splits)
    show ?thesis
      by (rule 2(1) [OF _ _ _ refl deps e])
         (use True deps 2(3,4) in \<open>auto simp: sort_inv_enter deps_of_def intro: trancl_into_rtrancl\<close>)
  next
    case False
    then show ?thesis
      using 2(2,4,5) by (auto simp: Let_def err_sound_def registered_iff split: option.splits if_splits)
  qed
next
  case (4 key infos n sid d ds s)
  have d: "(sid, d) \<in> depends infos" using 4(6) by (simp add: depends_def)
  show ?case
  proof (cases "usable d \<and> map_of infos d \<noteq> None")
    case True
    with 4(3) consider "dfs key infos n d s = Some (Inl err)"
      | s1 where "dfs key infos n d s = Some (Inr s1)" "dfs_deps key infos n sid ds s1 = Some (Inl err)"
      by (auto split: option.splits sum.splits)
    then show ?thesis
    proof cases
      case 1
      have "temp s \<times> {d} \<subseteq> (depends infos)\<^sup>+" using 4(5) d by (auto intro: rtrancl_into_trancl1)
      then show ?thesis using 4(1) [OF _ _ 1 4(4)] True by (simp add: registered_iff)
    next
      case 2
      then have "sort_step infos s {d} s1" using 4(4) dfs_step(1) by blast
      then show ?thesis using 4(2) [OF _ _ 2(1) refl 2(2)] 4(5,6) True by (simp add: sort_step_def)
    qed
  next
    case False
    then show ?thesis using 4(3) d by (auto simp: err_sound_def registered_iff split: if_splits)
  qed
qed auto

lemma visit_all_step:
  "visit_all key infos n sids s = Some (Inr s') \<Longrightarrow> sort_inv infos s \<Longrightarrow> sort_step infos s (set sids) s'"
proof (induction sids arbitrary: s)
  case (Cons sid sids)
  show ?case
  proof (cases "sid \<in> visited s")
    case True
    then show ?thesis using Cons.IH [of s] Cons.prems by (auto simp: sort_step_def)
  next
    case False
    then obtain s1 where "dfs key infos n sid s = Some (Inr s1)" and r: "visit_all key infos n sids s1 = Some (Inr s')"
      using Cons.prems(1) by (auto split: option.splits sum.splits)
    then have "sort_step infos s {sid} s1" using dfs_step(1) Cons.prems(2) by blast
    with Cons.IH [OF r] show ?thesis
      using sort_step_trans [of infos s "{sid}" s1 "set sids" s'] by (simp add: sort_step_def)
  qed
qed (simp add: sort_step_def)

lemma visit_all_fuel:
  "length infos < n \<Longrightarrow> sort_inv infos s \<Longrightarrow> visit_all key infos n sids s \<noteq> None"
proof (induction sids arbitrary: s)
  case (Cons sid sids)
  have "unmarked infos s \<le> card (registered infos)" by (auto simp: unmarked_def intro: card_mono)
  also have "\<dots> \<le> length infos" by (metis registered_def card_length length_map list.set_map)
  finally have "unmarked infos s < n" using Cons.prems(1) by simp
  then obtain r where r: "dfs key infos n sid s = Some r" using dfs_fuel(1) Cons.prems(2) by blast
  show ?case
  proof (cases r)
    case (Inr s1)
    then have "sort_inv infos s1" using r dfs_step(1) Cons.prems(2) unfolding sort_step_def by blast
    with r Inr show ?thesis using Cons.IH Cons.prems by simp
  qed (use r Cons.IH [of s] Cons.prems in simp)
qed simp

lemma visit_all_error:
  "visit_all key infos n sids s = Some (Inl err) \<Longrightarrow> sort_inv infos s \<Longrightarrow> temp s = {} \<Longrightarrow>
     set sids \<subseteq> registered infos \<Longrightarrow> err_sound infos err"
proof (induction sids arbitrary: s)
  case (Cons sid sids)
  consider "visit_all key infos n sids s = Some (Inl err)" | "dfs key infos n sid s = Some (Inl err)"
    | s1 where "dfs key infos n sid s = Some (Inr s1)" "visit_all key infos n sids s1 = Some (Inl err)"
    using Cons.prems(1) by (auto split: option.splits sum.splits if_splits)
  then show ?case
  proof cases
    case 3
    then have "sort_step infos s {sid} s1" using dfs_step(1) Cons.prems(2) by blast
    then show ?thesis using Cons.IH [OF 3(2)] Cons.prems(3,4) by (simp add: sort_step_def)
  qed (use Cons dfs_error(1) in \<open>auto\<close>)
qed simp

abbreviation empty_sort :: sort_state where
  "empty_sort \<equiv> \<lparr>visited = {}, temp = {}, result = []\<rparr>"

lemma sort_inv_empty [simp]: "sort_inv infos empty_sort"
  by (simp add: sort_inv_def deps_first_def)

lemma sort_total: "topologicalSort key infos \<noteq> None"
  using visit_all_fuel [of infos "Suc (length infos)" empty_sort key "sort_key key (map fst infos)"]
  by (auto simp: topologicalSort_def split: option.splits sum.splits)

lemma sort_success:
  assumes "topologicalSort key infos = Some (Inr services)"
  shows "distinct services" "set services = registered infos" "deps_first infos services"
proof -
  obtain s where s: "visit_all key infos (Suc (length infos)) (sort_key key (map fst infos)) empty_sort = Some (Inr s)"
      and r: "services = result s"
    using assms by (auto simp: topologicalSort_def split: option.splits sum.splits)
  have "sort_step infos empty_sort (registered infos) s"
    using visit_all_step [OF s] by (simp add: registered_def)
  then show "distinct services" "set services = registered infos" "deps_first infos services"
    unfolding sort_step_def sort_inv_def r by auto
qed

lemma sort_failure: "topologicalSort key infos = Some (Inl err) \<Longrightarrow> err_sound infos err"
  using visit_all_error [of key infos "Suc (length infos)" "sort_key key (map fst infos)" empty_sort err]
  by (auto simp: topologicalSort_def registered_def split: option.splits sum.splits)

text \<open>A list in which every element follows its dependencies excludes a cycle among them.\<close>

lemma deps_first_trancl:
  assumes "(x, y) \<in> (depends infos)\<^sup>+" "deps_first infos xs"
  shows "i < length xs \<Longrightarrow> xs ! i = x \<Longrightarrow> y \<in> set (take i xs)"
  using assms(1)
proof (induction arbitrary: rule: trancl_induct)
  case (base y)
  then show ?case using assms(2) by (auto simp: deps_first_def depends_def)
next
  case (step y z)
  then obtain j where j: "j < i" "j < length xs" "xs ! j = y" by (auto simp: in_set_conv_nth)
  have "(xs ! j, z) \<in> depends infos" using step(2) j(3) by simp
  then have "z \<in> set (take j xs)" using j(2) assms(2) by (auto simp: deps_first_def depends_def)
  then show ?case using j set_take_subset_set_take [of j i xs] by auto
qed

lemma deps_first_acyclic:
  assumes "deps_first infos xs" "distinct xs" "set xs = registered infos"
  shows "acyclic (depends infos)"
proof (rule acyclicI, rule allI, rule notI)
  fix x assume c: "(x, x) \<in> (depends infos)\<^sup>+"
  then obtain d where "(x, d) \<in> depends infos" by (meson tranclD)
  then have "x \<in> registered infos" by (auto simp: depends_def deps_of_def registered_iff split: option.splits)
  then obtain i where i: "i < length xs" "xs ! i = x" using assms(3) by (metis in_set_conv_nth)
  then have "x \<in> set (take i xs)" using deps_first_trancl [OF c assms(1)] by blast
  then obtain j where "j < i" "xs ! j = x" by (auto simp: in_set_conv_nth)
  then show False using i assms(2) nth_eq_iff_index_eq [of xs i j] by simp
qed

text \<open>The services can be ordered: every dependency is registered, and no service needs itself.\<close>

definition orderable :: "service_infos \<Rightarrow> bool" where
  "orderable infos \<longleftrightarrow> snd ` depends infos \<subseteq> registered infos \<and> acyclic (depends infos)"

lemma sort_success_iff:
  assumes "\<forall>sid \<in> registered infos. usable sid"
  shows "(\<exists>services. topologicalSort key infos = Some (Inr services)) \<longleftrightarrow> orderable infos"
proof
  assume "\<exists>services. topologicalSort key infos = Some (Inr services)"
  then obtain services where s: "topologicalSort key infos = Some (Inr services)" by blast
  have "d \<in> registered infos" if "(x, d) \<in> depends infos" for x d
  proof -
    have "x \<in> registered infos"
      using that by (auto simp: depends_def deps_of_def registered_iff split: option.splits)
    then obtain i where "i < length services" "services ! i = x" using sort_success(2) [OF s] by (metis in_set_conv_nth)
    then have "d \<in> set (take i services)" using sort_success(3) [OF s] that by (auto simp: deps_first_def depends_def)
    then show ?thesis using sort_success(2) [OF s] by (auto dest: in_set_takeD)
  qed
  then show "orderable infos"
    using deps_first_acyclic [OF sort_success(3,1,2) [OF s]] by (auto simp: orderable_def)
next
  assume o: "orderable infos"
  obtain r where r: "topologicalSort key infos = Some r" using sort_total by blast
  show "\<exists>services. topologicalSort key infos = Some (Inr services)"
  proof (cases r)
    case (Inl err)
    then have "err_sound infos err" using r sort_failure by blast
    then show ?thesis using o assms
      by (cases err) (auto simp: err_sound_def orderable_def acyclic_def)
  qed (use r in auto)
qed

section \<open>Start rolls back, shutdown is in reverse\<close>

definition closable :: "service_world \<Rightarrow> service_id \<Rightarrow> bool" where
  "closable w sid \<longleftrightarrow> svc_state w sid \<in> {ServiceStateInit, ServiceStateRunning, ServiceStateStopping}"

definition startable :: "service_world \<Rightarrow> service_id \<Rightarrow> bool" where
  "startable w sid \<longleftrightarrow> svc_state w sid = ServiceStateCreated"

text \<open>The error that \<^verbatim>\<open>Close\<close> leaves in the joined error, if any.\<close>

definition close_errors :: "(service_id \<Rightarrow> string option) \<Rightarrow> service_id list \<Rightarrow> service_error list" where
  "close_errors close sids = concat (map (\<lambda>sid. case close sid of None \<Rightarrow> [] | Some e \<Rightarrow> [CloseFailed sid e]) sids)"

definition override_states :: "service_id set \<Rightarrow> ServiceState \<Rightarrow> service_world \<Rightarrow> service_id \<Rightarrow> ServiceState" where
  "override_states A st w sid = (if sid \<in> A then st else svc_state w sid)"

lemma svc_sel [simp]:
  "svc_state (set_svc_state sid st w) = (svc_state w)(sid := st)"
  "svc_log (set_svc_state sid st w) = svc_log w"
  "callServiceClose close sid w = (close sid, w\<lparr>svc_log := svc_log w @ [EvClose sid]\<rparr>)"
  "callServiceInit init sid w = (init sid, w\<lparr>svc_log := svc_log w @ [EvInit sid]\<rparr>)"
  by (simp_all add: set_svc_state_def callServiceClose_def callServiceInit_def)

lemma set_set_svc [simp]: "set_svc_state sid st (w\<lparr>svc_log := l\<rparr>) = (set_svc_state sid st w)\<lparr>svc_log := l\<rparr>"
  by (simp add: set_svc_state_def)

lemma override_none [simp]: "override_states {} st w = svc_state w"
  by (simp add: fun_eq_iff override_states_def)

lemma close_loop_exact:
  "distinct sids \<Longrightarrow>
     close_loop close sids w =
       (close_errors close (filter (closable w) sids),
        \<lparr>svc_state = override_states {sid \<in> set sids. closable w sid} ServiceStateStopped w,
         svc_log = svc_log w @ map EvClose (filter (closable w) sids)\<rparr>)"
proof (induction sids arbitrary: w)
  case Nil
  then show ?case by (simp add: close_errors_def)
next
  case (Cons sid sids)
  define v where "v = set_svc_state sid ServiceStateStopped ((set_svc_state sid ServiceStateStopping w)
    \<lparr>svc_log := svc_log w @ [EvClose sid]\<rparr>)"
  have same: "filter (closable v) sids = filter (closable w) sids"
    by (rule filter_cong [OF refl]) (use Cons.prems in \<open>auto simp: v_def closable_def\<close>)
  have st: "override_states {x \<in> set sids. closable v x} ServiceStateStopped v =
      override_states {x \<in> set (sid # sids). closable w x} ServiceStateStopped w" if "closable w sid"
    using Cons.prems that by (auto simp: fun_eq_iff override_states_def closable_def v_def)
  show ?case
  proof (cases "closable w sid")
    case True
    then have "close_loop close (sid # sids) w =
        (case close_loop close sids v of
           (errs, w) \<Rightarrow> ((case close sid of None \<Rightarrow> errs | Some e \<Rightarrow> CloseFailed sid e # errs), w))"
      by (simp add: v_def closable_def)
    moreover have "svc_log v = svc_log w @ [EvClose sid]" by (simp add: v_def)
    moreover have "close_loop close sids v =
        (close_errors close (filter (closable w) sids),
         \<lparr>svc_state = override_states {x \<in> set (sid # sids). closable w x} ServiceStateStopped w,
          svc_log = svc_log v @ map EvClose (filter (closable w) sids)\<rparr>)"
      unfolding same [symmetric] st [OF True, symmetric] by (rule Cons.IH) (use Cons.prems in simp)
    ultimately show ?thesis
      using True by (simp add: close_errors_def split: option.splits)
  next
    case False
    have "override_states {x \<in> set sids. closable w x} ServiceStateStopped w =
      override_states {x \<in> set (sid # sids). closable w x} ServiceStateStopped w"
      using False by (auto simp: fun_eq_iff override_states_def)
    then show ?thesis using False Cons by (simp add: closable_def)
  qed
qed

text \<open>
  The loop of \<^verbatim>\<open>InitServices\<close> over the rest of the order, after \<open>done\<close> have been initialised:
  the services that are still to start, up to the first that fails.
\<close>

definition init_outcome ::
    "(service_id \<Rightarrow> string option) \<Rightarrow> (service_id \<Rightarrow> string option) \<Rightarrow> service_id list \<Rightarrow> service_id list \<Rightarrow> service_world \<Rightarrow> service_error list \<times> service_world" where
  "init_outcome init close sids before w =
     (let todo = filter (startable w) sids; ok = takeWhile (\<lambda>s. init s = None) todo in
      if ok = todo
      then ([], \<lparr>svc_state = override_states (set todo) ServiceStateInit w, svc_log = svc_log w @ map EvInit todo\<rparr>)
      else
        (let x = todo ! length ok in
         (InitFailed x (the (init x)) # close_errors close (rev (before @ ok)),
          \<lparr>svc_state = override_states (set (before @ ok)) ServiceStateStopped w,
           svc_log = svc_log w @ map EvInit (ok @ [x]) @ map EvClose (rev (before @ ok))\<rparr>)))"

lemma init_loop_exact:
  "distinct (before @ sids) \<Longrightarrow> \<forall>s \<in> set before. svc_state w s = ServiceStateInit \<Longrightarrow>
     init_loop init close sids before w = init_outcome init close sids before w"
proof (induction sids arbitrary: before w)
  case Nil
  then show ?case by (simp add: init_outcome_def)
next
  case (Cons sid sids)
  show ?case
  proof (cases "startable w sid")
    case False
    then show ?thesis using Cons by (simp add: init_outcome_def startable_def)
  next
    case True
    define v where "v = (set_svc_state sid ServiceStateInit w)\<lparr>svc_log := svc_log w @ [EvInit sid]\<rparr>"
    have same: "filter (startable v) sids = filter (startable w) sids"
      by (rule filter_cong [OF refl]) (use Cons.prems(1) in \<open>auto simp: v_def startable_def\<close>)
    have vs: "svc_log v = svc_log w @ [EvInit sid]"
        "override_states A ServiceStateInit v = override_states (insert sid A) ServiceStateInit w"
        "override_states (insert sid A) st v = override_states (insert sid A) st w" for A st
      by (auto simp: v_def override_states_def fun_eq_iff)
    show ?thesis
    proof (cases "init sid")
      case None
      have "init_loop init close sids (before @ [sid]) v = init_outcome init close sids (before @ [sid]) v"
        by (rule Cons.IH) (use Cons.prems in \<open>auto simp: v_def\<close>)
      moreover have "init_outcome init close sids (before @ [sid]) v = init_outcome init close (sid # sids) before w"
        using None True vs by (simp add: init_outcome_def same Let_def)
      moreover have "init_loop init close (sid # sids) before w = init_loop init close sids (before @ [sid]) v"
        using True None by (simp add: startable_def v_def)
      ultimately show ?thesis by simp
    next
      case (Some e)
      define u where "u = set_svc_state sid ServiceStateCreated v"
      have c: "\<forall>x \<in> set before. closable u x" using Cons.prems by (auto simp: u_def v_def closable_def)
      then have f: "filter (closable u) (rev before) = rev before" "{x \<in> set before. closable u x} = set before" by auto
      have "closeServices close before u =
          (close_errors close (rev before),
           \<lparr>svc_state = override_states (set before) ServiceStateStopped u, svc_log = svc_log u @ map EvClose (rev before)\<rparr>)"
        using Cons.prems(1) close_loop_exact [of "rev before" close u] f by (simp add: closeServices_def)
      moreover have "init_loop init close (sid # sids) before w =
          (case closeServices close before u of (errs, w) \<Rightarrow> (InitFailed sid e # errs, w))"
        using True Some by (simp add: startable_def u_def v_def)
      moreover have "override_states (set before) ServiceStateStopped u = override_states (set before) ServiceStateStopped w"
        using True by (auto simp: fun_eq_iff override_states_def u_def v_def startable_def)
      ultimately show ?thesis
        using True Some by (simp add: init_outcome_def u_def v_def)
    qed
  qed
qed

section \<open>Properties\<close>

text \<open>Every identifier under which the manager keeps dependencies is usable and has an object.\<close>

definition manager_inv :: "('m, service_id, service_id) tmap \<Rightarrow> 'm ServiceManager \<Rightarrow> bool" where
  "manager_inv T sm \<longleftrightarrow>
     registered (serviceInfos sm) = dom (tm_load T (objects sm)) \<and>
     (\<forall>sid \<in> registered (serviceInfos sm). usable sid) \<and> distinct (map fst (serviceInfos sm))"

lemma manager_inv_new: "tm_laws T \<Longrightarrow> manager_inv T (NewServiceManager T)"
  by (simp add: manager_inv_def NewServiceManager_def registered_def typed_map.load_new typed_map.intro)

lemma manager_inv_add:
  assumes "tm_laws T" "manager_inv T sm"
  shows "manager_inv T (snd (AddService T s deps sm))"
proof -
  have st: "tm_load T (tm_store T m k v) = (tm_load T m)(k \<mapsto> v)" for m k v
    by (rule typed_map.load_store [OF typed_map.intro [OF assms(1)]])
  have reg: "registered (AList.update k d infos) = insert k (registered infos)" for k d infos
    using dom_update [of k d infos] by (simp add: registered_def)
  show ?thesis
    using assms(2)
    by (auto simp: manager_inv_def AddService_def AddObject_def reg st distinct_update split: option.splits)
qed

definition add_services ::
    "('m, service_id, service_id) tmap \<Rightarrow> (service_id option \<times> service_id list) list \<Rightarrow> 'm ServiceManager" where
  "add_services T calls = fold (\<lambda>(s, deps) sm. snd (AddService T s deps sm)) calls (NewServiceManager T)"

lemma manager_inv_add_services:
  assumes "tm_laws T"
  shows "manager_inv T (add_services T calls)"
proof -
  have "manager_inv T (fold (\<lambda>(s, deps) sm. snd (AddService T s deps sm)) calls sm)" if "manager_inv T sm" for sm
    using that by (induction calls arbitrary: sm) (auto simp: manager_inv_add [OF assms])
  then show ?thesis by (simp add: add_services_def manager_inv_new [OF assms])
qed

text \<open>
  \<^verbatim>\<open>topologicalSort\<close> always returns: the recursion of \<^verbatim>\<open>dfs\<close> is never deeper than
  the number of registered services plus one, whatever the dependencies are.
\<close>

theorem topological_sort_terminates: "\<exists>r. topologicalSort key infos = Some r"
  using sort_total by blast

text \<open>
  Property C13. For a manager filled by any sequence of \<^verbatim>\<open>AddService\<close> calls, the sort succeeds
  exactly when every dependency is registered and the dependencies have no cycle. On success it
  returns every registered service once, each after all it depends on; on failure the error is
  true: the service of a cycle error reaches itself, the dependency of a missing error is absent.
\<close>

theorem topological_sort_exact:
  assumes "tm_laws T" and sm: "sm = add_services T calls"
  shows "(case topologicalSort key (serviceInfos sm) of
            None \<Rightarrow> False
          | Some (Inl err) \<Rightarrow> \<not> orderable (serviceInfos sm) \<and> err_sound (serviceInfos sm) err
          | Some (Inr services) \<Rightarrow>
              orderable (serviceInfos sm) \<and> distinct services \<and>
              set services = dom (tm_load T (objects sm)) \<and> deps_first (serviceInfos sm) services)"
proof -
  have inv: "manager_inv T sm" using manager_inv_add_services assms by blast
  then have u: "\<forall>sid \<in> registered (serviceInfos sm). usable sid" by (simp add: manager_inv_def)
  obtain r where r: "topologicalSort key (serviceInfos sm) = Some r" using sort_total by blast
  show ?thesis
  proof (cases r)
    case (Inl err)
    then show ?thesis using r sort_failure sort_success_iff [OF u, of key] by auto
  next
    case (Inr services)
    then show ?thesis
      using r sort_success [of key "serviceInfos sm" services] sort_success_iff [OF u, of key] inv
      by (auto simp: manager_inv_def)
  qed
qed

definition sample_calls :: "(service_id option \<times> service_id list) list" where
  "sample_calls = [(Some (NamedId ''game''), [NamedId ''db'', NamedId ''net'']),
     (Some (NamedId ''net''), [NamedId ''db'']), (Some (NamedId ''db''), []), (None, []), (Some (NamedId ''db''), [NamedId ''game''])]"

definition sample_key :: "service_id \<Rightarrow> string" where
  "sample_key sid = (case sid of NamedId n \<Rightarrow> n | _ \<Rightarrow> [])"

definition sample_infos :: service_infos where
  "sample_infos = serviceInfos (add_services alist_tm sample_calls)"

lemma sample_sort:
  "topologicalSort sample_key sample_infos = Some (Inr [NamedId ''db'', NamedId ''net'', NamedId ''game''])"
  by code_simp

theorem topological_sort_exact_witness:
  "deps_first sample_infos [NamedId ''db'', NamedId ''net'', NamedId ''game''] \<and> orderable sample_infos"
  using topological_sort_exact [OF alist_tm_laws refl, of sample_calls sample_key]
  by (simp add: sample_sort flip: sample_infos_def)

text \<open>
  Property C14. \<^verbatim>\<open>InitServices\<close> is all or nothing. Let \<open>todo\<close> be the created services in dependency
  order. If none fails, exactly they are initialised, in that order. If one fails, the ones
  before it are closed in reverse order and end stopped, the failing one is created again, no
  later service is touched, and the failure comes first in the joined error.
\<close>

theorem init_services_all_or_rollback:
  assumes "topologicalSort key infos = Some (Inr services)"
    and "todo = filter (startable w) services" and "ok = takeWhile (\<lambda>s. init s = None) todo"
    and "InitServices key init close infos w = Some (errs, w')"
  shows "if ok = todo
         then errs = [] \<and> svc_log w' = svc_log w @ map EvInit todo \<and>
              svc_state w' = override_states (set todo) ServiceStateInit w
         else (\<exists>x e. length ok < length todo \<and> x = todo ! length ok \<and> init x = Some e \<and>
              errs = InitFailed x e # close_errors close (rev ok) \<and>
              svc_log w' = svc_log w @ map EvInit ok @ [EvInit x] @ map EvClose (rev ok) \<and>
              svc_state w' = override_states (set ok) ServiceStateStopped w \<and>
              svc_state w' x = ServiceStateCreated)"
proof -
  have d: "distinct services" using sort_success(1) [OF assms(1)] .
  have r: "init_outcome init close services [] w = (errs, w')"
    using assms(1,4) init_loop_exact [of "[]" services w init close] d by (simp add: InitServices_def)
  show ?thesis
  proof (cases "ok = todo")
    case True
    then show ?thesis using r assms(2,3) by (auto simp: init_outcome_def Let_def)
  next
    case False
    then have l: "length ok < length todo"
      using assms(3) by (metis length_takeWhile_le linorder_le_less_linear order.antisym take_all takeWhile_eq_take)
    define x where "x = todo ! length ok"
    have "init x \<noteq> None" using l nth_length_takeWhile [of "\<lambda>s. init s = None" todo] by (simp add: x_def assms(3))
    then obtain e where e: "init x = Some e" by blast
    have "x \<in> set todo" using l by (simp add: x_def)
    then have "svc_state w x = ServiceStateCreated" by (simp add: assms(2) startable_def)
    moreover have "x \<notin> set ok" using e assms(3) by (auto dest: set_takeWhileD)
    ultimately have "override_states (set ok) ServiceStateStopped w x = ServiceStateCreated"
      by (simp add: override_states_def)
    then show ?thesis
      using r False l e unfolding init_outcome_def Let_def assms(2,3) [symmetric] x_def by auto
  qed
qed

definition sample_world :: service_world where
  "sample_world = \<lparr>svc_state = (\<lambda>_. ServiceStateCreated), svc_log = []\<rparr>"

definition sample_init :: "service_id \<Rightarrow> string option" where
  "sample_init sid = (if sid = NamedId ''game'' then Some ''boom'' else None)"

lemma sample_todo:
  "filter (startable sample_world) [NamedId ''db'', NamedId ''net'', NamedId ''game''] =
     [NamedId ''db'', NamedId ''net'', NamedId ''game'']"
  "takeWhile (\<lambda>s. sample_init s = None) [NamedId ''db'', NamedId ''net'', NamedId ''game''] = [NamedId ''db'', NamedId ''net'']"
  by code_simp+

theorem init_services_all_or_rollback_witness:
  "\<exists>errs w'. InitServices sample_key sample_init (\<lambda>_. None) sample_infos sample_world = Some (errs, w') \<and>
     svc_log w' = [EvInit (NamedId ''db''), EvInit (NamedId ''net''), EvInit (NamedId ''game''),
       EvClose (NamedId ''net''), EvClose (NamedId ''db'')]"
proof -
  obtain errs w' where r: "InitServices sample_key sample_init (\<lambda>_. None) sample_infos sample_world = Some (errs, w')"
    by (cases "InitServices sample_key sample_init (\<lambda>_. None) sample_infos sample_world")
       (auto simp: InitServices_def sample_sort)
  from init_services_all_or_rollback [OF sample_sort sample_todo(1) [symmetric] sample_todo(2) [symmetric] r] r
  show ?thesis by (auto simp: sample_world_def)
qed

text \<open>A later service of the order is never a dependency of an earlier one.\<close>

lemma deps_first_sorted_wrt:
  assumes "deps_first infos xs" "distinct xs"
  shows "sorted_wrt (\<lambda>x y. y \<notin> deps_of infos x) xs"
  unfolding sorted_wrt_iff_nth_less
proof (intro allI impI notI)
  fix i j assume ij: "i < j" "j < length xs" and "xs ! j \<in> deps_of infos (xs ! i)"
  then have "xs ! j \<in> set (take i xs)" using assms(1) unfolding deps_first_def by (meson order.strict_trans subsetD)
  then obtain k where "k < i" "xs ! k = xs ! j" by (auto simp: in_set_conv_nth)
  then show False using ij assms(2) nth_eq_iff_index_eq [of xs k j] by simp
qed

text \<open>
  \<^verbatim>\<open>CloseServices\<close> closes every service that is initialised, running or stopping,
  each once, and no service before one that depends on it; each ends stopped even when a
  \<^verbatim>\<open>Close\<close> fails, and the errors of all of them are reported.
\<close>

theorem close_services_dependents_first:
  assumes "topologicalSort key infos = Some (Inr services)"
    and "CloseServices key close infos w = Some (errs, w')"
  shows "\<exists>closed. svc_log w' = svc_log w @ map EvClose closed \<and> distinct closed \<and>
           set closed = {sid \<in> registered infos. closable w sid} \<and>
           sorted_wrt (\<lambda>x y. x \<notin> deps_of infos y) closed \<and>
           svc_state w' = override_states (set closed) ServiceStateStopped w \<and> errs = close_errors close closed"
proof -
  note s = sort_success [OF assms(1)]
  let ?closed = "filter (closable w) (rev services)"
  have "close_loop close (rev services) w = (errs, w')"
    using assms by (simp add: CloseServices_def closeServices_def)
  then have r: "errs = close_errors close ?closed" "svc_log w' = svc_log w @ map EvClose ?closed"
      "svc_state w' = override_states (set ?closed) ServiceStateStopped w"
    using close_loop_exact [of "rev services" close w] s(1) by auto
  have "sorted_wrt (\<lambda>x y. x \<notin> deps_of infos y) ?closed"
    using deps_first_sorted_wrt [OF s(3,1)] by (simp add: sorted_wrt_rev sorted_wrt_filter)
  then show ?thesis using r s by (intro exI [of _ ?closed]) auto
qed

definition sample_running :: service_world where
  "sample_running = \<lparr>svc_state = (\<lambda>_. ServiceStateRunning), svc_log = []\<rparr>"

theorem close_services_dependents_first_witness:
  "\<exists>errs w' closed. CloseServices sample_key (\<lambda>_. Some ''busy'') sample_infos sample_running = Some (errs, w') \<and>
     svc_log w' = map EvClose closed \<and> distinct closed \<and> errs = close_errors (\<lambda>_. Some ''busy'') closed"
proof -
  obtain errs w' where r: "CloseServices sample_key (\<lambda>_. Some ''busy'') sample_infos sample_running = Some (errs, w')"
    by (cases "CloseServices sample_key (\<lambda>_. Some ''busy'') sample_infos sample_running")
       (auto simp: CloseServices_def sample_sort)
  from close_services_dependents_first [OF sample_sort r] r show ?thesis by (auto simp: sample_running_def)
qed

end
