(* ===== verification/Float64.thy ===== *)
theory Float64
  imports Complex_Main Prelude
begin

text \<open>
  The part of Go's \<^verbatim>\<open>float64\<close> that the grid and the scripts use: IEEE 754 binary64 values, comparison,
  arithmetic rounded to the nearest value (ties to even), \<^verbatim>\<open>math.Ceil\<close> and the conversion to
  an integer. A finite value is the rational it denotes; the sign of zero is not represented,
  because the code never divides by zero and never inspects the sign.
\<close>

section \<open>Values and comparison\<close>

datatype float64 = NaN | PosInf | NegInf | Fin rat

fun flt :: "float64 \<Rightarrow> float64 \<Rightarrow> bool" where
  "flt (Fin a) (Fin b) = (a < b)"
| "flt (Fin a) PosInf = True"
| "flt NegInf (Fin b) = True"
| "flt NegInf PosInf = True"
| "flt _ _ = False"

fun fle :: "float64 \<Rightarrow> float64 \<Rightarrow> bool" where
  "fle NaN _ = False"
| "fle _ NaN = False"
| "fle a b = (a = b \<or> flt a b)"

fun IsNaN :: "float64 \<Rightarrow> bool" where
  "IsNaN NaN = True"
| "IsNaN _ = False"

text \<open>\<^verbatim>\<open>math.IsInf(x, 0)\<close> and \<^verbatim>\<open>math.IsInf(x, 1)\<close>.\<close>

definition IsInf0 :: "float64 \<Rightarrow> bool" where "IsInf0 x \<longleftrightarrow> x = PosInf \<or> x = NegInf"
definition IsInf1 :: "float64 \<Rightarrow> bool" where "IsInf1 x \<longleftrightarrow> x = PosInf"

section \<open>Rounding\<close>

function bitlen :: "int \<Rightarrow> nat" where
  "bitlen n = (if n \<le> 0 then 0 else Suc (bitlen (n div 2)))"
  by pat_completeness auto

termination
  by (relation "measure nat") auto

declare bitlen.simps [simp del]

text \<open>The exponent \<open>e\<close> with \<open>2 ^ e \<le> q < 2 ^ (e + 1)\<close>.\<close>

definition binade :: "rat \<Rightarrow> int" where
  "binade q =
     (case quotient_of q of
        (a, b) \<Rightarrow>
          (let d = int (bitlen a) - int (bitlen b) in if q < 2 powi d then d - 1 else d))"

text \<open>The distance of neighbouring values: 53 bits of precision, and never below the least positive value.\<close>

definition ulp :: "rat \<Rightarrow> rat" where
  "ulp q = 2 powi (max (binade q - 52) (- 1074))"

definition round_even :: "rat \<Rightarrow> int" where
  "round_even x =
     (let n = \<lfloor>x\<rfloor>; r = x - of_int n in
      if r < 1 / 2 then n else if r > 1 / 2 then n + 1 else if even n then n else n + 1)"

definition round_pos :: "rat \<Rightarrow> rat" where
  "round_pos q = (if q = 0 then 0 else of_int (round_even (q / ulp q)) * ulp q)"

definition fround :: "rat \<Rightarrow> float64" where
  "fround q =
     (let v = round_pos \<bar>q\<bar> in
      if v \<ge> 2 ^ 1024 then (if q > 0 then PosInf else NegInf) else Fin (if q < 0 then - v else v))"

section \<open>Arithmetic, ceiling, conversion\<close>

fun fdiv :: "float64 \<Rightarrow> float64 \<Rightarrow> float64" where
  "fdiv (Fin a) (Fin b) =
     (if b = 0 then (if a = 0 then NaN else if a > 0 then PosInf else NegInf) else fround (a / b))"
| "fdiv (Fin a) PosInf = Fin 0"
| "fdiv (Fin a) NegInf = Fin 0"
| "fdiv PosInf (Fin b) = (if b < 0 then NegInf else PosInf)"
| "fdiv NegInf (Fin b) = (if b < 0 then PosInf else NegInf)"
| "fdiv _ _ = NaN"

fun fadd :: "float64 \<Rightarrow> float64 \<Rightarrow> float64" where
  "fadd (Fin a) (Fin b) = fround (a + b)"
| "fadd PosInf (Fin b) = PosInf"
| "fadd (Fin a) PosInf = PosInf"
| "fadd PosInf PosInf = PosInf"
| "fadd NegInf (Fin b) = NegInf"
| "fadd (Fin a) NegInf = NegInf"
| "fadd NegInf NegInf = NegInf"
| "fadd _ _ = NaN"

fun fneg :: "float64 \<Rightarrow> float64" where
  "fneg (Fin a) = Fin (- a)"
| "fneg PosInf = NegInf"
| "fneg NegInf = PosInf"
| "fneg NaN = NaN"

definition fsub :: "float64 \<Rightarrow> float64 \<Rightarrow> float64" where
  "fsub a b = fadd a (fneg b)"

definition fsign :: "float64 \<Rightarrow> int" where
  "fsign x = (if flt (Fin 0) x then 1 else if flt x (Fin 0) then - 1 else 0)"

fun fmul :: "float64 \<Rightarrow> float64 \<Rightarrow> float64" where
  "fmul (Fin a) (Fin b) = fround (a * b)"
| "fmul NaN b = NaN"
| "fmul a NaN = NaN"
| "fmul a b = (let s = fsign a * fsign b in if s = 0 then NaN else if s > 0 then PosInf else NegInf)"

definition feq :: "float64 \<Rightarrow> float64 \<Rightarrow> bool" where
  "feq a b \<longleftrightarrow> a \<noteq> NaN \<and> a = b"

fun Ceil :: "float64 \<Rightarrow> float64" where
  "Ceil (Fin q) = Fin (of_int \<lceil>q\<rceil>)"
| "Ceil x = x"

text \<open>\<^verbatim>\<open>int64(x)\<close> truncates; for a value out of range the result is that of the amd64 instruction.\<close>

fun to_int64 :: "float64 \<Rightarrow> int" where
  "to_int64 (Fin q) =
     (let n = (if q < 0 then \<lceil>q\<rceil> else \<lfloor>q\<rfloor>) in if - (2 ^ 63) \<le> n \<and> n < 2 ^ 63 then n else - (2 ^ 63))"
| "to_int64 _ = - (2 ^ 63)"

text \<open>The rationals that are finite values.\<close>

definition representable :: "rat \<Rightarrow> bool" where
  "representable q \<longleftrightarrow> fround q = Fin q"

section \<open>Facts on rounding\<close>

lemma bitlen_bounds: "0 < n \<Longrightarrow> 2 ^ (bitlen n - 1) \<le> n \<and> n < 2 ^ bitlen n"
proof (induction n rule: bitlen.induct)
  case (1 n)
  show ?case
  proof (cases "n = 1")
    case True
    then show ?thesis by (simp add: bitlen.simps)
  next
    case False
    with 1 have ih: "2 ^ (bitlen (n div 2) - 1) \<le> n div 2" "n div 2 < 2 ^ bitlen (n div 2)" "0 < bitlen (n div 2)"
      by (auto simp: bitlen.simps [of "n div 2"])
    have "bitlen n = Suc (bitlen (n div 2))" using 1 by (subst bitlen.simps) simp
    then show ?thesis using ih 1 by (cases "bitlen (n div 2)") auto
  qed
qed

lemma bitlen_powi:
  assumes "0 < a"
  shows "2 powi (int (bitlen a) - 1) \<le> (of_int a :: rat)" "of_int a < (2 powi int (bitlen a) :: rat)"
proof -
  let ?l = "bitlen a"
  have l: "int (?l - 1) = int ?l - 1" using assms by (simp add: bitlen.simps)
  have b: "2 ^ (?l - 1) \<le> a" "a < 2 ^ ?l" using bitlen_bounds assms by auto
  have "(2 :: rat) ^ (?l - 1) \<le> of_int a" "of_int a < (2 :: rat) ^ ?l"
    using b of_int_le_iff [of "2 ^ (?l - 1)" a, where ?'a = rat] of_int_less_iff [of a "2 ^ ?l", where ?'a = rat]
    by simp_all
  then show "2 powi (int ?l - 1) \<le> (of_int a :: rat)" "of_int a < (2 powi int ?l :: rat)"
    by (simp_all flip: l add: power_int_of_nat)
qed

lemma powi_pos [simp]: "0 < (2 powi e :: rat)"
  by (simp add: zero_less_power_int)

lemma powi_add1: "(2 powi (e + 1) :: rat) = 2 * 2 powi e"
  by (simp add: power_int_add)

lemma powi_mono: "e \<le> f \<Longrightarrow> (2 powi e :: rat) \<le> 2 powi f"
  by (simp add: power_int_increasing)

lemma binade_bounds:
  assumes "0 < q"
  shows "2 powi binade q \<le> q" "q < 2 powi (binade q + 1)"
proof -
  obtain a b where ab: "quotient_of q = (a, b)" by fastforce
  then have q: "q = of_int a / of_int b" and "b > 0" by (simp_all add: quotient_of_div quotient_of_denom_pos)
  then have "a > 0" using assms by (simp add: zero_less_divide_iff)
  define d where "d = int (bitlen a) - int (bitlen b)"
  have "q < 2 powi int (bitlen a) / 2 powi (int (bitlen b) - 1)"
    unfolding q using bitlen_powi [OF \<open>a > 0\<close>] bitlen_powi [OF \<open>b > 0\<close>] \<open>a > 0\<close>
    by (intro frac_less) simp_all
  also have "\<dots> = 2 powi (d + 1)" by (simp add: d_def power_int_diff power_int_add)
  finally have up: "q < 2 powi (d + 1)" .
  have "2 powi (d - 1) = 2 powi (int (bitlen a) - 1) / (2 powi int (bitlen b) :: rat)"
    by (simp add: d_def power_int_diff)
  also have "\<dots> \<le> q"
    unfolding q using bitlen_powi [OF \<open>a > 0\<close>] bitlen_powi [OF \<open>b > 0\<close>] \<open>b > 0\<close> \<open>a > 0\<close> by (intro frac_le) simp_all
  finally have "2 powi (d - 1) \<le> q" .
  moreover have "binade q = (if q < 2 powi d then d - 1 else d)" by (simp add: binade_def ab d_def Let_def)
  ultimately show "2 powi binade q \<le> q" "q < 2 powi (binade q + 1)" using up by auto
qed

lemma binade_unique:
  assumes "2 powi e \<le> q" "q < 2 powi (e + 1)"
  shows "binade q = e"
proof -
  have "0 < q" using assms(1) powi_pos [of e] by linarith
  note b = binade_bounds [OF this]
  have "\<not> binade q < e" using powi_mono [of "binade q + 1" e] b assms by linarith
  moreover have "\<not> e < binade q" using powi_mono [of "e + 1" "binade q"] b assms by linarith
  ultimately show ?thesis by simp
qed

lemma binade_mono: "0 < p \<Longrightarrow> p \<le> q \<Longrightarrow> binade p \<le> binade q"
  using binade_bounds [of p] binade_bounds [of q] powi_mono [of "binade q + 1" "binade p"] by force

lemma round_even_cases: "round_even x = \<lfloor>x\<rfloor> \<or> round_even x = \<lfloor>x\<rfloor> + 1"
  by (simp add: round_even_def Let_def)

lemma round_even_int [simp]: "round_even (of_int n) = n"
  by (simp add: round_even_def)

lemma round_even_down: "x - of_int \<lfloor>x\<rfloor> < 1 / 2 \<Longrightarrow> round_even x = \<lfloor>x\<rfloor>"
  by (simp add: round_even_def Let_def)

lemma round_even_mono: "x \<le> y \<Longrightarrow> round_even x \<le> round_even y"
proof -
  assume le: "x \<le> y"
  show ?thesis
  proof (cases "\<lfloor>x\<rfloor> = \<lfloor>y\<rfloor>")
    case True
    then show ?thesis using le by (auto simp: round_even_def Let_def)
  next
    case False
    then have "\<lfloor>x\<rfloor> + 1 \<le> \<lfloor>y\<rfloor>" using floor_mono [OF le] by linarith
    then show ?thesis using round_even_cases [of x] round_even_cases [of y] by linarith
  qed
qed

lemma ulp_pos [simp]: "0 < ulp q"
  by (simp add: ulp_def)

lemma round_pos_nonneg: "0 \<le> q \<Longrightarrow> 0 \<le> round_pos q"
  using round_even_mono [of 0 "q / ulp q"] round_even_int [of 0] by (simp add: round_pos_def less_imp_le)

text \<open>A value at most an exact multiple of its own spacing is rounded to at most that multiple.\<close>

lemma round_pos_le: "0 < q \<Longrightarrow> q \<le> of_int k * ulp q \<Longrightarrow> round_pos q \<le> of_int k * ulp q"
  using round_even_mono [of "q / ulp q" "of_int k"] by (simp add: round_pos_def pos_divide_le_eq)

lemma round_pos_ge: "0 < q \<Longrightarrow> of_int k * ulp q \<le> q \<Longrightarrow> of_int k * ulp q \<le> round_pos q"
  using round_even_mono [of "of_int k" "q / ulp q"] by (simp add: round_pos_def pos_le_divide_eq)

lemma powi_ulp:
  assumes "- 1074 \<le> e - 52" "0 \<le> f - (e - 52)"
  shows "\<exists>k. (2 powi f :: rat) = of_int k * 2 powi (e - 52)"
proof
  have "f = int (nat (f - (e - 52))) + (e - 52)" using assms by simp
  then have "(2 powi f :: rat) = 2 powi (int (nat (f - (e - 52)))) * 2 powi (e - 52)"
    by (metis power_int_add zero_neq_numeral)
  then show "(2 powi f :: rat) = of_int (2 ^ nat (f - (e - 52))) * 2 powi (e - 52)"
    by (simp only: power_int_of_nat of_int_power of_int_numeral)
qed

lemma round_pos_mono:
  assumes "0 \<le> p" "p \<le> q"
  shows "round_pos p \<le> round_pos q"
proof (cases "p = 0")
  case True
  then show ?thesis using assms round_pos_nonneg [of q] by (simp add: round_pos_def)
next
  case False
  then have pq: "0 < p" "0 < q" using assms by simp_all
  show ?thesis
  proof (cases "ulp p = ulp q")
    case True
    have "p / ulp q \<le> q / ulp q" using assms by (simp add: divide_right_mono less_imp_le)
    then show ?thesis
      using pq True round_even_mono [of "p / ulp q" "q / ulp q"]
      by (simp add: round_pos_def mult_right_mono less_imp_le)
  next
    case False
    then have lt: "binade p < binade q" "- 1074 < binade q - 52"
      using binade_mono [OF pq(1) assms(2)] by (auto simp: ulp_def max_def order_less_le split: if_splits)
    let ?t = "2 powi binade q :: rat"
    obtain k where k: "?t = of_int k * ulp q"
      using powi_ulp [of "binade q" "binade q"] lt by (auto simp: ulp_def)
    then have "?t \<le> round_pos q" using round_pos_ge [OF pq(2)] binade_bounds(1) [OF pq(2)] by metis
    moreover obtain j where j: "?t = of_int j * ulp p"
    proof (cases "- 1074 \<le> binade p - 52")
      case True
      then show ?thesis using powi_ulp [of "binade p" "binade q"] lt that by (auto simp: ulp_def)
    next
      case False
      then show ?thesis using powi_ulp [of "- 1022" "binade q"] lt that by (auto simp: ulp_def)
    qed
    have "p \<le> ?t" using binade_bounds(2) [OF pq(1)] powi_mono [of "binade p + 1" "binade q"] lt by simp
    then have "round_pos p \<le> ?t" using round_pos_le [OF pq(1)] j by metis
    ultimately show ?thesis by simp
  qed
qed

lemma round_even_near: "of_int (round_even x) \<le> x + 1 / 2"
  by (auto simp: round_even_def Let_def) linarith+

lemma round_pos_near: "0 < q \<Longrightarrow> round_pos q \<le> q + ulp q / 2"
proof -
  assume "0 < q"
  have "of_int (round_even (q / ulp q)) * ulp q \<le> (q / ulp q + 1 / 2) * ulp q"
    by (intro mult_right_mono round_even_near less_imp_le) simp
  then show ?thesis using \<open>0 < q\<close> ulp_pos [of q] by (simp add: round_pos_def distrib_right less_imp_neq [symmetric])
qed

text \<open>The spacing at a value is at most its \<open>2 ^ -52\<close>-th part, or the least one.\<close>

lemma ulp_less:
  assumes "0 < y" "y < k" "1 \<le> k"
  shows "ulp y < k / 2 ^ 52"
proof (cases "- 1074 \<le> binade y - 52")
  case True
  then have "ulp y = 2 powi binade y / 2 ^ 52" by (simp add: ulp_def power_int_diff)
  also have "\<dots> < k / 2 ^ 52" using binade_bounds(1) [OF assms(1)] assms(2) by (simp add: divide_strict_right_mono)
  finally show ?thesis .
next
  case False
  then have "ulp y = 2 powi (- 1074)" by (simp add: ulp_def)
  also have "\<dots> < 2 powi (- 52)" by (rule power_int_strict_increasing) simp_all
  also have "\<dots> \<le> k / 2 ^ 52" using assms(3) by (simp add: power_int_minus field_simps)
  finally show ?thesis .
qed

text \<open>A quotient that is below an integer by more than the precision is not rounded up to it.\<close>

lemma round_strict:
  assumes "0 < y" "y \<le> k * (1 - 1 / 2 ^ 53)" "1 \<le> k"
  shows "round_pos y < k"
proof -
  have "k * (1 - 1 / 2 ^ 53) < k" using assms(3) by (simp add: field_simps)
  then have "ulp y / 2 < k / 2 ^ 53" using ulp_less [of y k] assms by simp
  then have "y + ulp y / 2 < k" using assms(2) by (simp add: right_diff_distrib)
  then show ?thesis using round_pos_near [OF assms(1)] by linarith
qed

lemma ulp_mono: "0 < p \<Longrightarrow> p \<le> q \<Longrightarrow> ulp p \<le> ulp q"
  using binade_mono [of p q] by (auto simp: ulp_def intro!: powi_mono)

lemma ulp_multiple:
  assumes "0 < p" "p \<le> q"
  shows "\<exists>j. ulp q = of_int j * ulp p"
proof -
  let ?e = "\<lambda>q. max (binade q - 52) (- 1074)"
  have "?e q = int (nat (?e q - ?e p)) + ?e p" using binade_mono [OF assms] by linarith
  then have "(2 powi (?e q) :: rat) = 2 powi (int (nat (?e q - ?e p))) * 2 powi (?e p)"
    by (metis power_int_add zero_neq_numeral)
  then have "ulp q = of_int (2 ^ nat (?e q - ?e p)) * ulp p"
    unfolding ulp_def by (simp only: power_int_of_nat of_int_power of_int_numeral)
  then show ?thesis by blast
qed

lemma less_ulp: "0 < q \<Longrightarrow> q < 2 ^ 53 * ulp q"
proof -
  assume "0 < q"
  have "(2 powi (binade q + 1) :: rat) = 2 ^ 53 * 2 powi (binade q - 52)" by (simp add: power_int_diff power_int_add)
  also have "\<dots> \<le> 2 ^ 53 * ulp q" by (simp add: ulp_def powi_mono)
  finally show ?thesis using binade_bounds(2) [OF \<open>0 < q\<close>] by simp
qed

lemma representable_multiple: "0 < q \<Longrightarrow> representable q \<Longrightarrow> \<exists>j. q = of_int j * ulp q"
  by (rule exI [of _ "round_even (q / ulp q)"])
     (simp add: representable_def fround_def Let_def round_pos_def split: if_splits)

text \<open>Two finite values differ by at least the \<open>2 ^ -53\<close>-th part of the larger.\<close>

lemma representable_gap:
  assumes "0 < v" "v < w" "representable v" "representable w"
  shows "v \<le> w * (1 - 1 / 2 ^ 53)"
proof -
  obtain V where V: "v = of_int V * ulp v" using representable_multiple assms by blast
  obtain W where w: "w = of_int W * ulp w" using representable_multiple [of w] assms by auto
  obtain j where "ulp w = of_int j * ulp v" using ulp_multiple [of v w] assms by auto
  then have W: "w = of_int (W * j) * ulp v" using w by (metis mult.assoc of_int_mult)
  have u: "0 < ulp v" by simp
  have "of_int V * ulp v < of_int (W * j) * ulp v" using assms(2) V W by simp
  then have "V < W * j" using u by (simp only: mult_less_cancel_right_pos of_int_less_iff)
  moreover have "of_int V * ulp v < of_int (2 ^ 53) * ulp v" using less_ulp [OF assms(1)] V by simp
  then have "V < 2 ^ 53" using u by (simp only: mult_less_cancel_right_pos of_int_less_iff)
  ultimately have VW: "V \<le> min (W * j) (2 ^ 53) - 1" by simp
  define M where "M = W * j"
  have "of_int V \<le> (of_int M :: rat) * (1 - 1 / 2 ^ 53)"
  proof (cases "M \<le> 2 ^ 53")
    case True
    then have "of_int M / 2 ^ 53 \<le> (1 :: rat)" using of_int_le_iff [of M "2 ^ 53", where ?'a = rat] by simp
    moreover have "of_int V \<le> (of_int M - 1 :: rat)"
      using VW of_int_le_iff [of V "M - 1", where ?'a = rat] by (simp add: M_def)
    ultimately show ?thesis by (simp add: right_diff_distrib)
  next
    case False
    then have "(2 ^ 53 :: rat) \<le> of_int M" using of_int_le_iff [of "2 ^ 53" M, where ?'a = rat] by simp
    then have "(2 ^ 53 :: rat) * (1 - 1 / 2 ^ 53) \<le> of_int M * (1 - 1 / 2 ^ 53)" by (intro mult_right_mono) simp_all
    moreover have "of_int V \<le> (2 ^ 53 - 1 :: rat)"
      using VW of_int_le_iff [of V "2 ^ 53 - 1", where ?'a = rat] by simp
    ultimately show ?thesis by simp
  qed
  then have "of_int V * ulp v \<le> (of_int M * (1 - 1 / 2 ^ 53)) * ulp v" by (rule mult_right_mono) (simp add: less_imp_le)
  also have "\<dots> = w * (1 - 1 / 2 ^ 53)" using W by (simp only: M_def mult.commute mult.left_commute mult.assoc)
  finally show ?thesis using V by simp
qed

lemma fround_nonneg: "0 \<le> q \<Longrightarrow> fround q = (if round_pos q \<ge> 2 ^ 1024 then PosInf else Fin (round_pos q))"
  by (cases "q = 0") (auto simp: fround_def Let_def round_pos_def)

lemma round_pos_exact:
  assumes "0 < q" "q = of_int j * ulp q"
  shows "round_pos q = q"
proof -
  have "q / ulp q = of_int j" using assms(2) ulp_pos [of q] by (metis nonzero_mult_div_cancel_right order_less_irrefl)
  then show ?thesis using assms by (simp add: round_pos_def)
qed

lemma round_pos_small_int:
  assumes "1 \<le> k" "k < 2 ^ 52"
  shows "round_pos (of_int k) = of_int k"
proof -
  let ?q = "of_int k :: rat"
  have q: "0 < ?q" "1 \<le> ?q" using assms(1) by simp_all
  have lo: "0 \<le> binade ?q" using binade_mono [of 1 ?q] binade_unique [of 0 1] q by simp
  have "?q < of_int (2 ^ 52)" using assms(2) by (simp only: of_int_less_iff)
  then have "(2 powi binade ?q :: rat) < 2 powi 52" using binade_bounds(1) [OF q(1)] by simp
  then have "binade ?q < 52" using powi_mono [of 52 "binade ?q"] by linarith
  then obtain i where "1 = of_int i * ulp ?q"
    using powi_ulp [of "binade ?q" 0] lo by (auto simp: ulp_def)
  then have "?q = of_int (k * i) * ulp ?q" by (metis mult.assoc mult.right_neutral of_int_mult)
  then show ?thesis by (rule round_pos_exact [OF q(1)])
qed

lemma round_pos_int:
  assumes "1 \<le> k" "round_pos (of_int k) < 2 ^ 52"
  shows "round_pos (of_int k) = of_int k"
proof (cases "k < 2 ^ 52")
  case False
  have b: "binade (2 ^ 52 :: rat) = 52" by (rule binade_unique) simp_all
  have "ulp (2 ^ 52 :: rat) = 1" unfolding ulp_def b by simp
  then have "round_pos (2 ^ 52 :: rat) = 2 ^ 52" using round_pos_exact [of "2 ^ 52" "2 ^ 52"] by simp
  moreover have "(2 ^ 52 :: rat) \<le> of_int k" using False of_int_le_iff [of "2 ^ 52" k, where ?'a = rat] by simp
  then have "round_pos (2 ^ 52 :: rat) \<le> round_pos (of_int k)" by (intro round_pos_mono) simp_all
  ultimately show ?thesis using assms(2) by simp
qed (use assms round_pos_small_int in auto)

text \<open>Evaluating a rounding from its binade and its nearest multiple.\<close>

lemma round_pos_eval:
  assumes "2 powi e \<le> q" "q < 2 powi (e + 1)" "- 1074 \<le> e - 52"
    and "of_int n - 1 / 2 < q / 2 powi (e - 52)" "q / 2 powi (e - 52) < of_int n + 1 / 2"
  shows "round_pos q = of_int n * 2 powi (e - 52)"
proof -
  have "0 < q" using assms(1) powi_pos [of e] by linarith
  have u: "ulp q = 2 powi (e - 52)" using binade_unique [OF assms(1,2)] assms(3) by (simp add: ulp_def)
  define x where "x = q / 2 powi (e - 52)"
  have "round_even x = n"
  proof (cases "of_int n \<le> x")
    case True
    then have "\<lfloor>x\<rfloor> = n" using assms(5) by (intro floor_unique) (auto simp: x_def)
    moreover have "x - of_int n < 1 / 2" using assms(5) unfolding x_def by linarith
    ultimately show ?thesis using round_even_down [of x] by simp
  next
    case False
    then have f: "\<lfloor>x\<rfloor> = n - 1" using assms(4) by (intro floor_unique) (auto simp: x_def)
    have "x - of_int (n - 1) > 1 / 2" using assms(4) unfolding x_def of_int_diff of_int_1 by linarith
    then show ?thesis by (simp add: round_even_def f Let_def)
  qed
  then show ?thesis using \<open>0 < q\<close> by (simp add: round_pos_def u x_def)
qed

lemma representable_pos: "0 < q \<Longrightarrow> q < 2 ^ 1024 \<Longrightarrow> representable q \<longleftrightarrow> round_pos q = q"
  by (auto simp: representable_def fround_nonneg not_le)

lemma representable_small_int: "1 \<le> k \<Longrightarrow> k < 2 ^ 52 \<Longrightarrow> representable (of_int k)"
proof -
  assume k: "1 \<le> k" "k < 2 ^ 52"
  have "(of_int k :: rat) < of_int (2 ^ 52)" using k(2) by (simp only: of_int_less_iff)
  also have "\<dots> \<le> 2 ^ 1024" by simp
  finally show ?thesis using k representable_pos [of "of_int k"] round_pos_small_int by simp
qed

end
