(* ===== verification/Aoi.thy ===== *)
theory Aoi
  imports Float64 Prelude
begin

text \<open>
  The grid-based area of interest of \<^verbatim>\<open>zAoi/grid_aoi.go\<close>: the map is cut into cells, an entity sees
  the entities of its cell and of the eight around it, and the listener is told who enters,
  leaves and moves in whose view. The index by cell agrees with the table of entities, and the
  events determine exactly what every entity sees.
\<close>

section \<open>Data\<close>

datatype aoi_error = ErrInvalidMapSize | ErrInvalidGridSize | ErrDuplicateEntity | ErrEntityNotFound

record Coord =
  coord_X :: float64
  coord_Y :: float64

definition zero_Coord :: Coord where "zero_Coord = \<lparr>coord_X = Fin 0, coord_Y = Fin 0\<rparr>"

datatype AOIEventType = AOIEventEnter | AOIEventLeave | AOIEventMove

record AOIEvent =
  ev_Type :: AOIEventType
  Watcher :: int
  Target :: int
  OldCoord :: Coord
  NewCoord :: Coord

text \<open>A cell: its number and the concurrent map of the entities in it.\<close>

record 'e Grid =
  Grid_entityID :: int
  Grid_entities :: 'e

definition NewGrid :: "('e, int, Coord) tmap \<Rightarrow> int \<Rightarrow> 'e Grid" where
  "NewGrid TE gid = \<lparr>Grid_entityID = gid, Grid_entities = tm_new TE\<rparr>"

definition Grid_Add :: "('e, int, Coord) tmap \<Rightarrow> int \<Rightarrow> Coord \<Rightarrow> 'e Grid \<Rightarrow> 'e Grid" where
  "Grid_Add TE eid coord g = g\<lparr>Grid_entities := tm_store TE (Grid_entities g) eid coord\<rparr>"

definition Grid_Remove :: "('e, int, Coord) tmap \<Rightarrow> int \<Rightarrow> 'e Grid \<Rightarrow> 'e Grid" where
  "Grid_Remove TE eid g = g\<lparr>Grid_entities := tm_delete TE (Grid_entities g) eid\<rparr>"

definition Grid_Update :: "('e, int, Coord) tmap \<Rightarrow> int \<Rightarrow> Coord \<Rightarrow> 'e Grid \<Rightarrow> 'e Grid" where
  "Grid_Update TE eid coord g = g\<lparr>Grid_entities := tm_store TE (Grid_entities g) eid coord\<rparr>"

text \<open>A Go map from identifiers to coordinates is an association list with distinct keys.\<close>

type_synonym coord_map = "(int \<times> Coord) list"

definition put_all :: "(int \<times> Coord) list \<Rightarrow> coord_map \<Rightarrow> coord_map" where
  "put_all = fold (\<lambda>(eid, coord). AList.update eid coord)"

definition GetAll :: "('e, int, Coord) tmap \<Rightarrow> 'e Grid \<Rightarrow> coord_map" where
  "GetAll TE g = put_all (tm_range TE (Grid_entities g)) []"

definition Grid_Count :: "('e, int, Coord) tmap \<Rightarrow> 'e Grid \<Rightarrow> int" where
  "Grid_Count TE g = tm_len TE (Grid_entities g)"

record entityLocation =
  loc_gridID :: int
  loc_coord :: Coord

text \<open>\<open>listener\<close> says whether one is set; the operations return the events it is called with.\<close>

record 'g GridManager =
  gridWidth :: float64
  gridHeight :: float64
  mapWidth :: float64
  mapHeight :: float64
  gridCols :: int
  gridRows :: int
  grids :: 'g
  entities :: "int \<rightharpoonup> entityLocation"
  listener :: bool

section \<open>The grid\<close>

definition validDimension :: "float64 \<Rightarrow> bool" where
  "validDimension value \<longleftrightarrow> flt (Fin 0) value \<and> \<not> IsNaN value \<and> \<not> IsInf0 value"

definition maxGridAxisCount :: float64 where "maxGridAxisCount = Fin (2 ^ 31 - 1)"

definition NewGridManagerChecked ::
    "('g, int, 'e Grid) tmap \<Rightarrow> float64 \<Rightarrow> float64 \<Rightarrow> float64 \<Rightarrow> float64 \<Rightarrow> aoi_error + 'g GridManager" where
  "NewGridManagerChecked TG mw mh gw gh =
     (if \<not> validDimension mw \<or> \<not> validDimension mh then Inl ErrInvalidMapSize
      else if \<not> validDimension gw \<or> \<not> validDimension gh then Inl ErrInvalidGridSize
      else
        (let cols = Ceil (fdiv mw gw); rows = Ceil (fdiv mh gh) in
         if \<not> validDimension cols \<or> \<not> validDimension rows \<or>
            flt maxGridAxisCount cols \<or> flt maxGridAxisCount rows
         then Inl ErrInvalidGridSize
         else Inr \<lparr>gridWidth = gw, gridHeight = gh, mapWidth = mw, mapHeight = mh, gridCols = to_int64 cols,
           gridRows = to_int64 rows, grids = tm_new TG, entities = Map.empty, listener = False\<rparr>))"

definition SetListener :: "bool \<Rightarrow> 'g GridManager \<Rightarrow> 'g GridManager" where
  "SetListener l gm = gm\<lparr>listener := l\<rparr>"

definition gridAxis :: "float64 \<Rightarrow> float64 \<Rightarrow> float64 \<Rightarrow> int \<Rightarrow> int" where
  "gridAxis value mapSize gridSize count =
     (if IsNaN value \<or> fle value (Fin 0) then 0
      else if IsInf1 value \<or> fle mapSize value then count - 1
      else to_int64 (fdiv value gridSize))"

definition getGridID :: "'g GridManager \<Rightarrow> Coord \<Rightarrow> int" where
  "getGridID gm coord =
     (let gx = gridAxis (coord_X coord) (mapWidth gm) (gridWidth gm) (gridCols gm);
          gy = gridAxis (coord_Y coord) (mapHeight gm) (gridHeight gm) (gridRows gm)
      in gy * gridCols gm + gx)"

text \<open>
  Identifiers of cells and numbers of columns are not negative, so that Go's remainder and
  quotient are \<open>mod\<close> and \<open>div\<close>.
\<close>

definition getSurroundingGridIDs :: "'g GridManager \<Rightarrow> int \<Rightarrow> int list" where
  "getSurroundingGridIDs gm gid =
     (let gx = gid mod gridCols gm; gy = gid div gridCols gm in
      concat (map (\<lambda>dy. concat (map (\<lambda>dx.
        let nx = gx + dx; ny = gy + dy in
        if nx \<ge> 0 \<and> nx < gridCols gm \<and> ny \<ge> 0 \<and> ny < gridRows gm then [ny * gridCols gm + nx] else [])
        [-1, 0, 1])) [-1, 0, 1]))"

definition getOrCreateGridLocked ::
    "('g, int, 'e Grid) tmap \<Rightarrow> ('e, int, Coord) tmap \<Rightarrow> int \<Rightarrow> 'g GridManager \<Rightarrow> 'e Grid \<times> 'g GridManager" where
  "getOrCreateGridLocked TG TE gid gm =
     (case tm_load TG (grids gm) gid of
        Some g \<Rightarrow> (g, gm)
      | None \<Rightarrow> (let g = NewGrid TE gid in (g, gm\<lparr>grids := tm_store TG (grids gm) gid g\<rparr>)))"

definition visibleEntitiesLocked ::
    "('g, int, 'e Grid) tmap \<Rightarrow> ('e, int, Coord) tmap \<Rightarrow> int \<Rightarrow> 'g GridManager \<Rightarrow> coord_map" where
  "visibleEntitiesLocked TG TE gid gm =
     fold (\<lambda>surroundingID result.
       case tm_load TG (grids gm) surroundingID of
         None \<Rightarrow> result
       | Some g \<Rightarrow> put_all (GetAll TE g) result) (getSurroundingGridIDs gm gid) []"

definition sortedEntityIDs :: "coord_map \<Rightarrow> int list" where
  "sortedEntityIDs m = sort (map fst m)"

definition emitAOIEvents :: "bool \<Rightarrow> AOIEvent list \<Rightarrow> AOIEvent list" where
  "emitAOIEvents l events = (if l then events else [])"

section \<open>Operations\<close>

text \<open>A cell is shared by reference; a change to it is a change of the entry of \<open>grids\<close>.\<close>

definition store_grid :: "('g, int, 'e Grid) tmap \<Rightarrow> int \<Rightarrow> 'e Grid \<Rightarrow> 'g GridManager \<Rightarrow> 'g GridManager" where
  "store_grid TG gid g gm = gm\<lparr>grids := tm_store TG (grids gm) gid g\<rparr>"

definition add_to_grid ::
    "('g, int, 'e Grid) tmap \<Rightarrow> ('e, int, Coord) tmap \<Rightarrow> int \<Rightarrow> int \<Rightarrow> Coord \<Rightarrow> 'g GridManager \<Rightarrow> 'g GridManager" where
  "add_to_grid TG TE gid eid coord gm =
     (case getOrCreateGridLocked TG TE gid gm of (g, gm) \<Rightarrow> store_grid TG gid (Grid_Add TE eid coord g) gm)"

definition remove_from_grid ::
    "('g, int, 'e Grid) tmap \<Rightarrow> ('e, int, Coord) tmap \<Rightarrow> int \<Rightarrow> int \<Rightarrow> 'g GridManager \<Rightarrow> 'g GridManager option" where
  "remove_from_grid TG TE gid eid gm =
     (case tm_load TG (grids gm) gid of
        None \<Rightarrow> None
      | Some g \<Rightarrow>
          (let g = Grid_Remove TE eid g; gm = store_grid TG gid g gm in
           Some (if Grid_Count TE g = 0 then gm\<lparr>grids := tm_delete TG (grids gm) gid\<rparr> else gm)))"

definition enter_event :: "int \<Rightarrow> int \<Rightarrow> Coord \<Rightarrow> AOIEvent" where
  "enter_event w t c = \<lparr>ev_Type = AOIEventEnter, Watcher = w, Target = t, OldCoord = zero_Coord, NewCoord = c\<rparr>"

definition leave_event :: "int \<Rightarrow> int \<Rightarrow> Coord \<Rightarrow> AOIEvent" where
  "leave_event w t c = \<lparr>ev_Type = AOIEventLeave, Watcher = w, Target = t, OldCoord = c, NewCoord = zero_Coord\<rparr>"

definition move_event :: "int \<Rightarrow> int \<Rightarrow> Coord \<Rightarrow> Coord \<Rightarrow> AOIEvent" where
  "move_event w t old new = \<lparr>ev_Type = AOIEventMove, Watcher = w, Target = t, OldCoord = old, NewCoord = new\<rparr>"

definition coord_at :: "coord_map \<Rightarrow> int \<Rightarrow> Coord" where
  "coord_at m eid = (case map_of m eid of None \<Rightarrow> zero_Coord | Some c \<Rightarrow> c)"

definition AddEntity ::
    "('g, int, 'e Grid) tmap \<Rightarrow> ('e, int, Coord) tmap \<Rightarrow> int \<Rightarrow> Coord \<Rightarrow> 'g GridManager \<Rightarrow> (aoi_error option \<times> AOIEvent list) \<times> 'g GridManager" where
  "AddEntity TG TE eid coord gm =
     (if entities gm eid \<noteq> None then ((Some ErrDuplicateEntity, []), gm)
      else
        (let gid = getGridID gm coord;
             gm = add_to_grid TG TE gid eid coord gm;
             gm = gm\<lparr>entities := (entities gm)(eid \<mapsto> \<lparr>loc_gridID = gid, loc_coord = coord\<rparr>)\<rparr>;
             visible = AList.delete eid (visibleEntitiesLocked TG TE gid gm);
             events = concat (map (\<lambda>otherID.
               [enter_event otherID eid coord, enter_event eid otherID (coord_at visible otherID)])
               (sortedEntityIDs visible))
         in ((None, emitAOIEvents (listener gm) events), gm)))"

definition RemoveEntity ::
    "('g, int, 'e Grid) tmap \<Rightarrow> ('e, int, Coord) tmap \<Rightarrow> int \<Rightarrow> 'g GridManager \<Rightarrow> (aoi_error option \<times> AOIEvent list) \<times> 'g GridManager" where
  "RemoveEntity TG TE eid gm =
     (case entities gm eid of
        None \<Rightarrow> ((Some ErrEntityNotFound, []), gm)
      | Some location \<Rightarrow>
          (let visible = AList.delete eid (visibleEntitiesLocked TG TE (loc_gridID location) gm);
               gm = (case remove_from_grid TG TE (loc_gridID location) eid gm of None \<Rightarrow> gm | Some gm \<Rightarrow> gm);
               gm = gm\<lparr>entities := (entities gm)(eid := None)\<rparr>;
               events = concat (map (\<lambda>otherID.
                 [leave_event eid otherID (coord_at visible otherID), leave_event otherID eid (loc_coord location)])
                 (sortedEntityIDs visible))
           in ((None, emitAOIEvents (listener gm) events), gm)))"

definition buildMoveEvents :: "int \<Rightarrow> Coord \<Rightarrow> Coord \<Rightarrow> coord_map \<Rightarrow> coord_map \<Rightarrow> AOIEvent list" where
  "buildMoveEvents eid oldCoord newCoord oldVisible newVisible =
     concat (map (\<lambda>otherID.
       if map_of newVisible otherID \<noteq> None then []
       else [leave_event eid otherID (coord_at oldVisible otherID), leave_event otherID eid oldCoord])
       (sortedEntityIDs oldVisible)) @
     concat (map (\<lambda>otherID.
       if map_of oldVisible otherID \<noteq> None then []
       else [enter_event eid otherID (coord_at newVisible otherID), enter_event otherID eid newCoord])
       (sortedEntityIDs newVisible)) @
     concat (map (\<lambda>otherID.
       if map_of newVisible otherID = None then [] else [move_event otherID eid oldCoord newCoord])
       (sortedEntityIDs oldVisible))"

definition MoveEntityTo ::
    "('g, int, 'e Grid) tmap \<Rightarrow> ('e, int, Coord) tmap \<Rightarrow> int \<Rightarrow> Coord \<Rightarrow> 'g GridManager \<Rightarrow> (aoi_error option \<times> AOIEvent list) \<times> 'g GridManager" where
  "MoveEntityTo TG TE eid newCoord gm =
     (case entities gm eid of
        None \<Rightarrow> ((Some ErrEntityNotFound, []), gm)
      | Some location \<Rightarrow>
          (let newGridID = getGridID gm newCoord;
               oldVisible = AList.delete eid (visibleEntitiesLocked TG TE (loc_gridID location) gm);
               newVisible = AList.delete eid (visibleEntitiesLocked TG TE newGridID gm);
               moved =
                 (if loc_gridID location = newGridID
                  then
                    (case tm_load TG (grids gm) (loc_gridID location) of
                       None \<Rightarrow> None
                     | Some g \<Rightarrow> Some (store_grid TG (loc_gridID location) (Grid_Update TE eid newCoord g) gm))
                  else
                    (case remove_from_grid TG TE (loc_gridID location) eid gm of
                       None \<Rightarrow> None
                     | Some gm \<Rightarrow> Some (add_to_grid TG TE newGridID eid newCoord gm)))
           in case moved of
                None \<Rightarrow> ((Some ErrEntityNotFound, []), gm)
              | Some gm \<Rightarrow>
                  (let gm = gm\<lparr>entities := (entities gm)(eid \<mapsto> \<lparr>loc_gridID = newGridID, loc_coord = newCoord\<rparr>)\<rparr>;
                       events = buildMoveEvents eid (loc_coord location) newCoord oldVisible newVisible
                   in ((None, emitAOIEvents (listener gm) events), gm))))"

definition MoveEntity ::
    "('g, int, 'e Grid) tmap \<Rightarrow> ('e, int, Coord) tmap \<Rightarrow> int \<Rightarrow> Coord \<Rightarrow> Coord \<Rightarrow> 'g GridManager \<Rightarrow> (aoi_error option \<times> AOIEvent list) \<times> 'g GridManager" where
  "MoveEntity TG TE eid oldCoord newCoord gm = MoveEntityTo TG TE eid newCoord gm"

definition GetSurroundingEntities ::
    "('g, int, 'e Grid) tmap \<Rightarrow> ('e, int, Coord) tmap \<Rightarrow> Coord \<Rightarrow> 'g GridManager \<Rightarrow> coord_map" where
  "GetSurroundingEntities TG TE coord gm = visibleEntitiesLocked TG TE (getGridID gm coord) gm"

definition GetEntitiesInGrid ::
    "('g, int, 'e Grid) tmap \<Rightarrow> ('e, int, Coord) tmap \<Rightarrow> Coord \<Rightarrow> 'g GridManager \<Rightarrow> coord_map" where
  "GetEntitiesInGrid TG TE coord gm =
     (case tm_load TG (grids gm) (getGridID gm coord) of Some g \<Rightarrow> GetAll TE g | None \<Rightarrow> [])"

section \<open>The index agrees with the table of entities\<close>

text \<open>What a scan of the whole table gives for a set of cells.\<close>

definition scan :: "'g GridManager \<Rightarrow> int set \<Rightarrow> int \<rightharpoonup> Coord" where
  "scan gm ids eid =
     (case entities gm eid of None \<Rightarrow> None | Some loc \<Rightarrow> if loc_gridID loc \<in> ids then Some (loc_coord loc) else None)"

lemma map_of_put_all: "map_of (put_all kvs m) = map_of m ++ map_of (rev kvs)"
  by (induction kvs arbitrary: m) (auto simp: put_all_def update_conv' fun_eq_iff map_add_def split: option.splits)

lemma distinct_put_all: "distinct (map fst m) \<Longrightarrow> distinct (map fst (put_all kvs m))"
  by (induction kvs arbitrary: m) (auto simp: put_all_def distinct_update)

lemma map_of_rev_distinct: "distinct (map fst kvs) \<Longrightarrow> map_of (rev kvs) = map_of kvs"
  by (metis distinct_rev map_of_eqI map_of_eq_Some_iff rev_map set_rev dom_map_of_conv_image_fst list.set_map map_of_eq_None_iff domIff option.exhaust)

lemma location_eq: "l = \<lparr>loc_gridID = g, loc_coord = c\<rparr> \<longleftrightarrow> loc_gridID l = g \<and> loc_coord l = c"
  by (cases l) simp

text \<open>The contracts of the two concurrent maps.\<close>

locale grid_maps = G: typed_map TG + E: typed_map TE
  for TG :: "('g, int, 'e Grid) tmap" and TE :: "('e, int, Coord) tmap"
begin

text \<open>The entities of a cell, with or without a cell object.\<close>

definition cell :: "'g GridManager \<Rightarrow> int \<Rightarrow> int \<rightharpoonup> Coord" where
  "cell gm gid = (case tm_load TG (grids gm) gid of None \<Rightarrow> Map.empty | Some g \<Rightarrow> tm_load TE (Grid_entities g))"

lemma cell_store_grid:
  "cell (store_grid TG gid g gm) = (cell gm)(gid := tm_load TE (Grid_entities g))"
  by (auto simp: cell_def store_grid_def G.load_store fun_eq_iff)

lemma cell_add_to_grid:
  "cell (add_to_grid TG TE gid eid coord gm) = (cell gm)(gid := (cell gm gid)(eid \<mapsto> coord))"
  by (auto simp: add_to_grid_def getOrCreateGridLocked_def cell_def store_grid_def G.load_store E.load_store E.load_new
    Grid_Add_def NewGrid_def Let_def fun_eq_iff split: option.splits)

lemma cell_remove_from_grid:
  "remove_from_grid TG TE gid eid gm = Some gm' \<Longrightarrow> cell gm' = (cell gm)(gid := (cell gm gid)(eid := None))"
  by (auto simp: remove_from_grid_def cell_def store_grid_def G.load_store G.load_delete E.load_delete
    Grid_Remove_def Grid_Count_def E.len_zero_iff Let_def fun_eq_iff split: option.splits if_splits)

lemma remove_from_grid_None: "remove_from_grid TG TE gid eid gm = None \<Longrightarrow> cell gm gid = Map.empty"
  by (auto simp: remove_from_grid_def cell_def Let_def split: option.splits)

lemma map_of_GetAll: "map_of (GetAll TE g) = tm_load TE (Grid_entities g)"
  by (simp add: GetAll_def map_of_put_all map_of_rev_distinct E.distinct_range E.map_of_range)

lemma distinct_GetAll: "distinct (map fst (GetAll TE g))"
  by (simp add: GetAll_def distinct_put_all)

lemma put_GetAll: "map_of (put_all (GetAll TE g) m) = map_of m ++ tm_load TE (Grid_entities g)"
  by (simp add: map_of_put_all map_of_rev_distinct distinct_GetAll map_of_GetAll)

definition index_inv :: "'g GridManager \<Rightarrow> bool" where
  "index_inv gm \<longleftrightarrow>
     (\<forall>gid eid c. cell gm gid eid = Some c \<longleftrightarrow> entities gm eid = Some \<lparr>loc_gridID = gid, loc_coord = c\<rparr>) \<and>
     (\<forall>eid loc. entities gm eid = Some loc \<longrightarrow> loc_gridID loc = getGridID gm (loc_coord loc))"

lemma index_cell:
  assumes "index_inv gm"
  shows "cell gm gid eid = scan gm {gid} eid"
proof (cases "cell gm gid eid")
  case None
  then show ?thesis
    using assms by (cases "entities gm eid") (auto simp: scan_def index_inv_def, metis location_eq option.distinct(1))
next
  case (Some c)
  then show ?thesis using assms by (auto simp: scan_def index_inv_def)
qed

lemma scan_Un: "scan gm (A \<union> B) = scan gm A ++ scan gm B"
  by (auto simp: scan_def map_add_def fun_eq_iff split: option.splits)

lemma visible_fold:
  assumes "index_inv gm"
  shows "map_of (fold (\<lambda>sid result. case tm_load TG (grids gm) sid of None \<Rightarrow> result
           | Some g \<Rightarrow> put_all (GetAll TE g) result) ids m) = map_of m ++ scan gm (set ids)"
proof (induction ids arbitrary: m)
  case Nil
  have "scan gm {} = Map.empty" by (auto simp: scan_def fun_eq_iff split: option.splits)
  then show ?case by simp
next
  case (Cons sid ids)
  have "map_of (case tm_load TG (grids gm) sid of None \<Rightarrow> m | Some g \<Rightarrow> put_all (GetAll TE g) m) = map_of m ++ cell gm sid"
    by (simp add: cell_def put_GetAll split: option.splits)
  moreover have "cell gm sid = scan gm {sid}" using index_cell [OF assms] by blast
  moreover have "scan gm (set (sid # ids)) = scan gm {sid} ++ scan gm (set ids)"
    using scan_Un [of gm "{sid}" "set ids"] by simp
  ultimately show ?case using Cons by simp
qed

lemma visible_scan:
  "index_inv gm \<Longrightarrow> map_of (visibleEntitiesLocked TG TE gid gm) = scan gm (set (getSurroundingGridIDs gm gid))"
  by (simp add: visibleEntitiesLocked_def visible_fold)

lemma distinct_visible: "distinct (map fst (visibleEntitiesLocked TG TE gid gm))"
proof -
  have "distinct (map fst m) \<Longrightarrow> distinct (map fst (fold (\<lambda>sid result. case tm_load TG (grids gm) sid of None \<Rightarrow> result
           | Some g \<Rightarrow> put_all (GetAll TE g) result) ids m))" for ids m
    by (induction ids arbitrary: m) (auto simp: distinct_put_all split: option.splits)
  then show ?thesis by (simp add: visibleEntitiesLocked_def)
qed

end

section \<open>Effect of the operations on the table\<close>

text \<open>The two managers have the same map, cells and listener.\<close>

definition same_map :: "'g GridManager \<Rightarrow> 'g GridManager \<Rightarrow> bool" where
  "same_map gm gm' \<longleftrightarrow>
     gridWidth gm' = gridWidth gm \<and> gridHeight gm' = gridHeight gm \<and> mapWidth gm' = mapWidth gm \<and>
     mapHeight gm' = mapHeight gm \<and> gridCols gm' = gridCols gm \<and> gridRows gm' = gridRows gm \<and>
     listener gm' = listener gm"

lemma same_map_refl [simp]: "same_map gm gm"
  by (simp add: same_map_def)

lemma same_map_getGridID: "same_map gm gm' \<Longrightarrow> getGridID gm' c = getGridID gm c"
  by (simp add: same_map_def getGridID_def)

lemma same_map_surrounding: "same_map gm gm' \<Longrightarrow> getSurroundingGridIDs gm' gid = getSurroundingGridIDs gm gid"
  by (simp only: same_map_def getSurroundingGridIDs_def)

lemma only_grids [simp]:
  "same_map gm (store_grid TG gid g gm)" "entities (store_grid TG gid g gm) = entities gm"
  "same_map gm (add_to_grid TG TE gid eid c gm)" "entities (add_to_grid TG TE gid eid c gm) = entities gm"
  by (auto simp: same_map_def store_grid_def add_to_grid_def getOrCreateGridLocked_def Let_def split: option.splits)

lemma only_grids_remove:
  "remove_from_grid TG TE gid eid gm = Some gm' \<Longrightarrow> same_map gm gm' \<and> entities gm' = entities gm"
  by (auto simp: same_map_def store_grid_def remove_from_grid_def Let_def split: option.splits if_splits)

lemma same_map_entities [simp]:
  "same_map gm (gm'\<lparr>entities := es\<rparr>) \<longleftrightarrow> same_map gm gm'"
  by (simp add: same_map_def)

lemma same_map_trans: "same_map gm gm' \<Longrightarrow> same_map gm' gm'' \<Longrightarrow> same_map gm gm''"
  by (simp add: same_map_def)

context grid_maps
begin

lemma cell_entities [simp]: "cell (gm\<lparr>entities := es\<rparr>) = cell gm"
  by (simp add: cell_def fun_eq_iff)

text \<open>
  Changing the table at one identifier keeps the invariant if the cells change the same way.
\<close>

lemma index_inv_update:
  assumes inv: "index_inv gm" and same: "same_map gm gm'"
    and tab: "entities gm' = (entities gm)(eid := loc)"
    and loc: "\<And>l. loc = Some l \<Longrightarrow> loc_gridID l = getGridID gm (loc_coord l)"
    and cells: "\<And>gid. cell gm' gid =
        (cell gm gid)(eid := (case loc of None \<Rightarrow> None | Some l \<Rightarrow> if loc_gridID l = gid then Some (loc_coord l) else None))"
  shows "index_inv gm'"
proof -
  have c: "cell gm' gid x = Some d \<longleftrightarrow> entities gm' x = Some \<lparr>loc_gridID = gid, loc_coord = d\<rparr>" for gid x d
  proof (cases "x = eid")
    case True
    show ?thesis
    proof (cases loc)
      case (Some l)
      then show ?thesis using True location_eq [of l gid d] by (simp add: cells tab)
    qed (simp add: True cells tab)
  next
    case False
    then show ?thesis using inv by (simp add: cells tab index_inv_def)
  qed
  moreover have "loc_gridID l = getGridID gm' (loc_coord l)" if "entities gm' x = Some l" for x l
    using that inv loc same_map_getGridID [OF same] by (auto simp: tab index_inv_def split: if_splits)
  ultimately show ?thesis by (simp add: index_inv_def)
qed

lemma scan_update:
  "entities gm' = (entities gm)(eid := l) \<Longrightarrow> (scan gm' A)(eid := None) = (scan gm A)(eid := None)"
  by (auto simp: scan_def fun_eq_iff)

lemma index_inv_cell_None: "index_inv gm \<Longrightarrow> entities gm eid = None \<Longrightarrow> cell gm gid eid = None"
  by (simp add: index_cell scan_def)

lemma index_inv_cell_other:
  "index_inv gm \<Longrightarrow> entities gm eid = Some l \<Longrightarrow> loc_gridID l \<noteq> gid \<Longrightarrow> cell gm gid eid = None"
  by (simp add: index_cell scan_def)

text \<open>The map of the entities around a cell, without one of them.\<close>

definition others :: "'g GridManager \<Rightarrow> int \<Rightarrow> int \<Rightarrow> coord_map" where
  "others gm gid eid = AList.delete eid (visibleEntitiesLocked TG TE gid gm)"

lemma map_of_others:
  "index_inv gm \<Longrightarrow> map_of (others gm gid eid) = (scan gm (set (getSurroundingGridIDs gm gid)))(eid := None)"
  by (simp add: others_def delete_conv' visible_scan)

lemma distinct_others [simp]: "distinct (map fst (others gm gid eid))"
  by (simp add: others_def distinct_delete distinct_visible)

lemma AddEntity_effect:
  fixes coord :: Coord
  assumes inv: "index_inv gm" and new: "entities gm eid = None"
  defines "gid \<equiv> getGridID gm coord"
  obtains gm' vis where
    "AddEntity TG TE eid coord gm = ((None, emitAOIEvents (listener gm) (concat (map (\<lambda>x.
       [enter_event x eid coord, enter_event eid x (coord_at vis x)]) (sortedEntityIDs vis)))), gm')"
    "index_inv gm'" "same_map gm gm'"
    "entities gm' = (entities gm)(eid \<mapsto> \<lparr>loc_gridID = gid, loc_coord = coord\<rparr>)"
    "distinct (map fst vis)" "map_of vis = (scan gm (set (getSurroundingGridIDs gm gid)))(eid := None)"
proof -
  define gm' where "gm' = (add_to_grid TG TE gid eid coord gm)
    \<lparr>entities := (entities gm)(eid \<mapsto> \<lparr>loc_gridID = gid, loc_coord = coord\<rparr>)\<rparr>"
  have same: "same_map gm gm'" and tab: "entities gm' = (entities gm)(eid \<mapsto> \<lparr>loc_gridID = gid, loc_coord = coord\<rparr>)"
    by (simp_all add: gm'_def)
  have inv': "index_inv gm'"
  proof (rule index_inv_update [OF inv same tab])
    show "cell gm' g = (cell gm g)(eid := case Some \<lparr>loc_gridID = gid, loc_coord = coord\<rparr> of None \<Rightarrow> None
        | Some l \<Rightarrow> if loc_gridID l = g then Some (loc_coord l) else None)" for g
      using index_inv_cell_None [OF inv new, of g] by (auto simp: gm'_def cell_add_to_grid fun_eq_iff)
  qed (simp add: gid_def)
  have "map_of (others gm' gid eid) = (scan gm (set (getSurroundingGridIDs gm gid)))(eid := None)"
    using map_of_others [OF inv', of gid eid] scan_update [OF tab] by (simp add: same_map_surrounding [OF same])
  moreover have "listener gm' = listener gm" using same by (simp add: same_map_def)
  then have "AddEntity TG TE eid coord gm = ((None, emitAOIEvents (listener gm) (concat (map (\<lambda>x.
       [enter_event x eid coord, enter_event eid x (coord_at (others gm' gid eid) x)]) (sortedEntityIDs (others gm' gid eid))))), gm')"
    using new by (simp add: AddEntity_def Let_def others_def gid_def gm'_def)
  ultimately show ?thesis using that inv' same tab distinct_others by blast
qed

lemma RemoveEntity_effect:
  assumes inv: "index_inv gm" and old: "entities gm eid = Some loc"
  obtains gm' vis where
    "RemoveEntity TG TE eid gm = ((None, emitAOIEvents (listener gm) (concat (map (\<lambda>x.
       [leave_event eid x (coord_at vis x), leave_event x eid (loc_coord loc)]) (sortedEntityIDs vis)))), gm')"
    "index_inv gm'" "same_map gm gm'" "entities gm' = (entities gm)(eid := None)"
    "distinct (map fst vis)" "map_of vis = (scan gm (set (getSurroundingGridIDs gm (loc_gridID loc))))(eid := None)"
proof -
  let ?vis = "others gm (loc_gridID loc) eid"
  have "cell gm (loc_gridID loc) eid = Some (loc_coord loc)"
    using index_cell [OF inv] old by (simp add: scan_def)
  then obtain gm1 where gm1: "remove_from_grid TG TE (loc_gridID loc) eid gm = Some gm1"
    using remove_from_grid_None by fastforce
  define gm' where "gm' = gm1\<lparr>entities := (entities gm)(eid := None)\<rparr>"
  note only = only_grids_remove [OF gm1]
  have same: "same_map gm gm'" and tab: "entities gm' = (entities gm)(eid := None)"
    using only by (simp_all add: gm'_def)
  have inv': "index_inv gm'"
  proof (rule index_inv_update [OF inv same tab])
    show "cell gm' g = (cell gm g)(eid := case None of None \<Rightarrow> None
        | Some l \<Rightarrow> if loc_gridID l = g then Some (loc_coord l) else None)" for g
      using index_inv_cell_other [OF inv old, of g] cell_remove_from_grid [OF gm1]
      by (auto simp: gm'_def fun_eq_iff)
  qed simp
  have "listener gm' = listener gm" using same by (simp add: same_map_def)
  then have "RemoveEntity TG TE eid gm = ((None, emitAOIEvents (listener gm) (concat (map (\<lambda>x.
       [leave_event eid x (coord_at ?vis x), leave_event x eid (loc_coord loc)]) (sortedEntityIDs ?vis)))), gm')"
    using old gm1 only by (simp add: RemoveEntity_def Let_def others_def gm'_def)
  then show ?thesis using that inv' same tab distinct_others map_of_others [OF inv] by blast
qed

lemma MoveEntityTo_effect:
  fixes coord :: Coord
  assumes inv: "index_inv gm" and old: "entities gm eid = Some loc"
  defines "gid \<equiv> getGridID gm coord"
  obtains gm' ov nv where
    "MoveEntityTo TG TE eid coord gm =
       ((None, emitAOIEvents (listener gm) (buildMoveEvents eid (loc_coord loc) coord ov nv)), gm')"
    "index_inv gm'" "same_map gm gm'"
    "entities gm' = (entities gm)(eid \<mapsto> \<lparr>loc_gridID = gid, loc_coord = coord\<rparr>)"
    "distinct (map fst ov)" "map_of ov = (scan gm (set (getSurroundingGridIDs gm (loc_gridID loc))))(eid := None)"
    "distinct (map fst nv)" "map_of nv = (scan gm (set (getSurroundingGridIDs gm gid)))(eid := None)"
proof -
  let ?old = "loc_gridID loc"
  let ?es = "(entities gm)(eid \<mapsto> \<lparr>loc_gridID = gid, loc_coord = coord\<rparr>)"
  have here: "cell gm ?old eid = Some (loc_coord loc)"
    using index_cell [OF inv] old by (simp add: scan_def)
  obtain gm1 where moved: "(if ?old = gid
      then (case tm_load TG (grids gm) ?old of None \<Rightarrow> None
            | Some g \<Rightarrow> Some (store_grid TG ?old (Grid_Update TE eid coord g) gm))
      else (case remove_from_grid TG TE ?old eid gm of None \<Rightarrow> None
            | Some gm \<Rightarrow> Some (add_to_grid TG TE gid eid coord gm))) = Some gm1"
      and same1: "same_map gm gm1" and tab1: "entities gm1 = entities gm"
      and cell1: "\<And>g. cell gm1 g = (cell gm g)(eid := if gid = g then Some coord else None)"
  proof (cases "?old = gid")
    case True
    obtain g where g: "tm_load TG (grids gm) ?old = Some g" using here by (auto simp: cell_def split: option.splits)
    then have "cell (store_grid TG ?old (Grid_Update TE eid coord g) gm) x = (cell gm x)(eid := if gid = x then Some coord else None)" for x
      using index_inv_cell_other [OF inv old, of x] True
      by (auto simp: cell_store_grid Grid_Update_def E.load_store fun_eq_iff) (simp add: cell_def)
    then show ?thesis using that [of "store_grid TG ?old (Grid_Update TE eid coord g) gm"] True g by auto
  next
    case False
    obtain gm2 where gm2: "remove_from_grid TG TE ?old eid gm = Some gm2"
      using remove_from_grid_None here by fastforce
    have "cell (add_to_grid TG TE gid eid coord gm2) x = (cell gm x)(eid := if gid = x then Some coord else None)" for x
      using index_inv_cell_other [OF inv old, of x] False
      by (auto simp: cell_add_to_grid cell_remove_from_grid [OF gm2] fun_eq_iff)
    then show ?thesis
      using that [of "add_to_grid TG TE gid eid coord gm2"] False gm2 only_grids_remove [OF gm2]
        same_map_trans [of gm gm2] by auto
  qed
  define gm' where "gm' = gm1\<lparr>entities := ?es\<rparr>"
  have same: "same_map gm gm'" and tab: "entities gm' = ?es" using same1 by (simp_all add: gm'_def)
  have inv': "index_inv gm'"
    by (rule index_inv_update [OF inv same tab]) (auto simp: gid_def gm'_def cell1)
  have "listener gm' = listener gm" using same by (simp add: same_map_def)
  then have "MoveEntityTo TG TE eid coord gm = ((None, emitAOIEvents (listener gm)
      (buildMoveEvents eid (loc_coord loc) coord (others gm ?old eid) (others gm gid eid))), gm')"
    unfolding MoveEntityTo_def Let_def old option.case gid_def [symmetric] moved
    using tab1 same1 by (simp add: others_def gm'_def same_map_def)
  then show ?thesis using that inv' same tab distinct_others map_of_others [OF inv] by blast
qed

end

section \<open>Neighbouring cells\<close>

lemma in_nested:
  "h \<in> set (concat (map (\<lambda>y. concat (map (F y) xs)) ys)) \<longleftrightarrow> (\<exists>y \<in> set ys. \<exists>x \<in> set xs. h \<in> set (F y x))"
  by auto

lemma in_if_single: "h \<in> set (if P then [x] else []) \<longleftrightarrow> P \<and> h = x"
  by (cases P) simp_all

lemma unit_steps: "(\<exists>d \<in> set [-1, 0, 1]. P d) \<longleftrightarrow> (\<exists>d :: int. \<bar>d\<bar> \<le> 1 \<and> P d)"
proof -
  have "d \<in> set [-1, 0, 1] \<longleftrightarrow> \<bar>d\<bar> \<le> 1" for d :: int by auto
  then show ?thesis by blast
qed

lemma surrounding_iff:
  assumes "0 < gridCols gm"
  shows "h \<in> set (getSurroundingGridIDs gm g) \<longleftrightarrow>
    0 \<le> h \<and> h < gridCols gm * gridRows gm \<and>
    \<bar>h mod gridCols gm - g mod gridCols gm\<bar> \<le> 1 \<and> \<bar>h div gridCols gm - g div gridCols gm\<bar> \<le> 1"
    (is "?in \<longleftrightarrow> ?near")
proof -
  let ?c = "gridCols gm" and ?r = "gridRows gm"
  have "?in \<longleftrightarrow> (\<exists>nx ny. \<bar>nx - g mod ?c\<bar> \<le> 1 \<and> \<bar>ny - g div ?c\<bar> \<le> 1 \<and>
      0 \<le> nx \<and> nx < ?c \<and> 0 \<le> ny \<and> ny < ?r \<and> h = ny * ?c + nx)"
    (is "_ \<longleftrightarrow> ?ex")
  proof
    assume ?in
    then obtain dx dy where "\<bar>dx\<bar> \<le> 1" "\<bar>dy\<bar> \<le> 1"
        "0 \<le> g mod ?c + dx" "g mod ?c + dx < ?c" "0 \<le> g div ?c + dy" "g div ?c + dy < ?r"
        "h = (g div ?c + dy) * ?c + (g mod ?c + dx)"
      unfolding getSurroundingGridIDs_def Let_def in_nested unit_steps in_if_single by blast
    then show ?ex by (intro exI [of _ "g mod ?c + dx"] exI [of _ "g div ?c + dy"]) auto
  next
    assume ?ex
    then obtain nx ny where n: "\<bar>nx - g mod ?c\<bar> \<le> 1" "\<bar>ny - g div ?c\<bar> \<le> 1"
        "0 \<le> nx" "nx < ?c" "0 \<le> ny" "ny < ?r" "h = ny * ?c + nx" by blast
    define dx dy where "dx = nx - g mod ?c" and "dy = ny - g div ?c"
    then have d: "\<bar>dx\<bar> \<le> 1" "\<bar>dy\<bar> \<le> 1" using n(1,2) by simp_all
    have "h \<in> set (let nx = g mod ?c + dx; ny = g div ?c + dy in
        if nx \<ge> 0 \<and> nx < ?c \<and> ny \<ge> 0 \<and> ny < ?r then [ny * ?c + nx] else [])"
      using n by (simp add: dx_def dy_def)
    then show ?in
      unfolding getSurroundingGridIDs_def Let_def in_nested unit_steps using d by blast
  qed
  also have "\<dots> \<longleftrightarrow> ?near"
  proof
    assume "\<exists>nx ny. \<bar>nx - g mod ?c\<bar> \<le> 1 \<and> \<bar>ny - g div ?c\<bar> \<le> 1 \<and>
      0 \<le> nx \<and> nx < ?c \<and> 0 \<le> ny \<and> ny < ?r \<and> h = ny * ?c + nx"
    then obtain nx ny where n: "\<bar>nx - g mod ?c\<bar> \<le> 1" "\<bar>ny - g div ?c\<bar> \<le> 1"
        "0 \<le> nx" "nx < ?c" "0 \<le> ny" "ny < ?r" "h = ny * ?c + nx" by blast
    have "h mod ?c = nx" "h div ?c = ny" using n by simp_all
    moreover have "(ny + 1) * ?c \<le> ?r * ?c" using n(6) assms by (intro mult_right_mono) simp_all
    then have "h < ?c * ?r" using n(4,7) by (simp add: algebra_simps)
    ultimately show ?near using n assms by simp
  next
    assume near: ?near
    have "h div ?c * ?c \<le> h" using assms pos_mod_sign [of ?c h] div_mult_mod_eq [of h ?c] by linarith
    then have "h div ?c * ?c < ?r * ?c" using near by (simp add: mult.commute)
    then have "h div ?c < ?r" using assms by (simp add: mult_less_cancel_right_pos)
    then show "\<exists>nx ny. \<bar>nx - g mod ?c\<bar> \<le> 1 \<and> \<bar>ny - g div ?c\<bar> \<le> 1 \<and>
      0 \<le> nx \<and> nx < ?c \<and> 0 \<le> ny \<and> ny < ?r \<and> h = ny * ?c + nx"
      using near assms by (intro exI [of _ "h mod ?c"] exI [of _ "h div ?c"]) (simp add: pos_imp_zdiv_nonneg_iff)
  qed
  finally show ?thesis .
qed

definition in_range :: "'g GridManager \<Rightarrow> int \<Rightarrow> bool" where
  "in_range gm gid \<longleftrightarrow> 0 \<le> gid \<and> gid < gridCols gm * gridRows gm"

lemma surrounding_sym:
  assumes "0 < gridCols gm" "in_range gm g" "in_range gm h"
  shows "h \<in> set (getSurroundingGridIDs gm g) \<longleftrightarrow> g \<in> set (getSurroundingGridIDs gm h)"
  using assms by (auto simp: surrounding_iff in_range_def abs_minus_commute)

section \<open>Replaying the events\<close>

text \<open>
  What a client that follows the events knows: for a watcher and a target, the last coordinate
  it was told, if the target is in view. An event that does not fit this knowledge is refused.
\<close>

type_synonym known = "int \<times> int \<rightharpoonup> Coord"

definition apply_event :: "AOIEvent \<Rightarrow> known \<Rightarrow> known option" where
  "apply_event ev k =
     (let p = (Watcher ev, Target ev) in
      case ev_Type ev of
        AOIEventEnter \<Rightarrow> if k p = None then Some (k(p \<mapsto> NewCoord ev)) else None
      | AOIEventLeave \<Rightarrow> if k p = Some (OldCoord ev) then Some (k(p := None)) else None
      | AOIEventMove \<Rightarrow> if k p = Some (OldCoord ev) then Some (k(p \<mapsto> NewCoord ev)) else None)"

fun replay :: "AOIEvent list \<Rightarrow> known \<Rightarrow> known option" where
  "replay [] k = Some k"
| "replay (ev # evs) k = (case apply_event ev k of None \<Rightarrow> None | Some k \<Rightarrow> replay evs k)"

lemma replay_append: "replay (xs @ ys) k = (case replay xs k of None \<Rightarrow> None | Some k \<Rightarrow> replay ys k)"
  by (induction xs arbitrary: k) (auto split: option.splits)

lemma apply_event_simps:
  "apply_event (enter_event w t c) k = (if k (w, t) = None then Some (k((w, t) \<mapsto> c)) else None)"
  "apply_event (leave_event w t c) k = (if k (w, t) = Some c then Some (k((w, t) := None)) else None)"
  "apply_event (move_event w t c d) k = (if k (w, t) = Some c then Some (k((w, t) \<mapsto> d)) else None)"
  by (simp_all add: apply_event_def Let_def enter_event_def leave_event_def move_event_def)

text \<open>Setting what a group of others knows of an entity, and what it knows of them.\<close>

definition set_pairs :: "int \<Rightarrow> int set \<Rightarrow> (int \<Rightarrow> Coord option) \<Rightarrow> (int \<Rightarrow> Coord option) \<Rightarrow> known \<Rightarrow> known" where
  "set_pairs eid A a b k =
     (\<lambda>(w, t). if t = eid \<and> w \<in> A then a w else if w = eid \<and> t \<in> A then b t else k (w, t))"

lemma replay_pairs:
  assumes f: "\<And>x k. x \<in> set xs \<Longrightarrow> k (x, eid) = p x \<Longrightarrow> k (eid, x) = q x \<Longrightarrow>
      replay (f x) k = Some (k((x, eid) := a x, (eid, x) := b x))"
    and "distinct xs" "eid \<notin> set xs" "\<And>x. x \<in> set xs \<Longrightarrow> k (x, eid) = p x \<and> k (eid, x) = q x"
  shows "replay (concat (map f xs)) k = Some (set_pairs eid (set xs) a b k)"
  using assms
proof (induction xs arbitrary: k)
  case Nil
  then show ?case by (simp add: set_pairs_def)
next
  case (Cons x xs)
  let ?k = "k((x, eid) := a x, (eid, x) := b x)"
  have "replay (f x) k = Some ?k" by (rule Cons.prems(1)) (use Cons.prems(4) in auto)
  moreover have "replay (concat (map f xs)) ?k = Some (set_pairs eid (set xs) a b ?k)"
    by (rule Cons.IH) (use Cons.prems in auto)
  moreover have "set_pairs eid (set xs) a b ?k = set_pairs eid (set (x # xs)) a b k"
    using Cons.prems(2,3) by (auto simp: set_pairs_def fun_eq_iff)
  ultimately show ?case by (simp add: replay_append)
qed

lemma concat_map_if: "concat (map (\<lambda>x. if P x then [] else f x) xs) = concat (map f (filter (\<lambda>x. \<not> P x) xs))"
  by (induction xs) auto

lemma set_sortedEntityIDs: "set (sortedEntityIDs m) = dom (map_of m)"
  by (simp add: sortedEntityIDs_def dom_map_of_conv_image_fst)

lemma distinct_sortedEntityIDs: "distinct (map fst m) \<Longrightarrow> distinct (sortedEntityIDs m)"
  by (simp add: sortedEntityIDs_def)

lemma coord_at_known: "x \<in> set (sortedEntityIDs vis) \<Longrightarrow> map_of vis x = Some (coord_at vis x)"
  by (auto simp: set_sortedEntityIDs coord_at_def)

lemma enter_pair:
  assumes "x \<noteq> eid" "k (x, eid) = None" "k (eid, x) = None"
  shows "replay [enter_event x eid c, enter_event eid x d] k = Some (k((x, eid) := Some c, (eid, x) := Some d))"
    and "replay [enter_event eid x d, enter_event x eid c] k = Some (k((x, eid) := Some c, (eid, x) := Some d))"
  using assms by (simp_all add: apply_event_simps fun_upd_twist [of "(x, eid)"])

lemma leave_pair:
  assumes "x \<noteq> eid" "k (x, eid) = Some c" "k (eid, x) = Some d"
  shows "replay [leave_event eid x d, leave_event x eid c] k = Some (k((x, eid) := None, (eid, x) := None))"
  using assms by (simp add: apply_event_simps fun_upd_twist [of "(x, eid)"])

lemma move_pair:
  assumes "x \<noteq> eid" "k (x, eid) = Some c"
  shows "replay [move_event x eid c d] k = Some (k((x, eid) := Some d, (eid, x) := k (eid, x)))"
  using assms by (simp add: apply_event_simps fun_upd_twist [of "(x, eid)"])

text \<open>What an entity sees: the other entities in its cell and the cells around it.\<close>

definition view :: "'g GridManager \<Rightarrow> known" where
  "view gm =
     (\<lambda>(w, t). case entities gm w of
        None \<Rightarrow> None
      | Some lw \<Rightarrow> if w = t then None else scan gm (set (getSurroundingGridIDs gm (loc_gridID lw))) t)"

definition placed :: "'g GridManager \<Rightarrow> bool" where
  "placed gm \<longleftrightarrow> 0 < gridCols gm \<and> (\<forall>eid loc. entities gm eid = Some loc \<longrightarrow> in_range gm (loc_gridID loc))"

lemma placed_sym:
  assumes "placed gm" "in_range gm g" "entities gm x = Some l"
  shows "loc_gridID l \<in> set (getSurroundingGridIDs gm g) \<longleftrightarrow> g \<in> set (getSurroundingGridIDs gm (loc_gridID l))"
  using assms surrounding_sym [of gm g "loc_gridID l"] by (auto simp: placed_def)

lemma view_absent: "entities gm eid = None \<Longrightarrow> view gm (w, eid) = None \<and> view gm (eid, t) = None"
  by (auto simp: view_def scan_def split: option.splits)

text \<open>
  The view after an entity got a new place: what it sees is a scan around that place, and, the
  neighbourhood being symmetric, exactly those entities see it.
\<close>

lemma view_update:
  assumes same: "same_map gm gm'" and tab: "entities gm' = (entities gm)(eid \<mapsto> \<lparr>loc_gridID = gid, loc_coord = c\<rparr>)"
    and "placed gm" "in_range gm gid"
    and vis: "vis = (scan gm (set (getSurroundingGridIDs gm gid)))(eid := None)"
  shows "view gm' (w, t) =
    (if w = eid then vis t
     else if t = eid then (if vis w = None then None else Some c)
     else view gm (w, t))"
proof -
  have scan': "t \<noteq> eid \<Longrightarrow> scan gm' A t = scan gm A t" for A t
    by (simp add: scan_def tab)
  show ?thesis
  proof (cases "w = eid")
    case True
    then show ?thesis by (simp add: view_def tab same_map_surrounding [OF same] scan' vis)
  next
    case w: False
    show ?thesis
    proof (cases "t = eid")
      case True
      then show ?thesis
        using w placed_sym [OF assms(3,4), of w]
        by (auto simp: view_def tab same_map_surrounding [OF same] vis scan_def split: option.splits)
    next
      case False
      then show ?thesis using w by (simp add: view_def tab same_map_surrounding [OF same] scan' split: option.splits)
    qed
  qed
qed

lemma view_remove:
  assumes same: "same_map gm gm'" and tab: "entities gm' = (entities gm)(eid := None)"
  shows "view gm' (w, t) = (if w = eid \<or> t = eid then None else view gm (w, t))"
  by (auto simp: view_def scan_def tab same_map_surrounding [OF same] split: option.splits)

lemma view_of:
  "entities gm eid = Some loc \<Longrightarrow> view gm (eid, t) = ((scan gm (set (getSurroundingGridIDs gm (loc_gridID loc))))(eid := None)) t"
  by (simp add: view_def)

lemma view_by:
  assumes "placed gm" "entities gm eid = Some loc" "w \<noteq> eid"
  shows "view gm (w, eid) = (if view gm (eid, w) = None then None else Some (loc_coord loc))"
proof -
  have "in_range gm (loc_gridID loc)" using assms by (simp add: placed_def)
  then show ?thesis
    using placed_sym [OF assms(1), of "loc_gridID loc" w] assms(2,3)
    by (auto simp: view_def scan_def split: option.splits)
qed

lemma placed_update:
  assumes "placed gm" "same_map gm gm'" "entities gm' = (entities gm)(eid := loc)"
    "\<And>l. loc = Some l \<Longrightarrow> in_range gm (loc_gridID l)"
  shows "placed gm'"
  using assms by (auto simp: placed_def same_map_def in_range_def split: if_splits)

context grid_maps
begin

lemma AddEntity_replay:
  assumes "index_inv gm" "placed gm" "listener gm" "in_range gm (getGridID gm coord)"
    and r: "AddEntity TG TE eid coord gm = ((err, evs), gm')"
  shows "index_inv gm' \<and> placed gm' \<and> same_map gm gm' \<and> replay evs (view gm) = Some (view gm')"
proof (cases "entities gm eid")
  case None
  let ?f = "\<lambda>vis x. [enter_event x eid coord, enter_event eid x (coord_at vis x)]"
  obtain vis where evs: "evs = concat (map (?f vis) (sortedEntityIDs vis))"
      and e: "index_inv gm'" "same_map gm gm'"
        "entities gm' = (entities gm)(eid \<mapsto> \<lparr>loc_gridID = getGridID gm coord, loc_coord = coord\<rparr>)"
      and vis: "distinct (map fst vis)" "map_of vis = (scan gm (set (getSurroundingGridIDs gm (getGridID gm coord))))(eid := None)"
    using AddEntity_effect [OF assms(1) None, of coord] r assms(3) by (auto simp: emitAOIEvents_def)
  have "replay evs (view gm) = Some (set_pairs eid (set (sortedEntityIDs vis)) (\<lambda>_. Some coord) (map_of vis) (view gm))"
    unfolding evs
  proof (rule replay_pairs [where p = "\<lambda>_. None" and q = "\<lambda>_. None"])
    show "eid \<notin> set (sortedEntityIDs vis)" by (simp add: set_sortedEntityIDs vis(2))
    then show "x \<in> set (sortedEntityIDs vis) \<Longrightarrow> k (x, eid) = None \<Longrightarrow> k (eid, x) = None \<Longrightarrow>
        replay (?f vis x) k = Some (k((x, eid) := Some coord, (eid, x) := map_of vis x))" for x k
      using coord_at_known [of x vis] enter_pair(1) [of x eid k] by (cases "x = eid") simp_all
  qed (use vis(1) view_absent [OF None] in \<open>simp_all add: distinct_sortedEntityIDs\<close>)
  also have "set_pairs eid (set (sortedEntityIDs vis)) (\<lambda>_. Some coord) (map_of vis) (view gm) = view gm'"
  proof (rule ext, clarify)
    fix w t
    have "map_of vis eid = None" by (simp add: vis(2))
    then show "set_pairs eid (set (sortedEntityIDs vis)) (\<lambda>_. Some coord) (map_of vis) (view gm) (w, t) = view gm' (w, t)"
      unfolding view_update [OF e(2,3) assms(2,4) vis(2)]
      using view_absent [OF None, of w t] view_absent [OF None, of eid] by (simp add: set_pairs_def set_sortedEntityIDs domIff)
  qed
  finally show ?thesis using e placed_update [OF assms(2) e(2,3)] assms(4) by simp
next
  case (Some l)
  then show ?thesis using r assms by (auto simp: AddEntity_def)
qed

lemma RemoveEntity_replay:
  assumes "index_inv gm" "placed gm" "listener gm"
    and r: "RemoveEntity TG TE eid gm = ((err, evs), gm')"
  shows "index_inv gm' \<and> placed gm' \<and> same_map gm gm' \<and> replay evs (view gm) = Some (view gm')"
proof (cases "entities gm eid")
  case None
  then show ?thesis using r assms by (auto simp: RemoveEntity_def)
next
  case (Some loc)
  let ?f = "\<lambda>vis x. [leave_event eid x (coord_at vis x), leave_event x eid (loc_coord loc)]"
  obtain vis where evs: "evs = concat (map (?f vis) (sortedEntityIDs vis))"
      and e: "index_inv gm'" "same_map gm gm'" "entities gm' = (entities gm)(eid := None)"
      and vis: "distinct (map fst vis)" "map_of vis = (scan gm (set (getSurroundingGridIDs gm (loc_gridID loc))))(eid := None)"
    using RemoveEntity_effect [OF assms(1) Some] r assms(3) by (auto simp: emitAOIEvents_def)
  have sees: "view gm (eid, t) = map_of vis t" for t using view_of [OF Some] vis(2) by simp
  have "replay evs (view gm) = Some (set_pairs eid (set (sortedEntityIDs vis)) (\<lambda>_. None) (\<lambda>_. None) (view gm))"
    unfolding evs
  proof (rule replay_pairs [where p = "\<lambda>_. Some (loc_coord loc)" and q = "map_of vis"])
    show ne: "eid \<notin> set (sortedEntityIDs vis)" by (simp add: set_sortedEntityIDs vis(2))
    then show "x \<in> set (sortedEntityIDs vis) \<Longrightarrow> k (x, eid) = Some (loc_coord loc) \<Longrightarrow> k (eid, x) = map_of vis x \<Longrightarrow>
        replay (?f vis x) k = Some (k((x, eid) := None, (eid, x) := None))" for x k
      using coord_at_known [of x vis] leave_pair [of x eid k] by (cases "x = eid") simp_all
    show "x \<in> set (sortedEntityIDs vis) \<Longrightarrow> view gm (x, eid) = Some (loc_coord loc) \<and> view gm (eid, x) = map_of vis x" for x
      using view_by [OF assms(2) Some, of x] ne sees [of x] by (cases "x = eid") (auto simp: set_sortedEntityIDs)
  qed (use vis(1) in \<open>simp add: distinct_sortedEntityIDs\<close>)
  also have "set_pairs eid (set (sortedEntityIDs vis)) (\<lambda>_. None) (\<lambda>_. None) (view gm) = view gm'"
  proof (rule ext, clarify)
    fix w t
    have "map_of vis eid = None" by (simp add: vis(2))
    then show "set_pairs eid (set (sortedEntityIDs vis)) (\<lambda>_. None) (\<lambda>_. None) (view gm) (w, t) = view gm' (w, t)"
      unfolding view_remove [OF e(2,3)]
      using sees [of t] sees [of w] view_by [OF assms(2) Some, of w]
      by (cases "w = eid") (simp_all add: set_pairs_def set_sortedEntityIDs domIff)
  qed
  finally show ?thesis using e placed_update [OF assms(2) e(2,3)] by simp
qed

end

context grid_maps
begin

lemma MoveEntityTo_replay:
  assumes "index_inv gm" "placed gm" "listener gm" "in_range gm (getGridID gm coord)"
    and r: "MoveEntityTo TG TE eid coord gm = ((err, evs), gm')"
  shows "index_inv gm' \<and> placed gm' \<and> same_map gm gm' \<and> replay evs (view gm) = Some (view gm')"
proof (cases "entities gm eid")
  case None
  then show ?thesis using r assms by (auto simp: MoveEntityTo_def)
next
  case (Some loc)
  let ?gid = "getGridID gm coord" and ?old = "loc_coord loc"
  obtain ov nv where evs: "evs = buildMoveEvents eid ?old coord ov nv"
      and e: "index_inv gm'" "same_map gm gm'"
        "entities gm' = (entities gm)(eid \<mapsto> \<lparr>loc_gridID = ?gid, loc_coord = coord\<rparr>)"
      and ov: "distinct (map fst ov)" "map_of ov = (scan gm (set (getSurroundingGridIDs gm (loc_gridID loc))))(eid := None)"
      and nv: "distinct (map fst nv)" "map_of nv = (scan gm (set (getSurroundingGridIDs gm ?gid)))(eid := None)"
    using r assms(3) by - (rule MoveEntityTo_effect [OF assms(1) Some, of coord], rule that, simp_all add: emitAOIEvents_def)
  define L where "L = filter (\<lambda>x. \<not> map_of nv x \<noteq> None) (sortedEntityIDs ov)"
  define N where "N = filter (\<lambda>x. \<not> map_of ov x \<noteq> None) (sortedEntityIDs nv)"
  define M where "M = filter (\<lambda>x. \<not> map_of nv x = None) (sortedEntityIDs ov)"
  note sets = L_def N_def M_def set_sortedEntityIDs domIff
  have lists: "distinct L" "distinct N" "distinct M" "eid \<notin> set L" "eid \<notin> set N" "eid \<notin> set M"
    using ov nv by (simp_all add: sets distinct_sortedEntityIDs)
  have sees: "view gm (eid, t) = map_of ov t" for t using view_of [OF Some] ov(2) by simp
  have seen: "view gm (w, eid) = (if map_of ov w = None then None else Some ?old)" if "w \<noteq> eid" for w
    using view_by [OF assms(2) Some that] sees by simp
  define k1 where "k1 = set_pairs eid (set L) (\<lambda>_. None) (\<lambda>_. None) (view gm)"
  have k1: "replay (concat (map (\<lambda>x. [leave_event eid x (coord_at ov x), leave_event x eid ?old]) L)) (view gm) = Some k1"
    unfolding k1_def
  proof (rule replay_pairs [where p = "\<lambda>_. Some ?old" and q = "map_of ov"])
    show "replay [leave_event eid x (coord_at ov x), leave_event x eid ?old] k = Some (k((x, eid) := None, (eid, x) := None))"
      if "x \<in> set L" "k (x, eid) = Some ?old" "k (eid, x) = map_of ov x" for x k
      using leave_pair [of x eid k] coord_at_known [of x ov] that lists(4) by (cases "x = eid") (simp_all add: L_def)
    show "view gm (x, eid) = Some ?old \<and> view gm (eid, x) = map_of ov x" if "x \<in> set L" for x
      using that lists(4) seen [of x] sees [of x] by (cases "x = eid") (simp_all add: sets)
  qed (use lists in simp_all)
  define k2 where "k2 = set_pairs eid (set N) (\<lambda>_. Some coord) (map_of nv) k1"
  have k2: "replay (concat (map (\<lambda>x. [enter_event eid x (coord_at nv x), enter_event x eid coord]) N)) k1 = Some k2"
    unfolding k2_def
  proof (rule replay_pairs [where p = "\<lambda>_. None" and q = "\<lambda>_. None"])
    show "replay [enter_event eid x (coord_at nv x), enter_event x eid coord] k = Some (k((x, eid) := Some coord, (eid, x) := map_of nv x))"
      if "x \<in> set N" "k (x, eid) = None" "k (eid, x) = None" for x k
      using enter_pair(2) [of x eid k] coord_at_known [of x nv] that lists(5) by (cases "x = eid") (simp_all add: N_def)
    show "k1 (x, eid) = None \<and> k1 (eid, x) = None" if "x \<in> set N" for x
      using that lists(5) seen [of x] sees [of x] by (cases "x = eid") (simp_all add: sets k1_def set_pairs_def)
  qed (use lists in simp_all)
  define k3 where "k3 = set_pairs eid (set M) (\<lambda>_. Some coord) (map_of ov) k2"
  have k3: "replay (concat (map (\<lambda>x. [move_event x eid ?old coord]) M)) k2 = Some k3"
    unfolding k3_def
  proof (rule replay_pairs [where p = "\<lambda>_. Some ?old" and q = "map_of ov"])
    show "replay [move_event x eid ?old coord] k = Some (k((x, eid) := Some coord, (eid, x) := map_of ov x))"
      if "x \<in> set M" "k (x, eid) = Some ?old" "k (eid, x) = map_of ov x" for x k
      using move_pair [of x eid k ?old coord] that lists(6) by (cases "x = eid") simp_all
    show "k2 (x, eid) = Some ?old \<and> k2 (eid, x) = map_of ov x" if "x \<in> set M" for x
      using that lists(6) seen [of x] sees [of x] by (cases "x = eid") (auto simp: sets k1_def k2_def set_pairs_def)
  qed (use lists in simp_all)
  have "k3 = view gm'"
  proof (rule ext, clarify)
    fix w t
    have none: "map_of ov eid = None" "map_of nv eid = None" by (simp_all add: ov(2) nv(2))
    have same: "map_of nv x = map_of ov x" if "map_of nv x \<noteq> None" "map_of ov x \<noteq> None" for x
      using that by (auto simp: ov(2) nv(2) scan_def split: option.splits if_splits)
    show "k3 (w, t) = view gm' (w, t)"
      unfolding view_update [OF e(2,3) assms(2,4) nv(2)]
      using none same [of t] same [of w] seen [of w] sees [of t] sees [of w]
      by (cases "w = eid"; cases "t = eid") (auto simp: k3_def k2_def k1_def set_pairs_def sets)
  qed
  moreover have "evs = concat (map (\<lambda>x. [leave_event eid x (coord_at ov x), leave_event x eid ?old]) L) @
      concat (map (\<lambda>x. [enter_event eid x (coord_at nv x), enter_event x eid coord]) N) @
      concat (map (\<lambda>x. [move_event x eid ?old coord]) M)"
    unfolding evs buildMoveEvents_def concat_map_if L_def N_def M_def ..
  ultimately have "replay evs (view gm) = Some (view gm')" by (simp only: replay_append k1 k2 k3 option.case)
  then show ?thesis using e placed_update [OF assms(2) e(2,3)] assms(4) by simp
qed

end

section \<open>Every coordinate has a cell of the grid\<close>

text \<open>A value of type \<^verbatim>\<open>float64\<close>: a finite one is representable.\<close>

definition valid_f64 :: "float64 \<Rightarrow> bool" where
  "valid_f64 x \<longleftrightarrow> (case x of Fin q \<Rightarrow> representable q | _ \<Rightarrow> True)"

definition valid_Coord :: "Coord \<Rightarrow> bool" where
  "valid_Coord c \<longleftrightarrow> valid_f64 (coord_X c) \<and> valid_f64 (coord_Y c)"

text \<open>
  A side on which the cells are counted right: the map is an exact multiple of the cell, or the
  rounded quotient is not an integer.
\<close>

fun exact_axis :: "float64 \<Rightarrow> float64 \<Rightarrow> bool" where
  "exact_axis (Fin m) (Fin g) \<longleftrightarrow> m / g = of_int \<lfloor>m / g\<rfloor> \<or> round_pos (m / g) \<noteq> of_int \<lfloor>round_pos (m / g)\<rfloor>"
| "exact_axis _ _ \<longleftrightarrow> False"

lemma quotient_floor:
  assumes "0 < v" "0 < g" "round_pos (v / g) < 2 ^ 31"
  shows "to_int64 (fdiv (Fin v) (Fin g)) = \<lfloor>round_pos (v / g)\<rfloor>" "0 \<le> \<lfloor>round_pos (v / g)\<rfloor>"
proof -
  have n: "0 \<le> round_pos (v / g)" using assms by (intro round_pos_nonneg) simp
  have "(2 :: rat) ^ 31 \<le> 2 ^ 1024" by (intro power_increasing) simp_all
  then have "\<not> 2 ^ 1024 \<le> round_pos (v / g)" using assms(3) by linarith
  then have "fround (v / g) = Fin (round_pos (v / g))" using assms fround_nonneg [of "v / g"] by simp
  moreover have "\<lfloor>round_pos (v / g)\<rfloor> < 2 ^ 31" using assms(3) by (simp add: floor_less_iff)
  ultimately show "to_int64 (fdiv (Fin v) (Fin g)) = \<lfloor>round_pos (v / g)\<rfloor>" "0 \<le> \<lfloor>round_pos (v / g)\<rfloor>"
    using n assms(2) by (auto simp: Let_def)
qed

lemma axis_below:
  assumes "0 < v" "v < m" "0 < g" "representable v" "representable m"
    and "exact_axis (Fin m) (Fin g)" "round_pos (m / g) < 2 ^ 31"
  shows "\<lfloor>round_pos (v / g)\<rfloor> < \<lceil>round_pos (m / g)\<rceil>"
proof (cases "m / g = of_int \<lfloor>m / g\<rfloor>")
  case True
  define k where "k = \<lfloor>m / g\<rfloor>"
  have k: "m / g = of_int k" using True by (simp add: k_def)
  have "0 < m / g" using assms by simp
  then have k1: "1 \<le> k" unfolding k by simp
  have "v \<le> m * (1 - 1 / 2 ^ 53)" using representable_gap assms by blast
  then have "v / g \<le> m * (1 - 1 / 2 ^ 53) / g" using assms(3) by (intro divide_right_mono) simp_all
  also have "\<dots> = m / g * (1 - 1 / 2 ^ 53)" by simp
  finally have "v / g \<le> of_int k * (1 - 1 / 2 ^ 53)" unfolding k .
  then have "round_pos (v / g) < of_int k" using assms k1 by (intro round_strict) simp_all
  moreover have "round_pos (of_int k) = of_int k"
    using round_pos_int [OF k1] assms(7) by (simp add: k)
  ultimately show ?thesis by (simp add: k floor_less_iff)
next
  case False
  then have n: "round_pos (m / g) \<noteq> of_int \<lfloor>round_pos (m / g)\<rfloor>" using assms(6) by simp
  have "v / g \<le> m / g" using assms by (simp add: divide_right_mono)
  then have "\<lfloor>round_pos (v / g)\<rfloor> \<le> \<lfloor>round_pos (m / g)\<rfloor>"
    using assms by (intro floor_mono round_pos_mono) simp_all
  also have "\<dots> < \<lceil>round_pos (m / g)\<rceil>" using n by linarith
  finally show ?thesis .
qed

lemma gridAxis_in_range:
  assumes "0 < m" "0 < g" "representable m" "exact_axis (Fin m) (Fin g)" "round_pos (m / g) < 2 ^ 31"
    and count: "count = \<lceil>round_pos (m / g)\<rceil>" "0 < count" and "valid_f64 x"
  shows "0 \<le> gridAxis x (Fin m) (Fin g) count \<and> gridAxis x (Fin m) (Fin g) count < count"
proof (cases x)
  case (Fin v)
  show ?thesis
  proof (cases "0 < v \<and> v < m")
    case True
    have "v / g \<le> m / g" using True assms(2) by (simp add: divide_right_mono)
    then have "round_pos (v / g) \<le> round_pos (m / g)" using True assms(2) by (intro round_pos_mono) simp_all
    then have small: "round_pos (v / g) < 2 ^ 31" using assms(5) by linarith
    have "gridAxis x (Fin m) (Fin g) count = \<lfloor>round_pos (v / g)\<rfloor>"
      using True quotient_floor(1) [of v g] small assms(2) by (simp add: gridAxis_def IsInf1_def Fin del: to_int64.simps fdiv.simps)
    moreover have "\<lfloor>round_pos (v / g)\<rfloor> < count"
      using axis_below [of v m g] True assms by (simp add: Fin valid_f64_def)
    ultimately show ?thesis using quotient_floor(2) [of v g] small True assms(2) by simp
  next
    case False
    then show ?thesis using count by (auto simp: gridAxis_def Fin)
  qed
qed (use count in \<open>simp_all add: gridAxis_def IsInf1_def\<close>)

lemma new_manager_axes:
  assumes "NewGridManagerChecked TG mw mh gw gh = Inr gm"
  obtains m n g h where "mw = Fin m" "mh = Fin n" "gw = Fin g" "gh = Fin h" "0 < m" "0 < n" "0 < g" "0 < h"
    "round_pos (m / g) < 2 ^ 31" "round_pos (n / h) < 2 ^ 31"
    "gridCols gm = \<lceil>round_pos (m / g)\<rceil>" "gridRows gm = \<lceil>round_pos (n / h)\<rceil>" "0 < gridCols gm" "0 < gridRows gm"
    "mapWidth gm = mw" "mapHeight gm = mh" "gridWidth gm = gw" "gridHeight gm = gh"
    "grids gm = tm_new TG" "entities gm = Map.empty"
proof -
  have dim: "\<exists>q. x = Fin q \<and> 0 < q" if "validDimension x" for x
    using that by (cases x) (auto simp: validDimension_def IsInf0_def)
  have v: "validDimension mw" "validDimension mh" "validDimension gw" "validDimension gh"
      "validDimension (Ceil (fdiv mw gw))" "validDimension (Ceil (fdiv mh gh))"
      "\<not> flt maxGridAxisCount (Ceil (fdiv mw gw))" "\<not> flt maxGridAxisCount (Ceil (fdiv mh gh))"
    and gm: "gm = \<lparr>gridWidth = gw, gridHeight = gh, mapWidth = mw, mapHeight = mh, gridCols = to_int64 (Ceil (fdiv mw gw)),
       gridRows = to_int64 (Ceil (fdiv mh gh)), grids = tm_new TG, entities = Map.empty, listener = False\<rparr>"
    using assms by (simp_all add: NewGridManagerChecked_def Let_def split: if_splits)
  obtain m n g h where f: "mw = Fin m" "mh = Fin n" "gw = Fin g" "gh = Fin h" and pos: "0 < m" "0 < n" "0 < g" "0 < h"
    using dim v(1-4) by metis
  have axis: "round_pos (a / b) < 2 ^ 31 \<and> to_int64 (Ceil (fdiv (Fin a) (Fin b))) = \<lceil>round_pos (a / b)\<rceil> \<and>
      0 < \<lceil>round_pos (a / b)\<rceil>"
    if "0 < a" "0 < b" and c: "validDimension (Ceil (fdiv (Fin a) (Fin b)))" "\<not> flt maxGridAxisCount (Ceil (fdiv (Fin a) (Fin b)))"
    for a b
  proof -
    have d: "fdiv (Fin a) (Fin b) = (if 2 ^ 1024 \<le> round_pos (a / b) then PosInf else Fin (round_pos (a / b)))"
      using that(1,2) fround_nonneg [of "a / b"] by simp
    then have d': "fdiv (Fin a) (Fin b) = Fin (round_pos (a / b))"
      using c(1) by (simp add: validDimension_def IsInf0_def split: if_splits)
    then have "0 < \<lceil>round_pos (a / b)\<rceil>" and le: "(of_int \<lceil>round_pos (a / b)\<rceil> :: rat) \<le> 2 ^ 31 - 1"
      using c by (simp_all add: validDimension_def maxGridAxisCount_def not_less)
    moreover have "\<lceil>round_pos (a / b)\<rceil> \<le> 2 ^ 31 - 1" using le of_int_le_iff [of _ "2 ^ 31 - 1", where ?'a = rat] by simp
    moreover have "round_pos (a / b) < 2 ^ 31" using le by linarith
    ultimately show ?thesis by (simp add: d' Let_def del: fdiv.simps)
  qed
  show ?thesis
    using that [OF f pos] axis [OF pos(1,3)] axis [OF pos(2,4)] v(5-8) gm by (simp add: f)
qed

section \<open>Runs\<close>

datatype aoi_op = OpAdd int Coord | OpRemove int | OpMove int Coord

fun aoi_step ::
    "('g, int, 'e Grid) tmap \<Rightarrow> ('e, int, Coord) tmap \<Rightarrow> aoi_op \<Rightarrow> 'g GridManager \<Rightarrow> (aoi_error option \<times> AOIEvent list) \<times> 'g GridManager" where
  "aoi_step TG TE (OpAdd eid c) gm = AddEntity TG TE eid c gm"
| "aoi_step TG TE (OpRemove eid) gm = RemoveEntity TG TE eid gm"
| "aoi_step TG TE (OpMove eid c) gm = MoveEntityTo TG TE eid c gm"

text \<open>The events of a run, in order, and the manager at its end.\<close>

fun aoi_run ::
    "('g, int, 'e Grid) tmap \<Rightarrow> ('e, int, Coord) tmap \<Rightarrow> aoi_op list \<Rightarrow> 'g GridManager \<Rightarrow> AOIEvent list \<times> 'g GridManager" where
  "aoi_run TG TE [] gm = ([], gm)"
| "aoi_run TG TE (x # xs) gm =
     (case aoi_step TG TE x gm of ((err, evs), gm) \<Rightarrow> (case aoi_run TG TE xs gm of (rest, gm) \<Rightarrow> (evs @ rest, gm)))"

text \<open>The specification: a table of coordinates.\<close>

fun table_step :: "aoi_op \<Rightarrow> (int \<rightharpoonup> Coord) \<Rightarrow> int \<rightharpoonup> Coord" where
  "table_step (OpAdd eid c) t = (if t eid = None then t(eid \<mapsto> c) else t)"
| "table_step (OpRemove eid) t = t(eid := None)"
| "table_step (OpMove eid c) t = (if t eid = None then t else t(eid \<mapsto> c))"

definition table :: "'g GridManager \<Rightarrow> int \<rightharpoonup> Coord" where
  "table gm eid = map_option loc_coord (entities gm eid)"

text \<open>Every coordinate an operation names is filed in a cell of the grid.\<close>

fun op_filed :: "'g GridManager \<Rightarrow> aoi_op \<Rightarrow> bool" where
  "op_filed gm (OpAdd eid c) = in_range gm (getGridID gm c)"
| "op_filed gm (OpRemove eid) = True"
| "op_filed gm (OpMove eid c) = in_range gm (getGridID gm c)"

lemma table_update: "entities gm' = (entities gm)(eid := l) \<Longrightarrow> table gm' = (table gm)(eid := map_option loc_coord l)"
  by (auto simp: table_def fun_eq_iff)

context grid_maps
begin

lemma aoi_step_index:
  assumes "index_inv gm"
  shows "index_inv (snd (aoi_step TG TE x gm)) \<and> same_map gm (snd (aoi_step TG TE x gm)) \<and>
    table (snd (aoi_step TG TE x gm)) = table_step x (table gm)"
proof (cases x)
  case (OpAdd eid c)
  show ?thesis
  proof (cases "entities gm eid")
    case None
    from AddEntity_effect [OF assms None, of c] show ?thesis
      by (rule; simp add: OpAdd table_update table_def None)
  qed (simp add: OpAdd AddEntity_def assms table_def)
next
  case (OpRemove eid)
  show ?thesis
  proof (cases "entities gm eid")
    case None
    then have "(table gm)(eid := None) = table gm" by (auto simp: table_def fun_eq_iff)
    then show ?thesis by (simp add: OpRemove RemoveEntity_def assms None)
  next
    case (Some loc)
    from RemoveEntity_effect [OF assms Some] show ?thesis by (rule; simp add: OpRemove table_update)
  qed
next
  case (OpMove eid c)
  show ?thesis
  proof (cases "entities gm eid")
    case (Some loc)
    from MoveEntityTo_effect [OF assms Some, of c] show ?thesis
      by (rule; simp add: OpMove table_update table_def Some)
  qed (simp add: OpMove MoveEntityTo_def assms table_def)
qed

lemma aoi_run_index:
  "index_inv gm \<Longrightarrow> index_inv (snd (aoi_run TG TE xs gm)) \<and> same_map gm (snd (aoi_run TG TE xs gm)) \<and>
    table (snd (aoi_run TG TE xs gm)) = fold table_step xs (table gm)"
proof (induction xs arbitrary: gm)
  case (Cons x xs)
  note s = aoi_step_index [OF Cons.prems, of x]
  have "snd (aoi_run TG TE (x # xs) gm) = snd (aoi_run TG TE xs (snd (aoi_step TG TE x gm)))"
    by (simp add: split_beta)
  then show ?case using s Cons.IH [of "snd (aoi_step TG TE x gm)"] same_map_trans by fastforce
qed simp

lemma aoi_run_replay:
  assumes "index_inv gm" "placed gm" "listener gm" "list_all (op_filed gm) xs"
  shows "replay (fst (aoi_run TG TE xs gm)) (view gm) = Some (view (snd (aoi_run TG TE xs gm)))"
  using assms
proof (induction xs arbitrary: gm)
  case (Cons x xs)
  obtain err evs gm' where s: "aoi_step TG TE x gm = ((err, evs), gm')" by (metis prod.exhaust)
  have r: "index_inv gm' \<and> placed gm' \<and> same_map gm gm' \<and> replay evs (view gm) = Some (view gm')"
  proof (cases x)
    case (OpAdd eid c)
    then show ?thesis using AddEntity_replay [OF Cons.prems(1-3), of c] s Cons.prems(4) by simp
  next
    case (OpRemove eid)
    then show ?thesis using RemoveEntity_replay [OF Cons.prems(1-3)] s by simp
  next
    case (OpMove eid c)
    then show ?thesis using MoveEntityTo_replay [OF Cons.prems(1-3), of c] s Cons.prems(4) by simp
  qed
  have "op_filed gm' = op_filed gm"
  proof
    show "op_filed gm' y = op_filed gm y" for y
      using r same_map_getGridID [of gm gm'] by (cases y) (auto simp: same_map_def in_range_def)
  qed
  moreover have "listener gm'" using r Cons.prems(3) by (simp add: same_map_def)
  ultimately have "replay (fst (aoi_run TG TE xs gm')) (view gm') = Some (view (snd (aoi_run TG TE xs gm')))"
    using Cons.IH [of gm'] r Cons.prems(4) by simp
  then show ?case using r by (simp add: s split_beta replay_append)
qed simp

lemma index_inv_empty: "grids gm = tm_new TG \<Longrightarrow> entities gm = Map.empty \<Longrightarrow> index_inv gm"
  by (simp add: index_inv_def cell_def G.load_new)

end

interpretation alist_grid: grid_maps alist_tm alist_tm
  by unfold_locales

text \<open>The column and the row of a coordinate, and when two coordinates are in cells that touch.\<close>

definition cell_col :: "'g GridManager \<Rightarrow> Coord \<Rightarrow> int" where
  "cell_col gm c = gridAxis (coord_X c) (mapWidth gm) (gridWidth gm) (gridCols gm)"

definition cell_row :: "'g GridManager \<Rightarrow> Coord \<Rightarrow> int" where
  "cell_row gm c = gridAxis (coord_Y c) (mapHeight gm) (gridHeight gm) (gridRows gm)"

definition cells_touch :: "'g GridManager \<Rightarrow> Coord \<Rightarrow> Coord \<Rightarrow> bool" where
  "cells_touch gm c d \<longleftrightarrow> \<bar>cell_col gm d - cell_col gm c\<bar> \<le> 1 \<and> \<bar>cell_row gm d - cell_row gm c\<bar> \<le> 1"

lemma new_manager_cells:
  assumes "NewGridManagerChecked TG mw mh gw gh = Inr gm" "valid_f64 mw" "valid_f64 mh"
    "exact_axis mw gw" "exact_axis mh gh" "valid_Coord c"
  shows "0 \<le> cell_col gm c \<and> cell_col gm c < gridCols gm" "0 \<le> cell_row gm c \<and> cell_row gm c < gridRows gm"
proof -
  obtain m n g h where f: "mw = Fin m" "mh = Fin n" "gw = Fin g" "gh = Fin h" "0 < m" "0 < n" "0 < g" "0 < h"
      "round_pos (m / g) < 2 ^ 31" "round_pos (n / h) < 2 ^ 31"
      "gridCols gm = \<lceil>round_pos (m / g)\<rceil>" "gridRows gm = \<lceil>round_pos (n / h)\<rceil>" "0 < gridCols gm" "0 < gridRows gm"
      "mapWidth gm = mw" "mapHeight gm = mh" "gridWidth gm = gw" "gridHeight gm = gh"
    by (rule new_manager_axes [OF assms(1)])
  show "0 \<le> cell_col gm c \<and> cell_col gm c < gridCols gm"
    using gridAxis_in_range [of m g "gridCols gm" "coord_X c"] f assms(2,4,6)
    by (auto simp: cell_col_def valid_f64_def valid_Coord_def)
  show "0 \<le> cell_row gm c \<and> cell_row gm c < gridRows gm"
    using gridAxis_in_range [of n h "gridRows gm" "coord_Y c"] f assms(3,5,6)
    by (auto simp: cell_row_def valid_f64_def valid_Coord_def)
qed

lemma getGridID_parts:
  assumes "0 \<le> cell_col gm c \<and> cell_col gm c < gridCols gm" "0 \<le> cell_row gm c \<and> cell_row gm c < gridRows gm"
  shows "in_range gm (getGridID gm c)" "getGridID gm c mod gridCols gm = cell_col gm c"
    "getGridID gm c div gridCols gm = cell_row gm c"
proof -
  have id: "getGridID gm c = cell_row gm c * gridCols gm + cell_col gm c"
    by (simp add: getGridID_def cell_col_def cell_row_def)
  have "(cell_row gm c + 1) * gridCols gm \<le> gridRows gm * gridCols gm" using assms by (intro mult_right_mono) simp_all
  then have "getGridID gm c < gridCols gm * gridRows gm" using assms unfolding id by (simp add: algebra_simps)
  moreover have "0 \<le> getGridID gm c" unfolding id using assms by simp
  ultimately show "in_range gm (getGridID gm c)" by (simp add: in_range_def)
  show "getGridID gm c mod gridCols gm = cell_col gm c" "getGridID gm c div gridCols gm = cell_row gm c"
    using assms unfolding id by simp_all
qed

lemma surrounding_touch:
  assumes "in_range gm (getGridID gm d)" "getGridID gm c mod gridCols gm = cell_col gm c"
    "getGridID gm c div gridCols gm = cell_row gm c" "getGridID gm d mod gridCols gm = cell_col gm d"
    "getGridID gm d div gridCols gm = cell_row gm d" "0 < gridCols gm"
  shows "getGridID gm d \<in> set (getSurroundingGridIDs gm (getGridID gm c)) \<longleftrightarrow> cells_touch gm c d"
  using assms by (simp add: surrounding_iff in_range_def cells_touch_def)

section \<open>Properties\<close>

text \<open>
  Property C16. The index by cell is exact. After any operations on a manager that the checked
  constructor accepts, the table of coordinates is what the operations say, a query of the
  surroundings returns what a scan of the whole table for the nine cells gives, and a query of one
  cell what a scan for that cell gives.
\<close>

theorem aoi_index_exact:
  assumes "tm_laws TG" "tm_laws TE" "NewGridManagerChecked TG mw mh gw gh = Inr gm"
  shows "table (snd (aoi_run TG TE xs gm)) = fold table_step xs Map.empty \<and>
    map_of (GetSurroundingEntities TG TE c (snd (aoi_run TG TE xs gm))) =
      scan (snd (aoi_run TG TE xs gm)) (set (getSurroundingGridIDs gm (getGridID gm c))) \<and>
    map_of (GetEntitiesInGrid TG TE c (snd (aoi_run TG TE xs gm))) =
      scan (snd (aoi_run TG TE xs gm)) {getGridID gm c}"
proof -
  note loc = grid_maps.intro [OF typed_map.intro [OF assms(1)] typed_map.intro [OF assms(2)]]
  have new: "grids gm = tm_new TG" "entities gm = Map.empty" by (rule new_manager_axes [OF assms(3)]; assumption)+
  let ?gm = "snd (aoi_run TG TE xs gm)"
  note run = grid_maps.aoi_run_index [OF loc grid_maps.index_inv_empty [OF loc new], of xs]
  have t: "table gm = Map.empty" by (simp add: table_def new fun_eq_iff)
  have "map_of (GetEntitiesInGrid TG TE c ?gm) = grid_maps.cell TG TE ?gm (getGridID ?gm c)"
    by (simp add: GetEntitiesInGrid_def grid_maps.cell_def [OF loc] grid_maps.map_of_GetAll [OF loc] split: option.splits)
  also have "\<dots> = scan ?gm {getGridID ?gm c}" using grid_maps.index_cell [OF loc] run by blast
  finally show ?thesis
    using run grid_maps.visible_scan [OF loc, of ?gm "getGridID ?gm c"] same_map_getGridID [of gm ?gm c]
      same_map_surrounding [of gm ?gm]
    by (simp add: GetSurroundingEntities_def t)
qed

text \<open>A square map of 100 by 100 with cells of 10 by 10.\<close>

definition sample_map :: "((int \<times> (int \<times> Coord) list Grid) list) GridManager" where
  "sample_map = \<lparr>gridWidth = Fin 10, gridHeight = Fin 10, mapWidth = Fin 100, mapHeight = Fin 100, gridCols = 10,
     gridRows = 10, grids = [], entities = Map.empty, listener = False\<rparr>"

lemma fdiv_int:
  assumes "0 < b" "a / b = of_int k" "1 \<le> k" "k < 2 ^ 52"
  shows "fdiv (Fin a) (Fin b) = Fin (of_int k)"
  using representable_small_int [OF assms(3,4)] assms(1,2) by (simp add: representable_def)

lemma sample_map_new: "NewGridManagerChecked alist_tm (Fin 100) (Fin 100) (Fin 10) (Fin 10) = Inr sample_map"
proof -
  have "fdiv (Fin 100) (Fin 10) = Fin 10" using fdiv_int [of 10 100 10] by simp
  then show ?thesis
    by (simp add: NewGridManagerChecked_def Let_def validDimension_def IsInf0_def maxGridAxisCount_def sample_map_def
      del: fdiv.simps)
qed

definition spot :: "rat \<Rightarrow> rat \<Rightarrow> Coord" where
  "spot x y = \<lparr>coord_X = Fin x, coord_Y = Fin y\<rparr>"

theorem aoi_index_exact_witness:
  "map_of (GetEntitiesInGrid alist_tm alist_tm (spot 0 0) (snd (aoi_run alist_tm alist_tm [OpAdd 1 (spot 0 0)] sample_map))) =
   scan (snd (aoi_run alist_tm alist_tm [OpAdd 1 (spot 0 0)] sample_map)) {getGridID sample_map (spot 0 0)}"
  using aoi_index_exact [OF alist_tm_laws alist_tm_laws sample_map_new, of "[OpAdd 1 (spot 0 0)]" "spot 0 0"] by blast

text \<open>
  Property C15. The events are exact as long as every coordinate named by an operation is filed in
  a cell of the grid. The concurrent maps are assumed to follow their laws, and a listener is set.
  Following the events from the start, each one fits what is known (nobody enters twice, nobody
  leaves or moves unseen, every old coordinate is the last one told), and at the end each entity is
  known to exactly the entities in the cells around its own, with its true coordinate. If both sides
  of the map are exact multiples of the cell, or their rounded quotients are not integers, then
  every coordinate is filed in a cell of the grid, and the cells around it are exactly those whose
  column and row differ by at most one. Without this the edge column can wrap, as the last theorem
  of this file shows.
\<close>

theorem aoi_events_exact:
  assumes "tm_laws TG" "tm_laws TE" "NewGridManagerChecked TG mw mh gw gh = Inr gm"
    and "list_all (op_filed gm) xs"
  shows "replay (fst (aoi_run TG TE xs (SetListener True gm))) Map.empty =
      Some (view (snd (aoi_run TG TE xs (SetListener True gm)))) \<and>
    (valid_f64 mw \<and> valid_f64 mh \<and> exact_axis mw gw \<and> exact_axis mh gh \<and> valid_Coord c \<and> valid_Coord d \<longrightarrow>
      op_filed gm (OpAdd eid c) \<and> op_filed gm (OpMove eid c) \<and>
      (getGridID gm d \<in> set (getSurroundingGridIDs gm (getGridID gm c)) \<longleftrightarrow> cells_touch gm c d))"
proof (intro conjI impI)
  note loc = grid_maps.intro [OF typed_map.intro [OF assms(1)] typed_map.intro [OF assms(2)]]
  let ?gm = "SetListener True gm"
  have new: "grids gm = tm_new TG" "entities gm = Map.empty" "0 < gridCols gm"
    by (rule new_manager_axes [OF assms(3)]; assumption)+
  have "grid_maps.index_inv TG TE ?gm" using new by (intro grid_maps.index_inv_empty [OF loc]) (simp_all add: SetListener_def)
  moreover have "placed ?gm" using new by (simp add: placed_def SetListener_def)
  moreover have "op_filed ?gm = op_filed gm"
  proof
    show "op_filed ?gm y = op_filed gm y" for y by (cases y) (simp_all add: in_range_def SetListener_def getGridID_def)
  qed
  ultimately have "replay (fst (aoi_run TG TE xs ?gm)) (view ?gm) = Some (view (snd (aoi_run TG TE xs ?gm)))"
    using assms(4) by (intro grid_maps.aoi_run_replay [OF loc]) (simp_all add: SetListener_def)
  moreover have "view ?gm = Map.empty" using new by (simp add: view_def SetListener_def fun_eq_iff)
  ultimately show "replay (fst (aoi_run TG TE xs ?gm)) Map.empty = Some (view (snd (aoi_run TG TE xs ?gm)))" by simp
  assume v: "valid_f64 mw \<and> valid_f64 mh \<and> exact_axis mw gw \<and> exact_axis mh gh \<and> valid_Coord c \<and> valid_Coord d"
  note cells = new_manager_cells [OF assms(3)]
  have c: "in_range gm (getGridID gm c)" "getGridID gm c mod gridCols gm = cell_col gm c"
      "getGridID gm c div gridCols gm = cell_row gm c" using getGridID_parts [of gm c] cells [of c] v by simp_all
  have d: "in_range gm (getGridID gm d)" "getGridID gm d mod gridCols gm = cell_col gm d"
      "getGridID gm d div gridCols gm = cell_row gm d" using getGridID_parts [of gm d] cells [of d] v by simp_all
  show "op_filed gm (OpAdd eid c)" "op_filed gm (OpMove eid c)" using c(1) by simp_all
  show "getGridID gm d \<in> set (getSurroundingGridIDs gm (getGridID gm c)) \<longleftrightarrow> cells_touch gm c d"
    by (rule surrounding_touch [OF d(1) c(2,3) d(2,3) new(3)])
qed

definition sample_ops :: "aoi_op list" where
  "sample_ops = [OpAdd 1 (spot 5 5), OpAdd 2 (spot 15 5), OpMove 2 (spot 95 95), OpRemove 1]"

lemma valid_spot: "1 \<le> i \<Longrightarrow> i < 2 ^ 52 \<Longrightarrow> 1 \<le> j \<Longrightarrow> j < 2 ^ 52 \<Longrightarrow> valid_Coord (spot (of_int i) (of_int j))"
  using representable_small_int by (simp add: valid_Coord_def valid_f64_def spot_def)

lemma sample_map_exact:
  "valid_f64 (Fin 100)" "exact_axis (Fin 100) (Fin 10)"
  "list_all (\<lambda>x. case x of OpAdd _ c \<Rightarrow> valid_Coord c | OpMove _ c \<Rightarrow> valid_Coord c | _ \<Rightarrow> True) sample_ops"
  using representable_small_int [of 100] valid_spot [of 5 5] valid_spot [of 15 5] valid_spot [of 95 95]
  by (simp_all add: valid_f64_def sample_ops_def)

lemma sample_ops_filed: "list_all (op_filed sample_map) sample_ops"
  using sample_map_exact new_manager_cells [OF sample_map_new] getGridID_parts(1) [of sample_map]
  by (simp add: sample_ops_def)

theorem aoi_events_exact_witness:
  "replay (fst (aoi_run alist_tm alist_tm sample_ops (SetListener True sample_map))) Map.empty =
     Some (view (snd (aoi_run alist_tm alist_tm sample_ops (SetListener True sample_map)))) \<and>
   (getGridID sample_map (spot 15 5) \<in> set (getSurroundingGridIDs sample_map (getGridID sample_map (spot 5 5))) \<longleftrightarrow>
     cells_touch sample_map (spot 5 5) (spot 15 5))"
  using aoi_events_exact [OF alist_tm_laws alist_tm_laws sample_map_new sample_ops_filed, of "spot 5 5" "spot 15 5" 1]
    sample_map_exact by (simp add: sample_ops_def)

text \<open>The \<^verbatim>\<open>float64\<close> nearest to 1.4, and the one next below 7.\<close>

definition f1_4 :: rat where "f1_4 = 6305039478318694 / 2 ^ 52"
definition below7 :: rat where "below7 = 7 - 1 / 2 ^ 50"

lemma round_below7:
  "round_pos (7 / f1_4) = 5" "round_pos (below7 / f1_4) = 5"
  using round_pos_eval [of 2 "7 / f1_4" 5629499534213120] round_pos_eval [of 2 "below7 / f1_4" 5629499534213120]
  by (simp_all add: f1_4_def below7_def power_int_minus)

lemma round_inner:
  "round_pos (13 / 2 / f1_4) = 5227392424626469 / 2 ^ 50" "round_pos (3 / 2 / f1_4) = 4825285315039817 / 2 ^ 52"
  using round_pos_eval [of 2 "13 / 2 / f1_4" 5227392424626469] round_pos_eval [of 0 "3 / 2 / f1_4" 4825285315039817]
  by (simp_all add: f1_4_def power_int_minus field_simps)

lemma representable_samples: "representable f1_4" "representable below7" "representable (13 / 2)" "representable (3 / 2)"
  using round_pos_eval [of 0 f1_4 6305039478318694] round_pos_eval [of 2 below7 7881299347898367]
    round_pos_eval [of 2 "13 / 2" 7318349394477056] round_pos_eval [of 0 "3 / 2" 6755399441055744]
    representable_pos [of f1_4] representable_pos [of below7] representable_pos [of "13 / 2"] representable_pos [of "3 / 2"]
  by (simp_all add: f1_4_def below7_def power_int_minus)

lemma quotient_samples:
  "to_int64 (fdiv (Fin below7) (Fin f1_4)) = 5" "to_int64 (fdiv (Fin (13 / 2)) (Fin f1_4)) = 4"
  "to_int64 (fdiv (Fin (3 / 2)) (Fin f1_4)) = 1"
proof -
  have pos: "0 < f1_4" "0 < below7" by (simp_all add: f1_4_def below7_def)
  have fl: "\<lfloor>round_pos (13 / 2 / f1_4)\<rfloor> = 4" "\<lfloor>round_pos (3 / 2 / f1_4)\<rfloor> = 1"
    unfolding round_inner by (rule floor_unique; simp)+
  have small: "round_pos (13 / 2 / f1_4) < 2 ^ 31" "round_pos (3 / 2 / f1_4) < 2 ^ 31"
    unfolding round_inner by simp_all
  show "to_int64 (fdiv (Fin below7) (Fin f1_4)) = 5"
    using quotient_floor(1) [of below7 f1_4] round_below7(2) pos by (simp del: to_int64.simps fdiv.simps)
  show "to_int64 (fdiv (Fin (13 / 2)) (Fin f1_4)) = 4"
    by (rule trans [OF quotient_floor(1) fl(1)]) (use pos small in simp_all)
  show "to_int64 (fdiv (Fin (3 / 2)) (Fin f1_4)) = 1"
    by (rule trans [OF quotient_floor(1) fl(2)]) (use pos small in simp_all)
qed

text \<open>A map of 7 by 7 with cells of 1.4 by 1.4.\<close>

definition edge_map :: "((int \<times> (int \<times> Coord) list Grid) list) GridManager" where
  "edge_map = \<lparr>gridWidth = Fin f1_4, gridHeight = Fin f1_4, mapWidth = Fin 7, mapHeight = Fin 7, gridCols = 5,
     gridRows = 5, grids = [], entities = Map.empty, listener = False\<rparr>"

lemma edge_map_new: "NewGridManagerChecked alist_tm (Fin 7) (Fin 7) (Fin f1_4) (Fin f1_4) = Inr edge_map"
proof -
  have pos: "0 < f1_4" by (simp add: f1_4_def)
  have "fdiv (Fin 7) (Fin f1_4) = Fin 5" using pos fround_nonneg [of "7 / f1_4"] round_below7(1) by simp
  then show ?thesis using pos
    by (simp add: NewGridManagerChecked_def Let_def validDimension_def IsInf0_def maxGridAxisCount_def edge_map_def
      del: fdiv.simps)
qed

lemma edge_cells:
  "getGridID edge_map (spot below7 0) = 5" "getGridID edge_map (spot (13 / 2) 0) = 4" "getGridID edge_map (spot 0 (3 / 2)) = 5"
  using quotient_samples
  by (simp_all add: getGridID_def gridAxis_def spot_def edge_map_def IsInf1_def below7_def del: to_int64.simps fdiv.simps)

text \<open>
  The counted columns can be one too few. On a map of 7 by 7 with cells of
  1.4 by 1.4 the constructor counts five columns, but the quotient of the largest value below 7 is
  rounded up to 5: an entity at that coordinate is filed in column 5 of row 0, which is the number
  of the first cell of row 1. It shares a cell with an entity at the opposite side of the map, and
  does not see, nor is seen by, an entity half a unit away.
\<close>

theorem edge_column_wraps:
  "NewGridManagerChecked alist_tm (Fin 7) (Fin 7) (Fin f1_4) (Fin f1_4) = Inr edge_map \<and>
   valid_Coord (spot below7 0) \<and> valid_Coord (spot (13 / 2) 0) \<and> valid_Coord (spot 0 (3 / 2)) \<and>
   getGridID edge_map (spot below7 0) = getGridID edge_map (spot 0 (3 / 2)) \<and>
   getGridID edge_map (spot (13 / 2) 0) \<notin> set (getSurroundingGridIDs edge_map (getGridID edge_map (spot below7 0))) \<and>
   getGridID edge_map (spot below7 0) \<notin> set (getSurroundingGridIDs edge_map (getGridID edge_map (spot (13 / 2) 0)))"
proof -
  have "representable 0" by (simp add: representable_def fround_def round_pos_def)
  then have "valid_Coord (spot below7 0)" "valid_Coord (spot (13 / 2) 0)" "valid_Coord (spot 0 (3 / 2))"
    using representable_samples by (simp_all add: valid_Coord_def valid_f64_def spot_def)
  moreover have "4 \<notin> set (getSurroundingGridIDs edge_map 5)" "5 \<notin> set (getSurroundingGridIDs edge_map 4)"
    by (simp_all add: surrounding_iff edge_map_def)
  ultimately show ?thesis by (simp add: edge_cells edge_map_new)
qed

end
