(* ===== verification/Protocol.thy ===== *)
theory Protocol
  imports Packet
begin

text \<open>
  Protocol versions of a connection: \<^verbatim>\<open>zNet/protocol_version.go\<close> (policies, the negotiation of the
  highest common version, the snapshot that freezes the first result) and
  \<^verbatim>\<open>zNet/protocol_handshake.go\<close> (the control frame and the checks of packet versions).
\<close>

section \<open>Policies (protocol\_version.go)\<close>

definition LegacyProtocolVersion :: int32 where "LegacyProtocolVersion = 0"

datatype invalid_policy = DisabledNotZero | MinNotPositive int32 | MaxBelowMin int32 int32 | NilNegotiator

datatype frame_error = FrameSize int | FrameMagic uint32 | FrameFormat "16 word" | FrameFlags "16 word" | FrameDisabled | FramePolicy invalid_policy

datatype protocol_error =
    ErrInvalidProtocolVersionPolicy invalid_policy
  | LocalInvalid invalid_policy
  | PeerInvalid invalid_policy
  | ErrNoCompatibleProtocolVersion
  | ErrProtocolCapabilitiesUnavailable uint64
  | ErrProtocolCompatibilityConflict
  | ErrInvalidProtocolNegotiationFrame frame_error
  | ErrProtocolCompatibilityNotEstablished
  | ErrProtocolPacketVersionMismatch int32

record ProtocolVersionPolicy =
  Enabled :: bool
  MinVersion :: int32
  MaxVersion :: int32
  Capabilities :: uint64
  AcceptLegacy :: bool

definition zero_policy :: ProtocolVersionPolicy where
  "zero_policy = \<lparr>Enabled = False, MinVersion = 0, MaxVersion = 0, Capabilities = 0, AcceptLegacy = False\<rparr>"

definition Policy_Validate :: "ProtocolVersionPolicy \<Rightarrow> invalid_policy option" where
  "Policy_Validate p =
     (if \<not> Enabled p then
        (if MinVersion p \<noteq> 0 \<or> MaxVersion p \<noteq> 0 \<or> Capabilities p \<noteq> 0 \<or> AcceptLegacy p then Some DisabledNotZero
         else None)
      else if sint (MinVersion p) \<le> sint LegacyProtocolVersion then Some (MinNotPositive (MinVersion p))
      else if sint (MaxVersion p) < sint (MinVersion p) then Some (MaxBelowMin (MaxVersion p) (MinVersion p))
      else None)"

record ProtocolCompatibility =
  compat_Version :: int32
  compat_Capabilities :: uint64

definition IsLegacy :: "ProtocolCompatibility \<Rightarrow> bool" where
  "IsLegacy c \<longleftrightarrow> compat_Version c = LegacyProtocolVersion"

definition SupportsAll :: "ProtocolCompatibility \<Rightarrow> uint64 \<Rightarrow> bool" where
  "SupportsAll c required \<longleftrightarrow> compat_Capabilities c AND required = required"

definition RequireCapabilities :: "ProtocolCompatibility \<Rightarrow> uint64 \<Rightarrow> protocol_error option" where
  "RequireCapabilities c required =
     (let missing = required AND NOT (compat_Capabilities c) in
      if missing = 0 then None else Some (ErrProtocolCapabilitiesUnavailable missing))"

text \<open>\<^verbatim>\<open>max\<close> and \<^verbatim>\<open>min\<close> of signed 32-bit integers.\<close>

definition max32 :: "int32 \<Rightarrow> int32 \<Rightarrow> int32" where "max32 a b = (if sint a < sint b then b else a)"
definition min32 :: "int32 \<Rightarrow> int32 \<Rightarrow> int32" where "min32 a b = (if sint b < sint a then b else a)"

definition legacy_compatibility :: ProtocolCompatibility where
  "legacy_compatibility = \<lparr>compat_Version = LegacyProtocolVersion, compat_Capabilities = 0\<rparr>"

definition NegotiateProtocolCompatibility ::
    "ProtocolVersionPolicy \<Rightarrow> ProtocolVersionPolicy \<Rightarrow> protocol_error + ProtocolCompatibility" where
  "NegotiateProtocolCompatibility local peer =
     (case Policy_Validate local of
        Some e \<Rightarrow> Inl (LocalInvalid e)
      | None \<Rightarrow>
          (case Policy_Validate peer of
             Some e \<Rightarrow> Inl (PeerInvalid e)
           | None \<Rightarrow>
               (if \<not> Enabled local \<or> \<not> Enabled peer then
                  (if \<not> Enabled local \<and> \<not> Enabled peer then Inr legacy_compatibility
                   else if Enabled local \<and> AcceptLegacy local then Inr legacy_compatibility
                   else if Enabled peer \<and> AcceptLegacy peer then Inr legacy_compatibility
                   else Inl ErrNoCompatibleProtocolVersion)
                else
                  (let minimum = max32 (MinVersion local) (MinVersion peer);
                       maximum = min32 (MaxVersion local) (MaxVersion peer)
                   in if sint minimum > sint maximum then Inl ErrNoCompatibleProtocolVersion
                      else Inr \<lparr>compat_Version = maximum, compat_Capabilities = Capabilities local AND Capabilities peer\<rparr>))))"

section \<open>The negotiator\<close>

record ProtocolVersionNegotiator =
  neg_local :: ProtocolVersionPolicy
  neg_current :: "ProtocolCompatibility option"

definition NewProtocolVersionNegotiator :: "ProtocolVersionPolicy \<Rightarrow> protocol_error + ProtocolVersionNegotiator" where
  "NewProtocolVersionNegotiator local =
     (case Policy_Validate local of
        Some e \<Rightarrow> Inl (ErrInvalidProtocolVersionPolicy e)
      | None \<Rightarrow> Inr \<lparr>neg_local = local, neg_current = None\<rparr>)"

text \<open>
  The methods take the pointer to the negotiator, \<open>None\<close> for nil. The compare-and-swap and the
  load that follows a failed one are one step: the pointer never changes once it is set.
\<close>

definition LocalPolicy :: "ProtocolVersionNegotiator option \<Rightarrow> ProtocolVersionPolicy" where
  "LocalPolicy n = (case n of None \<Rightarrow> zero_policy | Some n \<Rightarrow> neg_local n)"

definition Negotiate ::
    "ProtocolVersionPolicy \<Rightarrow> ProtocolVersionNegotiator option \<Rightarrow>
       (protocol_error + ProtocolCompatibility) \<times> ProtocolVersionNegotiator option" where
  "Negotiate peer n =
     (case n of
        None \<Rightarrow> (Inl (ErrInvalidProtocolVersionPolicy NilNegotiator), None)
      | Some n \<Rightarrow>
          (case NegotiateProtocolCompatibility (neg_local n) peer of
             Inl e \<Rightarrow> (Inl e, Some n)
           | Inr compatibility \<Rightarrow>
               (case neg_current n of
                  None \<Rightarrow> (Inr compatibility, Some (n\<lparr>neg_current := Some compatibility\<rparr>))
                | Some current \<Rightarrow>
                    (if current = compatibility then (Inr current, Some n)
                     else (Inl ErrProtocolCompatibilityConflict, Some n)))))"

definition Snapshot :: "ProtocolVersionNegotiator option \<Rightarrow> ProtocolCompatibility option" where
  "Snapshot n = (case n of None \<Rightarrow> None | Some n \<Rightarrow> neg_current n)"

section \<open>The control frame (protocol\_handshake.go)\<close>

definition ProtocolNegotiationProtoId :: ProtoIdType where "ProtocolNegotiationProtoId = 2 ^ 31 - 1"
definition protocolNegotiationMagic :: uint32 where "protocolNegotiationMagic = 0x5A4E4554"
definition protocolNegotiationFormatVersion :: "16 word" where "protocolNegotiationFormatVersion = 1"
definition protocolNegotiationFrameSize :: nat where "protocolNegotiationFrameSize = 24"
definition protocolNegotiationFlagAcceptLegacy :: "16 word" where "protocolNegotiationFlagAcceptLegacy = 1"
definition protocolNegotiationKnownFlags :: "16 word" where
  "protocolNegotiationKnownFlags = protocolNegotiationFlagAcceptLegacy"

definition PutUint16 :: "16 word \<Rightarrow> byte list" where
  "PutUint16 v = [ucast (drop_bit 8 v), ucast v]"

definition Uint16 :: "byte list \<Rightarrow> 16 word" where
  "Uint16 b = ucast (b ! 1) OR push_bit 8 (ucast (b ! 0))"

definition MarshalProtocolNegotiation :: "ProtocolVersionPolicy \<Rightarrow> protocol_error + byte list" where
  "MarshalProtocolNegotiation policy =
     (case Policy_Validate policy of
        Some e \<Rightarrow> Inl (ErrInvalidProtocolVersionPolicy e)
      | None \<Rightarrow>
          (if \<not> Enabled policy then Inl (ErrInvalidProtocolNegotiationFrame FrameDisabled)
           else
             (let flags = 0;
                  flags = (if AcceptLegacy policy then flags OR protocolNegotiationFlagAcceptLegacy else flags);
                  frame = replicate protocolNegotiationFrameSize 0;
                  frame = put_at 0 (PutUint32 BigEndian protocolNegotiationMagic) frame;
                  frame = put_at 4 (PutUint16 protocolNegotiationFormatVersion) frame;
                  frame = put_at 6 (PutUint16 flags) frame;
                  frame = put_at 8 (PutUint32 BigEndian (MinVersion policy)) frame;
                  frame = put_at 12 (PutUint32 BigEndian (MaxVersion policy)) frame;
                  frame = put_at 16 (PutUint64 BigEndian (Capabilities policy)) frame
              in Inr frame)))"

definition UnmarshalProtocolNegotiation :: "byte list \<Rightarrow> protocol_error + ProtocolVersionPolicy" where
  "UnmarshalProtocolNegotiation frame =
     (if length frame \<noteq> protocolNegotiationFrameSize
      then Inl (ErrInvalidProtocolNegotiationFrame (FrameSize (int (length frame))))
      else
        (let magic = Uint32 BigEndian (subslice 0 4 frame); version = Uint16 (subslice 4 6 frame);
             flags = Uint16 (subslice 6 8 frame)
         in if magic \<noteq> protocolNegotiationMagic then Inl (ErrInvalidProtocolNegotiationFrame (FrameMagic magic))
            else if version \<noteq> protocolNegotiationFormatVersion
              then Inl (ErrInvalidProtocolNegotiationFrame (FrameFormat version))
            else
              (let unknown = flags AND NOT protocolNegotiationKnownFlags in
               if unknown \<noteq> 0 then Inl (ErrInvalidProtocolNegotiationFrame (FrameFlags unknown))
               else
                 (let policy = \<lparr>Enabled = True, MinVersion = Uint32 BigEndian (subslice 8 12 frame),
                        MaxVersion = Uint32 BigEndian (subslice 12 16 frame),
                        Capabilities = Uint64 BigEndian (subslice 16 24 frame),
                        AcceptLegacy = (flags AND protocolNegotiationFlagAcceptLegacy \<noteq> 0)\<rparr>
                  in case Policy_Validate policy of
                       Some e \<Rightarrow> Inl (ErrInvalidProtocolNegotiationFrame (FramePolicy e))
                     | None \<Rightarrow> Inr policy))))"

definition OutboundPacketVersion :: "ProtoIdType \<Rightarrow> ProtocolVersionNegotiator option \<Rightarrow> protocol_error + int32" where
  "OutboundPacketVersion protoID n =
     (case n of
        None \<Rightarrow> Inl (ErrInvalidProtocolVersionPolicy NilNegotiator)
      | Some m \<Rightarrow>
          (if \<not> Enabled (neg_local m) then Inr LegacyProtocolVersion
           else if protoID = ProtocolNegotiationProtoId then Inr (MaxVersion (neg_local m))
           else
             (case Snapshot n of
                None \<Rightarrow> Inl ErrProtocolCompatibilityNotEstablished
              | Some compatibility \<Rightarrow> Inr (compat_Version compatibility))))"

definition ValidateInboundPacketVersion ::
    "ProtoIdType \<Rightarrow> int32 \<Rightarrow> ProtocolVersionNegotiator option \<Rightarrow> protocol_error option \<times> ProtocolVersionNegotiator option" where
  "ValidateInboundPacketVersion protoID version n =
     (case n of
        None \<Rightarrow> (Some (ErrInvalidProtocolVersionPolicy NilNegotiator), n)
      | Some m \<Rightarrow>
          (if \<not> Enabled (neg_local m) then (None, n)
           else if protoID = ProtocolNegotiationProtoId then
             (if sint version \<le> sint LegacyProtocolVersion then (Some (ErrProtocolPacketVersionMismatch version), n) else (None, n))
           else
             (case Snapshot n of
                None \<Rightarrow>
                  (if version \<noteq> LegacyProtocolVersion then (Some ErrProtocolCompatibilityNotEstablished, n)
                   else (case Negotiate zero_policy n of (Inl e, n) \<Rightarrow> (Some e, n) | (Inr _, n) \<Rightarrow> (None, n)))
              | Some compatibility \<Rightarrow>
                  (if version \<noteq> compat_Version compatibility then (Some (ErrProtocolPacketVersionMismatch version), n)
                   else (None, n)))))"

definition AcceptProtocolNegotiation ::
    "int32 \<Rightarrow> byte list \<Rightarrow> ProtocolVersionNegotiator option \<Rightarrow>
       (protocol_error + ProtocolCompatibility) \<times> ProtocolVersionNegotiator option" where
  "AcceptProtocolNegotiation packetVersion frame n =
     (case n of
        None \<Rightarrow> (Inl (ErrInvalidProtocolVersionPolicy NilNegotiator), n)
      | Some m \<Rightarrow>
          (if \<not> Enabled (neg_local m) then (Inl ErrProtocolCompatibilityNotEstablished, n)
           else
             (case UnmarshalProtocolNegotiation frame of
                Inl e \<Rightarrow> (Inl e, n)
              | Inr peer \<Rightarrow>
                  (if packetVersion \<noteq> MaxVersion peer then (Inl (ErrProtocolPacketVersionMismatch packetVersion), n)
                   else Negotiate peer n))))"

section \<open>The frame\<close>

lemma length_PutUint16 [simp]: "length (PutUint16 v) = 2"
  by (simp add: PutUint16_def)

lemma Uint16_Put [bytes_simps]: "Uint16 (PutUint16 v) = v"
  by (rule bit_word_eqI) (auto simp: Uint16_def PutUint16_def bit_simps)

lemma list_length2: "length xs = 2 \<longleftrightarrow> (\<exists>a b. xs = [a, b])"
  by (auto simp: numeral_eq_Suc length_Suc_conv)

lemma Put_Uint16: "length b = 2 \<Longrightarrow> PutUint16 (Uint16 b) = b"
  by (auto simp: list_length2 Uint16_def PutUint16_def intro!: bit_word_eqI)
     (auto simp: bit_simps dest: bit_imp_le_length)

definition flags_of :: "bool \<Rightarrow> 16 word" where "flags_of b = (if b then 1 else 0)"

lemma flags_known: "flags AND NOT protocolNegotiationKnownFlags = 0 \<longleftrightarrow> flags = flags_of (flags AND 1 \<noteq> 0)"
proof -
  have "flags AND NOT 1 = 0 \<longleftrightarrow> flags = flags AND 1"
  proof
    assume z: "flags AND NOT 1 = 0"
    have "flags = (flags AND 1) OR (flags AND NOT 1)" by (rule bit_word_eqI) (auto simp: bit_simps)
    then show "flags = flags AND 1" using z by simp
  next
    assume a: "flags = flags AND 1"
    have "(flags AND 1) AND NOT 1 = 0" by (rule bit_word_eqI) (auto simp: bit_simps)
    then show "flags AND NOT 1 = 0" using a by simp
  qed
  moreover have "flags AND 1 = flags_of (flags AND 1 \<noteq> 0)"
    by (auto simp: flags_of_def and_one_eq odd_iff_mod_2_eq_one)
  ultimately show ?thesis
    by (simp add: protocolNegotiationKnownFlags_def protocolNegotiationFlagAcceptLegacy_def)
qed

lemma frame_layout:
  "MarshalProtocolNegotiation p =
     (case Policy_Validate p of
        Some e \<Rightarrow> Inl (ErrInvalidProtocolVersionPolicy e)
      | None \<Rightarrow>
          if \<not> Enabled p then Inl (ErrInvalidProtocolNegotiationFrame FrameDisabled)
          else Inr (PutUint32 BigEndian protocolNegotiationMagic @ PutUint16 protocolNegotiationFormatVersion @
            PutUint16 (flags_of (AcceptLegacy p)) @ PutUint32 BigEndian (MinVersion p) @
            PutUint32 BigEndian (MaxVersion p) @ PutUint64 BigEndian (Capabilities p)))"
proof -
  have f: "(if AcceptLegacy p then 0 OR protocolNegotiationFlagAcceptLegacy else 0) = flags_of (AcceptLegacy p)"
    by (simp add: flags_of_def protocolNegotiationFlagAcceptLegacy_def)
  have put: "put_at 16 (PutUint64 BigEndian c) (put_at 12 (PutUint32 BigEndian mx) (put_at 8 (PutUint32 BigEndian mn)
      (put_at 6 (PutUint16 fl) (put_at 4 (PutUint16 fv) (put_at 0 (PutUint32 BigEndian mg) (replicate 24 0)))))) =
      PutUint32 BigEndian mg @ PutUint16 fv @ PutUint16 fl @ PutUint32 BigEndian mn @ PutUint32 BigEndian mx @
      PutUint64 BigEndian c" for c mx mn fl fv mg
    by (simp only: put_at_fill0 put_at_fill length_append length_PutUint length_PutUint16) (simp add: put_at_fill)
  show ?thesis
    unfolding MarshalProtocolNegotiation_def Let_def f protocolNegotiationFrameSize_def put ..
qed

lemma frame_parts:
  assumes "length frame = 24"
  shows "frame = subslice 0 4 frame @ subslice 4 6 frame @ subslice 6 8 frame @ subslice 8 12 frame @
      subslice 12 16 frame @ subslice 16 24 frame"
proof -
  have "subslice 0 24 frame = frame" using assms by (simp add: subslice_0)
  then show ?thesis by (simp add: subslice_join)
qed

text \<open>The frames that are accepted are exactly the encodings of valid enabled policies.\<close>

lemma frame_exact: "UnmarshalProtocolNegotiation frame = Inr p \<longleftrightarrow> MarshalProtocolNegotiation p = Inr frame"
proof
  assume u: "UnmarshalProtocolNegotiation frame = Inr p"
  let ?flags = "Uint16 (subslice 6 8 frame)"
  have len: "length frame = 24" and magic: "Uint32 BigEndian (subslice 0 4 frame) = protocolNegotiationMagic"
      and ver: "Uint16 (subslice 4 6 frame) = protocolNegotiationFormatVersion"
      and fl: "?flags AND NOT protocolNegotiationKnownFlags = 0"
      and p: "p = \<lparr>Enabled = True, MinVersion = Uint32 BigEndian (subslice 8 12 frame),
        MaxVersion = Uint32 BigEndian (subslice 12 16 frame), Capabilities = Uint64 BigEndian (subslice 16 24 frame),
        AcceptLegacy = (?flags AND protocolNegotiationFlagAcceptLegacy \<noteq> 0)\<rparr>"
      and ok: "Policy_Validate p = None"
    using u by (simp_all add: UnmarshalProtocolNegotiation_def Let_def protocolNegotiationFrameSize_def
      split: if_splits option.splits)
  have "flags_of (AcceptLegacy p) = ?flags"
    using flags_known [of ?flags] fl by (simp add: p protocolNegotiationFlagAcceptLegacy_def)
  then have "PutUint16 (flags_of (AcceptLegacy p)) = subslice 6 8 frame" using Put_Uint16 [of "subslice 6 8 frame"] len by simp
  moreover have "PutUint32 BigEndian protocolNegotiationMagic = subslice 0 4 frame"
      "PutUint16 protocolNegotiationFormatVersion = subslice 4 6 frame"
    unfolding magic [symmetric] ver [symmetric] by (rule Put_Uint32 Put_Uint16, simp add: len)+
  moreover have "PutUint32 BigEndian (MinVersion p) = subslice 8 12 frame" "PutUint32 BigEndian (MaxVersion p) = subslice 12 16 frame"
      "PutUint64 BigEndian (Capabilities p) = subslice 16 24 frame" "Enabled p"
    unfolding p ProtocolVersionPolicy.simps by (rule Put_Uint32 Put_Uint64 TrueI, simp add: len)+ (rule TrueI)
  ultimately show "MarshalProtocolNegotiation p = Inr frame"
    unfolding frame_layout ok option.case using frame_parts [OF len] by metis
next
  assume m: "MarshalProtocolNegotiation p = Inr frame"
  then have ok: "Policy_Validate p = None" "Enabled p"
    and f: "frame = PutUint32 BigEndian protocolNegotiationMagic @ PutUint16 protocolNegotiationFormatVersion @
      PutUint16 (flags_of (AcceptLegacy p)) @ PutUint32 BigEndian (MinVersion p) @
      PutUint32 BigEndian (MaxVersion p) @ PutUint64 BigEndian (Capabilities p)"
    by (auto simp: frame_layout split: option.splits if_splits)
  have len: "length frame = 24" by (simp add: f)
  have s: "subslice 0 4 frame = PutUint32 BigEndian protocolNegotiationMagic"
      "subslice 4 6 frame = PutUint16 protocolNegotiationFormatVersion"
      "subslice 6 8 frame = PutUint16 (flags_of (AcceptLegacy p))"
      "subslice 8 12 frame = PutUint32 BigEndian (MinVersion p)"
      "subslice 12 16 frame = PutUint32 BigEndian (MaxVersion p)"
      "subslice 16 24 frame = PutUint64 BigEndian (Capabilities p)"
    by (simp_all add: f subslice_def)
  have fl: "flags_of b AND NOT protocolNegotiationKnownFlags = 0"
      "(flags_of b AND protocolNegotiationFlagAcceptLegacy \<noteq> 0) = b" for b
    by (cases b; simp add: flags_of_def protocolNegotiationKnownFlags_def protocolNegotiationFlagAcceptLegacy_def)+
  have "p = \<lparr>Enabled = True, MinVersion = MinVersion p, MaxVersion = MaxVersion p, Capabilities = Capabilities p,
      AcceptLegacy = AcceptLegacy p\<rparr>" using ok(2) by simp
  then show "UnmarshalProtocolNegotiation frame = Inr p"
    using ok(1) by (simp add: UnmarshalProtocolNegotiation_def Let_def len s bytes_simps fl protocolNegotiationFrameSize_def)
qed

section \<open>Negotiation\<close>

definition in_policy :: "ProtocolVersionPolicy \<Rightarrow> int32 \<Rightarrow> bool" where
  "in_policy p v \<longleftrightarrow> sint (MinVersion p) \<le> sint v \<and> sint v \<le> sint (MaxVersion p)"

lemma sint_minmax32:
  "sint (max32 a b) = max (sint a) (sint b)" "sint (min32 a b) = min (sint a) (sint b)"
  by (auto simp: max32_def min32_def)

lemma min32_commute: "min32 a b = min32 b a"
proof -
  have "sint (min32 a b) = sint (min32 b a)" by (simp add: sint_minmax32 min.commute)
  then show ?thesis using signed_word_eqI by blast
qed

text \<open>Two enabled policies: the greatest version of both ranges, or no common version.\<close>

lemma negotiate_enabled:
  assumes "Policy_Validate a = None" "Policy_Validate b = None" "Enabled a" "Enabled b"
  shows "(case NegotiateProtocolCompatibility a b of
            Inr c \<Rightarrow> in_policy a (compat_Version c) \<and> in_policy b (compat_Version c) \<and>
              (\<forall>v. in_policy a v \<longrightarrow> in_policy b v \<longrightarrow> sint v \<le> sint (compat_Version c)) \<and>
              compat_Capabilities c = Capabilities a AND Capabilities b
          | Inl e \<Rightarrow> e = ErrNoCompatibleProtocolVersion \<and> (\<forall>v. \<not> (in_policy a v \<and> in_policy b v)))"
proof -
  have "sint (MinVersion a) \<le> sint (MaxVersion a)" "sint (MinVersion b) \<le> sint (MaxVersion b)"
    using assms by (auto simp: Policy_Validate_def split: if_splits)
  then show ?thesis
    using assms by (auto simp: NegotiateProtocolCompatibility_def Let_def sint_minmax32 in_policy_def)
qed

lemma negotiate_commute:
  assumes "Policy_Validate a = None" "Policy_Validate b = None"
  shows "NegotiateProtocolCompatibility a b = NegotiateProtocolCompatibility b a"
  using assms
  by (auto simp: NegotiateProtocolCompatibility_def Let_def sint_minmax32 max.commute min.commute min32_commute and.commute)

lemma marshal_ok: "MarshalProtocolNegotiation p = Inr f \<Longrightarrow> Policy_Validate p = None \<and> Enabled p"
  by (auto simp: MarshalProtocolNegotiation_def Let_def split: option.splits if_splits)

text \<open>The first negotiation frame of a peer fixes the result of negotiating with it.\<close>

lemma accept_first:
  assumes "MarshalProtocolNegotiation peer = Inr f" "Enabled (neg_local n)" "neg_current n = None"
  shows "AcceptProtocolNegotiation (MaxVersion peer) f (Some n) =
     (case NegotiateProtocolCompatibility (neg_local n) peer of
        Inl e \<Rightarrow> (Inl e, Some n) | Inr c \<Rightarrow> (Inr c, Some (n\<lparr>neg_current := Some c\<rparr>)))"
proof -
  have "UnmarshalProtocolNegotiation f = Inr peer" using assms(1) frame_exact by blast
  then show ?thesis using assms(2,3) by (simp add: AcceptProtocolNegotiation_def Negotiate_def split: sum.splits)
qed

section \<open>Properties\<close>

text \<open>
  Property C17. Two endpoints that send each other their negotiation frame agree. Let \<open>a\<close> and \<open>b\<close>
  be policies that can be sent. If their ranges have a common version, both endpoints freeze the
  same result: the greatest common version and the common capabilities. Otherwise both report that
  there is none and neither freezes anything.
\<close>

theorem endpoints_agree:
  assumes "MarshalProtocolNegotiation a = Inr fa" "MarshalProtocolNegotiation b = Inr fb"
    and "NewProtocolVersionNegotiator a = Inr na" "NewProtocolVersionNegotiator b = Inr nb"
    and ra: "(ra, na') = AcceptProtocolNegotiation (MaxVersion b) fb (Some na)"
    and rb: "(rb, nb') = AcceptProtocolNegotiation (MaxVersion a) fa (Some nb)"
  shows "if \<exists>v. in_policy a v \<and> in_policy b v
         then \<exists>c. ra = Inr c \<and> rb = Inr c \<and> Snapshot na' = Some c \<and> Snapshot nb' = Some c \<and>
           in_policy a (compat_Version c) \<and> in_policy b (compat_Version c) \<and>
           (\<forall>v. in_policy a v \<longrightarrow> in_policy b v \<longrightarrow> sint v \<le> sint (compat_Version c)) \<and>
           compat_Capabilities c = Capabilities a AND Capabilities b
         else ra = Inl ErrNoCompatibleProtocolVersion \<and> rb = Inl ErrNoCompatibleProtocolVersion \<and>
           Snapshot na' = None \<and> Snapshot nb' = None"
proof -
  note ok = marshal_ok [OF assms(1)] marshal_ok [OF assms(2)]
  have n: "neg_local na = a" "neg_current na = None" "neg_local nb = b" "neg_current nb = None"
    using assms(3,4) ok by (auto simp: NewProtocolVersionNegotiator_def)
  let ?r = "NegotiateProtocolCompatibility a b"
  have r: "(ra, na') = (case ?r of Inl e \<Rightarrow> (Inl e, Some na) | Inr c \<Rightarrow> (Inr c, Some (na\<lparr>neg_current := Some c\<rparr>)))"
      "(rb, nb') = (case ?r of Inl e \<Rightarrow> (Inl e, Some nb) | Inr c \<Rightarrow> (Inr c, Some (nb\<lparr>neg_current := Some c\<rparr>)))"
    using accept_first [OF assms(2), of na] accept_first [OF assms(1), of nb] ra rb n ok negotiate_commute [of b a] by simp_all
  show ?thesis
  proof (cases ?r)
    case (Inl e)
    then show ?thesis using r n negotiate_enabled [of a b] ok by (auto simp: Snapshot_def)
  next
    case (Inr c)
    then show ?thesis using r negotiate_enabled [of a b] ok by (auto simp: Snapshot_def)
  qed
qed

definition sample_a :: ProtocolVersionPolicy where
  "sample_a = \<lparr>Enabled = True, MinVersion = 1, MaxVersion = 4, Capabilities = 6, AcceptLegacy = True\<rparr>"

definition sample_b :: ProtocolVersionPolicy where
  "sample_b = \<lparr>Enabled = True, MinVersion = 2, MaxVersion = 9, Capabilities = 3, AcceptLegacy = False\<rparr>"

lemma sample_valid: "Policy_Validate sample_a = None" "Policy_Validate sample_b = None"
  by (simp_all add: Policy_Validate_def sample_a_def sample_b_def LegacyProtocolVersion_def)

theorem endpoints_agree_witness:
  "\<exists>fa fb na nb c. MarshalProtocolNegotiation sample_a = Inr fa \<and> MarshalProtocolNegotiation sample_b = Inr fb \<and>
     fst (AcceptProtocolNegotiation 9 fb (Some na)) = Inr c \<and> fst (AcceptProtocolNegotiation 4 fa (Some nb)) = Inr c \<and>
     compat_Capabilities c = 2"
proof -
  obtain fa fb where f: "MarshalProtocolNegotiation sample_a = Inr fa" "MarshalProtocolNegotiation sample_b = Inr fb"
    using frame_layout [of sample_a] frame_layout [of sample_b] sample_valid by (simp add: sample_a_def sample_b_def)
  obtain na nb where n: "NewProtocolVersionNegotiator sample_a = Inr na" "NewProtocolVersionNegotiator sample_b = Inr nb"
    by (simp add: NewProtocolVersionNegotiator_def sample_valid)
  have "in_policy sample_a 3 \<and> in_policy sample_b 3" by (simp add: in_policy_def sample_a_def sample_b_def)
  then have v: "\<exists>v. in_policy sample_a v \<and> in_policy sample_b v" by blast
  obtain c where "fst (AcceptProtocolNegotiation (MaxVersion sample_b) fb (Some na)) = Inr c"
      "fst (AcceptProtocolNegotiation (MaxVersion sample_a) fa (Some nb)) = Inr c"
      "compat_Capabilities c = Capabilities sample_a AND Capabilities sample_b"
    using endpoints_agree [OF f n surjective_pairing [symmetric] surjective_pairing [symmetric], unfolded if_P [OF v]] by blast
  then show ?thesis using f by (auto simp: sample_a_def sample_b_def)
qed

text \<open>The calls that can reach a negotiator.\<close>

datatype neg_call = CallNegotiate ProtocolVersionPolicy | CallInbound ProtoIdType int32 | CallAccept int32 "byte list"

fun neg_step :: "neg_call \<Rightarrow> ProtocolVersionNegotiator option \<Rightarrow> ProtocolVersionNegotiator option" where
  "neg_step (CallNegotiate peer) n = snd (Negotiate peer n)"
| "neg_step (CallInbound protoID version) n = snd (ValidateInboundPacketVersion protoID version n)"
| "neg_step (CallAccept version frame) n = snd (AcceptProtocolNegotiation version frame n)"

definition within_policy :: "ProtocolVersionPolicy \<Rightarrow> ProtocolCompatibility \<Rightarrow> bool" where
  "within_policy p c \<longleftrightarrow>
     (if Enabled p \<and> in_policy p (compat_Version c) then compat_Capabilities c AND Capabilities p = compat_Capabilities c
      else c = legacy_compatibility \<and> (\<not> Enabled p \<or> AcceptLegacy p))"

lemma negotiate_within:
  assumes c: "NegotiateProtocolCompatibility p peer = Inr c"
  shows "within_policy p c"
proof -
  have min: "Enabled p \<Longrightarrow> 0 < sint (MinVersion p)"
    using c by (auto simp: NegotiateProtocolCompatibility_def Policy_Validate_def LegacyProtocolVersion_def split: if_splits option.splits)
  have "(x AND y) AND x = x AND y" for x y :: uint64 by (simp add: and.assoc and.commute and.left_commute)
  then show ?thesis
    using c min
    by (auto simp: NegotiateProtocolCompatibility_def within_policy_def Let_def in_policy_def sint_minmax32
      legacy_compatibility_def LegacyProtocolVersion_def Policy_Validate_def split: if_splits option.splits)
qed

text \<open>A step changes nothing, or freezes a result of the local policy where there was none.\<close>

lemma Negotiate_freeze:
  "snd (Negotiate peer (Some n)) = Some n \<or>
   neg_current n = None \<and> (\<exists>c. snd (Negotiate peer (Some n)) = Some (n\<lparr>neg_current := Some c\<rparr>) \<and> within_policy (neg_local n) c)"
  by (auto simp: Negotiate_def negotiate_within split: sum.splits option.splits)

lemma neg_step_freeze:
  "neg_step x (Some n) = Some n \<or>
   neg_current n = None \<and> (\<exists>c. neg_step x (Some n) = Some (n\<lparr>neg_current := Some c\<rparr>) \<and> within_policy (neg_local n) c)"
proof (cases x)
  case (CallNegotiate peer)
  then show ?thesis using Negotiate_freeze by simp
next
  case (CallInbound protoID version)
  have "neg_step x (Some n) = Some n \<or> neg_step x (Some n) = snd (Negotiate zero_policy (Some n))"
    by (auto simp: CallInbound ValidateInboundPacketVersion_def split: option.splits prod.splits sum.splits)
  then show ?thesis using Negotiate_freeze [of zero_policy n] by auto
next
  case (CallAccept version frame)
  have "neg_step x (Some n) = Some n \<or> (\<exists>peer. neg_step x (Some n) = snd (Negotiate peer (Some n)))"
    by (auto simp: CallAccept AcceptProtocolNegotiation_def split: sum.splits)
  then show ?thesis using Negotiate_freeze by metis
qed

lemma neg_run_frozen:
  "neg_current n = Some c \<Longrightarrow> fold neg_step xs (Some n) = Some n"
proof (induction xs)
  case (Cons x xs)
  then have "neg_step x (Some n) = Some n" using neg_step_freeze [of x n] by auto
  then show ?case using Cons by simp
qed simp

lemma neg_run_within:
  "(case neg_current n of None \<Rightarrow> True | Some c \<Rightarrow> within_policy (neg_local n) c) \<Longrightarrow>
     \<exists>m. fold neg_step xs (Some n) = Some m \<and> neg_local m = neg_local n \<and>
       (case neg_current m of None \<Rightarrow> True | Some c \<Rightarrow> within_policy (neg_local n) c)"
proof (induction xs arbitrary: n)
  case (Cons x xs)
  from neg_step_freeze [of x n] consider "neg_step x (Some n) = Some n"
    | c where "neg_step x (Some n) = Some (n\<lparr>neg_current := Some c\<rparr>)" "within_policy (neg_local n) c" by blast
  then show ?case
  proof cases
    case 1
    then show ?thesis using Cons by simp
  next
    case 2
    then show ?thesis using Cons.IH [of "n\<lparr>neg_current := Some c\<rparr>"] by (simp cong: option.case_cong)
  qed
qed simp

text \<open>
  A session is never downgraded. Whatever frames and packets arrive, in whatever
  order, the first compatibility that is established stays for good, and it is one the local policy
  allows: a version of its range with no capability it lacks, or the legacy mode, and that only
  for a disabled policy or one that accepts legacy peers.
\<close>

theorem compatibility_frozen:
  assumes "NewProtocolVersionNegotiator p = Inr n" "Snapshot (fold neg_step xs (Some n)) = Some c"
  shows "Snapshot (fold neg_step ys (fold neg_step xs (Some n))) = Some c \<and> within_policy p c"
proof -
  have n: "neg_local n = p" "neg_current n = None"
    using assms(1) by (auto simp: NewProtocolVersionNegotiator_def split: option.splits)
  then obtain m where m: "fold neg_step xs (Some n) = Some m"
      and w: "case neg_current m of None \<Rightarrow> True | Some c \<Rightarrow> within_policy p c"
    using neg_run_within [of n xs] by auto
  have "neg_current m = Some c" using assms(2) m by (simp add: Snapshot_def)
  then show ?thesis using w m neg_run_frozen [of m c ys] by (simp add: Snapshot_def)
qed

theorem compatibility_frozen_witness:
  "\<exists>n. NewProtocolVersionNegotiator sample_a = Inr n \<and>
     Snapshot (fold neg_step [CallNegotiate sample_b] (fold neg_step [CallInbound 7 0] (Some n))) = Some legacy_compatibility"
proof -
  obtain n where n: "NewProtocolVersionNegotiator sample_a = Inr n"
    by (simp add: NewProtocolVersionNegotiator_def sample_valid)
  then have "neg_local n = sample_a" "neg_current n = None"
    by (auto simp: NewProtocolVersionNegotiator_def sample_valid)
  then have "Snapshot (fold neg_step [CallInbound 7 0] (Some n)) = Some legacy_compatibility"
    using sample_valid
    by (simp add: ValidateInboundPacketVersion_def Snapshot_def Negotiate_def NegotiateProtocolCompatibility_def
      LegacyProtocolVersion_def zero_policy_def sample_a_def Policy_Validate_def ProtocolNegotiationProtoId_def)
  from compatibility_frozen [OF n this, of "[CallNegotiate sample_b]"] n show ?thesis by blast
qed

end
