(* ===== verification/Session.thy ===== *)
theory Session
  imports Payload Protocol Key_Rotation Sequence_Window
begin

text \<open>
  The two ends of a TCP connection: \<^verbatim>\<open>zNet/TcpServerSession.go\<close> and \<^verbatim>\<open>zNet/TcpClientSession.go\<close>.
  A client's message is compressed, encrypted, framed and written; the server reads the stream
  frame by frame, checks it, and hands the decoded packet to the dispatcher. The theory composes
  the codec, the payload stages, the version checks, the key lookup and the replay check.
\<close>

section \<open>Configuration and sessions\<close>

record CompressionConfig =
  cc_Enabled :: bool
  CompressionThreshold :: int
  MaxCompressSize :: int

text \<open>The fields of the endpoint configuration that the sessions read.\<close>

record session_config =
  MaxWirePacketSize :: int32
  MaxDecodedPacketSize :: int32
  DisableEncryption :: bool
  DisableCompression :: bool
  EnableKeyRotation :: bool
  EnableSequenceCheck :: bool
  cfg_compression :: CompressionConfig
  cfg_protocolPolicy :: ProtocolVersionPolicy

datatype session_error =
    SessionProtocol protocol_error
  | SessionEncrypt string
  | SessionHeader packet_error
  | SessionPayload payload_error

text \<open>A key is \<open>None\<close> when the slice is nil.\<close>

record TcpServerSession =
  ss_sid :: uint64
  ss_aesKey :: "byte list option"
  ss_currentKey :: "byte list option"
  ss_currentKeyID :: uint32
  ss_sendSequence :: uint64
  ss_codec :: PacketCodec
  ss_protocol :: "ProtocolVersionNegotiator option"

record TcpClientSession =
  cs_aesKey :: "byte list option"
  cs_currentKey :: "byte list option"
  cs_currentKeyID :: uint32
  cs_sendSequence :: uint64
  cs_codec :: PacketCodec
  cs_protocol :: "ProtocolVersionNegotiator option"

definition NewTcpServerSession :: "session_config \<Rightarrow> PacketCodec \<Rightarrow> uint64 \<Rightarrow> byte list option \<Rightarrow> TcpServerSession" where
  "NewTcpServerSession cfg codec sid aesKey =
     \<lparr>ss_sid = sid, ss_aesKey = aesKey, ss_currentKey = aesKey, ss_currentKeyID = 0, ss_sendSequence = 0,
      ss_codec = codec,
      ss_protocol = (case NewProtocolVersionNegotiator (cfg_protocolPolicy cfg) of Inl _ \<Rightarrow> None | Inr n \<Rightarrow> Some n)\<rparr>"

section \<open>Sending\<close>

text \<open>The compression step that both ends share: the payload and the compression flag.\<close>

definition compress_step :: "payload_lib \<Rightarrow> bool \<Rightarrow> CompressionConfig \<Rightarrow> byte list \<Rightarrow> byte list \<times> int32" where
  "compress_step L allowed cc payload =
     (if allowed \<and> cc_Enabled cc \<and> int (length payload) > CompressionThreshold cc \<and>
         int (length payload) \<le> MaxCompressSize cc
      then
        (let compressed = snappy_Encode L payload in
         if length compressed < length payload then (compressed, CompressionSnappy) else (payload, CompressionNone))
      else (payload, CompressionNone))"

definition encrypt_step :: "payload_lib \<Rightarrow> byte list option \<Rightarrow> bool \<Rightarrow> byte list \<Rightarrow> session_error + byte list" where
  "encrypt_step L key disabled payload =
     (case key of
        Some k \<Rightarrow>
          (if \<not> disabled
           then (case AESEncrypt L payload k of Inr encrypted \<Rightarrow> Inr encrypted | Inl msg \<Rightarrow> Inl (SessionEncrypt msg))
           else Inr payload)
      | None \<Rightarrow> Inr payload)"

definition finish_packet :: "session_config \<Rightarrow> NetPacket \<Rightarrow> byte list \<Rightarrow> session_error + NetPacket" where
  "finish_packet cfg netPacket data =
     (let netPacket = netPacket\<lparr>Data := data, DataSize := to_int32 (int (length data))\<rparr> in
      case ValidatePacketHeader netPacket (MaxWirePacketSize cfg) of
        Some e \<Rightarrow> Inl (SessionHeader e)
      | None \<Rightarrow> Inr netPacket)"

definition buildOutboundPacket ::
    "payload_lib \<Rightarrow> session_config \<Rightarrow> int64 \<Rightarrow> ProtoIdType \<Rightarrow> byte list \<Rightarrow> TcpServerSession \<Rightarrow> (session_error + NetPacket) \<times> TcpServerSession" where
  "buildOutboundPacket L cfg now protoId data s =
     (case OutboundPacketVersion protoId (ss_protocol s) of
        Inl e \<Rightarrow> (Inl (SessionProtocol e), s)
      | Inr version \<Rightarrow>
          (let s = s\<lparr>ss_sendSequence := ss_sendSequence s + 1\<rparr>;
               (key, keyID) =
                 (if EnableKeyRotation cfg then (ss_currentKey s, ss_currentKeyID s)
                  else if \<not> DisableEncryption cfg then (ss_aesKey s, 0)
                  else (None, 0));
               (payload, flag) = compress_step L (\<not> DisableCompression cfg) (cfg_compression cfg) data;
               netPacket = zero_packet\<lparr>ProtoId := protoId, Version := version, Sequence := ss_sendSequence s,
                 Timestamp := now, KeyID := keyID, IsCompressed := flag\<rparr>
           in case encrypt_step L key (DisableEncryption cfg) payload of
                Inl e \<Rightarrow> (Inl e, s)
              | Inr sealed \<Rightarrow> (finish_packet cfg netPacket sealed, s)))"

definition server_send :: "TcpServerSession \<Rightarrow> NetPacket \<Rightarrow> byte list" where
  "server_send s netPacket = Marshal (ss_codec s) netPacket"

text \<open>The notification that \<^verbatim>\<open>UpdateKey\<close> sends is built after both fields were stored.\<close>

definition server_UpdateKey ::
    "payload_lib \<Rightarrow> session_config \<Rightarrow> int64 \<Rightarrow> byte list \<Rightarrow> uint32 \<Rightarrow> TcpServerSession \<Rightarrow> (session_error + NetPacket) \<times> TcpServerSession" where
  "server_UpdateKey L cfg now newKey newKeyID s =
     (let s = s\<lparr>ss_currentKey := Some newKey, ss_currentKeyID := newKeyID\<rparr>;
          notify = \<lparr>notify_KeyID = newKeyID, notify_Timestamp = now, notify_Nonce = 0\<rparr>;
          data = MarshalWithByteOrder notify (Some (ByteOrder (ss_codec s)))
      in buildOutboundPacket L cfg now KeyRotationNotifyProtoId data s)"

text \<open>The key of an outgoing client packet and its identifier.\<close>

definition client_key :: "session_config \<Rightarrow> TcpClientSession \<Rightarrow> byte list option \<times> uint32" where
  "client_key cfg s =
     (if cs_currentKeyID s > 0 then (cs_currentKey s, cs_currentKeyID s)
      else if \<not> DisableEncryption cfg then (cs_aesKey s, 0)
      else (None, 0))"

text \<open>\<open>None\<close> is nil data; the result is what is written to the connection.\<close>

definition writePacket ::
    "payload_lib \<Rightarrow> session_config \<Rightarrow> int64 \<Rightarrow> ProtoIdType \<Rightarrow> byte list option \<Rightarrow> TcpClientSession \<Rightarrow> (session_error + byte list) \<times> TcpClientSession" where
  "writePacket L cfg now protoId data s =
     (case OutboundPacketVersion protoId (cs_protocol s) of
        Inl e \<Rightarrow> (Inl (SessionProtocol e), s)
      | Inr version \<Rightarrow>
          (let seq = cs_sendSequence s + 1;
               s = s\<lparr>cs_sendSequence := seq\<rparr>;
               (key, keyID) = client_key cfg s;
               netPacket = zero_packet\<lparr>ProtoId := protoId, Version := version, Sequence := seq,
                 Timestamp := now, KeyID := keyID\<rparr>;
               built =
                 (case data of
                    None \<Rightarrow> finish_packet cfg netPacket []
                  | Some plain \<Rightarrow>
                      (let (payload, flag) = compress_step L True (cfg_compression cfg) plain in
                       case encrypt_step L key (DisableEncryption cfg) payload of
                         Inl e \<Rightarrow> Inl e
                       | Inr sealed \<Rightarrow> finish_packet cfg (netPacket\<lparr>IsCompressed := flag\<rparr>) sealed))
           in case built of Inl e \<Rightarrow> (Inl e, s) | Inr packet \<Rightarrow> (Inr (Marshal (cs_codec s) packet), s)))"

section \<open>Receiving on the server\<close>

definition server_GetDecryptKey :: "KeyRotationManager option \<Rightarrow> uint32 \<Rightarrow> TcpServerSession \<Rightarrow> byte list option" where
  "server_GetDecryptKey krm keyID s =
     (if keyID = 0 then ss_aesKey s
      else if keyID = ss_currentKeyID s then ss_currentKey s
      else (case krm of None \<Rightarrow> None | Some krm \<Rightarrow> GetKeyByID krm keyID))"

text \<open>\<^verbatim>\<open>len\<close> of a nil slice is 0.\<close>

definition key_bytes :: "byte list option \<Rightarrow> byte list" where
  "key_bytes k = (case k of None \<Rightarrow> [] | Some b \<Rightarrow> b)"

definition decode_received ::
    "payload_lib \<Rightarrow> session_config \<Rightarrow> (uint32 \<Rightarrow> byte list option) \<Rightarrow> NetPacket \<Rightarrow> payload_error + NetPacket" where
  "decode_received L cfg lookup packet =
     (let encrypted = (length (Data packet) > 0 \<and> \<not> DisableEncryption cfg);
          decryptKey = (if encrypted then lookup (KeyID packet) else None)
      in case decodePacketPayload L (Some packet) (key_bytes decryptKey) encrypted (MaxDecodedPacketSize cfg) of
           (Some packet, None) \<Rightarrow> Inr packet
         | (_, Some e) \<Rightarrow> Inl e
         | (None, None) \<Rightarrow> Inl NilPacket)"

datatype close_reason =
    ReadError
  | TrafficLimit
  | PacketLimit
  | InvalidHead packet_error
  | IncompatibleVersion protocol_error
  | NegotiationFailed

text \<open>The operations of the rate limiter that the read loop asks, for the subject of this connection.\<close>

record 'd ddos_ops =
  AllowTrafficFrom :: "int \<Rightarrow> 'd \<Rightarrow> bool \<times> 'd"
  AllowPacketFrom :: "'d \<Rightarrow> bool \<times> 'd"

text \<open>
  One pass of the read loop up to the delivery of the packet: the bytes that the peer sends until
  it closes, and the packet with the bytes after it.
\<close>

definition read_packet ::
    "'d ddos_ops \<Rightarrow> session_config \<Rightarrow> byte list \<Rightarrow> TcpServerSession \<Rightarrow> 'd \<Rightarrow> (close_reason + NetPacket \<times> byte list) \<times> TcpServerSession \<times> 'd" where
  "read_packet D cfg stream s d =
     (if length stream < NetPacketHeadSize then (Inl ReadError, s, d)
      else
        (let headBuf = take NetPacketHeadSize stream; rest = drop NetPacketHeadSize stream in
         case AllowTrafficFrom D (int NetPacketHeadSize) d of
           (False, d) \<Rightarrow> (Inl TrafficLimit, s, d)
         | (True, d) \<Rightarrow>
             (case DecodeHeader (ss_codec s) headBuf (MaxWirePacketSize cfg) of
                Inl e \<Rightarrow> (Inl (InvalidHead e), s, d)
              | Inr netPacket \<Rightarrow>
                  (case ValidateInboundPacketVersion (ProtoId netPacket) (Version netPacket) (ss_protocol s) of
                     (Some e, pr) \<Rightarrow> (Inl (IncompatibleVersion e), s\<lparr>ss_protocol := pr\<rparr>, d)
                   | (None, pr) \<Rightarrow>
                       (let s = s\<lparr>ss_protocol := pr\<rparr>;
                            body =
                              (if sint (DataSize netPacket) > 0
                               then
                                 (let n = nat (sint (DataSize netPacket)) in
                                  if length rest < n then (Inl ReadError, d)
                                  else
                                    (case AllowTrafficFrom D (int n) d of
                                       (False, d) \<Rightarrow> (Inl TrafficLimit, d)
                                     | (True, d) \<Rightarrow> (Inr (netPacket\<lparr>Data := take n rest\<rparr>, drop n rest), d)))
                               else (Inr (netPacket, rest), d))
                        in case body of
                             (Inl e, d) \<Rightarrow> (Inl e, s, d)
                           | (Inr r, d) \<Rightarrow>
                               (case AllowPacketFrom D d of
                                  (False, d) \<Rightarrow> (Inl PacketLimit, s, d)
                                | (True, d) \<Rightarrow> (Inr r, s, d)))))))"

definition handleProtocolNegotiationPacket ::
    "payload_lib \<Rightarrow> session_config \<Rightarrow> KeyRotationManager option \<Rightarrow> NetPacket \<Rightarrow> TcpServerSession \<Rightarrow> session_error option \<times> TcpServerSession" where
  "handleProtocolNegotiationPacket L cfg krm packet s =
     (case decode_received L cfg (\<lambda>keyID. server_GetDecryptKey krm keyID s) packet of
        Inl e \<Rightarrow> (Some (SessionPayload e), s)
      | Inr packet \<Rightarrow>
          (case AcceptProtocolNegotiation (Version packet) (Data packet) (ss_protocol s) of
             (Inl e, pr) \<Rightarrow> (Some (SessionProtocol e), s\<lparr>ss_protocol := pr\<rparr>)
           | (Inr _, pr) \<Rightarrow> (None, s\<lparr>ss_protocol := pr\<rparr>)))"

lemma read_packet_shorter:
  "(Inr (packet, rest), s', d') = read_packet D cfg stream s d \<Longrightarrow> length rest < length stream"
  by (auto simp: read_packet_def NetPacketHeadSize_def Let_def split: if_splits prod.splits sum.splits option.splits bool.splits)

text \<open>
  The read loop without a worker pool: the packets it puts in the receive channel, in order, and
  why it stopped. The clock reading of \<^verbatim>\<open>heartbeatUpdate\<close> is left out.
\<close>

function receive ::
    "payload_lib \<Rightarrow> 'd ddos_ops \<Rightarrow> session_config \<Rightarrow> KeyRotationManager option \<Rightarrow> byte list \<Rightarrow> TcpServerSession \<Rightarrow> 'd \<Rightarrow> NetPacket list \<times> close_reason \<times> TcpServerSession \<times> 'd" where
  "receive L D cfg krm stream s d =
     (case read_packet D cfg stream s d of
        (Inl reason, s, d) \<Rightarrow> ([], reason, s, d)
      | (Inr (netPacket, rest), s, d) \<Rightarrow>
          (if Enabled (cfg_protocolPolicy cfg) \<and> ProtoId netPacket = ProtocolNegotiationProtoId
           then
             (case handleProtocolNegotiationPacket L cfg krm netPacket s of
                (Some e, s) \<Rightarrow> ([], NegotiationFailed, s, d)
              | (None, s) \<Rightarrow> receive L D cfg krm rest s d)
           else
             (case receive L D cfg krm rest s d of
                (packets, r) \<Rightarrow> (if ProtoId netPacket \<noteq> HeartbeatProtoId then netPacket # packets else packets, r))))"
  by pat_completeness auto

termination
  by (relation "measure (\<lambda>(L, D, cfg, krm, stream, s, d). length stream)")
     (auto dest: read_packet_shorter)

declare receive.simps [simp del]

text \<open>What reaches the dispatcher, and the replay check afterwards; \<open>None\<close> for a nil manager.\<close>

definition processPacket ::
    "('s, 'w) session_map \<Rightarrow> 'w window_map \<Rightarrow> payload_lib \<Rightarrow> session_config \<Rightarrow> KeyRotationManager option \<Rightarrow> int64 \<Rightarrow> TcpServerSession \<Rightarrow>
       NetPacket \<Rightarrow> 's SequenceManager option \<Rightarrow> NetPacket option \<times> 's SequenceManager option" where
  "processPacket S W L cfg krm now s packet sm =
     (case (if EnableSequenceCheck cfg
            then (case sm of
                    None \<Rightarrow> (True, None)
                  | Some m \<Rightarrow>
                      (case ValidateSequence S W m (ss_sid s) (Sequence packet) (Timestamp packet) now of
                         (ok, m) \<Rightarrow> (ok, Some m)))
            else (True, sm)) of
        (False, sm) \<Rightarrow> (None, sm)
      | (True, sm) \<Rightarrow>
          (if ProtoId packet = KeyRotationNotifyProtoId then (None, sm)
           else
             (case decode_received L cfg (\<lambda>keyID. server_GetDecryptKey krm keyID s) packet of
                Inl e \<Rightarrow> (None, sm)
              | Inr packet \<Rightarrow> (Some packet, sm))))"

text \<open>The channel's packets, each processed at its own time.\<close>

fun process_all ::
    "('s, 'w) session_map \<Rightarrow> 'w window_map \<Rightarrow> payload_lib \<Rightarrow> session_config \<Rightarrow> KeyRotationManager option \<Rightarrow> TcpServerSession \<Rightarrow>
       (NetPacket \<times> int64) list \<Rightarrow> 's SequenceManager option \<Rightarrow> NetPacket list \<times> 's SequenceManager option" where
  "process_all S W L cfg krm s [] sm = ([], sm)"
| "process_all S W L cfg krm s ((packet, now) # rest) sm =
     (case processPacket S W L cfg krm now s packet sm of
        (out, sm) \<Rightarrow>
          (case process_all S W L cfg krm s rest sm of
             (outs, sm) \<Rightarrow> ((case out of None \<Rightarrow> outs | Some p \<Rightarrow> p # outs), sm)))"

section \<open>A message survives compression and encryption\<close>

text \<open>What is relied on of AES-GCM and Snappy: decoding inverts encoding, and the lengths.\<close>

definition payload_laws :: "payload_lib \<Rightarrow> bool" where
  "payload_laws L \<longleftrightarrow>
     (\<forall>d k e. AESEncrypt L d k = Inr e \<longrightarrow> AESDecrypt L e k = Inr d \<and> length e = length d + 28) \<and>
     (\<forall>d. snappy_Decode L (snappy_Encode L d) = Inr d \<and> snappy_DecodedLen L (snappy_Encode L d) = Inr (int (length d)))"

lemma aes_law:
  "payload_laws L \<Longrightarrow> AESEncrypt L d k = Inr e \<Longrightarrow> AESDecrypt L e k = Inr d \<and> length e = length d + 28"
  by (simp add: payload_laws_def)

lemma snappy_law:
  "payload_laws L \<Longrightarrow> snappy_Decode L (snappy_Encode L d) = Inr d \<and> snappy_DecodedLen L (snappy_Encode L d) = Inr (int (length d))"
  by (simp add: payload_laws_def)

lemma decoded_fits: "n \<le> sint (resolveDecodedPacketSize m) \<Longrightarrow> validateDecodedPacketSize n m = None"
  by (simp only: validateDecoded_None)

lemma compress_step_cases:
  assumes "compress_step L al cc data = (payload, flag)"
  obtains "payload = data" "flag = CompressionNone"
  | "payload = snappy_Encode L data" "length payload < length data" "flag = CompressionSnappy"
  using assms by (auto simp: compress_step_def Let_def split: if_splits)

lemma decompress_compressed:
  assumes "payload_laws L" "compress_step L al cc data = (payload, flag)" "int (length data) \<le> sint (resolveDecodedPacketSize m)"
  shows "decompress_stage L flag payload m = Inr data"
  using assms(2)
proof (cases rule: compress_step_cases)
  case 1
  then show ?thesis
    using assms(3) by (simp add: decompress_stage_def CompressionNone_def CompressionSnappy_def decoded_fits)
next
  case 2
  then show ?thesis
    using snappy_law [OF assms(1), of data] assms(3) by (simp add: decompress_stage_def decoded_fits)
qed

lemma compress_step_le: "compress_step L al cc data = (payload, flag) \<Longrightarrow> length payload \<le> length data"
  by (erule compress_step_cases) simp_all

lemma decrypt_encrypted:
  assumes "payload_laws L" "AESEncrypt L payload k = Inr sealed" "k \<noteq> []" "int (length payload) \<le> sint (resolveDecodedPacketSize m)"
  shows "decrypt_stage L sealed k m = Inr payload"
  using aes_law [OF assms(1,2)] assms(3,4) by (simp add: decrypt_stage_def aesGCMWireOverhead_def decoded_fits Let_def)

text \<open>Both ends encrypt with a key that the receiver finds under the identifier, or neither does.\<close>

definition keys_match :: "session_config \<Rightarrow> (uint32 \<Rightarrow> byte list option) \<Rightarrow> byte list option \<Rightarrow> uint32 \<Rightarrow> bool" where
  "keys_match cfg lookup key keyID \<longleftrightarrow>
     DisableEncryption cfg \<or> (\<exists>k. key = Some k \<and> k \<noteq> [] \<and> lookup keyID = Some k)"

lemma decode_received_sealed:
  assumes "payload_laws L" "compress_step L al cc data = (payload, flag)"
    and "encrypt_step L key (DisableEncryption cfg) payload = Inr sealed" "keys_match cfg lookup key (KeyID p)"
    and "int (length data) \<le> sint (resolveDecodedPacketSize (MaxDecodedPacketSize cfg))"
    and p: "Data p = sealed" "IsCompressed p = flag"
  shows "decode_received L cfg lookup p = Inr (p\<lparr>Data := data, DataSize := to_int32 (int (length data))\<rparr>)"
proof -
  note z = decompress_compressed [OF assms(1,2,5)]
  show ?thesis
  proof (cases "DisableEncryption cfg")
    case True
    then have "sealed = payload" using assms(3) by (cases key) (auto simp: encrypt_step_def)
    then show ?thesis using True z p by (simp add: decode_received_def decodePacketPayload_def)
  next
    case False
    then obtain k where k: "key = Some k" "k \<noteq> []" "lookup (KeyID p) = Some k" using assms(4) by (auto simp: keys_match_def)
    then have enc: "AESEncrypt L payload k = Inr sealed"
      using assms(3) False by (auto simp: encrypt_step_def split: sum.splits)
    have "int (length payload) \<le> sint (resolveDecodedPacketSize (MaxDecodedPacketSize cfg))"
      using compress_step_le [OF assms(2)] assms(5) by linarith
    then have "decrypt_stage L sealed k (MaxDecodedPacketSize cfg) = Inr payload"
      using decrypt_encrypted [OF assms(1) enc k(2)] by simp
    moreover have "sealed \<noteq> []" using aes_law [OF assms(1) enc] by auto
    ultimately show ?thesis
      using False z p k by (simp add: decode_received_def decodePacketPayload_def key_bytes_def)
  qed
qed

section \<open>What the client writes\<close>

lemma finish_packet_ok:
  "finish_packet cfg q data = Inr p \<longleftrightarrow>
     p = q\<lparr>Data := data, DataSize := to_int32 (int (length data))\<rparr> \<and> header_ok p (MaxWirePacketSize cfg)"
  by (auto simp: finish_packet_def Let_def ValidatePacketHeader_None [symmetric] split: option.splits)

lemma client_key_next [simp]: "client_key cfg (s\<lparr>cs_sendSequence := n\<rparr>) = client_key cfg s"
  by (simp add: client_key_def)

lemma writePacket_ok:
  assumes "writePacket L cfg now pid (Some data) s = (Inr b, s')"
  obtains p payload flag sealed version where
    "OutboundPacketVersion pid (cs_protocol s) = Inr version"
    "compress_step L True (cfg_compression cfg) data = (payload, flag)"
    "encrypt_step L (fst (client_key cfg s)) (DisableEncryption cfg) payload = Inr sealed"
    "b = Marshal (cs_codec s) p" "header_ok p (MaxWirePacketSize cfg)"
    "ProtoId p = pid" "Version p = version" "Sequence p = cs_sendSequence s + 1" "Timestamp p = now"
    "KeyID p = snd (client_key cfg s)" "IsCompressed p = flag" "Data p = sealed" "DataSize p = to_int32 (int (length sealed))"
    "s' = s\<lparr>cs_sendSequence := cs_sendSequence s + 1\<rparr>"
proof -
  obtain version where v: "OutboundPacketVersion pid (cs_protocol s) = Inr version"
    using assms by (auto simp: writePacket_def split: sum.splits)
  obtain payload flag where c: "compress_step L True (cfg_compression cfg) data = (payload, flag)" by fastforce
  obtain key kid where k: "client_key cfg s = (key, kid)" by fastforce
  define s1 where "s1 = s\<lparr>cs_sendSequence := cs_sendSequence s + 1\<rparr>"
  define q where "q = zero_packet\<lparr>ProtoId := pid, Version := version, Sequence := cs_sendSequence s + 1, Timestamp := now, KeyID := kid\<rparr>"
  have w: "writePacket L cfg now pid (Some data) s =
      (case (case encrypt_step L key (DisableEncryption cfg) payload of
               Inl e \<Rightarrow> Inl e | Inr sealed \<Rightarrow> finish_packet cfg (q\<lparr>IsCompressed := flag\<rparr>) sealed) of
         Inl e \<Rightarrow> (Inl e, s1) | Inr packet \<Rightarrow> (Inr (Marshal (cs_codec s) packet), s1))"
    using k v c by (simp add: writePacket_def client_key_next Let_def s1_def q_def split: sum.split)
  obtain sealed where e: "encrypt_step L key (DisableEncryption cfg) payload = Inr sealed"
    using assms w by (cases "encrypt_step L key (DisableEncryption cfg) payload") auto
  then obtain p where p: "finish_packet cfg (q\<lparr>IsCompressed := flag\<rparr>) sealed = Inr p"
      and r: "b = Marshal (cs_codec s) p" "s' = s1"
    using assms w by (cases "finish_packet cfg (q\<lparr>IsCompressed := flag\<rparr>) sealed") auto
  show ?thesis
    using that [OF v c _ r(1)] e k p r(2) by (auto simp: finish_packet_ok q_def s1_def)
qed

lemma sint_to_int32_nonneg:
  assumes "0 \<le> n" "n < 2 ^ 32" "0 \<le> sint (to_int32 n)"
  shows "sint (to_int32 n) = n"
proof (cases "n < 2 ^ 31")
  case False
  then have "to_int32 n = to_int32 (n - 2 ^ 32)"
    by (simp add: to_int32_def word_of_int_eq_iff take_bit_eq_mod mod_eq_dvd_iff)
  moreover have "sint (to_int32 (n - 2 ^ 32)) = n - 2 ^ 32" using assms False by (intro sint_to_int32) simp_all
  ultimately show ?thesis using assms by simp
qed (use assms in simp)

section \<open>A connection delivers its messages\<close>

text \<open>A message: its protocol, its data, and the second at which the client sends it.\<close>

type_synonym message = "ProtoIdType \<times> byte list \<times> int64"

fun write_all ::
    "payload_lib \<Rightarrow> session_config \<Rightarrow> message list \<Rightarrow> TcpClientSession \<Rightarrow> (session_error + byte list) \<times> TcpClientSession" where
  "write_all L cfg [] s = (Inr [], s)"
| "write_all L cfg ((pid, data, now) # ms) s =
     (case writePacket L cfg now pid (Some data) s of
        (Inl e, s) \<Rightarrow> (Inl e, s)
      | (Inr b, s) \<Rightarrow>
          (case write_all L cfg ms s of (Inl e, s) \<Rightarrow> (Inl e, s) | (Inr bs, s) \<Rightarrow> (Inr (b @ bs), s)))"

text \<open>Nothing is known of the versions, or both ends froze the same one.\<close>

definition versions_agree :: "ProtocolVersionNegotiator option \<Rightarrow> ProtocolVersionNegotiator option \<Rightarrow> bool" where
  "versions_agree nc ns \<longleftrightarrow>
     (\<exists>a b. nc = Some a \<and> ns = Some b \<and> Enabled (neg_local a) = Enabled (neg_local b) \<and>
        (Enabled (neg_local a) \<longrightarrow> neg_current a \<noteq> None \<and> neg_current a = neg_current b))"

definition ordinary :: "ProtoIdType \<Rightarrow> bool" where
  "ordinary pid \<longleftrightarrow> pid \<notin> {HeartbeatProtoId, KeyRotationNotifyProtoId, ProtocolNegotiationProtoId}"

lemma agreed_version:
  assumes "versions_agree nc ns" "ordinary pid" "OutboundPacketVersion pid nc = Inr version"
  shows "ValidateInboundPacketVersion pid version ns = (None, ns)"
  using assms by (auto simp: versions_agree_def ordinary_def OutboundPacketVersion_def ValidateInboundPacketVersion_def
    Snapshot_def split: option.splits if_splits)

text \<open>The packet of a message, as the receiver needs it.\<close>

definition carries ::
    "payload_lib \<Rightarrow> session_config \<Rightarrow> (uint32 \<Rightarrow> byte list option) \<Rightarrow> ProtocolVersionNegotiator option \<Rightarrow> message \<Rightarrow> NetPacket \<Rightarrow> bool" where
  "carries L cfg lookup ns m p \<longleftrightarrow>
     (case m of (pid, data, now) \<Rightarrow>
        header_ok p (MaxWirePacketSize cfg) \<and> sint (DataSize p) = int (length (Data p)) \<and>
        ProtoId p = pid \<and> ordinary pid \<and> Timestamp p = now \<and>
        ValidateInboundPacketVersion pid (Version p) ns = (None, ns) \<and>
        (\<exists>p'. decode_received L cfg lookup p = Inr p' \<and> ProtoId p' = pid \<and> Data p' = data))"

fun sent ::
    "(message \<Rightarrow> NetPacket \<Rightarrow> bool) \<Rightarrow> uint64 \<Rightarrow> message list \<Rightarrow> NetPacket list \<Rightarrow> bool" where
  "sent C n [] [] = True"
| "sent C n (m # ms) (p # ps) = (C m p \<and> Sequence p = n + 1 \<and> sent C (n + 1) ms ps)"
| "sent C n _ _ = False"

text \<open>The two configurations of a connection fit.\<close>

definition configs_fit :: "session_config \<Rightarrow> session_config \<Rightarrow> bool" where
  "configs_fit ccfg scfg \<longleftrightarrow>
     MaxWirePacketSize ccfg = MaxWirePacketSize scfg \<and> DisableEncryption ccfg = DisableEncryption scfg"

definition message_ok :: "session_config \<Rightarrow> message \<Rightarrow> bool" where
  "message_ok cfg m \<longleftrightarrow>
     (case m of (pid, data, now) \<Rightarrow>
        ordinary pid \<and> int (length data) \<le> sint (resolveDecodedPacketSize (MaxDecodedPacketSize cfg)))"

lemma encrypt_step_length:
  "payload_laws L \<Longrightarrow> encrypt_step L key dis payload = Inr sealed \<Longrightarrow> length sealed \<le> length payload + 28"
  by (auto simp: encrypt_step_def split: option.splits if_splits sum.splits dest: aes_law)

lemma writePacket_carries:
  assumes L: "payload_laws L" and fit: "configs_fit ccfg scfg" and agree: "versions_agree (cs_protocol s) ns"
    and keys: "keys_match scfg lookup (fst (client_key ccfg s)) (snd (client_key ccfg s))"
    and ok: "message_ok scfg (pid, data, now)"
    and w: "writePacket L ccfg now pid (Some data) s = (Inr b, s')"
  obtains p where "b = Marshal (cs_codec s) p" "carries L scfg lookup ns (pid, data, now) p"
    "Sequence p = cs_sendSequence s + 1" "s' = s\<lparr>cs_sendSequence := cs_sendSequence s + 1\<rparr>"
proof -
  from w obtain p payload flag sealed version where
      v: "OutboundPacketVersion pid (cs_protocol s) = Inr version"
      and c: "compress_step L True (cfg_compression ccfg) data = (payload, flag)"
      and e: "encrypt_step L (fst (client_key ccfg s)) (DisableEncryption scfg) payload = Inr sealed"
      and b: "b = Marshal (cs_codec s) p" and h: "header_ok p (MaxWirePacketSize scfg)"
      and p: "ProtoId p = pid" "Version p = version" "Sequence p = cs_sendSequence s + 1" "Timestamp p = now"
        "KeyID p = snd (client_key ccfg s)" "IsCompressed p = flag" "Data p = sealed" "DataSize p = to_int32 (int (length sealed))"
      and s': "s' = s\<lparr>cs_sendSequence := cs_sendSequence s + 1\<rparr>"
    using fit by (auto simp: configs_fit_def elim!: writePacket_ok)
  have o: "ordinary pid" and fits: "int (length data) \<le> sint (resolveDecodedPacketSize (MaxDecodedPacketSize scfg))"
    using ok by (simp_all add: message_ok_def)
  have "int (length sealed) < 2 ^ 32"
    using encrypt_step_length [OF L e] compress_step_le [OF c] fits
      sint_int32_bounds [of "resolveDecodedPacketSize (MaxDecodedPacketSize scfg)"] by simp
  then have "sint (DataSize p) = int (length (Data p))"
    using h p sint_to_int32_nonneg [of "int (length sealed)"] by (simp add: header_ok_def)
  moreover have "decode_received L scfg lookup p = Inr (p\<lparr>Data := data, DataSize := to_int32 (int (length data))\<rparr>)"
    by (rule decode_received_sealed [OF L c e _ fits]) (use keys p in simp_all)
  ultimately have "carries L scfg lookup ns (pid, data, now) p"
    using h p o agreed_version [OF agree o v] by (simp add: carries_def)
  then show ?thesis using that b p(3) s' by blast
qed

lemma write_all_sent:
  assumes L: "payload_laws L" and fit: "configs_fit ccfg scfg"
  shows "write_all L ccfg ms s = (Inr stream, s') \<Longrightarrow> versions_agree (cs_protocol s) ns \<Longrightarrow>
    keys_match scfg lookup (fst (client_key ccfg s)) (snd (client_key ccfg s)) \<Longrightarrow> list_all (message_ok scfg) ms \<Longrightarrow>
    \<exists>ps. stream = concat (map (Marshal (cs_codec s)) ps) \<and> sent (carries L scfg lookup ns) (cs_sendSequence s) ms ps"
proof (induction ms arbitrary: s stream)
  case Nil
  then show ?case by (intro exI [of _ "[]"]) simp
next
  case (Cons m ms)
  obtain pid data now where m: "m = (pid, data, now)" by (cases m)
  from Cons.prems(1) obtain b s1 bs where w: "writePacket L ccfg now pid (Some data) s = (Inr b, s1)"
      and rest: "write_all L ccfg ms s1 = (Inr bs, s')" and st: "stream = b @ bs"
    by (auto simp: m split: prod.splits sum.splits)
  have ok: "message_ok scfg (pid, data, now)" using Cons.prems(4) m by simp
  obtain p where p: "b = Marshal (cs_codec s) p" "carries L scfg lookup ns (pid, data, now) p"
      "Sequence p = cs_sendSequence s + 1" "s1 = s\<lparr>cs_sendSequence := cs_sendSequence s + 1\<rparr>"
    by (rule writePacket_carries [OF L fit Cons.prems(2,3) ok w])
  obtain ps where "bs = concat (map (Marshal (cs_codec s)) ps)" "sent (carries L scfg lookup ns) (cs_sendSequence s + 1) ms ps"
    using Cons.IH [OF rest] Cons.prems(2-4) p(4) by auto
  then show ?case using p st m by (intro exI [of _ "p # ps"]) simp
qed

text \<open>A limiter that lets everything pass.\<close>

definition ddos_open :: "'d ddos_ops \<Rightarrow> bool" where
  "ddos_open D \<longleftrightarrow> (\<forall>n d. fst (AllowTrafficFrom D n d)) \<and> (\<forall>d. fst (AllowPacketFrom D d))"

lemma ddos_openD:
  assumes "ddos_open D"
  obtains d1 where "AllowTrafficFrom D n d = (True, d1)"
  using assms by (metis ddos_open_def prod.collapse)

lemma ddos_open_packet:
  assumes "ddos_open D"
  obtains d1 where "AllowPacketFrom D d = (True, d1)"
  using assms by (metis ddos_open_def prod.collapse)

lemma read_packet_framed:
  assumes "ddos_open D" and c: "carries L cfg lookup (ss_protocol s) m p"
  shows "\<exists>d'. read_packet D cfg (Marshal (ss_codec s) p @ rest) s d = (Inr (p, rest), s, d')"
proof -
  let ?q = "p\<lparr>Data := []\<rparr>"
  have h: "header_ok p (MaxWirePacketSize cfg)" and n: "sint (DataSize p) = int (length (Data p))"
    and v: "ValidateInboundPacketVersion (ProtoId p) (Version p) (ss_protocol s) = (None, ss_protocol s)"
    using c by (auto simp: carries_def split: prod.splits)
  have dec: "DecodeHeader (ss_codec s) (head_bytes (ss_codec s) p) (MaxWirePacketSize cfg) = Inr ?q"
    using h by (simp add: DecodeHeader_iff)
  have same: "s\<lparr>ss_protocol := ss_protocol s\<rparr> = s" by simp
  obtain d1 where d1: "AllowTrafficFrom D 36 d = (True, d1)" by (rule ddos_openD [OF assms(1)])
  show ?thesis
  proof (cases "Data p = []")
    case True
    obtain d2 where "AllowPacketFrom D d1 = (True, d2)" by (rule ddos_open_packet [OF assms(1)])
    moreover have "?q = p" using True by (cases p) simp
    ultimately show ?thesis
      using d1 dec v n True same by (simp add: read_packet_def NetPacketHeadSize_def Marshal_layout)
  next
    case False
    obtain d2 where d2: "AllowTrafficFrom D (int (length (Data p))) d1 = (True, d2)" by (rule ddos_openD [OF assms(1)])
    obtain d3 where "AllowPacketFrom D d2 = (True, d3)" by (rule ddos_open_packet [OF assms(1)])
    moreover have "?q\<lparr>Data := Data p\<rparr> = p" by (cases p) simp
    ultimately show ?thesis
      using d1 d2 dec v n False same by (simp add: read_packet_def NetPacketHeadSize_def Marshal_layout)
  qed
qed

text \<open>The read loop recovers the packets from the stream, whatever their sizes.\<close>

lemma receive_framed:
  assumes "ddos_open D"
  shows "sent (carries L cfg lookup (ss_protocol s)) n ms ps \<Longrightarrow>
    \<exists>d'. receive L D cfg krm (concat (map (Marshal (ss_codec s)) ps)) s d = (ps, ReadError, s, d')"
proof (induction "carries L cfg lookup (ss_protocol s)" n ms ps arbitrary: d rule: sent.induct)
  case (1 n)
  then show ?case by (subst receive.simps) (simp add: read_packet_def NetPacketHeadSize_def)
next
  case (2 n m ms p ps)
  let ?rest = "concat (map (Marshal (ss_codec s)) ps)"
  have c: "carries L cfg lookup (ss_protocol s) m p" using 2 by simp
  obtain d1 where r: "read_packet D cfg (Marshal (ss_codec s) p @ ?rest) s d = (Inr (p, ?rest), s, d1)"
    using read_packet_framed [OF assms c] by blast
  obtain d2 where i: "receive L D cfg krm ?rest s d1 = (ps, ReadError, s, d2)" using 2 by auto
  have "ProtoId p \<noteq> HeartbeatProtoId" "ProtoId p \<noteq> ProtocolNegotiationProtoId"
    using c by (auto simp: carries_def ordinary_def split: prod.splits)
  then show ?case by (subst receive.simps) (simp add: r i)
qed simp_all

text \<open>The replay check accepts the next number of a session in order.\<close>

definition seq_ready :: "('s, 'w) session_map \<Rightarrow> 'w window_map \<Rightarrow> 's SequenceManager \<Rightarrow> uint64 \<Rightarrow> uint64 \<Rightarrow> bool" where
  "seq_ready S W m sid n \<longleftrightarrow>
     (\<forall>info. tm_load S (sm_sessions m) sid = Some info \<longrightarrow> window_ok W (windowSize m) info \<and> lastSeq info \<le> n)"

lemma validate_known_next:
  assumes "tm_laws W" "window_ok W ws info" "lastSeq info < seq" "seq + 1 \<noteq> 0"
    and v: "validate_known W ws info seq = (ok, info')"
  shows "ok \<and> window_ok W ws info' \<and> lastSeq info' = seq"
proof -
  have "tm_load W (window info) seq = None"
    using assms(2,3) by (auto simp: window_ok_def domIff) (metis domIff linorder_not_less)
  then have "ok" "lastSeq info' = seq"
    using v assms(3) by (auto simp: validate_known_def Let_def not_le [symmetric] split: if_splits)
  then show ?thesis using validate_known_window_ok [OF assms(1,2,4) v] by simp
qed

lemma ValidateSequence_next:
  assumes S: "tm_laws S" and W: "tm_laws W" and r: "seq_ready S W m sid n" and "n < n + 1" "n + 2 \<noteq> 0"
    and t: "timestamp_ok (timestampTolerance m) now ts"
    and v: "ValidateSequence S W m sid (n + 1) ts now = (ok, m')"
  shows "ok \<and> seq_ready S W m' sid (n + 1) \<and> timestampTolerance m' = timestampTolerance m"
proof (cases "tm_load S (sm_sessions m) sid")
  case None
  then have "m' = m\<lparr>sm_sessions := tm_store S (sm_sessions m) sid (fresh_info W (n + 1))\<rparr>" "ok"
    using v t by (simp_all add: ValidateSequence_def fresh_info_def)
  then show ?thesis
    using fresh_window_ok [OF W] typed_map.load_store [OF typed_map.intro [OF S]]
    by (auto simp: seq_ready_def fresh_info_def)
next
  case (Some info)
  obtain info' where k: "validate_known W (windowSize m) info (n + 1) = (ok, info')"
      and m': "m' = m\<lparr>sm_sessions := tm_store S (sm_sessions m) sid info'\<rparr>"
    using v t Some by (auto simp: ValidateSequence_def split: prod.splits)
  have i: "window_ok W (windowSize m) info" "lastSeq info \<le> n" using r Some by (simp_all add: seq_ready_def)
  have "ok \<and> window_ok W (windowSize m) info' \<and> lastSeq info' = n + 1"
    by (rule validate_known_next [OF W i(1) _ _ k]) (use i(2) assms(4,5) in \<open>simp_all add: add.assoc\<close>)
  then show ?thesis
    using m' typed_map.load_store [OF typed_map.intro [OF S]] by (auto simp: seq_ready_def)
qed

definition replay_ready ::
    "('s, 'w) session_map \<Rightarrow> 'w window_map \<Rightarrow> session_config \<Rightarrow> uint64 \<Rightarrow> uint64 \<Rightarrow> message list \<Rightarrow> int64 list \<Rightarrow> 's SequenceManager option \<Rightarrow> bool" where
  "replay_ready S W cfg sid n ms nows sm \<longleftrightarrow>
     EnableSequenceCheck cfg \<longrightarrow>
     (\<forall>m. sm = Some m \<longrightarrow>
        seq_ready S W m sid n \<and> unat n + length ms < 2 ^ 64 - 1 \<and>
        list_all2 (\<lambda>(pid, data, ts) now. timestamp_ok (timestampTolerance m) now ts) ms nows)"

lemma next_number:
  assumes "unat (n :: uint64) + Suc k < 2 ^ 64 - 1"
  shows "n < n + 1" "n + 2 \<noteq> 0" "unat (n + 1) = unat n + 1"
proof -
  show u: "unat (n + 1) = unat n + 1" using assms by (simp add: unat_word_ariths)
  then show "n < n + 1" by (simp add: word_less_nat_alt)
  have "unat (n + 2) = unat n + 2" using assms by (simp add: unat_word_ariths)
  then show "n + 2 \<noteq> 0" by (metis add_is_0 unat_0 zero_neq_numeral)
qed

lemma processPacket_delivers:
  assumes S: "tm_laws S" and W: "tm_laws W"
    and c: "carries L cfg (\<lambda>keyID. server_GetDecryptKey krm keyID s) (ss_protocol s) m p" and "Sequence p = n + 1"
    and r: "replay_ready S W cfg (ss_sid s) n (m # ms) (now # nows) sm"
  shows "\<exists>p' sm'. processPacket S W L cfg krm now s p sm = (Some p', sm') \<and> ProtoId p' = fst m \<and> Data p' = fst (snd m) \<and>
    replay_ready S W cfg (ss_sid s) (n + 1) ms nows sm'"
proof -
  let ?gate = "(if EnableSequenceCheck cfg
      then (case sm of None \<Rightarrow> (True, None)
            | Some m \<Rightarrow> (case ValidateSequence S W m (ss_sid s) (Sequence p) (Timestamp p) now of (ok, m) \<Rightarrow> (ok, Some m)))
      else (True, sm))"
  obtain p' where p': "decode_received L cfg (\<lambda>keyID. server_GetDecryptKey krm keyID s) p = Inr p'"
      "ProtoId p' = fst m" "Data p' = fst (snd m)" and o: "ProtoId p \<noteq> KeyRotationNotifyProtoId"
      and ts: "Timestamp p = snd (snd m)"
    using c by (auto simp: carries_def ordinary_def split: prod.splits)
  have "\<exists>sm'. ?gate = (True, sm') \<and> replay_ready S W cfg (ss_sid s) (n + 1) ms nows sm'"
  proof (cases "EnableSequenceCheck cfg \<and> sm \<noteq> None")
    case True
    then obtain q where q: "sm = Some q" "EnableSequenceCheck cfg" by auto
    obtain ok q' where v: "ValidateSequence S W q (ss_sid s) (n + 1) (Timestamp p) now = (ok, q')" by fastforce
    have rd: "seq_ready S W q (ss_sid s) n" "unat n + Suc (length ms) < 2 ^ 64 - 1"
        "timestamp_ok (timestampTolerance q) now (Timestamp p)"
        "list_all2 (\<lambda>(pid, data, ts) now. timestamp_ok (timestampTolerance q) now ts) ms nows"
      using r q ts by (auto simp: replay_ready_def split: prod.splits)
    note nx = next_number [OF rd(2)]
    have "ok \<and> seq_ready S W q' (ss_sid s) (n + 1) \<and> timestampTolerance q' = timestampTolerance q"
      by (rule ValidateSequence_next [OF S W rd(1) nx(1,2) rd(3) v])
    then show ?thesis using q v rd nx assms(4) by (simp add: replay_ready_def)
  next
    case False
    then show ?thesis using r by (cases "EnableSequenceCheck cfg") (auto simp: replay_ready_def)
  qed
  then show ?thesis using p' o by (auto simp: processPacket_def)
qed

lemma process_all_delivers:
  assumes S: "tm_laws S" and W: "tm_laws W"
  shows "sent (carries L cfg (\<lambda>keyID. server_GetDecryptKey krm keyID s) (ss_protocol s)) n ms ps \<Longrightarrow>
    length nows = length ms \<Longrightarrow> replay_ready S W cfg (ss_sid s) n ms nows sm \<Longrightarrow>
    map (\<lambda>p. (ProtoId p, Data p)) (fst (process_all S W L cfg krm s (zip ps nows) sm)) = map (\<lambda>(pid, data, ts). (pid, data)) ms"
proof (induction "carries L cfg (\<lambda>keyID. server_GetDecryptKey krm keyID s) (ss_protocol s)" n ms ps
    arbitrary: nows sm rule: sent.induct)
  case (2 n m ms p ps)
  then obtain now nows' where nows: "nows = now # nows'" "length nows' = length ms" by (cases nows) auto
  obtain p' sm' where r: "processPacket S W L cfg krm now s p sm = (Some p', sm')" "ProtoId p' = fst m" "Data p' = fst (snd m)"
      "replay_ready S W cfg (ss_sid s) (n + 1) ms nows' sm'"
    using processPacket_delivers [OF S W, of L cfg krm s m p n ms now nows' sm] 2(2,4) nows by auto
  have "map (\<lambda>p. (ProtoId p, Data p)) (fst (process_all S W L cfg krm s (zip ps nows') sm')) = map (\<lambda>(pid, data, ts). (pid, data)) ms"
    using 2(1) [OF _ nows(2) r(4)] 2(2) by simp
  then show ?case using nows r by (auto simp: split_beta)
qed simp_all

section \<open>Properties\<close>

text \<open>
  Property C18. A connection delivers what was sent. A client writes any messages (of ordinary
  protocols, within the server's decoded limit), and every write succeeds. Both ends use the same
  byte order and wire limit and agree on the version; the server finds the client's key under its
  identifier, or both have encryption off; the rate limiter lets the packets pass; and the replay
  check, if on, has seen no later number of the session and the clocks are within its tolerance.
  Then the server reads exactly these packets from the byte stream, up to its end, and the
  dispatcher receives exactly these messages in order, although each was compressed or not and
  encrypted on the way.
\<close>

theorem connection_delivers:
  assumes "tm_laws S" "tm_laws W" "payload_laws L" "ddos_open D" "configs_fit ccfg scfg"
    and "cs_codec c = ss_codec s" "versions_agree (cs_protocol c) (ss_protocol s)"
    and "keys_match scfg (\<lambda>keyID. server_GetDecryptKey krm keyID s) (fst (client_key ccfg c)) (snd (client_key ccfg c))"
    and "list_all (message_ok scfg) ms" "write_all L ccfg ms c = (Inr stream, c')"
    and "length nows = length ms" "replay_ready S W scfg (ss_sid s) (cs_sendSequence c) ms nows sm"
  shows "\<exists>packets d'. receive L D scfg krm stream s d = (packets, ReadError, s, d') \<and>
    map (\<lambda>p. (ProtoId p, Data p)) (fst (process_all S W L scfg krm s (zip packets nows) sm)) =
      map (\<lambda>(pid, data, ts). (pid, data)) ms"
proof -
  let ?C = "carries L scfg (\<lambda>keyID. server_GetDecryptKey krm keyID s) (ss_protocol s)"
  obtain ps where "stream = concat (map (Marshal (ss_codec s)) ps)" and sent: "sent ?C (cs_sendSequence c) ms ps"
    using write_all_sent [OF assms(3,5,10,7,8,9)] assms(6) by auto
  then obtain d' where "receive L D scfg krm stream s d = (ps, ReadError, s, d')"
    using receive_framed [OF assms(4) sent] by blast
  then show ?thesis using process_all_delivers [OF assms(1,2) sent assms(11,12)] by blast
qed

definition sample_lib :: payload_lib where
  "sample_lib = \<lparr>AESEncrypt = (\<lambda>d k. Inr (replicate 28 0 @ d)), AESDecrypt = (\<lambda>e k. Inr (drop 28 e)),
     snappy_Encode = (\<lambda>d. d), snappy_DecodedLen = (\<lambda>d. Inr (int (length d))), snappy_Decode = (\<lambda>d. Inr d)\<rparr>"

definition sample_cfg :: session_config where
  "sample_cfg = \<lparr>MaxWirePacketSize = 1000, MaxDecodedPacketSize = 1000, DisableEncryption = False, DisableCompression = False,
     EnableKeyRotation = False, EnableSequenceCheck = True,
     cfg_compression = \<lparr>cc_Enabled = True, CompressionThreshold = 1, MaxCompressSize = 100\<rparr>, cfg_protocolPolicy = zero_policy\<rparr>"

definition sample_client :: TcpClientSession where
  "sample_client = \<lparr>cs_aesKey = Some [1], cs_currentKey = None, cs_currentKeyID = 0, cs_sendSequence = 0,
     cs_codec = NewPacketCodec None, cs_protocol = Some \<lparr>neg_local = zero_policy, neg_current = None\<rparr>\<rparr>"

definition sample_server :: TcpServerSession where
  "sample_server = NewTcpServerSession sample_cfg (NewPacketCodec None) 1 (Some [1])"

definition sample_messages :: "message list" where
  "sample_messages = [(7, [1, 2, 3], 50), (9, [], 51)]"

definition open_ops :: "unit ddos_ops" where
  "open_ops = \<lparr>AllowTrafficFrom = (\<lambda>_ d. (True, d)), AllowPacketFrom = (\<lambda>d. (True, d))\<rparr>"

lemma sample_written: "\<exists>stream c'. write_all sample_lib sample_cfg sample_messages sample_client = (Inr stream, c')"
  by (simp add: sample_messages_def writePacket_def sample_client_def OutboundPacketVersion_def client_key_def
    compress_step_def encrypt_step_def finish_packet_def ValidatePacketHeader_def IsValidProtoID_def sample_cfg_def
    sample_lib_def to_int32_def zero_packet_def zero_policy_def CompressionNone_def)

theorem connection_delivers_witness:
  "\<exists>stream packets sm. fst (write_all sample_lib sample_cfg sample_messages sample_client) = Inr stream \<and>
     receive sample_lib open_ops sample_cfg None stream sample_server () = (packets, ReadError, sample_server, ()) \<and>
     map (\<lambda>p. (ProtoId p, Data p)) (fst (process_all al_S al_W sample_lib sample_cfg None sample_server (zip packets [52, 52]) sm)) =
       [(7, [1, 2, 3]), (9, [])]"
proof -
  obtain stream c' where w: "write_all sample_lib sample_cfg sample_messages sample_client = (Inr stream, c')"
    using sample_written by blast
  let ?sm = "Some (NewSequenceManager al_S 8 30)"
  have p: "ss_protocol sample_server = Some \<lparr>neg_local = zero_policy, neg_current = None\<rparr>"
    by (simp add: sample_server_def NewTcpServerSession_def sample_cfg_def NewProtocolVersionNegotiator_def
      Policy_Validate_def zero_policy_def)
  have "\<exists>packets d'. receive sample_lib open_ops sample_cfg None stream sample_server () = (packets, ReadError, sample_server, d') \<and>
      map (\<lambda>p. (ProtoId p, Data p)) (fst (process_all al_S al_W sample_lib sample_cfg None sample_server (zip packets [52, 52]) ?sm)) =
        map (\<lambda>(pid, data, ts). (pid, data)) sample_messages"
  proof (rule connection_delivers [OF _ _ _ _ _ _ _ _ _ w])
    show "payload_laws sample_lib" by (simp add: payload_laws_def sample_lib_def)
    show "ddos_open open_ops" by (simp add: ddos_open_def open_ops_def)
    show "configs_fit sample_cfg sample_cfg" by (simp add: configs_fit_def)
    show "cs_codec sample_client = ss_codec sample_server"
      by (simp add: sample_client_def sample_server_def NewTcpServerSession_def)
    show "versions_agree (cs_protocol sample_client) (ss_protocol sample_server)"
      unfolding p by (simp add: versions_agree_def sample_client_def zero_policy_def)
    show "keys_match sample_cfg (\<lambda>keyID. server_GetDecryptKey None keyID sample_server)
        (fst (client_key sample_cfg sample_client)) (snd (client_key sample_cfg sample_client))"
      by (simp add: keys_match_def client_key_def sample_client_def sample_cfg_def server_GetDecryptKey_def
        sample_server_def NewTcpServerSession_def)
    show "list_all (message_ok sample_cfg) sample_messages"
      by (simp add: message_ok_def sample_messages_def sample_cfg_def ordinary_def HeartbeatProtoId_def
        KeyRotationNotifyProtoId_def ProtocolNegotiationProtoId_def resolveDecodedPacketSize_def
        normalizePacketSizeLimits_def Let_def)
    show "replay_ready al_S al_W sample_cfg (ss_sid sample_server) (cs_sendSequence sample_client) sample_messages [52, 52] ?sm"
      by (simp add: replay_ready_def seq_ready_def NewSequenceManager_def sample_messages_def sample_client_def timestamp_ok_def al_S_def)
  qed (simp_all add: sample_messages_def al_S_def al_W_def)
  then obtain packets where
      "receive sample_lib open_ops sample_cfg None stream sample_server () = (packets, ReadError, sample_server, ())"
      "map (\<lambda>p. (ProtoId p, Data p)) (fst (process_all al_S al_W sample_lib sample_cfg None sample_server (zip packets [52, 52]) ?sm)) =
        [(7, [1, 2, 3]), (9, [])]"
    unfolding sample_messages_def by auto
  moreover have "fst (write_all sample_lib sample_cfg sample_messages sample_client) = Inr stream" using w by simp
  ultimately show ?thesis by (intro exI [of _ stream] exI [of _ packets] exI [of _ ?sm] conjI)
qed

section \<open>Receiving on the client\<close>

text \<open>
  What the client's socket yields: bytes, and the moments at which the read deadline passes before
  the next byte. The end of the list is the end of the connection.
\<close>

datatype net_input = Arrived byte | ReadTimeout

text \<open>\<^verbatim>\<open>io.ReadFull\<close>: a deadline that passes inside the buffer reports a timeout, and the bytes read before it are gone.\<close>

datatype read_result = Full "byte list" "net_input list" | TimedOut "net_input list" | Broken

fun ReadFull :: "nat \<Rightarrow> byte list \<Rightarrow> net_input list \<Rightarrow> read_result" where
  "ReadFull 0 buf ins = Full buf ins"
| "ReadFull (Suc n) buf [] = Broken"
| "ReadFull (Suc n) buf (ReadTimeout # ins) = TimedOut ins"
| "ReadFull (Suc n) buf (Arrived b # ins) = ReadFull n (buf @ [b]) ins"

definition client_GetDecryptKey :: "uint32 \<Rightarrow> TcpClientSession \<Rightarrow> byte list option" where
  "client_GetDecryptKey keyID s =
     (if keyID = 0 then cs_aesKey s
      else if keyID = cs_currentKeyID s then cs_currentKey s
      else None)"

definition client_UpdateKey :: "byte list \<Rightarrow> uint32 \<Rightarrow> TcpClientSession \<Rightarrow> TcpClientSession" where
  "client_UpdateKey newKey newKeyID s = s\<lparr>cs_currentKey := Some newKey, cs_currentKeyID := newKeyID\<rparr>"

text \<open>One pass of the read loop: stop, go on without a packet, or go on with a packet for the dispatcher.\<close>

datatype client_outcome = Stop | Continue "net_input list" | Dispatch NetPacket "net_input list"

definition client_payload ::
    "payload_lib \<Rightarrow> session_config \<Rightarrow> NetPacket \<Rightarrow> net_input list \<Rightarrow> TcpClientSession \<Rightarrow> client_outcome \<times> TcpClientSession" where
  "client_payload L cfg netPacket ins s =
     (let negotiation = (Enabled (cfg_protocolPolicy cfg) \<and> ProtoId netPacket = ProtocolNegotiationProtoId) in
      case decode_received L cfg (\<lambda>keyID. client_GetDecryptKey keyID s) netPacket of
        Inl e \<Rightarrow> (if negotiation then Stop else Continue ins, s)
      | Inr netPacket \<Rightarrow>
          (if negotiation then
             (case AcceptProtocolNegotiation (Version netPacket) (Data netPacket) (cs_protocol s) of
                (Inl e, pr) \<Rightarrow> (Stop, s\<lparr>cs_protocol := pr\<rparr>)
              | (Inr _, pr) \<Rightarrow> (Continue ins, s\<lparr>cs_protocol := pr\<rparr>))
           else if ProtoId netPacket = KeyRotationNotifyProtoId then (Continue ins, s)
           else (Dispatch netPacket ins, s)))"

definition client_pass ::
    "payload_lib \<Rightarrow> session_config \<Rightarrow> net_input list \<Rightarrow> TcpClientSession \<Rightarrow> client_outcome \<times> TcpClientSession" where
  "client_pass L cfg ins s =
     (case ReadFull NetPacketHeadSize [] ins of
        Broken \<Rightarrow> (Stop, s)
      | TimedOut ins \<Rightarrow> (Continue ins, s)
      | Full headBuf ins \<Rightarrow>
          (case DecodeHeader (cs_codec s) headBuf (MaxWirePacketSize cfg) of
             Inl e \<Rightarrow> (Stop, s)
           | Inr netPacket \<Rightarrow>
               (case ValidateInboundPacketVersion (ProtoId netPacket) (Version netPacket) (cs_protocol s) of
                  (Some e, pr) \<Rightarrow> (Stop, s\<lparr>cs_protocol := pr\<rparr>)
                | (None, pr) \<Rightarrow>
                    (let s = s\<lparr>cs_protocol := pr\<rparr> in
                     if sint (DataSize netPacket) > 0
                     then (case ReadFull (nat (sint (DataSize netPacket))) [] ins of
                             Full body ins \<Rightarrow> client_payload L cfg (netPacket\<lparr>Data := body\<rparr>) ins s
                           | _ \<Rightarrow> (Stop, s))
                     else client_payload L cfg netPacket ins s))))"

lemma ReadFull_length:
  "ReadFull n buf ins = Full out rest \<Longrightarrow> length rest + n = length ins"
  "ReadFull n buf ins = TimedOut rest \<Longrightarrow> length rest < length ins"
  by (induction n buf ins rule: ReadFull.induct) auto

lemma client_payload_rest:
  "client_payload L cfg p ins s = (Continue rest, s') \<Longrightarrow> rest = ins"
  "client_payload L cfg p ins s = (Dispatch q rest, s') \<Longrightarrow> rest = ins"
  by (auto simp: client_payload_def Let_def split: sum.splits if_splits prod.splits)

lemma client_pass_shorter:
  "(Continue rest, s') = client_pass L cfg ins s \<Longrightarrow> length rest < length ins"
  "(Dispatch p rest, s') = client_pass L cfg ins s \<Longrightarrow> length rest < length ins"
  by (auto simp: client_pass_def NetPacketHeadSize_def Let_def
      split: read_result.splits sum.splits prod.splits option.splits if_splits
      dest!: sym [of "(_, _)"] client_payload_rest ReadFull_length)

text \<open>The read loop: the packets that are handed to the dispatcher.\<close>

function client_receive ::
    "payload_lib \<Rightarrow> session_config \<Rightarrow> net_input list \<Rightarrow> TcpClientSession \<Rightarrow> NetPacket list \<times> TcpClientSession" where
  "client_receive L cfg ins s =
     (case client_pass L cfg ins s of
        (Stop, s) \<Rightarrow> ([], s)
      | (Continue ins, s) \<Rightarrow> client_receive L cfg ins s
      | (Dispatch p ins, s) \<Rightarrow> (case client_receive L cfg ins s of (ps, s) \<Rightarrow> (p # ps, s)))"
  by pat_completeness auto

termination
  by (relation "measure (\<lambda>(L, cfg, ins, s). length ins)") (auto dest: client_pass_shorter)

declare client_receive.simps [simp del]

lemma ReadFull_partial:
  "length pre < n \<Longrightarrow> ReadFull n buf (map Arrived pre @ ReadTimeout # rest) = TimedOut rest"
proof (induction pre arbitrary: n buf)
  case Nil
  then show ?case by (cases n) simp_all
next
  case (Cons b pre)
  then show ?case by (cases n) simp_all
qed

text \<open>
  The client loses its place in the stream when a header arrives in two parts. If the
  read deadline of three seconds passes after some, but not all, bytes of a header have arrived,
  the loop goes on as if they had never been sent: the next header is read from the middle of the
  packet.
\<close>

theorem client_pause_loses_bytes:
  assumes "length pre < NetPacketHeadSize"
  shows "client_receive L cfg (map Arrived pre @ ReadTimeout # rest) s = client_receive L cfg rest s"
  using assms by (subst client_receive.simps) (simp add: client_pass_def ReadFull_partial)

text \<open>A packet without data: 36 bytes.\<close>

definition pause_packet :: NetPacket where
  "pause_packet = zero_packet\<lparr>ProtoId := 7\<rparr>"

theorem client_pause_loses_bytes_witness:
  "fst (client_receive sample_lib sample_cfg (map Arrived (take 4 (head_bytes (NewPacketCodec None) pause_packet)) @
     ReadTimeout # map Arrived (drop 4 (head_bytes (NewPacketCodec None) pause_packet))) sample_client) = [] \<and>
   map ProtoId (fst (client_receive sample_lib sample_cfg (map Arrived (head_bytes (NewPacketCodec None) pause_packet)) sample_client)) = [7]"
proof -
  let ?h = "head_bytes (NewPacketCodec None) pause_packet"
  have full: "length bs = n \<Longrightarrow> ReadFull n buf (map Arrived bs) = Full (buf @ bs) []" for bs n buf
    by (induction bs arbitrary: n buf) auto
  have short: "length bs < n \<Longrightarrow> ReadFull n buf (map Arrived bs) = Broken" for bs n buf
  proof (induction bs arbitrary: n buf)
    case Nil
    then show ?case by (cases n) simp_all
  next
    case (Cons b bs)
    then show ?case by (cases n) simp_all
  qed
  have "client_receive sample_lib sample_cfg (map Arrived (drop 4 ?h)) sample_client = ([], sample_client)"
    by (subst client_receive.simps) (simp add: client_pass_def NetPacketHeadSize_def short)
  moreover have "DecodeHeader (NewPacketCodec None) ?h 1000 = Inr pause_packet"
    by (simp add: DecodeHeader_iff pause_packet_def zero_packet_def header_ok_def IsValidProtoID_def CompressionNone_def)
  then have "client_pass sample_lib sample_cfg (map Arrived ?h) sample_client = (Dispatch pause_packet [], sample_client)"
    by (simp add: client_pass_def NetPacketHeadSize_def full sample_client_def sample_cfg_def pause_packet_def zero_packet_def
      ValidateInboundPacketVersion_def zero_policy_def client_payload_def decode_received_def decodePacketPayload_def
      decompress_stage_def CompressionSnappy_def decoded_fits key_bytes_def to_int32_def KeyRotationNotifyProtoId_def
      resolveDecodedPacketSize_def normalizePacketSizeLimits_def)
  moreover have "client_receive sample_lib sample_cfg [] sample_client = ([], sample_client)"
    by (subst client_receive.simps) (simp add: client_pass_def NetPacketHeadSize_def short [of "[]", simplified])
  ultimately have "map ProtoId (fst (client_receive sample_lib sample_cfg (map Arrived ?h) sample_client)) = [7]"
    by (subst client_receive.simps) (simp add: pause_packet_def)
  then show ?thesis
    using client_pause_loses_bytes [of "take 4 ?h" sample_lib sample_cfg "map Arrived (drop 4 ?h)" sample_client]
      \<open>client_receive sample_lib sample_cfg (map Arrived (drop 4 ?h)) sample_client = ([], sample_client)\<close>
    by (simp add: NetPacketHeadSize_def)
qed

end
