(* ===== verification/Correlator.thy ===== *)
theory Correlator
  imports Prelude
begin

text \<open>
  \<^verbatim>\<open>zNet/request_correlator.go\<close>: asynchronous responses are routed back to the call that waits
  for them. The router is a record; every section under its mutex is one function. What happens
  between the sections - a result on its way to a channel, a \<^verbatim>\<open>SendRequest\<close> between two of its
  statements - is part of a configuration \<open>corr_world\<close>, whose steps interleave freely.

  A channel made by \<^verbatim>\<open>make(chan *ResponseResult, 1)\<close> is a number; the configuration maps it to
  its buffer. Every \<^verbatim>\<open>PendingResponse\<close> has a channel of its own, so comparing two of them by
  address is comparing their channels. The order in which a map is ranged over is irrelevant
  here: the results that \<^verbatim>\<open>Close\<close> and \<^verbatim>\<open>Cleanup\<close> send travel independently.
\<close>

section \<open>The router\<close>

datatype req_error =
    ErrDuplicateRequestID uint64
  | ErrRequestRouterClosed
  | ErrRequestExpired
  | RouterClosedBy req_error
  | RequestTimedOut uint64 duration req_error
  | SendRequestFailed req_error
  | NilSendFunction
  | CallerError string

text \<open>\<^verbatim>\<open>errors.Is(err, ErrRequestRouterClosed)\<close>: the wrapped errors are searched.\<close>

fun is_router_closed :: "req_error \<Rightarrow> bool" where
  "is_router_closed ErrRequestRouterClosed = True"
| "is_router_closed (RouterClosedBy e) = True"
| "is_router_closed (RequestTimedOut i d e) = is_router_closed e"
| "is_router_closed (SendRequestFailed e) = is_router_closed e"
| "is_router_closed _ = False"

record ResponseResult =
  Data :: "byte list"
  Error :: "req_error option"

record PendingResponse =
  ch :: nat
  deadline :: time

record RequestRouter =
  pending :: "(uint64 \<times> PendingResponse) list"
  nextReqID :: uint64
  timeout :: duration
  closed :: bool
  closeCause :: "req_error option"

definition NewRequestRouter :: "duration \<Rightarrow> RequestRouter" where
  "NewRequestRouter t =
     (let t = (if t \<le> 0 then 10 * 1000000000 else t)
      in \<lparr>pending = [], nextReqID = 0, timeout = t, closed = False, closeCause = None\<rparr>)"

definition NextRequestID :: "RequestRouter \<Rightarrow> uint64 \<times> RequestRouter" where
  "NextRequestID rr = (nextReqID rr + 1, rr\<lparr>nextReqID := nextReqID rr + 1\<rparr>)"

definition closedError :: "RequestRouter \<Rightarrow> req_error" where
  "closedError rr =
     (case closeCause rr of
        None \<Rightarrow> ErrRequestRouterClosed
      | Some cause \<Rightarrow> if is_router_closed cause then ErrRequestRouterClosed else RouterClosedBy cause)"

text \<open>\<open>fresh\<close> is the channel that \<^verbatim>\<open>make\<close> returns, \<open>now\<close> the clock.\<close>

definition TryRegisterPending ::
    "time \<Rightarrow> nat \<Rightarrow> uint64 \<Rightarrow> RequestRouter \<Rightarrow> (req_error + nat) \<times> RequestRouter" where
  "TryRegisterPending now fresh requestID rr =
     (if closed rr then (Inl (closedError rr), rr)
      else if map_of (pending rr) requestID \<noteq> None then (Inl (ErrDuplicateRequestID requestID), rr)
      else let p = \<lparr>ch = fresh, deadline = now + timeout rr\<rparr>
           in (Inr (ch p), rr\<lparr>pending := AList.update requestID p (pending rr)\<rparr>))"

text \<open>The locked part of \<^verbatim>\<open>CompleteRequest\<close>; the result is sent after it.\<close>

definition complete_section :: "uint64 \<Rightarrow> RequestRouter \<Rightarrow> nat option \<times> RequestRouter" where
  "complete_section requestID rr =
     (case map_of (pending rr) requestID of
        None \<Rightarrow> (None, rr)
      | Some p \<Rightarrow> (Some (ch p), rr\<lparr>pending := AList.delete requestID (pending rr)\<rparr>))"

definition removePending ::
    "uint64 \<Rightarrow> PendingResponse option \<Rightarrow> RequestRouter \<Rightarrow> bool \<times> RequestRouter" where
  "removePending requestID p rr =
     (case map_of (pending rr) requestID of
        None \<Rightarrow> (False, rr)
      | Some current \<Rightarrow>
          if p = None \<or> ch current \<noteq> ch (the p) then (False, rr)
          else (True, rr\<lparr>pending := AList.delete requestID (pending rr)\<rparr>))"

text \<open>The locked parts of \<^verbatim>\<open>Cleanup\<close> and \<^verbatim>\<open>Close\<close>: the channels that are to be sent a result.\<close>

definition router_cleanup_section :: "time \<Rightarrow> RequestRouter \<Rightarrow> nat list \<times> RequestRouter" where
  "router_cleanup_section now rr =
     (map (\<lambda>e. ch (snd e)) (filter (\<lambda>e. now > deadline (snd e)) (pending rr)),
      rr\<lparr>pending := filter (\<lambda>e. \<not> now > deadline (snd e)) (pending rr)\<rparr>)"

definition close_section :: "req_error option \<Rightarrow> RequestRouter \<Rightarrow> (req_error \<times> nat list) \<times> RequestRouter" where
  "close_section cause rr =
     (let cause = (case cause of None \<Rightarrow> ErrRequestRouterClosed | Some e \<Rightarrow> e)
      in if closed rr then ((cause, []), rr)
         else ((cause, map (\<lambda>e. ch (snd e)) (pending rr)),
               rr\<lparr>closed := True, closeCause := Some cause, pending := []\<rparr>))"

definition PendingCount :: "RequestRouter \<Rightarrow> nat" where
  "PendingCount rr = length (pending rr)"

section \<open>Calls and channels\<close>

text \<open>
  \<^verbatim>\<open>SendRequest\<close> registers, reads its entry back under a second lock, sends, and waits in a
  \<^verbatim>\<open>select\<close>. Its program counter holds the local variable \<^verbatim>\<open>pending\<close> once that is read.
\<close>

datatype call_pc =
    Registered
  | Sending "PendingResponse option"
  | Awaiting "PendingResponse option"
  | Returned "req_error + byte list"

record send_call =
  call_id :: uint64
  respCh :: nat
  call_pc :: call_pc

text \<open>
  The configuration: the router, the channels made so far (\<open>0 .. chans - 1\<close>) and their buffers,
  results on their way, and the calls of \<^verbatim>\<open>SendRequest\<close>. The last four fields record the
  history: the results taken from a channel, the channels whose entry was withdrawn, the
  identifier a channel was registered under, and the responses that were given to
  \<^verbatim>\<open>CompleteRequest\<close>.
\<close>

record corr_world =
  router :: RequestRouter
  chans :: nat
  buffer :: "nat \<Rightarrow> ResponseResult list"
  sends :: "(nat \<times> ResponseResult) list"
  calls :: "send_call list"
  taken :: "nat \<Rightarrow> ResponseResult list"
  withdrawn :: "nat list"
  reg_id :: "nat \<Rightarrow> uint64"
  responses :: "(uint64 \<times> ResponseResult) list"

definition corr_init :: "duration \<Rightarrow> corr_world" where
  "corr_init t = \<lparr>router = NewRequestRouter t, chans = 0, buffer = (\<lambda>_. []), sends = [], calls = [],
     taken = (\<lambda>_. []), withdrawn = [], reg_id = (\<lambda>_. 0), responses = []\<rparr>"

definition error_result :: "req_error \<Rightarrow> ResponseResult" where
  "error_result e = \<lparr>Data = [], Error = Some e\<rparr>"

definition make_chan :: "uint64 \<Rightarrow> ResponseResult list \<Rightarrow> corr_world \<Rightarrow> corr_world" where
  "make_chan requestID content w =
     w\<lparr>chans := Suc (chans w), buffer := (buffer w)(chans w := content),
       reg_id := (reg_id w)(chans w := requestID)\<rparr>"

text \<open>
  \<^verbatim>\<open>RegisterPending\<close>: on an error the caller gets a channel that already holds it.
\<close>

definition RegisterPending :: "time \<Rightarrow> uint64 \<Rightarrow> corr_world \<Rightarrow> nat \<times> corr_world" where
  "RegisterPending now requestID w =
     (case TryRegisterPending now (chans w) requestID (router w) of
        (Inr c, rr) \<Rightarrow> (c, make_chan requestID [] (w\<lparr>router := rr\<rparr>))
      | (Inl e, rr) \<Rightarrow> (chans w, make_chan requestID [error_result e] (w\<lparr>router := rr\<rparr>)))"

definition CompleteRequest :: "uint64 \<Rightarrow> ResponseResult \<Rightarrow> corr_world \<Rightarrow> bool \<times> corr_world" where
  "CompleteRequest requestID r w =
     (case complete_section requestID (router w) of
        (None, rr) \<Rightarrow> (False, w\<lparr>router := rr\<rparr>)
      | (Some c, rr) \<Rightarrow> (True, w\<lparr>router := rr, sends := sends w @ [(c, r)],
                                 responses := (requestID, r) # responses w\<rparr>))"

definition router_Cleanup :: "time \<Rightarrow> corr_world \<Rightarrow> corr_world" where
  "router_Cleanup now w =
     (case router_cleanup_section now (router w) of
        (expired, rr) \<Rightarrow>
          w\<lparr>router := rr, sends := sends w @ map (\<lambda>c. (c, error_result ErrRequestExpired)) expired\<rparr>)"

definition router_Close :: "req_error option \<Rightarrow> corr_world \<Rightarrow> corr_world" where
  "router_Close cause w =
     (case close_section cause (router w) of
        ((cause, cs), rr) \<Rightarrow> w\<lparr>router := rr, sends := sends w @ map (\<lambda>c. (c, error_result cause)) cs\<rparr>)"

text \<open>A send on a channel of capacity one goes ahead when the buffer is empty.\<close>

definition can_send :: "nat \<Rightarrow> corr_world \<Rightarrow> bool" where
  "can_send i w \<longleftrightarrow> i < length (sends w) \<and> length (buffer w (fst (sends w ! i))) < 1"

definition chan_send :: "nat \<Rightarrow> corr_world \<Rightarrow> corr_world" where
  "chan_send i w =
     (case sends w ! i of
        (c, r) \<Rightarrow> w\<lparr>sends := take i (sends w) @ drop (Suc i) (sends w),
                    buffer := (buffer w)(c := buffer w c @ [r])\<rparr>)"

definition chan_receive :: "nat \<Rightarrow> corr_world \<Rightarrow> corr_world" where
  "chan_receive c w =
     (case buffer w c of
        [] \<Rightarrow> w
      | r # rs \<Rightarrow> w\<lparr>buffer := (buffer w)(c := rs), taken := (taken w)(c := taken w c @ [r])\<rparr>)"

section \<open>SendRequest\<close>

text \<open>Up to the registration; a context that is already done and a refused registration return.\<close>

definition SendRequest_begin ::
    "req_error option \<Rightarrow> time \<Rightarrow> uint64 \<Rightarrow> corr_world \<Rightarrow> (req_error + nat) \<times> corr_world" where
  "SendRequest_begin ctxErr now requestID w =
     (case ctxErr of
        Some e \<Rightarrow> (Inl e, w)
      | None \<Rightarrow>
          (case TryRegisterPending now (chans w) requestID (router w) of
             (Inl e, rr) \<Rightarrow> (Inl e, w\<lparr>router := rr\<rparr>)
           | (Inr c, rr) \<Rightarrow>
               (Inr c, make_chan requestID []
                  (w\<lparr>router := rr, calls := calls w @ [\<lparr>call_id = requestID, respCh = c, call_pc = Registered\<rparr>]\<rparr>))))"

definition set_pc :: "nat \<Rightarrow> call_pc \<Rightarrow> corr_world \<Rightarrow> corr_world" where
  "set_pc i pc w = w\<lparr>calls := (calls w)[i := (calls w ! i)\<lparr>call_pc := pc\<rparr>]\<rparr>"

text \<open>Giving up: the entry is withdrawn if it is still the one that was read.\<close>

definition give_up :: "nat \<Rightarrow> PendingResponse option \<Rightarrow> req_error \<Rightarrow> corr_world \<Rightarrow> corr_world" where
  "give_up i p e w =
     (case removePending (call_id (calls w ! i)) p (router w) of
        (removed, rr) \<Rightarrow>
          set_pc i (Returned (Inl e))
            (w\<lparr>router := rr, withdrawn := (if removed then [ch (the p)] else []) @ withdrawn w\<rparr>))"

text \<open>
  One statement of call \<open>i\<close>. What it depends on besides the configuration is its argument: the
  outcome of \<^verbatim>\<open>sendFn\<close> (\<open>None\<close>: the function is nil), and the branch that \<^verbatim>\<open>select\<close> takes.
\<close>

datatype call_input = No_input | Send_outcome "req_error option option" | Ctx_done req_error | Timer_fired

definition SendRequest_step :: "nat \<Rightarrow> call_input \<Rightarrow> corr_world \<Rightarrow> corr_world" where
  "SendRequest_step i inp w =
     (let c = calls w ! i in
      case (call_pc c, inp) of
        (Registered, No_input) \<Rightarrow> set_pc i (Sending (map_of (pending (router w)) (call_id c))) w
      | (Sending p, Send_outcome None) \<Rightarrow> give_up i p NilSendFunction w
      | (Sending p, Send_outcome (Some (Some e))) \<Rightarrow> give_up i p (SendRequestFailed e) w
      | (Sending p, Send_outcome (Some None)) \<Rightarrow> set_pc i (Awaiting p) w
      | (Awaiting p, No_input) \<Rightarrow>
          (case buffer w (respCh c) of
             [] \<Rightarrow> w
           | r # _ \<Rightarrow> set_pc i (Returned (case Error r of Some e \<Rightarrow> Inl e | None \<Rightarrow> Inr (Data r)))
                        (chan_receive (respCh c) w))
      | (Awaiting p, Ctx_done e) \<Rightarrow> give_up i p e w
      | (Awaiting p, Timer_fired) \<Rightarrow>
          give_up i p (RequestTimedOut (call_id c) (timeout (router w)) ErrRequestExpired) w
      | _ \<Rightarrow> w)"

section \<open>Executions\<close>

inductive corr_step :: "corr_world \<Rightarrow> corr_world \<Rightarrow> bool" where
  next_id: "corr_step w (w\<lparr>router := snd (NextRequestID (router w))\<rparr>)"
| register: "corr_step w (snd (RegisterPending now requestID w))"
| complete: "corr_step w (snd (CompleteRequest requestID r w))"
| cleanup: "corr_step w (router_Cleanup now w)"
| close: "corr_step w (router_Close cause w)"
| sent: "can_send i w \<Longrightarrow> corr_step w (chan_send i w)"
| received: "corr_step w (chan_receive c w)"
| begin_call: "corr_step w (snd (SendRequest_begin ctxErr now requestID w))"
| call: "i < length (calls w) \<Longrightarrow> corr_step w (SendRequest_step i inp w)"

abbreviation corr_reach :: "duration \<Rightarrow> corr_world \<Rightarrow> bool" where
  "corr_reach t w \<equiv> corr_step\<^sup>*\<^sup>* (corr_init t) w"

section \<open>Where the answer to a request is\<close>

text \<open>
  Every channel has exactly one of: an entry that waits for a response, a result on its way, a
  result in the buffer, a result that was taken, or a withdrawn entry.
\<close>

definition waiting_entries :: "RequestRouter \<Rightarrow> nat \<Rightarrow> nat" where
  "waiting_entries rr c = count_list (map (\<lambda>e. ch (snd e)) (pending rr)) c"

definition places :: "corr_world \<Rightarrow> nat \<Rightarrow> nat" where
  "places w c = waiting_entries (router w) c + count_list (map fst (sends w)) c + length (buffer w c)
     + length (taken w c) + count_list (withdrawn w) c"

lemma count_list_map_filter:
  "count_list (map f (filter P xs)) c + count_list (map f (filter (\<lambda>x. \<not> P x) xs)) c = count_list (map f xs) c"
  by (induction xs) auto

lemma count_list_map_delete:
  assumes "distinct (map fst al)" "map_of al k = Some v"
  shows "count_list (map (\<lambda>e. f (snd e)) (AList.delete k al)) c + (if f v = c then 1 else 0)
     = count_list (map (\<lambda>e. f (snd e)) al) c"
  using assms
  by (induction al) (auto simp: delete_id dom_map_of_conv_image_fst split: if_splits)

lemma count_list_remove_nth:
  assumes "i < length xs"
  shows "count_list (map fst (take i xs @ drop (Suc i) xs)) c + (if fst (xs ! i) = c then 1 else 0)
     = count_list (map fst xs) c"
proof -
  have "map fst xs = map fst (take i xs) @ fst (xs ! i) # map fst (drop (Suc i) xs)"
    using id_take_nth_drop [OF assms] by (metis list.simps(9) map_append)
  then show ?thesis by simp
qed

lemma in_set_delete: "x \<in> set (AList.delete k al) \<Longrightarrow> x \<in> set al"
  by (induction al) (auto split: if_splits)

lemma count_list_const_sends: "map (fst \<circ> (\<lambda>c. (c, r))) cs = cs"
  by (induction cs) auto

definition corr_inv :: "corr_world \<Rightarrow> bool" where
  "corr_inv w \<longleftrightarrow>
     distinct (map fst (pending (router w))) \<and>
     (closed (router w) \<longrightarrow> pending (router w) = []) \<and>
     (\<forall>c. places w c = (if c < chans w then 1 else 0))"

lemma corr_inv_init: "corr_inv (corr_init t)"
  by (simp add: corr_inv_def corr_init_def NewRequestRouter_def places_def waiting_entries_def)

lemma places_set_pc [simp]: "places (set_pc i pc w) c = places w c"
  by (simp add: places_def set_pc_def)

lemma corr_inv_set_pc [simp]: "corr_inv (set_pc i pc w) = corr_inv w"
  by (simp add: corr_inv_def) (simp add: set_pc_def)

lemma corr_inv_calls [simp]: "corr_inv (w\<lparr>calls := x\<rparr>) = corr_inv w"
  by (simp add: corr_inv_def places_def)

lemma make_chan_calls [simp]: "make_chan k xs (w\<lparr>calls := x\<rparr>) = (make_chan k xs w)\<lparr>calls := x\<rparr>"
  by (simp add: make_chan_def)

lemma fresh_empty:
  assumes "corr_inv w"
  shows "waiting_entries (router w) (chans w) = 0" "count_list (map fst (sends w)) (chans w) = 0"
    "taken w (chans w) = []" "count_list (withdrawn w) (chans w) = 0"
proof -
  have "places w (chans w) = 0" using assms by (simp add: corr_inv_def)
  then show "waiting_entries (router w) (chans w) = 0" "count_list (map fst (sends w)) (chans w) = 0"
    "taken w (chans w) = []" "count_list (withdrawn w) (chans w) = 0"
    by (simp_all add: places_def)
qed

lemma waiting_entries_append [simp]:
  "waiting_entries (rr\<lparr>pending := pending rr @ [(k, p)]\<rparr>) c = waiting_entries rr c + (if ch p = c then 1 else 0)"
  by (simp add: waiting_entries_def)

text \<open>Registering on behalf of a caller, whether it is refused or not.\<close>

lemma TryRegister_cases:
  obtains e where "TryRegisterPending now fresh k rr = (Inl e, rr)"
  | "map_of (pending rr) k = None" "\<not> closed rr"
    "TryRegisterPending now fresh k rr =
       (Inr fresh, rr\<lparr>pending := pending rr @ [(k, \<lparr>ch = fresh, deadline = now + timeout rr\<rparr>)]\<rparr>)"
  by (cases "closed rr"; cases "map_of (pending rr) k = None")
     (auto simp: TryRegisterPending_def Let_def alist_update_new map_of_eq_None_iff)

lemma corr_inv_registered:
  assumes "corr_inv w" "map_of (pending (router w)) k = None" "\<not> closed (router w)"
  shows "corr_inv (make_chan k [] (w\<lparr>router := (router w)\<lparr>pending := pending (router w) @ [(k, \<lparr>ch = chans w, deadline = d\<rparr>)]\<rparr>\<rparr>))"
  using assms
  by (auto simp: corr_inv_def places_def make_chan_def fresh_empty [OF assms(1)] map_of_eq_None_iff
      less_Suc_eq)

lemma corr_inv_RegisterPending:
  assumes inv: "corr_inv w"
  shows "corr_inv (snd (RegisterPending now k w))"
proof (rule TryRegister_cases [of now "chans w" k "router w"])
  fix e
  assume "TryRegisterPending now (chans w) k (router w) = (Inl e, router w)"
  with inv show ?thesis
    by (auto simp: RegisterPending_def corr_inv_def make_chan_def places_def less_Suc_eq fresh_empty [OF inv])
next
  assume "map_of (pending (router w)) k = None" "\<not> closed (router w)"
    "TryRegisterPending now (chans w) k (router w) = (Inr (chans w), (router w)\<lparr>pending := pending (router w) @ [(k, \<lparr>ch = chans w, deadline = now + timeout (router w)\<rparr>)]\<rparr>)"
  with corr_inv_registered [OF inv] show ?thesis
    by (simp add: RegisterPending_def)
qed

lemma corr_inv_begin:
  assumes inv: "corr_inv w"
  shows "corr_inv (snd (SendRequest_begin ctxErr now k w))"
proof (cases ctxErr)
  case None
  show ?thesis
  proof (rule TryRegister_cases [of now "chans w" k "router w"])
    fix e
    assume "TryRegisterPending now (chans w) k (router w) = (Inl e, router w)"
    with inv None show ?thesis by (simp add: SendRequest_begin_def)
  next
    assume "map_of (pending (router w)) k = None" "\<not> closed (router w)"
      and eq: "TryRegisterPending now (chans w) k (router w) = (Inr (chans w), (router w)\<lparr>pending := pending (router w) @ [(k, \<lparr>ch = chans w, deadline = now + timeout (router w)\<rparr>)]\<rparr>)"
    with corr_inv_registered [OF inv] None
    show ?thesis by (simp add: SendRequest_begin_def)
  qed
qed (simp add: SendRequest_begin_def inv)

text \<open>A step that moves an answer from one place to another keeps the invariant.\<close>

lemma corr_inv_moved:
  assumes "corr_inv w" "\<And>c. places w' c = places w c" "chans w' = chans w"
    and "distinct (map fst (pending (router w')))" "closed (router w') \<Longrightarrow> pending (router w') = []"
  shows "corr_inv w'"
  using assms by (simp add: corr_inv_def)

lemma waiting_entries_delete:
  assumes "corr_inv w" "map_of (pending (router w)) k = Some p"
  shows "waiting_entries (router w) c =
    waiting_entries ((router w)\<lparr>pending := AList.delete k (pending (router w))\<rparr>) c + (if ch p = c then 1 else 0)"
  using count_list_map_delete [OF _ assms(2), of ch c] assms(1) by (simp add: corr_inv_def waiting_entries_def)

lemma corr_inv_CompleteRequest:
  assumes "corr_inv w"
  shows "corr_inv (snd (CompleteRequest k r w))"
proof (cases "map_of (pending (router w)) k")
  case (Some p)
  then have w: "snd (CompleteRequest k r w) = w\<lparr>router := (router w)\<lparr>pending := AList.delete k (pending (router w))\<rparr>,
      sends := sends w @ [(ch p, r)], responses := (k, r) # responses w\<rparr>"
    by (simp add: CompleteRequest_def complete_section_def)
  show ?thesis unfolding w
  proof (rule corr_inv_moved [OF assms])
    show "places (w\<lparr>router := (router w)\<lparr>pending := AList.delete k (pending (router w))\<rparr>,
      sends := sends w @ [(ch p, r)], responses := (k, r) # responses w\<rparr>) c = places w c" for c
      by (simp add: places_def waiting_entries_delete [OF assms Some])
  qed (use assms in \<open>auto simp: corr_inv_def distinct_delete\<close>)
qed (use assms in \<open>simp add: CompleteRequest_def complete_section_def\<close>)

lemma corr_inv_Cleanup:
  assumes "corr_inv w"
  shows "corr_inv (router_Cleanup now w)"
proof (rule corr_inv_moved [OF assms])
  fix c
  have "waiting_entries (router w) c = count_list (fst (router_cleanup_section now (router w))) c
      + waiting_entries (snd (router_cleanup_section now (router w))) c"
    using count_list_map_filter [of "\<lambda>e. ch (snd e)" "\<lambda>e. now > deadline (snd e)" "pending (router w)" c]
    by (simp add: waiting_entries_def router_cleanup_section_def)
  then show "places (router_Cleanup now w) c = places w c"
    by (simp add: router_Cleanup_def places_def split_beta count_list_const_sends)
qed (use assms in \<open>auto simp: router_Cleanup_def router_cleanup_section_def corr_inv_def distinct_map_filter\<close>)

lemma corr_inv_Close:
  assumes "corr_inv w"
  shows "corr_inv (router_Close cause w)"
proof (rule corr_inv_moved [OF assms])
  show "places (router_Close cause w) c = places w c" for c
    by (cases "closed (router w)")
       (simp_all add: router_Close_def close_section_def places_def Let_def waiting_entries_def o_def)
qed (use assms in \<open>auto simp: router_Close_def close_section_def corr_inv_def Let_def\<close>)

lemma corr_inv_chan_send:
  assumes "corr_inv w" "can_send i w"
  shows "corr_inv (chan_send i w)"
proof (rule corr_inv_moved [OF assms(1)])
  from assms(2) have "i < length (sends w)" by (simp add: can_send_def)
  note cnt = count_list_remove_nth [OF this, symmetric]
  show "places (chan_send i w) c = places w c" for c
    by (cases "fst (sends w ! i) = c") (simp_all add: places_def chan_send_def split_beta cnt del: map_append)
qed (use assms in \<open>auto simp: chan_send_def split_beta corr_inv_def\<close>)

lemma places_chan_receive [simp]: "places (chan_receive c w) d = places w d"
  by (auto simp: chan_receive_def places_def split: list.split)

lemma corr_inv_chan_receive [simp]: "corr_inv (chan_receive c w) = corr_inv w"
  by (simp add: corr_inv_def) (simp add: chan_receive_def split: list.split)

lemma corr_inv_give_up:
  assumes "corr_inv w"
  shows "corr_inv (give_up i p e w)"
proof (cases "map_of (pending (router w)) (call_id (calls w ! i))")
  case (Some q)
  let ?w = "w\<lparr>router := (router w)\<lparr>pending := AList.delete (call_id (calls w ! i)) (pending (router w))\<rparr>,
      withdrawn := ch q # withdrawn w\<rparr>"
  have "corr_inv ?w"
  proof (rule corr_inv_moved [OF assms])
    show "places ?w c = places w c" for c
      by (simp add: places_def waiting_entries_delete [OF assms Some])
  qed (use assms in \<open>auto simp: corr_inv_def distinct_delete\<close>)
  with assms Some show ?thesis
    by (auto simp: give_up_def removePending_def)
qed (use assms in \<open>simp add: give_up_def removePending_def\<close>)

lemma corr_inv_call: "corr_inv w \<Longrightarrow> corr_inv (SendRequest_step i inp w)"
  by (simp add: SendRequest_step_def Let_def corr_inv_give_up
      split: call_pc.split call_input.split option.split list.split)

lemma corr_inv_step: "corr_step w w' \<Longrightarrow> corr_inv w \<Longrightarrow> corr_inv w'"
proof (induction rule: corr_step.induct)
  case (next_id w)
  then show ?case by (simp add: corr_inv_def places_def NextRequestID_def waiting_entries_def)
qed (simp_all add: corr_inv_RegisterPending corr_inv_CompleteRequest corr_inv_Cleanup corr_inv_Close
    corr_inv_chan_send corr_inv_begin corr_inv_call)

lemma corr_inv_reach: "corr_reach t w \<Longrightarrow> corr_inv w"
  by (induction rule: rtranclp_induct) (auto intro: corr_inv_init corr_inv_step)

section \<open>Responses reach the call with their identifier\<close>

text \<open>
  A result without an error is a response that \<^verbatim>\<open>CompleteRequest\<close> was given under the identifier
  the channel was registered with.
\<close>

definition good_result :: "corr_world \<Rightarrow> nat \<Rightarrow> ResponseResult \<Rightarrow> bool" where
  "good_result w c r \<longleftrightarrow> c < chans w \<and> (Error r = None \<longrightarrow> (reg_id w c, r) \<in> set (responses w))"

definition call_ok :: "corr_world \<Rightarrow> send_call \<Rightarrow> bool" where
  "call_ok w k \<longleftrightarrow> respCh k < chans w \<and> reg_id w (respCh k) = call_id k \<and>
     (\<forall>d. call_pc k = Returned (Inr d) \<longrightarrow> (call_id k, \<lparr>Data = d, Error = None\<rparr>) \<in> set (responses w))"

definition corr_match :: "corr_world \<Rightarrow> bool" where
  "corr_match w \<longleftrightarrow>
     (\<forall>e\<in>set (pending (router w)). ch (snd e) < chans w \<and> reg_id w (ch (snd e)) = fst e) \<and>
     (\<forall>s\<in>set (sends w). good_result w (fst s) (snd s)) \<and>
     (\<forall>c. \<forall>r\<in>set (buffer w c). good_result w c r) \<and>
     (\<forall>k\<in>set (calls w). call_ok w k)"

lemma corr_match_init: "corr_match (corr_init t)"
  by (simp add: corr_match_def corr_init_def NewRequestRouter_def)

lemma good_error_result [simp]: "good_result w c (error_result e) \<longleftrightarrow> c < chans w"
  by (simp add: good_result_def error_result_def)

lemma good_result_cong [simp]:
  "good_result (w\<lparr>router := x\<rparr>) = good_result w" "good_result (w\<lparr>sends := y\<rparr>) = good_result w"
  "good_result (w\<lparr>buffer := b\<rparr>) = good_result w" "good_result (w\<lparr>calls := z\<rparr>) = good_result w"
  "good_result (w\<lparr>taken := g\<rparr>) = good_result w" "good_result (w\<lparr>withdrawn := h\<rparr>) = good_result w"
  "call_ok (w\<lparr>router := x\<rparr>) = call_ok w" "call_ok (w\<lparr>sends := y\<rparr>) = call_ok w"
  "call_ok (w\<lparr>buffer := b\<rparr>) = call_ok w" "call_ok (w\<lparr>calls := z\<rparr>) = call_ok w"
  "call_ok (w\<lparr>taken := g\<rparr>) = call_ok w" "call_ok (w\<lparr>withdrawn := h\<rparr>) = call_ok w"
  by (auto simp: good_result_def call_ok_def fun_eq_iff)

lemma good_mono:
  assumes "chans w \<le> chans w'" "\<And>c. c < chans w \<Longrightarrow> reg_id w' c = reg_id w c"
    "set (responses w) \<subseteq> set (responses w')"
  shows "good_result w c r \<Longrightarrow> good_result w' c r" "call_ok w k \<Longrightarrow> call_ok w' k"
  using assms by (auto simp: good_result_def call_ok_def)

lemma make_chan_sel [simp]:
  "router (make_chan k xs w) = router w" "chans (make_chan k xs w) = Suc (chans w)"
  "sends (make_chan k xs w) = sends w" "calls (make_chan k xs w) = calls w"
  "buffer (make_chan k xs w) = (buffer w)(chans w := xs)"
  "reg_id (make_chan k xs w) = (reg_id w)(chans w := k)" "responses (make_chan k xs w) = responses w"
  by (simp_all add: make_chan_def)

lemma good_make_chan:
  "good_result w c r \<Longrightarrow> good_result (make_chan k xs w) c r"
  "call_ok w x \<Longrightarrow> call_ok (make_chan k xs w) x"
  by (rule good_mono; simp)+

lemma corr_match_make_chan:
  assumes "corr_match w" "\<forall>r\<in>set xs. Error r \<noteq> None"
  shows "corr_match (make_chan k xs w)"
proof -
  have "good_result (make_chan k xs w) c r" if "r \<in> set (buffer (make_chan k xs w) c)" for c r
  proof (cases "c = chans w")
    case True
    with that assms(2) show ?thesis by (auto simp: good_result_def)
  next
    case False
    with that assms(1) have "good_result w c r" by (auto simp: corr_match_def)
    then show ?thesis by (rule good_make_chan)
  qed
  with assms(1) show ?thesis
    by (auto simp: corr_match_def intro: good_make_chan)
qed

lemma corr_match_registered:
  assumes "corr_match w"
  shows "corr_match (make_chan k [] (w\<lparr>router := (router w)\<lparr>pending := pending (router w) @ [(k, \<lparr>ch = chans w, deadline = d\<rparr>)]\<rparr>\<rparr>))"
    (is "corr_match (make_chan k [] ?w)")
proof -
  have "corr_match (make_chan k [] w)" by (rule corr_match_make_chan [OF assms]) simp
  then have "\<forall>s\<in>set (sends w). good_result (make_chan k [] w) (fst s) (snd s)"
    "\<forall>c. \<forall>r\<in>set (buffer (make_chan k [] w) c). good_result (make_chan k [] w) c r"
    "\<forall>x\<in>set (calls w). call_ok (make_chan k [] w) x"
    by (simp_all add: corr_match_def)
  moreover have "good_result (make_chan k [] ?w) = good_result (make_chan k [] w)"
    "call_ok (make_chan k [] ?w) = call_ok (make_chan k [] w)"
    by (auto simp: good_result_def call_ok_def fun_eq_iff)
  ultimately show ?thesis
    using assms by (auto simp: corr_match_def)
qed

lemma corr_match_RegisterPending:
  assumes "corr_match w"
  shows "corr_match (snd (RegisterPending now k w))"
  by (rule TryRegister_cases [of now "chans w" k "router w"])
     (simp_all add: RegisterPending_def corr_match_registered [OF assms] corr_match_make_chan [OF assms]
       error_result_def)

lemma corr_match_begin:
  assumes "corr_match w"
  shows "corr_match (snd (SendRequest_begin ctxErr now k w))"
proof (cases ctxErr)
  case None
  show ?thesis
  proof (rule TryRegister_cases [of now "chans w" k "router w"])
    fix e
    assume "TryRegisterPending now (chans w) k (router w) = (Inl e, router w)"
    with assms None show ?thesis by (simp add: SendRequest_begin_def)
  next
    let ?w = "make_chan k [] (w\<lparr>router := (router w)\<lparr>pending := pending (router w) @ [(k, \<lparr>ch = chans w, deadline = now + timeout (router w)\<rparr>)]\<rparr>\<rparr>)"
    let ?c = "\<lparr>call_id = k, respCh = chans w, call_pc = Registered\<rparr>"
    assume "TryRegisterPending now (chans w) k (router w) = (Inr (chans w), (router w)\<lparr>pending := pending (router w) @ [(k, \<lparr>ch = chans w, deadline = now + timeout (router w)\<rparr>)]\<rparr>)"
    then have "snd (SendRequest_begin ctxErr now k w) = ?w\<lparr>calls := calls ?w @ [?c]\<rparr>"
      by (simp add: SendRequest_begin_def None)
    moreover have "call_ok ?w ?c" by (simp add: call_ok_def make_chan_def)
    ultimately show ?thesis
      using corr_match_registered [OF assms] by (simp add: corr_match_def ball_Un)
  qed
qed (simp add: SendRequest_begin_def assms)

lemma corr_match_CompleteRequest:
  assumes "corr_match w"
  shows "corr_match (snd (CompleteRequest k r w))"
proof (cases "map_of (pending (router w)) k")
  case (Some p)
  then have "(k, p) \<in> set (pending (router w))" by (rule map_of_SomeD)
  with assms have p: "ch p < chans w" "reg_id w (ch p) = k" by (auto simp: corr_match_def)
  let ?w = "snd (CompleteRequest k r w)"
  have w: "?w = w\<lparr>router := (router w)\<lparr>pending := AList.delete k (pending (router w))\<rparr>,
      sends := sends w @ [(ch p, r)], responses := (k, r) # responses w\<rparr>"
    using Some by (simp add: CompleteRequest_def complete_section_def)
  have "good_result w c x \<Longrightarrow> good_result ?w c x" "call_ok w y \<Longrightarrow> call_ok ?w y" for c x y
    by (rule good_mono; force simp: w)+
  moreover have "good_result ?w (ch p) r" by (simp add: good_result_def p w)
  moreover have "\<forall>e\<in>set (AList.delete k (pending (router w))). ch (snd e) < chans w \<and> reg_id w (ch (snd e)) = fst e"
    using assms by (metis corr_match_def in_set_delete)
  ultimately show ?thesis
    using assms by (auto simp: corr_match_def) (auto simp: w)
qed (use assms in \<open>simp add: CompleteRequest_def complete_section_def\<close>)

lemma corr_match_Cleanup: "corr_match w \<Longrightarrow> corr_match (router_Cleanup now w)"
  by (auto simp: corr_match_def router_Cleanup_def router_cleanup_section_def)

lemma corr_match_Close: "corr_match w \<Longrightarrow> corr_match (router_Close cause w)"
  by (auto simp: corr_match_def router_Close_def close_section_def Let_def)

lemma corr_match_chan_send:
  assumes "corr_match w" "can_send i w"
  shows "corr_match (chan_send i w)"
proof -
  have "sends w ! i \<in> set (sends w)" using assms(2) by (simp add: can_send_def)
  with assms(1) have "good_result w (fst (sends w ! i)) (snd (sends w ! i))" by (auto simp: corr_match_def)
  with assms(1) show ?thesis
    by (auto simp: corr_match_def chan_send_def split_beta dest: in_set_takeD in_set_dropD)
qed

lemma corr_match_chan_receive: "corr_match w \<Longrightarrow> corr_match (chan_receive c w)"
  by (auto simp: corr_match_def chan_receive_def split: list.split)

lemma corr_match_set_pc:
  assumes "corr_match w" "i < length (calls w)"
    and "\<And>d. pc = Returned (Inr d) \<Longrightarrow> (call_id (calls w ! i), \<lparr>Data = d, Error = None\<rparr>) \<in> set (responses w)"
  shows "corr_match (set_pc i pc w)"
proof -
  have "call_ok w (calls w ! i)" using assms(1,2) by (simp add: corr_match_def)
  then have "call_ok w ((calls w ! i)\<lparr>call_pc := pc\<rparr>)" using assms(3) by (auto simp: call_ok_def)
  with assms(1) show ?thesis
    using set_update_subset_insert [of "calls w" i "(calls w ! i)\<lparr>call_pc := pc\<rparr>"]
    by (auto simp: corr_match_def set_pc_def)
qed

lemma corr_match_give_up:
  assumes "corr_match w" "i < length (calls w)"
  shows "corr_match (give_up i p e w)"
proof -
  have "corr_match (w\<lparr>router := snd (removePending (call_id (calls w ! i)) p (router w)), withdrawn := x\<rparr>)" for x
    using assms(1) by (force simp: corr_match_def removePending_def split: option.split dest: in_set_delete)
  then have "corr_match (set_pc i (Returned (Inl e))
      (w\<lparr>router := snd (removePending (call_id (calls w ! i)) p (router w)), withdrawn := x\<rparr>))" for x
    by (rule corr_match_set_pc) (use assms(2) in auto)
  then show ?thesis by (simp add: give_up_def split_beta)
qed

lemma corr_match_receive_call:
  assumes "corr_match w" "i < length (calls w)" "buffer w (respCh (calls w ! i)) = r # rs"
  shows "corr_match (set_pc i (Returned (case Error r of Some e \<Rightarrow> Inl e | None \<Rightarrow> Inr (Data r)))
           (chan_receive (respCh (calls w ! i)) w))"
proof (rule corr_match_set_pc)
  show "corr_match (chan_receive (respCh (calls w ! i)) w)"
    using assms(1) by (rule corr_match_chan_receive)
  show "i < length (calls (chan_receive (respCh (calls w ! i)) w))"
    using assms(2,3) by (simp add: chan_receive_def)
next
  fix d
  assume "Returned (case Error r of Some e \<Rightarrow> Inl e | None \<Rightarrow> Inr (Data r)) = Returned (Inr d)"
  then have r: "r = \<lparr>Data = d, Error = None\<rparr>" by (cases r) (simp split: option.splits)
  have "good_result w (respCh (calls w ! i)) r" "call_ok w (calls w ! i)"
    using assms by (simp_all add: corr_match_def)
  then show "(call_id (calls (chan_receive (respCh (calls w ! i)) w) ! i), \<lparr>Data = d, Error = None\<rparr>)
      \<in> set (responses (chan_receive (respCh (calls w ! i)) w))"
    by (simp add: good_result_def call_ok_def r chan_receive_def split: list.split)
qed

lemma corr_match_call:
  assumes "corr_match w" "i < length (calls w)"
  shows "corr_match (SendRequest_step i inp w)"
proof -
  have "corr_match (set_pc i (Sending p) w)" "corr_match (set_pc i (Awaiting p) w)" for p
    using assms by (auto intro: corr_match_set_pc)
  with assms corr_match_receive_call [OF assms] show ?thesis
    by (simp add: SendRequest_step_def Let_def corr_match_give_up
        split: call_pc.split call_input.split option.split list.split)
qed

lemma corr_match_step: "corr_step w w' \<Longrightarrow> corr_match w \<Longrightarrow> corr_match w'"
proof (induction rule: corr_step.induct)
  case (next_id w)
  then show ?case by (simp add: corr_match_def NextRequestID_def)
qed (simp_all add: corr_match_RegisterPending corr_match_CompleteRequest corr_match_Cleanup
    corr_match_Close corr_match_chan_send corr_match_chan_receive corr_match_begin corr_match_call)

lemma corr_match_reach: "corr_reach t w \<Longrightarrow> corr_match w"
  by (induction rule: rtranclp_induct) (auto intro: corr_match_init corr_match_step)

section \<open>Who withdraws an entry\<close>

text \<open>A withdrawn entry was registered under the identifier of a call of \<^verbatim>\<open>SendRequest\<close> that has returned an error.\<close>

definition failed :: "send_call \<Rightarrow> bool" where
  "failed k \<longleftrightarrow> (\<exists>e. call_pc k = Returned (Inl e))"

definition withdrawn_ok :: "corr_world \<Rightarrow> bool" where
  "withdrawn_ok w \<longleftrightarrow> (\<forall>c\<in>set (withdrawn w). c < chans w \<and> (\<exists>k\<in>set (calls w). call_id k = reg_id w c \<and> failed k))"

lemma withdrawn_frame:
  assumes "withdrawn_ok w" "withdrawn w' = withdrawn w" "chans w \<le> chans w'" "\<And>c. c < chans w \<Longrightarrow> reg_id w' c = reg_id w c"
    "\<And>k. k \<in> set (calls w) \<Longrightarrow> failed k \<Longrightarrow> k \<in> set (calls w')"
  shows "withdrawn_ok w'"
  using assms unfolding withdrawn_ok_def by (metis order_less_le_trans)

lemma failed_kept: "k \<in> set ks \<Longrightarrow> failed k \<Longrightarrow> \<not> failed (ks ! i) \<Longrightarrow> k \<in> set (ks[i := x])"
  by (metis in_set_conv_nth length_list_update nth_list_update_neq)

lemma withdrawn_set_pc:
  assumes "withdrawn_ok w" "\<not> failed (calls w ! i)"
  shows "withdrawn_ok (set_pc i pc w)"
  by (rule withdrawn_frame [OF assms(1)]) (auto simp: set_pc_def failed_kept [OF _ _ assms(2)])

lemma withdrawn_give_up:
  assumes w: "withdrawn_ok w" and i: "i < length (calls w)" "\<not> failed (calls w ! i)" and m: "corr_match w"
  shows "withdrawn_ok (give_up i p e w)"
proof -
  let ?id = "call_id (calls w ! i)"
  let ?w = "w\<lparr>router := snd (removePending ?id p (router w))\<rparr>"
  have base: "withdrawn_ok (set_pc i (Returned (Inl e)) ?w)"
    by (rule withdrawn_set_pc) (use w i in \<open>simp_all add: withdrawn_ok_def\<close>)
  show ?thesis
  proof (cases "fst (removePending ?id p (router w))")
    case False
    then show ?thesis using base by (simp add: give_up_def split_beta)
  next
    case True
    then obtain q where q: "map_of (pending (router w)) ?id = Some q" "ch (the p) = ch q"
      by (auto simp: removePending_def split: option.splits if_splits)
    have c: "ch q < chans w" "reg_id w (ch q) = ?id" using m map_of_SomeD [OF q(1)] by (auto simp: corr_match_def)
    let ?k = "(calls w ! i)\<lparr>call_pc := Returned (Inl e)\<rparr>"
    have "?k \<in> set ((calls w)[i := ?k])" using i(1) by (rule set_update_memI)
    then have "\<exists>k\<in>set ((calls w)[i := ?k]). call_id k = reg_id w (ch q) \<and> failed k" using c by (intro bexI [of _ ?k]) (simp_all add: failed_def)
    then show ?thesis using base True q c by (simp add: give_up_def split_beta withdrawn_ok_def set_pc_def)
  qed
qed

lemma withdrawn_call:
  assumes "withdrawn_ok w" "i < length (calls w)" "corr_match w"
  shows "withdrawn_ok (SendRequest_step i inp w)"
proof (cases "\<exists>r. call_pc (calls w ! i) = Returned r")
  case True
  then show ?thesis using assms(1) by (auto simp: SendRequest_step_def Let_def)
next
  case False
  then have n: "\<not> failed (calls w ! i)" by (auto simp: failed_def)
  have r: "withdrawn_ok (chan_receive c w)" for c by (rule withdrawn_frame [OF assms(1)]) (auto simp: chan_receive_def split: list.split)
  have calls: "calls (chan_receive c w) = calls w" for c by (simp add: chan_receive_def split: list.split)
  have "withdrawn_ok (set_pc i pc (chan_receive c w))" for c pc by (rule withdrawn_set_pc [OF r]) (simp add: calls n)
  then show ?thesis
    using assms(1) withdrawn_set_pc [OF assms(1) n] withdrawn_give_up [OF assms(1,2) n assms(3)] n
    by (simp add: SendRequest_step_def Let_def calls split: call_pc.split call_input.split option.split list.split)
qed

lemma withdrawn_step: "corr_step w w' \<Longrightarrow> corr_match w \<Longrightarrow> withdrawn_ok w \<Longrightarrow> withdrawn_ok w'"
proof (induction rule: corr_step.induct)
  case (register w now k)
  then show ?case by (intro withdrawn_frame [OF register.prems(2)]) (auto simp: RegisterPending_def make_chan_def split: prod.splits sum.splits)
next
  case (begin_call w ctxErr now k)
  then show ?case by (intro withdrawn_frame [OF begin_call.prems(2)]) (auto simp: SendRequest_begin_def make_chan_def split: prod.splits sum.splits option.splits)
next
  case (complete w k r)
  then show ?case by (intro withdrawn_frame [OF complete.prems(2)]) (auto simp: CompleteRequest_def split: prod.splits option.splits)
next
  case (received w c)
  then show ?case by (intro withdrawn_frame [OF received.prems(2)]) (auto simp: chan_receive_def split: list.split)
next
  case (sent i w)
  then show ?case by (intro withdrawn_frame [OF sent.prems(2)]) (auto simp: chan_send_def split: prod.split)
next
  case (call i w inp)
  then show ?case by (intro withdrawn_call)
qed (auto simp: withdrawn_ok_def router_Cleanup_def router_Close_def split: prod.splits)

lemma withdrawn_reach: "corr_reach t w \<Longrightarrow> withdrawn_ok w"
proof (induction rule: rtranclp_induct)
  case base
  show ?case by (simp add: withdrawn_ok_def corr_init_def)
next
  case (step w w')
  then show ?case using withdrawn_step corr_match_reach by blast
qed

section \<open>Properties\<close>

lemma sends_can_proceed:
  assumes "corr_inv w" "i < length (sends w)"
  shows "can_send i w"
proof -
  let ?c = "fst (sends w ! i)"
  have "?c \<in> set (map fst (sends w))" using assms(2) by auto
  then have "count_list (map fst (sends w)) ?c \<noteq> 0" by (simp add: count_list_0_iff)
  moreover have "places w ?c \<le> 1" using assms(1) by (simp add: corr_inv_def)
  ultimately have "length (buffer w ?c) = 0" unfolding places_def by linarith
  with assms(2) show ?thesis by (simp add: can_send_def)
qed

text \<open>
  Property C19. In every execution each channel handed to a caller has exactly one of: an entry
  of the pending table, a result on its way, a result in its buffer, a result that was taken, or
  a withdrawn entry; and no goroutine that delivers a result ever blocks. An entry is withdrawn only by a call of
  \<^verbatim>\<open>SendRequest\<close> under the same identifier that has returned an error. Hence, once the router is closed and the deliveries
  are made, each channel has its one result or such a call withdrew its entry; and if no identifier was registered twice
  that call is the one that waited on the channel, so that nobody waits any more. With an identifier that is used again the
  call may be another one, and the channel is then never answered.
\<close>

theorem request_answered_once:
  assumes "corr_reach t w"
  shows "(\<forall>c < chans w. waiting_entries (router w) c + count_list (map fst (sends w)) c
            + length (buffer w c) + length (taken w c) + count_list (withdrawn w) c = 1) \<and>
         (\<forall>i < length (sends w). can_send i w) \<and>
         (\<forall>c\<in>set (withdrawn w). \<exists>k\<in>set (calls w). call_id k = reg_id w c \<and> (\<exists>e. call_pc k = Returned (Inl e))) \<and>
         (closed (router w) \<and> sends w = [] \<longrightarrow>
            (\<forall>c < chans w. length (buffer w c) + length (taken w c) + count_list (withdrawn w) c = 1)) \<and>
         (closed (router w) \<and> sends w = [] \<and> inj_on (reg_id w) {..<chans w} \<longrightarrow>
            (\<forall>c < chans w. length (buffer w c) + length (taken w c) = 1 \<or>
               (\<exists>k\<in>set (calls w). respCh k = c \<and> (\<exists>e. call_pc k = Returned (Inl e)))))"
proof -
  have inv: "corr_inv w" using assms by (rule corr_inv_reach)
  then have one: "waiting_entries (router w) c + count_list (map fst (sends w)) c
      + length (buffer w c) + length (taken w c) + count_list (withdrawn w) c = 1" if "c < chans w" for c
    using that by (simp add: corr_inv_def places_def)
  then have end_: "length (buffer w c) + length (taken w c) + count_list (withdrawn w) c = 1"
    if "c < chans w" "closed (router w)" "sends w = []" for c
    using that inv by (simp add: corr_inv_def waiting_entries_def)
  have who: "\<exists>k\<in>set (calls w). call_id k = reg_id w c \<and> failed k" if "c \<in> set (withdrawn w)" for c
    using withdrawn_reach [OF assms] that by (simp add: withdrawn_ok_def)
  have own: "\<exists>k\<in>set (calls w). respCh k = c \<and> failed k" if c: "c < chans w" "c \<in> set (withdrawn w)" "inj_on (reg_id w) {..<chans w}" for c
  proof -
    obtain k where k: "k \<in> set (calls w)" "call_id k = reg_id w c" "failed k" using who [OF c(2)] by blast
    then have "respCh k < chans w" "reg_id w (respCh k) = reg_id w c" using corr_match_reach [OF assms] by (auto simp: corr_match_def call_ok_def)
    then have "respCh k = c" using inj_onD [OF c(3)] c(1) by simp
    with k show ?thesis by blast
  qed
  have "length (buffer w c) + length (taken w c) = 1 \<or> (\<exists>k\<in>set (calls w). respCh k = c \<and> failed k)"
    if "c < chans w" "closed (router w)" "sends w = []" "inj_on (reg_id w) {..<chans w}" for c
  proof (cases "c \<in> set (withdrawn w)")
    case False
    then have "count_list (withdrawn w) c = 0" by (simp add: count_list_0_iff)
    then show ?thesis using end_ [OF that(1-3)] by simp
  qed (use own that in blast)
  with one end_ who sends_can_proceed [OF inv] show ?thesis unfolding failed_def by blast
qed

text \<open>
  A call of \<^verbatim>\<open>SendRequest\<close> that returns data returns the data of a response that
  was given to \<^verbatim>\<open>CompleteRequest\<close> without an error and under the identifier of the call.
\<close>

theorem response_belongs_to_request:
  assumes "corr_reach t w" "k \<in> set (calls w)" "call_pc k = Returned (Inr d)"
  shows "(call_id k, \<lparr>Data = d, Error = None\<rparr>) \<in> set (responses w)"
  using corr_match_reach [OF assms(1)] assms(2,3) by (simp add: corr_match_def call_ok_def)

section \<open>Concrete executions\<close>

lemmas corr_eval = corr_init_def NewRequestRouter_def RegisterPending_def TryRegisterPending_def
  make_chan_def CompleteRequest_def complete_section_def router_Close_def close_section_def
  SendRequest_begin_def SendRequest_step_def set_pc_def give_up_def removePending_def
  chan_send_def chan_receive_def can_send_def error_result_def waiting_entries_def Let_def

lemma corr_reach_step: "corr_reach t w \<Longrightarrow> corr_step w w' \<Longrightarrow> corr_reach t w'"
  by (rule rtranclp.rtrancl_into_rtrancl)

text \<open>A caller registers, the router is closed, the error is delivered.\<close>

definition closed_run :: corr_world where
  "closed_run = chan_send 0 (router_Close None (snd (RegisterPending 0 7 (corr_init 5))))"

lemma closed_run_reach: "corr_reach 5 closed_run"
  unfolding closed_run_def
  by (rule corr_reach_step [OF corr_reach_step [OF corr_reach_step [OF rtranclp.rtrancl_refl register] close] sent])
     (simp add: corr_eval)

theorem request_answered_once_witness:
  "closed (router closed_run) \<and> sends closed_run = [] \<and> chans closed_run = 1 \<and>
   length (buffer closed_run 0) + length (taken closed_run 0) + count_list (withdrawn closed_run) 0 = 1"
proof -
  have st: "closed (router closed_run)" "sends closed_run = []" "chans closed_run = 1"
    by (simp_all add: closed_run_def corr_eval)
  with request_answered_once [OF closed_run_reach] show ?thesis by simp
qed

text \<open>A call of \<^verbatim>\<open>SendRequest\<close> that gets its response.\<close>

definition answered_run :: corr_world where
  "answered_run =
     SendRequest_step 0 No_input (chan_send 0 (snd (CompleteRequest 7 \<lparr>Data = [42], Error = None\<rparr>
       (SendRequest_step 0 (Send_outcome (Some None)) (SendRequest_step 0 No_input
         (snd (SendRequest_begin None 0 7 (corr_init 5))))))))"

lemma answered_run_reach: "corr_reach 5 answered_run"
proof -
  let ?a = "snd (SendRequest_begin None 0 7 (corr_init 5))"
  let ?b = "SendRequest_step 0 No_input ?a"
  let ?c = "SendRequest_step 0 (Send_outcome (Some None)) ?b"
  let ?d = "snd (CompleteRequest 7 \<lparr>Data = [42], Error = None\<rparr> ?c)"
  have "corr_reach 5 ?a" by (rule corr_reach_step [OF rtranclp.rtrancl_refl begin_call])
  then have "corr_reach 5 ?b" by (rule corr_reach_step [OF _ call]) (simp add: corr_eval)
  then have "corr_reach 5 ?c" by (rule corr_reach_step [OF _ call]) (simp add: corr_eval)
  then have "corr_reach 5 ?d" by (rule corr_reach_step [OF _ complete])
  then have "corr_reach 5 (chan_send 0 ?d)" by (rule corr_reach_step [OF _ sent]) (simp add: corr_eval)
  then show ?thesis unfolding answered_run_def by (rule corr_reach_step [OF _ call]) (simp add: corr_eval)
qed

theorem response_belongs_to_request_witness:
  "(7, \<lparr>Data = [42], Error = None\<rparr>) \<in> set (responses answered_run)"
proof -
  let ?k = "\<lparr>call_id = 7, respCh = 0, call_pc = Returned (Inr [42])\<rparr>"
  have "calls answered_run = [?k]" by (simp add: answered_run_def corr_eval)
  with response_belongs_to_request [OF answered_run_reach, of ?k "[42]"] show ?thesis by simp
qed

text \<open>
  \<^verbatim>\<open>SendRequest\<close> reads its entry back under a second lock. If in between its request is completed
  and somebody else registers the same identifier, it reads the entry of the other caller, and
  a failing send withdraws that entry: the other caller is never answered, not even by \<^verbatim>\<open>Close\<close>.
\<close>

definition stolen_run :: corr_world where
  "stolen_run =
     router_Close None (SendRequest_step 0 (Send_outcome (Some (Some (CallerError ''refused''))))
       (SendRequest_step 0 No_input (snd (RegisterPending 1 7 (chan_send 0
         (snd (CompleteRequest 7 \<lparr>Data = [], Error = None\<rparr> (snd (SendRequest_begin None 0 7 (corr_init 5))))))))))"

lemma stolen_run_reach: "corr_reach 5 stolen_run"
proof -
  let ?a = "snd (SendRequest_begin None 0 7 (corr_init 5))"
  let ?b = "snd (CompleteRequest 7 \<lparr>Data = [], Error = None\<rparr> ?a)"
  let ?c = "snd (RegisterPending 1 7 (chan_send 0 ?b))"
  let ?d = "SendRequest_step 0 No_input ?c"
  let ?e = "SendRequest_step 0 (Send_outcome (Some (Some (CallerError ''refused'')))) ?d"
  have "corr_reach 5 ?a" by (rule corr_reach_step [OF rtranclp.rtrancl_refl begin_call])
  then have "corr_reach 5 ?b" by (rule corr_reach_step [OF _ complete])
  then have "corr_reach 5 (chan_send 0 ?b)" by (rule corr_reach_step [OF _ sent]) (simp add: corr_eval)
  then have "corr_reach 5 ?c" by (rule corr_reach_step [OF _ register])
  then have "corr_reach 5 ?d" by (rule corr_reach_step [OF _ call]) (simp add: corr_eval)
  then have "corr_reach 5 ?e" by (rule corr_reach_step [OF _ call]) (simp add: corr_eval)
  then show ?thesis unfolding stolen_run_def by (rule corr_reach_step [OF _ close])
qed

theorem foreign_entry_withdrawn:
  "\<exists>w c. corr_reach 5 w \<and> closed (router w) \<and> sends w = [] \<and> c < chans w \<and>
     (\<forall>k\<in>set (calls w). respCh k \<noteq> c) \<and> buffer w c = [] \<and> taken w c = []"
proof (intro exI conjI)
  show "corr_reach 5 stolen_run" by (rule stolen_run_reach)
  show "closed (router stolen_run)" "sends stolen_run = []" "1 < chans stolen_run"
    "\<forall>k\<in>set (calls stolen_run). respCh k \<noteq> 1" "buffer stolen_run 1 = []" "taken stolen_run 1 = []"
    by (simp_all add: stolen_run_def corr_eval)
qed

end
