(* ===== verification/Instance_Pool.thy ===== *)
theory Instance_Pool
  imports Prelude "HOL-Library.Multiset"
begin

text \<open>
  \<^verbatim>\<open>zInstance/pool.go\<close>: a pool of on-demand instances (rooms, dungeons, layers) with capacity
  reservations and idle reaping. Every section that runs under the pool's mutex is one function on
  the record \<open>Pool\<close>; user callbacks (\<^verbatim>\<open>build\<close>, \<^verbatim>\<open>Occupancy\<close>, \<^verbatim>\<open>onEvict\<close>, \<^verbatim>\<open>Close\<close>) run between
  sections, so an execution is an arbitrary interleaving of sections.

  Entries are objects that the two indexes share: \<open>objs\<close> maps an address to the entry, and the
  indexes hold addresses. The address of a new entry is its generation number, which is never used
  twice. The counters of the pool are 64-bit in the code; they count creations and changes of one
  process and are natural numbers here. Where the code ranges over a map, the order is the argument
  \<open>es\<close>, an enumeration of the addresses in that map.
\<close>

section \<open>Data\<close>

datatype pool_error =
    ErrInvalidCapacity
  | ErrNilInstanceBuilder
  | ErrInstanceBuildPanic
  | ErrInstanceCreating nat
  | ErrInstanceNotFound nat
  | ErrInstanceReserved nat int
  | BuildError string

datatype entryState = entryCreating | entryActive | entryDestroying

datatype LifecycleState = LifecycleCreating | LifecycleActive | LifecycleDestroying

fun publicLifecycleState :: "entryState \<Rightarrow> LifecycleState" where
  "publicLifecycleState entryCreating = LifecycleCreating"
| "publicLifecycleState entryActive = LifecycleActive"
| "publicLifecycleState entryDestroying = LifecycleDestroying"

record ('k, 't) pool_entry =
  e_id :: nat
  generation :: nat
  revision :: nat
  e_key :: 'k
  inst :: "'t option"
  e_state :: entryState
  ready :: bool
  pinned :: bool
  reserved :: int
  emptySince :: time

record 'k EntrySnapshot =
  snap_ID :: nat
  snap_Generation :: nat
  snap_Revision :: nat
  snap_Key :: 'k
  snap_State :: LifecycleState
  snap_Reserved :: int
  snap_Pinned :: bool

record 't instanceSnapshot =
  s_id :: nat
  s_generation :: nat
  s_revision :: nat
  s_inst :: "'t option"
  s_reserved :: int

record 't occupancySnapshot = "'t instanceSnapshot" +
  occupancy :: int

record ('k, 't) Pool =
  nextID :: nat
  nextGeneration :: nat
  nextKeyVersion :: nat
  byID :: "(nat \<times> nat) list"
  byKey :: "'k \<rightharpoonup> (nat \<times> nat) list"
  keyVersion :: "'k \<rightharpoonup> nat"
  hasOnEvict :: bool
  objs :: "nat \<Rightarrow> ('k, 't) pool_entry"

definition NewPoolWithBase :: "bool \<Rightarrow> nat \<Rightarrow> (nat \<Rightarrow> ('k, 't) pool_entry) \<Rightarrow> ('k, 't) Pool" where
  "NewPoolWithBase onEvict idBase mem =
     \<lparr>nextID = idBase, nextGeneration = 0, nextKeyVersion = 0, byID = [], byKey = Map.empty,
      keyVersion = Map.empty, hasOnEvict = onEvict, objs = mem\<rparr>"

definition NewPool :: "bool \<Rightarrow> (nat \<Rightarrow> ('k, 't) pool_entry) \<Rightarrow> ('k, 't) Pool" where
  "NewPool onEvict mem = NewPoolWithBase onEvict 0 mem"

section \<open>The indexes\<close>

text \<open>Reading a missing key of a map of maps gives the nil map, which is empty.\<close>

definition key_group :: "('k, 't) Pool \<Rightarrow> 'k \<Rightarrow> (nat \<times> nat) list" where
  "key_group p key = (case byKey p key of None \<Rightarrow> [] | Some g \<Rightarrow> g)"

definition version_of :: "('k, 't) Pool \<Rightarrow> 'k \<Rightarrow> nat" where
  "version_of p key = (case keyVersion p key of None \<Rightarrow> 0 | Some v \<Rightarrow> v)"

definition bumpKeyVersionLocked :: "'k \<Rightarrow> ('k, 't) Pool \<Rightarrow> ('k, 't) Pool" where
  "bumpKeyVersionLocked key p =
     (let p = p\<lparr>nextKeyVersion := Suc (nextKeyVersion p)\<rparr>
      in if length (key_group p key) = 0 then p\<lparr>keyVersion := (keyVersion p)(key := None)\<rparr>
         else p\<lparr>keyVersion := (keyVersion p)(key \<mapsto> nextKeyVersion p)\<rparr>)"

definition set_obj :: "nat \<Rightarrow> ('k, 't) pool_entry \<Rightarrow> ('k, 't) Pool \<Rightarrow> ('k, 't) Pool" where
  "set_obj a e p = p\<lparr>objs := (objs p)(a := e)\<rparr>"

definition newEntryLocked :: "'k \<Rightarrow> bool \<Rightarrow> int \<Rightarrow> ('k, 't) Pool \<Rightarrow> nat \<times> ('k, 't) Pool" where
  "newEntryLocked key pin res p =
     (let p = p\<lparr>nextID := Suc (nextID p), nextGeneration := Suc (nextGeneration p)\<rparr>;
          a = nextGeneration p;
          e = \<lparr>e_id = nextID p, generation = nextGeneration p, revision = 0, e_key = key, inst = None,
               e_state = entryCreating, ready = False, pinned = pin, reserved = res, emptySince = 0\<rparr>;
          p = set_obj a e p;
          p = p\<lparr>byID := AList.update (e_id e) a (byID p)\<rparr>;
          p = p\<lparr>byKey := (byKey p)(key \<mapsto> AList.update (e_id e) a (key_group p key))\<rparr>
      in (a, bumpKeyVersionLocked key p))"

definition removeLocked :: "nat \<Rightarrow> ('k, 't) Pool \<Rightarrow> ('k, 't) Pool" where
  "removeLocked a p =
     (let e = objs p a;
          p = p\<lparr>byID := AList.delete (e_id e) (byID p)\<rparr>
      in case byKey p (e_key e) of
           None \<Rightarrow> p
         | Some g \<Rightarrow>
             (let g = AList.delete (e_id e) g
              in if length g = 0 then p\<lparr>byKey := (byKey p)(e_key e := None)\<rparr>
                 else p\<lparr>byKey := (byKey p)(e_key e \<mapsto> g)\<rparr>))"

section \<open>Creation\<close>

datatype 't build_outcome = Built 't | BuildFailed string | BuildPanicked

definition invokeBuild :: "'t build_outcome \<Rightarrow> pool_error + 't" where
  "invokeBuild r =
     (case r of Built i \<Rightarrow> Inr i | BuildFailed s \<Rightarrow> Inl (BuildError s) | BuildPanicked \<Rightarrow> Inl ErrInstanceBuildPanic)"

text \<open>\<open>None\<close> is the panic of \<^verbatim>\<open>finishCreation\<close>.\<close>

definition finishCreation :: "nat \<Rightarrow> 't \<Rightarrow> ('k, 't) Pool \<Rightarrow> ('k, 't) Pool option" where
  "finishCreation a i p =
     (let e = objs p a in
      if map_of (byID p) (e_id e) \<noteq> Some a \<or> e_state e \<noteq> entryCreating then None
      else Some (bumpKeyVersionLocked (e_key e)
             (set_obj a (e\<lparr>inst := Some i, e_state := entryActive, revision := Suc (revision e), ready := True\<rparr>) p)))"

definition failCreation :: "nat \<Rightarrow> ('k, 't) Pool \<Rightarrow> ('k, 't) Pool" where
  "failCreation a p =
     (let e = objs p a in
      if map_of (byID p) (e_id e) = Some a \<and> e_state e = entryCreating
      then bumpKeyVersionLocked (e_key e)
             (removeLocked a (set_obj a (e\<lparr>e_state := entryDestroying, ready := True\<rparr>) p))
      else p)"

section \<open>Reservations and destruction\<close>

text \<open>The common effect of taking a slot: \<^verbatim>\<open>reserved++\<close>, \<^verbatim>\<open>emptySince\<close> cleared, \<^verbatim>\<open>revision++\<close>.\<close>

definition take_slot :: "nat \<Rightarrow> ('k, 't) Pool \<Rightarrow> ('k, 't) Pool" where
  "take_slot a p =
     (let e = objs p a
      in set_obj a (e\<lparr>reserved := reserved e + 1, emptySince := 0, revision := Suc (revision e)\<rparr>) p)"

definition ReserveChecked :: "nat \<Rightarrow> ('k, 't) Pool \<Rightarrow> pool_error option \<times> ('k, 't) Pool" where
  "ReserveChecked i p =
     (case map_of (byID p) i of
        None \<Rightarrow> (Some (ErrInstanceNotFound i), p)
      | Some a \<Rightarrow>
          (let e = objs p a in
           if e_state e = entryDestroying then (Some (ErrInstanceNotFound i), p)
           else if e_state e = entryCreating then (Some (ErrInstanceCreating i), p)
           else (None, bumpKeyVersionLocked (e_key e) (take_slot a p))))"

definition pool_Release :: "nat \<Rightarrow> ('k, 't) Pool \<Rightarrow> ('k, 't) Pool" where
  "pool_Release i p =
     (case map_of (byID p) i of
        None \<Rightarrow> p
      | Some a \<Rightarrow>
          (let e = objs p a in
           if e_state e = entryActive \<and> reserved e > 0
           then bumpKeyVersionLocked (e_key e)
                  (set_obj a (e\<lparr>reserved := reserved e - 1, revision := Suc (revision e)\<rparr>) p)
           else p))"

text \<open>Marking and removing an entry; the caller evicts it after the section.\<close>

definition retire :: "nat \<Rightarrow> ('k, 't) Pool \<Rightarrow> ('k, 't) Pool" where
  "retire a p =
     (let e = objs p a
      in bumpKeyVersionLocked (e_key e) (removeLocked a (set_obj a (e\<lparr>e_state := entryDestroying\<rparr>) p)))"

text \<open>The locked part of \<^verbatim>\<open>DestroyChecked\<close>, with the entry to evict.\<close>

definition DestroyChecked :: "nat \<Rightarrow> ('k, 't) Pool \<Rightarrow> (pool_error option \<times> nat option) \<times> ('k, 't) Pool" where
  "DestroyChecked i p =
     (case map_of (byID p) i of
        None \<Rightarrow> ((None, None), p)
      | Some a \<Rightarrow>
          (let e = objs p a in
           if e_state e = entryCreating then ((Some (ErrInstanceCreating i), None), p)
           else if reserved e > 0 then ((Some (ErrInstanceReserved i (reserved e)), None), p)
           else ((None, Some a), retire a p)))"

datatype pool_event = OnEvict nat nat | InstanceClose nat

definition evict :: "nat \<Rightarrow> ('k, 't) Pool \<Rightarrow> pool_event list" where
  "evict a p = (if hasOnEvict p then [OnEvict (e_id (objs p a)) a] else []) @ [InstanceClose a]"

section \<open>Snapshots and selection\<close>

definition snapshot_entry :: "('k, 't) pool_entry \<Rightarrow> 't instanceSnapshot" where
  "snapshot_entry e = \<lparr>s_id = e_id e, s_generation = generation e, s_revision = revision e, s_inst = inst e, s_reserved = reserved e\<rparr>"

definition snapshotGroup ::
    "nat list \<Rightarrow> 'k \<Rightarrow> ('k, 't) Pool \<Rightarrow> 't instanceSnapshot list \<times> nat option \<times> nat" where
  "snapshotGroup es key p =
     (map (\<lambda>a. snapshot_entry (objs p a)) (filter (\<lambda>a. e_state (objs p a) = entryActive) es),
      find (\<lambda>a. e_state (objs p a) = entryCreating) es,
      version_of p key)"

definition snapshotReapCandidates :: "nat list \<Rightarrow> ('k, 't) Pool \<Rightarrow> 't instanceSnapshot list" where
  "snapshotReapCandidates es p =
     map (\<lambda>a. snapshot_entry (objs p a))
       (filter (\<lambda>a. \<not> (e_state (objs p a) \<noteq> entryActive \<or> pinned (objs p a))) es)"

definition measureOccupancy :: "('t \<Rightarrow> int) \<Rightarrow> 't instanceSnapshot list \<Rightarrow> 't occupancySnapshot list" where
  "measureOccupancy occ snaps =
     map (\<lambda>s. instanceSnapshot.extend s \<lparr>occupancy = (case s_inst s of None \<Rightarrow> 0 | Some i \<Rightarrow> occ i)\<rparr>) snaps"

definition MaxInt :: int where "MaxInt = 2 ^ 63 - 1"

fun best_loop :: "int \<Rightarrow> 't occupancySnapshot option \<Rightarrow> int \<Rightarrow> 't occupancySnapshot list \<Rightarrow> 't occupancySnapshot option" where
  "best_loop softCap best bestEffective [] = best"
| "best_loop softCap best bestEffective (s # ss) =
     (let effective = occupancy s + s_reserved s in
      if effective < softCap \<and> effective < bestEffective then best_loop softCap (Some s) effective ss
      else best_loop softCap best bestEffective ss)"

definition selectCandidate ::
    "'t occupancySnapshot list \<Rightarrow> nat \<Rightarrow> int \<Rightarrow> int \<Rightarrow> 't occupancySnapshot option \<times> int" where
  "selectCandidate snaps affinityID softCap hardCap =
     (case (if affinityID \<noteq> 0
            then find (\<lambda>s. s_id s = affinityID \<and> occupancy s + s_reserved s < hardCap) snaps
            else None) of
        Some s \<Rightarrow> (Some s, hardCap)
      | None \<Rightarrow> (best_loop softCap None MaxInt snaps, softCap))"

section \<open>AcquireChecked\<close>

text \<open>
  One pass of the loop has two locked sections: the snapshot, and, depending on whether a candidate
  was found, the claim or the start of a creation. Between them other goroutines run.
\<close>

definition acquire_claim ::
    "'k \<Rightarrow> 't occupancySnapshot \<Rightarrow> int \<Rightarrow> ('k, 't) Pool \<Rightarrow> nat option \<times> ('k, 't) Pool" where
  "acquire_claim key candidate limit p =
     (case map_of (byID p) (s_id candidate) of
        None \<Rightarrow> (None, p)
      | Some a \<Rightarrow>
          (let current = objs p a in
           if e_state current = entryActive \<and> generation current = s_generation candidate \<and>
              revision current = s_revision candidate \<and> occupancy candidate + reserved current < limit
           then (Some a, bumpKeyVersionLocked key (take_slot a p))
           else (None, p)))"

datatype acquire_outcome =
    Refused pool_error      \<comment> \<open>invalid arguments\<close>
  | Retry                   \<comment> \<open>\<^verbatim>\<open>continue\<close>\<close>
  | AwaitCreation nat       \<comment> \<open>\<^verbatim>\<open><-creating\<close>, then \<^verbatim>\<open>continue\<close>\<close>
  | Admitted nat            \<comment> \<open>a slot of the entry at this address\<close>
  | BuildNew nat            \<comment> \<open>a placeholder, its instance is built next\<close>

definition acquire_create :: "'k \<Rightarrow> nat option \<Rightarrow> nat \<Rightarrow> ('k, 't) Pool \<Rightarrow> acquire_outcome \<times> ('k, 't) Pool" where
  "acquire_create key creating version p =
     (if version_of p key \<noteq> version then (Retry, p)
      else case creating of
             Some a \<Rightarrow> (AwaitCreation a, p)
           | None \<Rightarrow> (case newEntryLocked key False 1 p of (a, p) \<Rightarrow> (BuildNew a, p)))"

record 'k acquire_args =
  a_key :: 'k
  affinityID :: nat
  softCap :: int
  hardCap :: int
  hasBuild :: bool

definition check_args :: "'k acquire_args \<Rightarrow> pool_error option" where
  "check_args c =
     (if softCap c \<le> 0 \<or> hardCap c \<le> 0 \<or> softCap c > hardCap c then Some ErrInvalidCapacity
      else if \<not> hasBuild c then Some ErrNilInstanceBuilder else None)"

text \<open>
  The pass: the snapshot is taken in \<open>p0\<close> (its group enumerated as \<open>es\<close>), the occupancies are
  measured outside the lock, and the second section runs in \<open>p\<close>.
\<close>

definition acquire_pass ::
    "'k acquire_args \<Rightarrow> ('t \<Rightarrow> int) \<Rightarrow> nat list \<Rightarrow> ('k, 't) Pool \<Rightarrow> ('k, 't) Pool \<Rightarrow> acquire_outcome \<times> ('k, 't) Pool" where
  "acquire_pass c occ es p0 p =
     (case check_args c of
        Some e \<Rightarrow> (Refused e, p)
      | None \<Rightarrow>
          (case snapshotGroup es (a_key c) p0 of
             (snapshots, creating, version) \<Rightarrow>
               (case selectCandidate (measureOccupancy occ snapshots) (affinityID c) (softCap c) (hardCap c) of
                  (Some candidate, limit) \<Rightarrow>
                    (case acquire_claim (a_key c) candidate limit p of
                       (Some a, p) \<Rightarrow> (Admitted a, p)
                     | (None, p) \<Rightarrow> (Retry, p))
                | (None, _) \<Rightarrow> acquire_create (a_key c) creating version p)))"

text \<open>The locked part of \<^verbatim>\<open>addChecked\<close>.\<close>

definition addChecked :: "'k \<Rightarrow> bool \<Rightarrow> int \<Rightarrow> bool \<Rightarrow> ('k, 't) Pool \<Rightarrow> (pool_error + nat) \<times> ('k, 't) Pool" where
  "addChecked key pin res hasbuild p =
     (if \<not> hasbuild then (Inl ErrNilInstanceBuilder, p)
      else case newEntryLocked key pin res p of (a, p) \<Rightarrow> (Inr a, p))"

section \<open>Reaping\<close>

definition reap_one ::
    "time \<Rightarrow> duration \<Rightarrow> 't occupancySnapshot \<Rightarrow> ('k, 't) Pool \<times> nat list \<Rightarrow> ('k, 't) Pool \<times> nat list" where
  "reap_one now grace s pr =
     (let (p, toReap) = pr in
      case map_of (byID p) (s_id s) of
        None \<Rightarrow> (p, toReap)
      | Some a \<Rightarrow>
          (let e = objs p a in
           if e_state e \<noteq> entryActive \<or> generation e \<noteq> s_generation s \<or> revision e \<noteq> s_revision s then (p, toReap)
           else if occupancy s > 0 \<or> reserved e > 0
           then (if \<not> IsZero (emptySince e)
                 then (bumpKeyVersionLocked (e_key e) (set_obj a (e\<lparr>emptySince := 0, revision := Suc (revision e)\<rparr>) p), toReap)
                 else (p, toReap))
           else if IsZero (emptySince e)
           then (bumpKeyVersionLocked (e_key e) (set_obj a (e\<lparr>emptySince := now, revision := Suc (revision e)\<rparr>) p), toReap)
           else if time_Sub now (emptySince e) < grace then (p, toReap)
           else (retire a p, toReap @ [a])))"

definition reap_section ::
    "time \<Rightarrow> duration \<Rightarrow> 't occupancySnapshot list \<Rightarrow> ('k, 't) Pool \<Rightarrow> nat list \<times> ('k, 't) Pool" where
  "reap_section now grace measured p =
     (case fold (reap_one now grace) measured (p, []) of (p, toReap) \<Rightarrow> (toReap, p))"

section \<open>Observers\<close>

definition pool_Get :: "nat \<Rightarrow> ('k, 't) Pool \<Rightarrow> 't option" where
  "pool_Get i p =
     (case map_of (byID p) i of
        None \<Rightarrow> None
      | Some a \<Rightarrow> if e_state (objs p a) = entryActive then inst (objs p a) else None)"

fun range_entries :: "(nat \<Rightarrow> bool) \<Rightarrow> nat list \<Rightarrow> nat list" where
  "range_entries fn [] = []"
| "range_entries fn (a # as) = (if \<not> fn a then [a] else a # range_entries fn as)"

text \<open>The entries \<^verbatim>\<open>RangeByKey\<close> passes to \<open>fn\<close>, in order.\<close>

definition RangeByKey :: "nat list \<Rightarrow> (nat \<Rightarrow> bool) \<Rightarrow> ('k, 't) Pool \<Rightarrow> nat list" where
  "RangeByKey es fn p = range_entries fn (filter (\<lambda>a. e_state (objs p a) = entryActive) es)"

definition Count :: "('k, 't) Pool \<Rightarrow> nat" where
  "Count p = length (filter (\<lambda>ia. e_state (objs p (snd ia)) = entryActive) (byID p))"

definition CountByKey :: "'k \<Rightarrow> ('k, 't) Pool \<Rightarrow> nat" where
  "CountByKey key p = length (filter (\<lambda>ia. e_state (objs p (snd ia)) = entryActive) (key_group p key))"

definition pool_Snapshot :: "nat list \<Rightarrow> ('k, 't) Pool \<Rightarrow> 'k EntrySnapshot list" where
  "pool_Snapshot es p =
     map (\<lambda>a. let e = objs p a in
            \<lparr>snap_ID = e_id e, snap_Generation = generation e, snap_Revision = revision e, snap_Key = e_key e,
             snap_State = publicLifecycleState (e_state e), snap_Reserved = reserved e, snap_Pinned = pinned e\<rparr>) es"

section \<open>Executions\<close>

text \<open>
  Besides the pool a configuration has the goroutines that are between two sections: those that
  build an instance, and those that evict an entry they removed. \<open>holders\<close> lists the entry of every
  reservation handed out and not released, \<open>events\<close> the calls of \<^verbatim>\<open>onEvict\<close> and \<^verbatim>\<open>Close\<close>.
\<close>

record ('k, 't) pool_world =
  pool :: "('k, 't) Pool"
  building :: "nat list"
  evicting :: "nat list"
  holders :: "nat list"
  events :: "pool_event list"
  panicked :: bool

definition pool_init :: "bool \<Rightarrow> nat \<Rightarrow> (nat \<Rightarrow> ('k, 't) pool_entry) \<Rightarrow> ('k, 't) pool_world" where
  "pool_init onEvict idBase mem =
     \<lparr>pool = NewPoolWithBase onEvict idBase mem, building = [], evicting = [], holders = [], events = [], panicked = False\<rparr>"

definition do_claim :: "'k \<Rightarrow> 't occupancySnapshot \<Rightarrow> int \<Rightarrow> ('k, 't) pool_world \<Rightarrow> ('k, 't) pool_world" where
  "do_claim key cand limit w =
     (case acquire_claim key cand limit (pool w) of
        (None, p) \<Rightarrow> w\<lparr>pool := p\<rparr>
      | (Some a, p) \<Rightarrow> w\<lparr>pool := p, holders := a # holders w\<rparr>)"

definition do_new :: "'k \<Rightarrow> bool \<Rightarrow> int \<Rightarrow> ('k, 't) pool_world \<Rightarrow> ('k, 't) pool_world" where
  "do_new key pin res w =
     (case newEntryLocked key pin res (pool w) of (a, p) \<Rightarrow> w\<lparr>pool := p, building := a # building w\<rparr>)"

definition do_finish :: "nat \<Rightarrow> 't build_outcome \<Rightarrow> ('k, 't) pool_world \<Rightarrow> ('k, 't) pool_world" where
  "do_finish a r w =
     (case invokeBuild r of
        Inl e \<Rightarrow> w\<lparr>pool := failCreation a (pool w), building := remove1 a (building w)\<rparr>
      | Inr i \<Rightarrow>
          (case finishCreation a i (pool w) of
             None \<Rightarrow> w\<lparr>panicked := True, building := remove1 a (building w)\<rparr>
           | Some p \<Rightarrow> w\<lparr>pool := p, building := remove1 a (building w),
                         holders := replicate (nat (reserved (objs (pool w) a))) a @ holders w\<rparr>))"

definition do_reserve :: "nat \<Rightarrow> ('k, 't) pool_world \<Rightarrow> ('k, 't) pool_world" where
  "do_reserve i w =
     (case ReserveChecked i (pool w) of
        (Some e, p) \<Rightarrow> w\<lparr>pool := p\<rparr>
      | (None, p) \<Rightarrow> w\<lparr>pool := p, holders := the (map_of (byID p) i) # holders w\<rparr>)"

definition do_release :: "nat \<Rightarrow> ('k, 't) pool_world \<Rightarrow> ('k, 't) pool_world" where
  "do_release a w = w\<lparr>pool := pool_Release (e_id (objs (pool w) a)) (pool w), holders := remove1 a (holders w)\<rparr>"

definition do_destroy :: "nat \<Rightarrow> ('k, 't) pool_world \<Rightarrow> ('k, 't) pool_world" where
  "do_destroy i w =
     (case DestroyChecked i (pool w) of
        ((_, None), p) \<Rightarrow> w\<lparr>pool := p\<rparr>
      | ((_, Some a), p) \<Rightarrow> w\<lparr>pool := p, evicting := a # evicting w\<rparr>)"

definition do_reap :: "time \<Rightarrow> duration \<Rightarrow> 't occupancySnapshot list \<Rightarrow> ('k, 't) pool_world \<Rightarrow> ('k, 't) pool_world" where
  "do_reap now grace measured w =
     (case reap_section now grace measured (pool w) of
        (toReap, p) \<Rightarrow> w\<lparr>pool := p, evicting := toReap @ evicting w\<rparr>)"

definition do_evict :: "nat \<Rightarrow> ('k, 't) pool_world \<Rightarrow> ('k, 't) pool_world" where
  "do_evict a w = w\<lparr>evicting := remove1 a (evicting w), events := events w @ evict a (pool w)\<rparr>"

text \<open>
  The sections run with whatever an earlier snapshot gave their goroutine, so candidates, limits and
  measurements are arbitrary, except that the candidate of a claim is an entry of the key it was
  snapshot for. Only a holder releases, once per reservation, as the comment of
  \<^verbatim>\<open>AcquireChecked\<close> asks for.
\<close>

inductive pool_step :: "('k, 't) pool_world \<Rightarrow> ('k, 't) pool_world \<Rightarrow> bool" where
  claim: "e_key (objs (pool w) (s_generation cand)) = key \<Longrightarrow> pool_step w (do_claim key cand limit w)"
| new: "0 \<le> res \<Longrightarrow> pool_step w (do_new key pin res w)"
| finish: "a \<in> set (building w) \<Longrightarrow> pool_step w (do_finish a r w)"
| reserve: "pool_step w (do_reserve i w)"
| release: "a \<in> set (holders w) \<Longrightarrow> pool_step w (do_release a w)"
| destroy: "pool_step w (do_destroy i w)"
| reap: "pool_step w (do_reap now grace measured w)"
| evict: "a \<in> set (evicting w) \<Longrightarrow> pool_step w (do_evict a w)"

abbreviation pool_reach :: "bool \<Rightarrow> nat \<Rightarrow> (nat \<Rightarrow> ('k, 't) pool_entry) \<Rightarrow> ('k, 't) pool_world \<Rightarrow> bool" where
  "pool_reach onEvict idBase mem w \<equiv> pool_step\<^sup>*\<^sup>* (pool_init onEvict idBase mem) w"

section \<open>Well-formed indexes\<close>

definition indexed :: "('k, 't) Pool \<Rightarrow> nat \<Rightarrow> bool" where
  "indexed p a \<longleftrightarrow> map_of (byID p) (e_id (objs p a)) = Some a"

text \<open>
  Both indexes have the same entries, each under its identifier and its key, none that is being
  destroyed; a key has a version exactly when it has entries, and no version is newer than the
  version counter.
\<close>

definition pool_wf :: "('k, 't) Pool \<Rightarrow> bool" where
  "pool_wf p \<longleftrightarrow>
     (\<forall>i a. map_of (byID p) i = Some a \<longrightarrow> e_id (objs p a) = i \<and> i \<le> nextID p \<and> a \<le> nextGeneration p \<and>
        generation (objs p a) = a \<and> e_state (objs p a) \<noteq> entryDestroying \<and>
        (e_state (objs p a) = entryActive \<longrightarrow> inst (objs p a) \<noteq> None)) \<and>
     (\<forall>k i a. map_of (key_group p k) i = Some a \<longleftrightarrow> map_of (byID p) i = Some a \<and> e_key (objs p a) = k) \<and>
     distinct (map fst (byID p)) \<and> (\<forall>k. distinct (map fst (key_group p k))) \<and>
     (\<forall>k. byKey p k \<noteq> Some []) \<and>
     (\<forall>k. keyVersion p k = None \<longleftrightarrow> key_group p k = []) \<and>
     (\<forall>k v. keyVersion p k = Some v \<longrightarrow> 0 < v \<and> v \<le> nextKeyVersion p)"

lemma pool_wfI:
  assumes "\<And>i a. map_of (byID p) i = Some a \<Longrightarrow> e_id (objs p a) = i \<and> i \<le> nextID p \<and> a \<le> nextGeneration p \<and>
        generation (objs p a) = a \<and> e_state (objs p a) \<noteq> entryDestroying \<and>
        (e_state (objs p a) = entryActive \<longrightarrow> inst (objs p a) \<noteq> None)"
    and "\<And>k i a. map_of (key_group p k) i = Some a \<longleftrightarrow> map_of (byID p) i = Some a \<and> e_key (objs p a) = k"
    and "distinct (map fst (byID p))" "\<And>k. distinct (map fst (key_group p k))" "\<And>k. byKey p k \<noteq> Some []"
    and "\<And>k. keyVersion p k = None \<longleftrightarrow> key_group p k = []"
    and "\<And>k v. keyVersion p k = Some v \<Longrightarrow> 0 < v \<and> v \<le> nextKeyVersion p"
  shows "pool_wf p"
  using assms unfolding pool_wf_def by simp

lemma wf_parts:
  assumes "pool_wf p"
  shows "distinct (map fst (byID p))" "distinct (map fst (key_group p k))" "byKey p k \<noteq> Some []"
    "keyVersion p k = None \<longleftrightarrow> key_group p k = []" "keyVersion p k = Some v \<Longrightarrow> 0 < v \<and> v \<le> nextKeyVersion p"
  using assms unfolding pool_wf_def by simp_all

lemma wf_entry:
  assumes "pool_wf p" "map_of (byID p) i = Some a"
  shows "e_id (objs p a) = i" "i \<le> nextID p" "a \<le> nextGeneration p" "generation (objs p a) = a"
    "e_state (objs p a) \<noteq> entryDestroying" "e_state (objs p a) = entryActive \<Longrightarrow> inst (objs p a) \<noteq> None"
    "indexed p a"
  using assms by (auto simp: pool_wf_def indexed_def)

lemma wf_group: "pool_wf p \<Longrightarrow> map_of (key_group p k) i = Some a \<longleftrightarrow> map_of (byID p) i = Some a \<and> e_key (objs p a) = k"
  by (simp add: pool_wf_def)

lemma key_group_None [simp]: "byKey p k = None \<Longrightarrow> key_group p k = []"
  by (simp add: key_group_def)

text \<open>Fields that an update leaves alone.\<close>

lemma bump_sel [simp]:
  "nextID (bumpKeyVersionLocked k p) = nextID p" "nextGeneration (bumpKeyVersionLocked k p) = nextGeneration p"
  "byID (bumpKeyVersionLocked k p) = byID p" "byKey (bumpKeyVersionLocked k p) = byKey p"
  "objs (bumpKeyVersionLocked k p) = objs p" "hasOnEvict (bumpKeyVersionLocked k p) = hasOnEvict p"
  "nextKeyVersion (bumpKeyVersionLocked k p) = Suc (nextKeyVersion p)"
  "key_group (bumpKeyVersionLocked k p) = key_group p"
  "keyVersion (bumpKeyVersionLocked k p) =
     (keyVersion p)(k := if key_group p k = [] then None else Some (Suc (nextKeyVersion p)))"
  by (auto simp: bumpKeyVersionLocked_def Let_def key_group_def fun_eq_iff)

lemma set_obj_sel [simp]:
  "nextID (set_obj a e p) = nextID p" "nextGeneration (set_obj a e p) = nextGeneration p"
  "byID (set_obj a e p) = byID p" "byKey (set_obj a e p) = byKey p" "objs (set_obj a e p) = (objs p)(a := e)"
  "hasOnEvict (set_obj a e p) = hasOnEvict p" "nextKeyVersion (set_obj a e p) = nextKeyVersion p"
  "keyVersion (set_obj a e p) = keyVersion p" "key_group (set_obj a e p) = key_group p"
  by (auto simp: set_obj_def key_group_def fun_eq_iff)

lemma remove_sel [simp]:
  "nextID (removeLocked a p) = nextID p" "nextGeneration (removeLocked a p) = nextGeneration p"
  "byID (removeLocked a p) = AList.delete (e_id (objs p a)) (byID p)" "objs (removeLocked a p) = objs p"
  "hasOnEvict (removeLocked a p) = hasOnEvict p" "nextKeyVersion (removeLocked a p) = nextKeyVersion p"
  "keyVersion (removeLocked a p) = keyVersion p"
  by (auto simp: removeLocked_def Let_def split: option.split)

lemma remove_group:
  "key_group (removeLocked a p) = (key_group p)(e_key (objs p a) := AList.delete (e_id (objs p a)) (key_group p (e_key (objs p a))))"
  by (auto simp: removeLocked_def Let_def key_group_def fun_eq_iff split: option.split)

lemma remove_byKey_nonempty:
  assumes "\<forall>k. byKey p k \<noteq> Some []"
  shows "\<forall>k. byKey (removeLocked a p) k \<noteq> Some []"
  using assms by (auto simp: removeLocked_def Let_def split: option.split)

text \<open>Changing the fields of an indexed entry other than its identity.\<close>

lemma wf_set_obj:
  assumes wf: "pool_wf p" and a: "map_of (byID p) (e_id (objs p a)) = Some a"
    and e: "e_id e = e_id (objs p a)" "e_key e = e_key (objs p a)" "generation e = generation (objs p a)"
      "e_state e \<noteq> entryDestroying" "e_state e = entryActive \<Longrightarrow> inst e \<noteq> None"
  shows "pool_wf (bumpKeyVersionLocked (e_key (objs p a)) (set_obj a e p))"
proof -
  from wf a have "map_of (key_group p (e_key (objs p a))) (e_id (objs p a)) = Some a" by (simp add: wf_group)
  then have ne: "key_group p (e_key (objs p a)) \<noteq> []" by auto
  show ?thesis
  proof (rule pool_wfI)
    fix i b
    assume "map_of (byID (bumpKeyVersionLocked (e_key (objs p a)) (set_obj a e p))) i = Some b"
    then show "e_id (objs (bumpKeyVersionLocked (e_key (objs p a)) (set_obj a e p)) b) = i \<and>
        i \<le> nextID (bumpKeyVersionLocked (e_key (objs p a)) (set_obj a e p)) \<and>
        b \<le> nextGeneration (bumpKeyVersionLocked (e_key (objs p a)) (set_obj a e p)) \<and>
        generation (objs (bumpKeyVersionLocked (e_key (objs p a)) (set_obj a e p)) b) = b \<and>
        e_state (objs (bumpKeyVersionLocked (e_key (objs p a)) (set_obj a e p)) b) \<noteq> entryDestroying \<and>
        (e_state (objs (bumpKeyVersionLocked (e_key (objs p a)) (set_obj a e p)) b) = entryActive \<longrightarrow>
           inst (objs (bumpKeyVersionLocked (e_key (objs p a)) (set_obj a e p)) b) \<noteq> None)"
      using wf_entry [OF wf, of i b] e by auto
  qed (use wf_parts [OF wf] wf_group [OF wf] e ne in \<open>auto simp: le_SucI split: if_splits\<close>)
qed

text \<open>Marking an entry as destroyed and removing it from both indexes.\<close>

lemma wf_remove:
  assumes wf: "pool_wf p" and a: "map_of (byID p) (e_id (objs p a)) = Some a"
    and e: "e_id e = e_id (objs p a)" "e_key e = e_key (objs p a)"
  shows "pool_wf (bumpKeyVersionLocked (e_key (objs p a)) (removeLocked a (set_obj a e p)))"
proof -
  let ?p = "removeLocked a (set_obj a e p)"
  have g: "key_group ?p k = (if k = e_key (objs p a) then AList.delete (e_id (objs p a)) (key_group p k) else key_group p k)" for k
    by (simp add: remove_group e)
  have "map_of (key_group ?p k) i = Some b \<longleftrightarrow> map_of (byID ?p) i = Some b \<and> e_key (objs ?p b) = k" for k i b
    using wf_group [OF wf, of k i b] wf_entry(1) [OF wf, of i b] a
    by (auto simp: g delete_conv' e split: if_splits)
  note grp = this
  have "byKey ?p k \<noteq> Some []" for k
    using remove_byKey_nonempty [of "set_obj a e p" a] wf_parts(3) [OF wf] by simp
  moreover have "distinct (map fst (key_group ?p k))" for k
    using wf_parts(2) [OF wf] by (simp add: g distinct_delete)
  moreover have "e_id (objs ?p b) = i \<and> i \<le> nextID p \<and> b \<le> nextGeneration p \<and> generation (objs ?p b) = b \<and>
      e_state (objs ?p b) \<noteq> entryDestroying \<and> (e_state (objs ?p b) = entryActive \<longrightarrow> inst (objs ?p b) \<noteq> None)"
    if "map_of (byID ?p) i = Some b" for i b
    using that wf_entry [OF wf, of i b] e by (auto simp: delete_conv' split: if_splits)
  ultimately show ?thesis
    using wf_parts(1,4,5) [OF wf] grp
    by (intro pool_wfI) (auto simp: distinct_delete le_SucI g split: if_splits)
qed

lemma wf_retire:
  assumes "pool_wf p" "map_of (byID p) i = Some a"
  shows "pool_wf (retire a p)"
  using wf_remove [OF assms(1), of a "(objs p a)\<lparr>e_state := entryDestroying\<rparr>"] wf_entry(1) [OF assms] assms(2)
  by (simp add: retire_def Let_def)

lemma wf_newEntry:
  assumes wf: "pool_wf p"
  shows "pool_wf (snd (newEntryLocked key pin res p))"
proof -
  let ?a = "Suc (nextGeneration p)" and ?i = "Suc (nextID p)"
  let ?p = "snd (newEntryLocked key pin res p)"
  have nid: "map_of (byID p) ?i = None" using wf_entry(2) [OF wf, of ?i] by (cases "map_of (byID p) ?i") auto
  have na: "map_of (byID p) i \<noteq> Some ?a" for i using wf_entry(3) [OF wf, of i ?a] by auto
  have g: "key_group ?p k = (if k = key then AList.update ?i ?a (key_group p k) else key_group p k)" for k
    by (simp add: newEntryLocked_def Let_def) (simp add: key_group_def set_obj_def)
  have sel: "byID ?p = AList.update ?i ?a (byID p)" "nextID ?p = ?i" "nextGeneration ?p = ?a"
    "objs ?p = (objs p)(?a := \<lparr>e_id = ?i, generation = ?a, revision = 0, e_key = key, inst = None,
        e_state = entryCreating, ready = False, pinned = pin, reserved = res, emptySince = 0\<rparr>)"
    "keyVersion ?p = (keyVersion p)(key \<mapsto> Suc (nextKeyVersion p))" "nextKeyVersion ?p = Suc (nextKeyVersion p)"
    "byKey ?p = (byKey p)(key \<mapsto> AList.update ?i ?a (key_group p key))"
    by (simp_all add: newEntryLocked_def Let_def key_group_def set_obj_def)
  have grp: "map_of (key_group ?p k) i = Some b \<longleftrightarrow> map_of (byID ?p) i = Some b \<and> e_key (objs ?p b) = k" for k i b
    using wf_group [OF wf, of k i b] na [of i] nid by (auto simp: g sel update_conv')
  have "distinct (map fst (key_group ?p k))" for k
    using wf_parts(2) [OF wf] by (simp add: g distinct_update)
  moreover have "e_id (objs ?p b) = i \<and> i \<le> nextID ?p \<and> b \<le> nextGeneration ?p \<and> generation (objs ?p b) = b \<and>
      e_state (objs ?p b) \<noteq> entryDestroying \<and> (e_state (objs ?p b) = entryActive \<longrightarrow> inst (objs ?p b) \<noteq> None)"
    if "map_of (byID ?p) i = Some b" for i b
    using that wf_entry [OF wf, of i b] na [of i] by (auto simp: sel update_conv' le_SucI split: if_splits)
  moreover have "AList.update ?i ?a xs \<noteq> []" for xs by (cases xs) auto
  ultimately show ?thesis
    using wf_parts(1,3,4,5) [OF wf] grp
    by (intro pool_wfI) (auto simp: sel distinct_update le_SucI g split: if_splits)
qed

section \<open>The pool as a map from addresses to entries\<close>

definition live :: "('k, 't) Pool \<Rightarrow> nat \<Rightarrow> ('k, 't) pool_entry option" where
  "live p a = (if indexed p a then Some (objs p a) else None)"

lemma live_Some: "live p a = Some e \<longleftrightarrow> indexed p a \<and> objs p a = e"
  by (auto simp: live_def)

lemma live_byID: "pool_wf p \<Longrightarrow> map_of (byID p) i = Some a \<Longrightarrow> live p a = Some (objs p a)"
  by (simp add: live_def wf_entry(7))

lemma live_bump [simp]: "live (bumpKeyVersionLocked k p) = live p"
  by (simp add: live_def indexed_def fun_eq_iff)

lemma live_set_obj:
  assumes "pool_wf p" "indexed p a" "e_id e = e_id (objs p a)"
  shows "live (set_obj a e p) = (live p)(a \<mapsto> e)"
  using assms by (auto simp: live_def indexed_def fun_eq_iff)

lemma live_remove:
  assumes "pool_wf p" "indexed p a" "e_id e = e_id (objs p a)"
  shows "live (removeLocked a (set_obj a e p)) = (live p)(a := None)"
proof
  fix b
  show "live (removeLocked a (set_obj a e p)) b = ((live p)(a := None)) b"
    using assms wf_entry(1) [OF assms(1), of "e_id (objs p a)" b]
    by (cases "b = a") (auto simp: live_def indexed_def delete_conv')
qed

lemma live_new:
  assumes "pool_wf p"
  defines "a \<equiv> Suc (nextGeneration p)"
  shows "fst (newEntryLocked key pin res p) = a"
    "live (snd (newEntryLocked key pin res p)) = (live p)(a \<mapsto>
       \<lparr>e_id = Suc (nextID p), generation = a, revision = 0, e_key = key, inst = None,
        e_state = entryCreating, ready = False, pinned = pin, reserved = res, emptySince = 0\<rparr>)"
    "nextGeneration (snd (newEntryLocked key pin res p)) = a"
proof -
  have "map_of (byID p) i = Some b \<Longrightarrow> i \<noteq> Suc (nextID p) \<and> b \<noteq> a" for i b
    using wf_entry(2,3) [OF assms(1), of i b] by (auto simp: a_def)
  then show "live (snd (newEntryLocked key pin res p)) = (live p)(a \<mapsto>
       \<lparr>e_id = Suc (nextID p), generation = a, revision = 0, e_key = key, inst = None,
        e_state = entryCreating, ready = False, pinned = pin, reserved = res, emptySince = 0\<rparr>)"
    by (auto simp: newEntryLocked_def Let_def live_def indexed_def fun_eq_iff update_conv' a_def set_obj_def)
qed (simp_all add: newEntryLocked_def Let_def a_def)

lemma live_bounds: "pool_wf p \<Longrightarrow> live p a = Some e \<Longrightarrow> a \<le> nextGeneration p"
  using wf_entry(3) by (auto simp: live_Some indexed_def)

lemma retire_effect:
  assumes "pool_wf p" "indexed p a"
  shows "pool_wf (retire a p)" "live (retire a p) = (live p)(a := None)"
    "nextGeneration (retire a p) = nextGeneration p"
  using assms wf_retire [of p "e_id (objs p a)" a] live_remove [OF assms, of "(objs p a)\<lparr>e_state := entryDestroying\<rparr>"]
  by (simp_all add: retire_def Let_def indexed_def)

lemma change_effect:
  assumes "pool_wf p" "indexed p a" "e_id e = e_id (objs p a)" "e_key e = e_key (objs p a)"
    "generation e = generation (objs p a)" "e_state e \<noteq> entryDestroying" "e_state e = entryActive \<Longrightarrow> inst e \<noteq> None"
  shows "pool_wf (bumpKeyVersionLocked (e_key (objs p a)) (set_obj a e p))"
    "live (bumpKeyVersionLocked (e_key (objs p a)) (set_obj a e p)) = (live p)(a \<mapsto> e)"
  using wf_set_obj [OF assms(1) _ assms(3-7)] assms live_set_obj [OF assms(1-3)]
  by (simp_all add: indexed_def)

section \<open>The invariant of executions\<close>

definition closed_insts :: "pool_event list \<Rightarrow> nat list" where
  "closed_insts evs = concat (map (\<lambda>e. case e of InstanceClose a \<Rightarrow> [a] | OnEvict i a \<Rightarrow> []) evs)"

text \<open>
  What every configuration satisfies, in terms of the live entries: the goroutines that build are
  those of the placeholders, the reservation counts are the numbers of holders, and an entry that
  is being evicted or was closed is gone for good and is closed once.
\<close>

definition live_inv :: "(nat \<Rightarrow> ('k, 't) pool_entry option) \<Rightarrow> nat \<Rightarrow> nat list \<Rightarrow> nat list \<Rightarrow> nat list \<Rightarrow> bool" where
  "live_inv L n bld hold gone \<longleftrightarrow>
     distinct bld \<and> (\<forall>a. a \<in> set bld \<longleftrightarrow> (\<exists>e. L a = Some e \<and> e_state e = entryCreating)) \<and>
     (\<forall>a e. L a = Some e \<longrightarrow> a \<le> n \<and> 0 \<le> reserved e \<and>
        (e_state e = entryActive \<longrightarrow> reserved e = int (count_list hold a))) \<and>
     (\<forall>a\<in>set hold. \<exists>e. L a = Some e \<and> e_state e = entryActive) \<and>
     distinct gone \<and> (\<forall>a\<in>set gone. L a = None \<and> a \<le> n)"

definition pool_inv :: "('k, 't) pool_world \<Rightarrow> bool" where
  "pool_inv w \<longleftrightarrow> pool_wf (pool w) \<and> \<not> panicked w \<and>
     live_inv (live (pool w)) (nextGeneration (pool w)) (building w) (holders w) (evicting w @ closed_insts (events w))"

lemma pool_inv_init: "pool_inv (pool_init onEvict idBase mem)"
  by (simp add: pool_inv_def pool_init_def NewPoolWithBase_def live_inv_def closed_insts_def live_def
      indexed_def pool_wf_def key_group_def)

lemma live_inv_change:
  assumes "live_inv L n bld hold gone" "L a = Some e0" "e_state e0 = entryActive" "e_state e = entryActive"
    and "reserved e = int (count_list hold' a)" "\<And>b. b \<noteq> a \<Longrightarrow> count_list hold' b = count_list hold b"
  shows "live_inv (L(a \<mapsto> e)) n bld hold' gone"
proof -
  have "\<exists>e. (L(a \<mapsto> e')) b = Some e \<and> e_state e = entryActive" if "b \<in> set hold'" "e_state e' = entryActive" for b e'
  proof (cases "b = a")
    case False
    then have "b \<in> set hold" using that(1) assms(6) [OF False] by (metis count_list_0_iff)
    with assms(1) False show ?thesis by (auto simp: live_inv_def)
  qed (use that in auto)
  with assms show ?thesis by (auto simp: live_inv_def)
qed

lemma live_inv_retire:
  assumes "live_inv L n bld hold gone" "L a = Some e" "e_state e = entryActive" "reserved e \<le> 0"
  shows "live_inv (L(a := None)) n bld hold (a # gone)"
proof -
  have "reserved e = int (count_list hold a)" using assms(1-3) by (auto simp: live_inv_def)
  with assms(4) have "a \<notin> set hold" by (simp add: count_list_0_iff)
  with assms show ?thesis by (auto simp: live_inv_def)
qed

lemma live_inv_new:
  assumes "live_inv L n bld hold gone" "e_state e = entryCreating" "0 \<le> reserved e"
  shows "live_inv (L(Suc n \<mapsto> e)) (Suc n) (Suc n # bld) hold gone"
proof -
  have "L (Suc n) = Some x \<Longrightarrow> Suc n \<le> n" for x using assms(1) unfolding live_inv_def by blast
  then have "L (Suc n) = None" by (cases "L (Suc n)") auto
  with assms show ?thesis by (auto simp: live_inv_def le_SucI)
qed

lemma live_inv_finish:
  assumes inv: "live_inv L n bld hold gone" and "a \<in> set bld" "L a = Some e0" "e_state e = entryActive"
    "reserved e = reserved e0"
  shows "live_inv (L(a \<mapsto> e)) n (remove1 a bld) (replicate (nat (reserved e0)) a @ hold) gone"
proof -
  have a: "e_state e0 = entryCreating" "a \<le> n" "0 \<le> reserved e0" "distinct bld"
    using inv assms(2,3) by (auto simp: live_inv_def)
  then have "a \<notin> set hold" using inv assms(3) by (auto simp: live_inv_def)
  then have "count_list hold a = 0" by (simp add: count_list_0_iff)
  moreover have "count_list (replicate m a) b = (if a = b then m else 0)" for m b by (induction m) auto
  ultimately show ?thesis
    using inv assms a by (auto simp: live_inv_def)
qed

lemma live_inv_fail:
  assumes "live_inv L n bld hold gone" "a \<in> set bld" "L a = Some e"
  shows "live_inv (L(a := None)) n (remove1 a bld) hold gone"
proof -
  have a: "e_state e = entryCreating" "distinct bld" using assms by (auto simp: live_inv_def)
  then have "a \<notin> set hold" using assms by (auto simp: live_inv_def)
  with assms a show ?thesis by (auto simp: live_inv_def)
qed

lemma live_inv_perm:
  "live_inv L n bld hold gone \<Longrightarrow> mset gone' = mset gone \<Longrightarrow> live_inv L n bld hold gone'"
  using mset_eq_imp_distinct_iff [of gone' gone] mset_eq_setD [of gone' gone] by (simp add: live_inv_def)

lemma pool_inv_indexed:
  assumes "pool_inv w" "map_of (byID (pool w)) i = Some a"
  shows "indexed (pool w) a" "live (pool w) a = Some (objs (pool w) a)"
    "e_state (objs (pool w) a) = entryActive \<Longrightarrow> reserved (objs (pool w) a) = int (count_list (holders w) a)"
proof -
  have wf: "pool_wf (pool w)" using assms(1) by (simp add: pool_inv_def)
  show i: "indexed (pool w) a" by (rule wf_entry(7) [OF wf assms(2)])
  then show l: "live (pool w) a = Some (objs (pool w) a)" by (simp add: live_def)
  show "e_state (objs (pool w) a) = entryActive \<Longrightarrow> reserved (objs (pool w) a) = int (count_list (holders w) a)"
    using assms(1) l unfolding pool_inv_def live_inv_def by blast
qed

text \<open>A section that changes an active entry, with the holders it leaves behind.\<close>

lemma pool_inv_change:
  assumes inv: "pool_inv w" and a: "indexed (pool w) a" "e_state (objs (pool w) a) = entryActive"
    and e: "e_id e = e_id (objs (pool w) a)" "e_key e = e_key (objs (pool w) a)"
      "generation e = generation (objs (pool w) a)" "e_state e = entryActive" "inst e = inst (objs (pool w) a)"
    and h: "reserved e = int (count_list hold a)" "\<And>b. b \<noteq> a \<Longrightarrow> count_list hold b = count_list (holders w) b"
  shows "pool_inv (w\<lparr>pool := bumpKeyVersionLocked (e_key (objs (pool w) a)) (set_obj a e (pool w)), holders := hold\<rparr>)"
proof -
  have wf: "pool_wf (pool w)" using inv by (simp add: pool_inv_def)
  have "inst e \<noteq> None" using wf_entry(6) [OF wf] a e(5) by (auto simp: indexed_def)
  then have "pool_wf (bumpKeyVersionLocked (e_key (objs (pool w) a)) (set_obj a e (pool w)))"
    "live (bumpKeyVersionLocked (e_key (objs (pool w) a)) (set_obj a e (pool w))) = (live (pool w))(a \<mapsto> e)"
    using change_effect [OF wf a(1) e(1-3)] e(4) by simp_all
  moreover have "live_inv ((live (pool w))(a \<mapsto> e)) (nextGeneration (pool w)) (building w) hold
      (evicting w @ closed_insts (events w))"
    using live_inv_change [of "live (pool w)" "nextGeneration (pool w)" "building w" "holders w"
        "evicting w @ closed_insts (events w)" a "objs (pool w) a" e hold] inv a e h
    by (simp add: pool_inv_def live_def)
  ultimately show ?thesis using inv by (simp add: pool_inv_def)
qed

lemma pool_inv_touch:
  assumes "pool_inv w" "indexed (pool w) a" "e_state (objs (pool w) a) = entryActive"
    and "e = (objs (pool w) a)\<lparr>emptySince := t, revision := r\<rparr>"
  shows "pool_inv (w\<lparr>pool := bumpKeyVersionLocked (e_key (objs (pool w) a)) (set_obj a e (pool w))\<rparr>)"
  using pool_inv_change [OF assms(1-3), of e "holders w"] pool_inv_indexed(3) [OF assms(1), of "e_id (objs (pool w) a)" a] assms
  by (simp add: indexed_def)

lemma pool_inv_take_slot:
  assumes "pool_inv w" "indexed (pool w) a" "e_state (objs (pool w) a) = entryActive"
  shows "pool_inv (w\<lparr>pool := bumpKeyVersionLocked (e_key (objs (pool w) a)) (take_slot a (pool w)), holders := a # holders w\<rparr>)"
  unfolding take_slot_def Let_def
  by (rule pool_inv_change [OF assms])
     (use pool_inv_indexed(3) [OF assms(1), of "e_id (objs (pool w) a)" a] assms in \<open>simp_all add: indexed_def\<close>)

lemma pool_inv_retire:
  assumes inv: "pool_inv w" and a: "indexed (pool w) a" "e_state (objs (pool w) a) = entryActive" "reserved (objs (pool w) a) \<le> 0"
  shows "pool_inv (w\<lparr>pool := retire a (pool w), evicting := a # evicting w\<rparr>)"
proof -
  have wf: "pool_wf (pool w)" using inv by (simp add: pool_inv_def)
  have "live_inv ((live (pool w))(a := None)) (nextGeneration (pool w)) (building w) (holders w)
      (a # evicting w @ closed_insts (events w))"
    by (rule live_inv_retire [where e = "objs (pool w) a"]) (use inv a in \<open>simp_all add: pool_inv_def live_def\<close>)
  with inv retire_effect [OF wf a(1)] show ?thesis by (simp add: pool_inv_def)
qed

lemma pool_inv_new:
  assumes "pool_inv w" "0 \<le> res"
  shows "pool_inv (do_new key pin res w)"
proof -
  have wf: "pool_wf (pool w)" using assms(1) by (simp add: pool_inv_def)
  show ?thesis
    using assms live_inv_new [of "live (pool w)" "nextGeneration (pool w)"] live_new [OF wf, of key pin res]
      wf_newEntry [OF wf, of key pin res]
    by (simp add: do_new_def pool_inv_def split_beta)
qed

lemma building_placeholder:
  assumes "pool_inv w" "a \<in> set (building w)"
  shows "indexed (pool w) a" "e_state (objs (pool w) a) = entryCreating"
  using assms unfolding pool_inv_def live_inv_def by (auto simp: live_Some)

lemma pool_inv_finish:
  assumes inv: "pool_inv w" and a: "a \<in> set (building w)"
  shows "pool_inv (do_finish a r w)"
proof -
  have wf: "pool_wf (pool w)" using inv by (simp add: pool_inv_def)
  note pl = building_placeholder [OF inv a]
  let ?e = "objs (pool w) a"
  have li: "live_inv (live (pool w)) (nextGeneration (pool w)) (building w) (holders w) (evicting w @ closed_insts (events w))"
    using inv by (simp add: pool_inv_def)
  show ?thesis
  proof (cases "invokeBuild r")
    case (Inl x)
    have "pool_wf (failCreation a (pool w))" "live (failCreation a (pool w)) = (live (pool w))(a := None)"
      "nextGeneration (failCreation a (pool w)) = nextGeneration (pool w)"
      using pl wf_remove [OF wf, of a "?e\<lparr>e_state := entryDestroying, ready := True\<rparr>"]
        live_remove [OF wf pl(1), of "?e\<lparr>e_state := entryDestroying, ready := True\<rparr>"]
      by (simp_all add: failCreation_def Let_def indexed_def)
    moreover have "live_inv ((live (pool w))(a := None)) (nextGeneration (pool w)) (remove1 a (building w)) (holders w)
        (evicting w @ closed_insts (events w))"
      by (rule live_inv_fail [OF li a, where e = ?e]) (simp add: live_def pl)
    ultimately show ?thesis using inv Inl by (simp add: do_finish_def pool_inv_def)
  next
    case (Inr i)
    let ?e' = "?e\<lparr>inst := Some i, e_state := entryActive, revision := Suc (revision ?e), ready := True\<rparr>"
    let ?p = "bumpKeyVersionLocked (e_key ?e) (set_obj a ?e' (pool w))"
    have "finishCreation a i (pool w) = Some ?p"
      using pl by (simp add: finishCreation_def Let_def indexed_def)
    moreover have "pool_wf ?p" "live ?p = (live (pool w))(a \<mapsto> ?e')"
      using change_effect [OF wf pl(1), of ?e'] by simp_all
    moreover have "live_inv ((live (pool w))(a \<mapsto> ?e')) (nextGeneration (pool w)) (remove1 a (building w))
        (replicate (nat (reserved ?e)) a @ holders w) (evicting w @ closed_insts (events w))"
      by (rule live_inv_finish [OF li a]) (simp_all add: live_def pl)
    ultimately show ?thesis using inv Inr by (simp add: do_finish_def pool_inv_def)
  qed
qed

lemma pool_inv_reserve:
  assumes inv: "pool_inv w"
  shows "pool_inv (do_reserve i w)"
proof (cases "map_of (byID (pool w)) i")
  case (Some a)
  note ix = pool_inv_indexed(1) [OF inv Some]
  show ?thesis
  proof (cases "e_state (objs (pool w) a)")
    case entryActive
    with Some pool_inv_take_slot [OF inv ix] show ?thesis
      by (simp add: do_reserve_def ReserveChecked_def Let_def) (simp add: take_slot_def Let_def)
  qed (use Some inv in \<open>simp_all add: do_reserve_def ReserveChecked_def Let_def\<close>)
qed (simp add: do_reserve_def ReserveChecked_def inv)

lemma pool_inv_claim:
  assumes inv: "pool_inv w" and key: "e_key (objs (pool w) (s_generation cand)) = key"
  shows "pool_inv (do_claim key cand limit w)"
proof (cases "map_of (byID (pool w)) (s_id cand)")
  case (Some a)
  note ix = pool_inv_indexed(1) [OF inv Some]
  have "generation (objs (pool w) a) = a" using inv Some wf_entry(4) by (auto simp: pool_inv_def)
  with Some inv key pool_inv_take_slot [OF inv ix] show ?thesis
    by (auto simp: do_claim_def acquire_claim_def Let_def)
qed (simp add: do_claim_def acquire_claim_def inv)

lemma pool_inv_release:
  assumes inv: "pool_inv w" and a: "a \<in> set (holders w)"
  shows "pool_inv (do_release a w)"
proof -
  let ?e = "objs (pool w) a"
  have ix: "indexed (pool w) a" "e_state ?e = entryActive"
    using inv a unfolding pool_inv_def live_inv_def by (auto simp: live_Some)
  have r: "reserved ?e = int (count_list (holders w) a)"
    using pool_inv_indexed(3) [OF inv, of "e_id ?e" a] ix by (simp add: indexed_def)
  have "count_list (holders w) a \<noteq> 0" using a by (simp add: count_list_0_iff)
  moreover have "count_list (remove1 a xs) b = (if a = b then count_list xs b - 1 else count_list xs b)" for xs b
    by (induction xs) auto
  ultimately show ?thesis
    using pool_inv_change [OF inv ix, of "?e\<lparr>reserved := reserved ?e - 1, revision := Suc (revision ?e)\<rparr>" "remove1 a (holders w)"] ix r
    by (simp add: do_release_def pool_Release_def Let_def indexed_def of_nat_diff)
qed

lemma pool_inv_destroy:
  assumes inv: "pool_inv w"
  shows "pool_inv (do_destroy i w)"
proof (cases "map_of (byID (pool w)) i")
  case (Some a)
  note ix = pool_inv_indexed(1) [OF inv Some]
  have "e_state (objs (pool w) a) \<noteq> entryDestroying" using inv Some wf_entry(5) by (auto simp: pool_inv_def)
  then show ?thesis
    using Some inv pool_inv_retire [OF inv ix]
    by (cases "e_state (objs (pool w) a)") (auto simp: do_destroy_def DestroyChecked_def Let_def)
qed (simp add: do_destroy_def DestroyChecked_def inv)

text \<open>Reaping one entry after another.\<close>

lemma pool_inv_reap_one:
  assumes inv: "pool_inv (w\<lparr>pool := p, evicting := r @ evicting w\<rparr>)" (is "pool_inv ?w")
  shows "pool_inv (w\<lparr>pool := fst (reap_one now grace s (p, r)), evicting := snd (reap_one now grace s (p, r)) @ evicting w\<rparr>)"
proof (cases "map_of (byID p) (s_id s)")
  case (Some a)
  then have Some': "map_of (byID (pool ?w)) (s_id s) = Some a" by simp
  note ix = pool_inv_indexed(1) [OF inv Some']
  show ?thesis
  proof (cases "e_state (objs p a) = entryActive")
    case True
    have touch: "pool_inv (w\<lparr>pool := bumpKeyVersionLocked (e_key (objs p a))
        (set_obj a ((objs p a)\<lparr>emptySince := t, revision := v\<rparr>) p), evicting := r @ evicting w\<rparr>)" for t v
      using pool_inv_touch [OF inv ix, where t = t and r = v] True by (simp add: pool_inv_def)
    have "pool_inv (w\<lparr>pool := retire a p, evicting := a # r @ evicting w\<rparr>)" if "\<not> reserved (objs p a) > 0"
      using pool_inv_retire [OF inv ix] True that by (simp add: pool_inv_def)
    then have "pool_inv (w\<lparr>pool := retire a p, evicting := (r @ [a]) @ evicting w\<rparr>)" if "\<not> reserved (objs p a) > 0"
      using that live_inv_perm [where L = "live (retire a p)" and gone = "a # r @ evicting w @ closed_insts (events w)"
          and gone' = "(r @ [a]) @ evicting w @ closed_insts (events w)"]
      by (simp add: pool_inv_def)
    with touch inv Some show ?thesis by (simp add: reap_one_def Let_def)
  qed (use Some inv in \<open>simp add: reap_one_def\<close>)
qed (use inv in \<open>simp add: reap_one_def\<close>)

lemma pool_inv_reap_fold:
  assumes "pool_inv (w\<lparr>pool := p, evicting := r @ evicting w\<rparr>)"
  shows "pool_inv (w\<lparr>pool := fst (fold (reap_one now grace) ms (p, r)),
           evicting := snd (fold (reap_one now grace) ms (p, r)) @ evicting w\<rparr>)"
  using assms
proof (induction ms arbitrary: p r)
  case (Cons m ms)
  show ?case
    using Cons.IH [where p = "fst (reap_one now grace m (p, r))" and r = "snd (reap_one now grace m (p, r))"]
      pool_inv_reap_one [OF Cons.prems] by simp
qed simp

lemma pool_inv_reap: "pool_inv w \<Longrightarrow> pool_inv (do_reap now grace ms w)"
  using pool_inv_reap_fold [where w = w and p = "pool w" and r = "[]"] by (simp add: do_reap_def reap_section_def split_beta)

lemma pool_inv_evict:
  assumes "pool_inv w" "a \<in> set (evicting w)"
  shows "pool_inv (do_evict a w)"
proof -
  have "closed_insts (events w @ evict a (pool w)) = closed_insts (events w) @ [a]"
    by (simp add: closed_insts_def evict_def)
  then have "mset (remove1 a (evicting w) @ closed_insts (events w @ evict a (pool w))) =
      mset (evicting w @ closed_insts (events w))"
    using assms(2) by (simp add: insert_DiffM)
  with assms(1) have "live_inv (live (pool w)) (nextGeneration (pool w)) (building w) (holders w)
      (remove1 a (evicting w) @ closed_insts (events w @ evict a (pool w)))"
    unfolding pool_inv_def using live_inv_perm by blast
  with assms(1) show ?thesis by (simp add: pool_inv_def do_evict_def)
qed

lemma pool_inv_step: "pool_step w w' \<Longrightarrow> pool_inv w \<Longrightarrow> pool_inv w'"
  by (induction rule: pool_step.induct)
     (simp_all add: pool_inv_claim pool_inv_new pool_inv_finish pool_inv_reserve pool_inv_release
       pool_inv_destroy pool_inv_reap pool_inv_evict)

lemma pool_inv_reach: "pool_reach onEvict idBase mem w \<Longrightarrow> pool_inv w"
  by (induction rule: rtranclp_induct) (auto intro: pool_inv_init pool_inv_step)

section \<open>A version identifies the contents of a group\<close>

text \<open>
  \<open>AcquireChecked\<close> compares only the version of its key before it creates an instance. That is
  enough: the version changes with every change of the group.
\<close>

definition same_group :: "'k \<Rightarrow> ('k, 't) Pool \<Rightarrow> ('k, 't) Pool \<Rightarrow> bool" where
  "same_group k p q \<longleftrightarrow> key_group q k = key_group p k \<and> keyVersion q k = keyVersion p k \<and>
     (\<forall>a\<in>snd ` set (key_group p k). objs q a = objs p a)"

text \<open>
  The group as it was, or a version that was not in use before; and no entry ever changes its key.
\<close>

definition group_step :: "('k, 't) Pool \<Rightarrow> ('k, 't) Pool \<Rightarrow> bool" where
  "group_step p q \<longleftrightarrow> nextKeyVersion p \<le> nextKeyVersion q \<and> nextGeneration p \<le> nextGeneration q \<and>
     (\<forall>a \<le> nextGeneration p. e_key (objs q a) = e_key (objs p a)) \<and>
     (\<forall>k. same_group k p q \<or> (case keyVersion q k of None \<Rightarrow> True | Some v \<Rightarrow> nextKeyVersion p < v))"

lemma group_step_refl [simp]: "group_step p p"
  by (simp add: group_step_def same_group_def)

lemma same_group_trans: "same_group k p q \<Longrightarrow> same_group k q r \<Longrightarrow> same_group k p r"
  by (auto simp: same_group_def)

lemma group_step_trans:
  assumes "group_step p q" "group_step q r"
  shows "group_step p r"
  unfolding group_step_def
proof (intro conjI allI impI)
  show "nextKeyVersion p \<le> nextKeyVersion r" "nextGeneration p \<le> nextGeneration r"
    using assms by (auto simp: group_step_def)
  show "e_key (objs r a) = e_key (objs p a)" if "a \<le> nextGeneration p" for a
    using assms that by (simp add: group_step_def)
  fix k
  have pq: "nextKeyVersion p \<le> nextKeyVersion q"
    "same_group k p q \<or> (case keyVersion q k of None \<Rightarrow> True | Some v \<Rightarrow> nextKeyVersion p < v)"
    and qr: "same_group k q r \<or> (case keyVersion r k of None \<Rightarrow> True | Some v \<Rightarrow> nextKeyVersion q < v)"
    using assms by (simp_all add: group_step_def)
  show "same_group k p r \<or> (case keyVersion r k of None \<Rightarrow> True | Some v \<Rightarrow> nextKeyVersion p < v)"
  proof (cases "same_group k q r")
    case True
    then have "keyVersion r k = keyVersion q k" by (simp add: same_group_def)
    with pq(2) same_group_trans [OF _ True] show ?thesis by auto
  next
    case False
    with pq(1) qr show ?thesis by (auto split: option.splits)
  qed
qed

text \<open>
  A section that touches entries of one key only and then gives that key a new version.
\<close>

lemma group_step_bump:
  assumes "keyVersion q = keyVersion p" "nextKeyVersion q = nextKeyVersion p" "nextGeneration p \<le> nextGeneration q"
    and "\<And>a. a \<le> nextGeneration p \<Longrightarrow> e_key (objs q a) = e_key (objs p a)"
    and "\<And>k'. k' \<noteq> k \<Longrightarrow> key_group q k' = key_group p k'"
    and "\<And>k' a. k' \<noteq> k \<Longrightarrow> a \<in> snd ` set (key_group p k') \<Longrightarrow> objs q a = objs p a"
  shows "group_step p (bumpKeyVersionLocked k q)"
  using assms by (auto simp: group_step_def same_group_def)

lemma group_member:
  assumes "pool_wf p" "a \<in> snd ` set (key_group p k)"
  shows "map_of (byID p) (e_id (objs p a)) = Some a" "e_key (objs p a) = k"
proof -
  obtain i where "(i, a) \<in> set (key_group p k)" using assms(2) by auto
  then have "map_of (key_group p k) i = Some a" using wf_parts(2) [OF assms(1)] by simp
  with wf_group [OF assms(1)] have "map_of (byID p) i = Some a" "e_key (objs p a) = k" by auto
  then show "map_of (byID p) (e_id (objs p a)) = Some a" "e_key (objs p a) = k"
    using wf_entry(1) [OF assms(1)] by auto
qed

lemma group_step_set:
  assumes "pool_wf p" "e_key e = e_key (objs p a)"
  shows "group_step p (bumpKeyVersionLocked (e_key (objs p a)) (set_obj a e p))"
  using group_member(2) [OF assms(1)] assms(2) by (intro group_step_bump) auto

lemma group_step_remove:
  assumes "pool_wf p" "e_id e = e_id (objs p a)" "e_key e = e_key (objs p a)"
  shows "group_step p (bumpKeyVersionLocked (e_key (objs p a)) (removeLocked a (set_obj a e p)))"
  using group_member(2) [OF assms(1)] assms(2,3) by (intro group_step_bump) (auto simp: remove_group)

lemma group_step_new:
  assumes "pool_wf p"
  shows "group_step p (snd (newEntryLocked key pin res p))"
proof -
  let ?a = "Suc (nextGeneration p)"
  have fresh: "(i, ?a) \<notin> set (key_group p k)" for i k
    using wf_entry(3) [OF assms, of _ ?a] group_member(1) [OF assms, of ?a k]
    by (metis image_eqI not_less_eq_eq order_refl snd_conv)
  have sel: "key_group (p\<lparr>nextID := x, nextGeneration := y, objs := z, byID := u\<rparr>) = key_group p"
    "key_group (q\<lparr>byKey := (byKey p)(key \<mapsto> g)\<rparr>) = (key_group p)(key := g)" for x y z u g and q :: "('a, 'b) Pool"
    by (auto simp: key_group_def fun_eq_iff)
  show ?thesis
    using fresh by (auto simp: newEntryLocked_def Let_def set_obj_def sel intro!: group_step_bump)
qed

lemma group_step_retire: "pool_wf p \<Longrightarrow> group_step p (retire a p)"
  unfolding retire_def Let_def by (rule group_step_remove) simp_all

lemma group_step_reap_one:
  assumes "pool_wf p"
  shows "group_step p (fst (reap_one now grace s (p, r)))"
  using group_step_set [OF assms] group_step_retire [OF assms]
  by (auto simp: reap_one_def Let_def split: option.split)

lemma group_step_reap:
  assumes "pool_inv (w\<lparr>pool := p, evicting := r @ evicting w\<rparr>)"
  shows "group_step p (fst (fold (reap_one now grace) ms (p, r)))"
  using assms
proof (induction ms arbitrary: p r)
  case (Cons m ms)
  have "pool_wf p" using Cons.prems by (simp add: pool_inv_def)
  then have "group_step p (fst (reap_one now grace m (p, r)))" by (rule group_step_reap_one)
  moreover have "group_step (fst (reap_one now grace m (p, r))) (fst (fold (reap_one now grace) (m # ms) (p, r)))"
    using Cons.IH [where p = "fst (reap_one now grace m (p, r))" and r = "snd (reap_one now grace m (p, r))"]
      pool_inv_reap_one [OF Cons.prems] by simp
  ultimately show ?case by (rule group_step_trans)
qed simp

lemma group_step_claim:
  assumes "pool_wf p" "e_key (objs p (s_generation cand)) = key"
  shows "group_step p (snd (acquire_claim key cand limit p))"
proof (cases "map_of (byID p) (s_id cand)")
  case (Some a)
  then have "generation (objs p a) = a" by (rule wf_entry(4) [OF assms(1)])
  with Some assms group_step_set [OF assms(1), where a = a] show ?thesis
    by (auto simp: acquire_claim_def Let_def take_slot_def)
qed (simp add: acquire_claim_def)

lemma group_step_pool_step:
  assumes "pool_step w w'" "pool_inv w"
  shows "group_step (pool w) (pool w')"
proof -
  have wf: "pool_wf (pool w)" using assms(2) by (simp add: pool_inv_def)
  note set = group_step_set [OF wf] and rem = group_step_remove [OF wf]
  from assms(1) show ?thesis
  proof cases
    case (claim cand key limit)
    then show ?thesis using group_step_claim [OF wf, of cand key limit]
      by (auto simp: do_claim_def split_beta split: option.split)
  next
    case (new res key pin)
    then show ?thesis using group_step_new [OF wf] by (simp add: do_new_def split_beta)
  next
    case (finish a r)
    then show ?thesis
      by (auto simp: do_finish_def failCreation_def finishCreation_def Let_def split: sum.split intro!: set rem)
  next
    case (reserve i)
    then show ?thesis
      by (auto simp: do_reserve_def ReserveChecked_def take_slot_def Let_def split: option.split intro!: set)
  next
    case (release a)
    then show ?thesis by (auto simp: do_release_def pool_Release_def Let_def split: option.split intro!: set)
  next
    case (destroy i)
    then show ?thesis using group_step_retire [OF wf]
      by (auto simp: do_destroy_def DestroyChecked_def Let_def split: option.split)
  next
    case (reap now grace ms)
    then show ?thesis using group_step_reap [where w = w and p = "pool w" and r = "[]"] assms(2)
      by (simp add: do_reap_def reap_section_def split_beta)
  next
    case (evict a)
    then show ?thesis by (simp add: do_evict_def)
  qed
qed

lemma group_step_run:
  assumes "pool_step\<^sup>*\<^sup>* w w'" "pool_inv w"
  shows "group_step (pool w) (pool w') \<and> pool_inv w'"
  using assms
proof (induction rule: rtranclp_induct)
  case (step y z)
  then show ?case using group_step_pool_step group_step_trans pool_inv_step by blast
qed simp

text \<open>Equal versions before and after any run mean an unchanged group.\<close>

lemma version_pins_group:
  assumes "pool_step\<^sup>*\<^sup>* w w'" "pool_inv w" "version_of (pool w') k = version_of (pool w) k"
  shows "same_group k (pool w) (pool w')"
proof -
  have gs: "group_step (pool w) (pool w')" and inv': "pool_inv w'" using group_step_run assms by blast+
  have wf: "pool_wf (pool w)" "pool_wf (pool w')" using assms(2) inv' by (auto simp: pool_inv_def)
  show ?thesis
  proof (cases "keyVersion (pool w) k")
    case None
    then have "keyVersion (pool w') k = None"
      using assms(3) wf_parts(5) [OF wf(2), of k] by (auto simp: version_of_def split: option.splits)
    with None show ?thesis using wf_parts(4) [OF wf(1), of k] wf_parts(4) [OF wf(2), of k]
      by (auto simp: same_group_def)
  next
    case (Some v)
    then have v: "0 < v" "v \<le> nextKeyVersion (pool w)" using wf_parts(5) [OF wf(1)] by auto
    with Some assms(3) have "keyVersion (pool w') k = Some v" by (auto simp: version_of_def split: option.splits)
    with v gs show ?thesis unfolding group_step_def by force
  qed
qed

section \<open>Selection\<close>

lemma best_loop_Some:
  assumes "best_loop soft best be ss = Some s"
  shows "best = Some s \<or> s \<in> set ss \<and> occupancy s + s_reserved s < soft"
  using assms by (induction soft best be ss rule: best_loop.induct) (auto simp: Let_def split: if_splits)

lemma best_loop_mono: "best \<noteq> None \<Longrightarrow> best_loop soft best be ss \<noteq> None"
  by (induction soft best be ss rule: best_loop.induct) (auto simp: Let_def)

lemma best_loop_None:
  assumes "best_loop soft best be ss = None" "soft \<le> be"
  shows "\<forall>s\<in>set ss. soft \<le> occupancy s + s_reserved s"
  using assms
proof (induction soft best be ss rule: best_loop.induct)
  case (2 soft best be s ss)
  show ?case
  proof (cases "occupancy s + s_reserved s < soft")
    case True
    with 2(4) have "occupancy s + s_reserved s < be" by simp
    with True 2(3) have "best_loop soft (Some s) (occupancy s + s_reserved s) ss = None" by (simp add: Let_def)
    then show ?thesis using best_loop_mono [of "Some s"] by auto
  next
    case False
    with 2 show ?thesis by (simp add: Let_def)
  qed
qed simp

lemma selectCandidate_cases:
  assumes "selectCandidate ss aff soft hard = (Some s, limit)"
  shows "s \<in> set ss" "occupancy s + s_reserved s < limit" "limit = hard \<and> aff \<noteq> 0 \<and> s_id s = aff \<or> limit = soft"
proof -
  let ?f = "if aff \<noteq> 0 then find (\<lambda>s. s_id s = aff \<and> occupancy s + s_reserved s < hard) ss else None"
  have "s \<in> set ss \<and> occupancy s + s_reserved s < limit \<and> (limit = hard \<and> aff \<noteq> 0 \<and> s_id s = aff \<or> limit = soft)"
  proof (cases ?f)
    case None
    with assms best_loop_Some [of soft None MaxInt ss s] show ?thesis by (auto simp: selectCandidate_def)
  next
    case (Some x)
    with assms have x: "x = s" "limit = hard" "aff \<noteq> 0" by (auto simp: selectCandidate_def split: if_splits)
    from Some have "find (\<lambda>s. s_id s = aff \<and> occupancy s + s_reserved s < hard) ss = Some s"
      by (simp add: x split: if_splits)
    then show ?thesis using x by (auto simp: find_Some_iff)
  qed
  then show "s \<in> set ss" "occupancy s + s_reserved s < limit" "limit = hard \<and> aff \<noteq> 0 \<and> s_id s = aff \<or> limit = soft" by auto
qed

lemma selectCandidate_None:
  assumes "selectCandidate ss aff soft hard = (None, limit)" "soft \<le> MaxInt"
  shows "\<forall>s\<in>set ss. soft \<le> occupancy s + s_reserved s"
  using assms best_loop_None [of soft None MaxInt ss]
  by (auto simp: selectCandidate_def split: option.splits)

lemma measured_mem:
  "s \<in> set (measureOccupancy occ (map (\<lambda>a. snapshot_entry (objs p a)) as)) \<longleftrightarrow>
     (\<exists>a\<in>set as. s = \<lparr>s_id = e_id (objs p a), s_generation = generation (objs p a), s_revision = revision (objs p a),
        s_inst = inst (objs p a), s_reserved = reserved (objs p a),
        occupancy = (case inst (objs p a) of None \<Rightarrow> 0 | Some i \<Rightarrow> occ i)\<rparr>)"
  by (auto simp: measureOccupancy_def snapshot_entry_def instanceSnapshot.extend_def)

text \<open>The number of occupants measured for an entry.\<close>

definition measured_in :: "('t \<Rightarrow> int) \<Rightarrow> ('k, 't) Pool \<Rightarrow> nat \<Rightarrow> int" where
  "measured_in occ p a = (case inst (objs p a) of None \<Rightarrow> 0 | Some i \<Rightarrow> occ i)"

text \<open>What a pass promises, by its outcome; \<open>p0\<close> is the pool at the snapshot, \<open>p\<close> before the second section, \<open>p'\<close> after it.\<close>

fun acquire_promise ::
    "'k acquire_args \<Rightarrow> ('t \<Rightarrow> int) \<Rightarrow> ('k, 't) Pool \<Rightarrow> ('k, 't) Pool \<Rightarrow> ('k, 't) Pool \<Rightarrow> acquire_outcome \<Rightarrow> bool" where
  "acquire_promise c occ p0 p p' (Refused e) = (check_args c = Some e \<and> p' = p)"
| "acquire_promise c occ p0 p p' Retry = (p' = p \<and> \<not> same_group (a_key c) p0 p)"
| "acquire_promise c occ p0 p p' (AwaitCreation a) =
     (p' = p \<and> a \<in> snd ` set (key_group p (a_key c)) \<and> e_state (objs p a) = entryCreating)"
| "acquire_promise c occ p0 p p' (Admitted a) =
     (a \<in> snd ` set (key_group p' (a_key c)) \<and> e_state (objs p' a) = entryActive \<and>
      reserved (objs p' a) = reserved (objs p a) + 1 \<and>
      measured_in occ p0 a + reserved (objs p' a) \<le> (if affinityID c \<noteq> 0 \<and> e_id (objs p' a) = affinityID c then hardCap c else softCap c))"
| "acquire_promise c occ p0 p p' (BuildNew a) =
     ((\<forall>b\<in>snd ` set (key_group p (a_key c)). e_state (objs p b) = entryActive \<and>
         softCap c \<le> measured_in occ p b + reserved (objs p b)) \<and>
      a \<in> snd ` set (key_group p' (a_key c)) \<and> e_state (objs p' a) = entryCreating \<and> reserved (objs p' a) = 1)"

lemma group_address:
  assumes "pool_wf p" "map_of (byID p) i = Some a"
  shows "a \<in> snd ` set (key_group p (e_key (objs p a)))"
  using assms wf_group [OF assms(1), of "e_key (objs p a)" i a] map_of_SomeD [of "key_group p (e_key (objs p a))" i a]
  by force

lemma acquire_pass_claim:
  assumes run: "pool_step\<^sup>*\<^sup>* w0 w" and inv: "pool_inv w0"
    and cand: "map_of (byID (pool w0)) i = Some b" "e_key (objs (pool w0) b) = key" "e_state (objs (pool w0) b) = entryActive"
      "s_id s = e_id (objs (pool w0) b)" "s_generation s = generation (objs (pool w0) b)"
      "s_revision s = revision (objs (pool w0) b)" "s_reserved s = reserved (objs (pool w0) b)"
  shows "fst (acquire_claim key s limit (pool w)) = None \<Longrightarrow> occupancy s + s_reserved s < limit \<Longrightarrow>
      snd (acquire_claim key s limit (pool w)) = pool w \<and> \<not> same_group key (pool w0) (pool w)"
    and "fst (acquire_claim key s limit (pool w)) = Some a \<Longrightarrow> a = b \<and>
      (let p' = snd (acquire_claim key s limit (pool w)) in
       a \<in> snd ` set (key_group p' key) \<and> e_state (objs p' a) = entryActive \<and> e_id (objs p' a) = s_id s \<and>
       reserved (objs p' a) = reserved (objs (pool w) a) + 1 \<and> occupancy s + reserved (objs p' a) \<le> limit)"
proof -
  have gs: "group_step (pool w0) (pool w)" and inv': "pool_inv w" using group_step_run [OF run inv] by auto
  have wf0: "pool_wf (pool w0)" and wf: "pool_wf (pool w)" using inv inv' by (auto simp: pool_inv_def)
  have b: "generation (objs (pool w0) b) = b" "b \<le> nextGeneration (pool w0)" "e_id (objs (pool w0) b) = i"
    using wf_entry [OF wf0 cand(1)] by auto
  have key: "e_key (objs (pool w) b) = key" using gs b(2) cand(2) by (simp add: group_step_def)
  show "snd (acquire_claim key s limit (pool w)) = pool w \<and> \<not> same_group key (pool w0) (pool w)"
    if "fst (acquire_claim key s limit (pool w)) = None" "occupancy s + s_reserved s < limit"
  proof
    show "snd (acquire_claim key s limit (pool w)) = pool w"
      using that by (auto simp: acquire_claim_def Let_def split: option.splits if_splits)
    show "\<not> same_group key (pool w0) (pool w)"
    proof
      assume sg: "same_group key (pool w0) (pool w)"
      have m: "b \<in> snd ` set (key_group (pool w0) key)" using group_address [OF wf0 cand(1)] cand(2) by simp
      with sg have eq: "objs (pool w) b = objs (pool w0) b" and mem: "b \<in> snd ` set (key_group (pool w) key)"
        by (auto simp: same_group_def)
      from group_member(1) [OF wf mem] eq have "map_of (byID (pool w)) (s_id s) = Some b" by (simp add: cand)
      with eq cand(3-7) that show False by (simp add: acquire_claim_def Let_def)
    qed
  qed
  assume "fst (acquire_claim key s limit (pool w)) = Some a"
  then have a: "map_of (byID (pool w)) (s_id s) = Some a" "e_state (objs (pool w) a) = entryActive"
    "generation (objs (pool w) a) = s_generation s" "occupancy s + reserved (objs (pool w) a) < limit"
    and p': "snd (acquire_claim key s limit (pool w)) = bumpKeyVersionLocked key (take_slot a (pool w))"
    by (auto simp: acquire_claim_def Let_def split: option.splits if_splits)
  have "a = b" using wf_entry(4) [OF wf a(1)] a(3) cand(5) b(1) by simp
  moreover from this have "a \<in> snd ` set (key_group (pool w) key)" using group_address [OF wf a(1)] key by simp
  ultimately show "a = b \<and>
      (let p' = snd (acquire_claim key s limit (pool w)) in
       a \<in> snd ` set (key_group p' key) \<and> e_state (objs p' a) = entryActive \<and> e_id (objs p' a) = s_id s \<and>
       reserved (objs p' a) = reserved (objs (pool w) a) + 1 \<and> occupancy s + reserved (objs p' a) \<le> limit)"
    using a wf_entry(1) [OF wf a(1)] by (simp add: p' take_slot_def Let_def)
qed

lemma acquire_pass_create:
  assumes run: "pool_step\<^sup>*\<^sup>* w0 w" and inv: "pool_inv w0"
    and es: "set es = snd ` set (key_group (pool w0) (a_key c))"
    and full: "\<forall>b\<in>set es. e_state (objs (pool w0) b) = entryActive \<longrightarrow>
         softCap c \<le> measured_in occ (pool w0) b + reserved (objs (pool w0) b)"
    and eq: "acquire_create (a_key c) (find (\<lambda>a. e_state (objs (pool w0) a) = entryCreating) es)
         (version_of (pool w0) (a_key c)) (pool w) = (out, p')"
  shows "acquire_promise c occ (pool w0) (pool w) p' out"
proof (cases "version_of (pool w) (a_key c) = version_of (pool w0) (a_key c)")
  case False
  then have "\<not> same_group (a_key c) (pool w0) (pool w)" by (auto simp: same_group_def version_of_def)
  with False eq show ?thesis by (auto simp: acquire_create_def)
next
  case True
  have sg: "same_group (a_key c) (pool w0) (pool w)" by (rule version_pins_group [OF run inv True])
  then have grp: "snd ` set (key_group (pool w) (a_key c)) = set es" "\<forall>b\<in>set es. objs (pool w) b = objs (pool w0) b"
    using es by (auto simp: same_group_def)
  have wf: "pool_wf (pool w)" using group_step_run [OF run inv] by (simp add: pool_inv_def)
  show ?thesis
  proof (cases "find (\<lambda>a. e_state (objs (pool w0) a) = entryCreating) es")
    case (Some a)
    with eq True have "out = AwaitCreation a" "p' = pool w" by (auto simp: acquire_create_def)
    moreover have "a \<in> set es \<and> e_state (objs (pool w0) a) = entryCreating" using Some by (auto simp: find_Some_iff)
    ultimately show ?thesis using grp by simp
  next
    case None
    let ?a = "Suc (nextGeneration (pool w))" and ?p = "snd (newEntryLocked (a_key c) False 1 (pool w))"
    have out: "out = BuildNew ?a" "p' = ?p"
      using eq True None live_new(1) [OF wf, of "a_key c" False 1] by (auto simp: acquire_create_def split_beta)
    have "live ?p ?a \<noteq> None" using live_new(2) [OF wf, of "a_key c" False 1] by simp
    then have "map_of (byID ?p) (e_id (objs ?p ?a)) = Some ?a"
      and obj: "Some (objs ?p ?a) = live ?p ?a" by (auto simp: live_def indexed_def split: if_splits)
    from this(1) have "?a \<in> snd ` set (key_group ?p (e_key (objs ?p ?a)))" by (rule group_address [OF wf_newEntry [OF wf]])
    moreover have "e_key (objs ?p ?a) = a_key c" "e_state (objs ?p ?a) = entryCreating" "reserved (objs ?p ?a) = 1"
      using obj live_new(2) [OF wf, of "a_key c" False 1] by simp_all
    moreover have "e_state (objs (pool w) b) = entryActive \<and> softCap c \<le> measured_in occ (pool w) b + reserved (objs (pool w) b)"
      if "b \<in> set es" for b
    proof -
      have "e_state (objs (pool w0) b) \<noteq> entryCreating" using None that by (simp add: find_None_iff)
      moreover have "e_state (objs (pool w) b) \<noteq> entryDestroying"
        using group_member(1) [OF wf, of b "a_key c"] wf_entry(5) [OF wf] grp(1) that by auto
      ultimately show ?thesis using grp(2) full that by (cases "e_state (objs (pool w) b)") (auto simp: measured_in_def)
    qed
    ultimately show ?thesis using grp by (simp add: out)
  qed
qed

section \<open>Properties\<close>

text \<open>
  Property C20. In every interleaving the two indexes agree: an entry is found under an identifier
  and in the group of a key exactly when it is the live entry with that identifier and key; no
  entry that is being destroyed is found; the placeholders are exactly those whose instance is
  being built, and no build ever finds its placeholder gone, so \<^verbatim>\<open>finishCreation\<close> does not panic.
\<close>

theorem pool_indexes_agree:
  assumes "pool_reach onEvict idBase mem w"
  shows "\<not> panicked w \<and>
    (\<forall>k i a. map_of (key_group (pool w) k) i = Some a \<longleftrightarrow> map_of (byID (pool w)) i = Some a \<and> e_key (objs (pool w) a) = k) \<and>
    (\<forall>i a. map_of (byID (pool w)) i = Some a \<longrightarrow> e_id (objs (pool w) a) = i \<and> e_state (objs (pool w) a) \<noteq> entryDestroying) \<and>
    (\<forall>a. a \<in> set (building w) \<longleftrightarrow> indexed (pool w) a \<and> e_state (objs (pool w) a) = entryCreating)"
proof -
  have inv: "pool_inv w" using assms by (rule pool_inv_reach)
  then have wf: "pool_wf (pool w)" and p: "\<not> panicked w"
    and li: "live_inv (live (pool w)) (nextGeneration (pool w)) (building w) (holders w) (evicting w @ closed_insts (events w))"
    by (auto simp: pool_inv_def)
  have "a \<in> set (building w) \<longleftrightarrow> indexed (pool w) a \<and> e_state (objs (pool w) a) = entryCreating" for a
    using li by (auto simp: live_inv_def live_Some)
  then show ?thesis using p wf_group [OF wf] wf_entry [OF wf] by blast
qed

text \<open>
  Property C21. Whoever holds a reservation finds the instance: it is active, its reservation count
  is the number of holders, and it is neither being evicted nor closed, whatever \<^verbatim>\<open>Reap\<close> and
  \<^verbatim>\<open>DestroyChecked\<close> do meanwhile. And every instance is closed at most once, after it has left
  both indexes.
\<close>

theorem reserved_instance_stays:
  assumes "pool_reach onEvict idBase mem w"
  shows "(\<forall>a\<in>set (holders w). pool_Get (e_id (objs (pool w) a)) (pool w) = inst (objs (pool w) a) \<and>
            inst (objs (pool w) a) \<noteq> None \<and> reserved (objs (pool w) a) = int (count_list (holders w) a) \<and>
            a \<notin> set (evicting w) \<and> InstanceClose a \<notin> set (events w)) \<and>
         distinct (evicting w @ closed_insts (events w)) \<and>
         (\<forall>a\<in>set (evicting w @ closed_insts (events w)). \<not> indexed (pool w) a)"
proof -
  have inv: "pool_inv w" using assms by (rule pool_inv_reach)
  then have wf: "pool_wf (pool w)"
    and li: "live_inv (live (pool w)) (nextGeneration (pool w)) (building w) (holders w) (evicting w @ closed_insts (events w))"
    by (auto simp: pool_inv_def)
  have gone: "distinct (evicting w @ closed_insts (events w))"
    "\<forall>a\<in>set (evicting w @ closed_insts (events w)). \<not> indexed (pool w) a"
    using li by (auto simp: live_inv_def live_def split: if_splits)
  have closed: "InstanceClose a \<in> set evs \<Longrightarrow> a \<in> set (closed_insts evs)" for a evs
    by (auto simp: closed_insts_def)
  have "pool_Get (e_id (objs (pool w) a)) (pool w) = inst (objs (pool w) a) \<and>
      inst (objs (pool w) a) \<noteq> None \<and> reserved (objs (pool w) a) = int (count_list (holders w) a) \<and>
      a \<notin> set (evicting w) \<and> InstanceClose a \<notin> set (events w)" if "a \<in> set (holders w)" for a
  proof -
    have ix: "indexed (pool w) a" "e_state (objs (pool w) a) = entryActive"
      using li that by (auto simp: live_inv_def live_Some)
    then have m: "map_of (byID (pool w)) (e_id (objs (pool w) a)) = Some a" by (simp add: indexed_def)
    with ix show ?thesis
      using wf_entry(6) [OF wf m] pool_inv_indexed(3) [OF inv m] gone(2) closed [of a "events w"]
      by (auto simp: pool_Get_def)
  qed
  with gone show ?thesis by blast
qed

text \<open>
  One pass of \<^verbatim>\<open>AcquireChecked\<close> whose snapshot was taken in \<open>w0\<close> and whose second
  section runs in \<open>w\<close>, with any steps of other goroutines in between. An admission takes one slot
  of an active instance of the key and keeps the measured occupants plus reservations within the
  soft limit (the hard limit for the instance asked for by affinity). A new instance is built only
  if, at that moment, every instance of the key is active and at the soft limit - none has room and
  none is being built. The pass waits only for an instance of the key that is being built, and it
  is repeated only if the group of the key was changed by others since the snapshot.
\<close>

theorem acquire_pass_sound:
  assumes "pool_reach onEvict idBase mem w0" "pool_step\<^sup>*\<^sup>* w0 w"
    and "mset es = mset (map snd (key_group (pool w0) (a_key c)))" "softCap c \<le> MaxInt"
    and "acquire_pass c occ es (pool w0) (pool w) = (out, p')"
  shows "acquire_promise c occ (pool w0) (pool w) p' out"
proof (cases "check_args c")
  case (Some e)
  with assms(5) show ?thesis by (auto simp: acquire_pass_def)
next
  case None
  have inv: "pool_inv w0" by (rule pool_inv_reach [OF assms(1)])
  then have wf0: "pool_wf (pool w0)" by (simp add: pool_inv_def)
  have es: "set es = snd ` set (key_group (pool w0) (a_key c))"
    using mset_eq_setD [OF assms(3)] by simp
  let ?act = "filter (\<lambda>a. e_state (objs (pool w0) a) = entryActive) es"
  let ?ms = "measureOccupancy occ (map (\<lambda>a. snapshot_entry (objs (pool w0) a)) ?act)"
  obtain cand limit where sel: "selectCandidate ?ms (affinityID c) (softCap c) (hardCap c) = (cand, limit)" by fastforce
  show ?thesis
  proof (cases cand)
    case None': None
    have full: "\<forall>s\<in>set ?ms. softCap c \<le> occupancy s + s_reserved s"
      using selectCandidate_None sel None' assms(4) by blast
    have "softCap c \<le> measured_in occ (pool w0) b + reserved (objs (pool w0) b)"
      if b: "b \<in> set es" "e_state (objs (pool w0) b) = entryActive" for b
    proof -
      let ?s = "\<lparr>s_id = e_id (objs (pool w0) b), s_generation = generation (objs (pool w0) b), s_revision = revision (objs (pool w0) b),
        s_inst = inst (objs (pool w0) b), s_reserved = reserved (objs (pool w0) b),
        occupancy = (case inst (objs (pool w0) b) of None \<Rightarrow> 0 | Some i \<Rightarrow> occ i)\<rparr>"
      have "?s \<in> set ?ms" using b by (subst measured_mem) auto
      with full show ?thesis by (auto simp: measured_in_def)
    qed
    moreover have "acquire_create (a_key c) (find (\<lambda>a. e_state (objs (pool w0) a) = entryCreating) es)
         (version_of (pool w0) (a_key c)) (pool w) = (out, p')"
      using assms(5) None sel None' by (simp add: acquire_pass_def snapshotGroup_def)
    ultimately show ?thesis using acquire_pass_create [OF assms(2) inv es] by blast
  next
    case (Some s)
    note sc = selectCandidate_cases [OF sel [unfolded Some]]
    obtain b where b: "b \<in> set es" "e_state (objs (pool w0) b) = entryActive" "s_id s = e_id (objs (pool w0) b)"
      "s_generation s = generation (objs (pool w0) b)" "s_revision s = revision (objs (pool w0) b)"
      "s_reserved s = reserved (objs (pool w0) b)" "occupancy s = measured_in occ (pool w0) b"
      using sc(1) by (auto simp: measured_mem measured_in_def)
    have m: "map_of (byID (pool w0)) (e_id (objs (pool w0) b)) = Some b" "e_key (objs (pool w0) b) = a_key c"
      using group_member [OF wf0, of b "a_key c"] b(1) es by auto
    note claim = acquire_pass_claim [OF assms(2) inv m b(2-6), of limit]
    have args: "softCap c \<le> hardCap c" using None by (auto simp: check_args_def split: if_splits)
    have eq: "(case acquire_claim (a_key c) s limit (pool w) of (Some a, p) \<Rightarrow> (Admitted a, p) | (None, p) \<Rightarrow> (Retry, p)) = (out, p')"
      using assms(5) None sel Some by (simp add: acquire_pass_def snapshotGroup_def)
    show ?thesis
    proof (cases "fst (acquire_claim (a_key c) s limit (pool w))")
      case None
      with eq claim(1) sc(2) show ?thesis by (auto simp: split_beta)
    next
      case (Some a)
      with eq have "out = Admitted a" "p' = snd (acquire_claim (a_key c) s limit (pool w))" by (auto simp: split_beta)
      with claim(2) [OF Some] sc(3) args b(7) show ?thesis by (auto simp: Let_def)
    qed
  qed
qed

section \<open>Concrete executions\<close>

definition blank_mem :: "nat \<Rightarrow> (string, nat) pool_entry" where
  "blank_mem = (\<lambda>_. \<lparr>e_id = 0, generation = 0, revision = 0, e_key = [], inst = None, e_state = entryDestroying,
     ready = False, pinned = False, reserved = 0, emptySince = 0\<rparr>)"

text \<open>A room is created for a first player; the second configuration has it built.\<close>

definition run_created :: "(string, nat) pool_world" where
  "run_created = do_new ''room'' False 1 (pool_init True 0 blank_mem)"

definition run_built :: "(string, nat) pool_world" where
  "run_built = do_finish 1 (Built 42) run_created"

lemmas pool_eval = run_created_def run_built_def do_new_def do_finish_def pool_init_def NewPoolWithBase_def
  newEntryLocked_def Let_def set_obj_def bumpKeyVersionLocked_def key_group_def invokeBuild_def
  finishCreation_def closed_insts_def indexed_def blank_mem_def

lemma run_created_reach: "pool_reach True 0 blank_mem run_created"
  unfolding run_created_def by (rule r_into_rtranclp [where r = pool_step, OF new]) simp

lemma run_built_reach: "pool_reach True 0 blank_mem run_built"
  unfolding run_built_def
  by (rule rtranclp.rtrancl_into_rtrancl [OF run_created_reach finish]) (simp add: pool_eval)

theorem pool_indexes_agree_witness:
  "building run_created = [1] \<and> indexed (pool run_created) 1 \<and> e_state (objs (pool run_created) 1) = entryCreating"
proof -
  have "building run_created = [1]" by (simp add: pool_eval)
  with pool_indexes_agree [OF run_created_reach] show ?thesis by (metis list.set_intros(1))
qed

theorem reserved_instance_stays_witness:
  "holders run_built = [1] \<and> pool_Get 1 (pool run_built) = Some 42 \<and> 1 \<notin> set (evicting run_built)"
proof -
  have "holders run_built = [1]" "e_id (objs (pool run_built) 1) = 1" "inst (objs (pool run_built) 1) = Some 42"
    by (simp_all add: pool_eval)
  with reserved_instance_stays [OF run_built_reach] show ?thesis by simp
qed

theorem acquire_pass_sound_witness:
  "\<exists>p'. acquire_pass \<lparr>a_key = ''room'', affinityID = 0, softCap = 2, hardCap = 3, hasBuild = True\<rparr> (\<lambda>_. 0) [1]
       (pool run_built) (pool run_built) = (Admitted 1, p') \<and>
     0 + reserved (objs p' 1) \<le> 2"
proof -
  let ?c = "\<lparr>a_key = ''room'', affinityID = 0, softCap = 2, hardCap = 3, hasBuild = True\<rparr>"
  let ?r = "acquire_pass ?c (\<lambda>_. 0) [1] (pool run_built) (pool run_built)"
  have out: "fst ?r = Admitted 1"
    by (simp add: pool_eval acquire_pass_def check_args_def snapshotGroup_def snapshot_entry_def measureOccupancy_def
        instanceSnapshot.extend_def selectCandidate_def MaxInt_def acquire_claim_def take_slot_def version_of_def)
  have es: "mset [1] = mset (map snd (key_group (pool run_built) (a_key ?c)))" by (simp add: pool_eval)
  have "acquire_promise ?c (\<lambda>_. 0) (pool run_built) (pool run_built) (snd ?r) (Admitted 1)"
    by (rule acquire_pass_sound [OF run_built_reach rtranclp.rtrancl_refl es])
       (simp_all add: MaxInt_def prod_eq_iff out [simplified])
  then have "0 + reserved (objs (snd ?r) 1) \<le> 2"
    by (auto simp: measured_in_def split: option.splits if_splits)
  with out show ?thesis by (metis prod.collapse)
qed

end
