(* ===== verification/Ownership.thy ===== *)
theory Ownership
  imports Prelude "HOL-Library.Multiset"
begin

text \<open>
  \<^verbatim>\<open>zDistributed/ownership.go\<close> and \<^verbatim>\<open>etcd_ownership.go\<close>: exclusive ownership of a resource with a
  fencing epoch. etcd is outside the repository: its state and the calls the code makes are the
  fields of a record \<open>etcd\<close> that the definitions take as an argument, and \<open>etcd_laws\<close> states the
  documented behaviour the code relies on (atomic transactions, revisions that only grow).

  A call over the network can fail after the server executed it, so a failed call either took
  effect or not, which is an input of the operation.
\<close>

section \<open>etcd\<close>

record kv =
  kv_value :: string
  kv_mod :: int
  kv_lease :: int
  kv_version :: int

datatype cmp =
    CmpValue string string
  | CmpModRevision string int
  | CmpLease string int
  | CmpVersion string int

datatype etcd_op = OpPut string string int | OpGet string | OpDelete string


record 's etcd =
  et_ok :: "'s \<Rightarrow> bool"
  et_kv :: "'s \<Rightarrow> string \<Rightarrow> kv option"
  et_rev :: "'s \<Rightarrow> int"
  et_txn :: "'s \<Rightarrow> cmp list \<Rightarrow> etcd_op list \<Rightarrow> bool \<times> 's"
  et_revoke :: "'s \<Rightarrow> int \<Rightarrow> 's"



section \<open>Strings\<close>

text \<open>\<^verbatim>\<open>base64.RawURLEncoding.EncodeToString\<close>: three bytes become four characters, no padding.\<close>

definition b64_alphabet :: string where
  "b64_alphabet = ''ABCDEFGHIJKLMNOPQRSTUVWXYZabcdefghijklmnopqrstuvwxyz0123456789-_''"

definition b64_char :: "nat \<Rightarrow> char" where
  "b64_char n = b64_alphabet ! n"

fun base64 :: "string \<Rightarrow> string" where
  "base64 (a # b # c # s) =
     (let n = 65536 * of_char a + 256 * of_char b + of_char c
      in b64_char (n div 262144) # b64_char (n div 4096 mod 64) # b64_char (n div 64 mod 64) # b64_char (n mod 64) # base64 s)"
| "base64 [a, b] =
     (let n = 65536 * of_char a + 256 * of_char b
      in [b64_char (n div 262144), b64_char (n div 4096 mod 64), b64_char (n div 64 mod 64)])"
| "base64 [a] = (let n = 65536 * of_char a in [b64_char (n div 262144), b64_char (n div 4096 mod 64)])"
| "base64 [] = []"

section \<open>Records and handles\<close>

datatype own_error =
    ErrOwnershipConflict string int
  | ErrOwnershipLost
  | ErrInvalidOwnershipConfig string
  | EtcdError string
  | ReleaseFailedAndLost

record OwnershipRecord =
  ResourceKey :: string
  OwnerToken :: string
  Epoch :: int
  LeaseID :: int
  Revision :: int

definition ownershipRecordFromKV :: "string \<Rightarrow> kv option \<Rightarrow> OwnershipRecord" where
  "ownershipRecordFromKV resourceKey e =
     (case e of
        None \<Rightarrow> \<lparr>ResourceKey = resourceKey, OwnerToken = [], Epoch = 0, LeaseID = 0, Revision = 0\<rparr>
      | Some e \<Rightarrow> \<lparr>ResourceKey = resourceKey, OwnerToken = kv_value e, Epoch = kv_mod e, LeaseID = kv_lease e, Revision = kv_mod e\<rparr>)"

datatype ownershipHandleState = ownershipHandleActive | ownershipHandleReleased | ownershipHandleLost

text \<open>The shared life cycle of the copies of a handle; \<open>done\<close> says that the channel is closed.\<close>

record ownershipHandleLifecycle =
  state :: ownershipHandleState
  done_closed :: bool
  finishOnce :: bool
  releaseIntent :: bool
  lossObserved :: bool
  keepalive_cancelled :: bool

record OwnershipHandle =
  h_record :: OwnershipRecord
  h_ownerKey :: string
  lifecycle :: ownershipHandleLifecycle

definition newOwnershipHandle :: "OwnershipRecord \<Rightarrow> string \<Rightarrow> OwnershipHandle" where
  "newOwnershipHandle r k =
     \<lparr>h_record = r, h_ownerKey = k,
      lifecycle = \<lparr>state = ownershipHandleActive, done_closed = False, finishOnce = False, releaseIntent = False,
        lossObserved = False, keepalive_cancelled = False\<rparr>\<rparr>"

definition Valid :: "OwnershipHandle \<Rightarrow> bool" where
  "Valid h \<longleftrightarrow> state (lifecycle h) = ownershipHandleActive"

definition Lost :: "OwnershipHandle \<Rightarrow> bool" where
  "Lost h \<longleftrightarrow> state (lifecycle h) = ownershipHandleLost"

definition own_comparisons :: "OwnershipHandle \<Rightarrow> cmp list" where
  "own_comparisons h =
     [CmpValue (h_ownerKey h) (OwnerToken (h_record h)), CmpModRevision (h_ownerKey h) (Revision (h_record h)),
      CmpLease (h_ownerKey h) (LeaseID (h_record h))]"

definition OwnershipComparisons :: "OwnershipHandle \<Rightarrow> own_error + cmp list" where
  "OwnershipComparisons h = (if \<not> Valid h then Inl ErrOwnershipLost else Inr (own_comparisons h))"

definition handle_finish :: "ownershipHandleState \<Rightarrow> OwnershipHandle \<Rightarrow> OwnershipHandle" where
  "handle_finish st h =
     (if finishOnce (lifecycle h) then h
      else h\<lparr>lifecycle := (lifecycle h)\<lparr>finishOnce := True, state := st, keepalive_cancelled := True, done_closed := True\<rparr>\<rparr>)"

definition markLost :: "OwnershipHandle \<Rightarrow> OwnershipHandle" where
  "markLost h = handle_finish ownershipHandleLost h"

section \<open>The store\<close>

record EtcdOwnershipStore =
  client_nil :: bool
  prefix :: string
  leaseTTL :: int

definition defaultOwnershipPrefix :: string where "defaultOwnershipPrefix = ''/ownership/''"

definition NewEtcdOwnershipStore :: "bool \<Rightarrow> string \<Rightarrow> int \<Rightarrow> EtcdOwnershipStore" where
  "NewEtcdOwnershipStore nocl optPrefix optTTL =
     (let prefix = TrimSpace optPrefix;
          prefix = (if prefix = [] then defaultOwnershipPrefix else prefix);
          prefix = (if last prefix \<noteq> CHR ''/'' then prefix @ ''/'' else prefix);
          ttl = (if optTTL \<le> 0 then 30 else optTTL)
      in \<lparr>client_nil = nocl, prefix = prefix, leaseTTL = ttl\<rparr>)"

definition ownerKey :: "EtcdOwnershipStore \<Rightarrow> string \<Rightarrow> string" where
  "ownerKey st resourceKey = prefix st @ base64 resourceKey"

definition validateResource :: "EtcdOwnershipStore \<Rightarrow> string \<Rightarrow> own_error option" where
  "validateResource st resourceKey =
     (if client_nil st then Some (ErrInvalidOwnershipConfig ''nil etcd client'')
      else if TrimSpace (prefix st) = [] \<or> leaseTTL st \<le> 0 then Some (ErrInvalidOwnershipConfig ''invalid store options'')
      else if TrimSpace resourceKey = [] then Some (ErrInvalidOwnershipConfig ''empty resource key'')
      else None)"






section \<open>Operations\<close>









text \<open>
  \<^verbatim>\<open>Release\<close> in its atomic parts, between which the monitor of the handle runs.
\<close>

definition set_intent :: "bool \<Rightarrow> OwnershipHandle \<Rightarrow> OwnershipHandle" where
  "set_intent b h = h\<lparr>lifecycle := (lifecycle h)\<lparr>releaseIntent := b\<rparr>\<rparr>"

definition release_check :: "bool \<Rightarrow> OwnershipHandle \<Rightarrow> own_error option + unit" where
  "release_check own h =
     (if \<not> own then Inl (Some (ErrInvalidOwnershipConfig ''handle does not belong to store''))
      else if state (lifecycle h) = ownershipHandleReleased then Inl None
      else if state (lifecycle h) \<noteq> ownershipHandleActive then Inl (Some ErrOwnershipLost)
      else Inr ())"

definition release_failed :: "OwnershipHandle \<Rightarrow> own_error \<times> OwnershipHandle" where
  "release_failed h =
     (if lossObserved (lifecycle h) then (ReleaseFailedAndLost, markLost h) else (EtcdError ''release ownership'', h))"


definition getSnapshot ::
    "'s etcd \<Rightarrow> EtcdOwnershipStore \<Rightarrow> bool \<Rightarrow> string \<Rightarrow> 's \<Rightarrow> own_error + (OwnershipRecord \<times> bool \<times> int)" where
  "getSnapshot E st answered resourceKey s =
     (case validateResource st resourceKey of
        Some e \<Rightarrow> Inl e
      | None \<Rightarrow>
          if \<not> answered then Inl (EtcdError ''get ownership'')
          else case et_kv E s (ownerKey st resourceKey) of
                 None \<Rightarrow> Inr (\<lparr>ResourceKey = [], OwnerToken = [], Epoch = 0, LeaseID = 0, Revision = 0\<rparr>, False, et_rev E s)
               | Some e \<Rightarrow> Inr (ownershipRecordFromKV resourceKey (Some e), True, et_rev E s))"

definition own_Get ::
    "'s etcd \<Rightarrow> EtcdOwnershipStore \<Rightarrow> bool \<Rightarrow> string \<Rightarrow> 's \<Rightarrow> own_error + (OwnershipRecord \<times> bool)" where
  "own_Get E st answered resourceKey s =
     (case getSnapshot E st answered resourceKey s of Inl e \<Rightarrow> Inl e | Inr (r, found, _) \<Rightarrow> Inr (r, found))"

section \<open>The monitor of a handle\<close>

datatype etcd_event_type = EventPut | EventDelete

record etcd_event =
  ev_type :: etcd_event_type
  ev_kv :: "kv option"
  ev_prev :: "kv option"

text \<open>Whether a watch response shows that the owner record is no longer that of the handle.\<close>

definition event_shows_loss :: "OwnershipHandle \<Rightarrow> etcd_event \<Rightarrow> bool" where
  "event_shows_loss h ev \<longleftrightarrow>
     ev_type ev = EventDelete \<or>
     (case ev_kv ev of None \<Rightarrow> True
      | Some e \<Rightarrow> kv_mod e \<noteq> Revision (h_record h) \<or> kv_value e \<noteq> OwnerToken (h_record h) \<or> kv_lease e \<noteq> LeaseID (h_record h))"

datatype monitor_input = KeepAlive_closed | Watch_ended | Watch_events "etcd_event list" | KeepAlive_answer | Handle_done

definition monitor_stops :: "OwnershipHandle \<Rightarrow> monitor_input \<Rightarrow> bool" where
  "monitor_stops h inp =
     (case inp of
        KeepAlive_closed \<Rightarrow> True
      | Watch_ended \<Rightarrow> True
      | Watch_events evs \<Rightarrow> list_ex (event_shows_loss h) evs
      | _ \<Rightarrow> False)"

definition set_observed :: "OwnershipHandle \<Rightarrow> OwnershipHandle" where
  "set_observed h = h\<lparr>lifecycle := (lifecycle h)\<lparr>lossObserved := True\<rparr>\<rparr>"


section \<open>Facts about etcd\<close>





section \<open>Executions\<close>
















section \<open>Owner keys\<close>















declare base64.simps [simp del]



section \<open>The monitor and Release\<close>

text \<open>
  The monitor of a handle and \<^verbatim>\<open>Release\<close> share four atomic variables. \<open>rel_pc\<close> is where the call of
  \<^verbatim>\<open>Release\<close> stands that holds \<^verbatim>\<open>releaseMu\<close>, \<open>mon_pc\<close> where the monitor stands. Other calls
  (\<^verbatim>\<open>Validate\<close>, \<^verbatim>\<open>GuardedTxn\<close>, \<^verbatim>\<open>Renew\<close>) may mark the handle as lost at any time.
\<close>

datatype rel_pc = Rel_idle | Rel_txn | Rel_failed
datatype mon_pc = Mon_watching | Mon_stored | Mon_marking | Mon_exited

record life =
  hnd :: OwnershipHandle
  rel :: rel_pc
  mon :: mon_pc

inductive life_step :: "life \<Rightarrow> life \<Rightarrow> bool" where
  rel_start: "rel x = Rel_idle \<Longrightarrow> release_check True (hnd x) = Inr () \<Longrightarrow>
     life_step x (x\<lparr>hnd := set_intent True (hnd x), rel := Rel_txn\<rparr>)"
| rel_error: "rel x = Rel_txn \<Longrightarrow> life_step x (x\<lparr>hnd := set_intent False (hnd x), rel := Rel_failed\<rparr>)"
| rel_error_end: "rel x = Rel_failed \<Longrightarrow> life_step x (x\<lparr>hnd := snd (release_failed (hnd x)), rel := Rel_idle\<rparr>)"
| rel_refused: "rel x = Rel_txn \<Longrightarrow> life_step x (x\<lparr>hnd := markLost (hnd x), rel := Rel_idle\<rparr>)"
| rel_deleted: "rel x = Rel_txn \<Longrightarrow> life_step x (x\<lparr>hnd := handle_finish ownershipHandleReleased (hnd x), rel := Rel_idle\<rparr>)"
| mon_loss: "mon x = Mon_watching \<Longrightarrow> monitor_stops (hnd x) inp \<Longrightarrow>
     life_step x (x\<lparr>hnd := set_observed (hnd x), mon := Mon_stored\<rparr>)"
| mon_done: "mon x = Mon_watching \<Longrightarrow> done_closed (lifecycle (hnd x)) \<Longrightarrow> life_step x (x\<lparr>mon := Mon_exited\<rparr>)"
| mon_load: "mon x = Mon_stored \<Longrightarrow>
     life_step x (x\<lparr>mon := if \<not> releaseIntent (lifecycle (hnd x)) then Mon_marking else Mon_exited\<rparr>)"
| mon_mark: "mon x = Mon_marking \<Longrightarrow> life_step x (x\<lparr>hnd := markLost (hnd x), mon := Mon_exited\<rparr>)"
| other_loss: "life_step x (x\<lparr>hnd := markLost (hnd x)\<rparr>)"

definition life_init :: "OwnershipRecord \<Rightarrow> string \<Rightarrow> life" where
  "life_init r k = \<lparr>hnd = newOwnershipHandle r k, rel = Rel_idle, mon = Mon_watching\<rparr>"

definition life_inv :: "life \<Rightarrow> bool" where
  "life_inv x \<longleftrightarrow>
     (let l = lifecycle (hnd x) in
      (finishOnce l \<longleftrightarrow> state l \<noteq> ownershipHandleActive) \<and> (done_closed l \<longleftrightarrow> finishOnce l) \<and>
      (keepalive_cancelled l \<longleftrightarrow> finishOnce l) \<and>
      (releaseIntent l \<and> \<not> finishOnce l \<longrightarrow> rel x = Rel_txn) \<and>
      (mon x \<noteq> Mon_watching \<and> \<not> finishOnce l \<longrightarrow> lossObserved l) \<and>
      (mon x = Mon_exited \<and> \<not> finishOnce l \<longrightarrow> rel x \<noteq> Rel_idle))"

lemmas handle_defs = handle_finish_def markLost_def set_intent_def set_observed_def release_failed_def

lemma life_inv_step: "life_step x y \<Longrightarrow> life_inv x \<Longrightarrow> life_inv y"
  by (induction rule: life_step.induct)
     (auto simp: life_inv_def handle_defs Let_def release_check_def split: if_splits)

lemma life_inv_reach: "life_step\<^sup>*\<^sup>* (life_init r k) x \<Longrightarrow> life_inv x"
proof (induction rule: rtranclp_induct)
  case base
  show ?case by (simp add: life_inv_def life_init_def newOwnershipHandle_def)
next
  case (step y z)
  then show ?case by (blast intro: life_inv_step)
qed

lemma life_step_final:
  assumes "life_step x y" "life_inv x" "state (lifecycle (hnd x)) \<noteq> ownershipHandleActive"
  shows "state (lifecycle (hnd y)) = state (lifecycle (hnd x))"
  using assms
  by (induction rule: life_step.induct) (auto simp: handle_defs life_inv_def Let_def)

section \<open>Watching an owner\<close>

datatype OwnershipEventType = OwnershipEventAcquired | OwnershipEventChanged | OwnershipEventReleased

record OwnershipEvent =
  oe_Type :: OwnershipEventType
  oe_Record :: OwnershipRecord
  oe_Revision :: int

definition ownershipEventFromEtcd :: "string \<Rightarrow> etcd_event \<Rightarrow> OwnershipEvent option" where
  "ownershipEventFromEtcd resourceKey ev =
     (case ev_kv ev of
        None \<Rightarrow> None
      | Some e \<Rightarrow>
          if ev_type ev = EventDelete
          then Some \<lparr>oe_Type = OwnershipEventReleased, oe_Record = ownershipRecordFromKV resourceKey (ev_prev ev), oe_Revision = kv_mod e\<rparr>
          else let r = ownershipRecordFromKV resourceKey (Some e)
               in Some \<lparr>oe_Type = (case ev_prev ev of None \<Rightarrow> OwnershipEventAcquired
                          | Some o' \<Rightarrow> if kv_version o' = 0 then OwnershipEventAcquired else OwnershipEventChanged),
                        oe_Record = r, oe_Revision = Revision r\<rparr>)"

text \<open>The local variables of \<^verbatim>\<open>watchLoop\<close> and the events it has sent.\<close>

record watch_loop =
  lastRecord :: OwnershipRecord
  present :: bool
  lastEventRevision :: int
  nextRevision :: int
  sent :: "OwnershipEvent list"

definition watch_start :: "OwnershipRecord \<Rightarrow> bool \<Rightarrow> int \<Rightarrow> watch_loop" where
  "watch_start r found headerRevision =
     \<lparr>lastRecord = r, present = found, lastEventRevision = (if found then Revision r else 0),
      nextRevision = (if headerRevision + 1 \<le> 0 then 1 else headerRevision + 1),
      sent = (if found then [\<lparr>oe_Type = OwnershipEventAcquired, oe_Record = r, oe_Revision = Revision r\<rparr>] else [])\<rparr>"

definition watch_event :: "string \<Rightarrow> etcd_event \<Rightarrow> watch_loop \<Rightarrow> watch_loop" where
  "watch_event resourceKey ev x =
     (case ownershipEventFromEtcd resourceKey ev of
        None \<Rightarrow> x
      | Some e \<Rightarrow>
          if oe_Revision e \<le> lastEventRevision x then x
          else let x = x\<lparr>sent := sent x @ [e], lastEventRevision := oe_Revision e, nextRevision := oe_Revision e + 1\<rparr>
               in if oe_Type e = OwnershipEventReleased then x\<lparr>present := False\<rparr>
                  else x\<lparr>present := True, lastRecord := oe_Record e\<rparr>)"

text \<open>A response of the etcd watch.\<close>

definition watch_response :: "string \<Rightarrow> int \<Rightarrow> etcd_event list \<Rightarrow> watch_loop \<Rightarrow> watch_loop" where
  "watch_response resourceKey headerRevision evs x =
     fold (watch_event resourceKey) evs
       (if headerRevision \<ge> nextRevision x then x\<lparr>nextRevision := headerRevision + 1\<rparr> else x)"

text \<open>After the watch ended: what a successful \<^verbatim>\<open>getSnapshot\<close> leads to.\<close>

definition watch_reconcile :: "OwnershipRecord \<Rightarrow> bool \<Rightarrow> int \<Rightarrow> watch_loop \<Rightarrow> watch_loop" where
  "watch_reconcile current found snapRev x =
     (let x = (if found \<and> Revision current > lastEventRevision x
               then x\<lparr>sent := sent x @ [\<lparr>oe_Type = (if present x then OwnershipEventChanged else OwnershipEventAcquired),
                                        oe_Record = current, oe_Revision = Revision current\<rparr>],
                      lastEventRevision := Revision current, lastRecord := current, present := True\<rparr>
               else if \<not> found \<and> present x \<and> snapRev > lastEventRevision x
               then x\<lparr>sent := sent x @ [\<lparr>oe_Type = OwnershipEventReleased, oe_Record = lastRecord x, oe_Revision = snapRev\<rparr>],
                      lastEventRevision := snapRev, present := False\<rparr>
               else x)
      in x\<lparr>nextRevision := (if snapRev \<ge> lastEventRevision x then snapRev + 1 else lastEventRevision x + 1)\<rparr>)"

datatype watch_input = Response int "etcd_event list" | Snapshot OwnershipRecord bool int

fun watch_step :: "string \<Rightarrow> watch_input \<Rightarrow> watch_loop \<Rightarrow> watch_loop" where
  "watch_step k (Response h evs) x = watch_response k h evs x"
| "watch_step k (Snapshot r found snapRev) x = watch_reconcile r found snapRev x"

definition watchLoop :: "string \<Rightarrow> OwnershipRecord \<Rightarrow> bool \<Rightarrow> int \<Rightarrow> watch_input list \<Rightarrow> watch_loop" where
  "watchLoop k r found headerRevision inputs = fold (watch_step k) inputs (watch_start r found headerRevision)"

definition watch_inv :: "watch_loop \<Rightarrow> bool" where
  "watch_inv x \<longleftrightarrow> sorted_wrt (<) (map oe_Revision (sent x)) \<and> lastEventRevision x < nextRevision x \<and>
     (\<forall>e\<in>set (sent x). oe_Revision e \<le> lastEventRevision x) \<and>
     (present x \<longleftrightarrow> sent x \<noteq> [] \<and> oe_Type (last (sent x)) \<noteq> OwnershipEventReleased)"

lemma watch_inv_event: "watch_inv x \<Longrightarrow> watch_inv (watch_event k ev x)"
  by (auto simp: watch_inv_def watch_event_def Let_def sorted_wrt_append split: option.split)

lemma watch_inv_response: "watch_inv x \<Longrightarrow> watch_inv (watch_response k h evs x)"
proof -
  assume "watch_inv x"
  then have "watch_inv (if h \<ge> nextRevision x then x\<lparr>nextRevision := h + 1\<rparr> else x)"
    by (auto simp: watch_inv_def)
  moreover have "watch_inv y \<Longrightarrow> watch_inv (fold (watch_event k) evs y)" for y
    by (induction evs arbitrary: y) (simp_all add: watch_inv_event)
  ultimately show ?thesis unfolding watch_response_def by blast
qed

lemma watch_inv_reconcile: "watch_inv x \<Longrightarrow> watch_inv (watch_reconcile r found snapRev x)"
  by (auto simp: watch_inv_def watch_reconcile_def Let_def sorted_wrt_append)

lemma watch_inv_run:
  assumes "found \<Longrightarrow> Revision r \<le> h"
  shows "watch_inv (watchLoop k r found h inputs)"
proof -
  have "watch_inv (watch_start r found h)" using assms by (auto simp: watch_inv_def watch_start_def)
  moreover have "watch_inv x \<Longrightarrow> watch_inv (watch_step k i x)" for i x
    by (cases i) (simp_all add: watch_inv_response watch_inv_reconcile)
  then have "watch_inv x \<Longrightarrow> watch_inv (fold (watch_step k) inputs x)" for x
    by (induction inputs arbitrary: x) simp_all
  ultimately show ?thesis by (simp add: watchLoop_def)
qed

text \<open>A watch that is not interrupted sends every event, in order.\<close>

lemma watch_events_all:
  assumes "sorted_wrt (<) (lastEventRevision x # map (\<lambda>e. kv_mod (the (ev_kv e))) evs)" "\<forall>e\<in>set evs. ev_kv e \<noteq> None"
  shows "sent (fold (watch_event k) evs x) = sent x @ map (\<lambda>e. the (ownershipEventFromEtcd k e)) evs \<and>
    lastEventRevision (fold (watch_event k) evs x) = (if evs = [] then lastEventRevision x else kv_mod (the (ev_kv (last evs))))"
  using assms
proof (induction evs arbitrary: x)
  case (Cons ev evs)
  obtain e where e: "ownershipEventFromEtcd k ev = Some e" "oe_Revision e = kv_mod (the (ev_kv ev))"
    using Cons.prems(2) that
    by (cases "ev_kv ev"; cases "ev_type ev = EventDelete") (auto simp: ownershipEventFromEtcd_def ownershipRecordFromKV_def Let_def)
  let ?x = "watch_event k ev x"
  have x: "sent ?x = sent x @ [e]" "lastEventRevision ?x = kv_mod (the (ev_kv ev))"
    using Cons.prems(1) e by (auto simp: watch_event_def Let_def)
  have "sorted_wrt (<) (lastEventRevision ?x # map (\<lambda>e. kv_mod (the (ev_kv e))) evs)"
    using Cons.prems(1) by (simp add: x(2))
  with Cons.IH [of ?x] Cons.prems(2) x e(1) show ?case by simp
qed simp

section \<open>An etcd in memory\<close>















section \<open>Properties\<close>


text \<open>
  No loss of ownership is overlooked: however the monitor of a handle and calls of
  \<^verbatim>\<open>Release\<close> interleave - in particular if the monitor sees the loss while a release that then
  fails is under way - once the monitor has ended and no release is running, the handle is not
  active and its channel is closed.
\<close>

theorem loss_never_missed:
  assumes "life_step\<^sup>*\<^sup>* (life_init r k) x" "mon x = Mon_exited" "rel x = Rel_idle"
  shows "\<not> Valid (hnd x) \<and> done_closed (lifecycle (hnd x)) \<and> keepalive_cancelled (lifecycle (hnd x))"
  using life_inv_reach [OF assms(1)] assms(2,3) by (auto simp: life_inv_def Valid_def Let_def)

text \<open>
  Whatever responses and snapshots it meets, a watch sends events with strictly
  increasing revisions, and the last of them says whether the resource has an owner. A watch that
  is not interrupted sends the owner it started with and then every event of the key.
\<close>

theorem watch_ordered_and_complete:
  assumes "found \<Longrightarrow> Revision r \<le> h"
  shows "sorted_wrt (<) (map oe_Revision (sent (watchLoop k r found h inputs))) \<and>
    (present (watchLoop k r found h inputs) \<longleftrightarrow> sent (watchLoop k r found h inputs) \<noteq> [] \<and>
       oe_Type (last (sent (watchLoop k r found h inputs))) \<noteq> OwnershipEventReleased) \<and>
    (\<forall>h' evs. sorted_wrt (<) (max 0 h # map (\<lambda>e. kv_mod (the (ev_kv e))) evs) \<and> (\<forall>e\<in>set evs. ev_kv e \<noteq> None) \<longrightarrow>
       sent (watchLoop k r found h [Response h' evs]) =
         sent (watch_start r found h) @ map (\<lambda>e. the (ownershipEventFromEtcd k e)) evs)"
proof -
  have "sent (watchLoop k r found h [Response h' evs]) =
      sent (watch_start r found h) @ map (\<lambda>e. the (ownershipEventFromEtcd k e)) evs"
    if "sorted_wrt (<) (max 0 h # map (\<lambda>e. kv_mod (the (ev_kv e))) evs)" "\<forall>e\<in>set evs. ev_kv e \<noteq> None" for h' evs
  proof -
    let ?x = "watch_start r found h"
    let ?y = "if h' \<ge> nextRevision ?x then ?x\<lparr>nextRevision := h' + 1\<rparr> else ?x"
    have y: "sent ?y = sent ?x" "lastEventRevision ?y = lastEventRevision ?x" by auto
    have "lastEventRevision ?x \<le> max 0 h" using assms by (auto simp: watch_start_def)
    with that(1) have "sorted_wrt (<) (lastEventRevision ?y # map (\<lambda>e. kv_mod (the (ev_kv e))) evs)"
      unfolding y by auto
    from watch_events_all [OF this that(2), of k] y show ?thesis
      by (simp only: watchLoop_def watch_response_def watch_step.simps fold.simps comp_def id_def)
  qed
  with watch_inv_run [OF assms, where k = k and inputs = inputs] show ?thesis unfolding watch_inv_def by blast
qed

section \<open>Concrete runs\<close>











text \<open>The monitor sees the loss while a release is under way that then fails.\<close>

definition demo_record :: OwnershipRecord where
  "demo_record = \<lparr>ResourceKey = ''map'', OwnerToken = ''one'', Epoch = 3, LeaseID = 7, Revision = 3\<rparr>"

theorem loss_never_missed_witness:
  "\<exists>x. life_step\<^sup>*\<^sup>* (life_init demo_record ''k'') x \<and> mon x = Mon_exited \<and> rel x = Rel_idle \<and> \<not> Valid (hnd x)"
proof -
  let ?h = "newOwnershipHandle demo_record ''k''"
  let ?a = "\<lparr>hnd = set_intent True ?h, rel = Rel_txn, mon = Mon_watching\<rparr>"
  let ?b = "?a\<lparr>hnd := set_observed (hnd ?a), mon := Mon_stored\<rparr>"
  let ?c = "?b\<lparr>mon := Mon_exited\<rparr>"
  let ?d = "?c\<lparr>hnd := set_intent False (hnd ?c), rel := Rel_failed\<rparr>"
  let ?e = "?d\<lparr>hnd := snd (release_failed (hnd ?d)), rel := Rel_idle\<rparr>"
  have "life_step (life_init demo_record ''k'') ?a"
    using rel_start [of "life_init demo_record ''k''"] by (simp add: life_init_def release_check_def newOwnershipHandle_def)
  moreover have "life_step ?a ?b"
    using mon_loss [of ?a KeepAlive_closed] by (simp add: monitor_stops_def)
  moreover have "life_step ?b ?c"
    using mon_load [of ?b] by (simp add: set_observed_def set_intent_def)
  moreover have "life_step ?c ?d" by (rule rel_error) simp
  moreover have "life_step ?d ?e" by (rule rel_error_end) simp
  ultimately have reach: "life_step\<^sup>*\<^sup>* (life_init demo_record ''k'') ?e"
    by (meson r_into_rtranclp rtranclp.rtrancl_into_rtrancl)
  with loss_never_missed [OF reach] show ?thesis by (intro exI [of _ ?e]) simp
qed

theorem watch_ordered_and_complete_witness:
  "sorted_wrt (<) (map oe_Revision (sent (watchLoop ''map'' \<lparr>ResourceKey = ''map'', OwnerToken = ''one'', Epoch = 3, LeaseID = 7, Revision = 3\<rparr>
      True 5 [Snapshot \<lparr>ResourceKey = ''map'', OwnerToken = ''two'', Epoch = 6, LeaseID = 8, Revision = 6\<rparr> True 6])))"
  using watch_ordered_and_complete [of True "\<lparr>ResourceKey = ''map'', OwnerToken = ''one'', Epoch = 3, LeaseID = 7, Revision = 3\<rparr>" 5] by simp

end
