(* ===== verification/Nav_Map.thy ===== *)
theory Nav_Map
  imports Float64 "HOL-Library.Multiset"
begin

text \<open>
  \<^verbatim>\<open>zNavMap/map.go\<close> and \<^verbatim>\<open>AStar.go\<close>: a grid with heights and the search for a path on it. Nodes of
  the search are objects that the code changes in place: \<open>nodes\<close> is the list of all nodes made so
  far, and a pointer is a position in it. The binary heap of \<^verbatim>\<open>container/heap\<close> is translated from
  the standard library. Heights are IEEE 754 numbers (theory \<open>Float64\<close>); coordinates are 64-bit
  integers, written as \<open>int\<close> with the wrap-around where it can happen.

  The search is shown to return for every start that does not make the loop over the neighbours run
  for ever, and to find a path exactly when there is one. That the path is a shortest one is not claimed by the code, and does not hold: the heuristic exceeds the cost of
  diagonal moves, and the key of an entry of the heap is changed without restoring the heap.
\<close>

section \<open>Floating point\<close>

fun fabs :: "float64 \<Rightarrow> float64" where
  "fabs (Fin a) = Fin \<bar>a\<bar>"
| "fabs NaN = NaN"
| "fabs _ = PosInf"

definition of_go_int :: "int \<Rightarrow> float64" where
  "of_go_int n = fround (of_int n)"

section \<open>The map\<close>

record Vector3d =
  V_X :: float64
  V_Y :: float64
  V_Z :: float64

record Grid =
  X :: int
  Y :: int
  Pos :: Vector3d

text \<open>\<^verbatim>\<open>strconv.Itoa\<close>\<close>

fun nat_digits :: "nat \<Rightarrow> string" where
  "nat_digits n = (if n < 10 then [char_of (48 + n)] else nat_digits (n div 10) @ [char_of (48 + n mod 10)])"

declare nat_digits.simps [simp del]

definition Itoa :: "int \<Rightarrow> string" where
  "Itoa i = (if i < 0 then CHR ''-'' # nat_digits (nat (- i)) else nat_digits (nat i))"

definition ToUniqueKey :: "Grid \<Rightarrow> string" where
  "ToUniqueKey g = Itoa (X g) @ ''-'' @ Itoa (Y g)"

record NavMap =
  grids :: "Grid list list"
  maxX :: int
  maxY :: int
  canReachHeightDifference :: float64

definition fresh_grid :: "int \<Rightarrow> int \<Rightarrow> Grid" where
  "fresh_grid x y = \<lparr>X = x, Y = y, Pos = \<lparr>V_X = Fin 0, V_Y = Fin 0, V_Z = Fin 9999\<rparr>\<rparr>"

text \<open>\<open>None\<close> is the panic of \<^verbatim>\<open>make\<close> for a negative length, or for a slice that exceeds the address space
  (a row header has 24 bytes, a cell 40).\<close>

definition maxAlloc :: int where
  "maxAlloc = 2 ^ 48"

definition NewNavMap :: "int \<Rightarrow> int \<Rightarrow> float64 \<Rightarrow> NavMap option" where
  "NewNavMap mx my d =
     (if mx < 0 \<or> mx * 24 > maxAlloc \<or> (mx > 0 \<and> (my < 0 \<or> my * 40 > maxAlloc)) then None
      else Some \<lparr>grids = map (\<lambda>x. map (\<lambda>y. fresh_grid (int x) (int y)) [0..<nat my]) [0..<nat mx],
                 maxX = mx, maxY = my, canReachHeightDifference = d\<rparr>)"

datatype nav_error = GridDataError | CantFindRoad

definition AddGrid :: "Grid \<Rightarrow> NavMap \<Rightarrow> nav_error option \<times> NavMap" where
  "AddGrid g m =
     (if X g < 0 \<or> X g \<ge> maxX m \<or> Y g < 0 \<or> Y g \<ge> maxY m then (Some GridDataError, m)
      else (None, m\<lparr>grids := (grids m)[nat (X g) := (grids m ! nat (X g))[nat (Y g) := g]]\<rparr>))"

text \<open>The values of \<^verbatim>\<open>for x := first; x <= last; x++\<close>; \<open>None\<close> if the loop never ends.\<close>

partial_function (option) count_up :: "int \<Rightarrow> int \<Rightarrow> int list option" where
  "count_up x upper = (if x \<le> upper then Option.bind (count_up (wrap64 (x + 1)) upper) (\<lambda>xs. Some (x # xs)) else Some [])"

declare count_up.simps [code]

definition neighbor_row :: "Grid \<Rightarrow> NavMap \<Rightarrow> int \<Rightarrow> Grid list option" where
  "neighbor_row g m x =
     (if x < 0 \<or> x \<ge> maxX m then Some []
      else case count_up (wrap64 (Y g - 1)) (wrap64 (Y g + 1)) of
             None \<Rightarrow> None
           | Some ys \<Rightarrow>
               Some (concat (map (\<lambda>y. if y < 0 \<or> y \<ge> maxY m then []
                                     else if x = X g \<and> y = Y g then [] else [grids m ! nat x ! nat y]) ys)))"

definition GetNeighborGrid :: "Grid \<Rightarrow> NavMap \<Rightarrow> Grid list option" where
  "GetNeighborGrid g m =
     (case count_up (wrap64 (X g - 1)) (wrap64 (X g + 1)) of
        None \<Rightarrow> None
      | Some xs \<Rightarrow> map_option concat (those (map (neighbor_row g m) xs)))"

definition CanReachNeighborGrid :: "Grid \<Rightarrow> Grid \<Rightarrow> NavMap \<Rightarrow> bool" where
  "CanReachNeighborGrid src dst m =
     fle (V_Z (Pos dst)) (fadd (V_Z (Pos src)) (canReachHeightDifference m))"

section \<open>The heap\<close>

definition swap :: "'a list \<Rightarrow> nat \<Rightarrow> nat \<Rightarrow> 'a list" where
  "swap xs i j = xs[i := xs ! j, j := xs ! i]"

fun heap_up :: "('a \<Rightarrow> 'a \<Rightarrow> bool) \<Rightarrow> 'a list \<Rightarrow> nat \<Rightarrow> 'a list" where
  "heap_up lt h j =
     (let i = (j - 1) div 2 in
      if i = j \<or> \<not> lt (h ! j) (h ! i) then h else if j = 0 then h else heap_up lt (swap h i j) i)"

declare heap_up.simps [simp del]

function heap_down :: "('a \<Rightarrow> 'a \<Rightarrow> bool) \<Rightarrow> 'a list \<Rightarrow> nat \<Rightarrow> nat \<Rightarrow> 'a list" where
  "heap_down lt h i n =
     (let j1 = 2 * i + 1 in
      if j1 \<ge> n then h
      else let j = (if j1 + 1 < n \<and> lt (h ! (j1 + 1)) (h ! j1) then j1 + 1 else j1)
           in if \<not> lt (h ! j) (h ! i) then h else heap_down lt (swap h i j) j n)"
  by pat_completeness auto

termination
  by (relation "measure (\<lambda>(lt, h, i, n). n - i)") (auto simp: Let_def)

declare heap_down.simps [simp del]

definition heap_Push :: "('a \<Rightarrow> 'a \<Rightarrow> bool) \<Rightarrow> 'a \<Rightarrow> 'a list \<Rightarrow> 'a list" where
  "heap_Push lt x h = (let h = h @ [x] in heap_up lt h (length h - 1))"

text \<open>Called on a heap that is not empty.\<close>

definition heap_Pop :: "('a \<Rightarrow> 'a \<Rightarrow> bool) \<Rightarrow> 'a list \<Rightarrow> 'a \<times> 'a list" where
  "heap_Pop lt h =
     (let n = length h - 1; h = heap_down lt (swap h 0 n) 0 n in (last h, butlast h))"

section \<open>The search\<close>

record node =
  n_grid :: Grid
  father :: "nat option"
  n_f :: int

text \<open>The distance used by the heuristic: \<^verbatim>\<open>int(math.Abs(float64(..)) + math.Abs(float64(..))) * 10\<close>.\<close>

definition manhattan10 :: "Grid \<Rightarrow> Grid \<Rightarrow> int" where
  "manhattan10 e g = wrap64 (to_int64 (fadd (fabs (of_go_int (wrap64 (X e - X g)))) (fabs (of_go_int (wrap64 (Y e - Y g))))) * 10)"

definition calcF :: "node list \<Rightarrow> Grid \<Rightarrow> node \<Rightarrow> int" where
  "calcF ns e nd =
     (let g = (case father nd of
                 None \<Rightarrow> 0
               | Some q \<Rightarrow>
                   let fa = ns ! q;
                       deltaX = to_int64 (fabs (of_go_int (wrap64 (X (n_grid fa) - X (n_grid nd)))));
                       deltaY = to_int64 (fabs (of_go_int (wrap64 (Y (n_grid fa) - Y (n_grid nd)))))
                   in if deltaX = 1 \<and> deltaY = 0 \<or> deltaX = 0 \<and> deltaY = 1
                      then wrap64 (n_f fa - manhattan10 e (n_grid fa) + 10)
                      else if deltaX = 1 \<and> deltaY = 1
                      then wrap64 (n_f fa - manhattan10 e (n_grid fa) + 14)
                      else manhattan10 e (n_grid nd))
      in wrap64 (g + manhattan10 e (n_grid nd)))"

definition newNode :: "node list \<Rightarrow> Grid \<Rightarrow> nat option \<Rightarrow> Grid option \<Rightarrow> node" where
  "newNode ns g fa e =
     (let nd = \<lparr>n_grid = g, father = fa, n_f = 0\<rparr>
      in case e of None \<Rightarrow> nd | Some e \<Rightarrow> nd\<lparr>n_f := calcF ns e nd\<rparr>)"

text \<open>
  The state of the search. \<open>popped\<close> lists the nodes in the order they were closed; the code has no
  such variable, it is used in the proofs only.
\<close>

record search =
  nodes :: "node list"
  nq :: "nat list"
  openList :: "string \<rightharpoonup> nat"
  closeList :: "string \<rightharpoonup> nat"
  popped :: "nat list"

definition node_less :: "node list \<Rightarrow> nat \<Rightarrow> nat \<Rightarrow> bool" where
  "node_less ns i j \<longleftrightarrow> n_f (ns ! i) < n_f (ns ! j)"

text \<open>
  Following the fathers from a found node; \<open>None\<close> would be a chain longer than the fuel.
\<close>

fun build_road :: "nat \<Rightarrow> node list \<Rightarrow> Grid \<Rightarrow> nat \<Rightarrow> Grid list option" where
  "build_road 0 ns start p = None"
| "build_road (Suc fuel) ns start p =
     (case father (ns ! p) of
        None \<Rightarrow> Some [start]
      | Some q \<Rightarrow> (case build_road fuel ns start q of None \<Rightarrow> None | Some r \<Rightarrow> Some (n_grid (ns ! p) # r)))"

text \<open>The body of the loop over the neighbours of the node \<open>cur\<close>: a road, or the state after it.\<close>

definition visit :: "NavMap \<Rightarrow> Grid \<Rightarrow> Grid \<Rightarrow> nat \<Rightarrow> Grid \<Rightarrow> search \<Rightarrow> Grid list option + search" where
  "visit m start e cur g s =
     (if \<not> CanReachNeighborGrid (n_grid (nodes s ! cur)) g m then Inr s
      else
        let nd = newNode (nodes s) g (Some cur) (Some e);
            p = length (nodes s);
            s = s\<lparr>nodes := nodes s @ [nd]\<rparr>
        in if ToUniqueKey (n_grid nd) = ToUniqueKey e then Inl (build_road (length (nodes s)) (nodes s) start p)
           else if closeList s (ToUniqueKey g) \<noteq> None then Inr s
           else case openList s (ToUniqueKey g) of
                  None \<Rightarrow>
                    Inr (s\<lparr>nq := heap_Push (node_less (nodes s)) p (nq s),
                           openList := (openList s)(ToUniqueKey (n_grid nd) \<mapsto> p)\<rparr>)
                | Some old \<Rightarrow>
                    let tmp = newNode (nodes s) (n_grid (nodes s ! old)) (Some cur) (Some e)
                    in if n_f tmp < n_f (nodes s ! old)
                       then let nd' = (nodes s ! old)\<lparr>father := Some cur\<rparr>;
                                nd' = nd'\<lparr>n_f := calcF (nodes s) e nd'\<rparr>
                            in Inr (s\<lparr>nodes := (nodes s)[old := nd']\<rparr>)
                       else Inr s)"

fun scan :: "NavMap \<Rightarrow> Grid \<Rightarrow> Grid \<Rightarrow> nat \<Rightarrow> Grid list \<Rightarrow> search \<Rightarrow> Grid list option + search" where
  "scan m start e cur [] s = Inr s"
| "scan m start e cur (g # gs) s =
     (case visit m start e cur g s of Inl r \<Rightarrow> Inl r | Inr s \<Rightarrow> scan m start e cur gs s)"

definition pop_current :: "search \<Rightarrow> nat \<times> search" where
  "pop_current s =
     (case heap_Pop (node_less (nodes s)) (nq s) of
        (cur, q) \<Rightarrow>
          (let k = ToUniqueKey (n_grid (nodes s ! cur)) in
           (cur, s\<lparr>nq := q, openList := (openList s)(k := None), closeList := (closeList s)(k \<mapsto> cur),
                    popped := popped s @ [cur]\<rparr>)))"

text \<open>The outer loop; \<open>None\<close> is running out of fuel or a loop over neighbours that never ends, \<open>Some (Inl r)\<close> a road (its construction is again an option).\<close>

fun search_loop :: "nat \<Rightarrow> NavMap \<Rightarrow> Grid \<Rightarrow> Grid \<Rightarrow> search \<Rightarrow> (Grid list option + search) option" where
  "search_loop 0 m start e s = None"
| "search_loop (Suc fuel) m start e s =
     (if nq s = [] then Some (Inr s)
      else case pop_current s of
             (cur, s) \<Rightarrow>
               (case GetNeighborGrid (n_grid (nodes s ! cur)) m of
                  None \<Rightarrow> None
                | Some neighborList \<Rightarrow>
                    (case scan m start e cur neighborList s of
                       Inl r \<Rightarrow> Some (Inl r)
                     | Inr s \<Rightarrow> search_loop fuel m start e s)))"

definition search_init :: "Grid \<Rightarrow> search" where
  "search_init start =
     (let nd = newNode [] start None None
      in \<lparr>nodes = [nd], nq = heap_Push (node_less [nd]) 0 [], openList = [ToUniqueKey start \<mapsto> 0],
          closeList = Map.empty, popped = []\<rparr>)"

text \<open>
  \<^verbatim>\<open>FindPathByAStar\<close>: a cell of the map is closed at most once, so that the number of cells and two
  are enough fuel.
\<close>

definition FindPathByAStar :: "Grid \<Rightarrow> Grid \<Rightarrow> NavMap \<Rightarrow> (nav_error + Grid list) option" where
  "FindPathByAStar start e m =
     (case search_loop (nat (maxX m) * nat (maxY m) + 2) m start e (search_init start) of
        None \<Rightarrow> None
      | Some (Inr s) \<Rightarrow> Some (Inl CantFindRoad)
      | Some (Inl None) \<Rightarrow> None
      | Some (Inl (Some r)) \<Rightarrow> Some (Inr r))"

section \<open>Keys identify cells\<close>

definition digits_val :: "string \<Rightarrow> nat" where
  "digits_val ds = foldl (\<lambda>a c. 10 * a + (of_char c - 48)) 0 ds"

lemma of_char_of_less: "n < 256 \<Longrightarrow> of_char (char_of n :: char) = (n :: nat)"
  by simp

lemma digits_val_nat_digits: "digits_val (nat_digits n) = n"
proof (induction n rule: nat_digits.induct)
  case (1 n)
  show ?case
  proof (cases "n < 10")
    case True
    then show ?thesis by (subst nat_digits.simps) (simp add: digits_val_def of_char_of_less)
  next
    case False
    have "n mod 10 < 10" by simp
    then have "of_char (char_of (48 + n mod 10) :: char) = 48 + n mod 10" by (intro of_char_of_less) linarith
    with False 1 show ?thesis by (subst nat_digits.simps) (simp add: digits_val_def)
  qed
qed

lemma nat_digits_range: "c \<in> set (nat_digits n) \<Longrightarrow> c \<noteq> CHR ''-''"
proof (induction n rule: nat_digits.induct)
  case (1 n)
  have "char_of (48 + d) \<noteq> CHR ''-''" if "d < 10" for d :: nat
  proof
    assume "char_of (48 + d) = CHR ''-''"
    then have "of_char (char_of (48 + d) :: char) = (45 :: nat)" by simp
    moreover have "of_char (char_of (48 + d) :: char) = 48 + d" using that by (intro of_char_of_less) linarith
    ultimately show False by simp
  qed
  then have "n < 10 \<Longrightarrow> char_of (48 + n) \<noteq> CHR ''-''" "char_of (48 + n mod 10) \<noteq> CHR ''-''" by simp_all
  then show ?case using 1 by (subst (asm) nat_digits.simps) (auto split: if_splits)
qed

lemma nat_digits_nonempty: "nat_digits n \<noteq> []"
  by (subst nat_digits.simps) simp

lemma nat_digits_inj: "nat_digits m = nat_digits n \<longleftrightarrow> m = n"
  by (metis digits_val_nat_digits)

lemma Itoa_inj: "Itoa i = Itoa j \<longleftrightarrow> i = j"
proof -
  have "CHR ''-'' # nat_digits m \<noteq> nat_digits n" for m n
    using nat_digits_range [of "CHR ''-''" n] by (metis list.set_intros(1))
  then show ?thesis
    by (auto simp: Itoa_def nat_digits_inj)
       (metis (no_types))
qed

lemma digits_prefix:
  "nat_digits m @ CHR ''-'' # u = nat_digits n @ CHR ''-'' # v \<Longrightarrow> m = n \<and> u = v"
proof -
  assume eq: "nat_digits m @ CHR ''-'' # u = nat_digits n @ CHR ''-'' # v"
  have t: "takeWhile (\<lambda>c. c \<noteq> CHR ''-'') (nat_digits k @ CHR ''-'' # w) = nat_digits k" for k w
    using nat_digits_range by (subst takeWhile_append2) auto
  have "nat_digits m = nat_digits n" using arg_cong [OF eq, of "takeWhile (\<lambda>c. c \<noteq> CHR ''-'')"] by (simp only: t)
  with eq show ?thesis by (simp add: nat_digits_inj)
qed

lemma ToUniqueKey_inj: "ToUniqueKey g = ToUniqueKey h \<longleftrightarrow> X g = X h \<and> Y g = Y h"
proof
  assume eq: "ToUniqueKey g = ToUniqueKey h"
  have neq: "nat_digits m @ u \<noteq> CHR ''-'' # v" for m u v
    using nat_digits_nonempty [of m] nat_digits_range [of "hd (nat_digits m)" m] by (cases "nat_digits m") auto
  have "X g < 0 \<longleftrightarrow> X h < 0"
    using eq neq [of "nat (X g)"] neq [of "nat (X h)"] by (auto simp: ToUniqueKey_def Itoa_def split: if_splits) metis+
  with eq show "X g = X h \<and> Y g = Y h"
    by (auto simp: ToUniqueKey_def Itoa_def [of "X g"] Itoa_def [of "X h"] Itoa_inj split: if_splits dest!: digits_prefix)
qed (simp add: ToUniqueKey_def)

section \<open>The heap keeps its elements\<close>

lemma mset_swap_list: "i < length xs \<Longrightarrow> j < length xs \<Longrightarrow> mset (swap xs i j) = mset xs"
  using mset_swap [of j xs i] by (simp add: swap_def)

lemma length_swap [simp]: "length (swap xs i j) = length xs"
  by (simp add: swap_def)

lemma mset_heap_up: "j < length h \<Longrightarrow> mset (heap_up lt h j) = mset h"
proof (induction lt h j rule: heap_up.induct)
  case (1 lt h j)
  let ?i = "(j - 1) div 2"
  have i: "?i < length h" using 1(2) by linarith
  show ?case
  proof (cases "?i = j \<or> \<not> lt (h ! j) (h ! ?i) \<or> j = 0")
    case True
    then show ?thesis by (subst heap_up.simps) (auto simp: Let_def)
  next
    case False
    then have "mset (heap_up lt (swap h ?i j) ?i) = mset (swap h ?i j)"
      using 1(1) [OF refl] i by simp
    with False i 1(2) show ?thesis by (subst heap_up.simps) (simp add: Let_def mset_swap_list)
  qed
qed

lemma mset_heap_down: "n \<le> length h \<Longrightarrow> mset (heap_down lt h i n) = mset h \<and> length (heap_down lt h i n) = length h"
proof (induction lt h i n rule: heap_down.induct)
  case (1 lt h i n)
  let ?j1 = "2 * i + 1"
  let ?j = "if ?j1 + 1 < n \<and> lt (h ! (?j1 + 1)) (h ! ?j1) then ?j1 + 1 else ?j1"
  show ?case
  proof (cases "?j1 \<ge> n \<or> \<not> lt (h ! ?j) (h ! i)")
    case True
    then have "heap_down lt h i n = h" by (subst heap_down.simps) (auto simp: Let_def)
    then show ?thesis by simp
  next
    case False
    then have j: "?j < length h" "i < length h" using 1(2) by (auto split: if_splits)
    have "mset (heap_down lt (swap h i ?j) ?j n) = mset (swap h i ?j) \<and> length (heap_down lt (swap h i ?j) ?j n) = length (swap h i ?j)"
      by (rule 1(1) [OF refl _ refl]) (use False 1(2) in auto)
    moreover have "heap_down lt h i n = heap_down lt (swap h i ?j) ?j n"
      using False by (subst heap_down.simps) (auto simp: Let_def)
    ultimately show ?thesis using j by (simp add: mset_swap_list split del: if_split)
  qed
qed

lemma mset_heap_Push [simp]: "mset (heap_Push lt x h) = add_mset x (mset h)"
  by (simp add: heap_Push_def mset_heap_up)

lemma heap_Pop_mset:
  assumes "h \<noteq> []"
  shows "add_mset (fst (heap_Pop lt h)) (mset (snd (heap_Pop lt h))) = mset h"
proof -
  let ?n = "length h - 1"
  let ?d = "heap_down lt (swap h 0 ?n) 0 ?n"
  have d: "mset ?d = mset h" "length ?d = length h"
    using mset_heap_down [of ?n "swap h 0 ?n" lt 0] mset_swap_list [of 0 h ?n] assms by auto
  then have "?d \<noteq> []" using assms by auto
  then have "mset ?d = add_mset (last ?d) (mset (butlast ?d))"
    by (metis append_butlast_last_id mset_append mset.simps union_mset_add_mset_right add_0_right empty_neutral(2))
  with d show ?thesis by (simp add: heap_Pop_def Let_def)
qed

section \<open>The loops over the neighbours\<close>

lemma count_up_range:
  assumes "- (2 ^ 63) \<le> x" "upper < 2 ^ 63 - 1"
  shows "count_up x upper = Some [x..upper]"
  using assms(1)
proof (induction "nat (upper + 1 - x)" arbitrary: x)
  case 0
  then show ?case by (subst count_up.simps) simp
next
  case (Suc n)
  then have "x \<le> upper" by linarith
  moreover have "wrap64 (x + 1) = x + 1" using Suc.prems \<open>x \<le> upper\<close> assms(2) by (intro wrap64_id) linarith+
  moreover have "count_up (x + 1) upper = Some [x + 1..upper]" by (rule Suc.hyps(1)) (use Suc in linarith)+
  ultimately show ?case by (subst count_up.simps) (simp add: upto_rec1)
qed

lemma count_up_empty: "upper < x \<Longrightarrow> count_up x upper = Some []"
  by (subst count_up.simps) simp

lemma wrap64_range: "- (2 ^ 63) \<le> wrap64 i" "wrap64 i < 2 ^ 63"
  by (simp_all add: wrap64_def)

text \<open>No 64-bit value exceeds the greatest one, so that a loop up to it never ends.\<close>

lemma count_up_forever:
  assumes "x < 2 ^ 63"
  shows "count_up x (2 ^ 63 - 1) = None"
proof -
  have step: "upper = 2 ^ 63 - 1 \<longrightarrow> \<not> x < 2 ^ 63"
    if IH: "\<And>x upper ys. f x upper = Some ys \<Longrightarrow> upper = 2 ^ 63 - 1 \<longrightarrow> \<not> x < 2 ^ 63"
      and f: "(if x \<le> upper then Option.bind (f (wrap64 (x + 1)) upper) (\<lambda>xs. Some (x # xs)) else Some []) = Some ys"
    for f :: "int \<Rightarrow> int \<Rightarrow> int list option" and x upper ys
  proof (cases "x \<le> upper")
    case True
    then obtain zs where "f (wrap64 (x + 1)) upper = Some zs" using f by (auto split: bind_splits)
    from IH [OF this] wrap64_range(2) [of "x + 1"] show ?thesis by simp
  qed auto
  have "upper = 2 ^ 63 - 1 \<longrightarrow> \<not> x < 2 ^ 63" if "count_up x upper = Some xs" for x upper xs
    using count_up.raw_induct [where P = "\<lambda>x upper xs. upper = 2 ^ 63 - 1 \<longrightarrow> \<not> x < 2 ^ 63" and xa = "(x, upper)" and y = xs] step that by fastforce
  then show ?thesis using assms by (cases "count_up x (2 ^ 63 - 1)") auto
qed

definition go_int :: "int \<Rightarrow> bool" where
  "go_int i \<longleftrightarrow> - (2 ^ 63) \<le> i \<and> i < 2 ^ 63"

lemma around:
  assumes "go_int i"
  shows "count_up (wrap64 (i - 1)) (wrap64 (i + 1)) =
    (if i = 2 ^ 63 - 2 then None else if i = - (2 ^ 63) \<or> i = 2 ^ 63 - 1 then Some [] else Some [i - 1..i + 1])"
proof -
  consider "i = 2 ^ 63 - 2" | "i = - (2 ^ 63)" | "i = 2 ^ 63 - 1" | "- (2 ^ 63) < i" "i < 2 ^ 63 - 2" using assms by (fastforce simp: go_int_def)
  then show ?thesis
  proof cases
    case 1
    then have "wrap64 (i - 1) = 2 ^ 63 - 3" "wrap64 (i + 1) = 2 ^ 63 - 1" by (simp_all add: wrap64_def)
    then show ?thesis using 1 count_up_forever [of "2 ^ 63 - 3"] by simp
  next
    case 4
    then have "wrap64 (i - 1) = i - 1" "wrap64 (i + 1) = i + 1" by (intro wrap64_id; simp)+
    then show ?thesis using 4 count_up_range [of "i - 1" "i + 1"] by simp
  qed (simp_all add: wrap64_def count_up_empty)
qed

text \<open>The neighbours as the code means them, and when the loops over them never end.\<close>

definition neighbours :: "Grid \<Rightarrow> NavMap \<Rightarrow> Grid list" where
  "neighbours g m =
     concat (map (\<lambda>x. if x < 0 \<or> x \<ge> maxX m then []
        else concat (map (\<lambda>y. if y < 0 \<or> y \<ge> maxY m then []
               else if x = X g \<and> y = Y g then [] else [grids m ! nat x ! nat y]) [Y g - 1 .. Y g + 1])) [X g - 1 .. X g + 1])"

definition endless :: "Grid \<Rightarrow> NavMap \<Rightarrow> bool" where
  "endless g m \<longleftrightarrow> X g = 2 ^ 63 - 2 \<or> Y g = 2 ^ 63 - 2 \<and> (\<exists>x. \<bar>x - X g\<bar> \<le> 1 \<and> 0 \<le> x \<and> x < maxX m)"

definition small :: "NavMap \<Rightarrow> bool" where
  "small m \<longleftrightarrow> maxX m < 2 ^ 63 - 3 \<and> (0 < maxX m \<longrightarrow> maxY m < 2 ^ 63 - 3)"

lemma those_all: "(\<And>x. x \<in> set xs \<Longrightarrow> f x = Some (g x)) \<Longrightarrow> those (map f xs) = Some (map g xs)"
  by (induction xs) auto

lemma those_none: "x \<in> set xs \<Longrightarrow> f x = None \<Longrightarrow> those (map f xs) = None"
  by (induction xs) (auto split: option.split)

lemma row_exact:
  assumes "go_int (Y g)" "small m"
  shows "neighbor_row g m x =
    (if Y g = 2 ^ 63 - 2 \<and> 0 \<le> x \<and> x < maxX m then None
     else Some (if x < 0 \<or> x \<ge> maxX m then []
        else concat (map (\<lambda>y. if y < 0 \<or> y \<ge> maxY m then []
               else if x = X g \<and> y = Y g then [] else [grids m ! nat x ! nat y]) [Y g - 1 .. Y g + 1])))"
proof (cases "0 \<le> x \<and> x < maxX m")
  case True
  then have "maxY m < 2 ^ 63 - 3" using assms(2) by (simp add: small_def)
  then show ?thesis using True by (auto simp: neighbor_row_def around [OF assms(1)])
qed (auto simp: neighbor_row_def)

lemma GetNeighborGrid_exact:
  assumes "go_int (X g)" "go_int (Y g)" "small m"
  shows "GetNeighborGrid g m = (if endless g m then None else Some (neighbours g m))"
proof -
  note row = row_exact [OF assms(2,3)]
  have far: "neighbours g m = [] \<and> \<not> (\<exists>x. \<bar>x - X g\<bar> \<le> 1 \<and> 0 \<le> x \<and> x < maxX m)" if "X g = - (2 ^ 63) \<or> X g = 2 ^ 63 - 1"
    using that assms(3) by (auto simp: neighbours_def small_def)
  consider "X g = 2 ^ 63 - 2" | "X g = - (2 ^ 63) \<or> X g = 2 ^ 63 - 1" | "X g \<noteq> 2 ^ 63 - 2" "\<not> (X g = - (2 ^ 63) \<or> X g = 2 ^ 63 - 1)" by blast
  then show ?thesis
  proof cases
    case 1
    then show ?thesis unfolding GetNeighborGrid_def around [OF assms(1)] by (simp add: endless_def)
  next
    case 2
    then show ?thesis using far [OF 2] by (auto simp: GetNeighborGrid_def around [OF assms(1)] endless_def)
  next
    case 3
    show ?thesis
    proof (cases "endless g m")
      case True
      then obtain x where "\<bar>x - X g\<bar> \<le> 1" "0 \<le> x" "x < maxX m" "Y g = 2 ^ 63 - 2" using 3 by (auto simp: endless_def)
      then have "those (map (neighbor_row g m) [X g - 1..X g + 1]) = None" by (intro those_none [of x]) (auto simp: row)
      then show ?thesis using True 3 by (simp add: GetNeighborGrid_def around [OF assms(1)])
    next
      case False
      then have "neighbor_row g m x = Some (if x < 0 \<or> x \<ge> maxX m then []
        else concat (map (\<lambda>y. if y < 0 \<or> y \<ge> maxY m then []
               else if x = X g \<and> y = Y g then [] else [grids m ! nat x ! nat y]) [Y g - 1 .. Y g + 1]))" if "x \<in> set [X g - 1..X g + 1]" for x
        using that unfolding row by (auto simp: endless_def)
      then have "those (map (neighbor_row g m) [X g - 1..X g + 1]) = Some (map (\<lambda>x. if x < 0 \<or> x \<ge> maxX m then []
        else concat (map (\<lambda>y. if y < 0 \<or> y \<ge> maxY m then []
               else if x = X g \<and> y = Y g then [] else [grids m ! nat x ! nat y]) [Y g - 1 .. Y g + 1])) [X g - 1..X g + 1])"
        by (rule those_all)
      then show ?thesis using False 3 by (simp add: GetNeighborGrid_def around [OF assms(1)] neighbours_def)
    qed
  qed
qed

section \<open>Walks\<close>

definition step_ok :: "NavMap \<Rightarrow> Grid \<Rightarrow> Grid \<Rightarrow> bool" where
  "step_ok m g h \<longleftrightarrow> h \<in> set (neighbours g m) \<and> CanReachNeighborGrid g h m"

text \<open>Every cell is filed under its own coordinates.\<close>

definition map_wf :: "NavMap \<Rightarrow> bool" where
  "map_wf m \<longleftrightarrow> small m \<and> length (grids m) = nat (maxX m) \<and>
     (\<forall>x < nat (maxX m). length (grids m ! x) = nat (maxY m) \<and>
        (\<forall>y < nat (maxY m). X (grids m ! x ! y) = int x \<and> Y (grids m ! x ! y) = int y))"

lemma NewNavMap_wf: "NewNavMap mx my d = Some m \<Longrightarrow> map_wf m"
  by (auto simp: NewNavMap_def map_wf_def fresh_grid_def small_def maxAlloc_def split: if_splits)

lemma AddGrid_wf: "map_wf m \<Longrightarrow> map_wf (snd (AddGrid g m))"
  by (auto simp: AddGrid_def map_wf_def small_def nth_list_update)

definition on_map :: "NavMap \<Rightarrow> Grid \<Rightarrow> bool" where
  "on_map m g \<longleftrightarrow> 0 \<le> X g \<and> X g < maxX m \<and> 0 \<le> Y g \<and> Y g < maxY m \<and> g = grids m ! nat (X g) ! nat (Y g)"

lemma GetNeighborGrid_on_map: "map_wf m \<Longrightarrow> on_map m g \<Longrightarrow> GetNeighborGrid g m = Some (neighbours g m)"
  using GetNeighborGrid_exact [of g m] by (auto simp: map_wf_def on_map_def go_int_def small_def endless_def)

lemma on_map_unique: "on_map m g \<Longrightarrow> on_map m h \<Longrightarrow> ToUniqueKey g = ToUniqueKey h \<Longrightarrow> g = h"
  by (metis ToUniqueKey_inj on_map_def)

lemma neighbor_on_map:
  assumes "map_wf m" "h \<in> set (neighbours g m)"
  shows "on_map m h" "\<bar>X h - X g\<bar> \<le> 1" "\<bar>Y h - Y g\<bar> \<le> 1" "ToUniqueKey h \<noteq> ToUniqueKey g"
proof -
  obtain x y where xy: "X g - 1 \<le> x" "x \<le> X g + 1" "Y g - 1 \<le> y" "y \<le> Y g + 1" "0 \<le> x" "x < maxX m" "0 \<le> y" "y < maxY m"
    "h = grids m ! nat x ! nat y" "\<not> (x = X g \<and> y = Y g)"
    using assms(2) by (auto simp: neighbours_def split: if_splits)
  moreover have "X h = x" "Y h = y" using assms(1) xy(5-9) by (auto simp: map_wf_def)
  ultimately show "on_map m h" "\<bar>X h - X g\<bar> \<le> 1" "\<bar>Y h - Y g\<bar> \<le> 1" "ToUniqueKey h \<noteq> ToUniqueKey g"
    by (auto simp: on_map_def ToUniqueKey_inj)
qed

text \<open>A walk from \<open>start\<close> to the cell of \<open>e\<close>; \<open>direct\<close> if it comes back to the cell of \<open>start\<close> at most at its end.\<close>

definition walk :: "NavMap \<Rightarrow> Grid \<Rightarrow> Grid \<Rightarrow> Grid list \<Rightarrow> bool" where
  "walk m start e gs \<longleftrightarrow> gs \<noteq> [] \<and> successively (step_ok m) (start # gs) \<and> ToUniqueKey (last gs) = ToUniqueKey e"

definition direct :: "Grid \<Rightarrow> Grid list \<Rightarrow> bool" where
  "direct start gs \<longleftrightarrow> (\<forall>g\<in>set (butlast gs). ToUniqueKey g \<noteq> ToUniqueKey start)"

section \<open>The invariant of the search\<close>

abbreviation node_key :: "search \<Rightarrow> nat \<Rightarrow> string" where
  "node_key s p \<equiv> ToUniqueKey (n_grid (nodes s ! p))"

abbreviation node_grid :: "search \<Rightarrow> nat \<Rightarrow> Grid" where
  "node_grid s p \<equiv> n_grid (nodes s ! p)"

definition has_father :: "NavMap \<Rightarrow> search \<Rightarrow> nat set \<Rightarrow> nat \<Rightarrow> bool" where
  "has_father m s Q p \<longleftrightarrow> (\<exists>q\<in>Q. father (nodes s ! p) = Some q \<and> step_ok m (node_grid s q) (node_grid s p))"

definition core :: "NavMap \<Rightarrow> Grid \<Rightarrow> search \<Rightarrow> bool" where
  "core m start s \<longleftrightarrow>
     set (popped s @ nq s) \<subseteq> {..<length (nodes s)} \<and>
     distinct (map (node_key s) (popped s @ nq s)) \<and>
     (\<forall>k p. openList s k = Some p \<longleftrightarrow> p \<in> set (nq s) \<and> node_key s p = k) \<and>
     (\<forall>k. closeList s k \<noteq> None \<longleftrightarrow> k \<in> node_key s ` set (popped s)) \<and>
     nodes s \<noteq> [] \<and> node_grid s 0 = start \<and> father (nodes s ! 0) = None \<and>
     (if popped s = [] then nq s = [0] else popped s ! 0 = 0) \<and>
     (\<forall>i. 0 < i \<and> i < length (popped s) \<longrightarrow> has_father m s (set (take i (popped s))) (popped s ! i)) \<and>
     (popped s \<noteq> [] \<longrightarrow> (\<forall>p\<in>set (nq s). has_father m s (set (popped s)) p))"

lemma coreD:
  assumes "core m start s"
  shows "p \<in> set (popped s) \<Longrightarrow> p < length (nodes s)" "p \<in> set (nq s) \<Longrightarrow> p < length (nodes s)"
    "distinct (map (node_key s) (popped s @ nq s))"
    "openList s k = Some p \<longleftrightarrow> p \<in> set (nq s) \<and> node_key s p = k"
    "closeList s k \<noteq> None \<longleftrightarrow> k \<in> node_key s ` set (popped s)"
    "nodes s \<noteq> []" "node_grid s 0 = start" "father (nodes s ! 0) = None"
    "popped s = [] \<Longrightarrow> nq s = [0]" "popped s \<noteq> [] \<Longrightarrow> popped s ! 0 = 0"
    "0 < i \<Longrightarrow> i < length (popped s) \<Longrightarrow> has_father m s (set (take i (popped s))) (popped s ! i)"
    "popped s \<noteq> [] \<Longrightarrow> p \<in> set (nq s) \<Longrightarrow> has_father m s (set (popped s)) p"
  using assms by (auto simp: core_def split: if_splits)

lemma core_distinct: "core m start s \<Longrightarrow> distinct (popped s @ nq s)"
  using coreD(3) distinct_map by blast

lemma open_not_start:
  assumes "core m start s" "popped s \<noteq> []" "p \<in> set (nq s)"
  shows "p \<noteq> 0" "p \<notin> set (popped s)"
proof -
  have "0 \<in> set (popped s)" using coreD(10) [OF assms(1,2)] assms(2) by (metis length_greater_0_conv nth_mem)
  with core_distinct [OF assms(1)] assms(3) show "p \<noteq> 0" "p \<notin> set (popped s)" by auto
qed

lemma has_father_on_map: "map_wf m \<Longrightarrow> has_father m s Q p \<Longrightarrow> on_map m (node_grid s p)"
  using neighbor_on_map(1) by (auto simp: has_father_def step_ok_def)

lemma node_on_map:
  assumes "map_wf m" "core m start s" "p \<in> set (popped s @ nq s)" "p \<noteq> 0"
  shows "on_map m (node_grid s p)"
proof -
  consider i where "i < length (popped s)" "p = popped s ! i" | "p \<in> set (nq s)"
    using assms(3) by (auto simp: in_set_conv_nth)
  then show ?thesis
  proof cases
    case 1
    have "popped s \<noteq> []" using 1 by auto
    then have "i \<noteq> 0" using 1 assms(4) coreD(10) [OF assms(2)] by (metis)
    with 1 coreD(11) [OF assms(2), of i] has_father_on_map [OF assms(1)] show ?thesis by simp
  next
    case 2
    have "popped s \<noteq> []" using 2 assms(4) coreD(9) [OF assms(2)] by auto
    with 2 coreD(12) [OF assms(2)] has_father_on_map [OF assms(1)] show ?thesis by blast
  qed
qed

lemma core_init: "core m start (search_init start)"
  by (auto simp: core_def search_init_def newNode_def Let_def heap_Push_def heap_up.simps)

text \<open>A state with the same links and the same cells, and fathers for the open nodes.\<close>

lemma core_relinked:
  assumes core: "core m start s"
    and links: "popped s' = popped s" "nq s' = nq s" "openList s' = openList s" "closeList s' = closeList s"
    and len: "length (nodes s) \<le> length (nodes s')"
    and g: "\<And>p. p \<in> set (popped s @ nq s) \<or> p = 0 \<Longrightarrow> node_grid s' p = node_grid s p"
    and f: "\<And>p. p \<in> set (popped s) \<or> p = 0 \<Longrightarrow> father (nodes s' ! p) = father (nodes s ! p)"
    and q: "\<And>p. p \<in> set (nq s) \<Longrightarrow> popped s \<noteq> [] \<Longrightarrow> father (nodes s' ! p) = father (nodes s ! p) \<or> has_father m s' (set (popped s)) p"
  shows "core m start s'"
proof -
  note D = coreD [OF core]
  have hf: "has_father m s' Q p"
    if "has_father m s Q p" "Q \<subseteq> set (popped s)" "p \<in> set (popped s @ nq s)" "father (nodes s' ! p) = father (nodes s ! p)" for Q p
    using that g by (auto simp: has_father_def subset_iff)
  have dist: "distinct (map (node_key s') (popped s' @ nq s'))"
  proof -
    have "map (node_key s') (popped s' @ nq s') = map (node_key s) (popped s @ nq s)"
      unfolding links by (intro map_cong refl) (simp add: g)
    then show ?thesis using D(3) by (simp only:)
  qed
  have op: "openList s' k = Some p \<longleftrightarrow> p \<in> set (nq s') \<and> node_key s' p = k" for k p
    using D(4) [of k p] g [of p] by (auto simp: links)
  have cl: "closeList s' k \<noteq> None \<longleftrightarrow> k \<in> node_key s' ` set (popped s')" for k
    using D(5) [of k] g by (simp add: links)
  have "has_father m s' (set (take i (popped s))) (popped s ! i)" if "0 < i" "i < length (popped s)" for i
    by (rule hf [OF D(11) [OF that] set_take_subset]) (use that f in auto)
  moreover have "has_father m s' (set (popped s)) p" if "p \<in> set (nq s)" "popped s \<noteq> []" for p
    using q [OF that] hf [OF D(12) [OF that(2,1)] subset_refl] that by auto
  moreover have "p < length (nodes s')" if "p \<in> set (popped s @ nq s)" for p using D(1,2) that len by fastforce
  ultimately show ?thesis
    using dist op cl D(6-10) g [of 0] f [of 0] len unfolding core_def links by auto
qed

text \<open>A new node at the end of the list, not yet linked to anything.\<close>

lemma core_extend:
  assumes "core m start s"
  shows "core m start (s\<lparr>nodes := nodes s @ [nd]\<rparr>)"
  by (rule core_relinked [OF assms]) (use coreD(1,2,6) [OF assms] in \<open>auto simp: nth_append\<close>)

text \<open>A node for a cell that is neither open nor closed, which \<^verbatim>\<open>heap.Push\<close> puts into the queue.\<close>

lemma core_push:
  assumes core: "core m start s" and p: "popped s \<noteq> []" "p < length (nodes s)" "p \<noteq> 0"
    and new: "openList s (node_key s p) = None" "closeList s (node_key s p) = None"
    and hf: "has_father m s (set (popped s)) p" and q: "mset q = add_mset p (mset (nq s))"
  shows "core m start (s\<lparr>nq := q, openList := (openList s)(node_key s p \<mapsto> p)\<rparr>)" (is "core m start ?s")
proof -
  note D = coreD [OF core]
  have set_q: "set q = insert p (set (nq s))" using q by (metis set_mset_mset set_mset_add_mset_insert)
  have "node_key s p \<notin> node_key s ` set (popped s)" using new(2) D(5) by blast
  moreover have "node_key s p \<notin> node_key s ` set (nq s)" using new(1) D(4) [of "node_key s p"] by force
  moreover have "mset (map (node_key s) (popped s @ q)) = add_mset (node_key s p) (mset (map (node_key s) (popped s @ nq s)))"
    using q by simp
  then have "distinct (map (node_key s) (popped s @ q)) \<longleftrightarrow> distinct (node_key s p # map (node_key s) (popped s @ nq s))"
    by (intro mset_eq_imp_distinct_iff) simp
  ultimately have dist: "distinct (map (node_key s) (popped s @ q))" using D(3) by auto
  have op: "((openList s)(node_key s p \<mapsto> p)) k = Some p' \<longleftrightarrow> p' \<in> set q \<and> node_key s p' = k" for k p'
    using D(4) [of k p'] D(4) [of k p] new(1) \<open>node_key s p \<notin> node_key s ` set (nq s)\<close> by (auto simp: set_q)
  have hf': "has_father m ?s Q p' = has_father m s Q p'" for Q p' by (simp add: has_father_def)
  have "has_father m s (set (popped s)) p'" if "p' \<in> set q" for p' using that D(12) [OF p(1)] hf by (auto simp: set_q)
  moreover have "p' < length (nodes s)" if "p' \<in> set q" for p' using that D(2) p(2) by (auto simp: set_q)
  ultimately show ?thesis
    using dist op D(1,5-8,10,11) p(1) unfolding core_def hf' by (auto split: if_splits)
qed

text \<open>The father of an open node is replaced by a closed one.\<close>

lemma core_update:
  assumes core: "core m start s" and p: "popped s \<noteq> []" "p \<in> set (nq s)"
    and nd: "n_grid nd = node_grid s p" "father nd = Some q" "q \<in> set (popped s)" "step_ok m (node_grid s q) (node_grid s p)"
  shows "core m start (s\<lparr>nodes := (nodes s)[p := nd]\<rparr>)"
proof (rule core_relinked [OF core])
  note ns = open_not_start [OF core p]
  have lt: "p < length (nodes s)" using coreD(2) [OF core] p(2) by blast
  have q: "q \<noteq> p" using nd(3) ns(2) by auto
  fix p' assume "p' \<in> set (nq s)"
  then show "father (nodes (s\<lparr>nodes := (nodes s)[p := nd]\<rparr>) ! p') = father (nodes s ! p') \<or>
      has_father m (s\<lparr>nodes := (nodes s)[p := nd]\<rparr>) (set (popped s)) p'"
    using nd lt q by (cases "p' = p") (auto simp: has_father_def)
qed (use open_not_start [OF core p] coreD(2) [OF core p(2)] nd(1) in \<open>auto simp: nth_list_update\<close>)


lemma newNode_simps [simp]: "n_grid (newNode ns g fa e) = g" "father (newNode ns g fa e) = fa"
  by (simp_all add: newNode_def Let_def split: option.split)

text \<open>The node taken from the queue is closed.\<close>

lemma pop_current_mset:
  assumes "nq s \<noteq> []" "pop_current s = (cur, s')"
  shows "mset (nq s) = add_mset cur (mset (nq s'))" "nodes s' = nodes s" "popped s' = popped s @ [cur]"
    "openList s' = (openList s)(node_key s cur := None)" "closeList s' = (closeList s)(node_key s cur \<mapsto> cur)"
  using heap_Pop_mset [OF assms(1), of "node_less (nodes s)"] assms(2)
  by (auto simp: pop_current_def Let_def split: prod.splits)

lemma core_pop:
  assumes core: "core m start s" and nq: "nq s \<noteq> []" and pop: "pop_current s = (cur, s')"
  shows "core m start s'"
proof -
  note D = coreD [OF core] and P = pop_current_mset [OF nq pop]
  have set_nq: "set (nq s) = insert cur (set (nq s'))" using P(1) by (metis set_mset_mset set_mset_add_mset_insert)
  have hf: "has_father m s' Q p = has_father m s Q p" for Q p by (simp add: has_father_def P(2))
  have "mset (map (node_key s) (popped s' @ nq s')) = mset (map (node_key s) (popped s @ nq s))"
    using P(1,3) by simp
  then have dist: "distinct (map (node_key s) (popped s' @ nq s'))"
    using D(3) mset_eq_imp_distinct_iff by blast
  have d0: "distinct (map (node_key s) (cur # nq s'))" using dist P(3) by auto
  then have op: "openList s' k = Some p \<longleftrightarrow> p \<in> set (nq s') \<and> node_key s p = k" for k p
    using D(4) [of k p] by (auto simp: P(4) set_nq image_iff)
  have cl: "closeList s' k \<noteq> None \<longleftrightarrow> k \<in> node_key s ` set (popped s')" for k
    using D(5) [of k] by (auto simp: P(3,5))
  have first: "cur = 0 \<and> nq s' = []" if "popped s = []" using D(9) [OF that] P(1) by (cases "nq s'") auto
  have head: "popped s' ! 0 = 0" using first D(10) by (cases "popped s = []") (auto simp: P(3) nth_append)
  have "has_father m s (set (take i (popped s'))) (popped s' ! i)" if "0 < i" "i < length (popped s')" for i
  proof (cases "i < length (popped s)")
    case True
    then show ?thesis using D(11) that(1) by (simp add: P(3) nth_append)
  next
    case False
    then have "i = length (popped s)" "popped s \<noteq> []" using that P(3) by auto
    then show ?thesis using D(12) [of cur] by (simp add: P(3) set_nq)
  qed
  moreover have "has_father m s (set (popped s')) p" if "p \<in> set (nq s')" for p
    using D(12) [of p] that first by (cases "popped s = []") (auto simp: P(3) set_nq has_father_def)
  moreover have "set (popped s' @ nq s') \<subseteq> {..<length (nodes s)}" using D(1,2) by (auto simp: P(3) set_nq)
  ultimately show ?thesis using dist op cl D(6-8) head unfolding core_def P(2) hf by (auto simp: P(3))
qed


text \<open>Following the fathers from a closed node gives a walk back to the start.\<close>

lemma build_road_closed:
  assumes core: "core m start s"
  shows "i < length (popped s) \<Longrightarrow> i < fuel \<Longrightarrow>
    \<exists>gs. build_road fuel (nodes s) start (popped s ! i) = Some (rev (start # gs)) \<and> successively (step_ok m) (start # gs) \<and>
         last (start # gs) = node_grid s (popped s ! i) \<and> (\<forall>g\<in>set gs. ToUniqueKey g \<noteq> ToUniqueKey start)"
proof (induction i arbitrary: fuel rule: less_induct)
  case (less i)
  note D = coreD [OF core]
  obtain fuel' where fuel: "fuel = Suc fuel'" using less.prems(2) by (cases fuel) auto
  have ne: "popped s \<noteq> []" using less.prems(1) by auto
  show ?case
  proof (cases "i = 0")
    case True
    with D(7,8,10) ne fuel show ?thesis by (intro exI [of _ "[]"]) simp
  next
    case False
    then obtain q where q: "q \<in> set (take i (popped s))" "father (nodes s ! (popped s ! i)) = Some q"
      "step_ok m (node_grid s q) (node_grid s (popped s ! i))"
      using D(11) [of i] less.prems(1) by (auto simp: has_father_def)
    then obtain j where j: "j < i" "q = popped s ! j" using less.prems(1) by (auto simp: in_set_conv_nth)
    obtain gs where gs: "build_road fuel' (nodes s) start q = Some (rev (start # gs))" "successively (step_ok m) (start # gs)"
      "last (start # gs) = node_grid s q" "\<forall>g\<in>set gs. ToUniqueKey g \<noteq> ToUniqueKey start"
      using less.IH [OF j(1), of fuel'] j less.prems fuel by auto
    have "distinct (map (node_key s) (popped s))" using D(3) by simp
    then have "node_key s (popped s ! i) \<noteq> node_key s (popped s ! 0)"
      using False less.prems(1) by (metis (no_types, lifting) length_map nth_eq_iff_index_eq nth_map gr_implies_not0 less_trans neq0_conv)
    then have "ToUniqueKey (node_grid s (popped s ! i)) \<noteq> ToUniqueKey start" using D(7,10) ne by simp
    moreover have "successively (step_ok m) ((start # gs) @ [node_grid s (popped s ! i)])"
      using gs(2,3) q(3) by (subst successively_append_iff) auto
    ultimately show ?thesis using gs q(2) fuel
      by (intro exI [of _ "gs @ [node_grid s (popped s ! i)]"]) auto
  qed
qed

lemma popped_length: "core m start s \<Longrightarrow> length (popped s) \<le> length (nodes s)"
proof -
  assume core: "core m start s"
  have "card (set (popped s)) \<le> card {..<length (nodes s)}" using coreD(1) [OF core] by (intro card_mono) auto
  moreover have "distinct (popped s)" using core_distinct [OF core] by simp
  ultimately show ?thesis by (simp add: distinct_card)
qed

lemma build_road_found:
  assumes core: "core m start s" and cur: "cur \<in> set (popped s)"
    and nd: "father nd = Some cur" "step_ok m (node_grid s cur) (n_grid nd)" "ToUniqueKey (n_grid nd) = ToUniqueKey e"
  shows "\<exists>gs. build_road (Suc (length (nodes s))) (nodes s @ [nd]) start (length (nodes s)) = Some (rev (start # gs)) \<and> walk m start e gs \<and> direct start gs"
proof -
  let ?s = "s\<lparr>nodes := nodes s @ [nd]\<rparr>"
  obtain i where i: "i < length (popped s)" "cur = popped s ! i" using cur by (auto simp: in_set_conv_nth)
  then have "i < length (nodes s)" using popped_length [OF core] by simp
  then obtain gs where gs: "build_road (length (nodes s)) (nodes s @ [nd]) start cur = Some (rev (start # gs))"
    "successively (step_ok m) (start # gs)" "last (start # gs) = n_grid ((nodes s @ [nd]) ! cur)"
    "\<forall>g\<in>set gs. ToUniqueKey g \<noteq> ToUniqueKey start"
    using build_road_closed [OF core_extend [OF core, of nd], of i "length (nodes s)"] i by auto
  have "last (start # gs) = node_grid s cur" using gs(3) coreD(1) [OF core cur] by (simp add: nth_append)
  then have "successively (step_ok m) ((start # gs) @ [n_grid nd])"
    using gs(2) nd(2) by (subst successively_append_iff) auto
  then have "walk m start e (gs @ [n_grid nd]) \<and> direct start (gs @ [n_grid nd])" using gs(4) nd(3) by (simp add: walk_def direct_def)
  moreover have "build_road (Suc (length (nodes s))) (nodes s @ [nd]) start (length (nodes s)) = Some (rev (start # gs @ [n_grid nd]))"
    using gs(1) nd(1) by simp
  ultimately show ?thesis by blast
qed

section \<open>What the search visits\<close>

definition seen :: "search \<Rightarrow> string \<Rightarrow> bool" where
  "seen s k \<longleftrightarrow> k \<in> node_key s ` set (popped s @ nq s)"

definition extends :: "NavMap \<Rightarrow> Grid \<Rightarrow> search \<Rightarrow> search \<Rightarrow> bool" where
  "extends m start s s' \<longleftrightarrow> core m start s' \<and> popped s' = popped s \<and> set (nq s) \<subseteq> set (nq s') \<and>
     (\<forall>p\<in>set (popped s @ nq s). node_grid s' p = node_grid s p)"

lemma extends_trans: "extends m start s s1 \<Longrightarrow> extends m start s1 s2 \<Longrightarrow> extends m start s s2"
  unfolding extends_def by auto

lemma extends_seen:
  assumes "extends m start s s'" "seen s k"
  shows "seen s' k"
proof -
  obtain p where p: "p \<in> set (popped s @ nq s)" "k = node_key s p" using assms(2) by (auto simp: seen_def)
  with assms(1) have "p \<in> set (popped s' @ nq s')" "k = node_key s' p" by (auto simp: extends_def)
  then show ?thesis unfolding seen_def by blast
qed

lemma open_or_closed_seen:
  assumes "core m start s" "openList s k \<noteq> None \<or> closeList s k \<noteq> None"
  shows "seen s k"
  using assms(2) coreD(4) [OF assms(1)] coreD(5) [OF assms(1), of k] by (auto simp: seen_def)

definition visited :: "NavMap \<Rightarrow> Grid \<Rightarrow> search \<Rightarrow> Grid \<Rightarrow> Grid \<Rightarrow> bool" where
  "visited m e s g h \<longleftrightarrow> (CanReachNeighborGrid g h m \<longrightarrow> ToUniqueKey h \<noteq> ToUniqueKey e \<and> seen s (ToUniqueKey h))"

definition good_outcome :: "NavMap \<Rightarrow> Grid \<Rightarrow> Grid \<Rightarrow> Grid list option \<Rightarrow> bool" where
  "good_outcome m start e r \<longleftrightarrow> (\<exists>gs. r = Some (rev (start # gs)) \<and> walk m start e gs \<and> direct start gs)"

lemma extends_update:
  assumes core: "core m start s" and cur: "cur \<in> set (popped s)" and g: "step_ok m (node_grid s cur) g"
    and old: "openList s (ToUniqueKey g) = Some old" and wf: "map_wf m"
    and nd: "n_grid nd = node_grid s old" "father nd = Some cur"
  shows "extends m start s (s\<lparr>nodes := (nodes s)[old := nd]\<rparr>)"
proof -
  have ne: "popped s \<noteq> []" using cur by auto
  have q: "old \<in> set (nq s)" "node_key s old = ToUniqueKey g" using old coreD(4) [OF core] by auto
  have "on_map m (node_grid s old)" using node_on_map [OF wf core] q(1) open_not_start [OF core ne q(1)] by simp
  moreover have "on_map m g" using g neighbor_on_map(1) [OF wf] by (auto simp: step_ok_def)
  ultimately have "node_grid s old = g" using on_map_unique q(2) by blast
  then have "core m start (s\<lparr>nodes := (nodes s)[old := nd]\<rparr>)"
    using core_update [OF core ne q(1) nd(1,2) cur] g by simp
  then show ?thesis using nd(1) coreD(2) [OF core q(1)] by (auto simp: extends_def nth_list_update)
qed

lemma extends_push:
  assumes core: "core m start s" and cur: "cur \<in> set (popped s)" and p: "p < length (nodes s)" "p \<noteq> 0"
    and new: "openList s (node_key s p) = None" "closeList s (node_key s p) = None"
    and nd: "father (nodes s ! p) = Some cur" "step_ok m (node_grid s cur) (node_grid s p)"
    and s': "s' = s\<lparr>nq := heap_Push lt p (nq s), openList := (openList s)(node_key s p \<mapsto> p)\<rparr>"
  shows "extends m start s s' \<and> seen s' (node_key s p)"
proof -
  have "core m start s'"
    unfolding s' by (rule core_push [OF core _ p new]) (use cur nd in \<open>auto simp: has_father_def\<close>)
  moreover have "set (heap_Push lt p (nq s)) = insert p (set (nq s))"
    by (metis mset_heap_Push set_mset_mset set_mset_add_mset_insert)
  ultimately show ?thesis by (auto simp: extends_def seen_def s')
qed

lemma extends_append:
  assumes "core m start s"
  shows "extends m start s (s\<lparr>nodes := nodes s @ [nd]\<rparr>)"
  using core_extend [OF assms] coreD(1,2) [OF assms] by (auto simp: extends_def nth_append)

lemma visit_ok:
  assumes wf: "map_wf m" and core: "core m start s" and cur: "cur \<in> set (popped s)"
    and g: "g \<in> set (neighbours (node_grid s cur) m)"
  shows "case visit m start e cur g s of
           Inl r \<Rightarrow> good_outcome m start e r
         | Inr s' \<Rightarrow> extends m start s s' \<and> visited m e s' (node_grid s cur) g"
proof (cases "CanReachNeighborGrid (node_grid s cur) g m")
  case False
  then show ?thesis using core by (simp add: visit_def extends_def visited_def)
next
  case True
  define nd where "nd = newNode (nodes s) g (Some cur) (Some e)"
  define s1 where "s1 = s\<lparr>nodes := nodes s @ [nd]\<rparr>"
  have step: "step_ok m (node_grid s cur) g" using g True by (simp add: step_ok_def)
  have nd: "n_grid nd = g" "father nd = Some cur" by (simp_all add: nd_def)
  have ext: "extends m start s s1" unfolding s1_def by (rule extends_append [OF core])
  then have core1: "core m start s1" and cur1: "cur \<in> set (popped s1)" using cur by (simp_all add: extends_def)
  have step1: "step_ok m (node_grid s1 cur) g" using ext step cur by (simp add: extends_def)
  have p: "nodes s1 ! length (nodes s) = nd" "length (nodes s) < length (nodes s1)" "length (nodes s) \<noteq> 0"
    using coreD(6) [OF core] by (simp_all add: s1_def)
  show ?thesis
  proof (cases "ToUniqueKey g = ToUniqueKey e")
    case True
    with \<open>CanReachNeighborGrid (node_grid s cur) g m\<close> show ?thesis
      using build_road_found [OF core cur nd(2), of e] step nd
      by (simp add: visit_def Let_def good_outcome_def flip: nd_def)
  next
    case ne: False
    show ?thesis
    proof (cases "closeList s (ToUniqueKey g) \<noteq> None")
      case cl: True
      then have "seen s1 (ToUniqueKey g)" using open_or_closed_seen [OF core1] by (simp add: s1_def)
      with True ne cl ext nd show ?thesis
        by (auto simp: visit_def Let_def visited_def s1_def simp flip: nd_def)
    next
      case ncl: False
      show ?thesis
      proof (cases "openList s (ToUniqueKey g)")
        case None
        let ?s2 = "s1\<lparr>nq := heap_Push (node_less (nodes s1)) (length (nodes s)) (nq s1), openList := (openList s1)(ToUniqueKey g \<mapsto> length (nodes s))\<rparr>"
        have "extends m start s1 ?s2 \<and> seen ?s2 (ToUniqueKey g)"
          using extends_push [OF core1 cur1 p(2,3), where s' = ?s2 and lt = "node_less (nodes s1)"] None ncl step1 p(1) nd
          by (simp add: s1_def)
        moreover have "visit m start e cur g s = Inr ?s2"
          using True ne ncl None nd by (simp add: visit_def Let_def s1_def flip: nd_def)
        ultimately show ?thesis using extends_trans [OF ext] ne by (simp add: visited_def)
      next
        case (Some old)
        have seen: "seen s1 (ToUniqueKey g)" using open_or_closed_seen [OF core1] Some by (simp add: s1_def)
        have o1: "openList s1 (ToUniqueKey g) = Some old" using Some by (simp add: s1_def)
        have upd: "extends m start s (s1\<lparr>nodes := (nodes s1)[old := nd']\<rparr>) \<and> seen (s1\<lparr>nodes := (nodes s1)[old := nd']\<rparr>) (ToUniqueKey g)"
          if "n_grid nd' = node_grid s1 old" "father nd' = Some cur" for nd'
          using extends_update [OF core1 cur1 step1 o1 wf that] extends_trans [OF ext] extends_seen seen by blast
        show ?thesis
          using True ne ncl Some nd ext seen upd
          by (auto simp: visit_def Let_def visited_def s1_def simp flip: nd_def)
      qed
    qed
  qed
qed

lemma visited_extends: "visited m e s g h \<Longrightarrow> extends m start s s' \<Longrightarrow> visited m e s' g h"
  using extends_seen by (auto simp: visited_def)

lemma scan_ok:
  assumes wf: "map_wf m"
  shows "core m start s \<Longrightarrow> cur \<in> set (popped s) \<Longrightarrow> set gs \<subseteq> set (neighbours (node_grid s cur) m) \<Longrightarrow>
    (case scan m start e cur gs s of
       Inl r \<Rightarrow> good_outcome m start e r
     | Inr s' \<Rightarrow> extends m start s s' \<and> (\<forall>h\<in>set gs. visited m e s' (node_grid s cur) h))"
proof (induction gs arbitrary: s)
  case Nil
  then show ?case by (simp add: extends_def)
next
  case (Cons g gs)
  note v = visit_ok [OF wf Cons.prems(1,2), of g e]
  show ?case
  proof (cases "visit m start e cur g s")
    case (Inl r)
    with v Cons.prems(3) show ?thesis by simp
  next
    case (Inr s1)
    with v Cons.prems(3) have s1: "extends m start s s1" "visited m e s1 (node_grid s cur) g" by simp_all
    then have e1: "core m start s1" "cur \<in> set (popped s1)" "node_grid s1 cur = node_grid s cur"
      using Cons.prems(2) by (simp_all add: extends_def)
    have "set gs \<subseteq> set (neighbours (node_grid s1 cur) m)" using e1(3) Cons.prems(3) by simp
    from Cons.IH [OF e1(1,2) this] Inr s1 e1(3) show ?thesis
      using extends_trans [OF s1(1)] visited_extends [OF s1(2)] by (auto split: sum.splits)
  qed
qed

text \<open>Between two rounds of the outer loop the neighbours of every closed node have been visited.\<close>

definition loop_inv :: "NavMap \<Rightarrow> Grid \<Rightarrow> Grid \<Rightarrow> search \<Rightarrow> bool" where
  "loop_inv m start e s \<longleftrightarrow> core m start s \<and>
     (\<forall>p\<in>set (popped s). \<forall>h\<in>set (neighbours (node_grid s p) m). visited m e s (node_grid s p) h)"

lemma round_ok:
  assumes wf: "map_wf m" and inv: "loop_inv m start e s" and nq: "nq s \<noteq> []" and pop: "pop_current s = (cur, s1)"
  shows "case scan m start e cur (neighbours (node_grid s1 cur) m) s1 of
           Inl r \<Rightarrow> good_outcome m start e r
         | Inr s' \<Rightarrow> loop_inv m start e s' \<and> length (popped s') = Suc (length (popped s))"
proof -
  have core: "core m start s" using inv by (simp add: loop_inv_def)
  note P = pop_current_mset [OF nq pop]
  have core1: "core m start s1" by (rule core_pop [OF core nq pop])
  have set_nq: "set (nq s) = insert cur (set (nq s1))" using P(1) by (metis set_mset_mset set_mset_add_mset_insert)
  then have seen: "seen s1 k = seen s k" for k by (auto simp: seen_def P(2,3))
  have cur1: "cur \<in> set (popped s1)" by (simp add: P(3))
  note sc = scan_ok [OF wf core1 cur1 subset_refl, of e]
  have old: "visited m e s1 (node_grid s1 p) h" if "p \<in> set (popped s)" "h \<in> set (neighbours (node_grid s1 p) m)" for p h
    using inv that by (simp add: loop_inv_def visited_def seen P(2))
  show ?thesis
  proof (cases "scan m start e cur (neighbours (node_grid s1 cur) m) s1")
    case (Inl r)
    with sc show ?thesis by simp
  next
    case (Inr s2)
    with sc have e: "extends m start s1 s2" "\<And>h. h \<in> set (neighbours (node_grid s1 cur) m) \<Longrightarrow> visited m e s2 (node_grid s1 cur) h"
      by simp_all
    have "visited m e s2 (node_grid s2 p) h" if "p \<in> set (popped s2)" "h \<in> set (neighbours (node_grid s2 p) m)" for p h
    proof -
      have p: "p \<in> set (popped s1)" "node_grid s2 p = node_grid s1 p" using e(1) that(1) by (auto simp: extends_def)
      show ?thesis
      proof (cases "p = cur")
        case True
        then show ?thesis using e(2) p(2) that(2) by simp
      next
        case False
        then have "p \<in> set (popped s)" using p(1) P(3) by auto
        then show ?thesis using visited_extends [OF old e(1)] p(2) that(2) by simp
      qed
    qed
    then show ?thesis using Inr e(1) by (simp add: loop_inv_def extends_def P(3))
  qed
qed

text \<open>There are no more nodes in the queue and closed than there are cells, and the start.\<close>

lemma closed_bound:
  assumes wf: "map_wf m" and core: "core m start s"
  shows "length (popped s @ nq s) \<le> Suc (nat (maxX m) * nat (maxY m))"
proof -
  let ?A = "set (popped s @ nq s) - {0}"
  let ?f = "\<lambda>p. (X (node_grid s p), Y (node_grid s p))"
  have "inj_on (node_key s) (set (popped s @ nq s))" using coreD(3) [OF core] distinct_map by blast
  then have "inj_on ?f ?A" by (auto simp: inj_on_def ToUniqueKey_inj)
  then have "card ?A = card (?f ` ?A)" by (simp add: card_image)
  also have "\<dots> \<le> card ({0..<maxX m} \<times> {0..<maxY m})"
    using node_on_map [OF wf core] by (intro card_mono) (auto simp: on_map_def)
  also have "\<dots> = nat (maxX m) * nat (maxY m)" by (simp add: card_cartesian_product)
  finally have "card ?A \<le> nat (maxX m) * nat (maxY m)" .
  moreover have "card (set (popped s @ nq s)) \<le> Suc (card ?A)" 
    using card_Suc_Diff1 [of "set (popped s @ nq s)" 0] by (cases "0 \<in> set (popped s @ nq s)") simp_all
  moreover have "card (set (popped s @ nq s)) = length (popped s @ nq s)" using core_distinct [OF core] distinct_card by blast
  ultimately show ?thesis by simp
qed

lemma search_loop_ok:
  assumes wf: "map_wf m" and st: "GetNeighborGrid start m = Some (neighbours start m)"
  shows "loop_inv m start e s \<Longrightarrow> Suc (nat (maxX m) * nat (maxY m)) < fuel + length (popped s) \<Longrightarrow>
    (case search_loop fuel m start e s of
       None \<Rightarrow> False
     | Some (Inl r) \<Rightarrow> good_outcome m start e r
     | Some (Inr s') \<Rightarrow> loop_inv m start e s' \<and> nq s' = [])"
proof (induction fuel arbitrary: s)
  case 0
  have "core m start s" using "0.prems"(1) by (simp add: loop_inv_def)
  then show ?case using closed_bound [OF wf] "0.prems"(2) by fastforce
next
  case (Suc fuel)
  show ?case
  proof (cases "nq s = []")
    case True
    then show ?thesis using Suc.prems(1) by simp
  next
    case False
    obtain cur s1 where pop: "pop_current s = (cur, s1)" by fastforce
    note r = round_ok [OF wf Suc.prems(1) False pop]
    have core: "core m start s" using Suc.prems(1) by (simp add: loop_inv_def)
    note P = pop_current_mset [OF False pop]
    have cur: "cur \<in> set (popped s @ nq s)" using P(1) by (metis in_set_conv_decomp set_append Un_iff set_mset_mset union_single_eq_member)
    have g: "GetNeighborGrid (node_grid s1 cur) m = Some (neighbours (node_grid s1 cur) m)"
    proof (cases "cur = 0")
      case True
      then show ?thesis using coreD(7) [OF core] st P(2) by simp
    qed (use node_on_map [OF wf core cur] GetNeighborGrid_on_map [OF wf] P(2) in simp)
    show ?thesis
    proof (cases "scan m start e cur (neighbours (node_grid s1 cur) m) s1")
      case (Inl r)
      with r False pop g show ?thesis by simp
    next
      case (Inr s2)
      with r have s2: "loop_inv m start e s2" "length (popped s2) = Suc (length (popped s))" by simp_all
      then show ?thesis using Suc.IH [OF s2(1)] Suc.prems(2) Inr False pop g by simp
    qed
  qed
qed

text \<open>A search that closed everything it reached has closed every cell of a walk.\<close>

lemma exhausted_no_walk:
  assumes wf: "map_wf m" and inv: "loop_inv m start e s" and nq: "nq s = []"
    and w: "walk m start e gs" and own: "\<And>g. g \<in> set (butlast gs) \<Longrightarrow> ToUniqueKey g = ToUniqueKey start \<Longrightarrow> g = start"
  shows False
proof -
  have core: "core m start s" using inv by (simp add: loop_inv_def)
  note D = coreD [OF core]
  have ne: "popped s \<noteq> []" using D(9) nq by auto
  have closed: "(start # gs) ! i \<in> node_grid s ` set (popped s) \<and> (0 < i \<longrightarrow> ToUniqueKey (gs ! (i - 1)) \<noteq> ToUniqueKey e)"
    if "i \<le> length gs" for i
    using that
  proof (induction i)
    case 0
    have "popped s ! 0 \<in> set (popped s)" using ne by (intro nth_mem) simp
    moreover have "node_grid s (popped s ! 0) = start" using D(7,10) ne by simp
    ultimately show ?case by (metis image_eqI less_irrefl nth_Cons_0)
  next
    case (Suc i)
    then obtain p where p: "p \<in> set (popped s)" "(start # gs) ! i = node_grid s p" by auto
    have i: "i < length gs" using Suc.prems by simp
    have "step_ok m ((start # gs) ! i) ((start # gs) ! Suc i)"
      using w i successively_nth [of "step_ok m" "start # gs" i] by (simp add: walk_def)
    then have step: "step_ok m (node_grid s p) (gs ! i)" using p(2) by simp
    then have v: "ToUniqueKey (gs ! i) \<noteq> ToUniqueKey e" "seen s (ToUniqueKey (gs ! i))"
      using inv p(1) by (auto simp: loop_inv_def visited_def step_ok_def)
    then obtain q where q: "q \<in> set (popped s)" "node_key s q = ToUniqueKey (gs ! i)" by (auto simp: seen_def nq)
    have "i \<noteq> length gs - 1" using w v(1) by (auto simp: walk_def last_conv_nth)
    then have "gs ! i \<in> set (butlast gs)" using i by (metis in_set_conv_nth length_butlast less_antisym nth_butlast Suc_pred' length_greater_0_conv list.size(3) not_less_zero)
    note o = own [OF this]
    have "gs ! i \<in> node_grid s ` set (popped s)"
    proof (cases "ToUniqueKey (gs ! i) = ToUniqueKey start")
      case True
      have "0 \<in> set (popped s)" using D(10) ne by (metis length_greater_0_conv nth_mem)
      then show ?thesis using o [OF True] D(7) by (metis image_eqI)
    next
      case False
      then have "q \<noteq> 0" using q(2) D(7) by metis
      then have "on_map m (node_grid s q)" using node_on_map [OF wf core] q(1) by simp
      moreover have "on_map m (gs ! i)" using step neighbor_on_map(1) [OF wf] by (auto simp: step_ok_def)
      ultimately have "node_grid s q = gs ! i" using on_map_unique q(2) by blast
      then show ?thesis using q(1) by (metis image_eqI)
    qed
    then show ?case using v(1) by simp
  qed
  have "gs \<noteq> []" "ToUniqueKey (last gs) = ToUniqueKey e" using w by (simp_all add: walk_def)
  then show False using closed [of "length gs"] by (simp add: last_conv_nth)
qed

lemma walk_on_map: "map_wf m \<Longrightarrow> walk m start e gs \<Longrightarrow> g \<in> set gs \<Longrightarrow> on_map m g"
proof -
  assume a: "map_wf m" "walk m start e gs" "g \<in> set gs"
  have "on_map m g" if "successively (step_ok m) (s # gs)" "g \<in> set gs" for s gs
    using that by (induction gs arbitrary: s) (auto simp: step_ok_def dest: neighbor_on_map(1) [OF a(1)])
  then show ?thesis using a by (auto simp: walk_def)
qed

lemma astar_endless:
  assumes "GetNeighborGrid start m = None"
  shows "FindPathByAStar start e m = None"
proof -
  have "nq (search_init start) = [0]" "nodes (search_init start) = [newNode [] start None None]"
    by (simp_all add: search_init_def Let_def heap_Push_def heap_up.simps)
  moreover have "fst (pop_current (search_init start)) = 0 \<and> nodes (snd (pop_current (search_init start))) = [newNode [] start None None]"
    using calculation by (simp add: pop_current_def heap_Pop_def heap_down.simps swap_def Let_def)
  ultimately show ?thesis using assms by (simp add: FindPathByAStar_def numeral_2_eq_2 split_beta)
qed

lemma init_inv: "loop_inv m start e (search_init start)"
  using core_init [of m start] by (simp add: loop_inv_def) (simp add: search_init_def Let_def)

text \<open>
  Property C23. On every map made by \<^verbatim>\<open>NewNavMap\<close> and \<^verbatim>\<open>AddGrid\<close> (its cells carry their own coordinates) and for 64-bit
  coordinates of the start, \<^verbatim>\<open>FindPathByAStar\<close> fails to return exactly when the loops over the neighbours of the start never
  end, which happens for a start whose coordinate is one less than the greatest integer; otherwise it returns. A road it
  returns is listed from the end back to the start, each of its steps goes to a neighbouring cell that can be climbed from
  the one before, and it does not come back to the cell of the start before its end. It fails with the error
  \<^verbatim>\<open>can't find road\<close> only when there is no such walk, except walks that pass through the map's own cell at the
  coordinates of a start that is not that cell; in particular only when there is no walk at all if the start is a cell of the
  map. This holds although the order in which nodes are taken from the queue is not that of their keys once a key was
  lowered in place.
\<close>

theorem astar_finds_road_iff:
  assumes "map_wf m" "go_int (X start)" "go_int (Y start)"
  shows "case FindPathByAStar start e m of
           None \<Rightarrow> endless start m
         | Some (Inr road) \<Rightarrow> \<not> endless start m \<and> (\<exists>gs. road = rev (start # gs) \<and> walk m start e gs \<and> direct start gs)
         | Some (Inl err) \<Rightarrow> \<not> endless start m \<and> err = CantFindRoad \<and>
             (\<forall>gs. walk m start e gs \<longrightarrow> \<not> on_map m start \<and> (\<exists>g\<in>set (butlast gs). ToUniqueKey g = ToUniqueKey start \<and> g \<noteq> start))"
proof (cases "endless start m")
  case True
  have "small m" using assms(1) by (simp add: map_wf_def)
  then have "GetNeighborGrid start m = None" using GetNeighborGrid_exact [OF assms(2,3)] True by simp
  then have "FindPathByAStar start e m = None" by (rule astar_endless)
  then show ?thesis using True by simp
next
  case False
  define r where "r = search_loop (nat (maxX m) * nat (maxY m) + 2) m start e (search_init start)"
  have nb: "GetNeighborGrid start m = Some (neighbours start m)" using assms False by (simp add: GetNeighborGrid_exact map_wf_def)
  have "popped (search_init start) = []" by (simp add: search_init_def Let_def)
  then have r: "case r of None \<Rightarrow> False | Some (Inl r) \<Rightarrow> good_outcome m start e r
      | Some (Inr s') \<Rightarrow> loop_inv m start e s' \<and> nq s' = []"
    unfolding r_def by (intro search_loop_ok [OF assms(1) nb init_inv]) simp
  have no: "\<not> on_map m start \<and> (\<exists>g\<in>set (butlast gs). ToUniqueKey g = ToUniqueKey start \<and> g \<noteq> start)"
    if w: "walk m start e gs" and i: "loop_inv m start e s" "nq s = []" for gs s
  proof -
    obtain g where g: "g \<in> set (butlast gs)" "ToUniqueKey g = ToUniqueKey start" "g \<noteq> start"
      using exhausted_no_walk [OF assms(1) i w] by blast
    have "on_map m g" by (rule walk_on_map [OF assms(1) w]) (use g(1) in_set_butlastD in fast)
    with g show ?thesis using on_map_unique by blast
  qed
  show ?thesis using r no False unfolding FindPathByAStar_def r_def [symmetric]
    by (auto simp: good_outcome_def split: option.splits sum.splits)
qed

definition flat_map :: NavMap where
  "flat_map = \<lparr>grids = [[fresh_grid 0 0], [fresh_grid 1 0]], maxX = 2, maxY = 1, canReachHeightDifference = Fin 1\<rparr>"

lemma flat_map_new: "NewNavMap 2 1 (Fin 1) = Some flat_map"
  by (simp add: flat_map_def NewNavMap_def maxAlloc_def upt_rec numeral_2_eq_2)

lemma flat_map_road:
  "FindPathByAStar (fresh_grid 0 0) (fresh_grid 1 0) flat_map = Some (Inr [fresh_grid 1 0, fresh_grid 0 0])"
proof -
  let ?s = "fresh_grid 0 0" and ?e = "fresh_grid 1 0"
  have "representable (of_int 10000)" by (rule representable_small_int) simp_all
  then have reach: "CanReachNeighborGrid ?s ?e flat_map"
    by (simp add: CanReachNeighborGrid_def fresh_grid_def flat_map_def representable_def)
  have nb: "GetNeighborGrid ?s flat_map = Some [?e]" by code_simp
  have ini: "search_init ?s = \<lparr>nodes = [newNode [] ?s None None], nq = [0], openList = [ToUniqueKey ?s \<mapsto> 0],
      closeList = Map.empty, popped = []\<rparr>"
    by (simp add: search_init_def Let_def heap_Push_def heap_up.simps)
  have "fst (pop_current (search_init ?s)) = 0 \<and> nodes (snd (pop_current (search_init ?s))) = [newNode [] ?s None None]"
    by (simp add: ini pop_current_def heap_Pop_def heap_down.simps swap_def Let_def)
  then show ?thesis
    by (simp add: FindPathByAStar_def flat_map_def [symmetric] nb visit_def reach Let_def split_beta)
       (simp add: ini)
qed

theorem astar_finds_road_iff_witness:
  "map_wf flat_map \<and> FindPathByAStar (fresh_grid 0 0) (fresh_grid 1 0) flat_map = Some (Inr [fresh_grid 1 0, fresh_grid 0 0]) \<and>
   (\<exists>gs. [fresh_grid 1 0, fresh_grid 0 0] = rev (fresh_grid 0 0 # gs) \<and> walk flat_map (fresh_grid 0 0) (fresh_grid 1 0) gs) \<and>
   FindPathByAStar (fresh_grid (2 ^ 63 - 2) 0) (fresh_grid 1 0) flat_map = None"
proof -
  have wf: "map_wf flat_map" by (rule NewNavMap_wf [OF flat_map_new])
  have "endless (fresh_grid (2 ^ 63 - 2) 0) flat_map" by (simp add: endless_def fresh_grid_def)
  then have "FindPathByAStar (fresh_grid (2 ^ 63 - 2) 0) (fresh_grid 1 0) flat_map = None"
    using astar_finds_road_iff [OF wf, of "fresh_grid (2 ^ 63 - 2) 0" "fresh_grid 1 0"]
    by (auto simp: go_int_def fresh_grid_def split: option.splits sum.splits)
  then show ?thesis
    using wf flat_map_road astar_finds_road_iff [OF wf, of "fresh_grid 0 0" "fresh_grid 1 0"] by (auto simp: go_int_def fresh_grid_def)
qed

end
