(* ===== verification/Actor.thy ===== *)
theory Actor
  imports Prelude "HOL-Library.Sublist"
begin

text \<open>
  \<^verbatim>\<open>zActor/actor.go\<close>: an actor with three bounded priority lanes and a lane for the latest message, one
  consumer goroutine, and a supervisor that restarts it after a panic.

  Every locked section and every receive is one operation. The goroutines of a generation (the
  caller of \<^verbatim>\<open>Start\<close> until it launches the consumer, then the consumer and its successors) never
  overlap, so that a generation has one program counter \<open>run_pc\<close>; \<open>thread_step\<close> is its next
  operation, and \<open>actor_step\<close> interleaves it with the callers of the other methods. The outcome of
  a hook or of a message handler, the branch of a \<^verbatim>\<open>select\<close> and the clock are inputs.

  The lists \<open>admitted\<close>, \<open>removed\<close>, \<open>hook_log\<close> and \<open>restart_log\<close> and the number \<open>crashes\<close> record what happened; no operation
  reads them.
\<close>

section \<open>Types\<close>

datatype actor_error =
    ErrActorNotRunning | ErrActorStarting | ErrActorRunning | ErrActorRestarting | ErrActorStopping | ErrActorStopped
  | ErrActorMailboxFull | ErrActorNilMessage | ErrActorInvalidPriority | ErrActorUnsupportedSupervisorStrategy
  | ErrActorLifecycleHookPanic

type_synonym SupervisorStrategy = int

definition SupervisorStrategyRestart :: SupervisorStrategy where
  "SupervisorStrategyRestart = 0"

definition SupervisorStrategyStop :: SupervisorStrategy where
  "SupervisorStrategyStop = 1"

record SupervisorConfig =
  Strategy :: SupervisorStrategy
  MaxRestarts :: int
  RestartWindow :: int
  RestartBackoff :: int

definition DefaultSupervisorConfig :: SupervisorConfig where
  "DefaultSupervisorConfig =
     \<lparr>Strategy = SupervisorStrategyRestart, MaxRestarts = 3, RestartWindow = 60 * 10 ^ 9, RestartBackoff = 10 ^ 9\<rparr>"

type_synonym MessagePriority = int

definition PriorityHigh :: MessagePriority where "PriorityHigh = 0"
definition PriorityNormal :: MessagePriority where "PriorityNormal = 1"
definition PriorityLow :: MessagePriority where "PriorityLow = 2"

datatype ActorState =
  ActorStateNew | ActorStateStarting | ActorStateRunning | ActorStateRestarting | ActorStateStopping | ActorStateStopped

datatype actorLane = actorLaneHigh | actorLaneNormal | actorLaneLow | actorLaneLatest

definition maxHighPriorityBurst :: int where "maxHighPriorityBurst = 8"
definition maxNonLowBurst :: int where "maxNonLowBurst = 16"

text \<open>
  Hooks and dispatchers are objects of the application, named by a number. \<open>run_self\<close> is the
  dispatcher that the goroutine of the run was started with.
\<close>

record actorRun =
  stopCh :: bool
  doneCh :: bool
  finishOnce :: bool
  run_hooks :: "nat option"
  run_self :: "nat option"

definition newActorRun :: "nat option \<Rightarrow> nat option \<Rightarrow> actorRun" where
  "newActorRun hks slf = \<lparr>stopCh = False, doneCh = False, finishOnce = False, run_hooks = hks, run_self = slf\<rparr>"

record 'm BaseActor =
  actor_id :: int
  normalPriority :: "'m list"
  highPriority :: "'m list"
  lowPriority :: "'m list"
  latest :: "'m list"
  chanSize :: nat
  act_state :: ActorState
  supervisorCfg :: SupervisorConfig
  restartTimes :: "int list"
  hooks :: "nat option"
  self :: "nat option"
  current :: "nat option"
  accepted :: uint64
  rejectedFull :: uint64
  rejectedState :: uint64
  latestReplaced :: uint64
  panics :: uint64
  restarts :: uint64
  abandoned :: uint64
  hookFailures :: uint64

definition newBaseActor :: "int \<Rightarrow> int \<Rightarrow> SupervisorConfig \<Rightarrow> 'm BaseActor" where
  "newBaseActor i sz cfg =
     \<lparr>actor_id = i, normalPriority = [], highPriority = [], lowPriority = [], latest = [],
      chanSize = nat (if sz \<le> 0 then 1024 else sz), act_state = ActorStateNew, supervisorCfg = cfg, restartTimes = [],
      hooks = None, self = None, current = None, accepted = 0, rejectedFull = 0, rejectedState = 0, latestReplaced = 0,
      panics = 0, restarts = 0, abandoned = 0, hookFailures = 0\<rparr>"

definition NewBaseActor :: "int \<Rightarrow> int \<Rightarrow> 'm BaseActor" where
  "NewBaseActor i sz = newBaseActor i sz DefaultSupervisorConfig"

section \<open>Lanes and the scheduler\<close>

fun lane_queue :: "actorLane \<Rightarrow> 'm BaseActor \<Rightarrow> 'm list" where
  "lane_queue actorLaneHigh a = highPriority a"
| "lane_queue actorLaneNormal a = normalPriority a"
| "lane_queue actorLaneLow a = lowPriority a"
| "lane_queue actorLaneLatest a = latest a"

fun set_queue :: "actorLane \<Rightarrow> 'm list \<Rightarrow> 'm BaseActor \<Rightarrow> 'm BaseActor" where
  "set_queue actorLaneHigh q a = a\<lparr>highPriority := q\<rparr>"
| "set_queue actorLaneNormal q a = a\<lparr>normalPriority := q\<rparr>"
| "set_queue actorLaneLow q a = a\<lparr>lowPriority := q\<rparr>"
| "set_queue actorLaneLatest q a = a\<lparr>latest := q\<rparr>"

record actorScheduler =
  highBurst :: int
  nonLowBurst :: int

definition new_scheduler :: actorScheduler where
  "new_scheduler = \<lparr>highBurst = 0, nonLowBurst = 0\<rparr>"

fun record_lane :: "actorLane \<Rightarrow> actorScheduler \<Rightarrow> actorScheduler" where
  "record_lane actorLaneHigh s = s\<lparr>highBurst := highBurst s + 1, nonLowBurst := nonLowBurst s + 1\<rparr>"
| "record_lane actorLaneNormal s = s\<lparr>highBurst := 0, nonLowBurst := nonLowBurst s + 1\<rparr>"
| "record_lane actorLaneLow s = s\<lparr>highBurst := 0, nonLowBurst := 0\<rparr>"
| "record_lane actorLaneLatest s = s\<lparr>highBurst := 0, nonLowBurst := 0\<rparr>"

text \<open>
  \<^verbatim>\<open>tryReceiveFair\<close> tries the lanes one after the other; this is the order. The lanes may change
  between two tries, hence the consumer below carries the lanes it has still to try.
\<close>

definition fair_order :: "actorScheduler \<Rightarrow> actorLane list" where
  "fair_order s =
     (if nonLowBurst s \<ge> maxNonLowBurst then [actorLaneLow, actorLaneLatest] else []) @
     (if highBurst s \<ge> maxHighPriorityBurst then [actorLaneNormal, actorLaneLow, actorLaneLatest] else []) @
     [actorLaneHigh, actorLaneNormal, actorLaneLow, actorLaneLatest]"

fun tryReceive :: "actorLane list \<Rightarrow> 'm BaseActor \<Rightarrow> ('m \<times> actorLane \<times> 'm BaseActor) option" where
  "tryReceive [] a = None"
| "tryReceive (l # ls) a =
     (case lane_queue l a of [] \<Rightarrow> tryReceive ls a | x # q \<Rightarrow> Some (x, l, set_queue l q a))"

definition tryReceiveFair :: "actorScheduler \<Rightarrow> 'm BaseActor \<Rightarrow> ('m \<times> actorLane \<times> 'm BaseActor) option" where
  "tryReceiveFair s a = tryReceive (fair_order s) a"

section \<open>The state with its goroutines\<close>

datatype drain_mode = InLoop | InDrain | InPanicDrain

datatype 'm run_pc =
    S_OnStart | S_Publish | S_FailLock | S_FailHook | S_FailDone
  | C_Top actorScheduler
  | C_Poll actorScheduler "actorLane list"
  | C_Block actorScheduler
  | C_Process actorScheduler 'm drain_mode
  | C_Drain actorScheduler "actorLane list" bool
  | C_Panic | C_Backoff | C_OnRestart | C_Relaunch | C_RestartFail | C_Abandon
  | C_FinishHook | C_FinishLock | C_Exit

datatype fate = Handled | Replaced | Abandoned

datatype hook_kind = OnStart | OnStop | OnRestart

record 'm asys =
  act :: "'m BaseActor"
  runs :: "actorRun list"
  pcs :: "'m run_pc list"
  clk :: int
  admitted :: "(actorLane \<times> 'm) list"
  removed :: "(actorLane \<times> 'm \<times> fate) list"
  hook_log :: "(nat \<times> hook_kind) list"
  restart_log :: "(nat \<times> int) list"
  crashes :: nat

definition actor_init :: "int \<Rightarrow> int \<Rightarrow> SupervisorConfig \<Rightarrow> 'm asys" where
  "actor_init i sz cfg =
     \<lparr>act = newBaseActor i sz cfg, runs = [], pcs = [], clk = 0, admitted = [], removed = [], hook_log = [], restart_log = [], crashes = 0\<rparr>"

abbreviation set_pc :: "nat \<Rightarrow> 'm run_pc \<Rightarrow> 'm asys \<Rightarrow> 'm asys" where
  "set_pc r p s \<equiv> s\<lparr>pcs := (pcs s)[r := p]\<rparr>"

abbreviation set_state :: "ActorState \<Rightarrow> 'm asys \<Rightarrow> 'm asys" where
  "set_state st s \<equiv> s\<lparr>act := (act s)\<lparr>act_state := st\<rparr>\<rparr>"

abbreviation upd_run :: "nat \<Rightarrow> (actorRun \<Rightarrow> actorRun) \<Rightarrow> 'm asys \<Rightarrow> 'm asys" where
  "upd_run r f s \<equiv> s\<lparr>runs := (runs s)[r := f (runs s ! r)]\<rparr>"

definition requestStop :: "nat \<Rightarrow> 'm asys \<Rightarrow> 'm asys" where
  "requestStop r s = upd_run r (\<lambda>x. x\<lparr>stopCh := True\<rparr>) s"

section \<open>Methods of the callers\<close>

fun actorStateAdmissionError :: "ActorState \<Rightarrow> actor_error option" where
  "actorStateAdmissionError ActorStateRunning = None"
| "actorStateAdmissionError ActorStateRestarting = None"
| "actorStateAdmissionError ActorStateStarting = Some ErrActorStarting"
| "actorStateAdmissionError ActorStateStopping = Some ErrActorStopping"
| "actorStateAdmissionError ActorStateStopped = Some ErrActorStopped"
| "actorStateAdmissionError ActorStateNew = Some ErrActorNotRunning"

definition supportedSupervisorStrategy :: "SupervisorStrategy \<Rightarrow> bool" where
  "supportedSupervisorStrategy st \<longleftrightarrow> st = SupervisorStrategyRestart \<or> st = SupervisorStrategyStop"

definition SetLifecycleHooks :: "nat option \<Rightarrow> 'm asys \<Rightarrow> 'm asys" where
  "SetLifecycleHooks h s = s\<lparr>act := (act s)\<lparr>hooks := h\<rparr>\<rparr>"

definition SetSelf :: "nat option \<Rightarrow> 'm asys \<Rightarrow> 'm asys" where
  "SetSelf x s = s\<lparr>act := (act s)\<lparr>self := x\<rparr>\<rparr>"

text \<open>The dispatcher of a run: the concrete actor, or the actor itself.\<close>

definition processFunc :: "int \<Rightarrow> nat option \<Rightarrow> nat + int" where
  "processFunc i slf = (case slf of Some x \<Rightarrow> Inl x | None \<Rightarrow> Inr i)"

text \<open>The first section of \<^verbatim>\<open>Start\<close>; the rest are the program counters \<open>S_OnStart\<close> to \<open>S_FailDone\<close>.\<close>

definition Start_begin :: "'m asys \<Rightarrow> actor_error option \<times> 'm asys" where
  "Start_begin s =
     (case act_state (act s) of
        ActorStateStarting \<Rightarrow> (Some ErrActorStarting, s)
      | ActorStateStopping \<Rightarrow> (Some ErrActorStopping, s)
      | ActorStateRunning \<Rightarrow> (Some ErrActorRunning, s)
      | ActorStateRestarting \<Rightarrow> (Some ErrActorRestarting, s)
      | _ \<Rightarrow>
          if \<not> supportedSupervisorStrategy (Strategy (supervisorCfg (act s)))
          then (Some ErrActorUnsupportedSupervisorStrategy, s)
          else (None, s\<lparr>runs := runs s @ [newActorRun (hooks (act s)) (self (act s))],
                        pcs := pcs s @ [S_OnStart],
                        act := (act s)\<lparr>current := Some (length (runs s)), restartTimes := [], act_state := ActorStateStarting\<rparr>\<rparr>))"

definition beginStop :: "'m asys \<Rightarrow> (actor_error + nat) \<times> 'm asys" where
  "beginStop s =
     (case act_state (act s) of
        ActorStateStarting \<Rightarrow> (Inl ErrActorStarting, s)
      | ActorStateStopping \<Rightarrow> (Inl ErrActorStopping, s)
      | ActorStateStopped \<Rightarrow> (Inl ErrActorStopped, s)
      | ActorStateNew \<Rightarrow> (Inl ErrActorNotRunning, s)
      | _ \<Rightarrow> (let r = the (current (act s)) in (Inr r, requestStop r (set_state ActorStateStopping s))))"

definition actor_Stop :: "'m asys \<Rightarrow> actor_error option \<times> 'm asys" where
  "actor_Stop s = (case beginStop s of (Inl e, s) \<Rightarrow> (Some e, s) | (Inr r, s) \<Rightarrow> (None, s))"

text \<open>What the waiting part of \<^verbatim>\<open>StopContext\<close> and \<^verbatim>\<open>WaitStopped\<close> answers: \<open>None\<close> while it waits.\<close>

datatype wait_result = WaitDone | WaitCancelled

definition wait_done :: "nat \<Rightarrow> bool \<Rightarrow> 'm asys \<Rightarrow> wait_result set" where
  "wait_done r cancelled s =
     (if doneCh (runs s ! r) then {WaitDone} else {}) \<union> (if cancelled then {WaitCancelled} else {})"

definition WaitStopped_begin :: "'m asys \<Rightarrow> actor_error option + nat" where
  "WaitStopped_begin s =
     (if act_state (act s) = ActorStateStopped then Inl None
      else case current (act s) of
             None \<Rightarrow> Inl (Some ErrActorNotRunning)
           | Some r \<Rightarrow> if act_state (act s) = ActorStateNew then Inl (Some ErrActorNotRunning) else Inr r)"

definition mailbox :: "MessagePriority \<Rightarrow> actor_error + actorLane" where
  "mailbox p =
     (if p = PriorityHigh then Inr actorLaneHigh
      else if p = PriorityNormal then Inr actorLaneNormal
      else if p = PriorityLow then Inr actorLaneLow
      else Inl ErrActorInvalidPriority)"

definition send :: "'m \<Rightarrow> MessagePriority \<Rightarrow> 'm asys \<Rightarrow> actor_error option \<times> 'm asys" where
  "send x p s =
     (case mailbox p of
        Inl e \<Rightarrow> (Some e, s)
      | Inr l \<Rightarrow>
          (case actorStateAdmissionError (act_state (act s)) of
             Some e \<Rightarrow> (Some e, s\<lparr>act := (act s)\<lparr>rejectedState := rejectedState (act s) + 1\<rparr>\<rparr>)
           | None \<Rightarrow>
               if length (lane_queue l (act s)) < chanSize (act s)
               then (None, s\<lparr>act := set_queue l (lane_queue l (act s) @ [x]) ((act s)\<lparr>accepted := accepted (act s) + 1\<rparr>),
                             admitted := admitted s @ [(l, x)]\<rparr>)
               else (Some ErrActorMailboxFull, s\<lparr>act := (act s)\<lparr>rejectedFull := rejectedFull (act s) + 1\<rparr>\<rparr>)))"

definition SendPriority :: "'m option \<Rightarrow> MessagePriority \<Rightarrow> 'm asys \<Rightarrow> actor_error option \<times> 'm asys" where
  "SendPriority x p s = (case x of None \<Rightarrow> (Some ErrActorNilMessage, s) | Some x \<Rightarrow> send x p s)"

definition SendMessage :: "'m option \<Rightarrow> 'm asys \<Rightarrow> actor_error option \<times> 'm asys" where
  "SendMessage x s = (case x of None \<Rightarrow> (Some ErrActorNilMessage, s) | Some x \<Rightarrow> send x PriorityNormal s)"

text \<open>
  Only senders put messages into the lane and they hold the lock, so that it is empty when the
  message is sent and the send does not block.
\<close>

definition SendLatest :: "'m option \<Rightarrow> 'm asys \<Rightarrow> (actor_error + bool) \<times> 'm asys" where
  "SendLatest x s =
     (case x of
        None \<Rightarrow> (Inl ErrActorNilMessage, s)
      | Some x \<Rightarrow>
          (case actorStateAdmissionError (act_state (act s)) of
             Some e \<Rightarrow> (Inl e, s\<lparr>act := (act s)\<lparr>rejectedState := rejectedState (act s) + 1\<rparr>\<rparr>)
           | None \<Rightarrow>
               (let replaced = latest (act s) \<noteq> [];
                    s = (case latest (act s) of
                           [] \<Rightarrow> s
                         | y # q \<Rightarrow> s\<lparr>act := (act s)\<lparr>latest := q, latestReplaced := latestReplaced (act s) + 1\<rparr>,
                                       removed := removed s @ [(actorLaneLatest, y, Replaced)]\<rparr>);
                    s' = s\<lparr>act := (act s)\<lparr>latest := latest (act s) @ [x], accepted := accepted (act s) + 1\<rparr>,
                           admitted := admitted s @ [(actorLaneLatest, x)]\<rparr>
                in (Inr replaced, s'))))"

definition IsRunning :: "'m asys \<Rightarrow> bool" where
  "IsRunning s \<longleftrightarrow> act_state (act s) = ActorStateRunning \<or> act_state (act s) = ActorStateRestarting"

definition DroppedMessages :: "'m asys \<Rightarrow> uint64" where
  "DroppedMessages s = rejectedFull (act s) + abandoned (act s)"

record ActorStats =
  st_State :: ActorState
  st_NormalDepth :: nat
  st_HighDepth :: nat
  st_LowDepth :: nat
  st_LatestDepth :: nat
  st_Capacity :: nat
  st_Accepted :: uint64
  st_RejectedFull :: uint64
  st_RejectedState :: uint64
  st_LatestReplaced :: uint64
  st_Panics :: uint64
  st_Restarts :: uint64
  st_Abandoned :: uint64
  st_HookFailures :: uint64

definition Stats :: "'m BaseActor \<Rightarrow> ActorStats" where
  "Stats a =
     \<lparr>st_State = act_state a, st_NormalDepth = length (normalPriority a), st_HighDepth = length (highPriority a),
      st_LowDepth = length (lowPriority a), st_LatestDepth = length (latest a), st_Capacity = chanSize a,
      st_Accepted = accepted a, st_RejectedFull = rejectedFull a, st_RejectedState = rejectedState a,
      st_LatestReplaced = latestReplaced a, st_Panics = panics a, st_Restarts = restarts a,
      st_Abandoned = abandoned a, st_HookFailures = hookFailures a\<rparr>"

section \<open>The goroutine of a run\<close>

datatype hook_outcome = HookOk | HookErr | HookPanic

text \<open>Inputs of a step: how a hook or a handler ends, and the branch that a \<^verbatim>\<open>select\<close> takes.\<close>

datatype branch = TakeStop | TakeTimer | TakeLane actorLane

record choice =
  outcome :: hook_outcome
  branch :: branch

definition count_hook_failure :: "hook_outcome \<Rightarrow> 'm asys \<Rightarrow> 'm asys" where
  "count_hook_failure oc s =
     (if oc = HookOk then s else s\<lparr>act := (act s)\<lparr>hookFailures := hookFailures (act s) + 1\<rparr>\<rparr>)"

definition log_hook :: "nat \<Rightarrow> hook_kind \<Rightarrow> 'm asys \<Rightarrow> 'm asys" where
  "log_hook r k s = s\<lparr>hook_log := hook_log s @ [(r, k)]\<rparr>"

text \<open>An error or a panic (\<^verbatim>\<open>recoverHookPanic\<close>) is one failure; the answer is whether the hook succeeded.\<close>

definition callOnStart :: "hook_outcome \<Rightarrow> nat \<Rightarrow> 'm asys \<Rightarrow> bool \<times> 'm asys" where
  "callOnStart oc r s =
     (case run_hooks (runs s ! r) of
        None \<Rightarrow> (True, s)
      | Some h \<Rightarrow> (oc = HookOk, count_hook_failure oc (log_hook r OnStart s)))"

definition callOnRestart :: "hook_outcome \<Rightarrow> nat \<Rightarrow> 'm asys \<Rightarrow> bool \<times> 'm asys" where
  "callOnRestart oc r s =
     (case run_hooks (runs s ! r) of
        None \<Rightarrow> (True, s)
      | Some h \<Rightarrow> (oc = HookOk, count_hook_failure oc (log_hook r OnRestart s)))"

text \<open>\<^verbatim>\<open>OnStop\<close> returns nothing; only its panic is counted.\<close>

definition callOnStop :: "hook_outcome \<Rightarrow> nat \<Rightarrow> 'm asys \<Rightarrow> 'm asys" where
  "callOnStop oc r s =
     (case run_hooks (runs s ! r) of
        None \<Rightarrow> s
      | Some h \<Rightarrow> (let s = log_hook r OnStop s in if oc = HookPanic then count_hook_failure oc s else s))"

text \<open>Receiving from a lane that holds a message; the message goes to the handler.\<close>

definition take_message :: "actorLane \<Rightarrow> nat \<Rightarrow> actorScheduler \<Rightarrow> drain_mode \<Rightarrow> 'm asys \<Rightarrow> 'm asys" where
  "take_message l r sc md s =
     (let x = hd (lane_queue l (act s)) in
      set_pc r (C_Process (record_lane l sc) x md)
        (s\<lparr>act := set_queue l (tl (lane_queue l (act s))) (act s), removed := removed s @ [(l, x, Handled)]\<rparr>))"

definition start_drain :: "nat \<Rightarrow> actorScheduler \<Rightarrow> bool \<Rightarrow> 'm asys \<Rightarrow> 'm asys" where
  "start_drain r sc ap s = set_pc r (C_Drain sc (fair_order sc) ap) s"

text \<open>
  \<^verbatim>\<open>abandonMailboxes\<close>: rounds over the four lanes until a round found nothing. It is called when the
  state is stopping or stopped, so that nothing is sent meanwhile.
\<close>

definition abandon_lane :: "actorLane \<Rightarrow> nat \<times> 'm asys \<Rightarrow> nat \<times> 'm asys" where
  "abandon_lane l cs =
     (case lane_queue l (act (snd cs)) of
        [] \<Rightarrow> cs
      | x # q \<Rightarrow> (fst cs + 1, (snd cs)\<lparr>act := set_queue l q (act (snd cs)), removed := removed (snd cs) @ [(l, x, Abandoned)]\<rparr>))"

definition abandon_round :: "nat \<times> 'm asys \<Rightarrow> nat \<times> 'm asys" where
  "abandon_round cs =
     abandon_lane actorLaneLatest (abandon_lane actorLaneLow (abandon_lane actorLaneNormal (abandon_lane actorLaneHigh cs)))"

definition depth :: "'m BaseActor \<Rightarrow> nat" where
  "depth a = length (highPriority a) + length (normalPriority a) + length (lowPriority a) + length (latest a)"

lemma depth_set_queue: "lane_queue l a = x # q \<Longrightarrow> Suc (depth (set_queue l q a)) = depth a"
  by (cases l) (simp_all add: depth_def)

lemma all_lanes: "(\<forall>l. P l) \<longleftrightarrow> P actorLaneHigh \<and> P actorLaneNormal \<and> P actorLaneLow \<and> P actorLaneLatest"
  by (metis actorLane.exhaust)

lemma depth_zero: "depth a = 0 \<longleftrightarrow> (\<forall>l. lane_queue l a = [])"
  by (simp add: depth_def all_lanes)

text \<open>The count and what is left add up.\<close>

lemma abandon_lane_count: "fst (abandon_lane l cs) + depth (act (snd (abandon_lane l cs))) = fst cs + depth (act (snd cs))"
  using depth_set_queue [of l "act (snd cs)"] by (fastforce simp: abandon_lane_def split: list.split)

lemma abandon_lane_le: "fst cs \<le> fst (abandon_lane l cs)"
  by (simp add: abandon_lane_def split: list.split)

lemma abandon_round_count: "fst (abandon_round cs) + depth (act (snd (abandon_round cs))) = fst cs + depth (act (snd cs))"
  by (simp add: abandon_round_def abandon_lane_count)

lemma abandon_round_le: "fst cs \<le> fst (abandon_round cs)"
  unfolding abandon_round_def by (meson abandon_lane_le order_trans)

function abandon_loop :: "nat \<times> 'm asys \<Rightarrow> nat \<times> 'm asys" where
  "abandon_loop cs = (let cs' = abandon_round cs in if fst cs' = fst cs then cs' else abandon_loop cs')"
  by pat_completeness auto

termination
proof (relation "measure (\<lambda>cs. depth (act (snd cs)))")
  fix cs cs' :: "nat \<times> 'm asys" assume "cs' = abandon_round cs" "fst cs' \<noteq> fst cs"
  then show "(cs', cs) \<in> measure (\<lambda>cs. depth (act (snd cs)))"
    using abandon_round_count [of cs] abandon_round_le [of cs] by auto
qed simp

declare abandon_loop.simps [simp del]

definition abandonMailboxes :: "'m asys \<Rightarrow> 'm asys" where
  "abandonMailboxes s =
     (case abandon_loop (0, s) of (n, s) \<Rightarrow> s\<lparr>act := (act s)\<lparr>abandoned := abandoned (act s) + of_nat n\<rparr>\<rparr>)"

text \<open>\<^verbatim>\<open>Start\<close> after \<^verbatim>\<open>OnStart\<close>: the second section, and \<^verbatim>\<open>failStart\<close>.\<close>

definition Start_publish :: "nat \<Rightarrow> 'm asys \<Rightarrow> 'm asys" where
  "Start_publish r s =
     (if current (act s) \<noteq> Some r \<or> act_state (act s) \<noteq> ActorStateStarting then set_pc r C_Exit s
      else set_pc r (C_Top new_scheduler) (set_state ActorStateRunning s))"

definition failStart_lock :: "nat \<Rightarrow> 'm asys \<Rightarrow> 'm asys" where
  "failStart_lock r s =
     set_pc r S_FailHook
       (if current (act s) = Some r \<and> act_state (act s) = ActorStateStarting
        then requestStop r (set_state ActorStateStopping s) else s)"

text \<open>The last section of \<^verbatim>\<open>failStart\<close> and of \<^verbatim>\<open>finishStop\<close>.\<close>

definition close_done :: "nat \<Rightarrow> 'm asys \<Rightarrow> 'm asys" where
  "close_done r s =
     set_pc r C_Exit
       (upd_run r (\<lambda>x. x\<lparr>doneCh := True\<rparr>) (if current (act s) = Some r then set_state ActorStateStopped s else s))"

definition finishStop :: "hook_outcome \<Rightarrow> nat \<Rightarrow> 'm asys \<Rightarrow> 'm asys" where
  "finishStop oc r s =
     (if finishOnce (runs s ! r) then set_pc r C_Exit s
      else set_pc r C_FinishLock (callOnStop oc r (upd_run r (\<lambda>x. x\<lparr>finishOnce := True\<rparr>) s)))"

definition actor_give_up :: "nat \<Rightarrow> 'm asys \<Rightarrow> 'm asys" where
  "actor_give_up r s = set_pc r C_Abandon (requestStop r (set_state ActorStateStopping s))"

text \<open>\<^verbatim>\<open>handlePanic\<close>: its first section, and the one after \<^verbatim>\<open>OnRestart\<close>.\<close>

definition handlePanic :: "nat \<Rightarrow> 'm asys \<Rightarrow> 'm asys" where
  "handlePanic r s =
     (if current (act s) \<noteq> Some r then set_pc r C_Exit s
      else if act_state (act s) = ActorStateStopping then start_drain r new_scheduler True s
      else let cfg = supervisorCfg (act s) in
           if Strategy cfg = SupervisorStrategyStop then actor_give_up r s
           else if Strategy cfg = SupervisorStrategyRestart
           then let windowStart = clk s + wrap64 (- RestartWindow cfg);
                    recent = filter (\<lambda>t. t > windowStart) (restartTimes (act s));
                    s = s\<lparr>act := (act s)\<lparr>restartTimes := recent\<rparr>\<rparr>
                in if int (length recent) \<ge> MaxRestarts cfg then actor_give_up r s
                   else set_pc r C_Backoff (set_state ActorStateRestarting s)
           else actor_give_up r s)"

definition relaunch :: "nat \<Rightarrow> 'm asys \<Rightarrow> 'm asys" where
  "relaunch r s =
     (if current (act s) \<noteq> Some r then set_pc r C_Exit s
      else if act_state (act s) = ActorStateStopping then start_drain r new_scheduler True s
      else if act_state (act s) \<noteq> ActorStateRestarting then set_pc r C_Abandon s
      else set_pc r (C_Top new_scheduler)
             (s\<lparr>act := (act s)\<lparr>restartTimes := restartTimes (act s) @ [clk s], restarts := restarts (act s) + 1,
                                act_state := ActorStateRunning\<rparr>,
                restart_log := restart_log s @ [(r, clk s)]\<rparr>))"

definition transitionRestartFailure :: "nat \<Rightarrow> 'm asys \<Rightarrow> 'm asys" where
  "transitionRestartFailure r s =
     set_pc r C_Abandon
       (if current (act s) = Some r \<and> act_state (act s) = ActorStateRestarting
        then requestStop r (set_state ActorStateStopping s) else s)"

text \<open>A panic of the message handler is recovered by \<^verbatim>\<open>run\<close> or by \<^verbatim>\<open>drainAfterPanicStop\<close>.\<close>

definition handler_returns :: "hook_outcome \<Rightarrow> nat \<Rightarrow> actorScheduler \<Rightarrow> drain_mode \<Rightarrow> 'm asys \<Rightarrow> 'm asys" where
  "handler_returns oc r sc md s =
     (if oc = HookPanic
      then set_pc r (if md = InPanicDrain then C_Abandon else C_Panic) (s\<lparr>act := (act s)\<lparr>panics := panics (act s) + 1\<rparr>, crashes := crashes s + 1\<rparr>)
      else case md of
             InLoop \<Rightarrow> set_pc r (C_Top sc) s
           | InDrain \<Rightarrow> start_drain r sc False s
           | InPanicDrain \<Rightarrow> start_drain r sc True s)"

text \<open>The next operation of the goroutine of run \<open>r\<close>; \<open>None\<close> when it waits or has ended.\<close>

definition thread_step :: "choice \<Rightarrow> nat \<Rightarrow> 'm asys \<Rightarrow> 'm asys option" where
  "thread_step c r s =
     (case pcs s ! r of
        S_OnStart \<Rightarrow> (case callOnStart (outcome c) r s of (ok, s) \<Rightarrow> Some (set_pc r (if ok then S_Publish else S_FailLock) s))
      | S_Publish \<Rightarrow> Some (Start_publish r s)
      | S_FailLock \<Rightarrow> Some (failStart_lock r s)
      | S_FailHook \<Rightarrow> Some (set_pc r S_FailDone (callOnStop (outcome c) r s))
      | S_FailDone \<Rightarrow> Some (close_done r s)
      | C_Top sc \<Rightarrow> Some (if stopCh (runs s ! r) then start_drain r sc False s else set_pc r (C_Poll sc (fair_order sc)) s)
      | C_Poll sc [] \<Rightarrow> Some (set_pc r (C_Block sc) s)
      | C_Poll sc (l # ls) \<Rightarrow> Some (if lane_queue l (act s) = [] then set_pc r (C_Poll sc ls) s else take_message l r sc InLoop s)
      | C_Block sc \<Rightarrow>
          (case branch c of
             TakeStop \<Rightarrow> if stopCh (runs s ! r) then Some (start_drain r sc False s) else None
           | TakeLane l \<Rightarrow> if lane_queue l (act s) = [] then None else Some (take_message l r sc InLoop s)
           | TakeTimer \<Rightarrow> None)
      | C_Process sc x md \<Rightarrow> Some (handler_returns (outcome c) r sc md s)
      | C_Drain sc [] ap \<Rightarrow> Some (set_pc r C_FinishHook s)
      | C_Drain sc (l # ls) ap \<Rightarrow>
          Some (if lane_queue l (act s) = [] then set_pc r (C_Drain sc ls ap) s
                else take_message l r sc (if ap then InPanicDrain else InDrain) s)
      | C_Panic \<Rightarrow> Some (handlePanic r s)
      | C_Backoff \<Rightarrow>
          (case branch c of
             TakeStop \<Rightarrow> if stopCh (runs s ! r) then Some (start_drain r new_scheduler True s) else None
           | TakeTimer \<Rightarrow> Some (set_pc r C_OnRestart s)
           | TakeLane l \<Rightarrow> None)
      | C_OnRestart \<Rightarrow> (case callOnRestart (outcome c) r s of (ok, s) \<Rightarrow> Some (set_pc r (if ok then C_Relaunch else C_RestartFail) s))
      | C_Relaunch \<Rightarrow> Some (relaunch r s)
      | C_RestartFail \<Rightarrow> Some (transitionRestartFailure r s)
      | C_Abandon \<Rightarrow> Some (set_pc r C_FinishHook (abandonMailboxes s))
      | C_FinishHook \<Rightarrow> Some (finishStop (outcome c) r s)
      | C_FinishLock \<Rightarrow> Some (close_done r s)
      | C_Exit \<Rightarrow> None)"

section \<open>Executions\<close>

inductive actor_step :: "'m asys \<Rightarrow> 'm asys \<Rightarrow> bool" where
  start: "actor_step s (snd (Start_begin s))"
| stop: "actor_step s (snd (actor_Stop s))"
| send: "actor_step s (snd (SendPriority x p s))"
| send_latest: "actor_step s (snd (SendLatest x s))"
| set_hooks: "actor_step s (SetLifecycleHooks h s)"
| set_self: "actor_step s (SetSelf a s)"
| thread: "r < length (pcs s) \<Longrightarrow> thread_step c r s = Some s' \<Longrightarrow> actor_step s s'"
| tick: "0 \<le> d \<Longrightarrow> actor_step s (s\<lparr>clk := clk s + d\<rparr>)"

inductive actor_reach :: "int \<Rightarrow> int \<Rightarrow> SupervisorConfig \<Rightarrow> 'm asys \<Rightarrow> bool" for i sz cfg where
  init: "actor_reach i sz cfg (actor_init i sz cfg)"
| step: "actor_reach i sz cfg s \<Longrightarrow> actor_step s s' \<Longrightarrow> actor_reach i sz cfg s'"

section \<open>Lanes, logs and what operations leave alone\<close>

lemma lane_queue_set [simp]: "lane_queue l (set_queue l' q a) = (if l = l' then q else lane_queue l a)"
  by (cases l; cases l') simp_all

text \<open>The actor without its lanes: receiving and abandoning change nothing else.\<close>

definition strip :: "'m BaseActor \<Rightarrow> 'm BaseActor" where
  "strip a = a\<lparr>normalPriority := [], highPriority := [], lowPriority := [], latest := []\<rparr>"

lemma strip_set_queue [simp]: "strip (set_queue l q a) = strip a"
  by (cases l) (simp_all add: strip_def)

lemma strip_fields:
  assumes "strip a = strip b"
  shows "act_state a = act_state b" "current a = current b" "supervisorCfg a = supervisorCfg b" "restartTimes a = restartTimes b"
    "chanSize a = chanSize b" "accepted a = accepted b" "latestReplaced a = latestReplaced b" "abandoned a = abandoned b"
    "panics a = panics b" "restarts a = restarts b" "hooks a = hooks b" "self a = self b"
  using assms by (auto simp: strip_def dest: arg_cong [of _ _ act_state])
    (metis BaseActor.select_convs BaseActor.surjective BaseActor.update_convs)+

definition lane_removed :: "actorLane \<Rightarrow> (actorLane \<times> 'm \<times> fate) list \<Rightarrow> 'm list" where
  "lane_removed l rs = map (\<lambda>(l', x, f). x) (filter (\<lambda>(l', x, f). l' = l) rs)"

definition lane_admitted :: "actorLane \<Rightarrow> (actorLane \<times> 'm) list \<Rightarrow> 'm list" where
  "lane_admitted l ad = map snd (filter (\<lambda>(l', x). l' = l) ad)"

definition fates :: "fate \<Rightarrow> (actorLane \<times> 'm \<times> fate) list \<Rightarrow> nat" where
  "fates f rs = length (filter (\<lambda>(l, x, f'). f' = f) rs)"

lemma lane_removed_simps [simp]:
  "lane_removed l [] = []" "lane_removed l (rs @ rs') = lane_removed l rs @ lane_removed l rs'"
  "lane_removed l ((l', x, f) # rs) = (if l' = l then x # lane_removed l rs else lane_removed l rs)"
  by (simp_all add: lane_removed_def)

lemma lane_admitted_simps [simp]:
  "lane_admitted l [] = []" "lane_admitted l (ad @ ad') = lane_admitted l ad @ lane_admitted l ad'"
  "lane_admitted l ((l', x) # ad) = (if l' = l then x # lane_admitted l ad else lane_admitted l ad)"
  by (simp_all add: lane_admitted_def)

lemma fates_simps [simp]:
  "fates f [] = 0" "fates f (rs @ rs') = fates f rs + fates f rs'" "fates f ((l, x, f') # rs) = (if f' = f then Suc (fates f rs) else fates f rs)"
  by (simp_all add: fates_def)

text \<open>\<open>s'\<close> comes from \<open>s\<close> by moving messages from the front of lanes to the log with the given fates.\<close>

definition moved :: "'m asys \<Rightarrow> 'm asys \<Rightarrow> nat \<Rightarrow> nat \<Rightarrow> bool" where
  "moved s s' handled dropped \<longleftrightarrow> strip (act s') = strip (act s) \<and> runs s' = runs s \<and> pcs s' = pcs s \<and> clk s' = clk s \<and>
     admitted s' = admitted s \<and> hook_log s' = hook_log s \<and> restart_log s' = restart_log s \<and> crashes s' = crashes s \<and>
     (\<forall>l. lane_removed l (removed s') @ lane_queue l (act s') = lane_removed l (removed s) @ lane_queue l (act s)) \<and>
     (\<forall>l. length (lane_queue l (act s')) \<le> length (lane_queue l (act s))) \<and>
     fates Handled (removed s') = fates Handled (removed s) + handled \<and> fates Replaced (removed s') = fates Replaced (removed s) \<and>
     fates Abandoned (removed s') = fates Abandoned (removed s) + dropped \<and>
     depth (act s) = depth (act s') + handled + dropped"

lemma moved_refl: "moved s s 0 0"
  by (simp add: moved_def)

lemma moved_trans: "moved s s1 a b \<Longrightarrow> moved s1 s2 c d \<Longrightarrow> moved s s2 (a + c) (b + d)"
  unfolding moved_def by (auto intro: order_trans)

lemma moved_frame:
  assumes "moved s s' a b"
  shows "runs s' = runs s" "pcs s' = pcs s" "clk s' = clk s" "admitted s' = admitted s" "hook_log s' = hook_log s"
    "restart_log s' = restart_log s" "crashes s' = crashes s" "strip (act s') = strip (act s)"
  using assms by (simp_all add: moved_def)

lemma moved_abandon_lane:
  "\<exists>n. moved (snd cs) (snd (abandon_lane l cs)) 0 n \<and> fst (abandon_lane l cs) = fst cs + n"
proof (cases "lane_queue l (act (snd cs))")
  case Nil
  then show ?thesis using moved_refl by (auto simp: abandon_lane_def)
next
  case (Cons x q)
  then have "moved (snd cs) (snd (abandon_lane l cs)) 0 1"
    using depth_set_queue [OF Cons] by (auto simp: moved_def abandon_lane_def)
  with Cons show ?thesis by (auto simp: abandon_lane_def)
qed

lemma moved_abandon_round:
  "\<exists>n. moved (snd cs) (snd (abandon_round cs)) 0 n \<and> fst (abandon_round cs) = fst cs + n"
proof -
  have comb: "\<exists>n. moved s (snd (abandon_lane l cs')) 0 n \<and> fst (abandon_lane l cs') = k + n"
    if "\<exists>n. moved s (snd cs') 0 n \<and> fst cs' = k + n" for s :: "'a asys" and cs' l k
    using that moved_abandon_lane [of cs' l] moved_trans [of s _ 0 _ _ 0] by (metis add.assoc add_0)
  show ?thesis unfolding abandon_round_def by (intro comb moved_abandon_lane)
qed

lemma abandon_lane_idle: "fst (abandon_lane l cs) = fst cs \<Longrightarrow> abandon_lane l cs = cs \<and> lane_queue l (act (snd cs)) = []"
  by (auto simp: abandon_lane_def split: list.splits)

lemma round_idle:
  assumes "fst (abandon_round cs) = fst cs"
  shows "depth (act (snd (abandon_round cs))) = 0"
proof -
  let ?h = "abandon_lane actorLaneHigh cs" let ?n = "abandon_lane actorLaneNormal ?h" let ?l = "abandon_lane actorLaneLow ?n"
  have "fst cs \<le> fst ?h" "fst ?h \<le> fst ?n" "fst ?n \<le> fst ?l" "fst ?l \<le> fst (abandon_round cs)"
    unfolding abandon_round_def by (rule abandon_lane_le)+
  then have "fst ?h = fst cs" "fst ?n = fst ?h" "fst ?l = fst ?n" "fst (abandon_lane actorLaneLatest ?l) = fst ?l"
    using assms unfolding abandon_round_def by linarith+
  then have e: "?h = cs" "lane_queue actorLaneHigh (act (snd cs)) = []" "?n = ?h" "lane_queue actorLaneNormal (act (snd ?h)) = []"
    "?l = ?n" "lane_queue actorLaneLow (act (snd ?n)) = []"
    "abandon_lane actorLaneLatest ?l = ?l" "lane_queue actorLaneLatest (act (snd ?l)) = []"
    using abandon_lane_idle by blast+
  have "abandon_round cs = cs" using e(1,3,5,7) by (simp add: abandon_round_def)
  with e show ?thesis by (simp add: depth_def)
qed

lemma moved_abandon_loop:
  "\<exists>n. moved (snd cs) (snd (abandon_loop cs)) 0 n \<and> fst (abandon_loop cs) = fst cs + n \<and> depth (act (snd (abandon_loop cs))) = 0"
proof (induction cs rule: abandon_loop.induct)
  case (1 cs)
  obtain n where n: "moved (snd cs) (snd (abandon_round cs)) 0 n" "fst (abandon_round cs) = fst cs + n"
    using moved_abandon_round by blast
  show ?case
  proof (cases "fst (abandon_round cs) = fst cs")
    case True
    then show ?thesis using n round_idle [OF True] by (subst (1 2 3) abandon_loop.simps) (auto simp: Let_def)
  next
    case False
    then obtain k where "moved (snd (abandon_round cs)) (snd (abandon_loop (abandon_round cs))) 0 k"
      "fst (abandon_loop (abandon_round cs)) = fst (abandon_round cs) + k" "depth (act (snd (abandon_loop (abandon_round cs)))) = 0"
      using 1 [OF refl] by blast
    then show ?thesis using False n moved_trans [OF n(1), of _ 0 k]
      by (subst (1 2 3) abandon_loop.simps) (auto simp: Let_def intro!: exI [of _ "n + k"])
  qed
qed

lemma moved_receive:
  assumes "lane_queue l (act s) \<noteq> []"
  shows "\<exists>s'. moved s s' 1 0 \<and> take_message l r sc md s = set_pc r (C_Process (record_lane l sc) (hd (lane_queue l (act s))) md) s'"
proof -
  obtain x q where q: "lane_queue l (act s) = x # q" using assms by (cases "lane_queue l (act s)") auto
  have "moved s (s\<lparr>act := set_queue l q (act s), removed := removed s @ [(l, x, Handled)]\<rparr>) 1 0"
    using q depth_set_queue [OF q] by (auto simp: moved_def)
  then show ?thesis using q by (auto simp: take_message_def Let_def)
qed

section \<open>Generations\<close>

definition lanes_empty :: "'m BaseActor \<Rightarrow> bool" where
  "lanes_empty a \<longleftrightarrow> (\<forall>l. lane_queue l a = [])"

text \<open>The states in which the goroutine of the current run can be at a program counter.\<close>

definition live_ok :: "ActorState \<Rightarrow> ActorState \<Rightarrow> bool \<Rightarrow> bool" where
  "live_ok live st stop \<longleftrightarrow> st = live \<and> \<not> stop \<or> st = ActorStateStopping \<and> stop"

fun pc_ok :: "'m run_pc \<Rightarrow> bool \<Rightarrow> 'm BaseActor \<Rightarrow> bool" where
  "pc_ok S_OnStart stop a \<longleftrightarrow> act_state a = ActorStateStarting \<and> \<not> stop \<and> lanes_empty a"
| "pc_ok S_Publish stop a \<longleftrightarrow> act_state a = ActorStateStarting \<and> \<not> stop \<and> lanes_empty a"
| "pc_ok S_FailLock stop a \<longleftrightarrow> act_state a = ActorStateStarting \<and> \<not> stop \<and> lanes_empty a"
| "pc_ok S_FailHook stop a \<longleftrightarrow> act_state a = ActorStateStopping \<and> stop \<and> lanes_empty a"
| "pc_ok S_FailDone stop a \<longleftrightarrow> act_state a = ActorStateStopping \<and> stop \<and> lanes_empty a"
| "pc_ok (C_Top sc) stop a \<longleftrightarrow> live_ok ActorStateRunning (act_state a) stop"
| "pc_ok (C_Poll sc ls) stop a \<longleftrightarrow> live_ok ActorStateRunning (act_state a) stop"
| "pc_ok (C_Block sc) stop a \<longleftrightarrow> live_ok ActorStateRunning (act_state a) stop"
| "pc_ok (C_Process sc x md) stop a \<longleftrightarrow>
     (if md = InLoop then live_ok ActorStateRunning (act_state a) stop else act_state a = ActorStateStopping \<and> stop)"
| "pc_ok (C_Drain sc ls ap) stop a \<longleftrightarrow>
     act_state a = ActorStateStopping \<and> stop \<and> (\<forall>l. l \<notin> set ls \<longrightarrow> lane_queue l a = [])"
| "pc_ok C_Panic stop a \<longleftrightarrow> live_ok ActorStateRunning (act_state a) stop"
| "pc_ok C_Backoff stop a \<longleftrightarrow> live_ok ActorStateRestarting (act_state a) stop"
| "pc_ok C_OnRestart stop a \<longleftrightarrow> live_ok ActorStateRestarting (act_state a) stop"
| "pc_ok C_Relaunch stop a \<longleftrightarrow> live_ok ActorStateRestarting (act_state a) stop"
| "pc_ok C_RestartFail stop a \<longleftrightarrow> live_ok ActorStateRestarting (act_state a) stop"
| "pc_ok C_Abandon stop a \<longleftrightarrow> act_state a = ActorStateStopping \<and> stop"
| "pc_ok C_FinishHook stop a \<longleftrightarrow> act_state a = ActorStateStopping \<and> stop \<and> lanes_empty a"
| "pc_ok C_FinishLock stop a \<longleftrightarrow> act_state a = ActorStateStopping \<and> stop \<and> lanes_empty a"
| "pc_ok C_Exit stop a \<longleftrightarrow> act_state a = ActorStateStopped \<and> stop \<and> lanes_empty a"

fun stop_called :: "'m run_pc \<Rightarrow> bool" where
  "stop_called S_FailDone = True"
| "stop_called C_FinishLock = True"
| "stop_called C_Exit = True"
| "stop_called _ = False"

definition stop_hooks :: "nat \<Rightarrow> (nat \<times> hook_kind) list \<Rightarrow> nat" where
  "stop_hooks r lg = length (filter (\<lambda>x. x = (r, OnStop)) lg)"

lemma stop_hooks_simps [simp]:
  "stop_hooks r [] = 0" "stop_hooks r (lg @ lg') = stop_hooks r lg + stop_hooks r lg'"
  "stop_hooks r (x # lg) = (if x = (r, OnStop) then Suc (stop_hooks r lg) else stop_hooks r lg)"
  by (simp_all add: stop_hooks_def)

definition run_facts :: "nat \<Rightarrow> 'm run_pc \<Rightarrow> actorRun \<Rightarrow> (nat \<times> hook_kind) list \<Rightarrow> bool" where
  "run_facts r p x lg \<longleftrightarrow> (doneCh x \<longleftrightarrow> p = C_Exit) \<and> (finishOnce x \<longrightarrow> p = C_FinishLock \<or> p = C_Exit) \<and>
     stop_hooks r lg = (if stop_called p \<and> run_hooks x \<noteq> None then 1 else 0)"

definition gen_inv :: "'m asys \<Rightarrow> bool" where
  "gen_inv s \<longleftrightarrow> length (pcs s) = length (runs s) \<and>
     (\<forall>r < length (runs s). run_facts r (pcs s ! r) (runs s ! r) (hook_log s)) \<and>
     (\<forall>r < length (runs s). current (act s) \<noteq> Some r \<longrightarrow> pcs s ! r = C_Exit) \<and>
     (\<forall>r. length (runs s) \<le> r \<longrightarrow> stop_hooks r (hook_log s) = 0) \<and>
     (case current (act s) of
        None \<Rightarrow> act_state (act s) = ActorStateNew \<and> runs s = [] \<and> lanes_empty (act s)
      | Some r \<Rightarrow> r < length (runs s) \<and> pc_ok (pcs s ! r) (stopCh (runs s ! r)) (act s))"

lemma gen_invD:
  assumes "gen_inv s"
  shows "length (pcs s) = length (runs s)" "r < length (runs s) \<Longrightarrow> run_facts r (pcs s ! r) (runs s ! r) (hook_log s)"
    "r < length (runs s) \<Longrightarrow> current (act s) \<noteq> Some r \<Longrightarrow> pcs s ! r = C_Exit"
    "current (act s) = Some r \<Longrightarrow> r < length (runs s)"
    "current (act s) = Some r \<Longrightarrow> pc_ok (pcs s ! r) (stopCh (runs s ! r)) (act s)"
    "current (act s) = None \<Longrightarrow> act_state (act s) = ActorStateNew" "current (act s) = None \<Longrightarrow> runs s = []"
    "current (act s) = None \<Longrightarrow> lanes_empty (act s)" "length (runs s) \<le> r \<Longrightarrow> stop_hooks r (hook_log s) = 0"
  using assms by (auto simp: gen_inv_def split: option.splits)

text \<open>A step of the current run changes its own program counter and run record only.\<close>

lemma gen_inv_step:
  assumes inv: "gen_inv s" and cur: "current (act s) = Some r" "current (act s') = Some r"
    and upd: "pcs s' = (pcs s)[r := p]" "runs s' = (runs s)[r := x]" "hook_log s' = hook_log s @ map (Pair r) ks"
    and facts: "run_facts r p x (hook_log s')" and ok: "pc_ok p (stopCh x) (act s')"
  shows "gen_inv s'"
proof -
  note D = gen_invD [OF inv]
  have r: "r < length (runs s)" using D(4) cur(1) by blast
  have other: "stop_hooks r' (map (Pair r) ks) = 0" if "r' \<noteq> r" for r' using that by (induction ks) auto
  have f: "run_facts r' (pcs s' ! r') (runs s' ! r') (hook_log s')" if "r' < length (runs s)" for r'
  proof (cases "r' = r")
    case True
    then show ?thesis using facts r D(1) by (simp add: upd(1,2))
  next
    case False
    then show ?thesis using D(2) [OF that] other [OF False] by (simp add: upd run_facts_def)
  qed
  have "stop_hooks r' (hook_log s') = 0" if "length (runs s) \<le> r'" for r'
    using that r D(9) [OF that] other [of r'] by (auto simp: upd(3))
  with f show ?thesis using D(1,3) r ok cur unfolding gen_inv_def by (auto simp: upd(1,2) nth_list_update)
qed

lemma requestStop_simps [simp]:
  "act (requestStop r s) = act s" "pcs (requestStop r s) = pcs s" "hook_log (requestStop r s) = hook_log s"
  "clk (requestStop r s) = clk s" "admitted (requestStop r s) = admitted s" "removed (requestStop r s) = removed s"
  "restart_log (requestStop r s) = restart_log s" "crashes (requestStop r s) = crashes s"
  "runs (requestStop r s) = (runs s)[r := (runs s ! r)\<lparr>stopCh := True\<rparr>]"
  by (simp_all add: requestStop_def)

lemma count_hook_failure_simps [simp]:
  "runs (count_hook_failure oc s) = runs s" "pcs (count_hook_failure oc s) = pcs s" "hook_log (count_hook_failure oc s) = hook_log s"
  "clk (count_hook_failure oc s) = clk s" "admitted (count_hook_failure oc s) = admitted s" "removed (count_hook_failure oc s) = removed s"
  "restart_log (count_hook_failure oc s) = restart_log s" "crashes (count_hook_failure oc s) = crashes s"
  "act_state (act (count_hook_failure oc s)) = act_state (act s)" "current (act (count_hook_failure oc s)) = current (act s)"
  "lane_queue l (act (count_hook_failure oc s)) = lane_queue l (act s)" "chanSize (act (count_hook_failure oc s)) = chanSize (act s)"
  "supervisorCfg (act (count_hook_failure oc s)) = supervisorCfg (act s)" "restartTimes (act (count_hook_failure oc s)) = restartTimes (act s)"
  "accepted (act (count_hook_failure oc s)) = accepted (act s)" "latestReplaced (act (count_hook_failure oc s)) = latestReplaced (act s)"
  "abandoned (act (count_hook_failure oc s)) = abandoned (act s)"
  by (cases l; simp add: count_hook_failure_def)+

lemma log_hook_simps [simp]:
  "runs (log_hook r k s) = runs s" "pcs (log_hook r k s) = pcs s" "hook_log (log_hook r k s) = hook_log s @ [(r, k)]"
  "clk (log_hook r k s) = clk s" "admitted (log_hook r k s) = admitted s" "removed (log_hook r k s) = removed s"
  "restart_log (log_hook r k s) = restart_log s" "crashes (log_hook r k s) = crashes s" "act (log_hook r k s) = act s"
  by (simp_all add: log_hook_def)

text \<open>The three calls of hooks, as far as the state is concerned.\<close>

definition hook_effect :: "nat \<Rightarrow> hook_kind \<Rightarrow> 'm asys \<Rightarrow> 'm asys \<Rightarrow> bool" where
  "hook_effect r k s s' \<longleftrightarrow> runs s' = runs s \<and> pcs s' = pcs s \<and> clk s' = clk s \<and> admitted s' = admitted s \<and> removed s' = removed s \<and>
     restart_log s' = restart_log s \<and> crashes s' = crashes s \<and>
     hook_log s' = hook_log s @ (if run_hooks (runs s ! r) = None then [] else [(r, k)]) \<and>
     act_state (act s') = act_state (act s) \<and> current (act s') = current (act s) \<and> (\<forall>l. lane_queue l (act s') = lane_queue l (act s)) \<and>
     chanSize (act s') = chanSize (act s) \<and> supervisorCfg (act s') = supervisorCfg (act s) \<and> restartTimes (act s') = restartTimes (act s) \<and>
     accepted (act s') = accepted (act s) \<and> latestReplaced (act s') = latestReplaced (act s) \<and> abandoned (act s') = abandoned (act s)"

lemma hook_effects:
  "hook_effect r OnStart s (snd (callOnStart oc r s))" "hook_effect r OnRestart s (snd (callOnRestart oc r s))"
  "hook_effect r OnStop s (callOnStop oc r s)"
  by (simp_all add: hook_effect_def callOnStart_def callOnRestart_def callOnStop_def Let_def split: option.split)

lemma lanes_empty_cong: "(\<And>l. lane_queue l a = lane_queue l b) \<Longrightarrow> lanes_empty a = lanes_empty b"
  by (simp add: lanes_empty_def)

lemma lane_queue_fields [simp]:
  "lane_queue l (a\<lparr>act_state := st\<rparr>) = lane_queue l a" "lane_queue l (a\<lparr>current := c\<rparr>) = lane_queue l a"
  "lane_queue l (a\<lparr>restartTimes := ts\<rparr>) = lane_queue l a" "lane_queue l (a\<lparr>restarts := n\<rparr>) = lane_queue l a"
  "lane_queue l (a\<lparr>panics := n\<rparr>) = lane_queue l a" "lane_queue l (a\<lparr>accepted := n\<rparr>) = lane_queue l a"
  "lane_queue l (a\<lparr>rejectedState := n\<rparr>) = lane_queue l a" "lane_queue l (a\<lparr>rejectedFull := n\<rparr>) = lane_queue l a"
  "lane_queue l (a\<lparr>abandoned := n\<rparr>) = lane_queue l a" "lane_queue l (a\<lparr>hooks := h\<rparr>) = lane_queue l a" "lane_queue l (a\<lparr>self := x\<rparr>) = lane_queue l a"
  "lane_queue l (a\<lparr>latestReplaced := n\<rparr>) = lane_queue l a"
  by (cases l; simp)+

lemma pc_ok_cong:
  "pc_ok p stop a \<Longrightarrow> act_state b = act_state a \<Longrightarrow> (\<And>l. lane_queue l b = lane_queue l a) \<Longrightarrow> pc_ok p stop b"
  by (cases p) (auto simp: lanes_empty_def split: if_splits)

lemma fair_order_all: "l \<in> set (fair_order sc)"
  by (cases l) (simp_all add: fair_order_def)

lemmas thread_defs = Start_publish_def failStart_lock_def close_done_def handlePanic_def relaunch_def actor_give_up_def
  transitionRestartFailure_def handler_returns_def start_drain_def finishStop_def

lemma thread_current:
  assumes "gen_inv s" "r < length (pcs s)" "thread_step c r s = Some s'"
  shows "current (act s) = Some r"
proof (rule ccontr)
  assume "current (act s) \<noteq> Some r"
  then have "pcs s ! r = C_Exit" using gen_invD(1) [OF assms(1)] gen_invD(3) [OF assms(1), of r] assms(2) by simp
  with assms(3) show False by (simp add: thread_step_def)
qed

text \<open>Only messages are moved and the program counter is set.\<close>

lemma gen_inv_moved:
  assumes inv: "gen_inv s" and cur: "current (act s) = Some r" and mv: "moved s s1 a b" and s': "s' = set_pc r p s1"
    and p: "\<not> stop_called p" "\<not> stop_called (pcs s ! r)" "p = C_FinishHook \<or> \<not> finishOnce (runs s ! r)"
    and ok: "pc_ok p (stopCh (runs s ! r)) (act s1)"
  shows "gen_inv s'"
proof (rule gen_inv_step [OF inv cur, where p = p and x = "runs s ! r" and ks = "[]"])
  note F = moved_frame [OF mv] and r = gen_invD(4) [OF inv cur]
  note strip = strip_fields [OF F(8)]
  show "current (act s') = Some r" using cur strip by (simp add: s')
  show "pcs s' = (pcs s)[r := p]" "runs s' = (runs s)[r := runs s ! r]" "hook_log s' = hook_log s @ map (Pair r) []"
    using F by (simp_all add: s')
  show "run_facts r p (runs s ! r) (hook_log s')"
    using gen_invD(2) [OF inv r] p F by (cases p; cases "pcs s ! r") (auto simp: run_facts_def s')
  show "pc_ok p (stopCh (runs s ! r)) (act s')" using ok by (simp add: s')
qed

lemma gen_inv_pc:
  assumes "gen_inv s" "current (act s) = Some r" "s' = set_pc r p s"
    "\<not> stop_called p" "\<not> stop_called (pcs s ! r)" "pc_ok p (stopCh (runs s ! r)) (act s)"
  shows "gen_inv s'"
proof -
  have "run_facts r (pcs s ! r) (runs s ! r) (hook_log s)" using gen_invD(2,4) [OF assms(1)] assms(2) by blast
  then have "\<not> finishOnce (runs s ! r)" using assms(5) by (cases "pcs s ! r") (auto simp: run_facts_def)
  then show ?thesis using gen_inv_moved [OF assms(1,2) moved_refl assms(3-5) _ assms(6)] by blast
qed

lemma gen_inv_receive:
  assumes inv: "gen_inv s" and cur: "current (act s) = Some r" and q: "lane_queue l (act s) \<noteq> []"
    and p: "\<not> stop_called (pcs s ! r)"
    and ok: "if md = InLoop then live_ok ActorStateRunning (act_state (act s)) (stopCh (runs s ! r))
             else act_state (act s) = ActorStateStopping \<and> stopCh (runs s ! r)"
  shows "gen_inv (take_message l r sc md s)"
proof -
  obtain s1 where s1: "moved s s1 1 0" "take_message l r sc md s = set_pc r (C_Process (record_lane l sc) (hd (lane_queue l (act s))) md) s1"
    using moved_receive [OF q] by blast
  have "run_facts r (pcs s ! r) (runs s ! r) (hook_log s)" using gen_invD(2,4) [OF inv] cur by blast
  then have "\<not> finishOnce (runs s ! r)" using p by (cases "pcs s ! r") (auto simp: run_facts_def)
  moreover have "act_state (act s1) = act_state (act s)" using moved_frame(8) [OF s1(1)] strip_fields(1) by blast
  ultimately show ?thesis using gen_inv_moved [OF inv cur s1 _ p] ok by simp
qed

lemma gen_inv_hook:
  assumes inv: "gen_inv s" and cur: "current (act s) = Some r" and h: "hook_effect r k s s1" and s': "s' = set_pc r p s1"
    and p: "\<not> stop_called (pcs s ! r)" "stop_called p \<longleftrightarrow> k = OnStop" "p \<noteq> C_Exit"
    and ok: "pc_ok p (stopCh (runs s ! r)) (act s)"
  shows "gen_inv s'"
proof (rule gen_inv_step [OF inv cur, where p = p and x = "runs s ! r" and ks = "if run_hooks (runs s ! r) = None then [] else [k]"])
  have facts: "run_facts r (pcs s ! r) (runs s ! r) (hook_log s)" using gen_invD(2,4) [OF inv] cur by blast
  show "run_facts r p (runs s ! r) (hook_log s')"
    using facts p h by (cases "pcs s ! r"; cases k) (auto simp: run_facts_def s' hook_effect_def)
  show "pc_ok p (stopCh (runs s ! r)) (act s')" using pc_ok_cong [OF ok] h by (auto simp: s' hook_effect_def)
qed (use cur h in \<open>auto simp: s' hook_effect_def\<close>)

lemma gen_inv_close_done:
  assumes inv: "gen_inv s" and cur: "current (act s) = Some r" and pc: "pcs s ! r = S_FailDone \<or> pcs s ! r = C_FinishLock"
  shows "gen_inv (close_done r s)"
proof (rule gen_inv_step [OF inv cur, where p = C_Exit and x = "(runs s ! r)\<lparr>doneCh := True\<rparr>" and ks = "[]"])
  note r = gen_invD(4) [OF inv cur] and ok = gen_invD(5) [OF inv cur]
  show "run_facts r C_Exit ((runs s ! r)\<lparr>doneCh := True\<rparr>) (hook_log (close_done r s))"
    using gen_invD(2) [OF inv r] pc by (auto simp: run_facts_def close_done_def)
  show "pc_ok C_Exit (stopCh ((runs s ! r)\<lparr>doneCh := True\<rparr>)) (act (close_done r s))"
    using ok pc cur by (auto simp: close_done_def lanes_empty_def)
qed (use cur in \<open>auto simp: close_done_def\<close>)

text \<open>The state goes to stopping and the stop channel is closed.\<close>

lemma gen_inv_stop:
  assumes inv: "gen_inv s" and cur: "current (act s) = Some r" and s1: "s1 = requestStop r (set_state ActorStateStopping s)"
    and p: "stop_called p \<longleftrightarrow> stop_called (pcs s ! r)" "p \<noteq> C_Exit" "pcs s ! r \<noteq> C_Exit" "p = pcs s ! r \<or> \<not> stop_called (pcs s ! r)"
    and ok: "pc_ok p True ((act s)\<lparr>act_state := ActorStateStopping\<rparr>)"
  shows "gen_inv (set_pc r p s1)"
proof (rule gen_inv_step [OF inv cur, where p = p and x = "(runs s ! r)\<lparr>stopCh := True\<rparr>" and ks = "[]"])
  note r = gen_invD(4) [OF inv cur]
  show "run_facts r p ((runs s ! r)\<lparr>stopCh := True\<rparr>) (hook_log (set_pc r p s1))"
    using gen_invD(2) [OF inv r] p by (cases "pcs s ! r") (auto simp: run_facts_def s1)
qed (use cur ok in \<open>auto simp: s1\<close>)

lemma abandonMailboxes_moved:
  "\<exists>s1 n. moved s s1 0 n \<and> depth (act s1) = 0 \<and> abandonMailboxes s = s1\<lparr>act := (act s1)\<lparr>abandoned := abandoned (act s1) + of_nat n\<rparr>\<rparr>"
proof -
  obtain n where "moved s (snd (abandon_loop (0, s))) 0 n" "fst (abandon_loop (0, s)) = n" "depth (act (snd (abandon_loop (0, s)))) = 0"
    using moved_abandon_loop [of "(0, s)"] by auto
  then show ?thesis by (auto simp: abandonMailboxes_def split_beta)
qed

lemma gen_inv_abandon:
  assumes inv: "gen_inv s" and cur: "current (act s) = Some r" and pc: "pcs s ! r = C_Abandon"
  shows "gen_inv (set_pc r C_FinishHook (abandonMailboxes s))"
proof -
  obtain s1 n where s1: "moved s s1 0 n" "depth (act s1) = 0"
    "abandonMailboxes s = s1\<lparr>act := (act s1)\<lparr>abandoned := abandoned (act s1) + of_nat n\<rparr>\<rparr>"
    using abandonMailboxes_moved [of s] by blast
  note F = moved_frame [OF s1(1)] and r = gen_invD(4) [OF inv cur] and ok = gen_invD(5) [OF inv cur]
  note st = strip_fields [OF F(8)]
  show ?thesis
  proof (rule gen_inv_step [OF inv cur, where p = C_FinishHook and x = "runs s ! r" and ks = "[]"])
    show "run_facts r C_FinishHook (runs s ! r) (hook_log (set_pc r C_FinishHook (abandonMailboxes s)))"
      using gen_invD(2) [OF inv r] pc F by (auto simp: run_facts_def s1(3))
    show "pc_ok C_FinishHook (stopCh (runs s ! r)) (act (set_pc r C_FinishHook (abandonMailboxes s)))"
      using ok pc s1(2) st by (simp add: s1(3) lanes_empty_def depth_zero)
  qed (use cur F st in \<open>auto simp: s1(3)\<close>)
qed

lemma gen_inv_panic:
  assumes inv: "gen_inv s" and cur: "current (act s) = Some r" and pc: "pcs s ! r = C_Panic"
  shows "gen_inv (handlePanic r s)"
proof -
  note ok = gen_invD(5) [OF inv cur]
  let ?t = "\<lambda>ts. s\<lparr>act := (act s)\<lparr>restartTimes := ts\<rparr>\<rparr>"
  have inv': "gen_inv (?t ts)" for ts
    by (rule gen_inv_step [OF inv cur, where p = C_Panic and x = "runs s ! r" and ks = "[]"])
       (use cur gen_invD(2) [OF inv gen_invD(4) [OF inv cur]] ok pc list_update_id [of "pcs s" r] in simp_all)
  have actor_give_up: "gen_inv (actor_give_up r (?t ts))" for ts
    unfolding actor_give_up_def by (rule gen_inv_stop [OF inv' _ refl]) (use cur pc in auto)
  have give_up0: "gen_inv (actor_give_up r s)"
    unfolding actor_give_up_def by (rule gen_inv_stop [OF inv cur refl]) (use pc in auto)
  have drain: "gen_inv (start_drain r new_scheduler True s)" if "act_state (act s) = ActorStateStopping"
    by (rule gen_inv_pc [OF inv cur]) (use that ok pc fair_order_all in \<open>auto simp: start_drain_def live_ok_def\<close>)
  have waits: "gen_inv (set_pc r C_Backoff (set_state ActorStateRestarting (?t ts)))" if "act_state (act s) \<noteq> ActorStateStopping" for ts
    by (rule gen_inv_step [OF inv cur, where p = C_Backoff and x = "runs s ! r" and ks = "[]"])
       (use cur gen_invD(2) [OF inv gen_invD(4) [OF inv cur]] ok pc that in \<open>auto simp: live_ok_def run_facts_def\<close>)
  show ?thesis using cur drain actor_give_up give_up0 waits by (auto simp: handlePanic_def Let_def)
qed

lemma gen_inv_relaunch:
  assumes inv: "gen_inv s" and cur: "current (act s) = Some r" and pc: "pcs s ! r = C_Relaunch"
  shows "gen_inv (relaunch r s)"
proof -
  note ok = gen_invD(5) [OF inv cur]
  consider "act_state (act s) = ActorStateStopping" "stopCh (runs s ! r)" | "act_state (act s) = ActorStateRestarting" "\<not> stopCh (runs s ! r)"
    using ok pc by (auto simp: live_ok_def)
  then show ?thesis
  proof cases
    case 1
    then have "relaunch r s = start_drain r new_scheduler True s" using cur by (simp add: relaunch_def)
    moreover have "gen_inv (start_drain r new_scheduler True s)"
      by (rule gen_inv_pc [OF inv cur]) (use 1 pc fair_order_all in \<open>auto simp: start_drain_def\<close>)
    ultimately show ?thesis by simp
  next
    case 2
    show ?thesis
      by (rule gen_inv_step [OF inv cur, where p = "C_Top new_scheduler" and x = "runs s ! r" and ks = "[]"])
         (use cur gen_invD(2) [OF inv gen_invD(4) [OF inv cur]] pc 2 in \<open>auto simp: relaunch_def live_ok_def run_facts_def\<close>)
  qed
qed

lemma gen_inv_thread:
  assumes inv: "gen_inv s" and r: "r < length (pcs s)" and st: "thread_step c r s = Some s'"
  shows "gen_inv s'"
proof -
  note cur = thread_current [OF assms]
  note ok = gen_invD(5) [OF inv cur] and facts = gen_invD(2) [OF inv gen_invD(4) [OF inv cur]]
  show ?thesis
  proof (cases "pcs s ! r")
    case S_OnStart
    have "s' = set_pc r (if fst (callOnStart (outcome c) r s) then S_Publish else S_FailLock) (snd (callOnStart (outcome c) r s))"
      using st S_OnStart by (simp add: thread_step_def split_beta)
    from gen_inv_hook [OF inv cur hook_effects(1) this] show ?thesis using S_OnStart ok by simp
  next
    case S_Publish
    show ?thesis
      by (rule gen_inv_step [OF inv cur, where p = "C_Top new_scheduler" and x = "runs s ! r" and ks = "[]"])
         (use S_Publish st cur facts ok in \<open>auto simp: thread_step_def Start_publish_def run_facts_def live_ok_def\<close>)
  next
    case S_FailLock
    then have "s' = set_pc r S_FailHook (requestStop r (set_state ActorStateStopping s))"
      using st cur ok by (simp add: thread_step_def failStart_lock_def)
    then show ?thesis using gen_inv_stop [OF inv cur refl, of S_FailHook] S_FailLock ok by (simp add: lanes_empty_def)
  next
    case S_FailHook
    then have "s' = set_pc r S_FailDone (callOnStop (outcome c) r s)" using st by (simp add: thread_step_def)
    from gen_inv_hook [OF inv cur hook_effects(3) this] show ?thesis using S_FailHook ok by simp
  next
    case (C_Top sc)
    then show ?thesis using st ok fair_order_all gen_inv_pc [OF inv cur refl, of "C_Poll sc (fair_order sc)"]
        gen_inv_pc [OF inv cur refl, of "C_Drain sc (fair_order sc) False"]
      by (auto simp: thread_step_def start_drain_def live_ok_def split: if_splits)
  next
    case (C_Poll sc ls)
    then show ?thesis using st ok gen_inv_pc [OF inv cur refl] gen_inv_receive [OF inv cur, of _ InLoop]
      by (cases ls) (auto simp: thread_step_def split: if_splits)
  next
    case (C_Block sc)
    then show ?thesis using st ok fair_order_all gen_inv_pc [OF inv cur refl] gen_inv_receive [OF inv cur, of _ InLoop]
      by (auto simp: thread_step_def start_drain_def live_ok_def split: if_splits branch.splits)
  next
    case (C_Process sc x md)
    show ?thesis
    proof (cases "outcome c = HookPanic")
      case True
      then have "s' = set_pc r (if md = InPanicDrain then C_Abandon else C_Panic) (s\<lparr>act := (act s)\<lparr>panics := panics (act s) + 1\<rparr>, crashes := crashes s + 1\<rparr>)"
        using st C_Process by (simp add: thread_step_def handler_returns_def)
      then show ?thesis
        by (intro gen_inv_step [OF inv cur, where p = "if md = InPanicDrain then C_Abandon else C_Panic" and x = "runs s ! r" and ks = "[]"])
           (use C_Process cur facts ok in \<open>auto simp: run_facts_def live_ok_def split: if_splits\<close>)
    next
      case False
      then show ?thesis using st C_Process ok fair_order_all gen_inv_pc [OF inv cur refl]
        by (cases md) (auto simp: thread_step_def handler_returns_def start_drain_def)
    qed
  next
    case (C_Drain sc ls ap)
    show ?thesis
    proof (cases ls)
      case Nil
      then show ?thesis using st C_Drain ok gen_inv_pc [OF inv cur refl, of C_FinishHook] by (auto simp: thread_step_def lanes_empty_def)
    next
      case (Cons l ls')
      show ?thesis
      proof (cases "lane_queue l (act s) = []")
        case True
        then have "\<forall>k. k \<notin> set ls' \<longrightarrow> lane_queue k (act s) = []" using ok C_Drain Cons by auto
        moreover have "s' = set_pc r (C_Drain sc ls' ap) s" using st C_Drain Cons True by (simp add: thread_step_def)
        ultimately show ?thesis using gen_inv_pc [OF inv cur, of s' "C_Drain sc ls' ap"] C_Drain ok by simp
      next
        case False
        then have "s' = take_message l r sc (if ap then InPanicDrain else InDrain) s" using st C_Drain Cons by (simp add: thread_step_def)
        then show ?thesis using gen_inv_receive [OF inv cur False, of "if ap then InPanicDrain else InDrain" sc] C_Drain ok by simp
      qed
    qed
  next
    case C_Backoff
    then show ?thesis using st ok fair_order_all gen_inv_pc [OF inv cur refl]
      by (auto simp: thread_step_def start_drain_def live_ok_def split: if_splits branch.splits)
  next
    case C_OnRestart
    have "s' = set_pc r (if fst (callOnRestart (outcome c) r s) then C_Relaunch else C_RestartFail) (snd (callOnRestart (outcome c) r s))"
      using st C_OnRestart by (simp add: thread_step_def split_beta)
    from gen_inv_hook [OF inv cur hook_effects(2) this] show ?thesis using C_OnRestart ok by simp
  next
    case C_RestartFail
    then show ?thesis using st cur ok gen_inv_stop [OF inv cur refl, of C_Abandon] gen_inv_pc [OF inv cur refl, of C_Abandon]
      by (auto simp: thread_step_def transitionRestartFailure_def live_ok_def)
  next
    case C_FinishHook
    let ?s0 = "upd_run r (\<lambda>x. x\<lparr>finishOnce := True\<rparr>) s"
    have f: "\<not> finishOnce (runs s ! r)" using facts C_FinishHook by (auto simp: run_facts_def)
    then have "s' = set_pc r C_FinishLock (callOnStop (outcome c) r ?s0)" using st C_FinishHook by (simp add: thread_step_def finishStop_def)
    moreover note h = hook_effects(3) [of r ?s0 "outcome c"]
    ultimately show ?thesis
      by (intro gen_inv_step [OF inv cur, where p = C_FinishLock and x = "(runs s ! r)\<lparr>finishOnce := True\<rparr>"
            and ks = "if run_hooks (runs s ! r) = None then [] else [OnStop]"])
         (use C_FinishHook cur facts ok r gen_invD(1) [OF inv] in \<open>auto simp: run_facts_def hook_effect_def lanes_empty_def\<close>)
  qed (use st gen_inv_close_done [OF inv cur] gen_inv_panic [OF inv cur] gen_inv_relaunch [OF inv cur] gen_inv_abandon [OF inv cur] in
       \<open>auto simp: thread_step_def\<close>)
qed

lemma gen_inv_frame:
  assumes "gen_inv s" "runs s' = runs s" "pcs s' = pcs s" "hook_log s' = hook_log s" "act_state (act s') = act_state (act s)"
    "current (act s') = current (act s)" "\<And>l. lane_queue l (act s') = lane_queue l (act s)"
  shows "gen_inv s'"
proof (cases "current (act s)")
  case None
  with assms show ?thesis by (simp add: gen_inv_def lanes_empty_def)
next
  case (Some r)
  with assms pc_ok_cong [OF gen_invD(5) [OF assms(1) Some]] show ?thesis by (simp add: gen_inv_def)
qed

text \<open>A message is put into a lane while the actor admits messages.\<close>

lemma gen_inv_admit:
  assumes inv: "gen_inv s" and adm: "actorStateAdmissionError (act_state (act s)) = None"
    and same: "runs s' = runs s" "pcs s' = pcs s" "hook_log s' = hook_log s" "act_state (act s') = act_state (act s)" "current (act s') = current (act s)"
  shows "gen_inv s'"
proof (cases "current (act s)")
  case None
  then show ?thesis using gen_invD(6) [OF inv None] adm by simp
next
  case (Some r)
  have live: "act_state (act s) = ActorStateRunning \<or> act_state (act s) = ActorStateRestarting"
    using adm by (cases "act_state (act s)") auto
  have "pc_ok (pcs s ! r) (stopCh (runs s ! r)) (act s')"
    using gen_invD(5) [OF inv Some] live by (cases "pcs s ! r") (auto simp: live_ok_def same)
  with inv Some same show ?thesis by (simp add: gen_inv_def)
qed

lemma gen_inv_Start:
  assumes inv: "gen_inv s"
  shows "gen_inv (snd (Start_begin s))"
proof (cases "fst (Start_begin s) = None")
  case False
  then have "snd (Start_begin s) = s" by (auto simp: Start_begin_def split: ActorState.splits if_splits)
  with inv show ?thesis by simp
next
  case True
  then have st: "act_state (act s) = ActorStateNew \<or> act_state (act s) = ActorStateStopped"
    by (auto simp: Start_begin_def split: ActorState.splits if_splits)
  note D = gen_invD [OF inv]
  have lanes: "lanes_empty (act s)" and ex: "\<And>r. r < length (runs s) \<Longrightarrow> pcs s ! r = C_Exit"
  proof -
    have "lanes_empty (act s) \<and> pcs s ! r = C_Exit" if "current (act s) = Some r" for r
      using D(5) [OF that] st by (cases "pcs s ! r") (auto simp: live_ok_def split: if_splits)
    with D(3,7,8) show "lanes_empty (act s)" "\<And>r. r < length (runs s) \<Longrightarrow> pcs s ! r = C_Exit"
      by (cases "current (act s)"; auto)+
  qed
  define s' where "s' = s\<lparr>runs := runs s @ [newActorRun (hooks (act s)) (self (act s))], pcs := pcs s @ [S_OnStart],
      act := (act s)\<lparr>current := Some (length (runs s)), restartTimes := [], act_state := ActorStateStarting\<rparr>\<rparr>"
  have s': "snd (Start_begin s) = s'"
    using True st by (auto simp: Start_begin_def s'_def split: if_splits)
  have "run_facts r (pcs s' ! r) (runs s' ! r) (hook_log s')" if "r < length (runs s')" for r
    using that D(1,9) D(2) [of r] by (cases "r = length (runs s)") (auto simp: s'_def nth_append newActorRun_def run_facts_def)
  then show ?thesis using D(1,9) ex lanes unfolding s' gen_inv_def
    by (auto simp: s'_def nth_append newActorRun_def lanes_empty_def)
qed

lemma beginStop_live:
  assumes "gen_inv s" "act_state (act s) = ActorStateRunning \<or> act_state (act s) = ActorStateRestarting"
  shows "\<exists>r. current (act s) = Some r \<and> snd (actor_Stop s) = requestStop r (set_state ActorStateStopping s)"
proof -
  obtain r where "current (act s) = Some r" using gen_invD(6) [OF assms(1)] assms(2) by (cases "current (act s)") auto
  then show ?thesis using assms(2) by (auto simp: actor_Stop_def beginStop_def Let_def)
qed

lemma gen_inv_Stop:
  assumes inv: "gen_inv s"
  shows "gen_inv (snd (actor_Stop s))"
proof (cases "act_state (act s) = ActorStateRunning \<or> act_state (act s) = ActorStateRestarting")
  case False
  then have "snd (actor_Stop s) = s" by (cases "act_state (act s)") (auto simp: actor_Stop_def beginStop_def)
  with inv show ?thesis by simp
next
  case True
  then obtain r where r: "current (act s) = Some r" "snd (actor_Stop s) = requestStop r (set_state ActorStateStopping s)"
    using beginStop_live [OF inv] by blast
  have "gen_inv (set_pc r (pcs s ! r) (requestStop r (set_state ActorStateStopping s)))"
    by (rule gen_inv_stop [OF inv r(1) refl])
       (use gen_invD(5) [OF inv r(1)] True in \<open>cases "pcs s ! r"; auto simp: live_ok_def split: if_splits\<close>)+
  then show ?thesis by (simp add: r(2) requestStop_def)
qed

lemma set_queue_fields [simp]:
  "act_state (set_queue l q a) = act_state a" "current (set_queue l q a) = current a" "chanSize (set_queue l q a) = chanSize a"
  "accepted (set_queue l q a) = accepted a" "abandoned (set_queue l q a) = abandoned a" "latestReplaced (set_queue l q a) = latestReplaced a"
  "restartTimes (set_queue l q a) = restartTimes a" "supervisorCfg (set_queue l q a) = supervisorCfg a"
  by (cases l; simp)+

lemma gen_inv_send:
  assumes "gen_inv s"
  shows "gen_inv (snd (SendPriority x p s))"
proof -
  have "gen_inv (snd (send x p s))" for x
    using gen_inv_frame [OF assms] gen_inv_admit [OF assms] assms
    by (auto simp: send_def split: sum.split option.split)
  with assms show ?thesis by (simp add: SendPriority_def split: option.split)
qed

lemma gen_inv_latest:
  assumes inv: "gen_inv s"
  shows "gen_inv (snd (SendLatest x s))"
proof (cases "x = None \<or> actorStateAdmissionError (act_state (act s)) \<noteq> None")
  case True
  then show ?thesis
    by (intro gen_inv_frame [OF inv]) (auto simp: SendLatest_def split: option.split)
next
  case False
  then show ?thesis
    by (intro gen_inv_admit [OF inv]) (auto simp: SendLatest_def Let_def split: option.split list.split)
qed

lemma gen_inv_actor_step: "actor_step s s' \<Longrightarrow> gen_inv s \<Longrightarrow> gen_inv s'"
proof (induction rule: actor_step.induct)
  case (set_hooks s h)
  then show ?case by (rule gen_inv_frame) (simp_all add: SetLifecycleHooks_def)
next
  case (set_self s a)
  then show ?case by (rule gen_inv_frame) (simp_all add: SetSelf_def)
next
  case (tick d s)
  show ?case by (rule gen_inv_frame [OF tick(2)]) simp_all
qed (simp_all add: gen_inv_Start gen_inv_Stop gen_inv_send gen_inv_latest gen_inv_thread)

lemma gen_inv_reach: "actor_reach i sz cfg s \<Longrightarrow> gen_inv s"
proof (induction rule: actor_reach.induct)
  case init
  show ?case by (simp add: gen_inv_def actor_init_def newBaseActor_def lanes_empty_def all_lanes)
qed (rule gen_inv_actor_step)

section \<open>Every message is accounted for\<close>

fun pc_panic :: "'m run_pc \<Rightarrow> bool" where
  "pc_panic C_Panic = True"
| "pc_panic C_Backoff = True"
| "pc_panic C_OnRestart = True"
| "pc_panic C_Relaunch = True"
| "pc_panic C_RestartFail = True"
| "pc_panic C_Abandon = True"
| "pc_panic (C_Drain sc ls ap) = ap"
| "pc_panic (C_Process sc x md) = (md = InPanicDrain)"
| "pc_panic _ = False"

definition lane_cap :: "actorLane \<Rightarrow> 'm BaseActor \<Rightarrow> nat" where
  "lane_cap l a = (if l = actorLaneLatest then 1 else chanSize a)"

definition acct_inv :: "'m asys \<Rightarrow> bool" where
  "acct_inv s \<longleftrightarrow>
     (\<forall>l. lane_admitted l (admitted s) = lane_removed l (removed s) @ lane_queue l (act s)) \<and>
     (\<forall>l. length (lane_queue l (act s)) \<le> lane_cap l (act s)) \<and>
     accepted (act s) = of_nat (length (admitted s)) \<and> abandoned (act s) = of_nat (fates Abandoned (removed s)) \<and>
     latestReplaced (act s) = of_nat (fates Replaced (removed s)) \<and>
     (0 < fates Abandoned (removed s) \<longrightarrow> 0 < crashes s) \<and> (\<forall>p\<in>set (pcs s). pc_panic p \<longrightarrow> 0 < crashes s)"

lemma acct_frame:
  assumes "acct_inv s" "admitted s' = admitted s" "removed s' = removed s" "\<And>l. lane_queue l (act s') = lane_queue l (act s)"
    "chanSize (act s') = chanSize (act s)" "accepted (act s') = accepted (act s)" "abandoned (act s') = abandoned (act s)"
    "latestReplaced (act s') = latestReplaced (act s)" "crashes s \<le> crashes s'"
    "\<And>p. p \<in> set (pcs s') \<Longrightarrow> pc_panic p \<Longrightarrow> p \<in> set (pcs s) \<or> 0 < crashes s'"
  shows "acct_inv s'"
proof -
  have "0 < crashes s'" if "p \<in> set (pcs s')" "pc_panic p" for p
    using assms(10) [OF that] assms(1,9) that(2) by (fastforce simp: acct_inv_def)
  moreover have "0 < fates Abandoned (removed s) \<longrightarrow> 0 < crashes s'" using assms(1,9) by (auto simp: acct_inv_def)
  moreover have "lane_cap l (act s') = lane_cap l (act s)" for l using assms(5) by (simp add: lane_cap_def)
  ultimately show ?thesis using assms(1) unfolding acct_inv_def assms(2-8) by simp
qed

lemma acct_pc:
  assumes "acct_inv s" "pcs s' = (pcs s)[r := p]" "admitted s' = admitted s" "removed s' = removed s"
    "\<And>l. lane_queue l (act s') = lane_queue l (act s)"
    "chanSize (act s') = chanSize (act s)" "accepted (act s') = accepted (act s)" "abandoned (act s') = abandoned (act s)"
    "latestReplaced (act s') = latestReplaced (act s)" "crashes s \<le> crashes s'" "pc_panic p \<Longrightarrow> 0 < crashes s'"
  shows "acct_inv s'"
  by (rule acct_frame [OF assms(1,3-10)]) (use assms(11) set_update_subset_insert [of "pcs s" r p] in \<open>auto simp: assms(2)\<close>)

lemma acct_moved:
  assumes inv: "acct_inv s" and mv: "moved s s1 a b" and crash: "0 < b \<Longrightarrow> 0 < crashes s"
    and ab: "abandoned ab = abandoned (act s1) + of_nat b" "strip (ab\<lparr>abandoned := abandoned (act s1)\<rparr>) = strip (act s1)"
      "\<And>l. lane_queue l ab = lane_queue l (act s1)"
  shows "acct_inv (s1\<lparr>act := ab\<rparr>)"
proof -
  note F = moved_frame [OF mv]
  note st = strip_fields [OF F(8)] and st' = strip_fields [OF ab(2)]
  have m: "lane_removed l (removed s1) @ lane_queue l (act s1) = lane_removed l (removed s) @ lane_queue l (act s)"
    "length (lane_queue l (act s1)) \<le> length (lane_queue l (act s))"
    "fates Replaced (removed s1) = fates Replaced (removed s)" "fates Abandoned (removed s1) = fates Abandoned (removed s) + b" for l
    using mv by (auto simp: moved_def)
  have "length (lane_queue l (act s1)) \<le> lane_cap l (act s)" for l
    using inv m(2) [of l] unfolding acct_inv_def by (meson order_trans)
  moreover have "lane_admitted l (admitted s) = lane_removed l (removed s1) @ lane_queue l (act s1)" for l
    using inv m(1) [of l] by (simp add: acct_inv_def)
  moreover have "lane_cap l ab = lane_cap l (act s)" for l using st(5) st'(5) by (simp add: lane_cap_def)
  moreover have "0 < fates Abandoned (removed s1) \<longrightarrow> 0 < crashes s" using crash inv m(4) by (auto simp: acct_inv_def)
  moreover have "\<forall>p\<in>set (pcs s). pc_panic p \<longrightarrow> 0 < crashes s" using inv by (simp add: acct_inv_def)
  moreover have "abandoned ab = of_nat (fates Abandoned (removed s1))" using inv ab(1) st(8) m(4) by (simp add: acct_inv_def)
  moreover have "accepted ab = of_nat (length (admitted s))" "latestReplaced ab = of_nat (fates Replaced (removed s1))"
    using inv st(6,7) st'(6,7) m(3) by (simp_all add: acct_inv_def)
  ultimately show ?thesis using F(2,4,7) ab(3) unfolding acct_inv_def by simp
qed

lemma acct_receive:
  assumes inv: "acct_inv s" and q: "lane_queue l (act s) \<noteq> []" and md: "md = InPanicDrain \<Longrightarrow> 0 < crashes s"
  shows "acct_inv (take_message l r sc md s)"
proof -
  obtain s1 where s1: "moved s s1 1 0" "take_message l r sc md s = set_pc r (C_Process (record_lane l sc) (hd (lane_queue l (act s))) md) s1"
    using moved_receive [OF q] by blast
  have "acct_inv (s1\<lparr>act := act s1\<rparr>)" by (rule acct_moved [OF inv s1(1)]) simp_all
  then have a: "acct_inv s1" by simp
  have "crashes s1 = crashes s" using moved_frame [OF s1(1)] by simp
  then show ?thesis unfolding s1(2) by (intro acct_pc [OF a, of _ r "C_Process (record_lane l sc) (hd (lane_queue l (act s))) md"]) (use md in simp_all)
qed

lemma acct_hook:
  assumes "acct_inv s" "hook_effect r k s s1" "\<not> pc_panic p \<or> 0 < crashes s"
  shows "acct_inv (set_pc r p s1)"
  by (rule acct_pc [OF assms(1), of _ r p]) (use assms(2,3) in \<open>auto simp: hook_effect_def\<close>)

lemma acct_thread:
  assumes inv: "acct_inv s" and r: "r < length (pcs s)" and st: "thread_step c r s = Some s'"
  shows "acct_inv s'"
proof -
  have panic: "0 < crashes s" if "pc_panic (pcs s ! r)" using inv that r unfolding acct_inv_def by (meson nth_mem)
  note set_pc = acct_pc [OF inv, of _ r]
  show ?thesis
  proof (cases "pcs s ! r")
    case S_OnStart
    then show ?thesis using st acct_hook [OF inv hook_effects(1)] by (auto simp: thread_step_def split_beta)
  next
    case S_Publish
    then show ?thesis using st by (intro set_pc [of _ "if current (act s) \<noteq> Some r \<or> act_state (act s) \<noteq> ActorStateStarting then C_Exit else C_Top new_scheduler"])
      (auto simp: thread_step_def Start_publish_def split: if_splits)
  next
    case S_FailLock
    then show ?thesis using st by (intro set_pc [of _ S_FailHook]) (auto simp: thread_step_def failStart_lock_def)
  next
    case S_FailHook
    then show ?thesis using st acct_hook [OF inv hook_effects(3)] by (auto simp: thread_step_def)
  next
    case (C_Top sc)
    then show ?thesis using st
      by (intro set_pc [of _ "if stopCh (runs s ! r) then C_Drain sc (fair_order sc) False else C_Poll sc (fair_order sc)"])
         (auto simp: thread_step_def start_drain_def split: if_splits)
  next
    case (C_Poll sc ls)
    show ?thesis
    proof (cases "\<exists>l ls'. ls = l # ls' \<and> lane_queue l (act s) \<noteq> []")
      case True
      then show ?thesis using st C_Poll acct_receive [OF inv, of _ InLoop] by (auto simp: thread_step_def)
    next
      case False
      then show ?thesis using st C_Poll
        by (intro set_pc [of _ "if ls = [] then C_Block sc else C_Poll sc (tl ls)"]) (auto simp: thread_step_def split: list.splits)
    qed
  next
    case (C_Block sc)
    show ?thesis
    proof (cases "branch c")
      case TakeStop
      then show ?thesis using st C_Block
        by (intro set_pc [of _ "C_Drain sc (fair_order sc) False"]) (auto simp: thread_step_def start_drain_def split: if_splits)
    qed (use st C_Block acct_receive [OF inv, of _ InLoop] in \<open>auto simp: thread_step_def split: if_splits\<close>)
  next
    case (C_Process sc x md)
    then show ?thesis using st panic
      by (intro set_pc [of _ "if outcome c = HookPanic then (if md = InPanicDrain then C_Abandon else C_Panic)
            else if md = InLoop then C_Top sc else C_Drain sc (fair_order sc) (md = InPanicDrain)"])
         (auto simp: thread_step_def handler_returns_def start_drain_def split: drain_mode.splits)
  next
    case (C_Drain sc ls ap)
    show ?thesis
    proof (cases "\<exists>l ls'. ls = l # ls' \<and> lane_queue l (act s) \<noteq> []")
      case True
      then show ?thesis using st C_Drain acct_receive [OF inv, of _ "if ap then InPanicDrain else InDrain"] panic
        by (auto simp: thread_step_def)
    next
      case False
      then show ?thesis using st C_Drain panic
        by (intro set_pc [of _ "if ls = [] then C_FinishHook else C_Drain sc (tl ls) ap"]) (auto simp: thread_step_def split: list.splits)
    qed
  next
    case C_OnRestart
    then show ?thesis using st acct_hook [OF inv hook_effects(2)] panic by (auto simp: thread_step_def split_beta)
  next
    case C_Abandon
    obtain s1 n where s1: "moved s s1 0 n" "depth (act s1) = 0"
      "abandonMailboxes s = s1\<lparr>act := (act s1)\<lparr>abandoned := abandoned (act s1) + of_nat n\<rparr>\<rparr>"
      using abandonMailboxes_moved [of s] by blast
    have "acct_inv (abandonMailboxes s)"
      unfolding s1(3) by (rule acct_moved [OF inv s1(1)]) (use panic C_Abandon in \<open>simp_all add: strip_def\<close>)
    then have "acct_inv (set_pc r C_FinishHook (abandonMailboxes s))"
      by (rule acct_pc [where r = r and p = C_FinishHook]) simp_all
    then show ?thesis using st C_Abandon by (simp add: thread_step_def)
  next
    case C_FinishHook
    have a: "acct_inv (upd_run r (\<lambda>x. x\<lparr>finishOnce := True\<rparr>) s)" by (rule acct_frame [OF inv]) auto
    show ?thesis
    proof (cases "finishOnce (runs s ! r)")
      case True
      then show ?thesis using st C_FinishHook by (intro set_pc [of _ C_Exit]) (auto simp: thread_step_def finishStop_def)
    qed (use st C_FinishHook acct_hook [OF a hook_effects(3), where p = C_FinishLock] in \<open>auto simp: thread_step_def finishStop_def\<close>)
  next
    case C_Backoff
    then show ?thesis using st panic
      by (intro set_pc [of _ "if branch c = TakeStop then C_Drain new_scheduler (fair_order new_scheduler) True else C_OnRestart"])
         (auto simp: thread_step_def start_drain_def split: branch.splits if_splits)
  next
    case C_Panic
    then have s': "s' = handlePanic r s" and p: "0 < crashes s" using st panic by (simp_all add: thread_step_def)
    show ?thesis
      by (rule set_pc [of _ "pcs s' ! r"]) (simp_all add: s' handlePanic_def Let_def start_drain_def actor_give_up_def r p)
  next
    case C_Relaunch
    then have s': "s' = relaunch r s" and p: "0 < crashes s" using st panic by (simp_all add: thread_step_def)
    show ?thesis
      by (rule set_pc [of _ "pcs s' ! r"]) (simp_all add: s' relaunch_def start_drain_def r p)
  next
    case C_RestartFail
    then show ?thesis using st panic by (intro set_pc [of _ C_Abandon]) (auto simp: thread_step_def transitionRestartFailure_def)
  qed (use st in \<open>auto simp: thread_step_def close_done_def intro!: set_pc [of _ C_Exit]\<close>)
qed

lemma acct_send:
  assumes inv: "acct_inv s"
  shows "acct_inv (snd (SendPriority x p s))"
proof -
  have "acct_inv (snd (send x p s))" for x
  proof (cases "fst (send x p s)")
    case (Some e)
    then show ?thesis by (intro acct_frame [OF inv]) (auto simp: send_def split: sum.splits option.splits if_splits)
  next
    case None
    then obtain l where l: "mailbox p = Inr l" "length (lane_queue l (act s)) < chanSize (act s)"
      "snd (send x p s) = s\<lparr>act := set_queue l (lane_queue l (act s) @ [x]) ((act s)\<lparr>accepted := accepted (act s) + 1\<rparr>), admitted := admitted s @ [(l, x)]\<rparr>"
      by (auto simp: send_def split: sum.splits option.splits if_splits)
    have "l \<noteq> actorLaneLatest" using l(1) by (auto simp: mailbox_def split: if_splits)
    then have "Suc (length (lane_queue l (act s))) \<le> lane_cap l (act s)" using l(2) by (simp add: lane_cap_def)
    moreover have "lane_cap k (set_queue l q ((act s)\<lparr>accepted := n\<rparr>)) = lane_cap k (act s)" for k q n by (simp add: lane_cap_def)
    ultimately show ?thesis using inv unfolding l(3) acct_inv_def by auto
  qed
  with inv show ?thesis by (simp add: SendPriority_def split: option.split)
qed

lemma acct_latest:
  assumes inv: "acct_inv s"
  shows "acct_inv (snd (SendLatest x s))"
proof (cases "x = None \<or> actorStateAdmissionError (act_state (act s)) \<noteq> None")
  case True
  then show ?thesis
    by (intro acct_frame [OF inv]) (auto simp: SendLatest_def split: option.split)
next
  case False
  then obtain y where x: "x = Some y" by auto
  have "length (lane_queue actorLaneLatest (act s)) \<le> lane_cap actorLaneLatest (act s)" using inv unfolding acct_inv_def by blast
  then have "length (latest (act s)) \<le> 1" by (simp add: lane_cap_def)
  then consider "latest (act s) = []" | z where "latest (act s) = [z]" by (cases "latest (act s)") auto
  then show ?thesis
  proof cases
    case 1
    let ?s = "s\<lparr>act := set_queue actorLaneLatest [y] ((act s)\<lparr>accepted := accepted (act s) + 1\<rparr>), admitted := admitted s @ [(actorLaneLatest, y)]\<rparr>"
    have "snd (SendLatest x s) = ?s" using False 1 by (simp add: SendLatest_def x Let_def)
    moreover have "acct_inv ?s" using inv 1 unfolding acct_inv_def all_lanes by (simp add: lane_cap_def)
    ultimately show ?thesis by simp
  next
    case 2
    let ?a = "(act s)\<lparr>latest := [], latestReplaced := latestReplaced (act s) + 1\<rparr>"
    let ?s = "s\<lparr>act := set_queue actorLaneLatest [y] (?a\<lparr>accepted := accepted (act s) + 1\<rparr>),
        removed := removed s @ [(actorLaneLatest, z, Replaced)], admitted := admitted s @ [(actorLaneLatest, y)]\<rparr>"
    have "snd (SendLatest x s) = ?s" using False 2 by (simp add: SendLatest_def x Let_def)
    moreover have "acct_inv ?s" using inv 2 unfolding acct_inv_def all_lanes by (simp add: lane_cap_def)
    ultimately show ?thesis by simp
  qed
qed

lemma acct_actor_step: "actor_step s s' \<Longrightarrow> acct_inv s \<Longrightarrow> acct_inv s'"
proof (induction rule: actor_step.induct)
  case (start s)
  then show ?case
    by (intro acct_frame [OF start]) (auto simp: Start_begin_def split: ActorState.splits)
next
  case (stop s)
  then show ?case
    by (intro acct_frame [OF stop]) (auto simp: actor_Stop_def beginStop_def Let_def split: ActorState.splits)
next
  case (set_hooks s h)
  show ?case by (rule acct_frame [OF set_hooks]) (simp_all add: SetLifecycleHooks_def)
next
  case (set_self s a)
  show ?case by (rule acct_frame [OF set_self]) (simp_all add: SetSelf_def)
next
  case (tick d s)
  show ?case by (rule acct_frame [OF tick(2)]) simp_all
qed (simp_all add: acct_send acct_latest acct_thread)

lemma acct_reach: "actor_reach i sz cfg s \<Longrightarrow> acct_inv s"
proof (induction rule: actor_reach.induct)
  case init
  show ?case by (simp add: acct_inv_def actor_init_def newBaseActor_def all_lanes)
qed (rule acct_actor_step)

text \<open>
  Property C24. In every interleaving of an actor with its callers, with any outcomes of hooks and handlers: the
  messages admitted to a lane are, in order, those handed to the handler, replaced or abandoned, followed by those in the
  lane; a lane is within its capacity; the counters agree; nothing is abandoned unless a handler panicked; and once
  the actor is stopped, or has never been started, every lane is empty, so that all admitted messages have
  been dealt with.
\<close>

theorem actor_accounts_for_messages:
  assumes "actor_reach i sz cfg s"
  shows "(\<forall>l. lane_admitted l (admitted s) = lane_removed l (removed s) @ lane_queue l (act s)) \<and>
    (\<forall>l. length (lane_queue l (act s)) \<le> lane_cap l (act s)) \<and>
    st_Accepted (Stats (act s)) = of_nat (length (admitted s)) \<and> st_Abandoned (Stats (act s)) = of_nat (fates Abandoned (removed s)) \<and>
    st_LatestReplaced (Stats (act s)) = of_nat (fates Replaced (removed s)) \<and>
    (crashes s = 0 \<longrightarrow> fates Abandoned (removed s) = 0) \<and>
    (act_state (act s) \<in> {ActorStateNew, ActorStateStarting, ActorStateStopped} \<longrightarrow> (\<forall>l. lane_admitted l (admitted s) = lane_removed l (removed s)))"
proof -
  note A = acct_reach [OF assms] and G = gen_inv_reach [OF assms]
  have "lanes_empty (act s)" if "act_state (act s) \<in> {ActorStateNew, ActorStateStarting, ActorStateStopped}"
  proof (cases "current (act s)")
    case None
    then show ?thesis using gen_invD(8) [OF G] by blast
  next
    case (Some r)
    then show ?thesis using gen_invD(5) [OF G Some] that by (cases "pcs s ! r") (auto simp: live_ok_def split: if_splits)
  qed
  with A show ?thesis by (auto simp: acct_inv_def Stats_def lanes_empty_def)
qed

text \<open>
  Property C25. Generations of an actor never overlap: only the current run can have a goroutine that has not ended,
  it has none when the actor is new or stopped, and messages are admitted only while the current one lives.
  The done channel of a run is closed exactly when its goroutine has ended, its \<^verbatim>\<open>OnStop\<close> hook has then been called, and
  no run calls it twice.
\<close>

theorem actor_generations_disjoint:
  assumes "actor_reach i sz cfg s" "r < length (runs s)"
  shows "(pcs s ! r \<noteq> C_Exit \<longrightarrow> current (act s) = Some r \<and> act_state (act s) \<notin> {ActorStateNew, ActorStateStopped}) \<and>
    (doneCh (runs s ! r) \<longleftrightarrow> pcs s ! r = C_Exit) \<and> (doneCh (runs s ! r) \<longrightarrow> stopCh (runs s ! r) \<or> current (act s) \<noteq> Some r) \<and>
    stop_hooks r (hook_log s) \<le> 1 \<and> (doneCh (runs s ! r) \<longrightarrow> stop_hooks r (hook_log s) = (if run_hooks (runs s ! r) = None then 0 else 1)) \<and>
    (IsRunning s \<and> current (act s) = Some r \<longrightarrow> pcs s ! r \<noteq> C_Exit \<and> \<not> stopCh (runs s ! r))"
proof -
  note G = gen_inv_reach [OF assms(1)]
  note f = gen_invD(2) [OF G assms(2)]
  show ?thesis
  proof (cases "current (act s) = Some r")
    case True
    with gen_invD(5) [OF G True] f show ?thesis
      by (cases "pcs s ! r") (auto simp: run_facts_def live_ok_def IsRunning_def split: if_splits)
  next
    case False
    with gen_invD(3) [OF G assms(2)] f show ?thesis by (auto simp: run_facts_def)
  qed
qed

section \<open>The limit of restarts\<close>

definition restart_times :: "nat \<Rightarrow> (nat \<times> int) list \<Rightarrow> int list" where
  "restart_times r lg = map snd (filter (\<lambda>(r', t). r' = r) lg)"

lemma restart_times_append [simp]:
  "restart_times r (lg @ [(r', t)]) = restart_times r lg @ (if r' = r then [t] else [])"
  by (simp add: restart_times_def)

fun waits :: "'m run_pc \<Rightarrow> bool" where
  "waits C_Backoff = True"
| "waits C_OnRestart = True"
| "waits C_Relaunch = True"
| "waits _ = False"

definition window_ok :: "SupervisorConfig \<Rightarrow> int list \<Rightarrow> bool" where
  "window_ok cfg ts \<longleftrightarrow> (\<forall>x. length (filter (\<lambda>t. x < t \<and> t \<le> x + RestartWindow cfg) ts) \<le> nat (MaxRestarts cfg))"

definition remembers :: "SupervisorConfig \<Rightarrow> int \<Rightarrow> int list \<Rightarrow> int list \<Rightarrow> bool" where
  "remembers cfg now ts kept \<longleftrightarrow>
     (\<forall>x \<ge> now - RestartWindow cfg. length (filter (\<lambda>t. x < t) ts) \<le> length (filter (\<lambda>t. x < t) kept))"

definition restart_inv :: "SupervisorConfig \<Rightarrow> 'm asys \<Rightarrow> bool" where
  "restart_inv cfg s \<longleftrightarrow> supervisorCfg (act s) = cfg \<and> (\<forall>(r, t)\<in>set (restart_log s). r < length (runs s)) \<and>
     (\<forall>r. window_ok cfg (restart_times r (restart_log s))) \<and>
     (case current (act s) of
        None \<Rightarrow> True
      | Some r \<Rightarrow> remembers cfg (clk s) (restart_times r (restart_log s)) (restartTimes (act s)) \<and>
                  (waits (pcs s ! r) \<longrightarrow> int (length (restartTimes (act s))) < MaxRestarts cfg))"

lemma remembers_later: "remembers cfg now ts kept \<Longrightarrow> now \<le> now' \<Longrightarrow> remembers cfg now' ts kept"
  by (auto simp: remembers_def)

lemma window_ok_relaunch:
  assumes "window_ok cfg ts" "remembers cfg now ts kept" "int (length kept) < MaxRestarts cfg"
  shows "window_ok cfg (ts @ [now])"
  unfolding window_ok_def
proof
  fix x
  show "length (filter (\<lambda>t. x < t \<and> t \<le> x + RestartWindow cfg) (ts @ [now])) \<le> nat (MaxRestarts cfg)"
  proof (cases "x < now \<and> now \<le> x + RestartWindow cfg")
    case True
    have "length (filter (\<lambda>t. x < t \<and> t \<le> x + RestartWindow cfg) ts) \<le> length (filter (\<lambda>t. x < t) ts)"
      by (induction ts) auto
    also have "\<dots> \<le> length (filter (\<lambda>t. x < t) kept)" using assms(2) True by (simp add: remembers_def)
    also have "\<dots> \<le> length kept" by (rule length_filter_le)
    finally show ?thesis using True assms(3) by simp
  next
    case False
    then show ?thesis using assms(1) by (auto simp: window_ok_def)
  qed
qed

lemma restart_frame:
  assumes inv: "restart_inv cfg s" and cur: "current (act s') = current (act s)"
    and same: "supervisorCfg (act s') = supervisorCfg (act s)" "restart_log s' = restart_log s" "restartTimes (act s') = restartTimes (act s)"
    and le: "length (runs s) \<le> length (runs s')" "clk s \<le> clk s'"
    and pc: "\<And>r. current (act s) = Some r \<Longrightarrow> waits (pcs s' ! r) \<Longrightarrow> waits (pcs s ! r)"
  shows "restart_inv cfg s'"
proof -
  have "\<forall>(r, t)\<in>set (restart_log s). r < length (runs s')" using inv le(1) by (fastforce simp: restart_inv_def)
  with inv show ?thesis unfolding restart_inv_def cur same
    using remembers_later [OF _ le(2)] pc by (auto split: option.splits)
qed

lemma waits_update: "waits (xs[r := p] ! k) \<Longrightarrow> (waits p \<Longrightarrow> waits (xs ! r)) \<Longrightarrow> waits (xs ! k)"
  by (cases "k = r"; cases "r < length xs") (simp_all add: not_less list_update_beyond)

lemma restart_pc:
  assumes "restart_inv cfg s" "pcs s' = (pcs s)[r := p]" "waits p \<Longrightarrow> waits (pcs s ! r)" "current (act s') = current (act s)"
    "supervisorCfg (act s') = supervisorCfg (act s)" "restart_log s' = restart_log s" "restartTimes (act s') = restartTimes (act s)"
    "length (runs s) \<le> length (runs s')" "clk s \<le> clk s'"
  shows "restart_inv cfg s'"
  by (rule restart_frame [OF assms(1,4-9)]) (use waits_update assms(3) in \<open>auto simp: assms(2)\<close>)

lemma hook_restart:
  assumes "restart_inv cfg s" "hook_effect r k s s1" "waits p \<Longrightarrow> waits (pcs s ! r)"
  shows "restart_inv cfg (set_pc r p s1)"
  by (rule restart_pc [OF assms(1) _ assms(3)]) (use assms(2) in \<open>auto simp: hook_effect_def\<close>)

lemma moved_restart:
  assumes "restart_inv cfg s" "moved s s1 a b" "\<not> waits p" "ab = act s1 \<or> ab = (act s1)\<lparr>abandoned := n\<rparr>"
  shows "restart_inv cfg (set_pc r p (s1\<lparr>act := ab\<rparr>))"
proof -
  note F = moved_frame [OF assms(2)]
  show ?thesis
    by (rule restart_pc [OF assms(1), where r = r and p = p]) (use F strip_fields [OF F(8)] assms(3,4) in auto)
qed

lemma receive_restart:
  assumes "restart_inv cfg s" "lane_queue l (act s) \<noteq> []"
  shows "restart_inv cfg (take_message l r sc md s)"
proof -
  obtain s1 where s1: "moved s s1 1 0" "take_message l r sc md s = set_pc r (C_Process (record_lane l sc) (hd (lane_queue l (act s))) md) s1"
    using moved_receive [OF assms(2)] by blast
  have "restart_inv cfg (set_pc r (C_Process (record_lane l sc) (hd (lane_queue l (act s))) md) (s1\<lparr>act := act s1\<rparr>))"
    by (rule moved_restart [OF assms(1) s1(1)]) simp_all
  then show ?thesis by (simp add: s1(2))
qed

text \<open>Forgetting the restarts before the window.\<close>

lemma forget_restart:
  assumes inv: "restart_inv cfg s" and cur: "current (act s) = Some r" "current (act s') = Some r"
    and same: "supervisorCfg (act s') = supervisorCfg (act s)" "restart_log s' = restart_log s" "clk s' = clk s" "length (runs s') = length (runs s)"
    and kept: "restartTimes (act s') = filter (\<lambda>t. t > clk s - RestartWindow cfg) (restartTimes (act s))"
    and pc: "waits (pcs s' ! r) \<Longrightarrow> int (length (restartTimes (act s'))) < MaxRestarts cfg"
  shows "restart_inv cfg s'"
proof -
  let ?ts = "restart_times r (restart_log s)"
  have "filter (\<lambda>t. x < t) (restartTimes (act s')) = filter (\<lambda>t. x < t) (restartTimes (act s))" if "clk s - RestartWindow cfg \<le> x" for x
    unfolding kept filter_filter using that by (intro filter_cong) auto
  moreover have "remembers cfg (clk s) ?ts (restartTimes (act s))" using inv cur(1) by (simp add: restart_inv_def)
  ultimately have "remembers cfg (clk s) ?ts (restartTimes (act s'))" by (simp add: remembers_def)
  with inv pc show ?thesis by (simp add: restart_inv_def cur same)
qed

lemma panic_restart:
  assumes inv: "restart_inv cfg s" and r: "r < length (pcs s)" and cur: "current (act s) = Some r"
    and pc: "pcs s ! r = C_Panic" and W: "- (2 ^ 63) < RestartWindow cfg" "RestartWindow cfg < 2 ^ 63"
  shows "restart_inv cfg (handlePanic r s)"
proof -
  have w: "wrap64 (- RestartWindow cfg) = - RestartWindow cfg" using W by (intro wrap64_id) auto
  have cfg: "supervisorCfg (act s) = cfg" using inv by (simp add: restart_inv_def)
  consider "act_state (act s) = ActorStateStopping" | "act_state (act s) \<noteq> ActorStateStopping" "Strategy cfg \<noteq> SupervisorStrategyRestart"
    | "act_state (act s) \<noteq> ActorStateStopping" "Strategy cfg = SupervisorStrategyRestart" by blast
  then show ?thesis
  proof cases
    case 1
    then have "handlePanic r s = start_drain r new_scheduler True s" using cur by (simp add: handlePanic_def)
    then show ?thesis
      by (intro restart_pc [OF inv, where r = r and p = "C_Drain new_scheduler (fair_order new_scheduler) True"]) (auto simp: start_drain_def)
  next
    case 2
    then have "handlePanic r s = actor_give_up r s" using cur by (simp add: handlePanic_def Let_def cfg)
    then show ?thesis by (intro restart_pc [OF inv, where r = r and p = C_Abandon]) (auto simp: actor_give_up_def)
  next
    case 3
    let ?kept = "filter (\<lambda>t. t > clk s - RestartWindow cfg) (restartTimes (act s))"
    let ?s = "s\<lparr>act := (act s)\<lparr>restartTimes := ?kept\<rparr>\<rparr>"
    have ne: "SupervisorStrategyRestart \<noteq> SupervisorStrategyStop" by (simp add: SupervisorStrategyRestart_def SupervisorStrategyStop_def)
    have h: "handlePanic r s = (if int (length ?kept) \<ge> MaxRestarts cfg then actor_give_up r ?s else set_pc r C_Backoff (set_state ActorStateRestarting ?s))"
      using 3 cur ne by (simp add: handlePanic_def Let_def cfg w)
    show ?thesis by (rule forget_restart [OF inv cur]) (simp_all add: h actor_give_up_def cur r split: if_splits)
  qed
qed

lemma relaunch_restart:
  assumes inv: "restart_inv cfg s" and r: "r < length (pcs s)" and cur: "current (act s) = Some r" "r < length (runs s)" and pc: "pcs s ! r = C_Relaunch"
  shows "restart_inv cfg (relaunch r s)"
proof (cases "act_state (act s) = ActorStateRestarting")
  case False
  then show ?thesis using cur
    by (intro restart_pc [OF inv, where r = r and p = "pcs (relaunch r s) ! r"]) (simp_all add: relaunch_def start_drain_def r pc)
next
  case True
  let ?ts = "restart_times r (restart_log s)"
  have i: "remembers cfg (clk s) ?ts (restartTimes (act s))" "int (length (restartTimes (act s))) < MaxRestarts cfg" "window_ok cfg ?ts"
    using inv cur pc by (simp_all add: restart_inv_def)
  have "window_ok cfg (?ts @ [clk s])" by (rule window_ok_relaunch [OF i(3,1,2)])
  moreover have "remembers cfg (clk s) (?ts @ [clk s]) (restartTimes (act s) @ [clk s])" using i(1) by (simp add: remembers_def)
  ultimately show ?thesis using inv cur True r by (simp add: restart_inv_def relaunch_def)
qed

lemma thread_restart:
  assumes gen: "gen_inv s" and inv: "restart_inv cfg s" and r: "r < length (pcs s)" and st: "thread_step c r s = Some s'"
    and W: "- (2 ^ 63) < RestartWindow cfg" "RestartWindow cfg < 2 ^ 63"
  shows "restart_inv cfg s'"
proof -
  note cur = thread_current [OF gen r st] and set_pc = restart_pc [OF inv, where r = r]
  have r': "r < length (runs s)" using r gen_invD(1) [OF gen] by simp
  show ?thesis
  proof (cases "pcs s ! r")
    case S_OnStart
    then show ?thesis using st by (auto intro!: hook_restart [OF inv hook_effects(1)] simp: thread_step_def split_beta split: if_splits)
  next
    case S_Publish
    then show ?thesis using st cur by (intro set_pc [where p = "pcs s' ! r"]) (auto simp: thread_step_def Start_publish_def r split: if_splits)
  next
    case S_FailLock
    then show ?thesis using st by (intro set_pc [where p = S_FailHook]) (auto simp: thread_step_def failStart_lock_def)
  next
    case S_FailHook
    then show ?thesis using st by (auto intro!: hook_restart [OF inv hook_effects(3)] simp: thread_step_def)
  next
    case (C_Top sc)
    then show ?thesis using st by (intro set_pc [where p = "pcs s' ! r"]) (auto simp: thread_step_def start_drain_def r split: if_splits)
  next
    case (C_Poll sc ls)
    show ?thesis
    proof (cases "\<exists>l ls'. ls = l # ls' \<and> lane_queue l (act s) \<noteq> []")
      case True
      then show ?thesis using st C_Poll receive_restart [OF inv] by (auto simp: thread_step_def)
    next
      case False
      then show ?thesis using st C_Poll
        by (intro set_pc [where p = "if ls = [] then C_Block sc else C_Poll sc (tl ls)"]) (auto simp: thread_step_def split: list.splits)
    qed
  next
    case (C_Block sc)
    show ?thesis
    proof (cases "branch c")
      case TakeStop
      then show ?thesis using st C_Block
        by (intro set_pc [where p = "C_Drain sc (fair_order sc) False"]) (auto simp: thread_step_def start_drain_def split: if_splits)
    qed (use st C_Block receive_restart [OF inv] in \<open>auto simp: thread_step_def split: if_splits\<close>)
  next
    case (C_Process sc x md)
    then show ?thesis using st
      by (intro set_pc [where p = "if outcome c = HookPanic then (if md = InPanicDrain then C_Abandon else C_Panic)
            else if md = InLoop then C_Top sc else C_Drain sc (fair_order sc) (md = InPanicDrain)"])
         (auto simp: thread_step_def handler_returns_def start_drain_def split: drain_mode.splits if_splits)
  next
    case (C_Drain sc ls ap)
    show ?thesis
    proof (cases "\<exists>l ls'. ls = l # ls' \<and> lane_queue l (act s) \<noteq> []")
      case True
      then show ?thesis using st C_Drain receive_restart [OF inv] by (auto simp: thread_step_def)
    next
      case False
      then show ?thesis using st C_Drain
        by (intro set_pc [where p = "if ls = [] then C_FinishHook else C_Drain sc (tl ls) ap"]) (auto simp: thread_step_def split: list.splits if_splits)
    qed
  next
    case C_OnRestart
    then show ?thesis using st by (auto intro!: hook_restart [OF inv hook_effects(2)] simp: thread_step_def split_beta)
  next
    case C_Abandon
    obtain s1 n where s1: "moved s s1 0 n" "abandonMailboxes s = s1\<lparr>act := (act s1)\<lparr>abandoned := abandoned (act s1) + of_nat n\<rparr>\<rparr>"
      using abandonMailboxes_moved [of s] by blast
    have "restart_inv cfg (set_pc r C_FinishHook (abandonMailboxes s))"
      unfolding s1(2) by (rule moved_restart [OF inv s1(1)]) auto
    then show ?thesis using st C_Abandon by (simp add: thread_step_def)
  next
    case C_FinishHook
    have a: "restart_inv cfg (upd_run r (\<lambda>x. x\<lparr>finishOnce := True\<rparr>) s)" by (rule restart_frame [OF inv]) auto
    show ?thesis
    proof (cases "finishOnce (runs s ! r)")
      case True
      then show ?thesis using st C_FinishHook by (intro set_pc [where p = C_Exit]) (auto simp: thread_step_def finishStop_def)
    qed (use st C_FinishHook hook_restart [OF a hook_effects(3), where p = C_FinishLock] in \<open>auto simp: thread_step_def finishStop_def\<close>)
  next
    case C_Backoff
    then show ?thesis using st
      by (intro set_pc [where p = "if branch c = TakeStop then C_Drain new_scheduler (fair_order new_scheduler) True else C_OnRestart"])
         (auto simp: thread_step_def start_drain_def split: branch.splits if_splits)
  next
    case C_Panic
    then show ?thesis using st panic_restart [OF inv r cur C_Panic W] by (simp add: thread_step_def)
  next
    case C_Relaunch
    then show ?thesis using st relaunch_restart [OF inv r cur r' C_Relaunch] by (simp add: thread_step_def)
  next
    case C_RestartFail
    then show ?thesis using st by (intro set_pc [where p = C_Abandon]) (auto simp: thread_step_def transitionRestartFailure_def)
  qed (use st in \<open>auto simp: thread_step_def close_done_def intro!: set_pc [where p = C_Exit]\<close>)
qed

lemma step_restart:
  assumes "actor_step s s'" "gen_inv s" "restart_inv cfg s" "- (2 ^ 63) < RestartWindow cfg" "RestartWindow cfg < 2 ^ 63"
  shows "restart_inv cfg s'"
  using assms(1)
proof cases
  case start
  show ?thesis
  proof (cases "fst (Start_begin s)")
    case (Some e)
    then have "snd (Start_begin s) = s" by (auto simp: Start_begin_def split: ActorState.splits if_splits)
    with assms(3) start show ?thesis by simp
  next
    case None
    have new: "restart_times (length (runs s)) (restart_log s) = []"
      using assms(3) by (fastforce simp: restart_inv_def restart_times_def filter_empty_conv)
    have "s' = s\<lparr>runs := runs s @ [newActorRun (hooks (act s)) (self (act s))], pcs := pcs s @ [S_OnStart],
        act := (act s)\<lparr>current := Some (length (runs s)), restartTimes := [], act_state := ActorStateStarting\<rparr>\<rparr>"
      using None start by (auto simp: Start_begin_def split: ActorState.splits if_splits)
    moreover have "\<forall>(r, t)\<in>set (restart_log s). r < Suc (length (runs s))" using assms(3) by (auto simp: restart_inv_def)
    ultimately show ?thesis using assms(3) new gen_invD(1) [OF assms(2)]
      by (simp add: restart_inv_def remembers_def nth_append)
  qed
next
  case stop
  show ?thesis unfolding stop
    by (rule restart_frame [OF assms(3)]) (auto simp: actor_Stop_def beginStop_def Let_def split: ActorState.splits)
next
  case (send x p)
  show ?thesis unfolding send
    by (rule restart_frame [OF assms(3)]) (auto simp: SendPriority_def send_def split: option.splits sum.splits if_splits)
next
  case (send_latest x)
  show ?thesis unfolding send_latest
    by (rule restart_frame [OF assms(3)]) (auto simp: SendLatest_def Let_def split: option.splits list.splits)
next
  case (set_hooks h)
  show ?thesis unfolding set_hooks by (rule restart_frame [OF assms(3)]) (simp_all add: SetLifecycleHooks_def)
next
  case (set_self a)
  show ?thesis unfolding set_self by (rule restart_frame [OF assms(3)]) (simp_all add: SetSelf_def)
next
  case (thread r c)
  then show ?thesis using thread_restart [OF assms(2,3)] assms(4,5) by blast
next
  case (tick d)
  show ?thesis unfolding tick by (rule restart_frame [OF assms(3)]) (use tick in simp_all)
qed

text \<open>
  The supervisor keeps its limit: in every run of an actor, any interval of the length of the restart window
  contains at most as many restarts as the configuration allows, however the panics, the backoff and the callers interleave.
\<close>

theorem restarts_within_limit:
  assumes "actor_reach i sz cfg s" "- (2 ^ 63) < RestartWindow cfg" "RestartWindow cfg < 2 ^ 63"
  shows "length (filter (\<lambda>t. x < t \<and> t \<le> x + RestartWindow cfg) (restart_times r (restart_log s))) \<le> nat (MaxRestarts cfg)"
proof -
  have "restart_inv cfg s"
    using assms(1)
  proof (induction rule: actor_reach.induct)
    case init
    show ?case by (simp add: restart_inv_def actor_init_def newBaseActor_def restart_times_def window_ok_def)
  next
    case (step s s')
    then show ?case using step_restart gen_inv_reach assms(2,3) by blast
  qed
  then show ?thesis by (simp add: restart_inv_def window_ok_def)
qed

section \<open>Stopping comes to an end\<close>

fun pc_rank :: "'m run_pc \<Rightarrow> nat \<Rightarrow> nat" where
  "pc_rank (C_Process sc x md) d = (if md = InPanicDrain then 20 * d + 35 else 40 * d + 90)"
| "pc_rank (C_Poll sc ls) d = 40 * d + 74 + length ls"
| "pc_rank (C_Block sc) d = 40 * d + 73"
| "pc_rank (C_Top sc) d = 40 * d + 72"
| "pc_rank (C_Drain sc ls ap) d = (if ap then 20 * d + 20 + length ls else 40 * d + 60 + length ls)"
| "pc_rank C_Panic d = 40 * d + 55"
| "pc_rank C_Backoff d = 40 * d + 54"
| "pc_rank C_OnRestart d = 40 * d + 53"
| "pc_rank C_Relaunch d = 40 * d + 52"
| "pc_rank C_RestartFail d = 40 * d + 51"
| "pc_rank C_Abandon d = 10"
| "pc_rank S_FailHook d = 6"
| "pc_rank S_FailDone d = 5"
| "pc_rank C_FinishHook d = 5"
| "pc_rank C_FinishLock d = 4"
| "pc_rank _ d = 0"

text \<open>A bound of the number of operations that the goroutine of the current run has still to make.\<close>

definition stop_rank :: "'m asys \<Rightarrow> nat" where
  "stop_rank s = (case current (act s) of None \<Rightarrow> 0 | Some r \<Rightarrow> pc_rank (pcs s ! r) (depth (act s)))"

lemma depth_cong: "(\<And>l. lane_queue l a = lane_queue l b) \<Longrightarrow> depth a = depth b"
  by (metis depth_def lane_queue.simps)

lemma fair_order_length: "length (fair_order sc) \<le> 9"
  by (simp add: fair_order_def)

lemma rank_hook:
  assumes "hook_effect r k s s1" "current (act s) = Some r" "r < length (pcs s)"
  shows "act_state (act (set_pc r p s1)) = act_state (act s)" "stop_rank (set_pc r p s1) = pc_rank p (depth (act s))"
proof -
  have "depth (act s1) = depth (act s)" using assms(1) by (intro depth_cong) (simp add: hook_effect_def)
  then show "act_state (act (set_pc r p s1)) = act_state (act s)" "stop_rank (set_pc r p s1) = pc_rank p (depth (act s))"
    using assms by (simp_all add: hook_effect_def stop_rank_def)
qed

lemma rank_receive:
  assumes q: "lane_queue l (act s) \<noteq> []" and cur: "current (act s) = Some r" "r < length (pcs s)"
  shows "act_state (act (take_message l r sc md s)) = act_state (act s)" "depth (act s) > 0"
    "stop_rank (take_message l r sc md s) = (if md = InPanicDrain then 20 * (depth (act s) - 1) + 35 else 40 * (depth (act s) - 1) + 90)"
proof -
  obtain s1 where s1: "moved s s1 1 0" "take_message l r sc md s = set_pc r (C_Process (record_lane l sc) (hd (lane_queue l (act s))) md) s1"
    using moved_receive [OF q] by blast
  note F = moved_frame [OF s1(1)]
  have d: "depth (act s) = depth (act s1) + 1" using s1(1) by (simp add: moved_def)
  then show "depth (act s) > 0" by simp
  show "act_state (act (take_message l r sc md s)) = act_state (act s)" using strip_fields(1) [OF F(8)] by (simp add: s1(2))
  show "stop_rank (take_message l r sc md s) = (if md = InPanicDrain then 20 * (depth (act s) - 1) + 35 else 40 * (depth (act s) - 1) + 90)"
    using cur F strip_fields(2) [OF F(8)] d by (simp add: s1(2) stop_rank_def)
qed

lemma rank_set_pc: "current (act s) = Some r \<Longrightarrow> r < length (pcs s) \<Longrightarrow> stop_rank (set_pc r p s) = pc_rank p (depth (act s))"
  by (simp add: stop_rank_def)

lemma rank_thread:
  assumes gen: "gen_inv s" and r: "r < length (pcs s)" and st: "thread_step c r s = Some s'" and stop: "act_state (act s) = ActorStateStopping"
  shows "act_state (act s') = ActorStateStopping \<and> stop_rank s' < stop_rank s \<or> act_state (act s') = ActorStateStopped"
proof -
  note cur = thread_current [OF gen r st]
  note ok = gen_invD(5) [OF gen cur] and fin = gen_invD(2) [OF gen gen_invD(4) [OF gen cur]]
  have rank: "stop_rank s = pc_rank (pcs s ! r) (depth (act s))" using cur by (simp add: stop_rank_def)
  note R = rank_set_pc [OF cur r] and H = rank_hook [OF _ cur r] and L = fair_order_length
  show ?thesis
  proof (cases "pcs s ! r")
    case S_FailHook
    then show ?thesis using st stop rank H [OF hook_effects(3)] by (auto simp: thread_step_def)
  next
    case (C_Top sc)
    then show ?thesis using st stop rank R ok L [of sc] by (auto simp: thread_step_def start_drain_def live_ok_def)
  next
    case (C_Poll sc ls)
    show ?thesis
    proof (cases "\<exists>l ls'. ls = l # ls' \<and> lane_queue l (act s) \<noteq> []")
      case True
      then obtain l ls' where l: "ls = l # ls'" "lane_queue l (act s) \<noteq> []" by blast
      then have "s' = take_message l r sc InLoop s" using st C_Poll by (simp add: thread_step_def)
      then show ?thesis using rank_receive(1,3) [OF l(2) cur r, of sc InLoop] rank_receive(2) [OF l(2) cur r] stop rank C_Poll by simp
    next
      case False
      then have "s' = set_pc r (if ls = [] then C_Block sc else C_Poll sc (tl ls)) s"
        using st C_Poll by (auto simp: thread_step_def split: list.splits)
      then show ?thesis using R stop rank C_Poll by (cases ls) simp_all
    qed
  next
    case (C_Block sc)
    show ?thesis
    proof (cases "branch c")
      case (TakeLane l)
      then have l: "lane_queue l (act s) \<noteq> []" "s' = take_message l r sc InLoop s" using st C_Block by (auto simp: thread_step_def split: if_splits)
      then show ?thesis using rank_receive(1,3) [OF l(1) cur r, of sc InLoop] rank_receive(2) [OF l(1) cur r] stop rank C_Block by simp
    qed (use st C_Block stop rank R L [of sc] in \<open>auto simp: thread_step_def start_drain_def split: if_splits\<close>)
  next
    case (C_Process sc x md)
    have "stop_rank (set_pc r p (s\<lparr>act := (act s)\<lparr>panics := n\<rparr>, crashes := k\<rparr>)) = pc_rank p (depth (act s))" for p n k
      using cur r by (simp add: stop_rank_def depth_def)
    then show ?thesis using st stop rank C_Process R L [of sc] ok
      by (cases md) (auto simp: thread_step_def handler_returns_def start_drain_def)
  next
    case (C_Drain sc ls ap)
    show ?thesis
    proof (cases "\<exists>l ls'. ls = l # ls' \<and> lane_queue l (act s) \<noteq> []")
      case True
      then obtain l ls' where l: "ls = l # ls'" "lane_queue l (act s) \<noteq> []" by blast
      then have "s' = take_message l r sc (if ap then InPanicDrain else InDrain) s" using st C_Drain by (simp add: thread_step_def)
      then show ?thesis using rank_receive(1,3) [OF l(2) cur r, of sc "if ap then InPanicDrain else InDrain"] rank_receive(2) [OF l(2) cur r] stop rank C_Drain
        by (cases ap) simp_all
    next
      case False
      then have "s' = set_pc r (if ls = [] then C_FinishHook else C_Drain sc (tl ls) ap) s"
        using st C_Drain by (auto simp: thread_step_def split: list.splits)
      then show ?thesis using R stop rank C_Drain by (cases ls) simp_all
    qed
  next
    case C_Panic
    then show ?thesis using st stop rank R cur L [of new_scheduler] by (auto simp: thread_step_def handlePanic_def start_drain_def)
  next
    case C_Backoff
    then show ?thesis using st stop rank R L [of new_scheduler]
      by (auto simp: thread_step_def start_drain_def split: if_splits branch.splits)
  next
    case C_OnRestart
    then show ?thesis using st stop rank H [OF hook_effects(2)] by (auto simp: thread_step_def split_beta)
  next
    case C_Relaunch
    then show ?thesis using st stop rank R cur L [of new_scheduler] by (auto simp: thread_step_def relaunch_def start_drain_def)
  next
    case C_RestartFail
    then show ?thesis using st stop rank R by (auto simp: thread_step_def transitionRestartFailure_def)
  next
    case C_Abandon
    obtain s1 n where s1: "moved s s1 0 n" "abandonMailboxes s = s1\<lparr>act := (act s1)\<lparr>abandoned := abandoned (act s1) + of_nat n\<rparr>\<rparr>"
      using abandonMailboxes_moved [of s] by blast
    note F = moved_frame [OF s1(1)]
    show ?thesis using st C_Abandon stop rank cur r F strip_fields(1,2) [OF F(8)] by (auto simp: thread_step_def s1(2) stop_rank_def)
  next
    case C_FinishHook
    let ?s0 = "upd_run r (\<lambda>x. x\<lparr>finishOnce := True\<rparr>) s"
    have "s' = set_pc r C_FinishLock (callOnStop (outcome c) r ?s0)"
      using st C_FinishHook fin by (auto simp: thread_step_def finishStop_def run_facts_def)
    then show ?thesis using rank_hook [OF hook_effects(3) [of r ?s0 "outcome c"]] cur r stop rank C_FinishHook by simp
  qed (use st ok stop cur in \<open>auto simp: thread_step_def close_done_def\<close>)
qed

lemma stop_step_enabled:
  assumes gen: "gen_inv s" and stop: "act_state (act s) = ActorStateStopping"
  shows "\<exists>r c s'. r < length (pcs s) \<and> thread_step c r s = Some s'"
proof -
  obtain r where cur: "current (act s) = Some r" using gen_invD(6) [OF gen] stop by (cases "current (act s)") auto
  have r: "r < length (pcs s)" using gen_invD(1,4) [OF gen] cur by simp
  let ?c = "\<lparr>outcome = HookOk, branch = TakeStop\<rparr>"
  have "thread_step ?c r s \<noteq> None"
    using gen_invD(5) [OF gen cur] stop
    by (cases "pcs s ! r") (auto simp: thread_step_def live_ok_def split_beta split: list.split if_splits)
  with r show ?thesis by blast
qed

lemma rank_frame:
  "pcs s' = pcs s \<Longrightarrow> current (act s') = current (act s) \<Longrightarrow> (\<And>l. lane_queue l (act s') = lane_queue l (act s)) \<Longrightarrow> stop_rank s' = stop_rank s"
  using depth_cong [of "act s'" "act s"] by (simp add: stop_rank_def split: option.split)

text \<open>
  Property C26. A stop request is carried out: while the actor is stopping, its goroutine always has a next operation
  (it never waits for a message or for the backoff), each of its operations brings the end nearer, and no
  operation of a caller puts it further away or changes the state; so that, handlers and hooks returning, the actor is
  stopped after at most \<open>stop_rank\<close> operations of its goroutine.
\<close>

theorem actor_stop_completes:
  assumes "actor_reach i sz cfg s" "act_state (act s) = ActorStateStopping"
  shows "(\<exists>r c s'. r < length (pcs s) \<and> thread_step c r s = Some s') \<and>
    (\<forall>r c s'. r < length (pcs s) \<and> thread_step c r s = Some s' \<longrightarrow>
       act_state (act s') = ActorStateStopping \<and> stop_rank s' < stop_rank s \<or> act_state (act s') = ActorStateStopped) \<and>
    (\<forall>s'. actor_step s s' \<longrightarrow>
       act_state (act s') = ActorStateStopping \<and> stop_rank s' \<le> stop_rank s \<or> act_state (act s') = ActorStateStopped)"
proof (intro conjI allI impI)
  note gen = gen_inv_reach [OF assms(1)]
  show "\<exists>r c s'. r < length (pcs s) \<and> thread_step c r s = Some s'" by (rule stop_step_enabled [OF gen assms(2)])
  show "act_state (act s') = ActorStateStopping \<and> stop_rank s' < stop_rank s \<or> act_state (act s') = ActorStateStopped"
    if "r < length (pcs s) \<and> thread_step c r s = Some s'" for r c s'
    using rank_thread [OF gen _ _ assms(2)] that by blast
  show "act_state (act s') = ActorStateStopping \<and> stop_rank s' \<le> stop_rank s \<or> act_state (act s') = ActorStateStopped"
    if "actor_step s s'" for s'
    using that
  proof cases
    case (thread r c)
    then show ?thesis using rank_thread [OF gen _ _ assms(2)] by fastforce
  next
    case (send x p)
    then have "stop_rank s' = stop_rank s" using assms(2)
      by (intro rank_frame) (auto simp: SendPriority_def send_def split: option.splits sum.splits)
    with send assms(2) show ?thesis by (auto simp: SendPriority_def send_def split: option.splits sum.splits)
  next
    case (send_latest x)
    then have "stop_rank s' = stop_rank s" using assms(2)
      by (intro rank_frame) (auto simp: SendLatest_def split: option.splits)
    with send_latest assms(2) show ?thesis by (auto simp: SendLatest_def split: option.splits)
  next
    case (set_hooks h)
    then have "stop_rank s' = stop_rank s" by (intro rank_frame) (auto simp: SetLifecycleHooks_def)
    with set_hooks assms(2) show ?thesis by (simp add: SetLifecycleHooks_def)
  next
    case (set_self a)
    then have "stop_rank s' = stop_rank s" by (intro rank_frame) (auto simp: SetSelf_def)
    with set_self assms(2) show ?thesis by (simp add: SetSelf_def)
  next
    case (tick d)
    then have "stop_rank s' = stop_rank s" by (intro rank_frame) auto
    with tick assms(2) show ?thesis by simp
  qed (use assms(2) in \<open>auto simp: Start_begin_def actor_Stop_def beginStop_def\<close>)
qed

section \<open>A concrete execution\<close>

text \<open>
  A script of calls and operations, replayed: a message is handled, the handler panics on the next one, the
  actor is restarted, and then stopped with a message in its lane.
\<close>

datatype 'm call = CallStart | CallStop | CallSend 'm int | CallLatest 'm | CallHooks nat | RunThread nat choice | Wait nat

fun replay :: "'m call \<Rightarrow> 'm asys \<Rightarrow> 'm asys" where
  "replay CallStart s = snd (Start_begin s)"
| "replay CallStop s = snd (actor_Stop s)"
| "replay (CallSend x p) s = snd (SendPriority (Some x) p s)"
| "replay (CallLatest x) s = snd (SendLatest (Some x) s)"
| "replay (CallHooks h) s = SetLifecycleHooks (Some h) s"
| "replay (RunThread r c) s = (if r < length (pcs s) then case thread_step c r s of None \<Rightarrow> s | Some s' \<Rightarrow> s' else s)"
| "replay (Wait d) s = s\<lparr>clk := clk s + int d\<rparr>"

lemma replay_reach: "actor_reach i sz cfg s \<Longrightarrow> actor_reach i sz cfg (replay c s)"
proof (cases c)
  case (RunThread r ch)
  assume a: "actor_reach i sz cfg s"
  then show ?thesis using RunThread actor_step.thread [of r s ch] by (auto split: option.split intro: actor_reach.step)
next
  case (Wait d)
  assume "actor_reach i sz cfg s"
  then show ?thesis using Wait actor_reach.step actor_step.tick [of "int d" s] by fastforce
qed (auto intro: actor_reach.step actor_step.intros)

lemma replays_reach: "actor_reach i sz cfg s \<Longrightarrow> actor_reach i sz cfg (fold replay cs s)"
  by (induction cs arbitrary: s) (auto intro: replay_reach)

abbreviation go :: "'m call" where
  "go \<equiv> RunThread 0 \<lparr>outcome = HookOk, branch = TakeTimer\<rparr>"

definition sample_calls :: "nat call list" where
  "sample_calls =
     [CallHooks 7, CallStart, go, go, CallSend 1 PriorityHigh, CallSend 2 PriorityNormal, go, go, go, go, go, go,
      RunThread 0 \<lparr>outcome = HookPanic, branch = TakeTimer\<rparr>, Wait 5, go, Wait 5, go, go, go, CallLatest 3, CallLatest 4, CallStop]"

definition sample_state :: "nat asys" where
  "sample_state = fold replay sample_calls (actor_init 1 4 DefaultSupervisorConfig)"

lemma sample_reach: "actor_reach 1 4 DefaultSupervisorConfig sample_state"
  unfolding sample_state_def by (rule replays_reach [OF actor_reach.init])

lemma sample_facts:
  "act_state (act sample_state) = ActorStateStopping" "restart_log sample_state = [(0, 10)]"
  "removed sample_state = [(actorLaneHigh, 1, Handled), (actorLaneNormal, 2, Handled), (actorLaneLatest, 3, Replaced)]"
  "length (runs sample_state) = 1"
  by code_simp+

theorem actor_accounts_for_messages_witness:
  "(\<forall>l. lane_admitted l (admitted sample_state) = lane_removed l (removed sample_state) @ lane_queue l (act sample_state)) \<and>
   removed sample_state = [(actorLaneHigh, 1, Handled), (actorLaneNormal, 2, Handled), (actorLaneLatest, 3, Replaced)]"
  using actor_accounts_for_messages [OF sample_reach] sample_facts by blast

theorem actor_generations_disjoint_witness:
  "length (runs sample_state) = 1 \<and> stop_hooks 0 (hook_log sample_state) \<le> 1 \<and>
   (doneCh (runs sample_state ! 0) \<longleftrightarrow> pcs sample_state ! 0 = C_Exit)"
  using actor_generations_disjoint [OF sample_reach, of 0] sample_facts by simp

theorem restarts_within_limit_witness:
  "length (filter (\<lambda>t. 0 < t \<and> t \<le> 0 + RestartWindow DefaultSupervisorConfig) (restart_times 0 (restart_log sample_state)))
     \<le> nat (MaxRestarts DefaultSupervisorConfig) \<and> restart_log sample_state = [(0, 10)]"
  using restarts_within_limit [OF sample_reach, of 0 0] sample_facts by (simp add: DefaultSupervisorConfig_def)

theorem actor_stop_completes_witness:
  "act_state (act sample_state) = ActorStateStopping \<and>
   (\<exists>r c s'. r < length (pcs sample_state) \<and> thread_step c r sample_state = Some s' \<and>
      (act_state (act s') = ActorStateStopping \<and> stop_rank s' < stop_rank sample_state \<or> act_state (act s') = ActorStateStopped))"
  using actor_stop_completes [OF sample_reach sample_facts(1)] sample_facts(1) by blast

end
