(* ===== verification/Actor_Fairness.thy ===== *)
theory Actor_Fairness
  imports Actor
begin

text \<open>
  Bounded waiting in the lanes of an actor (\<^verbatim>\<open>zActor/actor.go\<close>, \<^verbatim>\<open>run\<close>, \<^verbatim>\<open>drainAndFinish\<close>, \<^verbatim>\<open>tryReceiveFair\<close>), over the
  executions of \<open>Actor\<close>: the polls of the scheduler and the blocking \<^verbatim>\<open>select\<close> of \<^verbatim>\<open>run\<close>, interleaved with senders and other
  operations. The argument is the same for the low and the normal lane and is given once, in a locale.
\<close>

section \<open>Polls\<close>

text \<open>A poll that nothing disturbs is \<open>tryReceiveFair\<close>.\<close>

lemma poll_undisturbed:
  assumes "r < length (pcs s)" "pcs s ! r = C_Poll sc ls"
  shows "(\<lambda>t t'. \<exists>c. thread_step c r t = Some t')\<^sup>*\<^sup>* s
     (case tryReceive ls (act s) of None \<Rightarrow> set_pc r (C_Poll sc []) s | Some (x, l, a) \<Rightarrow> take_message l r sc InLoop s)"
  using assms
proof (induction ls arbitrary: s)
  case Nil
  then have "set_pc r (C_Poll sc []) s = s" by (metis list_update_id asys.surjective asys.update_convs(3) asys.select_convs(3))
  then show ?case by simp
next
  case (Cons l ls)
  show ?case
  proof (cases "lane_queue l (act s)")
    case Nil
    let ?t = "set_pc r (C_Poll sc ls) s"
    have step: "thread_step c r s = Some ?t" for c using Cons.prems Nil by (simp add: thread_step_def)
    have eq: "(case tryReceive ls (act ?t) of None \<Rightarrow> set_pc r (C_Poll sc []) ?t | Some (x, l, a) \<Rightarrow> take_message l r sc InLoop ?t) =
        (case tryReceive (l # ls) (act s) of None \<Rightarrow> set_pc r (C_Poll sc []) s | Some (x, l, a) \<Rightarrow> take_message l r sc InLoop s)"
      using Nil by (simp add: take_message_def Let_def split: option.split)
    have ih: "(\<lambda>t t'. \<exists>c. thread_step c r t = Some t')\<^sup>*\<^sup>* ?t
        (case tryReceive ls (act ?t) of None \<Rightarrow> set_pc r (C_Poll sc []) ?t | Some (x, l, a) \<Rightarrow> take_message l r sc InLoop ?t)"
      by (rule Cons.IH) (use Cons.prems in simp_all)
    show ?thesis unfolding eq [symmetric] by (rule converse_rtranclp_into_rtranclp [OF _ ih]) (use step in blast)
  next
    case c: (Cons x q)
    then have "thread_step c r s = Some (take_message l r sc InLoop s)" for c using Cons.prems by (simp add: thread_step_def)
    then show ?thesis using c by (auto intro: r_into_rtranclp)
  qed
qed

section \<open>Fragments of executions\<close>

text \<open>The lane that the next operation of run \<open>r\<close> receives from.\<close>

definition received :: "choice \<Rightarrow> nat \<Rightarrow> 'm asys \<Rightarrow> actorLane list" where
  "received c r s =
     (case pcs s ! r of
        C_Poll sc (l # ls) \<Rightarrow> if lane_queue l (act s) = [] then [] else [l]
      | C_Drain sc (l # ls) ap \<Rightarrow> if lane_queue l (act s) = [] then [] else [l]
      | C_Block sc \<Rightarrow> (case branch c of TakeLane l \<Rightarrow> [l] | _ \<Rightarrow> [])
      | _ \<Rightarrow> [])"

text \<open>
  An execution from \<open>s\<close> to \<open>s'\<close> in which the lane \<open>T\<close> is never empty before a step and no handler or hook panics (a
  panic ends the run of the scheduler; the next one starts with a new one); \<open>ls\<close> are the lanes that run \<open>r\<close> received from.
\<close>

inductive lane_run :: "actorLane \<Rightarrow> nat \<Rightarrow> 'm asys \<Rightarrow> actorLane list \<Rightarrow> 'm asys \<Rightarrow> bool" for T r s where
  here: "lane_run T r s [] s"
| others: "lane_run T r s ls s1 \<Longrightarrow> lane_queue T (act s1) \<noteq> [] \<Longrightarrow> actor_step s1 s2 \<Longrightarrow> pcs s2 ! r = pcs s1 ! r \<Longrightarrow> lane_run T r s ls s2"
| own: "lane_run T r s ls s1 \<Longrightarrow> lane_queue T (act s1) \<noteq> [] \<Longrightarrow> thread_step c r s1 = Some s2 \<Longrightarrow> outcome c \<noteq> HookPanic \<Longrightarrow>
    lane_run T r s (ls @ received c r s1) s2"

section \<open>Schedulers of a run\<close>

definition burst_ok :: "actorScheduler \<Rightarrow> bool" where
  "burst_ok sc \<longleftrightarrow> 0 \<le> highBurst sc \<and> 0 \<le> nonLowBurst sc"

fun sched_ok :: "'m run_pc \<Rightarrow> bool" where
  "sched_ok (C_Top sc) = burst_ok sc"
| "sched_ok (C_Poll sc ls) = burst_ok sc"
| "sched_ok (C_Block sc) = burst_ok sc"
| "sched_ok (C_Process sc x md) = burst_ok sc"
| "sched_ok (C_Drain sc ls ap) = burst_ok sc"
| "sched_ok p = True"

lemma burst_ok_simps [simp]: "burst_ok new_scheduler" "burst_ok sc \<Longrightarrow> burst_ok (record_lane l sc)"
  by (cases l; simp add: burst_ok_def new_scheduler_def)+

lemma abandon_pcs [simp]: "pcs (abandonMailboxes s) = pcs s"
  using abandonMailboxes_moved [of s] by (auto simp: moved_def)

lemma hook_pcs [simp]:
  "pcs (count_hook_failure oc s) = pcs s" "pcs (log_hook r k s) = pcs s" "pcs (callOnStop oc r s) = pcs s"
  by (simp_all add: count_hook_failure_def log_hook_def callOnStop_def Let_def split: option.split)

lemma hook_pcs2: "callOnStart oc r s = (ok, s') \<Longrightarrow> pcs s' = pcs s" "callOnRestart oc r s = (ok, s') \<Longrightarrow> pcs s' = pcs s"
  by (auto simp: callOnStart_def callOnRestart_def split: option.splits)

lemma thread_sched:
  assumes "thread_step c r s = Some s'" "r < length (pcs s)" "sched_ok (pcs s ! r)"
  shows "\<exists>p. pcs s' = (pcs s)[r := p] \<and> sched_ok p"
proof (cases "pcs s ! r")
  case (C_Poll sc ls)
  then show ?thesis using assms by (cases ls) (auto simp: thread_step_def take_message_def Let_def split: if_splits)
next
  case (C_Drain sc ls ap)
  then show ?thesis using assms by (cases ls) (auto simp: thread_step_def take_message_def Let_def split: if_splits)
next
  case (C_Process sc x md)
  then show ?thesis using assms by (cases md) (auto simp: thread_step_def handler_returns_def start_drain_def split: if_splits)
next
  case S_OnStart
  then show ?thesis using assms hook_pcs2(1) by (fastforce simp: thread_step_def split: prod.splits)
next
  case C_OnRestart
  then show ?thesis using assms hook_pcs2(2) by (fastforce simp: thread_step_def split: prod.splits)
next
  case C_Panic
  then show ?thesis using assms by (auto simp: thread_step_def handlePanic_def start_drain_def actor_give_up_def requestStop_def Let_def split: if_splits)
next
  case C_Relaunch
  then show ?thesis using assms by (auto simp: thread_step_def relaunch_def start_drain_def split: if_splits)
qed (use assms in \<open>auto simp: thread_step_def Start_publish_def failStart_lock_def close_done_def start_drain_def take_message_def
       transitionRestartFailure_def finishStop_def requestStop_def Let_def split: if_splits branch.splits\<close>)

lemma step_pcs:
  assumes "actor_step s s'" "\<forall>p\<in>set (pcs s). sched_ok p"
  shows "length (pcs s) \<le> length (pcs s') \<and> (\<forall>p\<in>set (pcs s'). sched_ok p)"
  using assms(1)
proof cases
  case (thread r c)
  then obtain p where "pcs s' = (pcs s)[r := p]" "sched_ok p" using thread_sched [of c r s s'] assms(2) by auto
  then show ?thesis using assms(2) set_update_subset_insert [of "pcs s" r p] by auto
qed (use assms(2) in \<open>auto simp: Start_begin_def actor_Stop_def beginStop_def requestStop_def SendPriority_def send_def SendLatest_def SetLifecycleHooks_def SetSelf_def Let_def
       split: ActorState.splits option.splits sum.splits list.splits\<close>)

lemma reach_sched: "actor_reach i sz cfg s \<Longrightarrow> p \<in> set (pcs s) \<Longrightarrow> sched_ok p"
proof -
  have "\<forall>p\<in>set (pcs s). sched_ok p" if "actor_reach i sz cfg s"
    using that by (induction rule: actor_reach.induct) (auto simp: actor_init_def dest: step_pcs)
  then show "actor_reach i sz cfg s \<Longrightarrow> p \<in> set (pcs s) \<Longrightarrow> sched_ok p" by blast
qed

section \<open>The lane that is not empty\<close>

text \<open>
  A lane \<open>T\<close> with a bound \<open>w\<close>: every poll tries \<open>T\<close>, and a message from a lane tried before \<open>T\<close> lowers the bound. \<open>Q\<close>
  holds of \<open>T\<close> and of the lanes tried before it.
\<close>

locale served_lane =
  fixes T :: actorLane and w :: "actorScheduler \<Rightarrow> int" and W :: int and Q :: "actorLane \<Rightarrow> bool"
  assumes tried: "burst_ok sc \<Longrightarrow> T \<in> set (fair_order sc)"
    and lowers: "burst_ok sc \<Longrightarrow> l \<in> set (takeWhile (\<lambda>l. l \<noteq> T) (fair_order sc)) \<Longrightarrow> w (record_lane l sc) < w sc \<and> Q l"
    and bounded: "burst_ok sc \<Longrightarrow> 0 \<le> w sc \<and> w sc \<le> W"
    and target: "Q T"
begin

definition ahead :: "actorScheduler \<Rightarrow> actorLane list \<Rightarrow> bool" where
  "ahead sc ls \<longleftrightarrow> T \<in> set ls \<and> (\<forall>l\<in>set (takeWhile (\<lambda>l. l \<noteq> T) ls). w (record_lane l sc) < w sc \<and> Q l)"

lemma ahead_order: "burst_ok sc \<Longrightarrow> ahead sc (fair_order sc)"
  using tried lowers by (auto simp: ahead_def)

lemma ahead_next: "ahead sc (l # ls) \<Longrightarrow> l \<noteq> T \<Longrightarrow> ahead sc ls \<and> w (record_lane l sc) < w sc \<and> Q l"
  by (auto simp: ahead_def)

lemma ahead_not_empty [simp]: "\<not> ahead sc []"
  by (simp add: ahead_def)

text \<open>After the first receive the run is in its loop, and \<open>n\<close> messages have been received since the last one of \<open>T\<close> or the start.\<close>

fun settled :: "int \<Rightarrow> 'm run_pc \<Rightarrow> bool" where
  "settled n (C_Top sc) = (burst_ok sc \<and> n + w sc \<le> 1 + W)"
| "settled n (C_Poll sc ls) = (burst_ok sc \<and> n + w sc \<le> 1 + W \<and> ahead sc ls)"
| "settled n (C_Process sc x md) = (burst_ok sc \<and> n + w sc \<le> 1 + W)"
| "settled n (C_Drain sc ls ap) = (burst_ok sc \<and> n + w sc \<le> 1 + W \<and> ahead sc ls)"
| "settled n p = False"

definition lane_inv :: "nat \<Rightarrow> actorLane list \<Rightarrow> 'm asys \<Rightarrow> bool" where
  "lane_inv r ls s \<longleftrightarrow> sched_ok (pcs s ! r) \<and> (\<forall>l\<in>set (tl ls). Q l) \<and>
     (ls \<noteq> [] \<longrightarrow> (\<exists>n. settled n (pcs s ! r) \<and> (T \<notin> set ls \<longrightarrow> int (length ls) \<le> n)))"

lemma take_pcs: "r < length (pcs s) \<Longrightarrow> pcs (take_message l r sc md s) ! r = C_Process (record_lane l sc) (hd (lane_queue l (act s))) md"
  by (simp add: take_message_def Let_def)

lemma lane_inv_take:
  assumes ok: "lane_inv r ls s" "burst_ok sc" "r < length (pcs s)"
    and l: "ls \<noteq> [] \<Longrightarrow> (\<exists>n. n + w sc \<le> 1 + W \<and> (T \<notin> set ls \<longrightarrow> int (length ls) \<le> n)) \<and> (l = T \<or> w (record_lane l sc) < w sc \<and> Q l)"
  shows "lane_inv r (ls @ [l]) (take_message l r sc md s)"
proof (cases "ls = []")
  case True
  have "settled 1 (pcs (take_message l r sc md s) ! r)" using ok bounded [of "record_lane l sc"] by (simp add: take_pcs)
  then show ?thesis using True ok(2) by (auto simp: lane_inv_def take_pcs [OF ok(3)] intro!: exI [of _ 1])
next
  case False
  have q: "\<forall>m\<in>set (tl (ls @ [l])). Q m" using l [OF False] ok(1) False target by (auto simp: lane_inv_def)
  have b: "burst_ok (record_lane l sc)" using ok(2) by simp
  show ?thesis
  proof (cases "T \<in> set (ls @ [l])")
    case True
    have "settled 1 (pcs (take_message l r sc md s) ! r)" using b bounded [OF b] by (simp add: take_pcs [OF ok(3)])
    then show ?thesis using True q b unfolding lane_inv_def by (auto simp: take_pcs [OF ok(3)] simp del: settled.simps)
  next
    case f: False
    obtain n where n: "n + w sc \<le> 1 + W" "int (length ls) \<le> n" "w (record_lane l sc) < w sc" using l [OF False] f by auto
    then have "settled (n + 1) (pcs (take_message l r sc md s) ! r)" using b by (simp add: take_pcs [OF ok(3)])
    then show ?thesis using q b n(2) unfolding lane_inv_def by (auto simp: take_pcs [OF ok(3)] simp del: settled.simps intro!: exI [of _ "n + 1"])
  qed
qed

lemma inv_move:
  assumes "lane_inv r ls s" "pcs s' ! r = p" "sched_ok p" "\<And>n. settled n (pcs s ! r) \<Longrightarrow> settled n p"
  shows "lane_inv r ls s'"
  using assms unfolding lane_inv_def by blast

lemma inv_try:
  assumes inv: "lane_inv r ls s" and r: "r < length (pcs s)" and T: "lane_queue T (act s) \<noteq> []"
    and pc: "pcs s ! r = mk (l # q)" "mk = C_Poll sc \<or> mk = (\<lambda>q. C_Drain sc q ap)"
  shows "lane_inv r (ls @ (if lane_queue l (act s) = [] then [] else [l])) (if lane_queue l (act s) = [] then set_pc r (mk q) s else take_message l r sc md s)"
proof (cases "lane_queue l (act s) = []")
  case True
  then have "l \<noteq> T" using T by auto
  then have "settled n (mk q)" if "settled n (pcs s ! r)" for n using that pc ahead_next by auto
  moreover have "sched_ok (mk q)" using inv pc by (auto simp: lane_inv_def)
  moreover have "pcs (set_pc r (mk q) s) ! r = mk q" using r by simp
  ultimately have "lane_inv r ls (set_pc r (mk q) s)" using inv_move [OF inv] by blast
  then show ?thesis using True by simp
next
  case False
  have b: "burst_ok sc" using inv pc by (auto simp: lane_inv_def)
  have "(\<exists>n. n + w sc \<le> 1 + W \<and> (T \<notin> set ls \<longrightarrow> int (length ls) \<le> n)) \<and> (l = T \<or> w (record_lane l sc) < w sc \<and> Q l)" if ne: "ls \<noteq> []"
  proof -
    obtain n where "settled n (pcs s ! r)" "T \<notin> set ls \<longrightarrow> int (length ls) \<le> n" using inv ne unfolding lane_inv_def by blast
    then show ?thesis using pc ahead_next [of sc l q] by auto
  qed
  from lane_inv_take [OF inv b r this] show ?thesis using False by simp
qed

lemma inv_own:
  assumes inv: "lane_inv r ls s" and r: "r < length (pcs s)" and T: "lane_queue T (act s) \<noteq> []"
    and step: "thread_step c r s = Some s'" "outcome c \<noteq> HookPanic"
  shows "lane_inv r (ls @ received c r s) s'"
proof -
  obtain p where p: "pcs s' = (pcs s)[r := p]" "sched_ok p" using thread_sched [OF step(1) r] inv by (auto simp: lane_inv_def)
  have pr: "pcs s' ! r = p" using p r by simp
  have still: "lane_inv r (ls @ received c r s) s'" if "received c r s = []" "\<And>n. settled n (pcs s ! r) \<Longrightarrow> settled n p"
    using inv_move [OF inv pr p(2) that(2)] that(1) by simp
  have out: "lane_inv r (ls @ received c r s) s'" if "\<And>n. \<not> settled n (pcs s ! r)" "received c r s = []"
    using still that by blast
  have sc: "burst_ok sc" if "pcs s ! r = C_Top sc \<or> pcs s ! r = C_Block sc \<or> (\<exists>x md. pcs s ! r = C_Process sc x md)" for sc
    using inv that by (auto simp: lane_inv_def)
  show ?thesis
  proof (cases "pcs s ! r")
    case (C_Top sc)
    have "p = C_Drain sc (fair_order sc) False \<or> p = C_Poll sc (fair_order sc)"
      using step(1) C_Top r pr by (auto simp: thread_step_def start_drain_def split: if_splits)
    then show ?thesis using C_Top ahead_order [OF sc] by (intro still) (auto simp: received_def)
  next
    case (C_Process sc x md)
    have "p = C_Top sc \<or> p = C_Drain sc (fair_order sc) False \<or> p = C_Drain sc (fair_order sc) True"
      using step C_Process pr r by (cases md) (auto simp: thread_step_def handler_returns_def start_drain_def)
    then show ?thesis using C_Process ahead_order [OF sc] by (intro still) (auto simp: received_def)
  next
    case (C_Poll sc q)
    show ?thesis
    proof (cases q)
      case Nil
      then show ?thesis using C_Poll by (intro out) (auto simp: received_def)
    next
      case (Cons l q')
      then show ?thesis using inv_try [OF inv r T, of "C_Poll sc" l q' sc _ InLoop] C_Poll step by (simp add: thread_step_def received_def)
    qed
  next
    case (C_Drain sc q ap)
    show ?thesis
    proof (cases q)
      case Nil
      then show ?thesis using C_Drain by (intro out) (auto simp: received_def)
    next
      case (Cons l q')
      then show ?thesis using inv_try [OF inv r T, of "\<lambda>q. C_Drain sc q ap" l q' sc ap "if ap then InPanicDrain else InDrain"] C_Drain step
        by (simp add: thread_step_def received_def)
    qed
  next
    case (C_Block sc)
    have e: "ls = []" using inv C_Block by (auto simp: lane_inv_def)
    show ?thesis
    proof (cases "branch c")
      case (TakeLane l)
      then have "s' = take_message l r sc InLoop s" using step C_Block by (auto simp: thread_step_def split: if_splits)
      then show ?thesis using lane_inv_take [OF inv sc r] e C_Block TakeLane by (simp add: received_def)
    qed (use C_Block in \<open>(intro out; simp add: received_def)+\<close>)
  qed (intro out; simp add: received_def)+
qed

lemma lane_run_inv:
  assumes "lane_run T r s ls s'" "r < length (pcs s)" "\<forall>p\<in>set (pcs s). sched_ok p"
  shows "lane_inv r ls s' \<and> r < length (pcs s') \<and> (\<forall>p\<in>set (pcs s'). sched_ok p)"
  using assms(1)
proof (induction rule: lane_run.induct)
  case here
  then show ?case using assms by (simp add: lane_inv_def)
next
  case (others ls s1 s2)
  then show ?case using step_pcs [OF others.hyps(3)] others.hyps(4) by (auto simp: lane_inv_def)
next
  case (own ls s1 c s2)
  have "actor_step s1 s2" using own by (intro actor_step.thread) auto
  then show ?case using step_pcs [of s1 s2] inv_own [of r ls s1 c s2] own by auto
qed

lemma served_within:
  assumes "lane_run T r s ls s'" "r < length (pcs s)" "\<forall>p\<in>set (pcs s). sched_ok p" "1 + W < int (length ls)"
  shows "T \<in> set ls"
proof (rule ccontr)
  assume n: "T \<notin> set ls"
  have "ls \<noteq> []" using assms(4) bounded [of new_scheduler] by auto
  then obtain m where m: "settled m (pcs s' ! r)" "int (length ls) \<le> m" using lane_run_inv [OF assms(1-3)] n by (auto simp: lane_inv_def)
  obtain sc where "burst_ok sc" "m + w sc \<le> 1 + W" using m(1) by (cases "pcs s' ! r") auto
  then show False using bounded [of sc] m(2) assms(4) by linarith
qed

lemma later_receives:
  assumes "lane_run T r s ls s'" "r < length (pcs s)" "\<forall>p\<in>set (pcs s). sched_ok p"
  shows "\<forall>l\<in>set (tl ls). Q l"
  using lane_run_inv [OF assms] by (simp add: lane_inv_def)

end

section \<open>The low and the normal lane\<close>

definition low_wait :: "actorScheduler \<Rightarrow> int" where
  "low_wait sc = max 0 (maxNonLowBurst - nonLowBurst sc)"

interpretation low: served_lane actorLaneLow low_wait maxNonLowBurst "\<lambda>l. l \<noteq> actorLaneLatest"
  by unfold_locales (auto simp: fair_order_def low_wait_def burst_ok_def maxNonLowBurst_def split: if_splits)

definition normal_wait :: "actorScheduler \<Rightarrow> int" where
  "normal_wait sc =
     (if nonLowBurst sc \<ge> 16 then max 0 (8 - highBurst sc) + 9
      else if highBurst sc \<ge> 8 then 0
      else if 8 - highBurst sc < 16 - nonLowBurst sc then 8 - highBurst sc
      else 8 - highBurst sc + 9)"

interpretation normal: served_lane actorLaneNormal normal_wait 17 "\<lambda>l. True"
  by unfold_locales (auto simp: fair_order_def normal_wait_def burst_ok_def maxNonLowBurst_def maxHighPriorityBurst_def split: if_splits)

text \<open>
  Property C27. Bounded waiting in the lanes of an actor, from any reachable state, whatever other goroutines do to the
  lanes meanwhile and whatever branches the blocking \<^verbatim>\<open>select\<close> takes, as long as nothing panics: of any 18 consecutive
  receives one is from the low lane if that lane is not empty meanwhile, and of any 19 one is from the normal lane if that
  one is not empty. The lane of the latest message has no such bound: while the low lane is not empty at most the first
  receive, which may come from a \<^verbatim>\<open>select\<close> entered before, is from the latest lane, and no later one is.
\<close>

theorem scheduler_fair:
  assumes "actor_reach i sz cfg s" "r < length (pcs s)"
  shows "(lane_run actorLaneLow r s ls s' \<and> 18 \<le> length ls \<longrightarrow> actorLaneLow \<in> set ls) \<and>
    (lane_run actorLaneNormal r s ls s' \<and> 19 \<le> length ls \<longrightarrow> actorLaneNormal \<in> set ls) \<and>
    (lane_run actorLaneLow r s ls s' \<longrightarrow> actorLaneLatest \<notin> set (tl ls))"
proof (intro conjI impI; (elim conjE)?)
  have ok: "\<forall>p\<in>set (pcs s). sched_ok p" using reach_sched [OF assms(1)] by blast
  show "actorLaneLow \<in> set ls" if "lane_run actorLaneLow r s ls s'" "18 \<le> length ls"
    by (rule low.served_within [OF that(1) assms(2) ok]) (use that(2) in \<open>simp add: maxNonLowBurst_def\<close>)
  show "actorLaneNormal \<in> set ls" if "lane_run actorLaneNormal r s ls s'" "19 \<le> length ls"
    by (rule normal.served_within [OF that(1) assms(2) ok]) (use that(2) in simp)
  show "actorLaneLatest \<notin> set (tl ls)" if "lane_run actorLaneLow r s ls s'"
    using low.later_receives [OF that assms(2) ok] by blast
qed

text \<open>A run with messages in every lane.\<close>

fun drive :: "actorLane \<Rightarrow> nat \<Rightarrow> choice list \<Rightarrow> 'm asys \<Rightarrow> (actorLane list \<times> 'm asys) option" where
  "drive T r [] s = Some ([], s)"
| "drive T r (c # cs) s =
     (case drive T r cs s of
        None \<Rightarrow> None
      | Some (ls, s1) \<Rightarrow>
          if lane_queue T (act s1) = [] \<or> outcome c = HookPanic then None
          else map_option (\<lambda>s2. (ls @ received c r s1, s2)) (thread_step c r s1))"

lemma drive_run: "drive T r cs s = Some (ls, s') \<Longrightarrow> lane_run T r s ls s'"
  by (induction cs arbitrary: ls s') (auto split: option.splits if_splits intro: lane_run.intros)

definition full_lanes :: "nat asys" where
  "full_lanes =
     fold replay
       ([CallStart, go, go] @ replicate 20 (CallSend 1 PriorityHigh) @ replicate 4 (CallSend 2 PriorityNormal) @ replicate 4 (CallSend 3 PriorityLow) @ [CallLatest 4])
       (actor_init 1 64 DefaultSupervisorConfig)"

definition polls :: "choice list" where
  "polls = replicate 60 \<lparr>outcome = HookOk, branch = TakeTimer\<rparr>"

theorem scheduler_fair_witness:
  "(\<exists>ls s'. drive actorLaneLow 0 polls full_lanes = Some (ls, s') \<and> 18 \<le> length ls \<and> actorLaneLow \<in> set ls \<and> actorLaneLatest \<notin> set (tl ls)) \<and>
   (\<exists>ls s'. drive actorLaneNormal 0 polls full_lanes = Some (ls, s') \<and> 19 \<le> length ls \<and> actorLaneNormal \<in> set ls)"
proof -
  have reach: "actor_reach 1 64 DefaultSupervisorConfig full_lanes" unfolding full_lanes_def by (rule replays_reach [OF actor_reach.init])
  have r: "0 < length (pcs full_lanes)" by code_simp
  have "case drive actorLaneLow 0 polls full_lanes of None \<Rightarrow> False | Some (ls, s') \<Rightarrow> 18 \<le> length ls" by code_simp
  then obtain ls s' where l: "drive actorLaneLow 0 polls full_lanes = Some (ls, s')" "18 \<le> length ls" by (auto split: option.splits)
  have "case drive actorLaneNormal 0 polls full_lanes of None \<Rightarrow> False | Some (ls, s') \<Rightarrow> 19 \<le> length ls" by code_simp
  then obtain ns t where n: "drive actorLaneNormal 0 polls full_lanes = Some (ns, t)" "19 \<le> length ns" by (auto split: option.splits)
  have "actorLaneLow \<in> set ls" "actorLaneLatest \<notin> set (tl ls)" using scheduler_fair [OF reach r, of ls s'] drive_run [OF l(1)] l(2) by blast+
  moreover have "actorLaneNormal \<in> set ns" using scheduler_fair [OF reach r, of ns t] drive_run [OF n(1)] n(2) by blast
  ultimately show ?thesis using l n by blast
qed

end
