(* ===== verification/Runner.thy ===== *)
theory Runner
  imports Prelude
begin

text \<open>
  \<^verbatim>\<open>zActor/runner.go\<close>: a runner executes commands one after the other on a goroutine of its own.
  Commands come through a bounded channel; a caller that finds it full sleeps until the goroutine
  signals space on a second channel of capacity one.

  A call is a position in \<open>calls\<close>; its command is known by that position. Every locked section, every
  \<^verbatim>\<open>select\<close> and every channel operation is one step, and \<open>runner_step\<close> interleaves the goroutine, all callers,
  the cancellation of contexts and the stop. \<open>admitted_ids\<close>, \<open>taken\<close> and \<open>executed\<close> record what happened;
  no operation reads them.
\<close>

section \<open>Types\<close>

datatype runner_error =
    ErrRunnerNotStarted | ErrRunnerStopping | ErrRunnerStopped | ErrRunnerQueueFull | ErrRunnerReentrantCall
  | ErrRunnerCommandPanic | ErrRunnerNilCommand | ErrContext

datatype runnerState = runnerStateNew | runnerStateRunning | runnerStateStopping | runnerStateStopped

text \<open>
  A context: its identity (\<open>None\<close> is \<^verbatim>\<open>context.Background\<close>, which is never cancelled) and the chain of
  \<^verbatim>\<open>runnerExecution\<close> values it carries, innermost first.
\<close>

record rctx =
  ctx_id :: "nat option"
  ctx_chain :: "nat list"

definition background :: rctx where
  "background = \<lparr>ctx_id = None, ctx_chain = []\<rparr>"

definition normalizeRunnerContext :: "rctx option \<Rightarrow> rctx" where
  "normalizeRunnerContext c = (case c of None \<Rightarrow> background | Some c \<Rightarrow> c)"

definition withRunnerExecution :: "rctx \<Rightarrow> nat \<Rightarrow> rctx" where
  "withRunnerExecution c r = c\<lparr>ctx_chain := r # ctx_chain c\<rparr>"

fun chain_has :: "nat list \<Rightarrow> nat \<Rightarrow> bool" where
  "chain_has [] r = False"
| "chain_has (x # xs) r = (if x = r then True else chain_has xs r)"

definition runnerInExecutionChain :: "rctx \<Rightarrow> nat \<Rightarrow> bool" where
  "runnerInExecutionChain c r = chain_has (ctx_chain c) r"

record runnerCommand =
  cmd_ctx :: rctx
  has_done :: bool
  cancelBeforeStart :: bool

record Runner =
  runner_id :: nat
  r_state :: runnerState
  cmdCh :: "nat list"
  queueSize :: nat
  spaceCh :: bool
  r_stopCh :: bool
  r_doneCh :: bool

definition NewRunner :: "nat \<Rightarrow> int \<Rightarrow> Runner" where
  "NewRunner i sz =
     \<lparr>runner_id = i, r_state = runnerStateNew, cmdCh = [], queueSize = nat (if sz \<le> 0 then 1024 else sz), spaceCh = False,
      r_stopCh = False, r_doneCh = False\<rparr>"

fun runnerStateError :: "runnerState \<Rightarrow> runner_error option" where
  "runnerStateError runnerStateNew = Some ErrRunnerNotStarted"
| "runnerStateError runnerStateRunning = None"
| "runnerStateError runnerStateStopping = Some ErrRunnerStopping"
| "runnerStateError runnerStateStopped = Some ErrRunnerStopped"

definition runner_IsRunning :: "Runner \<Rightarrow> bool" where
  "runner_IsRunning r \<longleftrightarrow> r_state r = runnerStateRunning"

datatype call_pc = Trying | Sleeping | Awaiting | Returned "runner_error option"

record rcall =
  call_cmd :: runnerCommand
  call_wait :: bool
  call_pc :: call_pc
  call_done :: "runner_error option option"

datatype loop_pc = K_None | K_Top | K_Select | K_Signal nat bool | K_Exec nat bool | K_Running nat bool | K_Drain | K_Final | K_Exit

record rsys =
  rn :: Runner
  calls :: "rcall list"
  loop :: loop_pc
  cancelled :: "nat set"
  admitted_ids :: "nat list"
  taken :: "nat list"
  executed :: "nat list"

definition runner_init :: "nat \<Rightarrow> int \<Rightarrow> rsys" where
  "runner_init i sz =
     \<lparr>rn = NewRunner i sz, calls = [], loop = K_None, cancelled = {}, admitted_ids = [], taken = [], executed = []\<rparr>"

definition ctx_err :: "rsys \<Rightarrow> rctx \<Rightarrow> bool" where
  "ctx_err s c \<longleftrightarrow> (case ctx_id c of None \<Rightarrow> False | Some k \<Rightarrow> k \<in> cancelled s)"

abbreviation set_call :: "nat \<Rightarrow> call_pc \<Rightarrow> rsys \<Rightarrow> rsys" where
  "set_call k p s \<equiv> s\<lparr>calls := (calls s)[k := (calls s ! k)\<lparr>call_pc := p\<rparr>]\<rparr>"

section \<open>Callers\<close>

definition new_call :: "runnerCommand \<Rightarrow> bool \<Rightarrow> call_pc \<Rightarrow> rcall" where
  "new_call cmd w p = \<lparr>call_cmd = cmd, call_wait = w, call_pc = p, call_done = None\<rparr>"

text \<open>The checks of the three entry points; a call that passes them goes on with \<^verbatim>\<open>admit\<close>. \<open>nil\<close> tells whether the command is nil.\<close>

definition DoContext :: "rctx option \<Rightarrow> bool \<Rightarrow> nat \<Rightarrow> rcall" where
  "DoContext c nil r =
     (let c = normalizeRunnerContext c; cmd = \<lparr>cmd_ctx = c, has_done = True, cancelBeforeStart = True\<rparr>
      in new_call cmd True
           (if nil then Returned (Some ErrRunnerNilCommand)
            else if runnerInExecutionChain c r then Returned (Some ErrRunnerReentrantCall) else Trying))"

definition PostContext :: "rctx option \<Rightarrow> bool \<Rightarrow> nat \<Rightarrow> rcall" where
  "PostContext c nil r =
     (let c = normalizeRunnerContext c; cmd = \<lparr>cmd_ctx = c, has_done = False, cancelBeforeStart = False\<rparr>
      in new_call cmd True
           (if nil then Returned (Some ErrRunnerNilCommand)
            else if runnerInExecutionChain c r then Returned (Some ErrRunnerReentrantCall) else Trying))"

definition TryPost :: "bool \<Rightarrow> rcall" where
  "TryPost nil =
     new_call \<lparr>cmd_ctx = background, has_done = False, cancelBeforeStart = False\<rparr> False
       (if nil then Returned (Some ErrRunnerNilCommand) else Trying)"

text \<open>The locked section of \<^verbatim>\<open>admit\<close>, and what follows when the channel is full.\<close>

definition admit :: "nat \<Rightarrow> rsys \<Rightarrow> rsys" where
  "admit k s =
     (let cl = calls s ! k in
      case runnerStateError (r_state (rn s)) of
        Some e \<Rightarrow> set_call k (Returned (Some e)) s
      | None \<Rightarrow>
          if ctx_err s (cmd_ctx (call_cmd cl)) then set_call k (Returned (Some ErrContext)) s
          else if length (cmdCh (rn s)) < queueSize (rn s)
          then set_call k (if has_done (call_cmd cl) then Awaiting else Returned None)
                 (s\<lparr>rn := (rn s)\<lparr>cmdCh := cmdCh (rn s) @ [k]\<rparr>, admitted_ids := admitted_ids s @ [k]\<rparr>)
          else set_call k (if call_wait cl then Sleeping else Returned (Some ErrRunnerQueueFull)) s)"

datatype wake = WakeContext | WakeStop | WakeSpace

text \<open>The \<^verbatim>\<open>select\<close> of a sleeping caller; \<open>None\<close> where the branch is not ready.\<close>

definition admit_wake :: "wake \<Rightarrow> nat \<Rightarrow> rsys \<Rightarrow> rsys option" where
  "admit_wake w k s =
     (case w of
        WakeContext \<Rightarrow> if ctx_err s (cmd_ctx (call_cmd (calls s ! k))) then Some (set_call k (Returned (Some ErrContext)) s) else None
      | WakeStop \<Rightarrow> if r_stopCh (rn s) then Some (set_call k (Returned (runnerStateError (r_state (rn s)))) s) else None
      | WakeSpace \<Rightarrow> if spaceCh (rn s) then Some (set_call k Trying (s\<lparr>rn := (rn s)\<lparr>spaceCh := False\<rparr>\<rparr>)) else None)"

text \<open>The next operation of a caller; \<open>DoContext\<close> ends by waiting for the result of its command.\<close>

definition call_step :: "wake \<Rightarrow> nat \<Rightarrow> rsys \<Rightarrow> rsys option" where
  "call_step w k s =
     (case call_pc (calls s ! k) of
        Trying \<Rightarrow> Some (admit k s)
      | Sleeping \<Rightarrow> admit_wake w k s
      | Awaiting \<Rightarrow> map_option (\<lambda>x. set_call k (Returned x) s) (call_done (calls s ! k))
      | Returned x \<Rightarrow> None)"

section \<open>Start, stop and the goroutine\<close>

definition runner_Start :: "rsys \<Rightarrow> rsys" where
  "runner_Start s =
     (if r_state (rn s) \<noteq> runnerStateNew then s
      else s\<lparr>rn := (rn s)\<lparr>r_state := runnerStateRunning\<rparr>, loop := K_Top\<rparr>)"

text \<open>
  The section of \<^verbatim>\<open>StopContext\<close>. The answer is the error of a reentrant call, or whether the call is
  over; otherwise it goes on to wait.
\<close>

definition StopContext :: "rctx option \<Rightarrow> rsys \<Rightarrow> (runner_error + bool) \<times> rsys" where
  "StopContext c s =
     (if runnerInExecutionChain (normalizeRunnerContext c) (runner_id (rn s)) then (Inl ErrRunnerReentrantCall, s)
      else case r_state (rn s) of
             runnerStateNew \<Rightarrow> (Inr True, s\<lparr>rn := (rn s)\<lparr>r_state := runnerStateStopped, r_stopCh := True, r_doneCh := True\<rparr>\<rparr>)
           | runnerStateRunning \<Rightarrow> (Inr False, s\<lparr>rn := (rn s)\<lparr>r_state := runnerStateStopping, r_stopCh := True\<rparr>\<rparr>)
           | runnerStateStopping \<Rightarrow> (Inr False, s)
           | runnerStateStopped \<Rightarrow> (Inr True, s))"

text \<open>
  The waiting part: a first look at the end of the goroutine, then a \<^verbatim>\<open>select\<close> that may answer
  by any of the ready branches.
\<close>

definition stop_poll :: "rsys \<Rightarrow> bool" where
  "stop_poll s = r_doneCh (rn s)"

definition stop_wait :: "rctx \<Rightarrow> rsys \<Rightarrow> runner_error option set" where
  "stop_wait c s = (if r_doneCh (rn s) then {None} else {}) \<union> (if ctx_err s c then {Some ErrContext} else {})"

definition signalQueueSpace :: "rsys \<Rightarrow> rsys" where
  "signalQueueSpace s = s\<lparr>rn := (rn s)\<lparr>spaceCh := True\<rparr>\<rparr>"

definition complete :: "nat \<Rightarrow> runner_error option \<Rightarrow> rsys \<Rightarrow> rsys" where
  "complete k e s =
     (if has_done (call_cmd (calls s ! k)) then s\<lparr>calls := (calls s)[k := (calls s ! k)\<lparr>call_done := Some e\<rparr>]\<rparr> else s)"

definition take_cmd :: "bool \<Rightarrow> rsys \<Rightarrow> rsys" where
  "take_cmd dr s =
     s\<lparr>rn := (rn s)\<lparr>cmdCh := tl (cmdCh (rn s))\<rparr>, loop := K_Signal (hd (cmdCh (rn s))) dr, taken := taken s @ [hd (cmdCh (rn s))]\<rparr>"

text \<open>
  The next operation of the goroutine. \<open>st\<close> chooses the stop branch of its \<^verbatim>\<open>select\<close> and \<open>pn\<close> is whether the
  command panics. A command that was cancelled before it is started is answered without being run.
\<close>

definition loop_step :: "bool \<Rightarrow> bool \<Rightarrow> rsys \<Rightarrow> rsys option" where
  "loop_step st pn s =
     (case loop s of
        K_Top \<Rightarrow> Some (s\<lparr>loop := if r_stopCh (rn s) then K_Drain else K_Select\<rparr>)
      | K_Select \<Rightarrow>
          if st then (if r_stopCh (rn s) then Some (s\<lparr>loop := K_Drain\<rparr>) else None)
          else (if cmdCh (rn s) \<noteq> [] then Some (take_cmd False s) else None)
      | K_Signal k dr \<Rightarrow> Some ((signalQueueSpace s)\<lparr>loop := K_Exec k dr\<rparr>)
      | K_Exec k dr \<Rightarrow>
          (let cmd = call_cmd (calls s ! k) in
           if cancelBeforeStart cmd \<and> ctx_err s (cmd_ctx cmd)
           then Some ((complete k (Some ErrContext) s)\<lparr>loop := if dr then K_Drain else K_Top\<rparr>)
           else Some (s\<lparr>loop := K_Running k dr, executed := executed s @ [k]\<rparr>))
      | K_Running k dr \<Rightarrow>
          Some ((complete k (if pn then Some ErrRunnerCommandPanic else None) s)\<lparr>loop := if dr then K_Drain else K_Top\<rparr>)
      | K_Drain \<Rightarrow> Some (if cmdCh (rn s) \<noteq> [] then take_cmd True s else s\<lparr>loop := K_Final\<rparr>)
      | K_Final \<Rightarrow> Some (s\<lparr>rn := (rn s)\<lparr>r_state := runnerStateStopped, r_doneCh := True\<rparr>, loop := K_Exit\<rparr>)
      | K_None \<Rightarrow> None
      | K_Exit \<Rightarrow> None)"

section \<open>Executions\<close>

inductive runner_step :: "rsys \<Rightarrow> rsys \<Rightarrow> bool" where
  do_context: "runner_step s (s\<lparr>calls := calls s @ [DoContext c nil (runner_id (rn s))]\<rparr>)"
| post_context: "runner_step s (s\<lparr>calls := calls s @ [PostContext c nil (runner_id (rn s))]\<rparr>)"
| try_post: "runner_step s (s\<lparr>calls := calls s @ [TryPost nil]\<rparr>)"
| caller: "k < length (calls s) \<Longrightarrow> call_step w k s = Some s' \<Longrightarrow> runner_step s s'"
| goroutine: "loop_step st pn s = Some s' \<Longrightarrow> runner_step s s'"
| start: "runner_step s (runner_Start s)"
| stop: "runner_step s (snd (StopContext c s))"
| cancel: "runner_step s (s\<lparr>cancelled := insert i (cancelled s)\<rparr>)"

inductive runner_reach :: "nat \<Rightarrow> int \<Rightarrow> rsys \<Rightarrow> bool" for i sz where
  init: "runner_reach i sz (runner_init i sz)"
| step: "runner_reach i sz s \<Longrightarrow> runner_step s s' \<Longrightarrow> runner_reach i sz s'"

section \<open>Every admitted command is dealt with once\<close>




























section \<open>Waking sleeping callers\<close>

definition someone :: "call_pc \<Rightarrow> rsys \<Rightarrow> bool" where
  "someone p s \<longleftrightarrow> p \<in> set (map call_pc (calls s))"







lemma someone_rn [simp]: "someone p (s\<lparr>rn := r\<rparr>) = someone p s" "someone p (s\<lparr>loop := l\<rparr>) = someone p s"
  "someone p (s\<lparr>cancelled := cn\<rparr>) = someone p s" "someone p (s\<lparr>taken := t\<rparr>) = someone p s" "someone p (s\<lparr>executed := t\<rparr>) = someone p s"
  "someone p (s\<lparr>admitted_ids := t\<rparr>) = someone p s" "someone p (s\<lparr>calls := calls s @ [c]\<rparr>) \<longleftrightarrow> someone p s \<or> p = call_pc c"
  by (auto simp: someone_def)

lemma complete_someone [simp]: "someone p (complete k e s) = someone p s"
proof -
  have "map call_pc ((calls s)[k := (calls s ! k)\<lparr>call_done := Some e\<rparr>]) = map call_pc (calls s)"
  proof (rule nth_equalityI)
    fix i assume "i < length (map call_pc ((calls s)[k := (calls s ! k)\<lparr>call_done := Some e\<rparr>]))"
    then show "map call_pc ((calls s)[k := (calls s ! k)\<lparr>call_done := Some e\<rparr>]) ! i = map call_pc (calls s) ! i"
      by (cases "i = k") simp_all
  qed simp
  then show ?thesis unfolding someone_def complete_def by (simp del: set_map)
qed

lemma complete_rn [simp]: "rn (complete k e s) = rn s" "loop (complete k e s) = loop s"
  by (simp_all add: complete_def)







text \<open>A goroutine of the program, a caller or the one of the runner, has a next operation.\<close>

definition can_move :: "rsys \<Rightarrow> bool" where
  "can_move s \<longleftrightarrow> (\<exists>k < length (calls s). \<exists>w. call_step w k s \<noteq> None) \<or> (\<exists>b pn. loop_step b pn s \<noteq> None)"


section \<open>A lost wake-up\<close>

datatype rscript = NewDo "rctx option" | NewPost "rctx option" | NewTry | RunCall nat wake | RunLoop bool bool | DoStart | DoStop | DoCancel nat

fun rreplay :: "rscript \<Rightarrow> rsys \<Rightarrow> rsys" where
  "rreplay (NewDo c) s = s\<lparr>calls := calls s @ [DoContext c False (runner_id (rn s))]\<rparr>"
| "rreplay (NewPost c) s = s\<lparr>calls := calls s @ [PostContext c False (runner_id (rn s))]\<rparr>"
| "rreplay NewTry s = s\<lparr>calls := calls s @ [TryPost False]\<rparr>"
| "rreplay (RunCall k w) s = (if k < length (calls s) then case call_step w k s of None \<Rightarrow> s | Some s' \<Rightarrow> s' else s)"
| "rreplay (RunLoop b pn) s = (case loop_step b pn s of None \<Rightarrow> s | Some s' \<Rightarrow> s')"
| "rreplay DoStart s = runner_Start s"
| "rreplay DoStop s = snd (StopContext None s)"
| "rreplay (DoCancel i) s = s\<lparr>cancelled := insert i (cancelled s)\<rparr>"

lemma rreplay_reach: "runner_reach i sz s \<Longrightarrow> runner_reach i sz (rreplay c s)"
  by (cases c) (auto split: option.split intro: runner_reach.step runner_step.intros)

lemma rreplays_reach: "runner_reach i sz s \<Longrightarrow> runner_reach i sz (fold rreplay cs s)"
  by (induction cs arbitrary: s) (auto intro: rreplay_reach)

text \<open>
  A channel of one place is full, and two callers sleep, the first with a context of its own. The
  goroutine takes the command and signals; the context is cancelled; the first caller wakes by the
  signal, finds its context cancelled and returns. The signal is gone, and the second caller sleeps on.
\<close>

definition full_script :: "rscript list" where
  "full_script = [DoStart, NewTry, RunCall 0 WakeSpace, NewPost (Some \<lparr>ctx_id = Some 1, ctx_chain = []\<rparr>), RunCall 1 WakeSpace,
     NewPost None, RunCall 2 WakeSpace, RunLoop False False, RunLoop False False, RunLoop False False]"

definition lost_script :: "rscript list" where
  "lost_script = full_script @ [DoCancel 1, RunCall 1 WakeSpace, RunCall 1 WakeSpace, RunLoop False False, RunLoop False False, RunLoop False False]"

definition lost_state :: rsys where "lost_state = fold rreplay lost_script (runner_init 0 1)"

lemma lost_facts:
  "loop lost_state = K_Select" "r_state (rn lost_state) = runnerStateRunning" "cmdCh (rn lost_state) = []" "\<not> spaceCh (rn lost_state)"
  "\<not> r_stopCh (rn lost_state)" "map call_pc (calls lost_state) = [Returned None, Returned (Some ErrContext), Sleeping]"
  "\<not> ctx_err lost_state (cmd_ctx (call_cmd (calls lost_state ! 2)))"
  by code_simp+

text \<open>
  A wake-up can be lost: there is an execution after which the runner is running with an empty channel and
  its goroutine waits for a command, a caller whose context is not cancelled sleeps waiting for space, and no goroutine
  can make a step.
\<close>

theorem runner_wakeup_lost:
  "\<exists>s k. runner_reach 0 1 s \<and> runner_IsRunning (rn s) \<and> cmdCh (rn s) = [] \<and> loop s = K_Select \<and>
     k < length (calls s) \<and> call_pc (calls s ! k) = Sleeping \<and> \<not> ctx_err s (cmd_ctx (call_cmd (calls s ! k))) \<and> \<not> can_move s"
proof -
  note L = lost_facts
  have len: "length (calls lost_state) = 3" using arg_cong [OF L(6), of length] by simp
  have "map call_pc (calls lost_state) ! j = call_pc (calls lost_state ! j)" if "j < 3" for j using that len by simp
  from this [of 0] this [of 1] this [of 2]
  have pc: "call_pc (calls lost_state ! 0) = Returned None" "call_pc (calls lost_state ! 1) = Returned (Some ErrContext)"
    "call_pc (calls lost_state ! 2) = Sleeping" by (simp_all add: L(6))
  have "call_step w j lost_state = None" if "j < 3" for w j
  proof -
    have "j = 0 \<or> j = 1 \<or> j = 2" using that by auto
    then show ?thesis using pc L(4,5,7) by (cases w) (auto simp: call_step_def admit_wake_def)
  qed
  moreover have "loop_step b pn lost_state = None" for b pn using L by (simp add: loop_step_def)
  ultimately have "\<not> can_move lost_state" by (simp add: can_move_def len)
  moreover have "runner_reach 0 1 lost_state" unfolding lost_state_def by (rule rreplays_reach [OF runner_reach.init])
  ultimately show ?thesis using L pc len
    by (intro exI [of _ lost_state] exI [of _ 2]) (simp add: runner_IsRunning_def)
qed





end
