(* ===== verification/Event_Bus.thy ===== *)
theory Event_Bus
  imports Prelude
begin

text \<open>
  \<^verbatim>\<open>zEvent/event_bus.go\<close>: subscriptions by event type, synchronous and asynchronous publication, close.

  Every locked section is one operation. \<open>bus_step\<close> interleaves callers of the methods, publishers between the
  admission of an event and the end of \<^verbatim>\<open>executor.Submit\<close>, and closers; a goroutine that waits on the
  condition variable sleeps until a \<^verbatim>\<open>Broadcast\<close> after the beginning of its wait. The executor is a component
  of zUtil: the outcome of \<^verbatim>\<open>Submit\<close> is an input. Handlers are named by values of a type \<open>'h\<close>.
\<close>

section \<open>Types\<close>

datatype bus_error =
    ErrEventBusClosed | ErrEventBusInvalidEvent | ErrEventBusInvalidHandler | ErrEventBusInvalidSubscription
  | ErrEventBusNoExecutor | ErrEventBusFull | ErrEventBusExecutorUnavailable | ErrEventBusExecutorRejected

type_synonym EventType = int
type_synonym SubscriptionID = uint64

record 'h subscription =
  sub_id :: SubscriptionID
  sub_fn :: 'h

datatype eventBusState = eventBusOpen | eventBusClosing | eventBusClosed

record 'h EventBus =
  eb_state :: eventBusState
  handlers :: "EventType \<rightharpoonup> 'h subscription list"
  nextID :: uint64
  inFlightSubmissions :: int
  eb_executor :: bool
  ownedExecutor :: bool
  handlerPanics :: uint64

definition newEventBus :: "bool \<Rightarrow> bool \<Rightarrow> 'h EventBus" where
  "newEventBus ex own =
     \<lparr>eb_state = eventBusOpen, handlers = Map.empty, nextID = 0, inFlightSubmissions = 0, eb_executor = ex, ownedExecutor = own,
      handlerPanics = 0\<rparr>"

definition NewEventBus :: "'h EventBus" where
  "NewEventBus = newEventBus False False"

definition NewEventBusWithExecutor :: "bool \<Rightarrow> 'h EventBus" where
  "NewEventBusWithExecutor ex = newEventBus ex False"

definition NewEventBusWithPool :: "'h EventBus" where
  "NewEventBusWithPool = newEventBus True True"

section \<open>Subscriptions\<close>

definition subs_of :: "EventType \<Rightarrow> 'h EventBus \<Rightarrow> 'h subscription list" where
  "subs_of t b = (case handlers b t of None \<Rightarrow> [] | Some subs \<Rightarrow> subs)"

definition SubscribeChecked :: "EventType \<Rightarrow> 'h option \<Rightarrow> 'h EventBus \<Rightarrow> (bus_error + SubscriptionID) \<times> 'h EventBus" where
  "SubscribeChecked t h b =
     (case h of
        None \<Rightarrow> (Inl ErrEventBusInvalidHandler, b)
      | Some fn \<Rightarrow>
          if eb_state b \<noteq> eventBusOpen then (Inl ErrEventBusClosed, b)
          else (let i = nextID b + 1
                in (Inr i, b\<lparr>nextID := i, handlers := (handlers b)(t \<mapsto> subs_of t b @ [\<lparr>sub_id = i, sub_fn = fn\<rparr>])\<rparr>)))"

definition Subscribe :: "EventType \<Rightarrow> 'h option \<Rightarrow> 'h EventBus \<Rightarrow> SubscriptionID \<times> 'h EventBus" where
  "Subscribe t h b = (case SubscribeChecked t h b of (Inl e, b) \<Rightarrow> (0, b) | (Inr i, b) \<Rightarrow> (i, b))"

text \<open>The loops of \<^verbatim>\<open>UnsubscribeChecked\<close>: over one list, and over the types in the order \<open>ts\<close> of the map range.\<close>

fun remove_sub :: "SubscriptionID \<Rightarrow> 'h subscription list \<Rightarrow> 'h subscription list option" where
  "remove_sub i [] = None"
| "remove_sub i (x # xs) = (if sub_id x = i then Some xs else map_option ((#) x) (remove_sub i xs))"

fun unsubscribe_loop :: "EventType list \<Rightarrow> SubscriptionID \<Rightarrow> 'h EventBus \<Rightarrow> bool \<times> 'h EventBus" where
  "unsubscribe_loop [] i b = (False, b)"
| "unsubscribe_loop (t # ts) i b =
     (case remove_sub i (subs_of t b) of
        None \<Rightarrow> unsubscribe_loop ts i b
      | Some subs \<Rightarrow> (True, b\<lparr>handlers := (handlers b)(t := if subs = [] then None else Some subs)\<rparr>))"

definition UnsubscribeChecked :: "EventType list \<Rightarrow> SubscriptionID \<Rightarrow> 'h EventBus \<Rightarrow> (bus_error + bool) \<times> 'h EventBus" where
  "UnsubscribeChecked ts i b =
     (if i = 0 then (Inl ErrEventBusInvalidSubscription, b)
      else if eb_state b \<noteq> eventBusOpen then (Inl ErrEventBusClosed, b)
      else case unsubscribe_loop ts i b of (r, b) \<Rightarrow> (Inr r, b))"

definition Unsubscribe :: "EventType list \<Rightarrow> SubscriptionID \<Rightarrow> 'h EventBus \<Rightarrow> bool \<times> 'h EventBus" where
  "Unsubscribe ts i b = (case UnsubscribeChecked ts i b of (Inl e, b) \<Rightarrow> (False, b) | (Inr r, b) \<Rightarrow> (r, b))"

definition GetHandlerCount :: "EventType \<Rightarrow> 'h EventBus \<Rightarrow> nat" where
  "GetHandlerCount t b = length (subs_of t b)"

definition HasSubscribers :: "EventType \<Rightarrow> 'h EventBus \<Rightarrow> bool" where
  "HasSubscribers t b \<longleftrightarrow> GetHandlerCount t b > 0"

definition HandlerPanicCount :: "'h EventBus \<Rightarrow> uint64" where
  "HandlerPanicCount b = handlerPanics b"

section \<open>Publication\<close>

definition snapshotHandlersLocked :: "EventType \<Rightarrow> 'h EventBus \<Rightarrow> 'h list" where
  "snapshotHandlersLocked t b = map sub_fn (subs_of t b)"

text \<open>Handlers run outside the lock, one after the other; \<open>pn\<close> tells which of them panic.\<close>

fun runHandlers :: "('h \<Rightarrow> bool) \<Rightarrow> 'h list \<Rightarrow> 'h EventBus \<Rightarrow> 'h list \<times> 'h EventBus" where
  "runHandlers pn [] b = ([], b)"
| "runHandlers pn (h # hs) b =
     (let b = (if pn h then b\<lparr>handlerPanics := handlerPanics b + 1\<rparr> else b)
      in case runHandlers pn hs b of (called, b) \<Rightarrow> (h # called, b))"

text \<open>The event is \<open>None\<close> for nil; of an event the bus uses the type.\<close>

definition PublishSyncChecked :: "('h \<Rightarrow> bool) \<Rightarrow> EventType option \<Rightarrow> 'h EventBus \<Rightarrow> (bus_error + 'h list) \<times> 'h EventBus" where
  "PublishSyncChecked pn e b =
     (case e of
        None \<Rightarrow> (Inl ErrEventBusInvalidEvent, b)
      | Some t \<Rightarrow>
          if eb_state b \<noteq> eventBusOpen then (Inl ErrEventBusClosed, b)
          else case runHandlers pn (snapshotHandlersLocked t b) b of (called, b) \<Rightarrow> (Inr called, b))"

definition beginAsyncPublish :: "EventType \<Rightarrow> 'h EventBus \<Rightarrow> (bus_error + 'h list) \<times> 'h EventBus" where
  "beginAsyncPublish t b =
     (if eb_state b \<noteq> eventBusOpen then (Inl ErrEventBusClosed, b)
      else let hs = snapshotHandlersLocked t b in
           if hs = [] then (Inr [], b)
           else if \<not> eb_executor b then (Inl ErrEventBusNoExecutor, b)
           else (Inr hs, b\<lparr>inFlightSubmissions := inFlightSubmissions b + 1\<rparr>))"

datatype submit_result = SubmitOk | WorkerPoolFull | WorkerPoolClosed | WorkerPoolNotRunning | SubmitOther

fun mapExecutorError :: "submit_result \<Rightarrow> bus_error option" where
  "mapExecutorError SubmitOk = None"
| "mapExecutorError WorkerPoolFull = Some ErrEventBusFull"
| "mapExecutorError WorkerPoolClosed = Some ErrEventBusExecutorUnavailable"
| "mapExecutorError WorkerPoolNotRunning = Some ErrEventBusExecutorUnavailable"
| "mapExecutorError SubmitOther = Some ErrEventBusExecutorRejected"

section \<open>The bus with its publishers and closers\<close>

datatype 'h pub_pc = P_Submit "'h list" | P_Finish "bus_error option" | P_Done "bus_error option"

text \<open>
  \<open>X_Wait\<close>: waits for the submissions, \<open>X_Join\<close>: waits for another \<^verbatim>\<open>Close\<close>; the flag tells that it was woken.
\<close>

datatype close_pc = X_Wait bool | X_Join bool | X_Stop | X_Last | X_Done

record 'h bsys =
  bus :: "'h EventBus"
  publishers :: "'h pub_pc list"
  closers :: "close_pc list"
  submitted :: "'h list list"
  executor_stopped :: bool

fun wake_up :: "close_pc \<Rightarrow> close_pc" where
  "wake_up (X_Wait b) = X_Wait True"
| "wake_up (X_Join b) = X_Join True"
| "wake_up p = p"

definition Broadcast :: "'h bsys \<Rightarrow> 'h bsys" where
  "Broadcast s = s\<lparr>closers := map wake_up (closers s)\<rparr>"

text \<open>\<^verbatim>\<open>PublishChecked\<close>: admission; then \<^verbatim>\<open>Submit\<close>, and the deferred \<^verbatim>\<open>finishAsyncSubmission\<close>.\<close>

definition PublishChecked :: "EventType option \<Rightarrow> 'h bsys \<Rightarrow> 'h bsys" where
  "PublishChecked e s =
     (case e of
        None \<Rightarrow> s\<lparr>publishers := publishers s @ [P_Done (Some ErrEventBusInvalidEvent)]\<rparr>
      | Some t \<Rightarrow>
          (case beginAsyncPublish t (bus s) of
             (Inl err, b) \<Rightarrow> s\<lparr>bus := b, publishers := publishers s @ [P_Done (Some err)]\<rparr>
           | (Inr hs, b) \<Rightarrow> s\<lparr>bus := b, publishers := publishers s @ [if hs = [] then P_Done None else P_Submit hs]\<rparr>))"

definition Submit :: "submit_result \<Rightarrow> nat \<Rightarrow> 'h list \<Rightarrow> 'h bsys \<Rightarrow> 'h bsys" where
  "Submit r k hs s =
     s\<lparr>publishers := (publishers s)[k := P_Finish (mapExecutorError r)],
       submitted := (if r = SubmitOk then submitted s @ [hs] else submitted s)\<rparr>"

definition finishAsyncSubmission :: "nat \<Rightarrow> bus_error option \<Rightarrow> 'h bsys \<Rightarrow> 'h bsys" where
  "finishAsyncSubmission k e s =
     (let n = inFlightSubmissions (bus s) - 1;
          s = s\<lparr>bus := (bus s)\<lparr>inFlightSubmissions := n\<rparr>, publishers := (publishers s)[k := P_Done e]\<rparr>
      in if n = 0 then Broadcast s else s)"

definition pub_step :: "submit_result \<Rightarrow> nat \<Rightarrow> 'h bsys \<Rightarrow> 'h bsys option" where
  "pub_step r k s =
     (case publishers s ! k of
        P_Submit hs \<Rightarrow> Some (Submit r k hs s)
      | P_Finish e \<Rightarrow> Some (finishAsyncSubmission k e s)
      | P_Done e \<Rightarrow> None)"

text \<open>What the closer that set the state does when nothing is in flight: it clears the table and leaves the lock.\<close>

definition close_clear :: "nat \<Rightarrow> 'h bsys \<Rightarrow> 'h bsys" where
  "close_clear k s =
     s\<lparr>bus := (bus s)\<lparr>handlers := Map.empty\<rparr>, closers := (closers s)[k := if ownedExecutor (bus s) then X_Stop else X_Last]\<rparr>"

definition Close_begin :: "'h bsys \<Rightarrow> 'h bsys" where
  "Close_begin s =
     (let k = length (closers s) in
      case eb_state (bus s) of
        eventBusClosing \<Rightarrow> s\<lparr>closers := closers s @ [X_Join False]\<rparr>
      | eventBusClosed \<Rightarrow> s\<lparr>closers := closers s @ [X_Done]\<rparr>
      | eventBusOpen \<Rightarrow>
          (let s = s\<lparr>bus := (bus s)\<lparr>eb_state := eventBusClosing\<rparr>, closers := closers s @ [X_Wait False]\<rparr>
           in if inFlightSubmissions (bus s) > 0 then s else close_clear k s))"

definition close_step :: "nat \<Rightarrow> 'h bsys \<Rightarrow> 'h bsys option" where
  "close_step k s =
     (case closers s ! k of
        X_Wait woken \<Rightarrow>
          if \<not> woken then None
          else Some (if inFlightSubmissions (bus s) > 0 then s\<lparr>closers := (closers s)[k := X_Wait False]\<rparr> else close_clear k s)
      | X_Join woken \<Rightarrow>
          if \<not> woken then None
          else Some (s\<lparr>closers := (closers s)[k := if eb_state (bus s) = eventBusClosed then X_Done else X_Join False]\<rparr>)
      | X_Stop \<Rightarrow> Some (s\<lparr>closers := (closers s)[k := X_Last], executor_stopped := True\<rparr>)
      | X_Last \<Rightarrow> Some (Broadcast (s\<lparr>bus := (bus s)\<lparr>eb_state := eventBusClosed\<rparr>, closers := (closers s)[k := X_Done]\<rparr>))
      | X_Done \<Rightarrow> None)"

definition on_bus :: "('h EventBus \<Rightarrow> 'r \<times> 'h EventBus) \<Rightarrow> 'h bsys \<Rightarrow> 'h bsys" where
  "on_bus f s = s\<lparr>bus := snd (f (bus s))\<rparr>"

inductive bus_step :: "'h bsys \<Rightarrow> 'h bsys \<Rightarrow> bool" where
  subscribe: "bus_step s (on_bus (SubscribeChecked t h) s)"
| unsubscribe: "bus_step s (on_bus (UnsubscribeChecked ts i) s)"
| publish_sync: "bus_step s (on_bus (PublishSyncChecked pn e) s)"
| run_async: "bus_step s (on_bus (runHandlers pn hs) s)"
| publish: "bus_step s (PublishChecked e s)"
| publisher: "k < length (publishers s) \<Longrightarrow> pub_step r k s = Some s' \<Longrightarrow> bus_step s s'"
| close: "bus_step s (Close_begin s)"
| closer: "k < length (closers s) \<Longrightarrow> close_step k s = Some s' \<Longrightarrow> bus_step s s'"

definition bus_init :: "bool \<Rightarrow> bool \<Rightarrow> 'h bsys" where
  "bus_init ex own = \<lparr>bus = newEventBus ex own, publishers = [], closers = [], submitted = [], executor_stopped = False\<rparr>"

inductive bus_reach :: "bool \<Rightarrow> bool \<Rightarrow> 'h bsys \<Rightarrow> bool" for ex own where
  init: "bus_reach ex own (bus_init ex own)"
| step: "bus_reach ex own s \<Longrightarrow> bus_step s s' \<Longrightarrow> bus_reach ex own s'"

section \<open>Close is a barrier\<close>

fun busy :: "'h pub_pc \<Rightarrow> bool" where
  "busy (P_Done e) = False"
| "busy p = True"

fun worker :: "close_pc \<Rightarrow> bool" where
  "worker (X_Wait b) = True"
| "worker X_Stop = True"
| "worker X_Last = True"
| "worker p = False"

definition busy_count :: "'h bsys \<Rightarrow> int" where
  "busy_count s = int (length (filter busy (publishers s)))"

definition closing_ok :: "'h bsys \<Rightarrow> bool" where
  "closing_ok s \<longleftrightarrow> length (filter worker (closers s)) = 1 \<and> X_Done \<notin> set (closers s) \<and>
     (X_Wait False \<in> set (closers s) \<longrightarrow> 0 < inFlightSubmissions (bus s)) \<and>
     (X_Stop \<in> set (closers s) \<or> X_Last \<in> set (closers s) \<longrightarrow> inFlightSubmissions (bus s) = 0 \<and> handlers (bus s) = Map.empty) \<and>
     (executor_stopped s \<longrightarrow> X_Last \<in> set (closers s))"

definition bus_inv :: "'h bsys \<Rightarrow> bool" where
  "bus_inv s \<longleftrightarrow> inFlightSubmissions (bus s) = busy_count s \<and>
     (case eb_state (bus s) of
        eventBusOpen \<Rightarrow> closers s = [] \<and> \<not> executor_stopped s
      | eventBusClosing \<Rightarrow> closing_ok s
      | eventBusClosed \<Rightarrow> inFlightSubmissions (bus s) = 0 \<and> handlers (bus s) = Map.empty \<and> set (closers s) \<subseteq> {X_Join True, X_Done})"

lemmas worker_update = filter_one_update(1) [where P = worker]

lemma in_update: "x \<in> set (xs[k := y]) \<Longrightarrow> x = y \<or> (\<exists>j < length xs. j \<noteq> k \<and> x = xs ! j)"
  by (metis in_set_conv_nth length_list_update nth_list_update_eq nth_list_update_neq)

text \<open>The only worker among the closers steps.\<close>

lemma only_worker:
  assumes "length (filter worker cs) = 1" "k < length cs" "worker (cs ! k)" "p \<in> set (cs[k := q])" "worker p"
  shows "p = q"
  using in_update [OF assms(4)] filter_one_update(2) [OF assms(2,3,1)] assms(5) by auto

lemma busy_count_update:
  "k < length (publishers s) \<Longrightarrow> busy_count (s\<lparr>publishers := (publishers s)[k := p]\<rparr>) =
     busy_count s - (if busy (publishers s ! k) then 1 else 0) + (if busy p then 1 else 0)"
  by (simp add: busy_count_def filter_update_length)

lemma busy_count_frame [simp]:
  "busy_count (s\<lparr>bus := b\<rparr>) = busy_count s" "busy_count (s\<lparr>closers := c\<rparr>) = busy_count s" "busy_count (s\<lparr>submitted := x\<rparr>) = busy_count s"
  "busy_count (s\<lparr>executor_stopped := y\<rparr>) = busy_count s" "busy_count (s\<lparr>publishers := publishers s @ [p]\<rparr>) = busy_count s + (if busy p then 1 else 0)"
  by (simp_all add: busy_count_def)

lemma worker_wake_up [simp]: "worker (wake_up p) = worker p"
  by (cases p) simp_all

lemma wake_up_simps [simp]: "wake_up p = X_Done \<longleftrightarrow> p = X_Done" "wake_up p = X_Stop \<longleftrightarrow> p = X_Stop" "wake_up p = X_Last \<longleftrightarrow> p = X_Last"
  "wake_up p \<noteq> X_Wait False" "wake_up p \<noteq> X_Join False"
  by (cases p; simp)+

lemma wake_up_sym [simp]: "X_Done = wake_up p \<longleftrightarrow> p = X_Done" "X_Stop = wake_up p \<longleftrightarrow> p = X_Stop" "X_Last = wake_up p \<longleftrightarrow> p = X_Last"
  by (cases p; simp)+

lemma filter_worker_wake: "length (filter (worker \<circ> wake_up) cs) = length (filter worker cs)"
  by (induction cs) simp_all

lemma bus_inv_broadcast: "bus_inv s \<Longrightarrow> bus_inv (Broadcast s)"
proof -
  assume inv: "bus_inv s"
  have "X_Wait False \<notin> set (map wake_up (closers s))" by (auto simp: image_iff) (metis wake_up_simps(4))
  then have "closing_ok s \<Longrightarrow> closing_ok (Broadcast s)"
    by (simp add: closing_ok_def Broadcast_def filter_worker_wake image_iff filter_map)
  moreover have "set (closers s) \<subseteq> {X_Join True, X_Done} \<Longrightarrow> set (map wake_up (closers s)) \<subseteq> {X_Join True, X_Done}" by auto
  ultimately show ?thesis using inv by (auto simp: bus_inv_def Broadcast_def busy_count_def split: eventBusState.splits)
qed

text \<open>Operations on the bus alone.\<close>

lemma bus_inv_on_bus:
  assumes "bus_inv s" "eb_state b = eb_state (bus s)" "inFlightSubmissions b = inFlightSubmissions (bus s)"
    "eb_state (bus s) \<noteq> eventBusOpen \<Longrightarrow> handlers b = handlers (bus s)"
  shows "bus_inv (s\<lparr>bus := b\<rparr>)"
  using assms by (auto simp: bus_inv_def closing_ok_def split: eventBusState.splits)

lemma unsubscribe_loop_frame:
  "eb_state (snd (unsubscribe_loop ts i b)) = eb_state b" "inFlightSubmissions (snd (unsubscribe_loop ts i b)) = inFlightSubmissions b"
  "nextID (snd (unsubscribe_loop ts i b)) = nextID b"
  by (induction ts) (auto split: option.split)

lemma runHandlers_frame:
  "eb_state (snd (runHandlers pn hs b)) = eb_state b" "inFlightSubmissions (snd (runHandlers pn hs b)) = inFlightSubmissions b"
  "handlers (snd (runHandlers pn hs b)) = handlers b" "nextID (snd (runHandlers pn hs b)) = nextID b"
  by (induction pn hs b rule: runHandlers.induct) (simp_all add: Let_def split_beta)

lemma bus_inv_methods:
  assumes "bus_inv s"
  shows "bus_inv (on_bus (SubscribeChecked t h) s)" "bus_inv (on_bus (UnsubscribeChecked ts i) s)"
    "bus_inv (on_bus (PublishSyncChecked pn e) s)" "bus_inv (on_bus (runHandlers pn hs) s)"
proof -
  show "bus_inv (on_bus (SubscribeChecked t h) s)"
    unfolding on_bus_def by (rule bus_inv_on_bus [OF assms]) (auto simp: SubscribeChecked_def Let_def split: option.split)
  show "bus_inv (on_bus (UnsubscribeChecked ts i) s)"
    unfolding on_bus_def by (rule bus_inv_on_bus [OF assms]) (auto simp: UnsubscribeChecked_def split_beta unsubscribe_loop_frame)
  show "bus_inv (on_bus (PublishSyncChecked pn e) s)"
    unfolding on_bus_def by (rule bus_inv_on_bus [OF assms]) (auto simp: PublishSyncChecked_def split_beta runHandlers_frame split: option.split)
  show "bus_inv (on_bus (runHandlers pn hs) s)"
    unfolding on_bus_def by (rule bus_inv_on_bus [OF assms]) (auto simp: runHandlers_frame)
qed

lemma bus_inv_publish:
  assumes "bus_inv s"
  shows "bus_inv (PublishChecked e s)"
proof -
  have ended: "bus_inv (s\<lparr>publishers := publishers s @ [P_Done x]\<rparr>)" for x
    using assms by (auto simp: bus_inv_def closing_ok_def split: eventBusState.splits)
  show ?thesis
  proof (cases "\<exists>t hs. e = Some t \<and> fst (beginAsyncPublish t (bus s)) = Inr hs \<and> hs \<noteq> []")
    case True
    then obtain t hs where t: "e = Some t" "fst (beginAsyncPublish t (bus s)) = Inr hs" "hs \<noteq> []" by blast
    then have "eb_state (bus s) = eventBusOpen" and
      b: "beginAsyncPublish t (bus s) = (Inr hs, (bus s)\<lparr>inFlightSubmissions := inFlightSubmissions (bus s) + 1\<rparr>)"
      by (auto simp: beginAsyncPublish_def Let_def split: if_splits)
    then show ?thesis using assms t by (simp add: PublishChecked_def bus_inv_def busy_count_def)
  next
    case False
    have "\<exists>x. PublishChecked e s = s\<lparr>publishers := publishers s @ [P_Done x]\<rparr>"
    proof (cases e)
      case None
      then show ?thesis by (auto simp: PublishChecked_def)
    next
      case (Some t)
      have nh: "fst (beginAsyncPublish t (bus s)) = Inr hs \<Longrightarrow> hs = []" for hs using False Some by blast
      have "snd (beginAsyncPublish t (bus s)) = bus s"
      proof (cases "eb_state (bus s) = eventBusOpen \<and> snapshotHandlersLocked t (bus s) \<noteq> [] \<and> eb_executor (bus s)")
        case True
        then have "fst (beginAsyncPublish t (bus s)) = Inr (snapshotHandlersLocked t (bus s))" by (simp add: beginAsyncPublish_def Let_def)
        from nh [OF this] True show ?thesis by blast
      qed (auto simp: beginAsyncPublish_def Let_def)
      then obtain x where x: "beginAsyncPublish t (bus s) = (x, bus s)" by (metis prod.collapse)
      have "hs = []" if "x = Inr hs" for hs
      proof -
        have "fst (beginAsyncPublish t (bus s)) = Inr hs" by (simp only: x that fst_conv)
        then show ?thesis by (rule nh)
      qed
      then show ?thesis using Some x by (cases x) (auto simp: PublishChecked_def)
    qed
    with ended show ?thesis by auto
  qed
qed

lemma bus_inv_publisher:
  assumes inv: "bus_inv s" and k: "k < length (publishers s)" and st: "pub_step r k s = Some s'"
  shows "bus_inv s'"
proof (cases "publishers s ! k")
  case (P_Submit hs)
  have "busy_count (s\<lparr>publishers := (publishers s)[k := P_Finish x]\<rparr>) = busy_count s" for x
    using busy_count_update [OF k, of "P_Finish x"] P_Submit by simp
  then show ?thesis using st P_Submit inv
    by (auto simp: pub_step_def Submit_def bus_inv_def closing_ok_def busy_count_def split: eventBusState.splits)
next
  case (P_Finish e)
  define s1 where "s1 = s\<lparr>bus := (bus s)\<lparr>inFlightSubmissions := inFlightSubmissions (bus s) - 1\<rparr>, publishers := (publishers s)[k := P_Done e]\<rparr>"
  have c: "busy_count s1 = busy_count s - 1"
    using busy_count_update [OF k, of "P_Done e"] P_Finish by (simp add: s1_def busy_count_def)
  have pos: "1 \<le> inFlightSubmissions (bus s)"
  proof -
    have "publishers s ! k \<in> set (filter busy (publishers s))" using nth_mem [OF k] P_Finish by simp
    then have "0 < length (filter busy (publishers s))" by (rule length_pos_if_in_set)
    then show ?thesis using inv unfolding bus_inv_def busy_count_def by linarith
  qed
  have s': "s' = (if inFlightSubmissions (bus s) - 1 = 0 then Broadcast s1 else s1)"
    using st P_Finish by (auto simp: pub_step_def finishAsyncSubmission_def Let_def s1_def)
  show ?thesis
  proof (cases "inFlightSubmissions (bus s) - 1 = 0")
    case False
    then show ?thesis using inv c pos s' by (auto simp: bus_inv_def s1_def closing_ok_def busy_count_def split: eventBusState.splits)
  next
    case True
    let ?cs = "map wake_up (closers s)"
    have "X_Wait False \<notin> set ?cs" by (auto simp: image_iff) (metis wake_up_simps(4))
    then show ?thesis using inv c pos s' True
      by (auto simp: bus_inv_def s1_def closing_ok_def busy_count_def Broadcast_def filter_map filter_worker_wake image_iff split: eventBusState.splits)
  qed
qed (use st in \<open>simp add: pub_step_def\<close>)

lemma closers_state:
  assumes "bus_inv s" "k < length (closers s)"
  shows "worker (closers s ! k) \<Longrightarrow> eb_state (bus s) = eventBusClosing" "closers s ! k = X_Join b \<Longrightarrow> eb_state (bus s) \<noteq> eventBusOpen"
proof -
  have "closers s ! k \<in> {X_Join True, X_Done}" if "eb_state (bus s) = eventBusClosed"
    using assms(1) that nth_mem [OF assms(2)] by (auto simp: bus_inv_def)
  moreover have "eb_state (bus s) \<noteq> eventBusOpen" using assms by (auto simp: bus_inv_def)
  ultimately show "worker (closers s ! k) \<Longrightarrow> eb_state (bus s) = eventBusClosing" "closers s ! k = X_Join b \<Longrightarrow> eb_state (bus s) \<noteq> eventBusOpen"
    by (cases "eb_state (bus s)"; auto)+
qed

lemma bus_inv_clear:
  assumes inv: "bus_inv s" and st: "eb_state (bus s) = eventBusClosing" and w: "length (filter worker (closers s)) = 1"
    and k: "k < length (closers s)" "worker (closers s ! k)" and z: "inFlightSubmissions (bus s) = 0" and ns: "\<not> executor_stopped s"
    and nd: "X_Done \<notin> set (closers s)"
  shows "bus_inv (close_clear k s)"
proof -
  let ?q = "if ownedExecutor (bus s) then X_Stop else X_Last"
  have "X_Done \<notin> set ((closers s)[k := ?q])" using set_update_subset_insert [of "closers s" k ?q] nd by auto
  moreover have "X_Wait False \<notin> set ((closers s)[k := ?q])" using only_worker [OF w k, of "X_Wait False" ?q] by auto
  ultimately show ?thesis using inv st z ns worker_update [OF k w, of ?q]
    by (auto simp: close_clear_def bus_inv_def closing_ok_def)
qed

lemma bus_inv_Close:
  assumes inv: "bus_inv s"
  shows "bus_inv (Close_begin s)"
proof (cases "eb_state (bus s)")
  case eventBusOpen
  define s1 where "s1 = s\<lparr>bus := (bus s)\<lparr>eb_state := eventBusClosing\<rparr>, closers := closers s @ [X_Wait False]\<rparr>"
  have s': "Close_begin s = (if inFlightSubmissions (bus s) > 0 then s1 else close_clear 0 s1)"
    using eventBusOpen inv by (simp add: Close_begin_def Let_def s1_def bus_inv_def)
  have c: "closers s = []" "\<not> executor_stopped s" "inFlightSubmissions (bus s) = busy_count s" using inv eventBusOpen by (simp_all add: bus_inv_def)
  then have "busy_count s \<ge> 0" by (simp add: busy_count_def)
  with c show ?thesis unfolding s'
    by (auto simp: s1_def close_clear_def bus_inv_def closing_ok_def)
qed (use inv in \<open>auto simp: Close_begin_def Let_def bus_inv_def closing_ok_def\<close>)

lemma bus_inv_closer:
  assumes inv: "bus_inv s" and k: "k < length (closers s)" and st: "close_step k s = Some s'"
  shows "bus_inv s'"
proof -
  note mem = nth_mem [OF k]
  have closing: "closing_ok s" "eb_state (bus s) = eventBusClosing" if "worker (closers s ! k)"
    using closers_state(1) [OF inv k that] inv by (simp_all add: bus_inv_def)
  show ?thesis
  proof (cases "closers s ! k")
    case (X_Wait woken)
    then have w: "worker (closers s ! k)" by simp
    note c = closing [OF w]
    have "p = X_Wait woken" if "p \<in> set (closers s)" "worker p" for p
      using only_worker [OF _ k w _ that(2), of "X_Wait woken"] that(1) c(1) list_update_id [of "closers s" k] X_Wait
      by (simp add: closing_ok_def)
    then have nr: "X_Last \<notin> set (closers s)" "X_Stop \<notin> set (closers s)" by fastforce+
    show ?thesis
    proof (cases "inFlightSubmissions (bus s) > 0")
      case True
      then have s': "s' = s\<lparr>closers := (closers s)[k := X_Wait False]\<rparr>" using st X_Wait by (simp add: close_step_def split: if_splits)
      have "set ((closers s)[k := X_Wait False]) \<subseteq> insert (X_Wait False) (set (closers s))" by (rule set_update_subset_insert)
      then show ?thesis using c inv nr True worker_update [OF k w, of "X_Wait False"] unfolding s'
        by (auto simp: bus_inv_def closing_ok_def)
    next
      case False
      then have s': "s' = close_clear k s" using st X_Wait by (simp add: close_step_def split: if_splits)
      have "inFlightSubmissions (bus s) = 0" using False inv by (auto simp: bus_inv_def busy_count_def)
      then show ?thesis unfolding s' using bus_inv_clear [OF inv c(2) _ k w] c(1) nr by (auto simp: closing_ok_def)
    qed
  next
    case (X_Join woken)
    have s': "s' = s\<lparr>closers := (closers s)[k := if eb_state (bus s) = eventBusClosed then X_Done else X_Join False]\<rparr>"
      using st X_Join by (simp add: close_step_def split: if_splits)
    show ?thesis
    proof (cases "eb_state (bus s) = eventBusClosed")
      case True
      then show ?thesis using inv set_update_subset_insert [of "closers s" k X_Done] unfolding s' by (auto simp: bus_inv_def)
    next
      case False
      then have cl: "eb_state (bus s) = eventBusClosing" using closers_state(2) [OF inv k X_Join] by (cases "eb_state (bus s)") auto
      have f: "length (filter worker ((closers s)[k := X_Join False])) = length (filter worker (closers s))"
        using filter_update_length [OF k, of worker "X_Join False"] X_Join by simp
      have "p \<in> set ((closers s)[k := X_Join False]) \<longleftrightarrow> p \<in> set (closers s)" if "p \<in> {X_Done, X_Stop, X_Last, X_Wait False}" for p
        by (rule in_set_update_other [OF k]) (use that X_Join in auto)
      note this [of X_Done] this [of X_Stop] this [of X_Last] this [of "X_Wait False"]
      moreover have "closing_ok s" using inv cl by (simp add: bus_inv_def)
      ultimately have "closing_ok (s\<lparr>closers := (closers s)[k := X_Join False]\<rparr>)" using f by (simp add: closing_ok_def)
      then show ?thesis using inv cl unfolding s' by (simp add: bus_inv_def)
    qed
  next
    case X_Stop
    then have w: "worker (closers s ! k)" by simp
    note c = closing [OF w]
    have s': "s' = s\<lparr>closers := (closers s)[k := X_Last], executor_stopped := True\<rparr>" using st X_Stop by (simp add: close_step_def)
    have "set ((closers s)[k := X_Last]) \<subseteq> insert X_Last (set (closers s))" by (rule set_update_subset_insert)
    moreover have "X_Last \<in> set ((closers s)[k := X_Last])" using k by (simp add: set_update_memI)
    moreover have "X_Stop \<in> set (closers s)" using X_Stop mem by simp
    ultimately show ?thesis using c inv worker_update [OF k w, of X_Last] unfolding s'
      by (auto simp: bus_inv_def closing_ok_def)
  next
    case X_Last
    then have w: "worker (closers s ! k)" by simp
    note c = closing [OF w]
    have s': "s' = Broadcast (s\<lparr>bus := (bus s)\<lparr>eb_state := eventBusClosed\<rparr>, closers := (closers s)[k := X_Done]\<rparr>)"
      using st X_Last by (simp add: close_step_def)
    have "p \<in> {X_Join True, X_Done}" if p: "p \<in> set (map wake_up ((closers s)[k := X_Done]))" for p
    proof -
      obtain q where q: "q \<in> set ((closers s)[k := X_Done])" "p = wake_up q" using p by auto
      have "\<not> worker q" using only_worker [OF _ k w q(1)] c(1) by (auto simp: closing_ok_def)
      then show ?thesis using q(2) by (cases q) auto
    qed
    moreover have "X_Last \<in> set (closers s)" using X_Last mem by simp
    ultimately show ?thesis using c inv unfolding s' by (auto simp: bus_inv_def closing_ok_def Broadcast_def busy_count_def)
  qed (use st in \<open>simp add: close_step_def\<close>)
qed

lemma bus_inv_reach: "bus_reach ex own s \<Longrightarrow> bus_inv s"
proof (induction rule: bus_reach.induct)
  case init
  show ?case by (simp add: bus_inv_def bus_init_def newEventBus_def busy_count_def)
next
  case (step s s')
  from step.hyps(2) step.IH show ?case
    by (cases rule: bus_step.cases) (auto intro: bus_inv_methods bus_inv_publish bus_inv_publisher bus_inv_Close bus_inv_closer)
qed

text \<open>
  Property C30. Over all interleavings of callers, publishers and closers: the counter of submissions is the number
  of publishers between admission and the end of \<^verbatim>\<open>Submit\<close>; once an owned executor is stopped or a \<^verbatim>\<open>Close\<close> has
  returned there is none of them, every later submission would need a new admission and the bus refuses it, and the
  table of handlers is empty; a closer that sleeps always has a publisher or another closer that will wake it.
\<close>

theorem close_is_a_barrier:
  assumes "bus_reach ex own s"
  shows "inFlightSubmissions (bus s) = int (length (filter busy (publishers s))) \<and>
    (executor_stopped s \<or> X_Done \<in> set (closers s) \<longrightarrow> filter busy (publishers s) = [] \<and> handlers (bus s) = Map.empty \<and>
       (\<forall>t. fst (beginAsyncPublish t (bus s)) = Inl ErrEventBusClosed)) \<and>
    (X_Done \<in> set (closers s) \<longrightarrow> eb_state (bus s) = eventBusClosed) \<and>
    (X_Wait False \<in> set (closers s) \<longrightarrow> (\<exists>p\<in>set (publishers s). busy p)) \<and>
    (X_Join False \<in> set (closers s) \<longrightarrow> (\<exists>p\<in>set (closers s). worker p))"
proof (intro conjI impI)
  note inv = bus_inv_reach [OF assms]
  show n: "inFlightSubmissions (bus s) = int (length (filter busy (publishers s)))"
    using inv by (simp add: bus_inv_def busy_count_def)
  have st: "eb_state (bus s) = eventBusClosing \<and> closing_ok s \<or>
      eb_state (bus s) = eventBusClosed \<and> inFlightSubmissions (bus s) = 0 \<and> handlers (bus s) = Map.empty \<and> set (closers s) \<subseteq> {X_Join True, X_Done}"
    if "executor_stopped s \<or> x \<in> set (closers s)" for x
    using inv that by (cases "eb_state (bus s)") (auto simp: bus_inv_def)
  {
    assume a: "executor_stopped s \<or> X_Done \<in> set (closers s)"
    have b: "inFlightSubmissions (bus s) = 0 \<and> handlers (bus s) = Map.empty \<and> eb_state (bus s) \<noteq> eventBusOpen"
      using st [OF a] a by (auto simp: closing_ok_def)
    then show "filter busy (publishers s) = []" "handlers (bus s) = Map.empty" using n by simp_all
    from b show "\<forall>t. fst (beginAsyncPublish t (bus s)) = Inl ErrEventBusClosed" by (simp add: beginAsyncPublish_def)
  next
    assume a: "X_Done \<in> set (closers s)"
    with st [OF disjI2 [OF a]] show "eb_state (bus s) = eventBusClosed" by (auto simp: closing_ok_def)
  next
    assume a: "X_Wait False \<in> set (closers s)"
    then have "0 < inFlightSubmissions (bus s)" using st [OF disjI2 [OF a]] by (auto simp: closing_ok_def)
    then have "filter busy (publishers s) \<noteq> []" using n by auto
    then show "\<exists>p\<in>set (publishers s). busy p" by (auto simp: filter_empty_conv)
  next
    assume a: "X_Join False \<in> set (closers s)"
    then have "length (filter worker (closers s)) = 1" using st [OF disjI2 [OF a]] by (auto simp: closing_ok_def)
    then have "filter worker (closers s) \<noteq> []" by auto
    then show "\<exists>p\<in>set (closers s). worker p" by (auto simp: filter_empty_conv)
  }
qed

text \<open>Concrete runs.\<close>

datatype 'h bus_action = DoSub EventType 'h | DoPub EventType | DoPubStep submit_result nat | DoClose | DoCloseStep nat

fun replay_bus :: "'h bus_action list \<Rightarrow> 'h bsys \<Rightarrow> 'h bsys option" where
  "replay_bus [] s = Some s"
| "replay_bus (DoSub t h # as) s = replay_bus as (on_bus (SubscribeChecked t (Some h)) s)"
| "replay_bus (DoPub t # as) s = replay_bus as (PublishChecked (Some t) s)"
| "replay_bus (DoPubStep r k # as) s =
     (if k < length (publishers s) then Option.bind (pub_step r k s) (replay_bus as) else None)"
| "replay_bus (DoClose # as) s = replay_bus as (Close_begin s)"
| "replay_bus (DoCloseStep k # as) s =
     (if k < length (closers s) then Option.bind (close_step k s) (replay_bus as) else None)"

lemma replay_bus_reach: "replay_bus as s = Some s' \<Longrightarrow> bus_reach ex own s \<Longrightarrow> bus_reach ex own s'"
proof (induction as s rule: replay_bus.induct)
  case (4 r k as s)
  then show ?case by (auto split: if_splits bind_splits intro: bus_reach.step bus_step.publisher)
next
  case (6 k as s)
  then show ?case by (auto split: if_splits bind_splits intro: bus_reach.step bus_step.closer)
qed (auto intro: bus_reach.step bus_step.subscribe bus_step.publish bus_step.close)

definition close_script :: "char bus_action list" where
  "close_script = [DoSub 1 CHR ''h'', DoPub 1, DoClose, DoClose, DoPubStep SubmitOk 0, DoPubStep SubmitOk 0, DoCloseStep 0, DoCloseStep 0]"

theorem close_is_a_barrier_witness:
  "case replay_bus close_script (bus_init True True) of
     None \<Rightarrow> False
   | Some s \<Rightarrow> executor_stopped s \<and> submitted s = [[CHR ''h'']] \<and> filter busy (publishers s) = [] \<and> handlers (bus s) = Map.empty"
proof -
  have "case replay_bus close_script (bus_init True True) of None \<Rightarrow> False | Some s \<Rightarrow> executor_stopped s \<and> submitted s = [[CHR ''h'']]"
    by code_simp
  then obtain s where s: "replay_bus close_script (bus_init True True) = Some s" "executor_stopped s" "submitted s = [[CHR ''h'']]"
    by (auto split: option.splits)
  then have "bus_reach True True s" using replay_bus_reach bus_reach.init by blast
  from close_is_a_barrier [OF this] s show ?thesis by simp
qed

section \<open>Subscriptions refine a ledger\<close>

text \<open>
  The specification: one list of entries (handle, event type, handler) in the order of subscription and the number
  of handles given out. The table of the code is split by event type and edited in place.
\<close>

type_synonym 'h ledger = "(SubscriptionID \<times> EventType \<times> 'h) list"

datatype 'h bus_op = Op_Subscribe EventType "'h option" | Op_Unsubscribe SubscriptionID | Op_PublishSync "EventType option"

datatype 'h bus_out = Out_Subscribe "bus_error + SubscriptionID" | Out_Unsubscribe "bus_error + bool" | Out_Called "bus_error + 'h list"

fun ledger_step :: "'h bus_op \<Rightarrow> nat \<times> 'h ledger \<Rightarrow> 'h bus_out \<times> nat \<times> 'h ledger" where
  "ledger_step (Op_Subscribe t None) (n, L) = (Out_Subscribe (Inl ErrEventBusInvalidHandler), n, L)"
| "ledger_step (Op_Subscribe t (Some f)) (n, L) = (Out_Subscribe (Inr (of_nat (Suc n))), Suc n, L @ [(of_nat (Suc n), t, f)])"
| "ledger_step (Op_Unsubscribe i) (n, L) =
     (if i = 0 then (Out_Unsubscribe (Inl ErrEventBusInvalidSubscription), n, L)
      else (Out_Unsubscribe (Inr (i \<in> fst ` set L)), n, filter (\<lambda>x. fst x \<noteq> i) L))"
| "ledger_step (Op_PublishSync None) (n, L) = (Out_Called (Inl ErrEventBusInvalidEvent), n, L)"
| "ledger_step (Op_PublishSync (Some t)) (n, L) = (Out_Called (Inr (map (\<lambda>x. snd (snd x)) (filter (\<lambda>x. fst (snd x) = t) L))), n, L)"

fun ledger_run :: "'h bus_op list \<Rightarrow> nat \<times> 'h ledger \<Rightarrow> 'h bus_out list" where
  "ledger_run [] L = []"
| "ledger_run (a # as) L = (case ledger_step a L of (r, L) \<Rightarrow> r # ledger_run as L)"

text \<open>The code on the same operations; the range over the map visits its keys in any order.\<close>

inductive bus_run :: "'h EventBus \<Rightarrow> 'h bus_op list \<Rightarrow> 'h bus_out list \<Rightarrow> bool" where
  finish: "bus_run b [] []"
| subscribe: "SubscribeChecked t h b = (r, b') \<Longrightarrow> bus_run b' as rs \<Longrightarrow> bus_run b (Op_Subscribe t h # as) (Out_Subscribe r # rs)"
| unsubscribe: "set ts = dom (handlers b) \<Longrightarrow> UnsubscribeChecked ts i b = (r, b') \<Longrightarrow> bus_run b' as rs \<Longrightarrow>
    bus_run b (Op_Unsubscribe i # as) (Out_Unsubscribe r # rs)"
| publish: "PublishSyncChecked pn e b = (r, b') \<Longrightarrow> bus_run b' as rs \<Longrightarrow> bus_run b (Op_PublishSync e # as) (Out_Called r # rs)"

definition entry_sub :: "SubscriptionID \<times> EventType \<times> 'h \<Rightarrow> 'h subscription" where
  "entry_sub x = \<lparr>sub_id = fst x, sub_fn = snd (snd x)\<rparr>"

definition ledger_rel :: "'h EventBus \<Rightarrow> nat \<Rightarrow> 'h ledger \<Rightarrow> bool" where
  "ledger_rel b n L \<longleftrightarrow> eb_state b = eventBusOpen \<and> nextID b = of_nat n \<and>
     (\<forall>t. subs_of t b = map entry_sub (filter (\<lambda>x. fst (snd x) = t) L)) \<and>
     distinct (map fst L) \<and> (\<forall>x\<in>set L. \<exists>k\<le>n. fst x = of_nat k)"

lemma remove_sub_None: "remove_sub i xs = None \<longleftrightarrow> i \<notin> sub_id ` set xs"
  by (induction xs) auto

lemma remove_sub_Some: "distinct (map sub_id xs) \<Longrightarrow> remove_sub i xs = Some ys \<Longrightarrow> ys = filter (\<lambda>x. sub_id x \<noteq> i) xs \<and> i \<in> sub_id ` set xs"
proof (induction xs arbitrary: ys)
  case (Cons x xs)
  show ?case
  proof (cases "sub_id x = i")
    case True
    then have "filter (\<lambda>x. sub_id x \<noteq> i) xs = xs" using Cons.prems(1) by (auto simp: filter_id_conv image_iff)
    with True Cons.prems show ?thesis by simp
  qed (use Cons in auto)
qed simp

lemma subs_of_upd: "subs_of t (b\<lparr>handlers := (handlers b)(u := if subs = [] then None else Some subs)\<rparr>) = (if t = u then subs else subs_of t b)"
  by (simp add: subs_of_def)

lemma unsubscribe_loop_found:
  assumes "\<And>t. distinct (map sub_id (subs_of t b))" "\<And>t u. i \<in> sub_id ` set (subs_of t b) \<Longrightarrow> i \<in> sub_id ` set (subs_of u b) \<Longrightarrow> t = u"
    "t \<in> set ts" "i \<in> sub_id ` set (subs_of t b)"
  shows "fst (unsubscribe_loop ts i b)" "subs_of u (snd (unsubscribe_loop ts i b)) = filter (\<lambda>x. sub_id x \<noteq> i) (subs_of u b)"
proof -
  have "fst (unsubscribe_loop ts i b) \<and> subs_of u (snd (unsubscribe_loop ts i b)) = filter (\<lambda>x. sub_id x \<noteq> i) (subs_of u b)"
    using assms(3)
  proof (induction ts)
    case (Cons v ts)
    show ?case
    proof (cases "remove_sub i (subs_of v b)")
      case None
      then have "v \<noteq> t" using assms(4) by (auto simp: remove_sub_None)
      with None Cons show ?thesis by simp
    next
      case (Some ys)
      note ys = remove_sub_Some [OF assms(1) Some]
      have "i \<notin> sub_id ` set (subs_of u b)" if "u \<noteq> v" using assms(2) [of u v] ys that by blast
      then have "filter (\<lambda>x. sub_id x \<noteq> i) (subs_of u b) = subs_of u b" if "u \<noteq> v" using that by (auto simp: filter_id_conv)
      then show ?thesis using Some ys by (simp add: subs_of_upd)
    qed
  qed simp
  then show "fst (unsubscribe_loop ts i b)" "subs_of u (snd (unsubscribe_loop ts i b)) = filter (\<lambda>x. sub_id x \<noteq> i) (subs_of u b)" by simp_all
qed

lemma unsubscribe_loop_absent: "(\<And>t. t \<in> set ts \<Longrightarrow> i \<notin> sub_id ` set (subs_of t b)) \<Longrightarrow> unsubscribe_loop ts i b = (False, b)"
proof (induction ts)
  case (Cons t ts)
  then have "remove_sub i (subs_of t b) = None" by (simp add: remove_sub_None)
  with Cons show ?case by simp
qed simp

lemma sub_id_entry [simp]: "sub_id (entry_sub x) = fst x" "sub_fn (entry_sub x) = snd (snd x)"
  by (simp_all add: entry_sub_def)

lemma ledger_relD:
  assumes "ledger_rel b n L"
  shows "eb_state b = eventBusOpen" "nextID b = of_nat n" "subs_of t b = map entry_sub (filter (\<lambda>x. fst (snd x) = t) L)"
    "distinct (map fst L)" "x \<in> set L \<Longrightarrow> \<exists>k\<le>n. fst x = of_nat k"
  using assms by (auto simp: ledger_rel_def)

lemma ledger_ids: "ledger_rel b n L \<Longrightarrow> i \<in> sub_id ` set (subs_of t b) \<longleftrightarrow> (\<exists>x\<in>set L. fst x = i \<and> fst (snd x) = t)"
  by (simp add: ledger_relD(3) image_image) blast

lemma ledger_distinct:
  assumes "ledger_rel b n L"
  shows "distinct (map sub_id (subs_of t b))"
    "i \<in> sub_id ` set (subs_of t b) \<Longrightarrow> i \<in> sub_id ` set (subs_of u b) \<Longrightarrow> t = u"
proof -
  have "inj_on fst (set L)" using ledger_relD(4) [OF assms] by (simp add: distinct_map)
  then show "i \<in> sub_id ` set (subs_of t b) \<Longrightarrow> i \<in> sub_id ` set (subs_of u b) \<Longrightarrow> t = u"
    unfolding ledger_ids [OF assms] by (metis inj_onD)
  have "map sub_id (subs_of t b) = map fst (filter (\<lambda>x. fst (snd x) = t) L)" by (simp add: ledger_relD(3) [OF assms] comp_def)
  then show "distinct (map sub_id (subs_of t b))" using distinct_map_filter [OF ledger_relD(4) [OF assms]] by simp
qed

lemma ledger_subscribe:
  assumes rel: "ledger_rel b n L" and n: "Suc n < 2 ^ 64" and st: "SubscribeChecked t h b = (r, b')"
  shows "\<exists>n' L'. ledger_step (Op_Subscribe t h) (n, L) = (Out_Subscribe r, n', L') \<and> ledger_rel b' n' L' \<and> n' \<le> Suc n"
proof (cases h)
  case None
  then show ?thesis using rel st by (auto simp: SubscribeChecked_def)
next
  case (Some f)
  let ?i = "of_nat (Suc n) :: SubscriptionID"
  have r: "r = Inr ?i" "b' = b\<lparr>nextID := ?i, handlers := (handlers b)(t \<mapsto> subs_of t b @ [\<lparr>sub_id = ?i, sub_fn = f\<rparr>])\<rparr>"
    using st Some ledger_relD(1,2) [OF rel] by (auto simp: SubscribeChecked_def Let_def add.commute)
  have fresh: "of_nat k \<noteq> ?i" if "k \<le> n" for k
  proof -
    have "unat (of_nat k :: SubscriptionID) = k" "unat ?i = Suc n" using that n by (simp_all only: unat_of_nat) (simp_all add: take_bit_nat_eq_self)
    then show ?thesis using that by auto
  qed
  then have "?i \<notin> fst ` set L" using ledger_relD(5) [OF rel] by force
  then have "distinct (map fst (L @ [(?i, t, f)]))" using ledger_relD(4) [OF rel] by simp
  moreover have "subs_of u b' = map entry_sub (filter (\<lambda>x. fst (snd x) = u) (L @ [(?i, t, f)]))" for u
  proof -
    have "subs_of u b' = (if u = t then subs_of t b @ [\<lparr>sub_id = ?i, sub_fn = f\<rparr>] else subs_of u b)"
      unfolding r(2) by (simp add: subs_of_def)
    then show ?thesis unfolding ledger_relD(3) [OF rel] by (auto simp: entry_sub_def)
  qed
  moreover have "\<forall>x\<in>set (L @ [(?i, t, f)]). \<exists>k\<le>Suc n. fst x = of_nat k" using ledger_relD(5) [OF rel] le_SucI
    by (metis (no_types, lifting) Un_iff empty_iff fst_conv insert_iff le_refl list.set set_append)
  ultimately have "ledger_rel b' (Suc n) (L @ [(?i, t, f)])"
    using ledger_relD(1) [OF rel] unfolding ledger_rel_def by (simp add: r(2))
  then show ?thesis using Some r(1) by simp
qed

lemma ledger_unsubscribe:
  assumes rel: "ledger_rel b n L" and ts: "set ts = dom (handlers b)" and st: "UnsubscribeChecked ts i b = (r, b')"
  shows "\<exists>L'. ledger_step (Op_Unsubscribe i) (n, L) = (Out_Unsubscribe r, n, L') \<and> ledger_rel b' n L'"
proof (cases "i = 0")
  case True
  then show ?thesis using rel st by (auto simp: UnsubscribeChecked_def)
next
  case False
  have r: "r = Inr (fst (unsubscribe_loop ts i b))" "b' = snd (unsubscribe_loop ts i b)"
    using st False ledger_relD(1) [OF rel] by (auto simp: UnsubscribeChecked_def split: prod.splits)
  have in_ts: "t \<in> set ts" if "i \<in> sub_id ` set (subs_of t b)" for t
    using that ts by (auto simp: subs_of_def split: option.splits)
  let ?L = "filter (\<lambda>x. fst x \<noteq> i) L"
  have subs: "filter (\<lambda>x. sub_id x \<noteq> i) (subs_of t b) = map entry_sub (filter (\<lambda>x. fst (snd x) = t) ?L)" for t
    by (simp add: ledger_relD(3) [OF rel] filter_map comp_def conj_commute)
  have "fst (unsubscribe_loop ts i b) = (i \<in> fst ` set L) \<and> (\<forall>t. subs_of t b' = filter (\<lambda>x. sub_id x \<noteq> i) (subs_of t b))"
  proof (cases "i \<in> fst ` set L")
    case True
    then obtain t where t: "i \<in> sub_id ` set (subs_of t b)" using ledger_ids [OF rel] by force
    show ?thesis using unsubscribe_loop_found [OF ledger_distinct [OF rel] in_ts [OF t] t] True r(2) by simp
  next
    case False
    then have n: "i \<notin> sub_id ` set (subs_of t b)" for t using ledger_ids [OF rel] by force
    then have "filter (\<lambda>x. sub_id x \<noteq> i) (subs_of t b) = subs_of t b" for t by (auto simp: filter_id_conv image_iff)
    then show ?thesis using unsubscribe_loop_absent [of ts i b] n False r(2) by simp
  qed
  then have a: "fst (unsubscribe_loop ts i b) = (i \<in> fst ` set L)" and s: "\<And>t. subs_of t b' = map entry_sub (filter (\<lambda>x. fst (snd x) = t) ?L)"
    by (simp_all only: subs)
  have "eb_state b' = eventBusOpen" "nextID b' = of_nat n" using ledger_relD(1,2) [OF rel] by (simp_all add: r(2) unsubscribe_loop_frame)
  moreover have "\<forall>x\<in>set ?L. \<exists>k\<le>n. fst x = of_nat k" using ledger_relD(5) [OF rel] by auto
  moreover have "distinct (map fst ?L)" by (rule distinct_map_filter [OF ledger_relD(4) [OF rel]])
  ultimately have "ledger_rel b' n ?L" using s unfolding ledger_rel_def by blast
  then show ?thesis using False r(1) a by simp
qed

lemma runHandlers_called: "fst (runHandlers pn hs b) = hs"
  by (induction pn hs b rule: runHandlers.induct) (simp_all add: Let_def split_beta)

lemma ledger_publish:
  assumes rel: "ledger_rel b n L" and st: "PublishSyncChecked pn e b = (r, b')"
  shows "ledger_step (Op_PublishSync e) (n, L) = (Out_Called r, n, L) \<and> ledger_rel b' n L"
proof (cases e)
  case None
  then show ?thesis using rel st by (auto simp: PublishSyncChecked_def)
next
  case (Some t)
  let ?hs = "snapshotHandlersLocked t b"
  have r: "r = Inr ?hs" "b' = snd (runHandlers pn ?hs b)"
    using st Some ledger_relD(1) [OF rel] runHandlers_called [of pn ?hs b] by (auto simp: PublishSyncChecked_def split: prod.splits)
  have "?hs = map (\<lambda>x. snd (snd x)) (filter (\<lambda>x. fst (snd x) = t) L)"
    by (simp add: snapshotHandlersLocked_def ledger_relD(3) [OF rel])
  moreover have "ledger_rel b' n L" using rel by (simp add: ledger_rel_def subs_of_def r(2) runHandlers_frame)
  ultimately show ?thesis using Some r(1) by simp
qed

lemma ledger_simulates:
  assumes "bus_run b as rs" "ledger_rel b n L" "n + length as < 2 ^ 64"
  shows "rs = ledger_run as (n, L)"
  using assms
proof (induction arbitrary: n L rule: bus_run.induct)
  case (subscribe t h b r b' as rs)
  from ledger_subscribe [OF subscribe.prems(1) _ subscribe.hyps(1)] subscribe.prems(2)
  obtain n' L' where s: "ledger_step (Op_Subscribe t h) (n, L) = (Out_Subscribe r, n', L')" "ledger_rel b' n' L'" "n' \<le> Suc n" by auto
  with subscribe.IH [OF s(2)] subscribe.prems(2) show ?case by simp
next
  case (unsubscribe ts b i r b' as rs)
  from ledger_unsubscribe [OF unsubscribe.prems(1) unsubscribe.hyps(1,2)]
  obtain L' where s: "ledger_step (Op_Unsubscribe i) (n, L) = (Out_Unsubscribe r, n, L')" "ledger_rel b' n L'" by auto
  with unsubscribe.IH [OF s(2)] unsubscribe.prems(2) show ?case by simp
next
  case (publish pn e b r b' as rs)
  note s = ledger_publish [OF publish.prems(1) publish.hyps(1)]
  with publish.IH [of n L] publish.prems(2) show ?case by simp
qed simp

text \<open>
  Property C31. Subscriptions refine an ordered ledger: whatever order the range over the map of handlers takes and
  whichever handlers panic, a sequence of Subscribe, Unsubscribe and PublishSync calls on a new bus answers exactly
  as the ledger does: handles are 1, 2, 3 and so on, Unsubscribe removes that one entry, a publication calls the
  current handlers of its type, each once, in the order of subscription.
\<close>

theorem event_bus_refines_ledger:
  assumes "bus_run (newEventBus ex own) as rs" "length as < 2 ^ 64"
  shows "rs = ledger_run as (0, [])"
  by (rule ledger_simulates [OF assms(1)]) (use assms(2) in \<open>simp_all add: ledger_rel_def newEventBus_def subs_of_def\<close>)

definition ledger_ops :: "char bus_op list" where
  "ledger_ops = [Op_Subscribe 7 (Some CHR ''a''), Op_Subscribe 7 (Some CHR ''b''), Op_Unsubscribe 1, Op_PublishSync (Some 7)]"

theorem event_bus_refines_ledger_witness:
  "\<exists>rs. bus_run (NewEventBus :: char EventBus) ledger_ops rs \<and>
     rs = [Out_Subscribe (Inr 1), Out_Subscribe (Inr 2), Out_Unsubscribe (Inr True), Out_Called (Inr ''b'')]"
proof -
  define b2 :: "char EventBus" where "b2 = snd (SubscribeChecked 7 (Some CHR ''b'') (snd (SubscribeChecked 7 (Some CHR ''a'') NewEventBus)))"
  have d: "set [7] = dom (handlers b2)"
    by (auto simp: b2_def NewEventBus_def newEventBus_def SubscribeChecked_def split: if_splits)
  have "\<exists>rs. bus_run (NewEventBus :: char EventBus) ledger_ops rs"
    unfolding ledger_ops_def
    apply (rule exI)
    apply (rule bus_run.subscribe [OF prod.collapse [symmetric]])
    apply (rule bus_run.subscribe [OF prod.collapse [symmetric]])
    apply (rule bus_run.unsubscribe [OF d [unfolded b2_def] prod.collapse [symmetric]])
    apply (rule bus_run.publish [where pn = "\<lambda>h. True", OF prod.collapse [symmetric]])
    apply (rule bus_run.finish)
    done
  then obtain rs where rs: "bus_run (NewEventBus :: char EventBus) ledger_ops rs" by blast
  have "rs = ledger_run ledger_ops (0, [])"
    by (rule event_bus_refines_ledger [OF rs [unfolded NewEventBus_def]]) (simp add: ledger_ops_def)
  then show ?thesis using rs by (auto simp: ledger_ops_def)
qed

section \<open>The process-wide bus\<close>

text \<open>Buses are references: positions in the list of all buses made so far.\<close>

record 'h globals =
  buses :: "'h bsys list"
  globalEventBus :: "nat option"

definition alloc_bus :: "bool \<Rightarrow> 'h globals \<Rightarrow> nat \<times> 'h globals" where
  "alloc_bus ex g = (length (buses g), g\<lparr>buses := buses g @ [bus_init ex False], globalEventBus := Some (length (buses g))\<rparr>)"

definition close_previous :: "nat option \<Rightarrow> 'h globals \<Rightarrow> 'h globals" where
  "close_previous p g = (case p of None \<Rightarrow> g | Some i \<Rightarrow> g\<lparr>buses := (buses g)[i := Close_begin (buses g ! i)]\<rparr>)"

definition GetGlobalEventBus :: "'h globals \<Rightarrow> nat \<times> 'h globals" where
  "GetGlobalEventBus g = (case globalEventBus g of None \<Rightarrow> alloc_bus False g | Some i \<Rightarrow> (i, g))"

definition RebuildGlobalEventBus :: "bool \<Rightarrow> 'h globals \<Rightarrow> nat \<times> 'h globals" where
  "RebuildGlobalEventBus ex g = (case alloc_bus ex g of (i, g') \<Rightarrow> (i, close_previous (globalEventBus g) g'))"

definition CloseGlobalEventBus :: "'h globals \<Rightarrow> 'h globals" where
  "CloseGlobalEventBus g = close_previous (globalEventBus g) (g\<lparr>globalEventBus := None\<rparr>)"

definition globals_ok :: "'h globals \<Rightarrow> bool" where
  "globals_ok g \<longleftrightarrow> (\<forall>i. globalEventBus g = Some i \<longrightarrow> i < length (buses g))"

text \<open>After a close or a rebuild the process gets a usable bus again, and the bus it had before is closing or closed.\<close>

lemma global_bus_renewed:
  assumes "globals_ok g"
  shows "case GetGlobalEventBus (CloseGlobalEventBus g) of (i, g') \<Rightarrow> globals_ok g' \<and> eb_state (bus (buses g' ! i)) = eventBusOpen"
    and "case RebuildGlobalEventBus ex g of (i, g') \<Rightarrow> globals_ok g' \<and> globalEventBus g' = Some i \<and> eb_state (bus (buses g' ! i)) = eventBusOpen \<and>
           (\<forall>j. globalEventBus g = Some j \<longrightarrow> j \<noteq> i \<and> eb_state (bus (buses g' ! j)) \<noteq> eventBusOpen)"
proof -
  note d = close_previous_def alloc_bus_def globals_ok_def bus_init_def newEventBus_def
  show "case GetGlobalEventBus (CloseGlobalEventBus g) of (i, g') \<Rightarrow> globals_ok g' \<and> eb_state (bus (buses g' ! i)) = eventBusOpen"
    using assms by (auto simp: GetGlobalEventBus_def CloseGlobalEventBus_def d nth_append split: option.split)
  have c: "eb_state (bus (Close_begin s)) \<noteq> eventBusOpen" for s :: "'a bsys"
    by (cases "eb_state (bus s)") (auto simp: Close_begin_def Let_def close_clear_def)
  show "case RebuildGlobalEventBus ex g of (i, g') \<Rightarrow> globals_ok g' \<and> globalEventBus g' = Some i \<and> eb_state (bus (buses g' ! i)) = eventBusOpen \<and>
           (\<forall>j. globalEventBus g = Some j \<longrightarrow> j \<noteq> i \<and> eb_state (bus (buses g' ! j)) \<noteq> eventBusOpen)"
    using assms c by (auto simp: RebuildGlobalEventBus_def d nth_append nth_list_update split: option.split)
qed

end
