(* ===== verification/Ddos.thy ===== *)
theory Ddos
  imports Prelude
begin

text \<open>
  \<^verbatim>\<open>zNet/ddosProtection.go\<close>: connection, packet and traffic limits, the blacklist, and their composition.

  A record of the code is reached through a pointer kept in a concurrent map and changed in place; here the map holds the
  record itself and an operation stores the changed record back. Calls of the limiters follow one another; the code
  documents its clean-up as best effort when calls overlap. The counter of the traffic limiter, which is a
  compare-and-swap loop, is modelled with its interleavings. The clock is an argument,
  one for every reading: \<open>n0\<close> by the blacklist, then \<open>n1\<close> by the clean-up, \<open>n2\<close> by the check, \<open>n3\<close> by a ban.
\<close>

section \<open>Sliding windows\<close>

type_synonym ipRecord = "time list"

definition newIPRecord :: ipRecord where
  "newIPRecord = []"

definition in_window :: "duration \<Rightarrow> time \<Rightarrow> time \<Rightarrow> bool" where
  "in_window w now t \<longleftrightarrow> time_Sub now t < w"

definition addAndCheck :: "time \<Rightarrow> duration \<Rightarrow> int \<Rightarrow> ipRecord \<Rightarrow> bool \<times> ipRecord" where
  "addAndCheck now w maxCount r =
     (let valid = filter (in_window w now) r
      in if int (length valid) \<ge> maxCount then (False, valid) else (True, valid @ [now]))"

definition cleanup_visit :: "('m, string, ipRecord) tmap \<Rightarrow> time \<Rightarrow> duration \<Rightarrow> string \<times> ipRecord \<Rightarrow> 'm \<Rightarrow> 'm" where
  "cleanup_visit T now w e m = (if \<exists>t\<in>set (snd e). in_window w now t then m else tm_delete T m (fst e))"

definition cleanupIPRecords :: "('m, string, ipRecord) tmap \<Rightarrow> time \<Rightarrow> duration \<Rightarrow> 'm \<Rightarrow> 'm" where
  "cleanupIPRecords T now w m = fold (cleanup_visit T now w) (tm_range T m) m"

text \<open>\<^verbatim>\<open>UnixNano\<close>: nanoseconds since 1970, an \<^verbatim>\<open>int64\<close>.\<close>

definition unix_epoch :: time where
  "unix_epoch = 62135596800 * 10 ^ 9"

definition UnixNano :: "time \<Rightarrow> int" where
  "UnixNano t = wrap64 (t - unix_epoch)"

record 'm limiter =
  records :: 'm
  maxCount :: int
  timeWindow :: duration
  lastCleanup :: int

definition maybeCleanupIPRecords :: "('m, string, ipRecord) tmap \<Rightarrow> time \<Rightarrow> 'm limiter \<Rightarrow> 'm limiter" where
  "maybeCleanupIPRecords T now l =
     (if wrap64 (UnixNano now - lastCleanup l) > timeWindow l
      then l\<lparr>lastCleanup := UnixNano now, records := cleanupIPRecords T now (timeWindow l) (records l)\<rparr>
      else l)"

definition NewConnectionLimiter :: "('m, string, ipRecord) tmap \<Rightarrow> int \<Rightarrow> duration \<Rightarrow> 'm limiter" where
  "NewConnectionLimiter T n w = \<lparr>records = tm_new T, maxCount = n, timeWindow = w, lastCleanup = 0\<rparr>"

definition NewPacketLimiter :: "('m, string, ipRecord) tmap \<Rightarrow> int \<Rightarrow> duration \<Rightarrow> 'm limiter" where
  "NewPacketLimiter T n w = \<lparr>records = tm_new T, maxCount = n, timeWindow = w, lastCleanup = 0\<rparr>"

text \<open>\<^verbatim>\<open>ConnectionLimiter.AllowConnection\<close> and \<^verbatim>\<open>PacketLimiter.AllowPacket\<close> are the same code on two types.\<close>

definition limiter_Allow :: "('m, string, ipRecord) tmap \<Rightarrow> time \<Rightarrow> time \<Rightarrow> string \<Rightarrow> 'm limiter \<Rightarrow> bool \<times> 'm limiter" where
  "limiter_Allow T n1 n2 ip l =
     (let l = maybeCleanupIPRecords T n1 l in
      case tm_load_or_store T (records l) ip newIPRecord of
        ((r, _), m) \<Rightarrow>
          (case addAndCheck n2 (timeWindow l) (maxCount l) r of
             (ok, r) \<Rightarrow> (ok, l\<lparr>records := tm_store T m ip r\<rparr>)))"

section \<open>Blacklist\<close>

record 'm IPBlacklist =
  blacklistedIPs :: 'm
  banDuration :: duration

definition NewIPBlacklist :: "('m, string, time) tmap \<Rightarrow> duration \<Rightarrow> 'm IPBlacklist" where
  "NewIPBlacklist T d = \<lparr>blacklistedIPs = tm_new T, banDuration = d\<rparr>"

definition IsBlacklisted :: "('m, string, time) tmap \<Rightarrow> time \<Rightarrow> string \<Rightarrow> 'm IPBlacklist \<Rightarrow> bool \<times> 'm IPBlacklist" where
  "IsBlacklisted T now ip b =
     (case tm_load T (blacklistedIPs b) ip of
        None \<Rightarrow> (False, b)
      | Some banTime \<Rightarrow>
          if time_Sub now banTime > banDuration b then (False, b\<lparr>blacklistedIPs := tm_delete T (blacklistedIPs b) ip\<rparr>)
          else (True, b))"

definition BlacklistIP :: "('m, string, time) tmap \<Rightarrow> time \<Rightarrow> string \<Rightarrow> 'm IPBlacklist \<Rightarrow> 'm IPBlacklist" where
  "BlacklistIP T now ip b = b\<lparr>blacklistedIPs := tm_store T (blacklistedIPs b) ip now\<rparr>"

section \<open>Traffic\<close>

record 'm TrafficLimiter =
  ipTraffic :: 'm
  maxBytesPerIP :: int
  tl_timeWindow :: duration
  lastReset :: int

definition NewTrafficLimiter :: "('m, string, int) tmap \<Rightarrow> time \<Rightarrow> int \<Rightarrow> duration \<Rightarrow> 'm TrafficLimiter" where
  "NewTrafficLimiter T now n w = \<lparr>ipTraffic = tm_new T, maxBytesPerIP = n, tl_timeWindow = w, lastReset = UnixNano now\<rparr>"

definition traffic_reset :: "('m, string, int) tmap \<Rightarrow> time \<Rightarrow> 'm TrafficLimiter \<Rightarrow> 'm TrafficLimiter" where
  "traffic_reset T now l =
     (if time_Sub now (unix_epoch + lastReset l) > tl_timeWindow l
      then l\<lparr>lastReset := UnixNano now, ipTraffic := fold (\<lambda>e m. tm_delete T m (fst e)) (tm_range T (ipTraffic l)) (ipTraffic l)\<rparr>
      else l)"

text \<open>The loop on the counter when no other call comes between; the interleaved loop is \<open>traffic_step\<close> below.\<close>

definition AllowTraffic :: "('m, string, int) tmap \<Rightarrow> time \<Rightarrow> string \<Rightarrow> int \<Rightarrow> 'm TrafficLimiter \<Rightarrow> bool \<times> 'm TrafficLimiter" where
  "AllowTraffic T now ip bytes l =
     (let l = traffic_reset T now l in
      case tm_load_or_store T (ipTraffic l) ip 0 of
        ((current, _), m) \<Rightarrow>
          let l = l\<lparr>ipTraffic := m\<rparr> in
          if wrap64 (current + bytes) > maxBytesPerIP l then (False, l)
          else (True, l\<lparr>ipTraffic := tm_store T m ip (wrap64 (current + bytes))\<rparr>))"

section \<open>The protection as a whole\<close>

record DDoSConfig =
  MaxConnPerIP :: int
  ConnTimeWindow :: int
  MaxPacketsPerIP :: int
  PacketTimeWindow :: int
  cfg_MaxBytesPerIP :: int
  TrafficTimeWindow :: int
  BanDuration :: int
  WhitelistIPs :: "string list"

definition DefaultDDoSConfig :: DDoSConfig where
  "DefaultDDoSConfig = \<lparr>MaxConnPerIP = 10000, ConnTimeWindow = 600, MaxPacketsPerIP = 10000, PacketTimeWindow = 1,
     cfg_MaxBytesPerIP = 1024 * 1024 * 1024, TrafficTimeWindow = 3600, BanDuration = 60, WhitelistIPs = []\<rparr>"

record ('r, 'b, 't, 'w) ddos_maps =
  rec_map :: "('r, string, ipRecord) tmap"
  ban_map :: "('b, string, time) tmap"
  traffic_map :: "('t, string, int) tmap"
  white_map :: "('w, string, unit) tmap"

record ('r, 'b, 't, 'w) DDoSProtection =
  connectionLimiter :: "'r limiter"
  packetLimiter :: "'r limiter"
  ipBlacklist :: "'b IPBlacklist"
  trafficLimiter :: "'t TrafficLimiter"
  whitelist :: 'w

definition seconds :: "int \<Rightarrow> duration" where
  "seconds n = wrap64 (n * 10 ^ 9)"

definition NewDDoSProtection :: "('r, 'b, 't, 'w) ddos_maps \<Rightarrow> time \<Rightarrow> DDoSConfig option \<Rightarrow> ('r, 'b, 't, 'w) DDoSProtection" where
  "NewDDoSProtection M now cfg =
     (let c = (case cfg of None \<Rightarrow> DefaultDDoSConfig | Some c \<Rightarrow> c)
      in \<lparr>connectionLimiter = NewConnectionLimiter (rec_map M) (MaxConnPerIP c) (seconds (ConnTimeWindow c)),
          packetLimiter = NewPacketLimiter (rec_map M) (MaxPacketsPerIP c) (seconds (PacketTimeWindow c)),
          ipBlacklist = NewIPBlacklist (ban_map M) (seconds (BanDuration c)),
          trafficLimiter = NewTrafficLimiter (traffic_map M) now (cfg_MaxBytesPerIP c) (seconds (TrafficTimeWindow c)),
          whitelist = fold (\<lambda>ip m. tm_store (white_map M) m ip ()) (WhitelistIPs c) (tm_new (white_map M))\<rparr>)"

definition whitelisted :: "('r, 'b, 't, 'w) ddos_maps \<Rightarrow> string \<Rightarrow> ('r, 'b, 't, 'w) DDoSProtection \<Rightarrow> bool" where
  "whitelisted M ip d \<longleftrightarrow> tm_load (white_map M) (whitelist d) ip \<noteq> None"

text \<open>The two guards every method begins with; \<open>k\<close> is the rest of the method.\<close>

definition guarded ::
    "('r, 'b, 't, 'w) ddos_maps \<Rightarrow> time \<Rightarrow> string \<Rightarrow> (('r, 'b, 't, 'w) DDoSProtection \<Rightarrow> bool \<times> ('r, 'b, 't, 'w) DDoSProtection) \<Rightarrow>
     ('r, 'b, 't, 'w) DDoSProtection \<Rightarrow> bool \<times> ('r, 'b, 't, 'w) DDoSProtection" where
  "guarded M now ip k d =
     (if whitelisted M ip d then (True, d)
      else case IsBlacklisted (ban_map M) now ip (ipBlacklist d) of
             (banned, b) \<Rightarrow> let d = d\<lparr>ipBlacklist := b\<rparr> in if banned then (False, d) else k d)"

definition AllowConnection ::
    "('r, 'b, 't, 'w) ddos_maps \<Rightarrow> time \<Rightarrow> time \<Rightarrow> time \<Rightarrow> time \<Rightarrow> string \<Rightarrow> ('r, 'b, 't, 'w) DDoSProtection \<Rightarrow> bool \<times> ('r, 'b, 't, 'w) DDoSProtection" where
  "AllowConnection M n0 n1 n2 n3 ip =
     guarded M n0 ip (\<lambda>d. case limiter_Allow (rec_map M) n1 n2 ip (connectionLimiter d) of
        (ok, l) \<Rightarrow> let d = d\<lparr>connectionLimiter := l\<rparr>
                   in if ok then (True, d) else (False, d\<lparr>ipBlacklist := BlacklistIP (ban_map M) n3 ip (ipBlacklist d)\<rparr>))"

definition AllowPacketFrom ::
    "('r, 'b, 't, 'w) ddos_maps \<Rightarrow> time \<Rightarrow> time \<Rightarrow> time \<Rightarrow> string \<Rightarrow> string \<Rightarrow> ('r, 'b, 't, 'w) DDoSProtection \<Rightarrow> bool \<times> ('r, 'b, 't, 'w) DDoSProtection" where
  "AllowPacketFrom M n0 n1 n2 subject ip =
     guarded M n0 ip (\<lambda>d. case limiter_Allow (rec_map M) n1 n2 subject (packetLimiter d) of (ok, l) \<Rightarrow> (ok, d\<lparr>packetLimiter := l\<rparr>))"

definition AllowTrafficFrom ::
    "('r, 'b, 't, 'w) ddos_maps \<Rightarrow> time \<Rightarrow> time \<Rightarrow> string \<Rightarrow> string \<Rightarrow> int \<Rightarrow> ('r, 'b, 't, 'w) DDoSProtection \<Rightarrow> bool \<times> ('r, 'b, 't, 'w) DDoSProtection" where
  "AllowTrafficFrom M n0 n1 subject ip bytes =
     guarded M n0 ip (\<lambda>d. case AllowTraffic (traffic_map M) n1 subject bytes (trafficLimiter d) of (ok, l) \<Rightarrow> (ok, d\<lparr>trafficLimiter := l\<rparr>))"

definition AllowPacket_ip ::
    "('r, 'b, 't, 'w) ddos_maps \<Rightarrow> time \<Rightarrow> time \<Rightarrow> time \<Rightarrow> string \<Rightarrow> ('r, 'b, 't, 'w) DDoSProtection \<Rightarrow> bool \<times> ('r, 'b, 't, 'w) DDoSProtection" where
  "AllowPacket_ip M n0 n1 n2 ip = AllowPacketFrom M n0 n1 n2 ip ip"

definition AllowTraffic_ip ::
    "('r, 'b, 't, 'w) ddos_maps \<Rightarrow> time \<Rightarrow> time \<Rightarrow> string \<Rightarrow> int \<Rightarrow> ('r, 'b, 't, 'w) DDoSProtection \<Rightarrow> bool \<times> ('r, 'b, 't, 'w) DDoSProtection" where
  "AllowTraffic_ip M n0 n1 ip bytes = AllowTrafficFrom M n0 n1 ip ip bytes"

definition ddos_IsBlacklisted :: "('r, 'b, 't, 'w) ddos_maps \<Rightarrow> time \<Rightarrow> string \<Rightarrow> ('r, 'b, 't, 'w) DDoSProtection \<Rightarrow> bool \<times> ('r, 'b, 't, 'w) DDoSProtection" where
  "ddos_IsBlacklisted M now ip d =
     (case IsBlacklisted (ban_map M) now ip (ipBlacklist d) of (r, b) \<Rightarrow> (r, d\<lparr>ipBlacklist := b\<rparr>))"

definition ddos_BlacklistIP :: "('r, 'b, 't, 'w) ddos_maps \<Rightarrow> time \<Rightarrow> string \<Rightarrow> ('r, 'b, 't, 'w) DDoSProtection \<Rightarrow> ('r, 'b, 't, 'w) DDoSProtection" where
  "ddos_BlacklistIP M now ip d = d\<lparr>ipBlacklist := BlacklistIP (ban_map M) now ip (ipBlacklist d)\<rparr>"

section \<open>A limiter counts exactly\<close>

text \<open>The specification keeps the whole history: the accepted calls, newest last.\<close>

fun limiter_spec :: "int \<Rightarrow> duration \<Rightarrow> (string \<times> time) list \<Rightarrow> (string \<times> time \<times> time) list \<Rightarrow> bool list" where
  "limiter_spec n w H [] = []"
| "limiter_spec n w H ((ip, n1, n2) # cs) =
     (if int (length (filter (\<lambda>(i, t). i = ip \<and> n2 - t < w) H)) < n
      then True # limiter_spec n w (H @ [(ip, n2)]) cs else False # limiter_spec n w H cs)"

fun limiter_run :: "('m, string, ipRecord) tmap \<Rightarrow> 'm limiter \<Rightarrow> (string \<times> time \<times> time) list \<Rightarrow> bool list" where
  "limiter_run T l [] = []"
| "limiter_run T l ((ip, n1, n2) # cs) = (case limiter_Allow T n1 n2 ip l of (ok, l) \<Rightarrow> ok # limiter_run T l cs)"

text \<open>The clock does not go back from one reading to the next.\<close>

fun clock_from :: "time \<Rightarrow> (string \<times> time \<times> time) list \<Rightarrow> bool" where
  "clock_from c [] = True"
| "clock_from c ((ip, n1, n2) # cs) \<longleftrightarrow> c \<le> n1 \<and> n1 \<le> n2 \<and> clock_from n2 cs"

definition rec_of :: "('m, string, ipRecord) tmap \<Rightarrow> 'm limiter \<Rightarrow> string \<Rightarrow> time list" where
  "rec_of T l ip = (case tm_load T (records l) ip of None \<Rightarrow> [] | Some r \<Rightarrow> r)"

definition hist_of :: "(string \<times> time) list \<Rightarrow> string \<Rightarrow> time list" where
  "hist_of H ip = map snd (filter (\<lambda>e. fst e = ip) H)"

text \<open>From the time \<open>c\<close> on, the records and the history look the same through the window.\<close>

definition same_view :: "('m, string, ipRecord) tmap \<Rightarrow> time \<Rightarrow> 'm limiter \<Rightarrow> (string \<times> time) list \<Rightarrow> bool" where
  "same_view T c l H \<longleftrightarrow>
     (\<forall>ip now. c \<le> now \<longrightarrow> filter (in_window (timeWindow l) now) (rec_of T l ip) = filter (in_window (timeWindow l) now) (hist_of H ip)) \<and>
     (\<forall>ip. \<forall>t\<in>set (rec_of T l ip) \<union> set (hist_of H ip). t \<le> c)"

lemma in_window_past: "t \<le> now \<Longrightarrow> w \<le> max_duration \<Longrightarrow> in_window w now t \<longleftrightarrow> now - t < w"
  by (auto simp: in_window_def time_Sub_def max_duration_def min_duration_def)

lemma in_window_anti: "in_window w n' t \<Longrightarrow> n \<le> n' \<Longrightarrow> in_window w n t"
  by (auto simp: in_window_def time_Sub_def)

lemma filter_window_later: "n \<le> n' \<Longrightarrow> filter (in_window w n') (filter (in_window w n) xs) = filter (in_window w n') xs"
  by (simp add: filter_filter) (metis in_window_anti)

lemma cleanup_load:
  assumes "tm_laws T"
  shows "tm_load T (cleanupIPRecords T now w m) ip =
    (case tm_load T m ip of None \<Rightarrow> None | Some r \<Rightarrow> if \<exists>t\<in>set r. in_window w now t then Some r else None)"
proof -
  have fold_load: "tm_load T (fold (cleanup_visit T now w) es m0) ip =
      (if \<exists>r. (ip, r) \<in> set es \<and> \<not> (\<exists>t\<in>set r. in_window w now t) then None else tm_load T m0 ip)" for es m0
    by (induction es arbitrary: m0) (auto simp: cleanup_visit_def typed_map.load_delete [OF typed_map.intro [OF assms]])
  show ?thesis unfolding cleanupIPRecords_def fold_load typed_map.mem_range [OF typed_map.intro [OF assms]]
    by (auto split: option.split)
qed

lemma same_view_filter: "same_view T c l H \<Longrightarrow> c \<le> now \<Longrightarrow>
    filter (in_window (timeWindow l) now) (rec_of T l ip) = filter (in_window (timeWindow l) now) (hist_of H ip)"
  by (simp add: same_view_def)

lemma same_view_past: "same_view T c l H \<Longrightarrow> t \<in> set (rec_of T l ip) \<or> t \<in> set (hist_of H ip) \<Longrightarrow> c \<le> n \<Longrightarrow> t \<le> n"
  unfolding same_view_def by (meson UnCI order_trans)

lemma same_viewI:
  assumes "\<And>ip now. c \<le> now \<Longrightarrow> filter (in_window (timeWindow l) now) (rec_of T l ip) = filter (in_window (timeWindow l) now) (hist_of H ip)"
    "\<And>ip t. t \<in> set (rec_of T l ip) \<Longrightarrow> t \<le> c" "\<And>ip t. t \<in> set (hist_of H ip) \<Longrightarrow> t \<le> c"
  shows "same_view T c l H"
  using assms unfolding same_view_def by blast

lemma same_view_cleanup:
  assumes "tm_laws T" "same_view T c l H" "c \<le> n"
  shows "same_view T n (maybeCleanupIPRecords T n l) H"
proof -
  let ?l = "maybeCleanupIPRecords T n l"
  have w: "timeWindow ?l = timeWindow l" by (simp add: maybeCleanupIPRecords_def)
  have r: "rec_of T ?l ip = rec_of T l ip \<or> rec_of T ?l ip = [] \<and> filter (in_window (timeWindow l) n) (rec_of T l ip) = []" for ip
    by (auto simp: maybeCleanupIPRecords_def rec_of_def cleanup_load [OF assms(1)] filter_empty_conv split: option.split)
  have "filter (in_window (timeWindow l) now) (rec_of T ?l ip) = filter (in_window (timeWindow l) now) (rec_of T l ip)" if "n \<le> now" for ip now
    using r [of ip] filter_window_later [OF that, of "timeWindow l" "rec_of T l ip"] by (metis filter.simps(1))
  then have f: "filter (in_window (timeWindow l) now) (rec_of T ?l ip) = filter (in_window (timeWindow l) now) (hist_of H ip)" if "n \<le> now" for ip now
    using same_view_filter [OF assms(2), of now ip] that assms(3) by simp
  have sub: "t \<in> set (rec_of T l ip)" if "t \<in> set (rec_of T ?l ip)" for t ip using r [of ip] that by auto
  have p: "t \<le> n" if "t \<in> set (rec_of T l ip) \<or> t \<in> set (hist_of H ip)" for t ip
    by (rule same_view_past [OF assms(2) that assms(3)])
  show ?thesis
  proof (rule same_viewI)
    fix ip now assume "n \<le> now"
    then show "filter (in_window (timeWindow ?l) now) (rec_of T ?l ip) = filter (in_window (timeWindow ?l) now) (hist_of H ip)"
      using f w by simp
  qed (use sub p in blast)+
qed

lemma same_view_step:
  assumes "tm_laws T" "same_view T c l H" "c \<le> n1" "n1 \<le> n2" "timeWindow l \<le> max_duration" "limiter_Allow T n1 n2 ip l = (ok, l')"
  shows "ok \<longleftrightarrow> int (length (filter (\<lambda>(i, t). i = ip \<and> n2 - t < timeWindow l) H)) < maxCount l"
    and "same_view T n2 l' (if ok then H @ [(ip, n2)] else H)" "timeWindow l' = timeWindow l" "maxCount l' = maxCount l"
proof -
  define l1 where "l1 = maybeCleanupIPRecords T n1 l"
  have l1: "timeWindow l1 = timeWindow l" "maxCount l1 = maxCount l" by (simp_all add: l1_def maybeCleanupIPRecords_def)
  have v: "same_view T n1 l1 H" unfolding l1_def by (rule same_view_cleanup [OF assms(1-3)])
  let ?w = "timeWindow l" and ?r = "rec_of T l1 ip"
  let ?valid = "filter (in_window ?w n2) ?r"
  have ac: "addAndCheck n2 ?w (maxCount l) ?r = (ok, rec_of T l' ip)" and oth: "\<And>j. j \<noteq> ip \<Longrightarrow> rec_of T l' j = rec_of T l1 j"
    and l': "timeWindow l' = timeWindow l" "maxCount l' = maxCount l"
    using assms(6) l1 unfolding limiter_Allow_def l1_def [symmetric] Let_def
    by (auto simp: tm_load_or_store_def newIPRecord_def rec_of_def typed_map.load_store [OF typed_map.intro [OF assms(1)]] split: option.splits prod.splits)
  then show "timeWindow l' = timeWindow l" "maxCount l' = maxCount l" by simp_all
  have past: "t \<le> n2" if "t \<in> set (hist_of H j)" for t j using same_view_past [OF v _ assms(4)] that by blast
  have hv: "?valid = filter (in_window ?w n2) (hist_of H ip)" using same_view_filter [OF v assms(4), of ip] l1 by simp
  have "length (filter (in_window ?w n2) (hist_of H ip)) = length (filter (\<lambda>(i, t). i = ip \<and> n2 - t < ?w) H)"
  proof -
    have "filter (\<lambda>(i, t). i = ip \<and> n2 - t < ?w) H = filter (\<lambda>e. fst e = ip \<and> in_window ?w n2 (snd e)) H"
      by (rule filter_cong) (use past [of _ ip] in \<open>force simp: hist_of_def in_window_past [OF _ assms(5)]\<close>)+
    then show ?thesis by (simp add: hist_of_def filter_map comp_def conj_commute)
  qed
  then show ok: "ok \<longleftrightarrow> int (length (filter (\<lambda>(i, t). i = ip \<and> n2 - t < ?w) H)) < maxCount l"
    using ac hv by (auto simp: addAndCheck_def Let_def split: if_splits)
  have r': "rec_of T l' ip = (if ok then ?valid @ [n2] else ?valid)" using ac by (auto simp: addAndCheck_def Let_def split: if_splits)
  let ?H = "if ok then H @ [(ip, n2)] else H"
  have h': "hist_of ?H j = (if j = ip \<and> ok then hist_of H j @ [n2] else hist_of H j)" for j by (simp add: hist_of_def)
  have "filter (in_window ?w now) (rec_of T l' j) = filter (in_window ?w now) (hist_of ?H j)" if "n2 \<le> now" for j now
  proof (cases "j = ip")
    case True
    have "filter (in_window ?w now) ?valid = filter (in_window ?w now) (hist_of H ip)" unfolding hv by (rule filter_window_later [OF that])
    then show ?thesis unfolding True r' h' by simp
  next
    case False
    then show ?thesis using same_view_filter [OF v, of now j] that assms(4) l1 oth [OF False] unfolding h' by simp
  qed
  then have f: "filter (in_window (timeWindow l') now) (rec_of T l' j) = filter (in_window (timeWindow l') now) (hist_of ?H j)" if "n2 \<le> now" for j now
    using that l'(1) by simp
  have "t \<le> n2" if "t \<in> set (rec_of T l' j)" for t j
  proof (cases "j = ip")
    case True
    then have "t = n2 \<or> t \<in> set ?r" using that r' by (auto split: if_splits)
    then show ?thesis using same_view_past [OF v _ assms(4)] by blast
  qed (use that oth same_view_past [OF v _ assms(4)] in auto)
  moreover have "t \<le> n2" if "t \<in> set (hist_of ?H j)" for t j
    using that past [of t j] unfolding h' by (auto split: if_splits)
  ultimately show "same_view T n2 l' ?H" using f by (intro same_viewI)
qed

lemma limiter_run_view:
  assumes "tm_laws T"
  shows "same_view T c l H \<Longrightarrow> timeWindow l \<le> max_duration \<Longrightarrow> clock_from c cs \<Longrightarrow> limiter_run T l cs = limiter_spec (maxCount l) (timeWindow l) H cs"
proof (induction cs arbitrary: c l H)
  case (Cons call cs)
  obtain ip n1 n2 where call: "call = (ip, n1, n2)" by (cases call) auto
  obtain ok l' where al: "limiter_Allow T n1 n2 ip l = (ok, l')" by (cases "limiter_Allow T n1 n2 ip l")
  have ck: "c \<le> n1" "n1 \<le> n2" "clock_from n2 cs" using Cons.prems(3) call by simp_all
  note st = same_view_step [OF assms Cons.prems(1) ck(1,2) Cons.prems(2) al]
  have "limiter_run T l' cs = limiter_spec (maxCount l) (timeWindow l) (if ok then H @ [(ip, n2)] else H) cs"
    using Cons.IH [OF st(2) _ ck(3)] st(3,4) Cons.prems(2) by simp
  then show ?case using st(1) by (simp add: call al)
qed simp

text \<open>
  Property C32. A limiter with its pruned records and its clean-up of idle entries answers every sequence of calls as if
  it kept the whole history: a call is admitted exactly if fewer than the limit of calls of the same subject were
  admitted during the window before it. So no window contains more admitted calls than the limit, and no call below the
  limit is refused.
\<close>

theorem limiter_exact:
  assumes "tm_laws T" "w \<le> max_duration" "clock_from c cs"
  shows "limiter_run T (NewConnectionLimiter T n w) cs = limiter_spec n w [] cs"
proof -
  have "same_view T c (NewConnectionLimiter T n w) []"
    by (simp add: same_view_def rec_of_def hist_of_def NewConnectionLimiter_def typed_map.load_new [OF typed_map.intro [OF assms(1)]])
  from limiter_run_view [OF assms(1) this _ assms(3)] assms(2) show ?thesis by (simp add: NewConnectionLimiter_def)
qed

theorem limiter_exact_witness:
  "limiter_run alist_tm (NewConnectionLimiter alist_tm 1 10) [(''a'', 100, 100), (''a'', 105, 105), (''b'', 106, 106), (''a'', 110, 110)]
     = [True, False, True, True]"
  by (subst limiter_exact [where c = 0]) (simp_all add: max_duration_def)

section \<open>A flood of connections bans its address\<close>

datatype ddos_op = Op_Connection string | Op_Packet string string | Op_Traffic string string int | Op_IsBlacklisted string | Op_BlacklistIP string

type_synonym readings = "time \<times> time \<times> time \<times> time"

fun op_ip :: "ddos_op \<Rightarrow> string" where
  "op_ip (Op_Connection ip) = ip"
| "op_ip (Op_Packet subject ip) = ip"
| "op_ip (Op_Traffic subject ip bytes) = ip"
| "op_ip (Op_IsBlacklisted ip) = ip"
| "op_ip (Op_BlacklistIP ip) = ip"

text \<open>An operation and whether it lets its address in.\<close>

fun ddos_exec :: "('r, 'b, 't, 'w) ddos_maps \<Rightarrow> readings \<Rightarrow> ddos_op \<Rightarrow> ('r, 'b, 't, 'w) DDoSProtection \<Rightarrow> bool \<times> ('r, 'b, 't, 'w) DDoSProtection" where
  "ddos_exec M (n0, n1, n2, n3) (Op_Connection ip) d = AllowConnection M n0 n1 n2 n3 ip d"
| "ddos_exec M (n0, n1, n2, n3) (Op_Packet subject ip) d = AllowPacketFrom M n0 n1 n2 subject ip d"
| "ddos_exec M (n0, n1, n2, n3) (Op_Traffic subject ip bytes) d = AllowTrafficFrom M n0 n1 subject ip bytes d"
| "ddos_exec M (n0, n1, n2, n3) (Op_IsBlacklisted ip) d = (case ddos_IsBlacklisted M n0 ip d of (r, d) \<Rightarrow> (\<not> r, d))"
| "ddos_exec M (n0, n1, n2, n3) (Op_BlacklistIP ip) d = (False, ddos_BlacklistIP M n0 ip d)"

fun ddos_run :: "('r, 'b, 't, 'w) ddos_maps \<Rightarrow> (readings \<times> ddos_op) list \<Rightarrow> ('r, 'b, 't, 'w) DDoSProtection \<Rightarrow> (ddos_op \<times> bool) list" where
  "ddos_run M [] d = []"
| "ddos_run M ((ns, a) # as) d = (case ddos_exec M ns a d of (ok, d) \<Rightarrow> (a, ok) # ddos_run M as d)"

text \<open>All readings lie between \<open>c\<close> and \<open>e\<close> and do not go back.\<close>

fun readings_within :: "time \<Rightarrow> time \<Rightarrow> (readings \<times> ddos_op) list \<Rightarrow> bool" where
  "readings_within c e [] = True"
| "readings_within c e (((n0, n1, n2, n3), a) # as) \<longleftrightarrow>
     c \<le> n0 \<and> n0 \<le> n1 \<and> n1 \<le> n2 \<and> n2 \<le> n3 \<and> n3 \<le> e \<and> readings_within n3 e as"

definition ban_of :: "('r, 'b, 't, 'w) ddos_maps \<Rightarrow> ('r, 'b, 't, 'w) DDoSProtection \<Rightarrow> string \<Rightarrow> time option" where
  "ban_of M d = tm_load (ban_map M) (blacklistedIPs (ipBlacklist d))"

definition banned_since :: "('r, 'b, 't, 'w) ddos_maps \<Rightarrow> time \<Rightarrow> string \<Rightarrow> ('r, 'b, 't, 'w) DDoSProtection \<Rightarrow> bool" where
  "banned_since M t0 ip d \<longleftrightarrow> \<not> whitelisted M ip d \<and> (\<exists>t\<ge>t0. ban_of M d ip = Some t)"

lemma not_expired: "t0 \<le> t \<Longrightarrow> n \<le> t0 + b \<Longrightarrow> 0 \<le> b \<Longrightarrow> \<not> time_Sub n t > b"
  by (auto simp: time_Sub_def min_duration_def)

lemma IsBlacklisted_effect:
  assumes "tm_laws (ban_map M)" "IsBlacklisted (ban_map M) n ip (ipBlacklist d) = (r, b)"
  shows "banDuration b = banDuration (ipBlacklist d)"
    "tm_load (ban_map M) (blacklistedIPs b) = (if \<exists>t. ban_of M d ip = Some t \<and> time_Sub n t > banDuration (ipBlacklist d) then (ban_of M d)(ip := None) else ban_of M d)"
    "r \<longleftrightarrow> (\<exists>t. ban_of M d ip = Some t \<and> \<not> time_Sub n t > banDuration (ipBlacklist d))"
  using assms(2) by (auto simp: IsBlacklisted_def ban_of_def typed_map.load_delete [OF typed_map.intro [OF assms(1)]] split: option.splits if_splits)

text \<open>What a guarded method does to the blacklist, its rest \<open>k\<close> leaving bans, their duration and the whitelist alone.\<close>

definition keeps_bans :: "('r, 'b, 't, 'w) ddos_maps \<Rightarrow> (('r, 'b, 't, 'w) DDoSProtection \<Rightarrow> bool \<times> ('r, 'b, 't, 'w) DDoSProtection) \<Rightarrow> bool" where
  "keeps_bans M k \<longleftrightarrow> (\<forall>d. ipBlacklist (snd (k d)) = ipBlacklist d \<and> whitelist (snd (k d)) = whitelist d)"

lemma keeps_bans_methods:
  "keeps_bans M (\<lambda>d. case limiter_Allow (rec_map M) n1 n2 subject (packetLimiter d) of (ok, l) \<Rightarrow> (ok, d\<lparr>packetLimiter := l\<rparr>))"
  "keeps_bans M (\<lambda>d. case AllowTraffic (traffic_map M) n subject bytes (trafficLimiter d) of (ok, l) \<Rightarrow> (ok, d\<lparr>trafficLimiter := l\<rparr>))"
  by (simp_all add: keeps_bans_def split_beta)

lemma guarded_keeps:
  assumes "tm_laws (ban_map M)" "keeps_bans M k"
  shows "banDuration (ipBlacklist (snd (guarded M n ip k d))) = banDuration (ipBlacklist d)"
    "whitelist (snd (guarded M n ip k d)) = whitelist d"
    "ban_of M (snd (guarded M n ip k d)) j = Some t \<Longrightarrow> ban_of M d j = Some t"
    "ban_of M d j = Some t \<Longrightarrow> j \<noteq> ip \<or> \<not> time_Sub n t > banDuration (ipBlacklist d) \<Longrightarrow> ban_of M (snd (guarded M n ip k d)) j = Some t"
proof -
  obtain r b where b: "IsBlacklisted (ban_map M) n ip (ipBlacklist d) = (r, b)" by fastforce
  note e = IsBlacklisted_effect [OF assms(1) b]
  have g: "ipBlacklist (snd (guarded M n ip k d)) = (if whitelisted M ip d then ipBlacklist d else b)" "whitelist (snd (guarded M n ip k d)) = whitelist d"
    using assms(2) by (simp_all add: guarded_def b Let_def keeps_bans_def)
  then show "whitelist (snd (guarded M n ip k d)) = whitelist d" "banDuration (ipBlacklist (snd (guarded M n ip k d))) = banDuration (ipBlacklist d)"
    using e(1) by simp_all
  show "ban_of M (snd (guarded M n ip k d)) j = Some t \<Longrightarrow> ban_of M d j = Some t"
    using g(1) e(2) by (auto simp: ban_of_def [of M "snd (guarded M n ip k d)"] split: if_splits) (simp_all add: ban_of_def)
  show "ban_of M d j = Some t \<Longrightarrow> j \<noteq> ip \<or> \<not> time_Sub n t > banDuration (ipBlacklist d) \<Longrightarrow> ban_of M (snd (guarded M n ip k d)) j = Some t"
    using g(1) e(2) by (auto simp: ban_of_def [of M "snd (guarded M n ip k d)"] split: if_splits) (simp_all add: ban_of_def)
qed

text \<open>Refused packets and refused bytes ban nobody.\<close>

lemma packets_ban_nobody:
  assumes "tm_laws (ban_map M)"
  shows "ban_of M (snd (AllowPacketFrom M n0 n1 n2 subject ip d)) j = Some t \<Longrightarrow> ban_of M d j = Some t"
    "ban_of M (snd (AllowTrafficFrom M n0 n1 subject ip bytes d)) j = Some t \<Longrightarrow> ban_of M d j = Some t"
  unfolding AllowPacketFrom_def AllowTrafficFrom_def by (rule guarded_keeps(3) [OF assms keeps_bans_methods(1)], assumption)
    (rule guarded_keeps(3) [OF assms keeps_bans_methods(2)], assumption)

lemma guarded_banned:
  assumes "tm_laws (ban_map M)" "banned_since M t0 ip d" "n \<le> t0 + banDuration (ipBlacklist d)" "0 \<le> banDuration (ipBlacklist d)"
  shows "guarded M n ip k d = (False, d)"
proof -
  obtain t where t: "t0 \<le> t" "ban_of M d ip = Some t" "\<not> whitelisted M ip d" using assms(2) by (auto simp: banned_since_def)
  with not_expired [OF t(1) assms(3,4)] have "IsBlacklisted (ban_map M) n ip (ipBlacklist d) = (True, ipBlacklist d)"
    by (simp add: IsBlacklisted_def ban_of_def)
  with t(3) show ?thesis by (simp add: guarded_def)
qed

lemma connection_other:
  assumes "tm_laws (ban_map M)" "j \<noteq> ip"
  shows "ban_of M (snd (AllowConnection M n0 n1 n2 n3 ip d)) j = ban_of M d j"
    "banDuration (ipBlacklist (snd (AllowConnection M n0 n1 n2 n3 ip d))) = banDuration (ipBlacklist d)"
    "whitelist (snd (AllowConnection M n0 n1 n2 n3 ip d)) = whitelist d"
proof -
  obtain r b where b: "IsBlacklisted (ban_map M) n0 ip (ipBlacklist d) = (r, b)" by fastforce
  note e = IsBlacklisted_effect [OF assms(1) b]
  have j: "tm_load (ban_map M) (blacklistedIPs b) j = ban_of M d j" using e(2) assms(2) by simp
  show "ban_of M (snd (AllowConnection M n0 n1 n2 n3 ip d)) j = ban_of M d j"
    using j assms(2)
    by (simp add: AllowConnection_def guarded_def b Let_def split_beta ban_of_def BlacklistIP_def typed_map.load_store [OF typed_map.intro [OF assms(1)]])
  show "banDuration (ipBlacklist (snd (AllowConnection M n0 n1 n2 n3 ip d))) = banDuration (ipBlacklist d)"
    "whitelist (snd (AllowConnection M n0 n1 n2 n3 ip d)) = whitelist d"
    using e(1) by (simp_all add: AllowConnection_def guarded_def b Let_def split_beta BlacklistIP_def)
qed

definition ban_kept :: "('r, 'b, 't, 'w) ddos_maps \<Rightarrow> time \<Rightarrow> string \<Rightarrow> ('r, 'b, 't, 'w) DDoSProtection \<Rightarrow> ('r, 'b, 't, 'w) DDoSProtection \<Rightarrow> bool" where
  "ban_kept M t0 ip d d' \<longleftrightarrow> banned_since M t0 ip d' \<and> banDuration (ipBlacklist d') = banDuration (ipBlacklist d)"

lemma ban_kept_refl: "banned_since M t0 ip d \<Longrightarrow> ban_kept M t0 ip d d"
  by (simp add: ban_kept_def)

lemma ban_keptI:
  assumes "banned_since M t0 ip d" "banDuration (ipBlacklist d') = banDuration (ipBlacklist d)" "whitelist d' = whitelist d"
    "\<And>t. t0 \<le> t \<Longrightarrow> ban_of M d ip = Some t \<Longrightarrow> \<exists>t'\<ge>t0. ban_of M d' ip = Some t'"
  shows "ban_kept M t0 ip d d'"
  using assms by (auto simp: ban_kept_def banned_since_def whitelisted_def)

lemma exec_keeps_ban:
  assumes L: "tm_laws (ban_map M)" and b: "banned_since M t0 ip d" and n: "t0 \<le> n0" "n0 \<le> t0 + banDuration (ipBlacklist d)"
    and z: "0 \<le> banDuration (ipBlacklist d)" and ex: "ddos_exec M (n0, n1, n2, n3) a d = (ok, d')"
  shows "ban_kept M t0 ip d d'" "op_ip a = ip \<Longrightarrow> \<not> ok"
proof -
  have g: "ban_kept M t0 ip d (snd (guarded M n0 j k d))" if "keeps_bans M k" for k j
    using guarded_keeps [OF L that] not_expired [OF _ n(2) z] by (intro ban_keptI [OF b]) blast+
  have same: "guarded M n0 ip k d = (False, d)" for k by (rule guarded_banned [OF L b n(2) z])
  have "ban_kept M t0 ip d d' \<and> (op_ip a = ip \<longrightarrow> \<not> ok)"
  proof (cases a)
    case (Op_Connection j)
    then have d': "(ok, d') = AllowConnection M n0 n1 n2 n3 j d" using ex by simp
    show ?thesis
    proof (cases "j = ip")
      case True
      then have "ok = False" "d' = d" using d' by (simp_all add: AllowConnection_def same)
      then show ?thesis using ban_kept_refl [OF b] by simp
    next
      case False
      note c = connection_other [OF L False [symmetric], of n0 n1 n2 n3 d]
      have "d' = snd (AllowConnection M n0 n1 n2 n3 j d)" by (simp flip: d')
      then have "ban_kept M t0 ip d d'" using c by (intro ban_keptI [OF b]) auto
      then show ?thesis using False Op_Connection by simp
    qed
  next
    case (Op_Packet u j)
    then have d': "(ok, d') = AllowPacketFrom M n0 n1 n2 u j d" using ex by simp
    have "d' = snd (AllowPacketFrom M n0 n1 n2 u j d)" "ok = fst (AllowPacketFrom M n0 n1 n2 u j d)" by (simp_all flip: d')
    then show ?thesis using g [OF keeps_bans_methods(1)] Op_Packet by (auto simp: AllowPacketFrom_def same)
  next
    case (Op_Traffic u j y)
    then have d': "(ok, d') = AllowTrafficFrom M n0 n1 u j y d" using ex by simp
    have "d' = snd (AllowTrafficFrom M n0 n1 u j y d)" "ok = fst (AllowTrafficFrom M n0 n1 u j y d)" by (simp_all flip: d')
    then show ?thesis using g [OF keeps_bans_methods(2)] Op_Traffic by (auto simp: AllowTrafficFrom_def same)
  next
    case (Op_IsBlacklisted j)
    obtain r l where l: "IsBlacklisted (ban_map M) n0 j (ipBlacklist d) = (r, l)" by fastforce
    note e = IsBlacklisted_effect [OF L l]
    have d': "d' = d\<lparr>ipBlacklist := l\<rparr>" "ok = (\<not> r)" using ex Op_IsBlacklisted l by (auto simp: ddos_IsBlacklisted_def)
    have "ban_kept M t0 ip d d'"
      using e(1,2) not_expired [OF _ n(2) z] by (intro ban_keptI [OF b]) (auto simp: d' ban_of_def [of M "d\<lparr>ipBlacklist := l\<rparr>"])
    moreover have "r" if "j = ip" using e(3) b that not_expired [OF _ n(2) z] by (auto simp: banned_since_def)
    ultimately show ?thesis using d'(2) Op_IsBlacklisted by simp
  next
    case (Op_BlacklistIP j)
    then have d': "ok = False" "d' = ddos_BlacklistIP M n0 j d" using ex by auto
    have "ban_kept M t0 ip d d'"
      using n(1) by (intro ban_keptI [OF b]) (auto simp: d' ddos_BlacklistIP_def BlacklistIP_def ban_of_def typed_map.load_store [OF typed_map.intro [OF L]])
    then show ?thesis using d'(1) by simp
  qed
  then show "ban_kept M t0 ip d d'" "op_ip a = ip \<Longrightarrow> \<not> ok" by simp_all
qed

lemma run_keeps_ban:
  assumes "tm_laws (ban_map M)"
  shows "banned_since M t0 ip d \<Longrightarrow> t0 \<le> c \<Longrightarrow> readings_within c (t0 + banDuration (ipBlacklist d)) as \<Longrightarrow> 0 \<le> banDuration (ipBlacklist d) \<Longrightarrow>
    (a, ok) \<in> set (ddos_run M as d) \<Longrightarrow> op_ip a = ip \<Longrightarrow> \<not> ok"
proof (induction as arbitrary: c d)
  case (Cons x as)
  obtain n0 n1 n2 n3 x' where x: "x = ((n0, n1, n2, n3), x')" by (cases x) auto
  obtain ok' d' where ex: "ddos_exec M (n0, n1, n2, n3) x' d = (ok', d')" by fastforce
  have n: "t0 \<le> n0" "n0 \<le> t0 + banDuration (ipBlacklist d)" "t0 \<le> n3" "readings_within n3 (t0 + banDuration (ipBlacklist d)) as"
    using Cons.prems(2,3) x by auto
  note k = exec_keeps_ban [OF assms Cons.prems(1) n(1,2) Cons.prems(4) ex]
  have mem: "(a, ok) = (x', ok') \<or> (a, ok) \<in> set (ddos_run M as d')" using Cons.prems(5) x ex by auto
  have b': "banned_since M t0 ip d'" "banDuration (ipBlacklist d') = banDuration (ipBlacklist d)" using k(1) by (simp_all add: ban_kept_def)
  from mem show ?case
  proof
    assume "(a, ok) = (x', ok')"
    then show ?thesis using k(2) Cons.prems(6) by simp
  next
    assume m: "(a, ok) \<in> set (ddos_run M as d')"
    show ?thesis by (rule Cons.IH [OF b'(1) n(3) _ _ m Cons.prems(6)]) (use n(4) b'(2) Cons.prems(4) in simp_all)
  qed
qed simp

text \<open>
  Property C33. A connection refused by the connection limiter bans its address: whatever calls follow, on this and on
  other addresses, as long as the ban lasts no connection, packet or byte of the address is let in.
\<close>

theorem flood_bans_address:
  assumes "tm_laws (ban_map M)" "0 \<le> banDuration (ipBlacklist d)"
    "\<not> fst (IsBlacklisted (ban_map M) n0 ip (ipBlacklist d))" "AllowConnection M n0 n1 n2 n3 ip d = (False, d')"
    "readings_within n3 (n3 + banDuration (ipBlacklist d)) as" "(a, ok) \<in> set (ddos_run M as d')" "op_ip a = ip"
  shows "\<not> ok"
proof -
  obtain b where b: "IsBlacklisted (ban_map M) n0 ip (ipBlacklist d) = (False, b)" using assms(3) by (cases "IsBlacklisted (ban_map M) n0 ip (ipBlacklist d)") auto
  note e = IsBlacklisted_effect [OF assms(1) b]
  have w: "\<not> whitelisted M ip d" using assms(4) by (auto simp: AllowConnection_def guarded_def)
  then have d': "ban_of M d' ip = Some n3" "whitelist d' = whitelist d" "banDuration (ipBlacklist d') = banDuration (ipBlacklist d)"
    using assms(4) e(1) by (auto simp: AllowConnection_def guarded_def b Let_def BlacklistIP_def ban_of_def typed_map.load_store [OF typed_map.intro [OF assms(1)]]
      split: prod.splits if_splits)
  then have "banned_since M n3 ip d'" using w by (simp add: banned_since_def whitelisted_def)
  from run_keeps_ban [OF assms(1) this order_refl _ _ assms(6,7)] assms(2,5) d'(3) show ?thesis by simp
qed

definition alist_maps :: "((string \<times> ipRecord) list, (string \<times> time) list, (string \<times> int) list, (string \<times> unit) list) ddos_maps" where
  "alist_maps = \<lparr>rec_map = alist_tm, ban_map = alist_tm, traffic_map = alist_tm, white_map = alist_tm\<rparr>"

definition strict_config :: DDoSConfig where
  "strict_config = DefaultDDoSConfig\<lparr>MaxConnPerIP := 1\<rparr>"

definition strict_ddos :: "((string \<times> ipRecord) list, (string \<times> time) list, (string \<times> int) list, (string \<times> unit) list) DDoSProtection" where
  "strict_ddos = snd (AllowConnection alist_maps 10 10 10 10 ''1.2.3.4'' (NewDDoSProtection alist_maps 5 (Some strict_config)))"

theorem flood_bans_address_witness:
  "fst (AllowConnection alist_maps 20 20 20 20 ''1.2.3.4'' strict_ddos) = False \<and>
   ddos_run alist_maps [((30, 30, 30, 30), Op_Packet ''s'' ''1.2.3.4'')] (snd (AllowConnection alist_maps 20 20 20 20 ''1.2.3.4'' strict_ddos))
     = [(Op_Packet ''s'' ''1.2.3.4'', False)]"
proof -
  let ?d = "snd (AllowConnection alist_maps 20 20 20 20 ''1.2.3.4'' strict_ddos)"
  have e: "banDuration (ipBlacklist strict_ddos) = 60 * 10 ^ 9" "\<not> fst (IsBlacklisted (ban_map alist_maps) 20 ''1.2.3.4'' (ipBlacklist strict_ddos))"
    "\<not> fst (AllowConnection alist_maps 20 20 20 20 ''1.2.3.4'' strict_ddos)"
    by code_simp+
  then have c: "AllowConnection alist_maps 20 20 20 20 ''1.2.3.4'' strict_ddos = (False, ?d)" by (metis prod.collapse)
  have L: "tm_laws (ban_map alist_maps)" by (simp add: alist_maps_def)
  obtain ok where ok: "ddos_run alist_maps [((30, 30, 30, 30), Op_Packet ''s'' ''1.2.3.4'')] ?d = [(Op_Packet ''s'' ''1.2.3.4'', ok)]"
    by (cases "AllowPacketFrom alist_maps 30 30 30 ''s'' ''1.2.3.4'' ?d") simp
  have "\<not> ok" by (rule flood_bans_address [OF L _ e(2) c, of "[((30, 30, 30, 30), Op_Packet ''s'' ''1.2.3.4'')]" "Op_Packet ''s'' ''1.2.3.4''"])
      (simp_all only: ok e(1) list.set_intros op_ip.simps readings_within.simps, simp_all)
  then show ?thesis using ok e(3) by simp
qed

section \<open>The traffic counter under contention\<close>

datatype traffic_pc = T_Load | T_Cas int | T_Done bool

record traffic_call =
  call_bytes :: int
  call_pc :: traffic_pc

record traffic_sys =
  counter :: int
  tcalls :: "traffic_call list"

text \<open>One access to the counter by the call \<open>k\<close>: the load with the test, or the compare-and-swap.\<close>

definition set_tcall :: "nat \<Rightarrow> traffic_pc \<Rightarrow> traffic_sys \<Rightarrow> traffic_sys" where
  "set_tcall k p s = s\<lparr>tcalls := (tcalls s)[k := (tcalls s ! k)\<lparr>call_pc := p\<rparr>]\<rparr>"

definition traffic_step :: "int \<Rightarrow> nat \<Rightarrow> traffic_sys \<Rightarrow> traffic_sys option" where
  "traffic_step mx k s =
     (let n = call_bytes (tcalls s ! k) in
      case call_pc (tcalls s ! k) of
        T_Load \<Rightarrow> Some (set_tcall k (if wrap64 (counter s + n) > mx then T_Done False else T_Cas (counter s)) s)
      | T_Cas current \<Rightarrow>
          Some (if counter s = current then set_tcall k (T_Done True) (s\<lparr>counter := wrap64 (current + n)\<rparr>)
                else set_tcall k T_Load s)
      | T_Done ok \<Rightarrow> None)"

inductive traffic_reach :: "int \<Rightarrow> traffic_sys \<Rightarrow> bool" for mx where
  init: "traffic_reach mx \<lparr>counter = 0, tcalls = []\<rparr>"
| call: "traffic_reach mx s \<Longrightarrow> 0 \<le> n \<Longrightarrow> mx + n < 2 ^ 63 \<Longrightarrow>
    traffic_reach mx (s\<lparr>tcalls := tcalls s @ [\<lparr>call_bytes = n, call_pc = T_Load\<rparr>]\<rparr>)"
| step: "traffic_reach mx s \<Longrightarrow> k < length (tcalls s) \<Longrightarrow> traffic_step mx k s = Some s' \<Longrightarrow> traffic_reach mx s'"

definition admitted_bytes :: "traffic_call \<Rightarrow> int" where
  "admitted_bytes c = (if call_pc c = T_Done True then call_bytes c else 0)"

definition tcall_ok :: "int \<Rightarrow> int \<Rightarrow> traffic_call \<Rightarrow> bool" where
  "tcall_ok mx v c \<longleftrightarrow> 0 \<le> call_bytes c \<and> mx + call_bytes c < 2 ^ 63 \<and>
     (\<forall>x. call_pc c = T_Cas x \<longrightarrow> x + call_bytes c \<le> mx \<and> 0 \<le> x \<and> x \<le> v) \<and> (call_pc c = T_Done False \<longrightarrow> mx < v + call_bytes c)"

definition traffic_inv :: "int \<Rightarrow> traffic_sys \<Rightarrow> bool" where
  "traffic_inv mx s \<longleftrightarrow> counter s = sum_list (map admitted_bytes (tcalls s)) \<and> 0 \<le> counter s \<and> counter s \<le> mx \<and>
     (\<forall>c\<in>set (tcalls s). tcall_ok mx (counter s) c)"

lemma sum_list_update_int:
  "k < length xs \<Longrightarrow> sum_list (map f (xs[k := y])) = sum_list (map f xs) - f (xs ! k) + (f y :: int)"
  by (induction xs arbitrary: k) (auto split: nat.split)

lemma traffic_inv_moved:
  assumes "traffic_inv mx s" "k < length (tcalls s)" "counter s \<le> v" "v \<le> mx"
    "v = counter s - admitted_bytes (tcalls s ! k) + admitted_bytes ((tcalls s ! k)\<lparr>call_pc := p\<rparr>)"
    "tcall_ok mx v ((tcalls s ! k)\<lparr>call_pc := p\<rparr>)"
  shows "traffic_inv mx (set_tcall k p (s\<lparr>counter := v\<rparr>))"
proof -
  have "tcall_ok mx v c" if "c \<in> set (tcalls s)" for c
  proof -
    have "tcall_ok mx (counter s) c" using assms(1) that unfolding traffic_inv_def by blast
    then show ?thesis using assms(3) by (auto simp: tcall_ok_def)
  qed
  then have "\<forall>c\<in>set ((tcalls s)[k := (tcalls s ! k)\<lparr>call_pc := p\<rparr>]). tcall_ok mx v c"
    using assms(6) set_update_subset_insert [of "tcalls s" k] by fastforce
  moreover have "counter s = sum_list (map admitted_bytes (tcalls s))" "0 \<le> counter s" using assms(1) by (simp_all add: traffic_inv_def)
  ultimately show ?thesis using assms(3-5) by (simp add: traffic_inv_def set_tcall_def sum_list_update_int [OF assms(2)])
qed

lemma traffic_inv_step:
  assumes inv: "traffic_inv mx s" and k: "k < length (tcalls s)" and st: "traffic_step mx k s = Some s'"
  shows "traffic_inv mx s'"
proof -
  let ?c = "tcalls s ! k"
  have ok: "tcall_ok mx (counter s) ?c" and v: "0 \<le> counter s" "counter s \<le> mx" using inv nth_mem [OF k] unfolding traffic_inv_def by blast+
  have w: "wrap64 (counter s + call_bytes ?c) = counter s + call_bytes ?c"
    using ok v by (intro wrap64_id) (auto simp: tcall_ok_def)
  have stay: "traffic_inv mx (set_tcall k p s)" if "tcall_ok mx (counter s) (?c\<lparr>call_pc := p\<rparr>)" "admitted_bytes ?c = 0" "p \<noteq> T_Done True" for p
    using traffic_inv_moved [OF inv k order_refl v(2) _ that(1)] that(2,3) by (simp add: admitted_bytes_def)
  show ?thesis
  proof (cases "call_pc ?c")
    case T_Load
    then have "s' = set_tcall k (if counter s + call_bytes ?c > mx then T_Done False else T_Cas (counter s)) s"
      using st w by (simp add: traffic_step_def Let_def)
    then show ?thesis using stay ok v T_Load by (auto simp: tcall_ok_def admitted_bytes_def)
  next
    case (T_Cas x)
    show ?thesis
    proof (cases "counter s = x")
      case True
      then have s': "s' = set_tcall k (T_Done True) (s\<lparr>counter := counter s + call_bytes ?c\<rparr>)"
        using st w T_Cas by (auto simp: traffic_step_def Let_def)
      show ?thesis unfolding s'
        by (rule traffic_inv_moved [OF inv k]) (use ok T_Cas True in \<open>auto simp: tcall_ok_def admitted_bytes_def\<close>)
    next
      case False
      then have "s' = set_tcall k T_Load s" using st T_Cas by (auto simp: traffic_step_def Let_def)
      then show ?thesis using stay ok T_Cas by (auto simp: tcall_ok_def admitted_bytes_def)
    qed
  qed (use st in \<open>simp add: traffic_step_def Let_def\<close>)
qed

lemma traffic_inv_reach: "0 \<le> mx \<Longrightarrow> traffic_reach mx s \<Longrightarrow> traffic_inv mx s"
proof (rotate_tac, induction rule: traffic_reach.induct)
  case init
  then show ?case by (simp add: traffic_inv_def)
next
  case (call s n)
  then show ?case by (auto simp: traffic_inv_def admitted_bytes_def tcall_ok_def)
next
  case (step s k s')
  then show ?case using traffic_inv_step by blast
qed

text \<open>A measure that every access lowers: a swap that succeeds makes the other loaded values stale, but ends a call.\<close>

fun pend :: "traffic_pc \<Rightarrow> int" where
  "pend (T_Done ok) = 0"
| "pend p = 1"

fun cost :: "int \<Rightarrow> traffic_pc \<Rightarrow> int" where
  "cost v T_Load = 2"
| "cost v (T_Cas x) = (if x = v then 1 else 3)"
| "cost v (T_Done ok) = 0"

definition pending_calls :: "traffic_sys \<Rightarrow> int" where
  "pending_calls s = sum_list (map (\<lambda>c. pend (call_pc c)) (tcalls s))"

definition traffic_rank :: "traffic_sys \<Rightarrow> int" where
  "traffic_rank s = pending_calls s * pending_calls s + sum_list (map (\<lambda>c. cost (counter s) (call_pc c)) (tcalls s))"

lemma cost_change: "cost v' p \<le> cost v p + 2 * pend p"
  by (cases p) auto

lemma rank_nonneg: "0 \<le> traffic_rank s"
proof -
  have "0 \<le> cost v p" for v p by (cases p) auto
  then show ?thesis by (auto simp: traffic_rank_def intro!: add_nonneg_nonneg sum_list_nonneg)
qed

lemma rank_decreases:
  assumes k: "k < length (tcalls s)" and st: "traffic_step mx k s = Some s'"
  shows "traffic_rank s' < traffic_rank s"
proof -
  let ?c = "tcalls s ! k" and ?P = "pending_calls s"
  let ?S = "\<lambda>v cs. sum_list (map (\<lambda>c. cost v (call_pc c)) cs)"
  have upd: "pending_calls (set_tcall k p t) = ?P - pend (call_pc ?c) + pend p"
      "?S v (tcalls (set_tcall k p t)) = ?S v (tcalls s) - cost v (call_pc ?c) + cost v p"
      "counter (set_tcall k p t) = counter t" if "tcalls t = tcalls s" for p t v
    using sum_list_update_int [OF k, of "\<lambda>c. pend (call_pc c)"] sum_list_update_int [OF k, of "\<lambda>c. cost v (call_pc c)"] that
    by (simp_all add: pending_calls_def set_tcall_def)
  have P: "0 \<le> pend p" for p by (cases p) simp_all
  then have nn: "0 \<le> ?P" unfolding pending_calls_def by (intro sum_list_nonneg) auto
  show ?thesis
  proof (cases "call_pc ?c")
    case T_Load
    have "0 \<le> pending_calls (set_tcall k (T_Done True) s)" using P unfolding pending_calls_def by (intro sum_list_nonneg) auto
    then have "1 \<le> ?P" using upd(1) [of s "T_Done True"] T_Load by simp
    then have "(?P - 1) * (?P - 1) < ?P * ?P" by (simp add: algebra_simps)
    with T_Load st show ?thesis using upd [of s] by (auto simp: traffic_step_def Let_def traffic_rank_def)
  next
    case (T_Cas x)
    show ?thesis
    proof (cases "counter s = x")
      case True
      let ?v = "wrap64 (x + call_bytes ?c)" and ?t = "s\<lparr>counter := wrap64 (x + call_bytes ?c)\<rparr>"
      have s': "s' = set_tcall k (T_Done True) ?t" using st T_Cas True by (simp add: traffic_step_def Let_def)
      have "?S ?v (tcalls s') \<le> sum_list (map (\<lambda>c. cost (counter s) (call_pc c) + 2 * pend (call_pc c)) (tcalls s'))"
        by (rule sum_list_mono) (rule cost_change)
      also have "\<dots> = ?S (counter s) (tcalls s') + 2 * pending_calls s'"
        by (simp add: sum_list_addf sum_list_const_mult pending_calls_def)
      also have "\<dots> = ?S (counter s) (tcalls s) - 1 + 2 * (?P - 1)" using upd [of ?t] T_Cas True unfolding s' by simp
      finally have "?S ?v (tcalls s') \<le> ?S (counter s) (tcalls s) - 1 + 2 * (?P - 1)" .
      then have le: "?S ?v (tcalls s') + 3 \<le> ?S (counter s) (tcalls s) + 2 * ?P" by simp
      have c: "pending_calls s' = ?P - 1" "counter s' = ?v" using upd [of ?t] T_Cas unfolding s' by simp_all
      have sq: "(?P - 1) * (?P - 1) = ?P * ?P - 2 * ?P + 1" by (simp add: algebra_simps)
      show ?thesis unfolding traffic_rank_def c sq using le by linarith
    next
      case False
      then have "s' = set_tcall k T_Load s" using st T_Cas by (simp add: traffic_step_def Let_def)
      with T_Cas False show ?thesis using upd [of s] by (simp add: traffic_rank_def)
    qed
  qed (use st in \<open>simp add: traffic_step_def Let_def\<close>)
qed

text \<open>
  Property C34. For sizes that are not negative and whose sum with the limit fits a signed 64-bit integer, however calls
  on one traffic counter interleave: the counter is the sum of the admitted bytes and stays
  within the limit; a refused call really did not fit; and the compare-and-swap loop always ends, since every access
  lowers a non-negative measure and every call that has not returned has a next access.
\<close>

theorem traffic_counter_exact:
  assumes "0 \<le> mx" "traffic_reach mx s"
  shows "counter s = sum_list (map admitted_bytes (tcalls s)) \<and> counter s \<le> mx \<and>
    (\<forall>c\<in>set (tcalls s). call_pc c = T_Done False \<longrightarrow> mx < counter s + call_bytes c) \<and>
    (\<forall>k < length (tcalls s). (\<exists>ok. call_pc (tcalls s ! k) = T_Done ok) \<or>
       (\<exists>s'. traffic_step mx k s = Some s' \<and> 0 \<le> traffic_rank s' \<and> traffic_rank s' < traffic_rank s))"
proof (intro conjI ballI allI impI)
  note inv = traffic_inv_reach [OF assms]
  show "counter s = sum_list (map admitted_bytes (tcalls s))" "counter s \<le> mx" using inv unfolding traffic_inv_def by blast+
  show "mx < counter s + call_bytes c" if "c \<in> set (tcalls s)" "call_pc c = T_Done False" for c
    using inv that unfolding traffic_inv_def tcall_ok_def by blast
  fix k assume k: "k < length (tcalls s)"
  show "(\<exists>ok. call_pc (tcalls s ! k) = T_Done ok) \<or> (\<exists>s'. traffic_step mx k s = Some s' \<and> 0 \<le> traffic_rank s' \<and> traffic_rank s' < traffic_rank s)"
  proof (cases "traffic_step mx k s")
    case None
    then show ?thesis by (auto simp: traffic_step_def Let_def split: traffic_pc.splits)
  qed (use rank_decreases [OF k] rank_nonneg in auto)
qed

text \<open>Two calls of 60 bytes race for a limit of 100: the slower one loads again and is refused.\<close>

fun traffic_steps :: "int \<Rightarrow> nat list \<Rightarrow> traffic_sys \<Rightarrow> traffic_sys option" where
  "traffic_steps mx [] s = Some s"
| "traffic_steps mx (k # ks) s = (if k < length (tcalls s) then Option.bind (traffic_step mx k s) (traffic_steps mx ks) else None)"

lemma traffic_steps_reach: "traffic_steps mx ks s = Some s' \<Longrightarrow> traffic_reach mx s \<Longrightarrow> traffic_reach mx s'"
  by (induction ks arbitrary: s) (auto split: if_splits bind_splits intro: traffic_reach.step)

definition race_start :: traffic_sys where
  "race_start = \<lparr>counter = 0, tcalls = [\<lparr>call_bytes = 60, call_pc = T_Load\<rparr>, \<lparr>call_bytes = 60, call_pc = T_Load\<rparr>]\<rparr>"

theorem traffic_counter_exact_witness:
  "case traffic_steps 100 [0, 1, 0, 1, 1] race_start of
     None \<Rightarrow> False
   | Some s \<Rightarrow> counter s = sum_list (map admitted_bytes (tcalls s)) \<and> counter s \<le> 100 \<and> map call_pc (tcalls s) = [T_Done True, T_Done False]"
proof -
  have "case traffic_steps 100 [0, 1, 0, 1, 1] race_start of None \<Rightarrow> False | Some s \<Rightarrow> map call_pc (tcalls s) = [T_Done True, T_Done False]"
    by code_simp
  then obtain s where s: "traffic_steps 100 [0, 1, 0, 1, 1] race_start = Some s" "map call_pc (tcalls s) = [T_Done True, T_Done False]"
    by (auto split: option.splits)
  have "traffic_reach 100 race_start"
    using traffic_reach.call [OF traffic_reach.call [OF traffic_reach.init, of 60 100], of 60] by (simp add: race_start_def)
  then have "traffic_reach 100 s" using traffic_steps_reach s(1) by blast
  from traffic_counter_exact [OF _ this] s show ?thesis by simp
qed

end
