(* ===== verification/Router.thy ===== *)
theory Router
  imports Packet
begin

text \<open>
  \<^verbatim>\<open>zNet/message_router.go\<close>: the table from message numbers to handlers, its fallback and its seal.

  A handler is a function of the session and the packet that returns an error or nil. Every method is one locked
  section; \<^verbatim>\<open>Dispatch\<close> takes the handler under the lock and calls it outside, which its result shows.
\<close>

datatype router_error = ErrHandlerAlreadyRegistered int32 | ErrMessageRouterSealed | ErrNilMessageHandler

type_synonym ('s, 'e) HandlerFun = "'s \<Rightarrow> NetPacket \<Rightarrow> 'e option"

record ('s, 'e) MessageRouter =
  handlers :: "int32 \<rightharpoonup> ('s, 'e) HandlerFun"
  fallback :: "('s, 'e) HandlerFun option"
  sealed :: bool

definition NewMessageRouter :: "('s, 'e) MessageRouter" where
  "NewMessageRouter = \<lparr>handlers = Map.empty, fallback = None, sealed = False\<rparr>"

definition TryRegisterHandler :: "int32 \<Rightarrow> ('s, 'e) HandlerFun option \<Rightarrow> ('s, 'e) MessageRouter \<Rightarrow> router_error option \<times> ('s, 'e) MessageRouter" where
  "TryRegisterHandler protoID handler r =
     (case handler of
        None \<Rightarrow> (Some ErrNilMessageHandler, r)
      | Some h \<Rightarrow>
          if sealed r then (Some ErrMessageRouterSealed, r)
          else if handlers r protoID \<noteq> None then (Some (ErrHandlerAlreadyRegistered protoID), r)
          else (None, r\<lparr>handlers := (handlers r)(protoID \<mapsto> h)\<rparr>))"

definition RegisterHandler :: "int32 \<Rightarrow> ('s, 'e) HandlerFun option \<Rightarrow> ('s, 'e) MessageRouter \<Rightarrow> ('s, 'e) MessageRouter" where
  "RegisterHandler protoID handler r =
     (case handler of
        None \<Rightarrow> r
      | Some h \<Rightarrow> if sealed r then r else r\<lparr>handlers := (handlers r)(protoID \<mapsto> h)\<rparr>)"

definition TryUnregisterHandler :: "int32 \<Rightarrow> ('s, 'e) MessageRouter \<Rightarrow> router_error option \<times> ('s, 'e) MessageRouter" where
  "TryUnregisterHandler protoID r =
     (if sealed r then (Some ErrMessageRouterSealed, r) else (None, r\<lparr>handlers := (handlers r)(protoID := None)\<rparr>))"

definition UnregisterHandler :: "int32 \<Rightarrow> ('s, 'e) MessageRouter \<Rightarrow> ('s, 'e) MessageRouter" where
  "UnregisterHandler protoID r = snd (TryUnregisterHandler protoID r)"

definition TrySetFallback :: "('s, 'e) HandlerFun option \<Rightarrow> ('s, 'e) MessageRouter \<Rightarrow> router_error option \<times> ('s, 'e) MessageRouter" where
  "TrySetFallback handler r = (if sealed r then (Some ErrMessageRouterSealed, r) else (None, r\<lparr>fallback := handler\<rparr>))"

definition SetFallback :: "('s, 'e) HandlerFun option \<Rightarrow> ('s, 'e) MessageRouter \<Rightarrow> ('s, 'e) MessageRouter" where
  "SetFallback handler r = snd (TrySetFallback handler r)"

definition Seal :: "('s, 'e) MessageRouter \<Rightarrow> ('s, 'e) MessageRouter" where
  "Seal r = r\<lparr>sealed := True\<rparr>"

definition IsSealed :: "('s, 'e) MessageRouter \<Rightarrow> bool" where
  "IsSealed r = sealed r"

definition HasHandler :: "int32 \<Rightarrow> ('s, 'e) MessageRouter \<Rightarrow> bool" where
  "HasHandler protoID r \<longleftrightarrow> handlers r protoID \<noteq> None"

definition route :: "('s, 'e) MessageRouter \<Rightarrow> int32 \<Rightarrow> ('s, 'e) HandlerFun option" where
  "route r protoID = (case handlers r protoID of Some h \<Rightarrow> Some h | None \<Rightarrow> fallback r)"

text \<open>\<^verbatim>\<open>Dispatch\<close>: nil for a nil packet or an unknown message, otherwise what the handler returns.\<close>

definition Dispatch :: "'s \<Rightarrow> NetPacket option \<Rightarrow> ('s, 'e) MessageRouter \<Rightarrow> 'e option" where
  "Dispatch session packet r =
     (case packet of
        None \<Rightarrow> None
      | Some p \<Rightarrow> (case route r (ProtoId p) of None \<Rightarrow> None | Some h \<Rightarrow> h session p))"

section \<open>Strict registration and the seal\<close>

datatype ('s, 'e) router_op =
    R_TryRegister int32 "('s, 'e) HandlerFun option" | R_Register int32 "('s, 'e) HandlerFun option"
  | R_TryUnregister int32 | R_Unregister int32
  | R_TrySetFallback "('s, 'e) HandlerFun option" | R_SetFallback "('s, 'e) HandlerFun option" | R_Seal

text \<open>The error a method returns, and the router after it.\<close>

fun router_exec :: "('s, 'e) router_op \<Rightarrow> ('s, 'e) MessageRouter \<Rightarrow> router_error option \<times> ('s, 'e) MessageRouter" where
  "router_exec (R_TryRegister i h) r = TryRegisterHandler i h r"
| "router_exec (R_Register i h) r = (None, RegisterHandler i h r)"
| "router_exec (R_TryUnregister i) r = TryUnregisterHandler i r"
| "router_exec (R_Unregister i) r = (None, UnregisterHandler i r)"
| "router_exec (R_TrySetFallback h) r = TrySetFallback h r"
| "router_exec (R_SetFallback h) r = (None, SetFallback h r)"
| "router_exec R_Seal r = (None, Seal r)"

definition router_run :: "('s, 'e) router_op list \<Rightarrow> ('s, 'e) MessageRouter \<Rightarrow> ('s, 'e) MessageRouter" where
  "router_run as r = fold (\<lambda>a r. snd (router_exec a r)) as r"

lemma sealed_exec: "sealed r \<Longrightarrow> snd (router_exec a r) = r"
  by (cases a) (auto simp: TryRegisterHandler_def RegisterHandler_def TryUnregisterHandler_def UnregisterHandler_def TrySetFallback_def
      SetFallback_def Seal_def split: option.split)

lemma sealed_run: "sealed r \<Longrightarrow> router_run as r = r"
  by (induction as) (simp_all add: router_run_def sealed_exec)

text \<open>Only the original interface replaces a handler that is in the table.\<close>

fun replaces :: "int32 \<Rightarrow> ('s, 'e) router_op \<Rightarrow> bool" where
  "replaces i (R_Register j h) \<longleftrightarrow> i = j"
| "replaces i (R_TryUnregister j) \<longleftrightarrow> i = j"
| "replaces i (R_Unregister j) \<longleftrightarrow> i = j"
| "replaces i a \<longleftrightarrow> False"

lemma exec_keeps_handler: "handlers r i = Some h \<Longrightarrow> \<not> replaces i a \<Longrightarrow> handlers (snd (router_exec a r)) i = Some h"
  by (cases a) (auto simp: TryRegisterHandler_def RegisterHandler_def TryUnregisterHandler_def UnregisterHandler_def TrySetFallback_def
      SetFallback_def Seal_def split: option.split)

lemma run_keeps_handler: "handlers r i = Some h \<Longrightarrow> (\<forall>a\<in>set as. \<not> replaces i a) \<Longrightarrow> handlers (router_run as r) i = Some h"
  by (induction as arbitrary: r) (auto simp: router_run_def exec_keeps_handler)

text \<open>
  A registration that was accepted decides where messages of its number go, until the same number is
  registered through the original interface or unregistered; once the router is sealed, whatever is called afterwards
  every message goes where it went when the router was sealed, and every strict method reports it.
\<close>

theorem routes_are_stable:
  assumes "TryRegisterHandler i (Some h) r = (None, r')" "\<forall>a\<in>set as. \<not> replaces i a" "ProtoId p = i"
  shows "Dispatch s (Some p) (router_run as r') = h s p \<and>
    (\<forall>q bs. Dispatch s q (router_run bs (Seal (router_run as r'))) = Dispatch s q (router_run as r')) \<and>
    (\<forall>j g bs. fst (TryRegisterHandler j (Some g) (router_run bs (Seal (router_run as r')))) = Some ErrMessageRouterSealed)"
proof -
  have "handlers r' i = Some h" using assms(1) by (auto simp: TryRegisterHandler_def split: if_splits)
  from run_keeps_handler [OF this assms(2)] have "handlers (router_run as r') i = Some h" .
  then have "Dispatch s (Some p) (router_run as r') = h s p" using assms(3) by (simp add: Dispatch_def route_def)
  moreover have "router_run bs (Seal (router_run as r')) = Seal (router_run as r')" for bs by (rule sealed_run) (simp add: Seal_def)
  moreover have "Dispatch s q (Seal t) = Dispatch s q t" for q and t :: "('a, 'b) MessageRouter"
    by (simp add: Dispatch_def route_def Seal_def split: option.split)
  ultimately show ?thesis by (simp add: TryRegisterHandler_def Seal_def)
qed

theorem routes_are_stable_witness:
  "Dispatch () (Some (zero_packet\<lparr>ProtoId := 7\<rparr>))
     (router_run [R_TryRegister 7 (Some (\<lambda>s p. Some ''other''))] (snd (TryRegisterHandler 7 (Some (\<lambda>s p. Some ''login'')) NewMessageRouter)))
     = Some ''login''"
proof -
  have "TryRegisterHandler 7 (Some (\<lambda>s p. Some ''login'')) NewMessageRouter =
      (None, snd (TryRegisterHandler 7 (Some (\<lambda>s p. Some ''login'')) (NewMessageRouter :: (unit, string) MessageRouter)))"
    by (simp add: TryRegisterHandler_def NewMessageRouter_def)
  from routes_are_stable [OF this, of "[R_TryRegister 7 (Some (\<lambda>s p. Some ''other''))]" "zero_packet\<lparr>ProtoId := 7\<rparr>" "()"]
  show ?thesis by simp
qed

end
