(* ===== verification/Health.thy ===== *)
theory Health
  imports Prelude "HOL-Library.Char_ord" "HOL-Library.List_Lexorder" "HOL-Library.Multiset"
begin

text \<open>
  \<^verbatim>\<open>zHealth\<close>: the manager of probes (\<^verbatim>\<open>manager.go\<close>, \<^verbatim>\<open>state.go\<close>), its facade (\<^verbatim>\<open>checker.go\<close>) and the
  built-in checkers (\<^verbatim>\<open>checkers.go\<close>).

  The map of entries holds pointers, since a running probe writes into its entry even after the entry was replaced:
  an entry is a position in \<open>heap\<close>. The map is a list of bindings; the order of its range disappears in the sort by
  name. Probes, and what they return, are inputs. \<open>health_step\<close> interleaves the locked sections of callers, of
  \<^verbatim>\<open>Refresh\<close>, of \<^verbatim>\<open>executeProbe\<close> and of the goroutines that run the probes.
\<close>

section \<open>Data\<close>

text \<open>A channel \<^verbatim>\<open>done\<close> is named by the run it was made for.\<close>

type_synonym HealthStatus = string
type_synonym ProbeScope = string

definition HealthStatusHealthy :: HealthStatus where "HealthStatusHealthy = ''healthy''"
definition HealthStatusDegraded :: HealthStatus where "HealthStatusDegraded = ''degraded''"
definition HealthStatusUnhealthy :: HealthStatus where "HealthStatusUnhealthy = ''unhealthy''"
definition HealthStatusUnknown :: HealthStatus where "HealthStatusUnknown = ''unknown''"

definition ProbeScopeLiveness :: ProbeScope where "ProbeScopeLiveness = ''liveness''"
definition ProbeScopeReadiness :: ProbeScope where "ProbeScopeReadiness = ''readiness''"
definition ProbeScopeDiagnostics :: ProbeScope where "ProbeScopeDiagnostics = ''diagnostics''"

lemmas status_defs = HealthStatusHealthy_def HealthStatusDegraded_def HealthStatusUnhealthy_def HealthStatusUnknown_def
lemmas scope_defs = ProbeScopeLiveness_def ProbeScopeReadiness_def ProbeScopeDiagnostics_def

definition status_IsHealthy :: "HealthStatus \<Rightarrow> bool" where
  "status_IsHealthy h \<longleftrightarrow> h = HealthStatusHealthy"

definition IsAvailable :: "HealthStatus \<Rightarrow> bool" where
  "IsAvailable h \<longleftrightarrow> h = HealthStatusHealthy \<or> h = HealthStatusDegraded"

record 'd CheckResult =
  cr_Status :: HealthStatus
  cr_Message :: string
  cr_Details :: "'d option"

record ProbeConfig =
  pc_Name :: string
  pc_Scope :: ProbeScope
  pc_Timeout :: duration
  pc_CacheTTL :: duration
  pc_Check :: bool

record 'd HealthCheck =
  hc_Name :: string
  hc_Scope :: ProbeScope
  hc_Status :: HealthStatus
  Latency :: duration
  LastCheck :: time
  LastSuccess :: time
  Message :: string
  Details :: "'d option"
  TimedOut :: bool

definition zero_check :: "'d HealthCheck" where
  "zero_check = \<lparr>hc_Name = [], hc_Scope = [], hc_Status = [], Latency = 0, LastCheck = 0, LastSuccess = 0, Message = [],
     Details = None, TimedOut = False\<rparr>"

record 'd probeEntry =
  config :: ProbeConfig
  hc_result :: "'d HealthCheck"
  hasResult :: bool
  nextRun :: time
  running :: bool
  done_chan :: nat

definition new_entry :: "ProbeConfig \<Rightarrow> 'd probeEntry" where
  "new_entry c = \<lparr>config = c, hc_result = zero_check, hasResult = False, nextRun = 0, running = False, done_chan = 0\<rparr>"

record 'd HealthManager =
  serverID :: string
  serverType :: string
  startTime :: time
  heap :: "'d probeEntry list"
  entries :: "(string \<times> nat) list"
  updatedAt :: time

definition NewHealthManager :: "time \<Rightarrow> string \<Rightarrow> string \<Rightarrow> 'd HealthManager" where
  "NewHealthManager now sid st = \<lparr>serverID = sid, serverType = st, startTime = now, heap = [], entries = [], updatedAt = 0\<rparr>"

definition defaultProbeTimeout :: duration where
  "defaultProbeTimeout = 10 ^ 9"

definition validProbeScope :: "ProbeScope \<Rightarrow> bool" where
  "validProbeScope s \<longleftrightarrow> s = ProbeScopeLiveness \<or> s = ProbeScopeReadiness \<or> s = ProbeScopeDiagnostics"

section \<open>Registration\<close>

datatype health_error = NameRequired | InvalidScope ProbeScope | CheckNil string | NegativeDuration string

definition put_entry :: "string \<Rightarrow> 'd probeEntry \<Rightarrow> 'd HealthManager \<Rightarrow> 'd HealthManager" where
  "put_entry name e m = m\<lparr>heap := heap m @ [e], entries := AList.update name (length (heap m)) (entries m)\<rparr>"

definition RegisterProbe :: "time \<Rightarrow> ProbeConfig \<Rightarrow> 'd HealthManager \<Rightarrow> health_error option \<times> 'd HealthManager" where
  "RegisterProbe now c m =
     (let c = c\<lparr>pc_Name := TrimSpace (pc_Name c)\<rparr> in
      if pc_Name c = [] then (Some NameRequired, m)
      else if \<not> validProbeScope (pc_Scope c) then (Some (InvalidScope (pc_Scope c)), m)
      else if \<not> pc_Check c then (Some (CheckNil (pc_Name c)), m)
      else if pc_Timeout c < 0 \<or> pc_CacheTTL c < 0 then (Some (NegativeDuration (pc_Name c)), m)
      else let c = (if pc_Timeout c = 0 then c\<lparr>pc_Timeout := defaultProbeTimeout\<rparr> else c)
           in (None, (put_entry (pc_Name c) (new_entry c) m)\<lparr>updatedAt := now\<rparr>))"

text \<open>\<^verbatim>\<open>RegisterCheck\<close> takes the name of the checker, none for nil; the facade's method has the same body.\<close>

definition RegisterCheck :: "time \<Rightarrow> string option \<Rightarrow> 'd HealthManager \<Rightarrow> 'd HealthManager" where
  "RegisterCheck now checker m =
     (case checker of
        None \<Rightarrow> m
      | Some name \<Rightarrow>
          snd (RegisterProbe now \<lparr>pc_Name = name, pc_Scope = ProbeScopeReadiness, pc_Timeout = defaultProbeTimeout, pc_CacheTTL = 0, pc_Check = True\<rparr> m))"

definition Checker_RegisterCheck :: "time \<Rightarrow> string \<Rightarrow> bool \<Rightarrow> 'd HealthManager \<Rightarrow> 'd HealthManager" where
  "Checker_RegisterCheck now name fn m =
     (if \<not> fn then m
      else snd (RegisterProbe now \<lparr>pc_Name = name, pc_Scope = ProbeScopeReadiness, pc_Timeout = defaultProbeTimeout, pc_CacheTTL = 0, pc_Check = True\<rparr> m))"

definition UnregisterCheck :: "time \<Rightarrow> string \<Rightarrow> 'd HealthManager \<Rightarrow> 'd HealthManager" where
  "UnregisterCheck now name m = m\<lparr>entries := AList.delete name (entries m), updatedAt := now\<rparr>"

text \<open>The entry \<^verbatim>\<open>UpdateStatus\<close> writes to: the one in the map if it has no probe, otherwise a new one.\<close>

definition status_entry :: "string \<Rightarrow> ProbeScope \<Rightarrow> 'd HealthManager \<Rightarrow> nat \<times> 'd HealthManager" where
  "status_entry name scope m =
     (let fresh = (length (heap m), put_entry name (new_entry \<lparr>pc_Name = name, pc_Scope = scope, pc_Timeout = 0, pc_CacheTTL = 0, pc_Check = False\<rparr>) m)
      in case map_of (entries m) name of
           None \<Rightarrow> fresh
         | Some i \<Rightarrow> if pc_Check (config (heap m ! i)) then fresh else (i, m))"

definition UpdateStatus :: "time \<Rightarrow> string \<Rightarrow> ProbeScope \<Rightarrow> HealthStatus \<Rightarrow> string \<Rightarrow> 'd option \<Rightarrow> 'd HealthManager \<Rightarrow> health_error option \<times> 'd HealthManager" where
  "UpdateStatus now name scope status message details m =
     (let name = TrimSpace name in
      if name = [] then (Some NameRequired, m)
      else if \<not> validProbeScope scope then (Some (InvalidScope scope), m)
      else
        let status = (if status = [] then HealthStatusUnknown else status) in
        case status_entry name scope m of
          (i, m) \<Rightarrow>
            let e = heap m ! i;
                lastSuccess = (if IsAvailable status then now else LastSuccess (hc_result e));
                r = \<lparr>hc_Name = name, hc_Scope = scope, hc_Status = status, Latency = 0, LastCheck = now, LastSuccess = lastSuccess,
                     Message = message, Details = details, TimedOut = False\<rparr>
            in (None, m\<lparr>heap := (heap m)[i := e\<lparr>hc_result := r, hasResult := True\<rparr>], updatedAt := now\<rparr>))"

definition UpdateComponentStatus :: "time \<Rightarrow> string \<Rightarrow> string \<Rightarrow> string \<Rightarrow> 'd HealthManager \<Rightarrow> 'd HealthManager" where
  "UpdateComponentStatus now name status message m = snd (UpdateStatus now name ProbeScopeReadiness status message None m)"

section \<open>Reports\<close>

record 'd HealthReport =
  rep_ServerID :: string
  rep_ServerType :: string
  Live :: bool
  Ready :: bool
  Healthy :: bool
  Liveness :: HealthStatus
  Readiness :: HealthStatus
  rep_StartTime :: time
  GeneratedAt :: time
  Checks :: "'d HealthCheck list"

fun aggregate_loop :: "HealthStatus \<Rightarrow> bool \<Rightarrow> ProbeScope \<Rightarrow> 'd HealthCheck list \<Rightarrow> HealthStatus \<times> bool" where
  "aggregate_loop status found scope [] = (if found then (status, True) else (HealthStatusUnknown, False))"
| "aggregate_loop status found scope (c # cs) =
     (if hc_Scope c \<noteq> scope then aggregate_loop status found scope cs
      else if hc_Status c = HealthStatusUnhealthy then (HealthStatusUnhealthy, True)
      else if hc_Status c = HealthStatusUnknown then aggregate_loop HealthStatusUnknown True scope cs
      else if hc_Status c = HealthStatusDegraded then
        aggregate_loop (if status = HealthStatusHealthy then HealthStatusDegraded else status) True scope cs
      else if hc_Status c = HealthStatusHealthy then aggregate_loop status True scope cs
      else aggregate_loop HealthStatusUnknown True scope cs)"

definition aggregate :: "'d HealthCheck list \<Rightarrow> ProbeScope \<Rightarrow> HealthStatus \<times> bool" where
  "aggregate cs scope = aggregate_loop HealthStatusHealthy False scope cs"

definition entry_check :: "string \<Rightarrow> 'd probeEntry \<Rightarrow> 'd HealthCheck" where
  "entry_check name e =
     (if hasResult e then hc_result e
      else zero_check\<lparr>hc_Name := name, hc_Scope := pc_Scope (config e), hc_Status := HealthStatusUnknown, Message := ''probe has not run''\<rparr>)"

definition GetHealthReport :: "'d HealthManager \<Rightarrow> 'd HealthReport" where
  "GetHealthReport m =
     (let checks = sort_key hc_Name (map (\<lambda>(name, i). entry_check name (heap m ! i)) (entries m));
          (liveness, hasLiveness) = aggregate checks ProbeScopeLiveness;
          (readiness, hasReadiness) = aggregate checks ProbeScopeReadiness;
          updated = (if IsZero (updatedAt m) then startTime m else updatedAt m);
          healthy = ((hasLiveness \<or> hasReadiness) \<and> (\<not> hasLiveness \<or> status_IsHealthy liveness) \<and> (\<not> hasReadiness \<or> status_IsHealthy readiness))
      in \<lparr>rep_ServerID = serverID m, rep_ServerType = serverType m, Live = hasLiveness \<and> IsAvailable liveness,
          Ready = hasReadiness \<and> IsAvailable readiness, Healthy = healthy, Liveness = liveness, Readiness = readiness,
          rep_StartTime = startTime m, GeneratedAt = updated, Checks = checks\<rparr>)"

definition IsLive :: "'d HealthManager \<Rightarrow> bool" where "IsLive m = Live (GetHealthReport m)"
definition IsReady :: "'d HealthManager \<Rightarrow> bool" where "IsReady m = Ready (GetHealthReport m)"
definition IsHealthy :: "'d HealthManager \<Rightarrow> bool" where "IsHealthy m = Healthy (GetHealthReport m)"

definition HealthManager_HealthStatus :: "'d HealthManager \<Rightarrow> bool \<times> bool \<times> bool" where
  "HealthManager_HealthStatus m = (let r = GetHealthReport m in (Live r, Ready r, Healthy r))"

definition GetHealthDetails :: "'d HealthManager \<Rightarrow> string \<rightharpoonup> 'd HealthCheck" where
  "GetHealthDetails m = fold (\<lambda>c f. f(hc_Name c \<mapsto> c)) (Checks (GetHealthReport m)) Map.empty"

record ComponentStatus =
  cs_Name :: string
  cs_Status :: string
  cs_Message :: string
  cs_Timestamp :: time
  cs_LastSuccess :: time

definition componentStatus :: "'d HealthCheck \<Rightarrow> ComponentStatus" where
  "componentStatus c = \<lparr>cs_Name = hc_Name c, cs_Status = hc_Status c, cs_Message = Message c, cs_Timestamp = LastCheck c, cs_LastSuccess = LastSuccess c\<rparr>"

definition GetComponentStatus :: "string \<Rightarrow> 'd HealthManager \<Rightarrow> ComponentStatus option" where
  "GetComponentStatus name m = map_option componentStatus (GetHealthDetails m name)"

definition GetAllComponentStatus :: "'d HealthManager \<Rightarrow> string \<rightharpoonup> ComponentStatus" where
  "GetAllComponentStatus m = (\<lambda>name. map_option componentStatus (GetHealthDetails m name))"

section \<open>Built-in checkers\<close>

text \<open>The figures of the runtime are arguments. \<^verbatim>\<open>Alloc\<close> is a \<^verbatim>\<open>uint64\<close>.\<close>

definition positive_or :: "int \<Rightarrow> int list \<Rightarrow> int" where
  "positive_or def xs = (case xs of [] \<Rightarrow> def | x # _ \<Rightarrow> if x > 0 then x else def)"

definition MemoryChecker_Check :: "int list \<Rightarrow> uint64 \<Rightarrow> HealthStatus \<times> string" where
  "MemoryChecker_Check maxMemoryMB alloc =
     (let mx = of_int (positive_or 1024 maxMemoryMB) :: uint64; currentMB = alloc div 1024 div 1024
      in if currentMB > mx then (HealthStatusUnhealthy, ''Memory usage exceeds threshold'')
         else if currentMB > mx * 80 div 100 then (HealthStatusDegraded, ''Memory usage approaching threshold'')
         else (HealthStatusHealthy, ''Memory usage is normal''))"

definition GoroutineChecker_Check :: "int list \<Rightarrow> int \<Rightarrow> HealthStatus \<times> string" where
  "GoroutineChecker_Check maxGoroutines current =
     (let mx = positive_or 1000 maxGoroutines
      in if current > mx then (HealthStatusUnhealthy, ''Goroutine count exceeds threshold'')
         else if current > quot (wrap64 (mx * 80)) 100 then (HealthStatusDegraded, ''Goroutine count approaching threshold'')
         else (HealthStatusHealthy, ''Goroutine count is normal''))"

definition DiskChecker_Check :: "HealthStatus \<times> string" where
  "DiskChecker_Check = (HealthStatusUnknown, ''Disk check not implemented'')"

definition TimeChecker_Check :: "HealthStatus \<times> string" where
  "TimeChecker_Check = (HealthStatusUnknown, ''Time check not implemented'')"

definition GCChecker_Check :: "uint32 \<Rightarrow> HealthStatus \<times> string" where
  "GCChecker_Check numGC =
     (if numGC > 1000 then (HealthStatusDegraded, ''GC count is high'') else (HealthStatusHealthy, ''GC status is normal''))"

section \<open>Running probes\<close>

record 'd outcome =
  out_result :: "'d CheckResult"
  out_err :: "string option"

text \<open>\<^verbatim>\<open>executeProbe\<close> after the select: what the error and an empty status make of the result.\<close>

definition settle :: "'d outcome \<Rightarrow> 'd CheckResult" where
  "settle o1 =
     (let r = out_result o1 in
      case out_err o1 of
        Some e \<Rightarrow> r\<lparr>cr_Status := HealthStatusUnhealthy, cr_Message := if cr_Message r = [] then e else cr_Message r\<rparr>
      | None \<Rightarrow>
          if cr_Status r = [] then r\<lparr>cr_Status := HealthStatusUnknown, cr_Message := if cr_Message r = [] then ''probe returned no status'' else cr_Message r\<rparr>
          else r)"

datatype 'd probe_pc = G_Run | G_Sent "'d outcome" | G_Exit
datatype 'd exec_pc = E_Select | E_Write "'d outcome" bool bool | E_Wait | E_Exit

record 'd probe_run =
  run_entry :: nat
  probe :: "'d probe_pc"
  exec :: "'d exec_pc"
  recorded :: bool
  done_closed :: bool

datatype 'd refresh_pc = F_Begin | F_Wait "nat list" | F_Done "'d HealthReport"

record 'd hsys =
  mgr :: "'d HealthManager"
  runs :: "'d probe_run list"
  refreshers :: "'d refresh_pc list"
  refreshMu :: bool
  close_panic :: bool

definition due :: "time \<Rightarrow> 'd probeEntry \<Rightarrow> bool" where
  "due now e \<longleftrightarrow> \<not> (\<not> pc_Check (config e) \<or> running e \<or> (\<not> IsZero (nextRun e) \<and> now < nextRun e))"

text \<open>The loop of \<^verbatim>\<open>Refresh\<close> over the entries.\<close>

fun start_due :: "time \<Rightarrow> nat list \<Rightarrow> 'd hsys \<Rightarrow> nat list \<times> 'd hsys" where
  "start_due now [] s = ([], s)"
| "start_due now (i # is) s =
     (if due now (heap (mgr s) ! i)
      then let k = length (runs s);
               s = s\<lparr>mgr := (mgr s)\<lparr>heap := (heap (mgr s))[i := (heap (mgr s) ! i)\<lparr>running := True, done_chan := k\<rparr>]\<rparr>,
                     runs := runs s @ [\<lparr>run_entry = i, probe = G_Run, exec = E_Select, recorded = False, done_closed = False\<rparr>]\<rparr>
           in case start_due now is s of (ks, s) \<Rightarrow> (k # ks, s)
      else start_due now is s)"

definition Refresh_lock :: "time \<Rightarrow> nat \<Rightarrow> 'd hsys \<Rightarrow> 'd hsys" where
  "Refresh_lock now j s =
     (case start_due now (map snd (entries (mgr s))) s of
        (ks, s) \<Rightarrow> s\<lparr>refreshMu := True, refreshers := (refreshers s)[j := F_Wait ks]\<rparr>)"

definition Refresh_finish :: "nat \<Rightarrow> 'd hsys \<Rightarrow> 'd hsys" where
  "Refresh_finish j s = s\<lparr>refreshMu := False, refreshers := (refreshers s)[j := F_Done (GetHealthReport (mgr s))]\<rparr>"

definition set_run :: "nat \<Rightarrow> 'd probe_run \<Rightarrow> 'd hsys \<Rightarrow> 'd hsys" where
  "set_run k r s = s\<lparr>runs := (runs s)[k := r]\<rparr>"

text \<open>The section of \<^verbatim>\<open>executeProbe\<close> that records the snapshot, and the closing of \<^verbatim>\<open>snapshotRecorded\<close>.\<close>

definition record_snapshot :: "time \<Rightarrow> time \<Rightarrow> 'd CheckResult \<Rightarrow> bool \<Rightarrow> nat \<Rightarrow> 'd HealthManager \<Rightarrow> 'd HealthManager" where
  "record_snapshot started finished r timedOut i m =
     (let e = heap m ! i;
          lastSuccess = (if IsAvailable (cr_Status r) then finished else LastSuccess (hc_result e));
          c = \<lparr>hc_Name = pc_Name (config e), hc_Scope = pc_Scope (config e), hc_Status = cr_Status r, Latency = time_Sub finished started,
               LastCheck = finished, LastSuccess = lastSuccess, Message = cr_Message r, Details = cr_Details r, TimedOut = timedOut\<rparr>
      in m\<lparr>heap := (heap m)[i := e\<lparr>hc_result := c, hasResult := True, nextRun := finished + pc_CacheTTL (config e)\<rparr>], updatedAt := finished\<rparr>)"

definition no_result :: "'d CheckResult" where
  "no_result = \<lparr>cr_Status = [], cr_Message = [], cr_Details = None\<rparr>"

definition exec_receive :: "nat \<Rightarrow> 'd hsys \<Rightarrow> 'd hsys option" where
  "exec_receive k s =
     (case (exec (runs s ! k), probe (runs s ! k)) of
        (E_Select, G_Sent out) \<Rightarrow> Some (set_run k ((runs s ! k)\<lparr>exec := E_Write out False True\<rparr>) s)
      | _ \<Rightarrow> None)"

definition exec_timeout :: "bool \<Rightarrow> nat \<Rightarrow> 'd hsys \<Rightarrow> 'd hsys option" where
  "exec_timeout deadline k s =
     (case exec (runs s ! k) of
        E_Select \<Rightarrow>
          (let e = (if deadline then ''context deadline exceeded'' else ''context canceled'')
           in Some (set_run k ((runs s ! k)\<lparr>exec := E_Write \<lparr>out_result = no_result, out_err = Some e\<rparr> deadline False\<rparr>) s))
      | _ \<Rightarrow> None)"

definition exec_write :: "time \<Rightarrow> time \<Rightarrow> nat \<Rightarrow> 'd hsys \<Rightarrow> 'd hsys option" where
  "exec_write started finished k s =
     (case exec (runs s ! k) of
        E_Write out timedOut completed \<Rightarrow>
          (let r = runs s ! k;
               m = record_snapshot started finished (settle out) timedOut (run_entry r) (mgr s)
           in Some (set_run k (r\<lparr>exec := if completed then E_Wait else E_Exit, recorded := True\<rparr>) (s\<lparr>mgr := m\<rparr>)))
      | _ \<Rightarrow> None)"

definition exec_done :: "nat \<Rightarrow> 'd hsys \<Rightarrow> 'd hsys option" where
  "exec_done k s =
     (if exec (runs s ! k) = E_Wait \<and> done_closed (runs s ! k) then Some (set_run k ((runs s ! k)\<lparr>exec := E_Exit\<rparr>) s) else None)"

definition probe_return :: "'d outcome \<Rightarrow> nat \<Rightarrow> 'd hsys \<Rightarrow> 'd hsys option" where
  "probe_return out k s = (if probe (runs s ! k) = G_Run then Some (set_run k ((runs s ! k)\<lparr>probe := G_Sent out\<rparr>) s) else None)"

text \<open>The deferred end of the goroutine: it closes the channel the entry names at that moment.\<close>

definition probe_exit :: "nat \<Rightarrow> 'd hsys \<Rightarrow> 'd hsys option" where
  "probe_exit k s =
     (case probe (runs s ! k) of
        G_Sent out \<Rightarrow>
          if \<not> recorded (runs s ! k) then None
          else let i = run_entry (runs s ! k); c = done_chan (heap (mgr s) ! i);
                   s = set_run k ((runs s ! k)\<lparr>probe := G_Exit\<rparr>) s;
                   s = s\<lparr>mgr := (mgr s)\<lparr>heap := (heap (mgr s))[i := (heap (mgr s) ! i)\<lparr>running := False\<rparr>]\<rparr>\<rparr>
               in Some (if done_closed (runs s ! c) then s\<lparr>close_panic := True\<rparr> else set_run c ((runs s ! c)\<lparr>done_closed := True\<rparr>) s)
      | _ \<Rightarrow> None)"

definition run_steps :: "nat \<Rightarrow> 'd hsys \<Rightarrow> 'd hsys \<Rightarrow> bool" where
  "run_steps k s s' \<longleftrightarrow> exec_receive k s = Some s' \<or> (\<exists>b. exec_timeout b k s = Some s') \<or> (\<exists>t0 t. exec_write t0 t k s = Some s') \<or>
     exec_done k s = Some s' \<or> probe_exit k s = Some s'"

inductive health_step :: "'d hsys \<Rightarrow> 'd hsys \<Rightarrow> bool" where
  register: "health_step s (s\<lparr>mgr := snd (RegisterProbe now c (mgr s))\<rparr>)"
| unregister: "health_step s (s\<lparr>mgr := UnregisterCheck now name (mgr s)\<rparr>)"
| update: "health_step s (s\<lparr>mgr := snd (UpdateStatus now name scope status message details (mgr s))\<rparr>)"
| refresh: "health_step s (s\<lparr>refreshers := refreshers s @ [F_Begin]\<rparr>)"
| lock: "j < length (refreshers s) \<Longrightarrow> refreshers s ! j = F_Begin \<Longrightarrow> \<not> refreshMu s \<Longrightarrow> health_step s (Refresh_lock now j s)"
| finish: "j < length (refreshers s) \<Longrightarrow> refreshers s ! j = F_Wait ks \<Longrightarrow> (\<forall>k\<in>set ks. exec (runs s ! k) = E_Exit) \<Longrightarrow> health_step s (Refresh_finish j s)"
| return: "k < length (runs s) \<Longrightarrow> probe_return out k s = Some s' \<Longrightarrow> health_step s s'"
| run: "k < length (runs s) \<Longrightarrow> run_steps k s s' \<Longrightarrow> health_step s s'"

definition health_init :: "time \<Rightarrow> string \<Rightarrow> string \<Rightarrow> 'd hsys" where
  "health_init now sid st = \<lparr>mgr = NewHealthManager now sid st, runs = [], refreshers = [], refreshMu = False, close_panic = False\<rparr>"

inductive health_reach :: "'d hsys \<Rightarrow> bool" where
  init: "health_reach (health_init now sid st)"
| step: "health_reach s \<Longrightarrow> health_step s s' \<Longrightarrow> health_reach s'"

section \<open>What a report says\<close>

fun worst :: "HealthStatus set \<Rightarrow> HealthStatus" where
  "worst S = (if HealthStatusUnhealthy \<in> S then HealthStatusUnhealthy else if \<not> S \<subseteq> {HealthStatusHealthy, HealthStatusDegraded} then HealthStatusUnknown
     else if HealthStatusDegraded \<in> S then HealthStatusDegraded else HealthStatusHealthy)"

definition scope_statuses :: "ProbeScope \<Rightarrow> 'd HealthCheck list \<Rightarrow> HealthStatus set" where
  "scope_statuses scope cs = hc_Status ` {c \<in> set cs. hc_Scope c = scope}"

lemma status_distinct [simp]:
  "HealthStatusHealthy \<noteq> HealthStatusDegraded" "HealthStatusHealthy \<noteq> HealthStatusUnhealthy" "HealthStatusHealthy \<noteq> HealthStatusUnknown"
  "HealthStatusDegraded \<noteq> HealthStatusHealthy" "HealthStatusDegraded \<noteq> HealthStatusUnhealthy" "HealthStatusDegraded \<noteq> HealthStatusUnknown"
  "HealthStatusUnhealthy \<noteq> HealthStatusHealthy" "HealthStatusUnhealthy \<noteq> HealthStatusDegraded" "HealthStatusUnhealthy \<noteq> HealthStatusUnknown"
  "HealthStatusUnknown \<noteq> HealthStatusHealthy" "HealthStatusUnknown \<noteq> HealthStatusDegraded" "HealthStatusUnknown \<noteq> HealthStatusUnhealthy"
  by (simp_all add: status_defs)

lemma scope_statuses_Cons: "scope_statuses scope (c # cs) = (if hc_Scope c = scope then insert (hc_Status c) (scope_statuses scope cs) else scope_statuses scope cs)"
  by (auto simp: scope_statuses_def)

lemma aggregate_loop_exact:
  "status \<in> {HealthStatusHealthy, HealthStatusDegraded, HealthStatusUnknown} \<Longrightarrow>
   aggregate_loop status found scope cs =
     (if found \<or> scope_statuses scope cs \<noteq> {} then (worst (insert status (scope_statuses scope cs)), True) else (HealthStatusUnknown, False))"
proof (induction status found scope cs rule: aggregate_loop.induct)
  case (1 status found scope)
  then show ?case by (auto simp: scope_statuses_def)
next
  case (2 status found scope c cs)
  show ?case
  proof (cases "hc_Scope c = scope")
    case False
    then show ?thesis using 2 by (simp add: scope_statuses_Cons)
  next
    case True
    then show ?thesis using 2 by (auto simp: scope_statuses_Cons)
  qed
qed

definition mgr_ok :: "'d HealthManager \<Rightarrow> bool" where
  "mgr_ok m \<longleftrightarrow> distinct (map fst (entries m)) \<and>
     (\<forall>(n, i)\<in>set (entries m). i < length (heap m) \<and> pc_Name (config (heap m ! i)) = n \<and> (hasResult (heap m ! i) \<longrightarrow> hc_Name (hc_result (heap m ! i)) = n))"

lemma update_bindings: "(n, i) \<in> set (AList.update k v al) \<Longrightarrow> distinct (map fst al) \<Longrightarrow> n = k \<and> i = v \<or> n \<noteq> k \<and> (n, i) \<in> set al"
  by (induction al) (auto split: if_splits simp: rev_image_eqI)

lemma mgr_okD: "mgr_ok m \<Longrightarrow> (n, i) \<in> set (entries m) \<Longrightarrow>
    i < length (heap m) \<and> pc_Name (config (heap m ! i)) = n \<and> (hasResult (heap m ! i) \<longrightarrow> hc_Name (hc_result (heap m ! i)) = n)"
  by (auto simp: mgr_ok_def)

lemma mgr_okI:
  assumes "distinct (map fst (entries m))" "\<And>n i. (n, i) \<in> set (entries m) \<Longrightarrow>
    i < length (heap m) \<and> pc_Name (config (heap m ! i)) = n \<and> (hasResult (heap m ! i) \<longrightarrow> hc_Name (hc_result (heap m ! i)) = n)"
  shows "mgr_ok m"
  using assms by (auto simp: mgr_ok_def)

lemma mgr_ok_updatedAt [simp]: "mgr_ok (m\<lparr>updatedAt := t\<rparr>) = mgr_ok m"
  by (simp add: mgr_ok_def)

lemma mgr_ok_put:
  assumes "mgr_ok m" "pc_Name (config e) = name" "\<not> hasResult e"
  shows "mgr_ok (put_entry name e m)"
proof (rule mgr_okI)
  have d: "distinct (map fst (entries m))" using assms(1) by (simp add: mgr_ok_def)
  then show "distinct (map fst (entries (put_entry name e m)))" by (simp add: put_entry_def distinct_update)
  fix n i assume "(n, i) \<in> set (entries (put_entry name e m))"
  then have "n = name \<and> i = length (heap m) \<or> (n, i) \<in> set (entries m)" using update_bindings [OF _ d] by (auto simp: put_entry_def)
  then show "i < length (heap (put_entry name e m)) \<and> pc_Name (config (heap (put_entry name e m) ! i)) = n \<and>
      (hasResult (heap (put_entry name e m) ! i) \<longrightarrow> hc_Name (hc_result (heap (put_entry name e m) ! i)) = n)"
    using mgr_okD [OF assms(1), of n i] assms(2,3) by (auto simp: put_entry_def nth_append)
qed

lemma mgr_ok_entry:
  assumes "mgr_ok m" "config e = config (heap m ! i)" "hasResult e \<Longrightarrow> hc_Name (hc_result e) = pc_Name (config e) \<or> hasResult (heap m ! i) \<and> hc_result e = hc_result (heap m ! i)"
  shows "mgr_ok (m\<lparr>heap := (heap m)[i := e]\<rparr>)"
proof (rule mgr_okI)
  show "distinct (map fst (entries (m\<lparr>heap := (heap m)[i := e]\<rparr>)))" using assms(1) by (simp add: mgr_ok_def)
  fix n j assume "(n, j) \<in> set (entries (m\<lparr>heap := (heap m)[i := e]\<rparr>))"
  then have "(n, j) \<in> set (entries m)" by simp
  from mgr_okD [OF assms(1) this] show "j < length (heap (m\<lparr>heap := (heap m)[i := e]\<rparr>)) \<and> pc_Name (config (heap (m\<lparr>heap := (heap m)[i := e]\<rparr>) ! j)) = n \<and>
      (hasResult (heap (m\<lparr>heap := (heap m)[i := e]\<rparr>) ! j) \<longrightarrow> hc_Name (hc_result (heap (m\<lparr>heap := (heap m)[i := e]\<rparr>) ! j)) = n)"
    using assms(2,3) by (cases "i = j") auto
qed

lemma mgr_ok_Register: "mgr_ok m \<Longrightarrow> mgr_ok (snd (RegisterProbe now c m))"
  by (simp add: RegisterProbe_def Let_def mgr_ok_put new_entry_def)

lemma mgr_ok_Unregister: "mgr_ok m \<Longrightarrow> mgr_ok (UnregisterCheck now name m)"
  by (auto simp: UnregisterCheck_def mgr_ok_def AList.delete_eq distinct_map_filter)

lemma status_entry_ok:
  assumes "mgr_ok m" "status_entry name scope m = (i, m')"
  shows "mgr_ok m'" "i < length (heap m')" "pc_Name (config (heap m' ! i)) = name"
proof -
  let ?f = "new_entry \<lparr>pc_Name = name, pc_Scope = scope, pc_Timeout = 0, pc_CacheTTL = 0, pc_Check = False\<rparr> :: 'a probeEntry"
  have "mgr_ok (put_entry name ?f m)" by (rule mgr_ok_put [OF assms(1)]) (simp_all add: new_entry_def)
  moreover have "(i = length (heap m) \<and> m' = put_entry name ?f m) \<or> (map_of (entries m) name = Some i \<and> m' = m)"
    using assms(2) by (auto simp: status_entry_def Let_def split: option.splits if_splits)
  ultimately show "mgr_ok m'" "i < length (heap m')" "pc_Name (config (heap m' ! i)) = name"
    using assms(1) mgr_okD [OF assms(1) map_of_SomeD] by (auto simp: put_entry_def new_entry_def)
qed

lemma mgr_ok_UpdateStatus:
  assumes "mgr_ok m"
  shows "mgr_ok (snd (UpdateStatus now name scope status message details m))"
proof -
  obtain i m' where s: "status_entry (TrimSpace name) scope m = (i, m')" by fastforce
  note o = status_entry_ok [OF assms s]
  show ?thesis using assms
    by (auto simp: UpdateStatus_def Let_def s intro!: mgr_ok_entry [OF o(1)] o(3) [symmetric])
qed

lemma mgr_ok_snapshot: "mgr_ok m \<Longrightarrow> mgr_ok (record_snapshot t0 t r b i m)"
  unfolding record_snapshot_def Let_def by (simp add: mgr_ok_entry)

section \<open>Single flight\<close>

definition local_ok :: "'d probe_run \<Rightarrow> bool" where
  "local_ok r \<longleftrightarrow> (done_closed r \<longleftrightarrow> probe r = G_Exit) \<and> (probe r = G_Exit \<longrightarrow> recorded r) \<and>
     (recorded r \<longleftrightarrow> exec r = E_Wait \<or> exec r = E_Exit) \<and> (exec r = E_Wait \<or> (\<exists>out b. exec r = E_Write out b True) \<longrightarrow> probe r \<noteq> G_Run)"

definition run_ok :: "'d hsys \<Rightarrow> nat \<Rightarrow> bool" where
  "run_ok s k \<longleftrightarrow> run_entry (runs s ! k) < length (heap (mgr s)) \<and> local_ok (runs s ! k) \<and>
     (probe (runs s ! k) \<noteq> G_Exit \<longrightarrow> running (heap (mgr s) ! run_entry (runs s ! k)) \<and> done_chan (heap (mgr s) ! run_entry (runs s ! k)) = k)"

definition entry_ok :: "'d hsys \<Rightarrow> nat \<Rightarrow> bool" where
  "entry_ok s i \<longleftrightarrow> (let e = heap (mgr s) ! i in
     running e \<longrightarrow> done_chan e < length (runs s) \<and> run_entry (runs s ! done_chan e) = i \<and> probe (runs s ! done_chan e) \<noteq> G_Exit)"

definition flight_ok :: "'d hsys \<Rightarrow> bool" where
  "flight_ok s \<longleftrightarrow> \<not> close_panic s \<and> (\<forall>k < length (runs s). run_ok s k) \<and> (\<forall>i < length (heap (mgr s)). entry_ok s i)"

lemma flight_okD: "flight_ok s \<Longrightarrow> k < length (runs s) \<Longrightarrow> run_ok s k" "flight_ok s \<Longrightarrow> i < length (heap (mgr s)) \<Longrightarrow> entry_ok s i"
  "flight_ok s \<Longrightarrow> \<not> close_panic s"
  by (simp_all add: flight_ok_def)

text \<open>Changes of the manager that start and end nothing.\<close>

definition heap_ext :: "'d HealthManager \<Rightarrow> 'd HealthManager \<Rightarrow> bool" where
  "heap_ext m m' \<longleftrightarrow> length (heap m) \<le> length (heap m') \<and>
     (\<forall>i < length (heap m). running (heap m' ! i) = running (heap m ! i) \<and> done_chan (heap m' ! i) = done_chan (heap m ! i)) \<and>
     (\<forall>i < length (heap m'). length (heap m) \<le> i \<longrightarrow> \<not> running (heap m' ! i))"

lemma heap_ext_refl [simp]: "heap_ext m m"
  by (simp add: heap_ext_def)

lemma heap_ext_updatedAt [simp]: "heap_ext m (m'\<lparr>updatedAt := t\<rparr>) = heap_ext m m'" "heap_ext m (m'\<lparr>entries := x\<rparr>) = heap_ext m m'"
  by (simp_all add: heap_ext_def)

lemma heap_ext_put: "\<not> running e \<Longrightarrow> heap_ext m (put_entry name e m)"
  by (auto simp: heap_ext_def put_entry_def nth_append)

lemma heap_ext_set:
  "heap_ext m m' \<Longrightarrow> i < length (heap m') \<Longrightarrow> running e = running (heap m' ! i) \<Longrightarrow> done_chan e = done_chan (heap m' ! i) \<Longrightarrow>
     heap_ext m (m'\<lparr>heap := (heap m')[i := e]\<rparr>)"
  by (auto simp: heap_ext_def nth_list_update)

lemma heap_ext_Register: "heap_ext m (snd (RegisterProbe now c m))"
  by (simp add: RegisterProbe_def Let_def heap_ext_put new_entry_def)

lemma heap_ext_UpdateStatus:
  assumes "mgr_ok m"
  shows "heap_ext m (snd (UpdateStatus now name scope status message details m))"
proof -
  obtain i m' where s: "status_entry (TrimSpace name) scope m = (i, m')" by fastforce
  note o = status_entry_ok [OF assms s]
  have "heap_ext m m'" using s by (auto simp: status_entry_def Let_def new_entry_def split: option.splits if_splits intro: heap_ext_put)
  then show ?thesis by (auto simp: UpdateStatus_def Let_def s intro!: heap_ext_set o(2))
qed

lemma heap_ext_snapshot: "i < length (heap m) \<Longrightarrow> heap_ext m (record_snapshot t0 t r b i m)"
  unfolding record_snapshot_def Let_def by (simp add: heap_ext_set)

lemma flight_heap:
  assumes "flight_ok s" "heap_ext (mgr s) m"
  shows "flight_ok (s\<lparr>mgr := m\<rparr>)"
proof -
  have "run_ok (s\<lparr>mgr := m\<rparr>) k" if "k < length (runs s)" for k
    using flight_okD(1) [OF assms(1) that] assms(2) by (auto simp: run_ok_def heap_ext_def)
  moreover have "entry_ok (s\<lparr>mgr := m\<rparr>) i" if "i < length (heap m)" for i
  proof (cases "i < length (heap (mgr s))")
    case True
    then show ?thesis using flight_okD(2) [OF assms(1) True] assms(2) by (auto simp: entry_ok_def heap_ext_def Let_def)
  next
    case False
    then show ?thesis using assms(2) that by (auto simp: entry_ok_def heap_ext_def Let_def)
  qed
  ultimately show ?thesis using assms(1) by (simp add: flight_ok_def)
qed

lemma flight_set_run:
  assumes "flight_ok s" "k < length (runs s)" "run_entry r = run_entry (runs s ! k)" "probe r = G_Exit \<longleftrightarrow> probe (runs s ! k) = G_Exit" "local_ok r"
  shows "flight_ok (set_run k r s)"
proof -
  have "run_ok (set_run k r s) j" if "j < length (runs s)" for j
    using flight_okD(1) [OF assms(1) that] assms(2-5) by (cases "j = k") (auto simp: run_ok_def set_run_def)
  moreover have "entry_ok (set_run k r s) i" if "i < length (heap (mgr s))" for i
    using flight_okD(2) [OF assms(1) that] assms(2-4) by (auto simp: entry_ok_def set_run_def Let_def nth_list_update)
  ultimately show ?thesis using assms(1) by (simp add: flight_ok_def set_run_def)
qed

lemma flight_start:
  assumes "flight_ok s" "i < length (heap (mgr s))" "\<not> running (heap (mgr s) ! i)"
  shows "flight_ok (s\<lparr>mgr := (mgr s)\<lparr>heap := (heap (mgr s))[i := (heap (mgr s) ! i)\<lparr>running := True, done_chan := length (runs s)\<rparr>]\<rparr>,
    runs := runs s @ [\<lparr>run_entry = i, probe = G_Run, exec = E_Select, recorded = False, done_closed = False\<rparr>]\<rparr>)" (is "flight_ok ?s")
proof -
  have "run_ok ?s k" if "k < Suc (length (runs s))" for k
  proof (cases "k < length (runs s)")
    case True
    note r = flight_okD(1) [OF assms(1) True]
    have "run_entry (runs s ! k) \<noteq> i" if "probe (runs s ! k) \<noteq> G_Exit" using r that assms(3) by (auto simp: run_ok_def)
    then show ?thesis using r True by (auto simp: run_ok_def nth_append nth_list_update)
  next
    case False
    then have "k = length (runs s)" using that by simp
    then show ?thesis using assms(2) by (simp add: run_ok_def local_ok_def)
  qed
  moreover have "entry_ok ?s j" if "j < length (heap (mgr s))" for j
    using flight_okD(2) [OF assms(1) that] assms(2) that by (auto simp: entry_ok_def Let_def nth_append nth_list_update)
  ultimately show ?thesis using assms(1) by (simp add: flight_ok_def)
qed

lemma flight_exit:
  assumes f: "flight_ok s" and k: "k < length (runs s)" and e: "probe_exit k s = Some s'"
  shows "flight_ok s'" "length (runs s') = length (runs s)" "runs s' ! k = (runs s ! k)\<lparr>probe := G_Exit, done_closed := True\<rparr>"
    "heap (mgr s') = (heap (mgr s))[run_entry (runs s ! k) := (heap (mgr s) ! run_entry (runs s ! k))\<lparr>running := False\<rparr>]"
    "entries (mgr s') = entries (mgr s)" "refreshers s' = refreshers s"
proof -
  let ?r = "runs s ! k" and ?i = "run_entry (runs s ! k)"
  note r = flight_okD(1) [OF f k]
  obtain out where out: "probe ?r = G_Sent out" and rec: "recorded ?r" using e by (auto simp: probe_exit_def split: probe_pc.splits if_splits)
  have d: "done_chan (heap (mgr s) ! ?i) = k" "\<not> done_closed ?r" "?i < length (heap (mgr s))" using r out by (simp_all add: run_ok_def local_ok_def)
  have s': "s' = s\<lparr>mgr := (mgr s)\<lparr>heap := (heap (mgr s))[?i := (heap (mgr s) ! ?i)\<lparr>running := False\<rparr>]\<rparr>,
      runs := (runs s)[k := ?r\<lparr>probe := G_Exit, done_closed := True\<rparr>]\<rparr>"
    using e out rec d k by (simp add: probe_exit_def set_run_def Let_def)
  then show "length (runs s') = length (runs s)" "runs s' ! k = ?r\<lparr>probe := G_Exit, done_closed := True\<rparr>"
    "heap (mgr s') = (heap (mgr s))[?i := (heap (mgr s) ! ?i)\<lparr>running := False\<rparr>]" "entries (mgr s') = entries (mgr s)" "refreshers s' = refreshers s"
    using k by simp_all
  have "run_ok s' j" if "j < length (runs s)" for j
  proof (cases "j = k")
    case True
    then show ?thesis using r rec k d(3) by (auto simp: s' run_ok_def local_ok_def)
  next
    case False
    note rj = flight_okD(1) [OF f that]
    have "run_entry (runs s ! j) \<noteq> ?i" if "probe (runs s ! j) \<noteq> G_Exit" using rj that d(1) False by (auto simp: run_ok_def)
    then show ?thesis using rj False by (auto simp: s' run_ok_def nth_list_update)
  qed
  moreover have "entry_ok s' j" if "j < length (heap (mgr s))" for j
    using flight_okD(2) [OF f that] d(3) k by (auto simp: s' entry_ok_def Let_def nth_list_update)
  ultimately show "flight_ok s'" using f by (simp add: s' flight_ok_def)
qed

definition health_inv :: "'d hsys \<Rightarrow> bool" where
  "health_inv s \<longleftrightarrow> mgr_ok (mgr s) \<and> flight_ok s"

lemma flight_frame [simp]: "flight_ok (s\<lparr>refreshers := x\<rparr>) = flight_ok s" "flight_ok (s\<lparr>refreshMu := y\<rparr>) = flight_ok s"
  by (simp_all add: flight_ok_def run_ok_def entry_ok_def)

lemma start_due_inv: "health_inv s \<Longrightarrow> \<forall>i\<in>set is. i < length (heap (mgr s)) \<Longrightarrow> start_due now is s = (ks, s') \<Longrightarrow> health_inv s'"
proof (induction now "is" s arbitrary: ks rule: start_due.induct)
  case (2 now i "is" s)
  show ?case
  proof (cases "due now (heap (mgr s) ! i)")
    case True
    let ?s = "s\<lparr>mgr := (mgr s)\<lparr>heap := (heap (mgr s))[i := (heap (mgr s) ! i)\<lparr>running := True, done_chan := length (runs s)\<rparr>]\<rparr>,
      runs := runs s @ [\<lparr>run_entry = i, probe = G_Run, exec = E_Select, recorded = False, done_closed = False\<rparr>]\<rparr>"
    have "flight_ok ?s" using 2 True by (intro flight_start) (auto simp: health_inv_def due_def)
    moreover have "mgr_ok (mgr ?s)" using "2.prems"(1) by (auto simp: health_inv_def intro!: mgr_ok_entry)
    ultimately have inv: "health_inv ?s" by (simp add: health_inv_def)
    obtain ks' where "start_due now is ?s = (ks', s')" using "2.prems"(3) True by (auto simp: Let_def split: prod.splits)
    with "2.IH"(1) [OF True refl refl inv] "2.prems"(2) show ?thesis by simp
  next
    case False
    then show ?thesis using 2 by simp
  qed
qed simp

lemma run_steps_inv:
  assumes inv: "health_inv s" and k: "k < length (runs s)" and st: "run_steps k s s'"
  shows "health_inv s'"
proof -
  let ?r = "runs s ! k"
  have m: "mgr_ok (mgr s)" and f: "flight_ok s" using inv by (simp_all add: health_inv_def)
  note r = flight_okD(1) [OF f k]
  have set: "health_inv (set_run k r' s)" if "run_entry r' = run_entry ?r" "probe r' = G_Exit \<longleftrightarrow> probe ?r = G_Exit" "local_ok r'" for r'
    using flight_set_run [OF f k that] m by (simp add: health_inv_def set_run_def)
  consider "exec_receive k s = Some s'" | b where "exec_timeout b k s = Some s'" | t0 t where "exec_write t0 t k s = Some s'"
    | "exec_done k s = Some s'" | "probe_exit k s = Some s'" using st by (auto simp: run_steps_def)
  then show ?thesis
  proof cases
    case 1
    then obtain out where o: "exec ?r = E_Select" "probe ?r = G_Sent out" "s' = set_run k (?r\<lparr>exec := E_Write out False True\<rparr>) s"
      by (auto simp: exec_receive_def split: exec_pc.splits probe_pc.splits)
    show ?thesis unfolding o(3) by (rule set) (use r o in \<open>auto simp: run_ok_def local_ok_def\<close>)
  next
    case 2
    then obtain out where o: "exec ?r = E_Select" "s' = set_run k (?r\<lparr>exec := E_Write out b False\<rparr>) s"
      by (auto simp: exec_timeout_def Let_def split: exec_pc.splits)
    show ?thesis unfolding o(2) by (rule set) (use r o in \<open>auto simp: run_ok_def local_ok_def\<close>)
  next
    case 3
    then obtain out b c where o: "exec ?r = E_Write out b c"
      "s' = set_run k (?r\<lparr>exec := if c then E_Wait else E_Exit, recorded := True\<rparr>) (s\<lparr>mgr := record_snapshot t0 t (settle out) b (run_entry ?r) (mgr s)\<rparr>)"
      by (auto simp: exec_write_def Let_def split: exec_pc.splits)
    have i: "run_entry ?r < length (heap (mgr s))" using r by (simp add: run_ok_def)
    have f': "flight_ok (s\<lparr>mgr := record_snapshot t0 t (settle out) b (run_entry ?r) (mgr s)\<rparr>)"
      by (rule flight_heap [OF f heap_ext_snapshot [OF i]])
    have "flight_ok s'" unfolding o(2) by (rule flight_set_run [OF f']) (use r o k in \<open>auto simp: run_ok_def local_ok_def\<close>)
    moreover have "mgr s' = record_snapshot t0 t (settle out) b (run_entry ?r) (mgr s)" using o(2) by (simp add: set_run_def)
    ultimately show ?thesis using mgr_ok_snapshot [OF m] by (simp add: health_inv_def)
  next
    case 4
    then have o: "exec ?r = E_Wait" "s' = set_run k (?r\<lparr>exec := E_Exit\<rparr>) s" by (auto simp: exec_done_def split: if_splits)
    show ?thesis unfolding o(2) by (rule set) (use r o in \<open>auto simp: run_ok_def local_ok_def\<close>)
  next
    case 5
    note x = flight_exit [OF f k 5]
    have "mgr_ok ((mgr s)\<lparr>heap := heap (mgr s')\<rparr>)" unfolding x(4) by (rule mgr_ok_entry [OF m]) auto
    then have "mgr_ok (mgr s')" using x(5) by (simp add: mgr_ok_def)
    then show ?thesis using x(1) by (simp add: health_inv_def)
  qed
qed

lemma health_inv_step:
  assumes "health_inv s" "health_step s s'"
  shows "health_inv s'"
proof -
  have m: "mgr_ok (mgr s)" and f: "flight_ok s" using assms(1) by (simp_all add: health_inv_def)
  from assms(2) show ?thesis
  proof cases
    case (register now c)
    then show ?thesis using mgr_ok_Register [OF m] flight_heap [OF f heap_ext_Register] by (simp add: health_inv_def)
  next
    case (unregister now name)
    have "heap_ext (mgr s) (UnregisterCheck now name (mgr s))" by (simp add: UnregisterCheck_def)
    then show ?thesis using unregister mgr_ok_Unregister [OF m] flight_heap [OF f] by (simp add: health_inv_def)
  next
    case (update now name scope status message details)
    then show ?thesis using mgr_ok_UpdateStatus [OF m] flight_heap [OF f heap_ext_UpdateStatus [OF m]] by (simp add: health_inv_def)
  next
    case refresh
    then show ?thesis using m f by (simp add: health_inv_def)
  next
    case (lock j now)
    obtain ks t where t: "start_due now (map snd (entries (mgr s))) s = (ks, t)" by fastforce
    have "\<forall>i\<in>set (map snd (entries (mgr s))). i < length (heap (mgr s))" using mgr_okD [OF m] by auto
    from start_due_inv [OF assms(1) this t] show ?thesis using lock t by (simp add: Refresh_lock_def health_inv_def)
  next
    case (finish j ks)
    then show ?thesis using m f by (simp add: Refresh_finish_def health_inv_def)
  next
    case (return k out)
    then have s': "s' = set_run k ((runs s ! k)\<lparr>probe := G_Sent out\<rparr>) s" "probe (runs s ! k) = G_Run" by (auto simp: probe_return_def split: if_splits)
    have "flight_ok s'" unfolding s'(1)
      by (rule flight_set_run [OF f return(1)]) (use flight_okD(1) [OF f return(1)] s'(2) in \<open>auto simp: run_ok_def local_ok_def\<close>)
    then show ?thesis using m s'(1) by (simp add: health_inv_def set_run_def)
  next
    case (run k)
    then show ?thesis using run_steps_inv [OF assms(1)] by blast
  qed
qed

lemma health_inv_reach: "health_reach s \<Longrightarrow> health_inv s"
proof (induction rule: health_reach.induct)
  case (init now sid st)
  show ?case by (simp add: health_inv_def health_init_def NewHealthManager_def mgr_ok_def flight_ok_def)
qed (rule health_inv_step)

text \<open>How far a run is from the end of \<^verbatim>\<open>executeProbe\<close>.\<close>

fun exec_rank :: "'d exec_pc \<Rightarrow> nat" where
  "exec_rank E_Select = 6"
| "exec_rank (E_Write out b c) = 4"
| "exec_rank E_Wait = 2"
| "exec_rank E_Exit = 0"

definition run_rank :: "'d probe_run \<Rightarrow> nat" where
  "run_rank r = exec_rank (exec r) + (if probe r = G_Exit then 0 else 1)"

lemma run_rank_decreases:
  assumes f: "flight_ok s" and k: "k < length (runs s)" and st: "run_steps k s s'"
  shows "run_rank (runs s' ! k) < run_rank (runs s ! k)"
proof -
  have "run_rank (runs s' ! k) < run_rank (runs s ! k)" if "probe_exit k s = Some s'"
    using flight_exit(3) [OF f k that] that by (auto simp: run_rank_def probe_exit_def split: probe_pc.splits)
  then show ?thesis using st k
    by (auto simp: run_steps_def exec_receive_def exec_timeout_def exec_write_def exec_done_def run_rank_def set_run_def Let_def
        split: exec_pc.splits probe_pc.splits if_splits)
qed

lemma run_steps_enabled:
  assumes f: "flight_ok s" and k: "k < length (runs s)" and n: "exec (runs s ! k) \<noteq> E_Exit"
  shows "\<exists>s'. run_steps k s s'"
proof -
  have l: "local_ok (runs s ! k)" using flight_okD(1) [OF f k] by (simp add: run_ok_def)
  show ?thesis
  proof (cases "exec (runs s ! k)")
    case E_Select
    then show ?thesis by (auto simp: run_steps_def exec_timeout_def Let_def)
  next
    case (E_Write out b c)
    then show ?thesis by (auto simp: run_steps_def exec_write_def Let_def)
  next
    case E_Wait
    show ?thesis
    proof (cases "probe (runs s ! k)")
      case G_Run
      then show ?thesis using l E_Wait by (simp add: local_ok_def)
    next
      case (G_Sent out)
      then show ?thesis using l E_Wait by (auto simp: run_steps_def probe_exit_def local_ok_def Let_def)
    next
      case G_Exit
      then show ?thesis using l E_Wait by (auto simp: run_steps_def exec_done_def local_ok_def)
    qed
  qed (use n in simp)
qed

text \<open>
  Property C35. However refreshes, registrations, status updates and probes interleave: an entry is marked running exactly
  while one run of it is unfinished, it never has two, no channel is closed twice; and \<^verbatim>\<open>executeProbe\<close> ends whether or
  not the probe returns: as long as it has not ended it has a next step, and each of its steps brings the end nearer.
\<close>

theorem probe_single_flight:
  assumes "health_reach s"
  shows "\<not> close_panic s \<and>
    (\<forall>i < length (heap (mgr s)). running (heap (mgr s) ! i) \<longleftrightarrow> (\<exists>k < length (runs s). run_entry (runs s ! k) = i \<and> probe (runs s ! k) \<noteq> G_Exit)) \<and>
    (\<forall>j < length (runs s). \<forall>k < length (runs s). run_entry (runs s ! j) = run_entry (runs s ! k) \<and>
       probe (runs s ! j) \<noteq> G_Exit \<and> probe (runs s ! k) \<noteq> G_Exit \<longrightarrow> j = k) \<and>
    (\<forall>k < length (runs s). exec (runs s ! k) \<noteq> E_Exit \<longrightarrow> (\<exists>s'. run_steps k s s')) \<and>
    (\<forall>k < length (runs s). \<forall>s'. run_steps k s s' \<longrightarrow> run_rank (runs s' ! k) < run_rank (runs s ! k))"
proof (intro conjI allI impI)
  have f: "flight_ok s" using health_inv_reach [OF assms] by (simp add: health_inv_def)
  show "\<not> close_panic s" by (rule flight_okD(3) [OF f])
  show "running (heap (mgr s) ! i) \<longleftrightarrow> (\<exists>k < length (runs s). run_entry (runs s ! k) = i \<and> probe (runs s ! k) \<noteq> G_Exit)" if "i < length (heap (mgr s))" for i
    using flight_okD(2) [OF f that] flight_okD(1) [OF f] by (auto simp: entry_ok_def run_ok_def Let_def)
  show "j = k" if "j < length (runs s)" "k < length (runs s)" "run_entry (runs s ! j) = run_entry (runs s ! k) \<and> probe (runs s ! j) \<noteq> G_Exit \<and> probe (runs s ! k) \<noteq> G_Exit" for j k
    using flight_okD(1) [OF f that(1)] flight_okD(1) [OF f that(2)] that(3) by (auto simp: run_ok_def)
  show "\<exists>s'. run_steps k s s'" if "k < length (runs s)" "exec (runs s ! k) \<noteq> E_Exit" for k by (rule run_steps_enabled [OF f that])
  show "run_rank (runs s' ! k) < run_rank (runs s ! k)" if "k < length (runs s)" "run_steps k s s'" for k s' by (rule run_rank_decreases [OF f that])
qed

lemma aggregate_exact:
  "aggregate cs scope = (if scope_statuses scope cs = {} then (HealthStatusUnknown, False) else (worst (insert HealthStatusHealthy (scope_statuses scope cs)), True))"
  by (simp only: aggregate_def aggregate_loop_exact [OF insertI1] simp_thms if_not_P if_distrib) auto

lemma worst_available: "IsAvailable (worst (insert HealthStatusHealthy S)) \<longleftrightarrow> S \<subseteq> {HealthStatusHealthy, HealthStatusDegraded}"
  by (auto simp: IsAvailable_def)

lemma worst_healthy: "status_IsHealthy (worst (insert HealthStatusHealthy S)) \<longleftrightarrow> S \<subseteq> {HealthStatusHealthy}"
  by (auto simp: status_IsHealthy_def)

lemma entry_check_name: "mgr_ok m \<Longrightarrow> (n, i) \<in> set (entries m) \<Longrightarrow> hc_Name (entry_check n (heap m ! i)) = n"
  using mgr_okD [of m n i] by (simp add: entry_check_def)

text \<open>
  Property C36. A report lists exactly the registered names, each once and in order, with the entry's last snapshot or
  "unknown"; the server is live (ready) exactly if there is a check of that scope and each of them is healthy or
  degraded, healthy exactly if there is a liveness or readiness check and each is healthy; and the two aggregated
  statuses are always one of the four defined values, whatever strings the probes returned.
\<close>

theorem health_report_exact:
  assumes "health_reach s" "rep = GetHealthReport (mgr s)"
  shows "sorted (map hc_Name (Checks rep)) \<and> distinct (map hc_Name (Checks rep)) \<and>
    set (Checks rep) = (\<lambda>(n, i). entry_check n (heap (mgr s) ! i)) ` set (entries (mgr s)) \<and> set (map hc_Name (Checks rep)) = fst ` set (entries (mgr s)) \<and>
    (let L = scope_statuses ProbeScopeLiveness (Checks rep); R = scope_statuses ProbeScopeReadiness (Checks rep) in
       (Live rep \<longleftrightarrow> L \<noteq> {} \<and> L \<subseteq> {HealthStatusHealthy, HealthStatusDegraded}) \<and>
       (Ready rep \<longleftrightarrow> R \<noteq> {} \<and> R \<subseteq> {HealthStatusHealthy, HealthStatusDegraded}) \<and>
       (Healthy rep \<longleftrightarrow> L \<union> R \<noteq> {} \<and> L \<union> R \<subseteq> {HealthStatusHealthy})) \<and>
    {Liveness rep, Readiness rep} \<subseteq> {HealthStatusHealthy, HealthStatusDegraded, HealthStatusUnhealthy, HealthStatusUnknown}"
proof -
  let ?m = "mgr s"
  let ?cs = "map (\<lambda>(n, i). entry_check n (heap ?m ! i)) (entries ?m)"
  have m: "mgr_ok ?m" using health_inv_reach [OF assms(1)] by (simp add: health_inv_def)
  have c: "Checks rep = sort_key hc_Name ?cs" by (simp add: assms(2) GetHealthReport_def Let_def split_beta)
  have "map hc_Name ?cs = map fst (entries ?m)" using entry_check_name [OF m] by auto
  then have d: "distinct (map hc_Name ?cs)" "set (map hc_Name ?cs) = fst ` set (entries ?m)" using m by (simp_all add: mgr_ok_def del: map_map)
  have "mset (map hc_Name (Checks rep)) = mset (map hc_Name ?cs)" unfolding c mset_map mset_sort ..
  then have d': "distinct (map hc_Name (Checks rep))" "set (map hc_Name (Checks rep)) = fst ` set (entries ?m)"
    using d by (metis mset_eq_imp_distinct_iff, metis set_mset_mset)
  define L where "L = scope_statuses ProbeScopeLiveness (Checks rep)"
  define R where "R = scope_statuses ProbeScopeReadiness (Checks rep)"
  have flags: "Live rep \<longleftrightarrow> L \<noteq> {} \<and> L \<subseteq> {HealthStatusHealthy, HealthStatusDegraded}" "Ready rep \<longleftrightarrow> R \<noteq> {} \<and> R \<subseteq> {HealthStatusHealthy, HealthStatusDegraded}"
    "Healthy rep \<longleftrightarrow> L \<union> R \<noteq> {} \<and> L \<union> R \<subseteq> {HealthStatusHealthy}"
    "Liveness rep = (if L = {} then HealthStatusUnknown else worst (insert HealthStatusHealthy L))"
    "Readiness rep = (if R = {} then HealthStatusUnknown else worst (insert HealthStatusHealthy R))"
    unfolding L_def R_def c by (auto simp: assms(2) GetHealthReport_def Let_def split_beta aggregate_exact worst_available worst_healthy simp del: worst.simps)
  have w: "worst S \<in> {HealthStatusHealthy, HealthStatusDegraded, HealthStatusUnhealthy, HealthStatusUnknown}" for S by auto
  show ?thesis unfolding Let_def L_def [symmetric] R_def [symmetric]
    using d' flags w [of "insert HealthStatusHealthy L"] w [of "insert HealthStatusHealthy R"]
    by (simp add: c del: worst.simps)
qed

text \<open>A run: one probe that hangs and is timed out, then a status update.\<close>

definition demo_probe :: ProbeConfig where
  "demo_probe = \<lparr>pc_Name = '' db '', pc_Scope = ProbeScopeReadiness, pc_Timeout = 0, pc_CacheTTL = 5, pc_Check = True\<rparr>"

definition demo_started :: "unit hsys" where
  "demo_started = (let s = health_init 1 ''s'' ''game'';
     s = s\<lparr>mgr := snd (RegisterProbe 2 demo_probe (mgr s))\<rparr>; s = s\<lparr>refreshers := refreshers s @ [F_Begin]\<rparr> in Refresh_lock 3 0 s)"

definition demo_timed_out :: "unit hsys" where
  "demo_timed_out = (let s = the (exec_timeout True 0 demo_started) in Refresh_finish 0 (the (exec_write 3 9 0 s)))"

lemma demo_started_reach: "health_reach demo_started"
  unfolding demo_started_def Let_def
  by (rule health_reach.step [OF health_reach.step [OF health_reach.step [OF health_reach.init health_step.register] health_step.refresh] health_step.lock])
     (simp_all add: health_init_def)

lemma demo_timed_out_reach: "health_reach demo_timed_out"
proof -
  let ?t = "the (exec_timeout True 0 demo_started)" and ?w = "the (exec_write 3 9 0 (the (exec_timeout True 0 demo_started)))"
  have e: "length (runs demo_started) = 1" "exec_timeout True 0 demo_started \<noteq> None" "length (runs ?t) = 1" "exec_write 3 9 0 ?t \<noteq> None"
    "length (refreshers ?w) = 1" "refreshers ?w ! 0 = F_Wait [0]" "exec (runs ?w ! 0) = E_Exit"
    by code_simp+
  have "health_step demo_started ?t" by (rule health_step.run [of 0]) (use e in \<open>auto simp: run_steps_def\<close>)
  moreover have "health_step ?t ?w" by (rule health_step.run [of 0]) (use e in \<open>auto simp: run_steps_def\<close>)
  moreover have "health_step ?w (Refresh_finish 0 ?w)" by (rule health_step.finish [of 0 _ "[0]"]) (use e in auto)
  ultimately show ?thesis unfolding demo_timed_out_def Let_def using demo_started_reach health_reach.step by blast
qed

theorem probe_single_flight_witness:
  "running (heap (mgr demo_timed_out) ! 0) \<and> (\<exists>k < length (runs demo_timed_out). run_entry (runs demo_timed_out ! k) = 0 \<and> probe (runs demo_timed_out ! k) \<noteq> G_Exit)"
proof -
  have "running (heap (mgr demo_timed_out) ! 0)" "0 < length (heap (mgr demo_timed_out))" by code_simp+
  with probe_single_flight [OF demo_timed_out_reach] show ?thesis by blast
qed

theorem health_report_exact_witness:
  "\<not> Ready (GetHealthReport (mgr demo_timed_out)) \<and> map hc_Name (Checks (GetHealthReport (mgr demo_timed_out))) = [''db''] \<and>
   scope_statuses ProbeScopeReadiness (Checks (GetHealthReport (mgr demo_timed_out))) = {HealthStatusUnhealthy}"
proof -
  have c: "map (\<lambda>c. (hc_Name c, hc_Scope c, hc_Status c)) (Checks (GetHealthReport (mgr demo_timed_out))) = [(''db'', ProbeScopeReadiness, HealthStatusUnhealthy)]"
    by code_simp
  then obtain x where x: "Checks (GetHealthReport (mgr demo_timed_out)) = [x]" "hc_Name x = ''db''" "hc_Scope x = ProbeScopeReadiness" "hc_Status x = HealthStatusUnhealthy"
    by auto
  then have "scope_statuses ProbeScopeReadiness (Checks (GetHealthReport (mgr demo_timed_out))) = {HealthStatusUnhealthy}" by (auto simp: scope_statuses_def)
  with health_report_exact [OF demo_timed_out_reach refl] x show ?thesis by (simp add: Let_def)
qed

end
