(* ===== verification/Lock.thy ===== *)
theory Lock
  imports Prelude
begin

text \<open>
  \<^verbatim>\<open>zDistributed/lock.go\<close> and \<^verbatim>\<open>etcd_lock.go\<close>: the exclusive lock with a fencing token, its handles and their monitors.

  etcd and its package of mutexes and sessions are outside the repository: what their calls answer is an input of the
  operations, and the theorems hold for every answer. \<open>lock_step\<close> interleaves callers of one lock with the monitors of
  its handles: every atomic access to a handle and every section under the mutex of the lock is one step, and a caller
  that waits for an answer of etcd is between two steps. \<^verbatim>\<open>Acquire\<close> and \<^verbatim>\<open>Release\<close> keep the mutex across such waits.
\<close>

section \<open>Options and configuration\<close>

datatype lock_error =
    ErrLockAlreadyHeld string int | ErrLockOwnershipLost | ErrUnsupportedLockType string | ErrInvalidLockConfig string
  | LockCallError string | LockContextError | ReleaseAndLost

type_synonym LockType = string

definition LockTypeExclusive :: LockType where "LockTypeExclusive = ''exclusive''"
definition LockTypeShared :: LockType where "LockTypeShared = ''shared''"

record LockOptions =
  lo_Type :: LockType
  LeaseTTL :: int
  RetryCount :: int
  RetryInterval :: int

definition DefaultLockOptions :: LockOptions where
  "DefaultLockOptions = \<lparr>lo_Type = LockTypeExclusive, LeaseTTL = 10, RetryCount = 3, RetryInterval = 100\<rparr>"

record EtcdLock =
  lock_client :: bool
  lockKey :: string
  lock_options :: LockOptions
  current :: "nat option"

definition NewEtcdLock :: "bool \<Rightarrow> string \<Rightarrow> LockOptions \<Rightarrow> EtcdLock" where
  "NewEtcdLock client key options =
     (let options = (if lo_Type options = [] then options\<lparr>lo_Type := LockTypeExclusive\<rparr> else options);
          options = (if LeaseTTL options \<le> 0 then options\<lparr>LeaseTTL := LeaseTTL DefaultLockOptions\<rparr> else options);
          options = (if RetryCount options > 0 \<and> RetryInterval options \<le> 0 then options\<lparr>RetryInterval := RetryInterval DefaultLockOptions\<rparr> else options)
      in \<lparr>lock_client = client, lockKey = key, lock_options = options, current = None\<rparr>)"

definition validateConfig :: "EtcdLock \<Rightarrow> lock_error option" where
  "validateConfig l =
     (if lo_Type (lock_options l) \<noteq> LockTypeExclusive then Some (ErrUnsupportedLockType (lo_Type (lock_options l)))
      else if \<not> lock_client l then Some (ErrInvalidLockConfig ''nil etcd client'')
      else if lockKey l = [] then Some (ErrInvalidLockConfig ''empty lock key'')
      else if RetryCount (lock_options l) < 0 \<or> RetryInterval (lock_options l) < 0 then Some (ErrInvalidLockConfig ''negative retry option'')
      else None)"

section \<open>Handles\<close>

datatype lockHandleState = lockHandleActive | lockHandleReleased | lockHandleLost

record LockHandle =
  resourceKey :: string
  ownerToken :: string
  leaseID :: int
  fencingToken :: int
  h_state :: lockHandleState
  finishOnce :: bool
  h_done :: bool
  cancelled :: bool
  releaseIntent :: bool
  lossObserved :: bool

definition newLockHandle :: "string \<Rightarrow> string \<Rightarrow> int \<Rightarrow> int \<Rightarrow> LockHandle" where
  "newLockHandle key token lease fence =
     \<lparr>resourceKey = key, ownerToken = token, leaseID = lease, fencingToken = fence, h_state = lockHandleActive, finishOnce = False, h_done = False,
      cancelled = False, releaseIntent = False, lossObserved = False\<rparr>"

definition Valid :: "LockHandle \<Rightarrow> bool" where
  "Valid h \<longleftrightarrow> h_state h = lockHandleActive"

definition Lost :: "LockHandle \<Rightarrow> bool" where
  "Lost h \<longleftrightarrow> h_state h = lockHandleLost"

datatype lock_cmp = CmpCreateRevision string int | CmpLeaseValue string int

definition ownershipComparisons :: "LockHandle \<Rightarrow> lock_cmp list" where
  "ownershipComparisons h = [CmpCreateRevision (ownerToken h) (fencingToken h), CmpLeaseValue (ownerToken h) (leaseID h)]"

definition OwnershipComparisons :: "LockHandle \<Rightarrow> lock_error + lock_cmp list" where
  "OwnershipComparisons h = (if \<not> Valid h then Inl ErrLockOwnershipLost else Inr (ownershipComparisons h))"

text \<open>
  \<^verbatim>\<open>finish\<close>: the first call enters the \<^verbatim>\<open>Once\<close> and stores the state (\<open>handle_finish\<close>); the context is cancelled and the channel
  closed in later steps of the goroutine inside (\<open>finish_step\<close>). A call of \<^verbatim>\<open>finish\<close> returns when these have been taken, by
  whichever goroutine is inside.
\<close>

definition handle_finish :: "lockHandleState \<Rightarrow> LockHandle \<Rightarrow> LockHandle" where
  "handle_finish st h = (if finishOnce h then h else h\<lparr>finishOnce := True, h_state := st\<rparr>)"

definition finish_step :: "LockHandle \<Rightarrow> LockHandle option" where
  "finish_step h =
     (if finishOnce h \<and> \<not> cancelled h then Some (h\<lparr>cancelled := True\<rparr>)
      else if cancelled h \<and> \<not> h_done h then Some (h\<lparr>h_done := True\<rparr>)
      else None)"

section \<open>Acquisition\<close>

text \<open>Answers of \<^verbatim>\<open>TryLock\<close>; \<open>waits\<close> tells whether the wait after an attempt ended with the timer.\<close>

datatype try_answer = Try_ok | Try_locked | Try_error string

function tryAcquire :: "EtcdLock \<Rightarrow> (nat \<Rightarrow> try_answer) \<Rightarrow> (nat \<Rightarrow> bool) \<Rightarrow> nat \<Rightarrow> lock_error option \<times> nat" where
  "tryAcquire l tries waits attempt =
     (case tries attempt of
        Try_ok \<Rightarrow> (None, attempt + 1)
      | Try_error e \<Rightarrow> (Some (LockCallError e), attempt + 1)
      | Try_locked \<Rightarrow>
          if int attempt \<ge> RetryCount (lock_options l) then (Some (ErrLockAlreadyHeld (lockKey l) (int attempt + 1)), attempt + 1)
          else if \<not> waits attempt then (Some LockContextError, attempt + 1)
          else tryAcquire l tries waits (attempt + 1))"
  by pat_completeness auto

termination
  by (relation "measure (\<lambda>(l, tries, waits, attempt). nat (RetryCount (lock_options l)) - attempt)") auto

declare tryAcquire.simps [simp del]

text \<open>
  The answers of one acquisition: the lease granted, whether the session started, the attempts, and the owner key read
  back (\<open>None\<close>: the read failed) with the lease and the create revision of every pair found.
\<close>

record acquire_answers =
  an_grant :: "int option"
  an_session :: bool
  an_tries :: "nat \<Rightarrow> try_answer"
  an_waits :: "nat \<Rightarrow> bool"
  an_key :: string
  an_owner :: "(int \<times> int) list option"

definition revoke :: "int \<Rightarrow> int list" where
  "revoke l = (if l = 0 then [] else [l])"

text \<open>\<^verbatim>\<open>Acquire\<close> from the grant to the check of the owner key: its result and the leases it revokes.\<close>

definition acquire_calls :: "EtcdLock \<Rightarrow> acquire_answers \<Rightarrow> (lock_error + LockHandle) \<times> int list" where
  "acquire_calls l a =
     (case an_grant a of
        None \<Rightarrow> (Inl (LockCallError ''grant lock lease''), [])
      | Some lease \<Rightarrow>
          if \<not> an_session a then (Inl (LockCallError ''start lock lease session''), revoke lease)
          else case fst (tryAcquire l (an_tries a) (an_waits a) 0) of
                 Some e \<Rightarrow> (Inl e, revoke lease)
               | None \<Rightarrow>
                   (case an_owner a of
                      None \<Rightarrow> (Inl (LockCallError ''read lock owner''), revoke lease)
                    | Some [(ownerLease, createRevision)] \<Rightarrow>
                        if ownerLease \<noteq> lease \<or> createRevision \<le> 0 then (Inl ErrLockOwnershipLost, revoke lease)
                        else (Inr (newLockHandle (lockKey l) (an_key a) lease createRevision), [])
                    | Some _ \<Rightarrow> (Inl ErrLockOwnershipLost, revoke lease)))"

lemma tryAcquire_attempts: "int attempt \<le> max 0 (RetryCount (lock_options l)) \<Longrightarrow> int (snd (tryAcquire l tries waits attempt)) \<le> max 0 (RetryCount (lock_options l)) + 1"
proof (induction l tries waits attempt rule: tryAcquire.induct)
  case (1 l tries waits attempt)
  show ?case
  proof (cases "tries attempt = Try_locked \<and> int attempt < RetryCount (lock_options l) \<and> waits attempt")
    case True
    then have "int (attempt + 1) \<le> max 0 (RetryCount (lock_options l))" by simp
    with "1.IH" True show ?thesis by (subst tryAcquire.simps) simp
  next
    case False
    then show ?thesis using "1.prems" by (subst tryAcquire.simps) (auto split: try_answer.splits)
  qed
qed

section \<open>A lock with its callers and monitors\<close>

datatype caller_pc =
    A_Lock | A_Call | A_Check nat
  | R_Lock nat | R_Intent nat | R_Txn nat | R_Failed nat | R_Fin nat "lock_error option"
  | V_Begin nat | V_Txn nat | V_Fin nat | L_Lock nat
  | U_Lock
  | Ret "lock_error option" | Got nat

datatype monitor_pc = M_Watch | M_Stored | M_Mark | M_Fin | M_Lock | M_Exit

record lsys =
  lk :: EtcdLock
  mu :: bool
  hs :: "LockHandle list"
  mons :: "monitor_pc list"
  callers :: "caller_pc list"
  granted :: "int list"
  revoked :: "int list"

definition set_h :: "nat \<Rightarrow> (LockHandle \<Rightarrow> LockHandle) \<Rightarrow> lsys \<Rightarrow> lsys" where
  "set_h h f s = s\<lparr>hs := (hs s)[h := f (hs s ! h)]\<rparr>"

text \<open>\<^verbatim>\<open>if sameLockHandle(l.current, handle) { l.current = nil }\<close>\<close>

definition clear_current :: "nat \<Rightarrow> lsys \<Rightarrow> lsys" where
  "clear_current h s = (if current (lk s) = Some h then s\<lparr>lk := (lk s)\<lparr>current := None\<rparr>\<rparr> else s)"

definition goto :: "nat \<Rightarrow> caller_pc \<Rightarrow> lsys \<Rightarrow> lsys" where
  "goto k p s = s\<lparr>callers := (callers s)[k := p]\<rparr>"

definition Acquire_begin :: "nat \<Rightarrow> lsys \<Rightarrow> lsys" where
  "Acquire_begin k s =
     (case validateConfig (lk s) of
        Some e \<Rightarrow> goto k (Ret (Some e)) s
      | None \<Rightarrow>
          (case current (lk s) of
             Some h \<Rightarrow>
               if Valid (hs s ! h) then goto k (Got h) s
               else goto k A_Call (s\<lparr>lk := (lk s)\<lparr>current := None\<rparr>, mu := True\<rparr>)
           | None \<Rightarrow> goto k A_Call (s\<lparr>mu := True\<rparr>)))"

definition Acquire_calls :: "acquire_answers \<Rightarrow> nat \<Rightarrow> lsys \<Rightarrow> lsys" where
  "Acquire_calls a k s =
     (let s = s\<lparr>granted := (case an_grant a of None \<Rightarrow> granted s | Some lease \<Rightarrow> granted s @ [lease])\<rparr> in
      case acquire_calls (lk s) a of
        (Inl e, rv) \<Rightarrow> goto k (Ret (Some e)) (s\<lparr>revoked := revoked s @ rv, mu := False\<rparr>)
      | (Inr h, rv) \<Rightarrow>
          goto k (A_Check (length (hs s)))
            (s\<lparr>hs := hs s @ [h], mons := mons s @ [M_Watch], lk := (lk s)\<lparr>current := Some (length (hs s))\<rparr>\<rparr>))"

definition Acquire_end :: "nat \<Rightarrow> nat \<Rightarrow> lsys \<Rightarrow> lsys" where
  "Acquire_end h k s =
     (if h_done (hs s ! h) then goto k (Ret (Some ErrLockOwnershipLost)) (s\<lparr>lk := (lk s)\<lparr>current := None\<rparr>, mu := False\<rparr>)
      else goto k (Got h) (s\<lparr>mu := False\<rparr>))"

definition Release_begin :: "nat \<Rightarrow> nat \<Rightarrow> lsys \<Rightarrow> lsys" where
  "Release_begin h k s =
     (case h_state (hs s ! h) of
        lockHandleReleased \<Rightarrow> goto k (Ret None) s
      | lockHandleLost \<Rightarrow> goto k (Ret (Some ErrLockOwnershipLost)) s
      | lockHandleActive \<Rightarrow> goto k (R_Intent h) (s\<lparr>mu := True\<rparr>))"

definition Release_intent :: "nat \<Rightarrow> nat \<Rightarrow> lsys \<Rightarrow> lsys" where
  "Release_intent h k s = goto k (R_Txn h) (set_h h (\<lambda>x. x\<lparr>releaseIntent := True\<rparr>) s)"

text \<open>The answer of the compare-delete: \<open>None\<close> for an error of the call.\<close>

definition Release_answer :: "bool option \<Rightarrow> nat \<Rightarrow> nat \<Rightarrow> lsys \<Rightarrow> lsys" where
  "Release_answer ans h k s =
     (case ans of
        None \<Rightarrow> goto k (R_Failed h) (set_h h (\<lambda>x. x\<lparr>releaseIntent := False\<rparr>) s)
      | Some False \<Rightarrow> goto k (R_Fin h (Some ErrLockOwnershipLost)) (set_h h (handle_finish lockHandleLost) s)
      | Some True \<Rightarrow> goto k (R_Fin h None) (set_h h (handle_finish lockHandleReleased) s))"

definition finishFailedReleaseLocked :: "nat \<Rightarrow> nat \<Rightarrow> lsys \<Rightarrow> lsys" where
  "finishFailedReleaseLocked h k s =
     (if \<not> lossObserved (hs s ! h) then goto k (Ret (Some (LockCallError ''release lock owner''))) (s\<lparr>mu := False\<rparr>)
      else goto k (R_Fin h (Some ReleaseAndLost)) (set_h h (handle_finish lockHandleLost) s))"

text \<open>\<^verbatim>\<open>Release\<close> after \<^verbatim>\<open>finish\<close> has returned; without an error it revokes the lease.\<close>

definition Release_finish :: "lock_error option \<Rightarrow> nat \<Rightarrow> nat \<Rightarrow> lsys \<Rightarrow> lsys" where
  "Release_finish e h k s =
     goto k (Ret e) ((clear_current h (s\<lparr>revoked := revoked s @ (if e = None then revoke (leaseID (hs s ! h)) else [])\<rparr>))\<lparr>mu := False\<rparr>)"

text \<open>\<^verbatim>\<open>Validate\<close> and \<^verbatim>\<open>GuardedTxn\<close> differ only in the operations of their transaction.\<close>

definition Guarded_begin :: "nat \<Rightarrow> nat \<Rightarrow> lsys \<Rightarrow> lsys" where
  "Guarded_begin h k s = (if \<not> Valid (hs s ! h) then goto k (Ret (Some ErrLockOwnershipLost)) s else goto k (V_Txn h) s)"

definition Guarded_answer :: "bool option \<Rightarrow> nat \<Rightarrow> nat \<Rightarrow> lsys \<Rightarrow> lsys" where
  "Guarded_answer ans h k s =
     (case ans of
        None \<Rightarrow> goto k (Ret (Some (LockCallError ''guarded lock transaction''))) s
      | Some True \<Rightarrow> goto k (Ret None) s
      | Some False \<Rightarrow> goto k (V_Fin h) (set_h h (handle_finish lockHandleLost) s))"

definition Unlock_begin :: "nat \<Rightarrow> lsys \<Rightarrow> lsys" where
  "Unlock_begin k s = (case current (lk s) of None \<Rightarrow> goto k (Ret None) s | Some h \<Rightarrow> goto k (R_Lock h) s)"

definition IsLocked :: "lsys \<Rightarrow> bool" where
  "IsLocked s \<longleftrightarrow> (case current (lk s) of None \<Rightarrow> False | Some h \<Rightarrow> Valid (hs s ! h))"

text \<open>A step of a caller; the parts that need the mutex wait for it.\<close>

definition caller_step :: "acquire_answers \<Rightarrow> bool option \<Rightarrow> nat \<Rightarrow> lsys \<Rightarrow> lsys option" where
  "caller_step a ans k s =
     (case callers s ! k of
        A_Lock \<Rightarrow> if mu s then None else Some (Acquire_begin k s)
      | A_Call \<Rightarrow> Some (Acquire_calls a k s)
      | A_Check h \<Rightarrow> Some (Acquire_end h k s)
      | R_Lock h \<Rightarrow> if mu s then None else Some (Release_begin h k s)
      | R_Intent h \<Rightarrow> Some (Release_intent h k s)
      | R_Txn h \<Rightarrow> Some (Release_answer ans h k s)
      | R_Failed h \<Rightarrow> Some (finishFailedReleaseLocked h k s)
      | R_Fin h e \<Rightarrow> if h_done (hs s ! h) then Some (Release_finish e h k s) else None
      | V_Begin h \<Rightarrow> Some (Guarded_begin h k s)
      | V_Txn h \<Rightarrow> Some (Guarded_answer ans h k s)
      | V_Fin h \<Rightarrow> if h_done (hs s ! h) then Some (goto k (L_Lock h) s) else None
      | L_Lock h \<Rightarrow> if mu s then None else Some (goto k (Ret (Some ErrLockOwnershipLost)) (clear_current h s))
      | U_Lock \<Rightarrow> if mu s then None else Some (Unlock_begin k s)
      | Ret e \<Rightarrow> None
      | Got h \<Rightarrow> None)"

text \<open>
  The monitor: it sees the session end or the owner key change (\<open>M_Watch\<close>), stores the observation, reads the intent of a
  release, and marks the handle.
\<close>

definition goto_mon :: "nat \<Rightarrow> monitor_pc \<Rightarrow> lsys \<Rightarrow> lsys" where
  "goto_mon h p s = s\<lparr>mons := (mons s)[h := p]\<rparr>"

definition monitor_step :: "nat \<Rightarrow> lsys \<Rightarrow> lsys option" where
  "monitor_step h s =
     (case mons s ! h of
        M_Watch \<Rightarrow> Some (goto_mon h M_Stored (set_h h (\<lambda>x. x\<lparr>lossObserved := True\<rparr>) s))
      | M_Stored \<Rightarrow> Some (goto_mon h (if \<not> releaseIntent (hs s ! h) then M_Mark else M_Exit) s)
      | M_Mark \<Rightarrow> Some (goto_mon h M_Fin (set_h h (handle_finish lockHandleLost) s))
      | M_Fin \<Rightarrow> if h_done (hs s ! h) then Some (goto_mon h M_Lock s) else None
      | M_Lock \<Rightarrow> if mu s then None else Some (goto_mon h M_Exit (clear_current h s))
      | M_Exit \<Rightarrow> None)"

text \<open>Callers begin with one of the methods, on a handle the lock has made.\<close>

fun begins :: "lsys \<Rightarrow> caller_pc \<Rightarrow> bool" where
  "begins s A_Lock = True"
| "begins s U_Lock = True"
| "begins s (R_Lock h) = (h < length (hs s))"
| "begins s (V_Begin h) = (h < length (hs s))"
| "begins s p = False"

inductive lock_step :: "lsys \<Rightarrow> lsys \<Rightarrow> bool" where
  begin_call: "begins s p \<Longrightarrow> lock_step s (s\<lparr>callers := callers s @ [p]\<rparr>)"
| caller: "k < length (callers s) \<Longrightarrow> caller_step a ans k s = Some s' \<Longrightarrow> lock_step s s'"
| inside_once: "h < length (hs s) \<Longrightarrow> finish_step (hs s ! h) = Some x \<Longrightarrow> lock_step s (set_h h (\<lambda>_. x) s)"
| monitor: "h < length (hs s) \<Longrightarrow> monitor_step h s = Some s' \<Longrightarrow> lock_step s s'"

definition lock_init :: "bool \<Rightarrow> string \<Rightarrow> LockOptions \<Rightarrow> lsys" where
  "lock_init client key options =
     \<lparr>lk = NewEtcdLock client key options, mu = False, hs = [], mons = [], callers = [], granted = [], revoked = []\<rparr>"

inductive lock_reach :: "lsys \<Rightarrow> bool" where
  init: "lock_reach (lock_init client key options)"
| step: "lock_reach s \<Longrightarrow> lock_step s s' \<Longrightarrow> lock_reach s'"

section \<open>Invariants\<close>

fun holds :: "caller_pc \<Rightarrow> bool" where
  "holds A_Call = True"
| "holds (A_Check h) = True"
| "holds (R_Txn h) = True"
| "holds (R_Failed h) = True"
| "holds (R_Intent h) = True"
| "holds (R_Fin h e) = True"
| "holds p = False"

definition hwf :: "LockHandle \<Rightarrow> bool" where
  "hwf x \<longleftrightarrow> (finishOnce x \<longleftrightarrow> h_state x \<noteq> lockHandleActive) \<and> (h_done x \<longrightarrow> cancelled x) \<and> (cancelled x \<longrightarrow> finishOnce x)"

fun pc_ok :: "lsys \<Rightarrow> caller_pc \<Rightarrow> bool" where
  "pc_ok s A_Call = (current (lk s) = None)"
| "pc_ok s (A_Check h) = (h < length (hs s) \<and> current (lk s) = Some h)"
| "pc_ok s (R_Lock h) = (h < length (hs s))"
| "pc_ok s (R_Txn h) = (h < length (hs s) \<and> releaseIntent (hs s ! h))"
| "pc_ok s (R_Failed h) = (h < length (hs s) \<and> \<not> releaseIntent (hs s ! h))"
| "pc_ok s (R_Intent h) = (h < length (hs s))"
| "pc_ok s (R_Fin h e) = (h < length (hs s) \<and> h_state (hs s ! h) \<noteq> lockHandleActive)"
| "pc_ok s (V_Fin h) = (h < length (hs s) \<and> h_state (hs s ! h) \<noteq> lockHandleActive)"
| "pc_ok s (V_Begin h) = (h < length (hs s))"
| "pc_ok s (V_Txn h) = (h < length (hs s))"
| "pc_ok s (L_Lock h) = (h < length (hs s) \<and> h_state (hs s ! h) \<noteq> lockHandleActive)"
| "pc_ok s (Got h) = (h < length (hs s))"
| "pc_ok s p = True"

definition mon_ok :: "lsys \<Rightarrow> nat \<Rightarrow> bool" where
  "mon_ok s h \<longleftrightarrow>
     (mons s ! h \<noteq> M_Watch \<longrightarrow> lossObserved (hs s ! h)) \<and>
     (mons s ! h = M_Fin \<or> mons s ! h = M_Lock \<longrightarrow> h_state (hs s ! h) \<noteq> lockHandleActive) \<and>
     (mons s ! h = M_Exit \<and> h_state (hs s ! h) = lockHandleActive \<longrightarrow> R_Txn h \<in> set (callers s) \<or> R_Failed h \<in> set (callers s)) \<and>
     (releaseIntent (hs s ! h) \<and> h_state (hs s ! h) = lockHandleActive \<longrightarrow> R_Txn h \<in> set (callers s)) \<and>
     (h_state (hs s ! h) = lockHandleActive \<longrightarrow> current (lk s) = Some h) \<and>
     (h_state (hs s ! h) = lockHandleReleased \<and> leaseID (hs s ! h) \<noteq> 0 \<longrightarrow> leaseID (hs s ! h) \<in> set (revoked s) \<or> R_Fin h None \<in> set (callers s))"

definition lease_ok :: "lsys \<Rightarrow> bool" where
  "lease_ok s \<longleftrightarrow> set (granted s) - {0} \<subseteq> set (revoked s) \<union> leaseID ` set (hs s)"

definition lock_inv :: "lsys \<Rightarrow> bool" where
  "lock_inv s \<longleftrightarrow> length (mons s) = length (hs s) \<and> (\<forall>x\<in>set (hs s). hwf x) \<and> (\<forall>h. current (lk s) = Some h \<longrightarrow> h < length (hs s)) \<and>
     int (length (filter holds (callers s))) = of_bool (mu s) \<and> (\<forall>j < length (callers s). pc_ok s (callers s ! j)) \<and>
     (\<forall>h < length (hs s). mon_ok s h) \<and> lease_ok s"

lemma lock_invD:
  assumes "lock_inv s"
  shows "length (mons s) = length (hs s)" "x \<in> set (hs s) \<Longrightarrow> hwf x" "current (lk s) = Some h \<Longrightarrow> h < length (hs s)"
    "int (length (filter holds (callers s))) = of_bool (mu s)" "j < length (callers s) \<Longrightarrow> pc_ok s (callers s ! j)" "h < length (hs s) \<Longrightarrow> mon_ok s h" "lease_ok s"
  using assms by (simp_all add: lock_inv_def)

lemma lock_invI:
  assumes "length (mons s) = length (hs s)" "\<And>x. x \<in> set (hs s) \<Longrightarrow> hwf x" "\<And>h. current (lk s) = Some h \<Longrightarrow> h < length (hs s)"
    "int (length (filter holds (callers s))) = of_bool (mu s)" "\<And>j. j < length (callers s) \<Longrightarrow> pc_ok s (callers s ! j)"
    "\<And>h. h < length (hs s) \<Longrightarrow> mon_ok s h" "lease_ok s"
  shows "lock_inv s"
  using assms by (simp add: lock_inv_def)

lemma no_holder: "lock_inv s \<Longrightarrow> \<not> mu s \<Longrightarrow> j < length (callers s) \<Longrightarrow> \<not> holds (callers s ! j)"
  using lock_invD(4) [of s] nth_mem [of j "callers s"] by (auto simp: filter_empty_conv)

lemma one_holder:
  assumes "lock_inv s" "k < length (callers s)" "holds (callers s ! k)"
  shows "mu s" "\<And>j. j < length (callers s) \<Longrightarrow> j \<noteq> k \<Longrightarrow> \<not> holds (callers s ! j)"
proof -
  have "callers s ! k \<in> set (filter holds (callers s))" using nth_mem [OF assms(2)] assms(3) by simp
  then have "0 < length (filter holds (callers s))" by (rule length_pos_if_in_set)
  with lock_invD(4) [OF assms(1)] show m: "mu s" by (cases "mu s") auto
  with lock_invD(4) [OF assms(1)] have "length (filter holds (callers s)) = 1" by simp
  then show "\<not> holds (callers s ! j)" if "j < length (callers s)" "j \<noteq> k" for j by (rule filter_one_update(2) [where P = holds, OF assms(2,3) _ that])
qed

lemma holder_callers: "R_Txn h \<in> set (callers s) \<Longrightarrow> k < length (callers s) \<Longrightarrow> lock_inv s \<Longrightarrow> holds (callers s ! k) \<Longrightarrow> callers s ! k = R_Txn h"
  "R_Failed h \<in> set (callers s) \<Longrightarrow> k < length (callers s) \<Longrightarrow> lock_inv s \<Longrightarrow> holds (callers s ! k) \<Longrightarrow> callers s ! k = R_Failed h"
  "R_Fin h e \<in> set (callers s) \<Longrightarrow> k < length (callers s) \<Longrightarrow> lock_inv s \<Longrightarrow> holds (callers s ! k) \<Longrightarrow> callers s ! k = R_Fin h e"
  using one_holder(2) [of s k] by (auto simp: in_set_conv_nth) (metis holds.simps)+

text \<open>Steps of a caller that change nothing but its place, and neither take nor leave the mutex.\<close>

lemma inv_goto:
  assumes inv: "lock_inv s" and k: "k < length (callers s)" and "\<not> holds (callers s ! k)" "\<not> holds p" "pc_ok s p"
  shows "lock_inv (goto k p s)"
proof (rule lock_invI)
  have c: "int (length (filter holds ((callers s)[k := p]))) = int (length (filter holds (callers s)))"
    using filter_update_length [OF k, of holds p] assms by simp
  then show "int (length (filter holds (callers (goto k p s)))) = of_bool (mu (goto k p s))" using lock_invD(4) [OF inv] by (simp add: goto_def)
  have pc: "pc_ok (goto k p s) q = pc_ok s q" for q by (cases q) (simp_all add: goto_def)
  show "pc_ok (goto k p s) (callers (goto k p s) ! j)" if "j < length (callers (goto k p s))" for j
    using lock_invD(5) [OF inv, of j] that assms(5) unfolding pc by (cases "j = k") (auto simp: goto_def)
  have r: "R_Txn h \<in> set ((callers s)[k := p]) \<longleftrightarrow> R_Txn h \<in> set (callers s)" "R_Failed h \<in> set ((callers s)[k := p]) \<longleftrightarrow> R_Failed h \<in> set (callers s)"
    "R_Fin h e \<in> set ((callers s)[k := p]) \<longleftrightarrow> R_Fin h e \<in> set (callers s)" for h e
    by (rule in_set_update_other [OF k]; use assms in auto)+
  show "mon_ok (goto k p s) h" if "h < length (hs (goto k p s))" for h
    using lock_invD(6) [OF inv, of h] that by (simp add: goto_def mon_ok_def r)
qed (use lock_invD [OF inv] in \<open>auto simp: goto_def lease_ok_def\<close>)

lemma inv_take:
  assumes inv: "lock_inv s" and k: "k < length (callers s)" and "\<not> mu s" "holds p" "pc_ok s p"
  shows "lock_inv (goto k p (s\<lparr>mu := True\<rparr>))"
proof (rule lock_invI)
  have nh: "\<not> holds (callers s ! k)" by (rule no_holder [OF inv assms(3) k])
  have c: "int (length (filter holds ((callers s)[k := p]))) = int (length (filter holds (callers s))) + 1"
    using filter_update_length [OF k, of holds p] assms nh by simp
  then show "int (length (filter holds (callers (goto k p (s\<lparr>mu := True\<rparr>))))) = of_bool (mu (goto k p (s\<lparr>mu := True\<rparr>)))"
    using lock_invD(4) [OF inv] assms(3) by (simp add: goto_def)
  have pc: "pc_ok (goto k p (s\<lparr>mu := True\<rparr>)) q = pc_ok s q" for q by (cases q) (simp_all add: goto_def)
  show "pc_ok (goto k p (s\<lparr>mu := True\<rparr>)) (callers (goto k p (s\<lparr>mu := True\<rparr>)) ! j)" if "j < length (callers (goto k p (s\<lparr>mu := True\<rparr>)))" for j
    using lock_invD(5) [OF inv, of j] that assms(5) unfolding pc by (cases "j = k") (auto simp: goto_def)
  have r: "R_Txn h \<in> set (callers s) \<Longrightarrow> R_Txn h \<in> set ((callers s)[k := p])" "R_Failed h \<in> set (callers s) \<Longrightarrow> R_Failed h \<in> set ((callers s)[k := p])"
    "R_Fin h e \<in> set (callers s) \<Longrightarrow> R_Fin h e \<in> set ((callers s)[k := p])" for h e
    using no_holder [OF inv assms(3)] by (auto simp: in_set_conv_nth) (metis holds.simps)+
  show "mon_ok (goto k p (s\<lparr>mu := True\<rparr>)) h" if "h < length (hs (goto k p (s\<lparr>mu := True\<rparr>)))" for h
    using lock_invD(6) [OF inv, of h] that r(1,2) [of h] r(3) [of h None] by (auto simp: goto_def mon_ok_def)
qed (use lock_invD [OF inv] in \<open>auto simp: goto_def lease_ok_def\<close>)

lemma inv_leave:
  assumes inv: "lock_inv s" and k: "k < length (callers s)" and h: "holds (callers s ! k)" "\<not> holds p" "pc_ok s p"
    and rel: "\<And>h. callers s ! k = R_Txn h \<or> callers s ! k = R_Failed h \<Longrightarrow>
      h_state (hs s ! h) \<noteq> lockHandleActive \<or> mons s ! h \<noteq> M_Exit \<and> \<not> releaseIntent (hs s ! h)"
    and rev: "\<And>h. callers s ! k = R_Fin h None \<Longrightarrow> leaseID (hs s ! h) \<noteq> 0 \<Longrightarrow> leaseID (hs s ! h) \<in> set (revoked s)"
  shows "lock_inv (goto k p (s\<lparr>mu := False\<rparr>))"
proof (rule lock_invI)
  have c: "int (length (filter holds ((callers s)[k := p]))) = int (length (filter holds (callers s))) - 1"
    using filter_update_length [OF k, of holds p] h by simp
  then show "int (length (filter holds (callers (goto k p (s\<lparr>mu := False\<rparr>))))) = of_bool (mu (goto k p (s\<lparr>mu := False\<rparr>)))"
    using lock_invD(4) [OF inv] one_holder(1) [OF inv k h(1)] by (simp add: goto_def)
  have pc: "pc_ok (goto k p (s\<lparr>mu := False\<rparr>)) q = pc_ok s q" for q by (cases q) (simp_all add: goto_def)
  show "pc_ok (goto k p (s\<lparr>mu := False\<rparr>)) (callers (goto k p (s\<lparr>mu := False\<rparr>)) ! j)" if "j < length (callers (goto k p (s\<lparr>mu := False\<rparr>)))" for j
    using lock_invD(5) [OF inv, of j] that h(3) unfolding pc by (cases "j = k") (auto simp: goto_def)
  have r: "h_state (hs s ! h) \<noteq> lockHandleActive \<or> mons s ! h \<noteq> M_Exit \<and> \<not> releaseIntent (hs s ! h)" if "R_Txn h \<in> set (callers s) \<or> R_Failed h \<in> set (callers s)" for h
    using that holder_callers [OF _ k inv h(1), of h] rel by blast
  show "mon_ok (goto k p (s\<lparr>mu := False\<rparr>)) h" if "h < length (hs (goto k p (s\<lparr>mu := False\<rparr>)))" for h
  proof -
    have m: "mon_ok s h" using lock_invD(6) [OF inv, of h] that by (simp add: goto_def)
    have "mons s ! h \<noteq> M_Exit \<and> \<not> releaseIntent (hs s ! h)" if "h_state (hs s ! h) = lockHandleActive"
      using m that r [of h] unfolding mon_ok_def by blast
    moreover have "leaseID (hs s ! h) \<in> set (revoked s)" if "h_state (hs s ! h) = lockHandleReleased" "leaseID (hs s ! h) \<noteq> 0"
      using m that rev [of h] holder_callers(3) [OF _ k inv h(1), of h None] unfolding mon_ok_def by blast
    ultimately show ?thesis using m unfolding mon_ok_def goto_def by simp blast
  qed
qed (use lock_invD [OF inv] in \<open>auto simp: goto_def lease_ok_def\<close>)

lemma inv_set_h:
  assumes inv: "lock_inv s" and h: "h < length (hs s)"
    and f: "leaseID (f (hs s ! h)) = leaseID (hs s ! h)" "releaseIntent (f (hs s ! h)) = releaseIntent (hs s ! h)" "hwf (f (hs s ! h))"
      "lossObserved (hs s ! h) \<Longrightarrow> lossObserved (f (hs s ! h))"
      "h_state (f (hs s ! h)) = h_state (hs s ! h) \<or> h_state (hs s ! h) = lockHandleActive \<and> h_state (f (hs s ! h)) \<noteq> lockHandleActive"
      "h_state (f (hs s ! h)) = lockHandleReleased \<Longrightarrow> h_state (hs s ! h) = lockHandleReleased"
  shows "lock_inv (set_h h f s)"
proof (rule lock_invI)
  let ?s = "set_h h f s"
  have nth: "hs ?s ! j = (if j = h then f (hs s ! h) else hs s ! j)" for j using h by (simp add: set_h_def nth_list_update)
  have same: "length (hs ?s) = length (hs s)" "callers ?s = callers s" "mons ?s = mons s" "lk ?s = lk s" "mu ?s = mu s" "granted ?s = granted s" "revoked ?s = revoked s"
    by (simp_all add: set_h_def)
  have sub: "set (hs ?s) \<subseteq> insert (f (hs s ! h)) (set (hs s))" by (simp add: set_h_def set_update_subset_insert)
  show "hwf x" if "x \<in> set (hs ?s)" for x using that sub f(3) lock_invD(2) [OF inv] by blast
  have "pc_ok s q \<Longrightarrow> pc_ok ?s q" for q using f(2,5) by (cases q) (auto simp: same nth)
  then show "pc_ok ?s (callers ?s ! j)" if "j < length (callers ?s)" for j using lock_invD(5) [OF inv, of j] that by (simp add: same)
  have act: "h_state (f (hs s ! h)) = lockHandleActive \<Longrightarrow> h_state (hs s ! h) = lockHandleActive" using f(5) by auto
  have "mon_ok ?s h" using lock_invD(6) [OF inv h] f(4,6) act unfolding mon_ok_def same nth by (simp add: f(1,2)) blast
  then show "mon_ok ?s j" if "j < length (hs ?s)" for j
    using lock_invD(6) [OF inv, of j] that by (cases "j = h") (simp_all add: mon_ok_def same nth)
  have "leaseID ` set (hs s) = leaseID ` set (hs ?s)"
  proof -
    have "map leaseID (hs ?s) = map leaseID (hs s)" by (rule nth_equalityI) (auto simp: same nth f(1))
    then show ?thesis by (metis list.set_map)
  qed
  then show "lease_ok ?s" using lock_invD(7) [OF inv] by (auto simp: lease_ok_def same)
qed (use lock_invD [OF inv] in \<open>auto simp: set_h_def\<close>)

lemma clear_current_sel [simp]: "callers (clear_current h s) = callers s" "hs (clear_current h s) = hs s" "mons (clear_current h s) = mons s" "mu (clear_current h s) = mu s"
  "revoked (clear_current h s) = revoked s"
  by (simp_all add: clear_current_def)

lemma inv_clear:
  assumes inv: "lock_inv s" and st: "h_state (hs s ! h) \<noteq> lockHandleActive" and c: "A_Check h \<notin> set (callers s)"
  shows "lock_inv (clear_current h s)"
proof (cases "current (lk s) = Some h")
  case True
  let ?s = "clear_current h s"
  have s: "?s = s\<lparr>lk := (lk s)\<lparr>current := None\<rparr>\<rparr>" using True by (simp add: clear_current_def)
  have pc: "pc_ok ?s q" if "pc_ok s q" "q \<in> set (callers s)" for q using that c True by (cases q) (auto simp: s)
  show ?thesis
  proof (rule lock_invI)
    show "pc_ok ?s (callers ?s ! j)" if "j < length (callers ?s)" for j
      using pc [OF lock_invD(5) [OF inv, of j]] that by (simp add: s)
    show "mon_ok ?s j" if "j < length (hs ?s)" for j
      using lock_invD(6) [OF inv, of j] that True st by (auto simp: mon_ok_def s)
  qed (use lock_invD [OF inv] in \<open>auto simp: s lease_ok_def\<close>)
qed (use inv in \<open>simp add: clear_current_def\<close>)

lemma finish_simps [simp]:
  "leaseID (handle_finish st x) = leaseID x" "releaseIntent (handle_finish st x) = releaseIntent x" "lossObserved (handle_finish st x) = lossObserved x"
  by (simp_all add: handle_finish_def)

lemma finish_state: "hwf x \<Longrightarrow> st \<noteq> lockHandleActive \<Longrightarrow> hwf (handle_finish st x)"
  "hwf x \<Longrightarrow> h_state (handle_finish st x) = (if h_state x = lockHandleActive then st else h_state x)"
  by (auto simp: hwf_def handle_finish_def)

lemma inv_lose:
  assumes "lock_inv s" "h < length (hs s)"
  shows "lock_inv (set_h h (handle_finish lockHandleLost) s)" "h_state (hs (set_h h (handle_finish lockHandleLost) s) ! h) \<noteq> lockHandleActive"
proof -
  have w: "hwf (hs s ! h)" using lock_invD(2) [OF assms(1)] nth_mem [OF assms(2)] .
  show "lock_inv (set_h h (handle_finish lockHandleLost) s)"
    by (rule inv_set_h [OF assms]) (use w in \<open>auto simp: finish_state split: if_splits\<close>)
  show "h_state (hs (set_h h (handle_finish lockHandleLost) s) ! h) \<noteq> lockHandleActive" using w assms(2) by (simp add: set_h_def finish_state)
qed

lemma check_not_in: "lock_inv s \<Longrightarrow> \<not> mu s \<Longrightarrow> A_Check h \<notin> set (callers s)"
  using no_holder [of s] by (auto simp: in_set_conv_nth) (metis holds.simps(2))

lemma check_not_holder: "lock_inv s \<Longrightarrow> k < length (callers s) \<Longrightarrow> holds (callers s ! k) \<Longrightarrow> callers s ! k \<noteq> A_Check h \<Longrightarrow> A_Check h \<notin> set (callers s)"
  using one_holder(2) [of s k] by (auto simp: in_set_conv_nth) (metis holds.simps(2))

lemma active_current: "lock_inv s \<Longrightarrow> h < length (hs s) \<Longrightarrow> Valid (hs s ! h) \<Longrightarrow> current (lk s) = Some h"
  using lock_invD(6) [of s h] by (simp add: mon_ok_def Valid_def)

lemma inv_no_current:
  assumes inv: "lock_inv s" and n: "\<And>h. h < length (hs s) \<Longrightarrow> \<not> Valid (hs s ! h)" and c: "\<And>h. A_Check h \<notin> set (callers s)"
  shows "lock_inv (s\<lparr>lk := (lk s)\<lparr>current := None\<rparr>\<rparr>)"
proof (cases "current (lk s)")
  case None
  then have "s\<lparr>lk := (lk s)\<lparr>current := None\<rparr>\<rparr> = s" by simp
  then show ?thesis using inv by simp
next
  case (Some h)
  then have "s\<lparr>lk := (lk s)\<lparr>current := None\<rparr>\<rparr> = clear_current h s" by (simp add: clear_current_def)
  then show ?thesis using inv_clear [OF inv _ c] n lock_invD(3) [OF inv Some] by (simp add: Valid_def)
qed

lemma inv_Acquire_begin:
  assumes inv: "lock_inv s" and k: "k < length (callers s)" "callers s ! k = A_Lock" and m: "\<not> mu s"
  shows "lock_inv (Acquire_begin k s)"
proof -
  have out: "lock_inv (goto k p s)" if "\<not> holds p" "pc_ok s p" for p by (rule inv_goto [OF inv k(1) _ that]) (simp add: k(2))
  have enter: "lock_inv (goto k A_Call (s\<lparr>lk := (lk s)\<lparr>current := None\<rparr>, mu := True\<rparr>))" if "\<And>h. current (lk s) = Some h \<Longrightarrow> \<not> Valid (hs s ! h)"
  proof -
    have n: "\<not> Valid (hs s ! h)" if "h < length (hs s)" for h using active_current [OF inv that] \<open>\<And>h. _ \<Longrightarrow> \<not> Valid (hs s ! h)\<close> by blast
    note i = inv_no_current [OF inv n check_not_in [OF inv m]]
    show ?thesis using inv_take [OF i, of k A_Call] k(1) m by simp
  qed
  show ?thesis
  proof (cases "validateConfig (lk s)")
    case None
    show ?thesis
    proof (cases "current (lk s)")
      case c: None
      then have e: "s\<lparr>lk := (lk s)\<lparr>current := None\<rparr>, mu := True\<rparr> = s\<lparr>mu := True\<rparr>" by (cases s, cases "lk s") simp
      have "lock_inv (goto k A_Call (s\<lparr>mu := True\<rparr>))" using enter c unfolding e by simp
      then show ?thesis using None c by (simp add: Acquire_begin_def)
    next
      case (Some h)
      then show ?thesis using None enter out [of "Got h"] lock_invD(3) [OF inv Some] by (auto simp: Acquire_begin_def)
    qed
  qed (use out in \<open>simp add: Acquire_begin_def\<close>)
qed

lemma acquire_calls_leases:
  assumes "acquire_calls l a = (r, rv)"
  shows "r = Inl e \<Longrightarrow> an_grant a = Some lease \<Longrightarrow> lease \<noteq> 0 \<Longrightarrow> lease \<in> set rv"
    "r = Inr x \<Longrightarrow> an_grant a = Some (leaseID x) \<and> x = newLockHandle (lockKey l) (an_key a) (leaseID x) (fencingToken x) \<and> 0 < fencingToken x \<and> rv = []"
  using assms by (auto simp: acquire_calls_def revoke_def newLockHandle_def split: option.splits if_splits list.splits prod.splits)

lemma inv_leases:
  assumes "lock_inv s" "lease_ok (s\<lparr>granted := g, revoked := r\<rparr>)" "set (revoked s) \<subseteq> set r"
  shows "lock_inv (s\<lparr>granted := g, revoked := r\<rparr>)"
proof -
  have pc: "pc_ok (s\<lparr>granted := g, revoked := r\<rparr>) q = pc_ok s q" for q by (cases q) simp_all
  have "mon_ok s h \<Longrightarrow> mon_ok (s\<lparr>granted := g, revoked := r\<rparr>) h" for h using assms(3) by (auto simp: mon_ok_def)
  with assms pc show ?thesis by (simp add: lock_inv_def)
qed

lemma inv_Acquire_calls:
  assumes inv: "lock_inv s" and k: "k < length (callers s)" "callers s ! k = A_Call"
  shows "lock_inv (Acquire_calls a k s)"
proof -
  let ?g = "case an_grant a of None \<Rightarrow> granted s | Some lease \<Rightarrow> granted s @ [lease]"
  have holder: "holds (callers s ! k)" by (simp add: k(2))
  have cur: "current (lk s) = None" using lock_invD(5) [OF inv k(1)] k(2) by simp
  obtain r rv where c: "acquire_calls (lk s) a = (r, rv)" by fastforce
  note l = acquire_calls_leases [OF c]
  show ?thesis
  proof (cases r)
    case (Inl e)
    let ?t = "s\<lparr>granted := ?g, revoked := revoked s @ rv\<rparr>"
    have "lease_ok ?t" using lock_invD(7) [OF inv] l(1) [OF Inl] by (auto simp: lease_ok_def split: option.split)
    from inv_leave [OF inv_leases [OF inv this], of k "Ret (Some e)"] show ?thesis
      using k holder c Inl by (simp add: Acquire_calls_def Let_def)
  next
    case (Inr x)
    note x = l(2) [OF Inr]
    have st: "hwf x" "h_state x = lockHandleActive" "\<not> releaseIntent x" by (subst x [THEN conjunct2, THEN conjunct1]; simp add: newLockHandle_def hwf_def)+
    let ?n = "length (hs s)"
    let ?s = "s\<lparr>granted := ?g, hs := hs s @ [x], mons := mons s @ [M_Watch], lk := (lk s)\<lparr>current := Some ?n\<rparr>, callers := (callers s)[k := A_Check ?n]\<rparr>"
    have s': "Acquire_calls a k s = ?s" using c Inr by (simp add: Acquire_calls_def Let_def goto_def)
    have others: "\<not> holds (callers s ! j)" if "j < length (callers s)" "j \<noteq> k" for j by (rule one_holder(2) [OF inv k(1) holder that])
    have idle: "h_state (hs s ! h) \<noteq> lockHandleActive" if "h < ?n" for h using active_current [OF inv that] cur by (auto simp: Valid_def)
    show ?thesis unfolding s'
    proof (rule lock_invI)
      show "int (length (filter holds (callers ?s))) = of_bool (mu ?s)"
        using lock_invD(4) [OF inv] filter_update_length [OF k(1), of holds "A_Check ?n"] holder by simp
      have pc: "pc_ok ?s q" if "pc_ok s q" "\<not> holds q" for q using that by (cases q) (auto simp: nth_append)
      show "pc_ok ?s (callers ?s ! j)" if "j < length (callers ?s)" for j
        using pc [OF lock_invD(5) [OF inv, of j]] others [of j] that k(1) by (cases "j = k") auto
      have fin: "R_Fin h None \<notin> set (callers s)" for h using holder_callers(3) [OF _ k(1) inv holder, of h None] k(2) by auto
      show "mon_ok ?s h" if "h < length (hs ?s)" for h
        using lock_invD(6) [OF inv, of h] lock_invD(1) [OF inv] that idle [of h] st fin [of h] by (cases "h < ?n") (auto simp: mon_ok_def nth_append less_Suc_eq)
      show "lease_ok ?s" using lock_invD(7) [OF inv] x st by (auto simp: lease_ok_def)
    qed (use lock_invD [OF inv] st in auto)
  qed
qed

lemma inv_Acquire_end:
  assumes inv: "lock_inv s" and k: "k < length (callers s)" "callers s ! k = A_Check h"
  shows "lock_inv (Acquire_end h k s)"
proof -
  have holder: "holds (callers s ! k)" by (simp add: k(2))
  have h: "h < length (hs s)" "current (lk s) = Some h" using lock_invD(5) [OF inv k(1)] k(2) by simp_all
  have w: "h_done (hs s ! h) \<Longrightarrow> h_state (hs s ! h) \<noteq> lockHandleActive" using lock_invD(2) [OF inv nth_mem [OF h(1)]] by (auto simp: hwf_def)
  show ?thesis
  proof (cases "h_done (hs s ! h)")
    case False
    from inv_leave [OF inv k(1) holder, of "Got h"] show ?thesis using False h k(2) by (simp add: Acquire_end_def)
  next
    case True
    have n: "\<not> Valid (hs s ! j)" if "j < length (hs s)" for j using active_current [OF inv that] h(2) w True by (auto simp: Valid_def)
    let ?t = "goto k (Ret (Some ErrLockOwnershipLost)) (s\<lparr>mu := False\<rparr>)"
    have t: "lock_inv (goto k (Ret (Some ErrLockOwnershipLost)) (s\<lparr>mu := False\<rparr>))" using inv_leave [OF inv k(1) holder, of "Ret (Some ErrLockOwnershipLost)"] k(2) by simp
    have e: "Acquire_end h k s = ?t\<lparr>lk := (lk ?t)\<lparr>current := None\<rparr>\<rparr>" using True by (cases s) (simp add: Acquire_end_def goto_def)
    show ?thesis unfolding e by (rule inv_no_current [OF t _ check_not_in [OF t]]) (use n in \<open>simp_all add: goto_def\<close>)
  qed
qed

lemma inv_Release_begin:
  assumes inv: "lock_inv s" and k: "k < length (callers s)" "callers s ! k = R_Lock h" and m: "\<not> mu s"
  shows "lock_inv (Release_begin h k s)"
proof -
  have out: "lock_inv (goto k (Ret e) s)" for e by (rule inv_goto [OF inv k(1)]) (simp_all add: k(2))
  have "lock_inv (goto k (R_Intent h) (s\<lparr>mu := True\<rparr>))"
    by (rule inv_take [OF inv k(1) m]) (use lock_invD(5) [OF inv k(1)] k(2) in simp_all)
  with out show ?thesis by (cases "h_state (hs s ! h)") (simp_all add: Release_begin_def)
qed

text \<open>The holder of the mutex moves on and changes the handle its call is about.\<close>

lemma inv_holder_update:
  assumes inv: "lock_inv s" and k: "k < length (callers s)" and holder: "holds (callers s ! k)" "holds p" and h: "h < length (hs s)"
    and f: "leaseID (f (hs s ! h)) = leaseID (hs s ! h)" "hwf (f (hs s ! h))" "h_state (f (hs s ! h)) = lockHandleActive \<Longrightarrow> h_state (hs s ! h) = lockHandleActive"
    and me: "pc_ok (goto k p (set_h h f s)) p" "mon_ok (goto k p (set_h h f s)) h"
    and mine: "\<And>j. callers s ! k = R_Txn j \<or> callers s ! k = R_Failed j \<or> callers s ! k = R_Fin j None \<Longrightarrow> j = h"
  shows "lock_inv (goto k p (set_h h f s))"
proof (rule lock_invI)
  let ?s = "goto k p (set_h h f s)"
  have nth: "hs ?s ! j = (if j = h then f (hs s ! h) else hs s ! j)" for j using h by (simp add: goto_def set_h_def nth_list_update)
  have same: "length (hs ?s) = length (hs s)" "mons ?s = mons s" "lk ?s = lk s" "mu ?s = mu s" "granted ?s = granted s" "revoked ?s = revoked s" "callers ?s = (callers s)[k := p]"
    by (simp_all add: goto_def set_h_def)
  have sub: "set (hs ?s) \<subseteq> insert (f (hs s ! h)) (set (hs s))" by (simp add: goto_def set_h_def set_update_subset_insert)
  show "int (length (filter holds (callers ?s))) = of_bool (mu ?s)"
    using lock_invD(4) [OF inv] filter_update_length [OF k, of holds p] holder by (simp add: same)
  show "hwf x" if "x \<in> set (hs ?s)" for x using that sub f(2) lock_invD(2) [OF inv] by blast
  have pc: "pc_ok ?s q" if "pc_ok s q" "\<not> holds q" for q using that f(3) by (cases q) (auto simp: same nth)
  have others: "\<not> holds (callers s ! j)" if "j < length (callers s)" "j \<noteq> k" for j by (rule one_holder(2) [OF inv k holder(1) that])
  show "pc_ok ?s (callers ?s ! j)" if "j < length (callers ?s)" for j
    using pc [OF lock_invD(5) [OF inv, of j]] others [of j] that k me(1) by (cases "j = k") (auto simp: same)
  have r: "R_Txn j \<notin> set (callers s) \<and> R_Failed j \<notin> set (callers s) \<and> R_Fin j None \<notin> set (callers s)" if "j \<noteq> h" for j
    using that mine holder_callers [OF _ k inv holder(1)] by blast
  show "mon_ok ?s j" if "j < length (hs ?s)" for j
  proof (cases "j = h")
    case False
    have "mon_ok s j" using lock_invD(6) [OF inv, of j] that by (simp add: same)
    then show ?thesis using r [OF False] False unfolding mon_ok_def by (simp add: same nth) blast
  qed (use me(2) in simp)
  have "map leaseID (hs ?s) = map leaseID (hs s)" by (rule nth_equalityI) (auto simp: same nth f(1))
  then have "leaseID ` set (hs ?s) = leaseID ` set (hs s)" by (metis list.set_map)
  then show "lease_ok ?s" using lock_invD(7) [OF inv] by (simp add: lease_ok_def same)
qed (use lock_invD [OF inv] in \<open>auto simp: goto_def set_h_def\<close>)

lemma inv_Release_intent:
  assumes inv: "lock_inv s" and k: "k < length (callers s)" "callers s ! k = R_Intent h"
  shows "lock_inv (Release_intent h k s)"
proof -
  have h: "h < length (hs s)" using lock_invD(5) [OF inv k(1)] k(2) by simp
  have w: "hwf (hs s ! h)" by (rule lock_invD(2) [OF inv nth_mem [OF h]])
  have none: "R_Fin h None \<notin> set (callers s)" using holder_callers(3) [OF _ k(1) inv, of h None] k(2) by auto
  have me: "R_Txn h \<in> set ((callers s)[k := R_Txn h])" using k(1) by (simp add: set_update_memI)
  show ?thesis unfolding Release_intent_def
  proof (rule inv_holder_update [OF inv k(1) _ _ h])
    show "mon_ok (goto k (R_Txn h) (set_h h (\<lambda>x. x\<lparr>releaseIntent := True\<rparr>) s)) h"
      using lock_invD(6) [OF inv h] h me none unfolding mon_ok_def by (simp add: goto_def set_h_def)
  qed (use k(2) w h in \<open>auto simp: hwf_def goto_def set_h_def\<close>)
qed

text \<open>The holder finishes the handle; a handle it releases keeps its lease only until \<open>Release_finish\<close>.\<close>

lemma inv_holder_finish:
  assumes inv: "lock_inv s" and k: "k < length (callers s)" "callers s ! k = R_Txn h \<or> callers s ! k = R_Failed h"
    and st: "st = lockHandleReleased \<and> e = None \<or> st = lockHandleLost"
  shows "lock_inv (goto k (R_Fin h e) (set_h h (handle_finish st) s))"
proof -
  have h: "h < length (hs s)" using lock_invD(5) [OF inv k(1)] k(2) by auto
  have w: "hwf (hs s ! h)" by (rule lock_invD(2) [OF inv nth_mem [OF h]])
  have holder: "holds (callers s ! k)" using k(2) by auto
  have none: "R_Fin h None \<notin> set (callers s)" using holder_callers(3) [OF _ k(1) inv holder, of h None] k(2) by auto
  have me: "R_Fin h e \<in> set ((callers s)[k := R_Fin h e])" using k(1) by (simp add: set_update_memI)
  have n: "h_state (handle_finish st (hs s ! h)) \<noteq> lockHandleActive"
    and rel: "h_state (handle_finish st (hs s ! h)) = lockHandleReleased \<Longrightarrow> h_state (hs s ! h) = lockHandleReleased \<or> e = None"
    using w st by (auto simp: finish_state split: if_splits)
  show ?thesis
  proof (rule inv_holder_update [OF inv k(1) holder _ h])
    have "mon_ok s h" by (rule lock_invD(6) [OF inv h])
    then show "mon_ok (goto k (R_Fin h e) (set_h h (handle_finish st) s)) h"
      using h n rel me none unfolding mon_ok_def by (simp add: goto_def set_h_def) blast
  qed (use k(2) w h n st in \<open>auto simp: finish_state goto_def set_h_def\<close>)
qed

lemma inv_Release_answer:
  assumes inv: "lock_inv s" and k: "k < length (callers s)" "callers s ! k = R_Txn h"
  shows "lock_inv (Release_answer ans h k s)"
proof -
  have holder: "holds (callers s ! k)" by (simp add: k(2))
  have h: "h < length (hs s)" using lock_invD(5) [OF inv k(1)] k(2) by simp
  have w: "hwf (hs s ! h)" by (rule lock_invD(2) [OF inv nth_mem [OF h]])
  have none: "R_Fin h None \<notin> set (callers s)" using holder_callers(3) [OF _ k(1) inv holder, of h None] k(2) by auto
  have me: "R_Failed h \<in> set ((callers s)[k := R_Failed h])" using k(1) by (simp add: set_update_memI)
  have "lock_inv (goto k (R_Failed h) (set_h h (\<lambda>x. x\<lparr>releaseIntent := False\<rparr>) s))"
  proof (rule inv_holder_update [OF inv k(1) holder _ h])
    show "mon_ok (goto k (R_Failed h) (set_h h (\<lambda>x. x\<lparr>releaseIntent := False\<rparr>) s)) h"
      using lock_invD(6) [OF inv h] h me none unfolding mon_ok_def by (simp add: goto_def set_h_def)
  qed (use k(2) w h in \<open>auto simp: hwf_def goto_def set_h_def\<close>)
  moreover have "lock_inv (goto k (R_Fin h (Some ErrLockOwnershipLost)) (set_h h (handle_finish lockHandleLost) s))"
    "lock_inv (goto k (R_Fin h None) (set_h h (handle_finish lockHandleReleased) s))"
    by (rule inv_holder_finish [OF inv k(1)]; simp add: k(2))+
  ultimately show ?thesis by (simp add: Release_answer_def split: option.split bool.split)
qed

lemma inv_finishFailed:
  assumes inv: "lock_inv s" and k: "k < length (callers s)" "callers s ! k = R_Failed h"
  shows "lock_inv (finishFailedReleaseLocked h k s)"
proof (cases "lossObserved (hs s ! h)")
  case True
  then show ?thesis using inv_holder_finish [OF inv k(1)] k(2) by (simp add: finishFailedReleaseLocked_def)
next
  case False
  have h: "h < length (hs s)" "\<not> releaseIntent (hs s ! h)" using lock_invD(5) [OF inv k(1)] k(2) by simp_all
  then have "mons s ! h \<noteq> M_Exit" using lock_invD(6) [OF inv h(1)] False by (auto simp: mon_ok_def)
  then have "lock_inv (goto k (Ret (Some (LockCallError ''release lock owner''))) (s\<lparr>mu := False\<rparr>))"
    by (intro inv_leave [OF inv k(1)]) (use k(2) h in auto)
  then show ?thesis using False by (simp add: finishFailedReleaseLocked_def)
qed

lemma inv_Release_finish:
  assumes inv: "lock_inv s" and k: "k < length (callers s)" "callers s ! k = R_Fin h e"
  shows "lock_inv (Release_finish e h k s)"
proof -
  have holder: "holds (callers s ! k)" by (simp add: k(2))
  have h: "h < length (hs s)" "h_state (hs s ! h) \<noteq> lockHandleActive" using lock_invD(5) [OF inv k(1)] k(2) by simp_all
  let ?r = "s\<lparr>granted := granted s, revoked := revoked s @ (if e = None then revoke (leaseID (hs s ! h)) else [])\<rparr>"
  have r: "lock_inv ?r" by (rule inv_leases [OF inv]) (use lock_invD(7) [OF inv] in \<open>auto simp: lease_ok_def\<close>)
  have "A_Check h \<notin> set (callers s)" by (rule check_not_holder [OF inv k(1) holder]) (simp add: k(2))
  then have c: "lock_inv (clear_current h ?r)" using inv_clear [OF r] h(2) by simp
  have "lock_inv (goto k (Ret e) ((clear_current h ?r)\<lparr>mu := False\<rparr>))"
    by (rule inv_leave [OF c]) (use k in \<open>auto simp: revoke_def\<close>)
  then show ?thesis by (simp add: Release_finish_def)
qed

lemma inv_caller:
  assumes inv: "lock_inv s" and k: "k < length (callers s)" and st: "caller_step a ans k s = Some s'"
  shows "lock_inv s'"
proof -
  have ok: "pc_ok s (callers s ! k)" by (rule lock_invD(5) [OF inv k])
  have out: "lock_inv (goto k p s)" if "\<not> holds (callers s ! k)" "\<not> holds p" "pc_ok s p" for p by (rule inv_goto [OF inv k that])
  show ?thesis
  proof (cases "callers s ! k")
    case A_Lock
    then show ?thesis using st inv_Acquire_begin [OF inv k] by (auto simp: caller_step_def split: if_splits)
  next
    case A_Call
    then show ?thesis using st inv_Acquire_calls [OF inv k] by (auto simp: caller_step_def)
  next
    case (A_Check h)
    then show ?thesis using st inv_Acquire_end [OF inv k] by (auto simp: caller_step_def)
  next
    case (R_Lock h)
    then show ?thesis using st inv_Release_begin [OF inv k] by (auto simp: caller_step_def split: if_splits)
  next
    case (R_Txn h)
    then show ?thesis using st inv_Release_answer [OF inv k] by (auto simp: caller_step_def)
  next
    case (R_Intent h)
    then show ?thesis using st inv_Release_intent [OF inv k] by (auto simp: caller_step_def)
  next
    case (R_Fin h e)
    then show ?thesis using st inv_Release_finish [OF inv k] by (auto simp: caller_step_def split: if_splits)
  next
    case (V_Fin h)
    then show ?thesis using st ok out by (auto simp: caller_step_def split: if_splits)
  next
    case (R_Failed h)
    then show ?thesis using st inv_finishFailed [OF inv k] by (auto simp: caller_step_def)
  next
    case (V_Begin h)
    then show ?thesis using st ok out by (auto simp: caller_step_def Guarded_begin_def)
  next
    case (V_Txn h)
    have h: "h < length (hs s)" using ok V_Txn by simp
    have "lock_inv (goto k (V_Fin h) (set_h h (handle_finish lockHandleLost) s))"
      by (rule inv_goto [OF inv_lose(1) [OF inv h]]) (use k h inv_lose(2) [OF inv h] V_Txn in \<open>auto simp: set_h_def\<close>)
    then show ?thesis using st V_Txn out by (auto simp: caller_step_def Guarded_answer_def split: option.splits bool.splits)
  next
    case (L_Lock h)
    then have m: "\<not> mu s" and s': "s' = goto k (Ret (Some ErrLockOwnershipLost)) (clear_current h s)" using st by (auto simp: caller_step_def split: if_splits)
    have c: "lock_inv (clear_current h s)" using ok L_Lock by (intro inv_clear [OF inv _ check_not_in [OF inv m]]) simp
    show ?thesis unfolding s' by (rule inv_goto [OF c]) (use k L_Lock in simp_all)
  next
    case U_Lock
    then show ?thesis using st out lock_invD(3) [OF inv] by (auto simp: caller_step_def Unlock_begin_def split: if_splits option.splits)
  qed (use st in \<open>simp_all add: caller_step_def\<close>)
qed

lemma inv_goto_mon:
  assumes inv: "lock_inv s" and h: "h < length (hs s)" and ok: "mon_ok (goto_mon h p s) h"
  shows "lock_inv (goto_mon h p s)"
proof (rule lock_invI)
  have pc: "pc_ok (goto_mon h p s) q = pc_ok s q" for q by (cases q) (simp_all add: goto_mon_def)
  show "pc_ok (goto_mon h p s) (callers (goto_mon h p s) ! j)" if "j < length (callers (goto_mon h p s))" for j
    using lock_invD(5) [OF inv, of j] that unfolding pc by (simp add: goto_mon_def)
  show "mon_ok (goto_mon h p s) j" if "j < length (hs (goto_mon h p s))" for j
    using lock_invD(6) [OF inv, of j] that ok by (cases "j = h") (auto simp: goto_mon_def mon_ok_def)
qed (use lock_invD [OF inv] in \<open>auto simp: goto_mon_def lease_ok_def\<close>)

lemma inv_monitor:
  assumes inv: "lock_inv s" and h: "h < length (hs s)" and st: "monitor_step h s = Some s'"
  shows "lock_inv s'"
proof -
  have w: "hwf (hs s ! h)" by (rule lock_invD(2) [OF inv nth_mem [OF h]])
  have l: "length (mons s) = length (hs s)" by (rule lock_invD(1) [OF inv])
  note m = lock_invD(6) [OF inv h]
  show ?thesis
  proof (cases "mons s ! h")
    case M_Watch
    let ?t = "set_h h (\<lambda>x. x\<lparr>lossObserved := True\<rparr>) s"
    have s': "s' = goto_mon h M_Stored ?t" using st M_Watch by (simp add: monitor_step_def)
    have t: "lock_inv ?t" by (rule inv_set_h [OF inv h]) (use w in \<open>auto simp: hwf_def\<close>)
    show ?thesis unfolding s' by (rule inv_goto_mon [OF t]) (use h l lock_invD(6) [OF t, of h] in \<open>auto simp: set_h_def goto_mon_def mon_ok_def\<close>)
  next
    case M_Stored
    then have s': "s' = goto_mon h (if \<not> releaseIntent (hs s ! h) then M_Mark else M_Exit) s" using st by (simp add: monitor_step_def)
    show ?thesis unfolding s' by (rule inv_goto_mon [OF inv h]) (use h l m M_Stored in \<open>auto simp: goto_mon_def mon_ok_def\<close>)
  next
    case M_Mark
    then have s': "s' = goto_mon h M_Fin (set_h h (handle_finish lockHandleLost) s)" using st by (simp add: monitor_step_def)
    show ?thesis unfolding s'
      by (rule inv_goto_mon [OF inv_lose(1) [OF inv h]])
         (use h l lock_invD(6) [OF inv_lose(1) [OF inv h], of h] inv_lose(2) [OF inv h] M_Mark in \<open>auto simp: set_h_def goto_mon_def mon_ok_def\<close>)
  next
    case M_Fin
    then have s': "s' = goto_mon h M_Lock s" using st by (auto simp: monitor_step_def split: if_splits)
    show ?thesis unfolding s' by (rule inv_goto_mon [OF inv h]) (use h l m M_Fin in \<open>auto simp: goto_mon_def mon_ok_def\<close>)
  next
    case M_Lock
    then have u: "\<not> mu s" and s': "s' = goto_mon h M_Exit (clear_current h s)" using st by (auto simp: monitor_step_def split: if_splits)
    have n: "h_state (hs s ! h) \<noteq> lockHandleActive" using m M_Lock by (simp add: mon_ok_def)
    have c: "lock_inv (clear_current h s)" by (rule inv_clear [OF inv n check_not_in [OF inv u]])
    show ?thesis unfolding s' by (rule inv_goto_mon [OF c]) (use h l n lock_invD(6) [OF c, of h] M_Lock in \<open>auto simp: goto_mon_def mon_ok_def\<close>)
  qed (use st in \<open>simp add: monitor_step_def\<close>)
qed

lemma finish_step_sel:
  assumes "finish_step x = Some y" "hwf x"
  shows "leaseID y = leaseID x" "releaseIntent y = releaseIntent x" "hwf y" "lossObserved y = lossObserved x" "h_state y = h_state x"
  using assms by (auto simp: finish_step_def hwf_def split: if_splits)

lemma inv_inside_once:
  assumes inv: "lock_inv s" and h: "h < length (hs s)" and x: "finish_step (hs s ! h) = Some x"
  shows "lock_inv (set_h h (\<lambda>_. x) s)"
  by (rule inv_set_h [OF inv h]) (use finish_step_sel [OF x lock_invD(2) [OF inv nth_mem [OF h]]] in simp_all)

lemma inv_begin_call:
  assumes inv: "lock_inv s" and b: "begins s p"
  shows "lock_inv (s\<lparr>callers := callers s @ [p]\<rparr>)"
proof (rule lock_invI)
  have p: "\<not> holds p" "pc_ok s p" using b by (cases p; simp)+
  have pc: "pc_ok (s\<lparr>callers := callers s @ [p]\<rparr>) q = pc_ok s q" for q by (cases q) simp_all
  show "int (length (filter holds (callers (s\<lparr>callers := callers s @ [p]\<rparr>)))) = of_bool (mu (s\<lparr>callers := callers s @ [p]\<rparr>))"
    using lock_invD(4) [OF inv] p by simp
  show "pc_ok (s\<lparr>callers := callers s @ [p]\<rparr>) (callers (s\<lparr>callers := callers s @ [p]\<rparr>) ! j)" if "j < length (callers (s\<lparr>callers := callers s @ [p]\<rparr>))" for j
    using lock_invD(5) [OF inv, of j] that p(2) unfolding pc by (auto simp: nth_append less_Suc_eq)
  show "mon_ok (s\<lparr>callers := callers s @ [p]\<rparr>) h" if "h < length (hs (s\<lparr>callers := callers s @ [p]\<rparr>))" for h
    using lock_invD(6) [OF inv, of h] that by (auto simp: mon_ok_def)
qed (use lock_invD [OF inv] in \<open>auto simp: lease_ok_def\<close>)

lemma lock_inv_reach: "lock_reach s \<Longrightarrow> lock_inv s"
proof (induction rule: lock_reach.induct)
  case (init client key options)
  show ?case by (simp add: lock_inv_def lock_init_def NewEtcdLock_def lease_ok_def Let_def)
next
  case (step s s')
  from step.hyps(2) step.IH show ?case
    by cases (auto intro: inv_begin_call inv_caller inv_inside_once inv_monitor)
qed

text \<open>
  Property C37. However callers, monitors and the goroutines inside \<^verbatim>\<open>finish\<close> interleave and whatever etcd answers: at most
  one handle of the lock is valid, and it is the one the lock remembers; the channel of a handle is closed only after the
  handle became invalid and the context of its session was cancelled, and a handle that is not valid either has its channel
  closed or a goroutine about to do so; when the monitor of a handle has ended and no release of it is under way, the handle
  is not valid, so a loss is never missed. Every lease granted has been given to etcd for revocation, or belongs to a handle
  that is valid, or to one whose \<^verbatim>\<open>finish\<close> or \<^verbatim>\<open>Release\<close> has not returned, or to a lost one, whose session no longer keeps the
  lease alive; once \<^verbatim>\<open>Release\<close> of a released handle has returned, its lease was given for revocation.
\<close>

theorem lock_handles_consistent:
  assumes "lock_reach s"
  shows "(\<forall>h < length (hs s). Valid (hs s ! h) \<longrightarrow> current (lk s) = Some h) \<and>
    (\<forall>h < length (hs s). h_done (hs s ! h) \<longrightarrow> \<not> Valid (hs s ! h) \<and> cancelled (hs s ! h)) \<and>
    (\<forall>h < length (hs s). \<not> Valid (hs s ! h) \<longrightarrow> h_done (hs s ! h) \<or> finish_step (hs s ! h) \<noteq> None) \<and>
    (\<forall>h < length (hs s). mons s ! h = M_Exit \<and> R_Txn h \<notin> set (callers s) \<and> R_Failed h \<notin> set (callers s) \<longrightarrow> \<not> Valid (hs s ! h)) \<and>
    (\<forall>l\<in>set (granted s). l \<noteq> 0 \<longrightarrow> l \<in> set (revoked s) \<or>
       (\<exists>h < length (hs s). leaseID (hs s ! h) = l \<and>
          (Valid (hs s ! h) \<or> \<not> h_done (hs s ! h) \<or> R_Fin h None \<in> set (callers s) \<or> Lost (hs s ! h) \<and> cancelled (hs s ! h)))) \<and>
    (\<forall>h < length (hs s). h_state (hs s ! h) = lockHandleReleased \<and> leaseID (hs s ! h) \<noteq> 0 \<and> R_Fin h None \<notin> set (callers s) \<longrightarrow>
       leaseID (hs s ! h) \<in> set (revoked s))"
proof (intro conjI allI ballI impI)
  note inv = lock_inv_reach [OF assms]
  have w: "hwf (hs s ! h)" if "h < length (hs s)" for h by (rule lock_invD(2) [OF inv nth_mem [OF that]])
  show "current (lk s) = Some h" if "h < length (hs s)" "Valid (hs s ! h)" for h by (rule active_current [OF inv that])
  show "\<not> Valid (hs s ! h)" "cancelled (hs s ! h)" if "h < length (hs s)" "h_done (hs s ! h)" for h
    using w [OF that(1)] that(2) by (auto simp: hwf_def Valid_def)
  show "h_done (hs s ! h) \<or> finish_step (hs s ! h) \<noteq> None" if "h < length (hs s)" "\<not> Valid (hs s ! h)" for h
    using w [OF that(1)] that(2) by (auto simp: hwf_def Valid_def finish_step_def)
  show "\<not> Valid (hs s ! h)" if "h < length (hs s)" "mons s ! h = M_Exit \<and> R_Txn h \<notin> set (callers s) \<and> R_Failed h \<notin> set (callers s)" for h
    using lock_invD(6) [OF inv that(1)] that(2) by (auto simp: mon_ok_def Valid_def)
  show rel: "leaseID (hs s ! h) \<in> set (revoked s)"
    if "h < length (hs s)" "h_state (hs s ! h) = lockHandleReleased \<and> leaseID (hs s ! h) \<noteq> 0 \<and> R_Fin h None \<notin> set (callers s)" for h
    using lock_invD(6) [OF inv that(1)] that(2) by (auto simp: mon_ok_def)
  show "l \<in> set (revoked s) \<or> (\<exists>h < length (hs s). leaseID (hs s ! h) = l \<and>
          (Valid (hs s ! h) \<or> \<not> h_done (hs s ! h) \<or> R_Fin h None \<in> set (callers s) \<or> Lost (hs s ! h) \<and> cancelled (hs s ! h)))"
    if "l \<in> set (granted s)" "l \<noteq> 0" for l
  proof (cases "l \<in> set (revoked s)")
    case False
    then have "l \<in> leaseID ` set (hs s)" using lock_invD(7) [OF inv] that by (auto simp: lease_ok_def)
    then obtain h where h: "h < length (hs s)" "leaseID (hs s ! h) = l" by (auto simp: in_set_conv_nth)
    have "Valid (hs s ! h) \<or> \<not> h_done (hs s ! h) \<or> R_Fin h None \<in> set (callers s) \<or> Lost (hs s ! h) \<and> cancelled (hs s ! h)"
      using rel [OF h(1)] w [OF h(1)] h(2) that(2) False by (cases "h_state (hs s ! h)") (auto simp: hwf_def Valid_def Lost_def)
    then show ?thesis using h by blast
  qed simp
qed

text \<open>A run: the owner key is lost while the call of a release fails.\<close>

datatype lock_action = LBegin caller_pc | LCaller "bool option" nat | LMonitor nat | LInside nat

definition good_answers :: acquire_answers where
  "good_answers = \<lparr>an_grant = Some 77, an_session = True, an_tries = (\<lambda>n. if n = 0 then Try_locked else Try_ok), an_waits = (\<lambda>n. True),
     an_key = ''k/77'', an_owner = Some [(77, 5)]\<rparr>"

fun replay_lock :: "lock_action list \<Rightarrow> lsys \<Rightarrow> lsys option" where
  "replay_lock [] s = Some s"
| "replay_lock (LBegin p # as) s = (if begins s p then replay_lock as (s\<lparr>callers := callers s @ [p]\<rparr>) else None)"
| "replay_lock (LCaller ans k # as) s = (if k < length (callers s) then Option.bind (caller_step good_answers ans k s) (replay_lock as) else None)"
| "replay_lock (LMonitor h # as) s = (if h < length (hs s) then Option.bind (monitor_step h s) (replay_lock as) else None)"
| "replay_lock (LInside h # as) s = (if h < length (hs s) then Option.bind (finish_step (hs s ! h)) (\<lambda>x. replay_lock as (set_h h (\<lambda>_. x) s)) else None)"

lemma replay_lock_reach: "replay_lock as s = Some s' \<Longrightarrow> lock_reach s \<Longrightarrow> lock_reach s'"
  by (induction as s rule: replay_lock.induct)
     (auto split: if_splits bind_splits intro: lock_reach.step lock_step.begin_call lock_step.caller lock_step.monitor lock_step.inside_once)

definition lost_run :: "lock_action list" where
  "lost_run = [LBegin A_Lock, LCaller None 0, LCaller None 0, LCaller None 0, LBegin (R_Lock 0), LCaller None 1, LCaller None 1, LMonitor 0, LMonitor 0,
     LCaller None 1, LCaller None 1, LInside 0, LInside 0, LCaller None 1]"

theorem lock_handles_consistent_witness:
  "case replay_lock lost_run (lock_init True ''k'' DefaultLockOptions) of
     None \<Rightarrow> False
   | Some s \<Rightarrow> mons s = [M_Exit] \<and> callers s = [Got 0, Ret (Some ReleaseAndLost)] \<and> \<not> Valid (hs s ! 0) \<and> cancelled (hs s ! 0)"
proof -
  have "case replay_lock lost_run (lock_init True ''k'' DefaultLockOptions) of
      None \<Rightarrow> False | Some s \<Rightarrow> mons s = [M_Exit] \<and> callers s = [Got 0, Ret (Some ReleaseAndLost)] \<and> length (hs s) = 1 \<and> h_done (hs s ! 0)"
    by code_simp
  then obtain s where s: "replay_lock lost_run (lock_init True ''k'' DefaultLockOptions) = Some s" "mons s = [M_Exit]" "callers s = [Got 0, Ret (Some ReleaseAndLost)]"
      "length (hs s) = 1" "h_done (hs s ! 0)"
    by (auto split: option.splits)
  have "lock_reach s" using replay_lock_reach [OF s(1) lock_reach.init] .
  from lock_handles_consistent [OF this] s show ?thesis by simp
qed

end
