(* ===== verification/Lock_Manager.thy ===== *)
theory Lock_Manager
  imports Lock
begin

text \<open>
  \<^verbatim>\<open>zDistributed/lock_manager.go\<close> and \<^verbatim>\<open>watchdog.go\<close>: the table of locks by key and the watchdog that drops locks which
  are not held.

  Of a lock the two components use whether it is held (\<^verbatim>\<open>IsLocked\<close>) and \<^verbatim>\<open>Unlock\<close>, whose outcome is an input. \<open>dog_step\<close>
  interleaves users of the manager and of the locks with the rounds of the watchdog. A round is taken by a goroutine that
  \<^verbatim>\<open>Start\<close> began and that has not ended; a goroutine whose context is cancelled may end or, when its ticker is ready too, take
  another round, and the mutex of the watchdog keeps rounds apart. Maps are lists of bindings; the order in which a round
  visits the locks is that of an arbitrary list.
\<close>

section \<open>The manager\<close>

record lock_object =
  lock_key :: string
  held :: bool

record LockManager =
  objects :: "lock_object list"
  locks :: "(string \<times> nat) list"

definition NewLockManager :: LockManager where
  "NewLockManager = \<lparr>objects = [], locks = []\<rparr>"

definition GetLock :: "string \<Rightarrow> LockManager \<Rightarrow> nat \<times> LockManager" where
  "GetLock key m =
     (case map_of (locks m) key of
        Some i \<Rightarrow> (i, m)
      | None \<Rightarrow>
          (let i = length (objects m)
           in (i, m\<lparr>objects := objects m @ [\<lparr>lock_key = key, held = False\<rparr>], locks := AList.update key i (locks m)\<rparr>)))"

text \<open>\<^verbatim>\<open>lock.Unlock\<close> when its call succeeds.\<close>

definition unlock :: "nat \<Rightarrow> LockManager \<Rightarrow> LockManager" where
  "unlock i m = m\<lparr>objects := (objects m)[i := (objects m ! i)\<lparr>held := False\<rparr>]\<rparr>"

definition ReleaseLock :: "lock_error option \<Rightarrow> string \<Rightarrow> LockManager \<Rightarrow> lock_error option \<times> LockManager" where
  "ReleaseLock outcome key m =
     (case map_of (locks m) key of
        None \<Rightarrow> (None, m)
      | Some i \<Rightarrow>
          (case outcome of
             Some e \<Rightarrow> (Some e, m)
           | None \<Rightarrow> (None, (unlock i m)\<lparr>locks := AList.delete key (locks m)\<rparr>)))"

fun release_all_loop :: "(nat \<Rightarrow> lock_error option) \<Rightarrow> (string \<times> nat) list \<Rightarrow> LockManager \<Rightarrow> lock_error option \<times> LockManager" where
  "release_all_loop out [] m = (None, m)"
| "release_all_loop out ((key, i) # ls) m =
     (case out i of
        Some e \<Rightarrow> (Some e, m)
      | None \<Rightarrow> release_all_loop out ls ((unlock i m)\<lparr>locks := AList.delete key (locks m)\<rparr>))"

definition ReleaseAll :: "(nat \<Rightarrow> lock_error option) \<Rightarrow> LockManager \<Rightarrow> lock_error option \<times> LockManager" where
  "ReleaseAll out m = release_all_loop out (locks m) m"

definition GetLockCount :: "LockManager \<Rightarrow> nat" where
  "GetLockCount m = length (locks m)"

section \<open>The watchdog\<close>

record WatchdogConfig =
  CheckInterval :: duration
  AutoRenew :: bool
  MaxFailures :: int

definition DefaultWatchdogConfig :: WatchdogConfig where
  "DefaultWatchdogConfig = \<lparr>CheckInterval = 5 * 10 ^ 9, AutoRenew = False, MaxFailures = 3\<rparr>"

definition normal_config :: "WatchdogConfig \<Rightarrow> WatchdogConfig" where
  "normal_config c =
     (let c = (if CheckInterval c \<le> 0 then c\<lparr>CheckInterval := CheckInterval DefaultWatchdogConfig\<rparr> else c)
      in if MaxFailures c \<le> 0 then c\<lparr>MaxFailures := MaxFailures DefaultWatchdogConfig\<rparr> else c)"

text \<open>Where a round is: between rounds, before the next lock, or about to release the lock of a key.\<close>

datatype round_pc = D_Idle | D_Visit "(string \<times> nat) list" | D_Release string "(string \<times> nat) list"

datatype run_state = Running | Cancelled | Ended

text \<open>\<open>runs\<close> has a state for every goroutine begun by \<^verbatim>\<open>Start\<close>, \<open>in_round\<close> is the one that takes the round. \<open>seen\<close>, which the code does not keep, records what the rounds saw, newest first, and forgets a key when it is dropped.\<close>

record dog =
  manager :: LockManager
  dog_config :: WatchdogConfig
  dog_running :: bool
  runs :: "run_state list"
  dog_cancel :: "nat option"
  in_round :: nat
  failures :: "string \<Rightarrow> int option"
  round :: round_pc
  seen :: "string \<Rightarrow> bool list"

definition NewLockWatchdog :: "WatchdogConfig \<Rightarrow> dog" where
  "NewLockWatchdog c =
     \<lparr>manager = NewLockManager, dog_config = normal_config c, dog_running = False, runs = [], dog_cancel = None, in_round = 0, failures = (\<lambda>_. None), round = D_Idle, seen = (\<lambda>_. [])\<rparr>"

definition cancel_run :: "nat \<Rightarrow> dog \<Rightarrow> dog" where
  "cancel_run g d = (if g < length (runs d) \<and> runs d ! g = Running then d\<lparr>runs := (runs d)[g := Cancelled]\<rparr> else d)"

definition dog_Start :: "dog \<Rightarrow> dog" where
  "dog_Start d = (if dog_running d then d else d\<lparr>dog_running := True, dog_cancel := Some (length (runs d)), runs := runs d @ [Running]\<rparr>)"

definition dog_Stop :: "dog \<Rightarrow> dog" where
  "dog_Stop d =
     (if \<not> dog_running d then d
      else case dog_cancel d of None \<Rightarrow> d\<lparr>dog_running := False\<rparr> | Some g \<Rightarrow> cancel_run g (d\<lparr>dog_running := False\<rparr>))"

definition dog_IsRunning :: "dog \<Rightarrow> bool" where
  "dog_IsRunning d = dog_running d"

definition failure_count :: "string \<Rightarrow> dog \<Rightarrow> int" where
  "failure_count key d = (case failures d key of None \<Rightarrow> 0 | Some n \<Rightarrow> n)"

text \<open>One iteration of the loop of \<^verbatim>\<open>checkLocks\<close>, up to the release.\<close>

definition check_lock :: "string \<Rightarrow> nat \<Rightarrow> (string \<times> nat) list \<Rightarrow> dog \<Rightarrow> dog" where
  "check_lock key i rest d =
     (let locked = held (objects (manager d) ! i);
          d = d\<lparr>seen := (seen d)(key := locked # seen d key)\<rparr>
      in if \<not> locked
         then (let failCount = failure_count key d + 1;
                   d = d\<lparr>failures := (failures d)(key \<mapsto> failCount)\<rparr>
               in if failCount \<ge> MaxFailures (dog_config d) then d\<lparr>round := D_Release key rest\<rparr> else d\<lparr>round := D_Visit rest\<rparr>)
         else d\<lparr>failures := (failures d)(key \<mapsto> 0), round := D_Visit rest\<rparr>)"

definition drop_lock :: "lock_error option \<Rightarrow> string \<Rightarrow> (string \<times> nat) list \<Rightarrow> dog \<Rightarrow> dog" where
  "drop_lock outcome key rest d =
     d\<lparr>manager := snd (ReleaseLock outcome key (manager d)), failures := (failures d)(key := None), round := D_Visit rest, seen := (seen d)(key := [])\<rparr>"

inductive dog_step :: "dog \<Rightarrow> dog \<Rightarrow> bool" where
  get: "dog_step d (d\<lparr>manager := snd (GetLock key (manager d))\<rparr>)"
| release: "dog_step d (d\<lparr>manager := snd (ReleaseLock outcome key (manager d))\<rparr>)"
| release_all: "dog_step d (d\<lparr>manager := snd (ReleaseAll out (manager d))\<rparr>)"
| change: "i < length (objects (manager d)) \<Longrightarrow>
    dog_step d (d\<lparr>manager := (manager d)\<lparr>objects := (objects (manager d))[i := (objects (manager d) ! i)\<lparr>held := b\<rparr>]\<rparr>\<rparr>)"
| start: "dog_step d (dog_Start d)"
| stop: "dog_step d (dog_Stop d)"
| parent: "dog_step d (cancel_run g d)"
| leave: "g < length (runs d) \<Longrightarrow> runs d ! g = Cancelled \<Longrightarrow> round d = D_Idle \<or> in_round d \<noteq> g \<Longrightarrow> dog_step d (d\<lparr>runs := (runs d)[g := Ended]\<rparr>)"
| tick: "g < length (runs d) \<Longrightarrow> runs d ! g \<noteq> Ended \<Longrightarrow> round d = D_Idle \<Longrightarrow> set ls = set (locks (manager d)) \<Longrightarrow>
    dog_step d (d\<lparr>round := D_Visit ls, in_round := g\<rparr>)"
| visit: "round d = D_Visit ((key, i) # rest) \<Longrightarrow> dog_step d (check_lock key i rest d)"
| drop: "round d = D_Release key rest \<Longrightarrow> dog_step d (drop_lock outcome key rest d)"
| finish: "round d = D_Visit [] \<Longrightarrow> dog_step d (d\<lparr>round := D_Idle\<rparr>)"

inductive dog_reach :: "WatchdogConfig \<Rightarrow> dog \<Rightarrow> bool" for c where
  init: "dog_reach c (NewLockWatchdog c)"
| step: "dog_reach c d \<Longrightarrow> dog_step d d' \<Longrightarrow> dog_reach c d'"

section \<open>What the watchdog drops\<close>

definition locks_ok :: "LockManager \<Rightarrow> bool" where
  "locks_ok m \<longleftrightarrow> (\<forall>e\<in>set (locks m). snd e < length (objects m))"

definition dog_inv :: "WatchdogConfig \<Rightarrow> dog \<Rightarrow> bool" where
  "dog_inv c d \<longleftrightarrow> dog_config d = normal_config c \<and> locks_ok (manager d) \<and>
     (\<forall>key. failure_count key d = int (length (takeWhile Not (seen d key)))) \<and>
     (\<forall>key rest. round d = D_Release key rest \<longrightarrow> MaxFailures (normal_config c) \<le> failure_count key d) \<and>
     (round d \<noteq> D_Idle \<longrightarrow> in_round d < length (runs d) \<and> runs d ! in_round d \<noteq> Ended)"

lemma delete_subset: "set (AList.delete k xs) \<subseteq> set xs"
  by (auto simp: AList.delete_eq)

lemma locks_ok_release: "locks_ok m \<Longrightarrow> locks_ok (snd (ReleaseLock outcome key m))"
  using delete_subset [of key "locks m"] by (auto simp: locks_ok_def ReleaseLock_def unlock_def split: option.splits)

lemma locks_ok_release_loop: "locks_ok m \<Longrightarrow> locks_ok (snd (release_all_loop out ls m))"
proof (induction out ls m rule: release_all_loop.induct)
  case (2 out key i ls m)
  have "locks_ok ((unlock i m)\<lparr>locks := AList.delete key (locks m)\<rparr>)"
    using "2.prems" delete_subset [of key "locks m"] by (auto simp: locks_ok_def unlock_def)
  then show ?case using "2.IH" "2.prems" by (simp split: option.split)
qed simp

lemma update_subset: "set (AList.update k v xs) \<subseteq> insert (k, v) (set xs)"
  by (induction xs) auto

lemma locks_ok_get:
  assumes "locks_ok m"
  shows "locks_ok (snd (GetLock key m))"
proof (cases "map_of (locks m) key")
  case None
  have "snd e < Suc (length (objects m))" if "e \<in> set (AList.update key (length (objects m)) (locks m))" for e
    using subsetD [OF update_subset that] assms by (auto simp: locks_ok_def less_SucI)
  then show ?thesis using None by (simp add: GetLock_def locks_ok_def Let_def)
qed (use assms in \<open>simp add: GetLock_def\<close>)

lemmas locks_ok_ops = locks_ok_get locks_ok_release locks_ok_release_loop

lemma cancel_run_sel [simp]:
  "manager (cancel_run g d) = manager d" "dog_config (cancel_run g d) = dog_config d" "failures (cancel_run g d) = failures d" "round (cancel_run g d) = round d"
  "seen (cancel_run g d) = seen d" "in_round (cancel_run g d) = in_round d" "length (runs (cancel_run g d)) = length (runs d)"
  by (simp_all add: cancel_run_def)

lemma cancel_run_ended: "runs (cancel_run g d) ! j = Ended \<longleftrightarrow> runs d ! j = Ended"
  by (cases "j = g") (simp_all add: cancel_run_def)

lemma failure_count_cong: "failures d' = failures d \<Longrightarrow> failure_count key d' = failure_count key d"
  by (simp add: failure_count_def)

text \<open>Steps that keep the failures, the round and what was seen.\<close>

lemma dog_inv_frame:
  assumes "dog_inv c d" "dog_config d' = dog_config d" "failures d' = failures d" "round d' = round d" "seen d' = seen d" "locks_ok (manager d')"
    "round d \<noteq> D_Idle \<Longrightarrow> in_round d < length (runs d) \<Longrightarrow> runs d ! in_round d \<noteq> Ended \<Longrightarrow> in_round d' < length (runs d') \<and> runs d' ! in_round d' \<noteq> Ended"
  shows "dog_inv c d'"
proof -
  have e: "failure_count key d' = failure_count key d" for key by (rule failure_count_cong [OF assms(3)])
  show ?thesis using assms(1,6,7) unfolding dog_inv_def assms(2,4,5) e by blast
qed

lemma dog_inv_visit:
  assumes "dog_inv c d" "round d = D_Visit ((key, i) # rest)"
  shows "dog_inv c (check_lock key i rest d)"
proof -
  have "failure_count k d = int (length (takeWhile Not (seen d k)))" for k using assms(1) by (simp add: dog_inv_def)
  then show ?thesis using assms by (auto simp: dog_inv_def check_lock_def Let_def failure_count_def)
qed

lemma dog_inv_locks: "dog_inv c d \<Longrightarrow> locks_ok (manager d)"
  by (simp add: dog_inv_def)

lemma dog_inv_stop: "dog_inv c d \<Longrightarrow> dog_inv c (dog_Stop d)"
  by (frule dog_inv_locks, erule dog_inv_frame) (auto simp: dog_inv_def dog_Stop_def cancel_run_ended split: option.split)

lemma dog_inv_start: "dog_inv c d \<Longrightarrow> dog_inv c (dog_Start d)"
  by (frule dog_inv_locks, erule dog_inv_frame) (auto simp: dog_inv_def dog_Start_def nth_append)

lemma dog_inv_step:
  assumes i: "dog_inv c d" and "dog_step d d'"
  shows "dog_inv c d'"
proof -
  have m: "locks_ok (manager d)" by (rule dog_inv_locks [OF i])
  from assms(2) show ?thesis
  proof cases
    case (visit key i rest)
    then show ?thesis using dog_inv_visit [OF assms(1)] by simp
  next
    case (drop key rest outcome)
    then show ?thesis using i locks_ok_release [OF m] by (auto simp: dog_inv_def drop_lock_def failure_count_def)
  next
    case (change i b)
    then show ?thesis using m by (auto intro!: dog_inv_frame [OF assms(1)] simp: locks_ok_def)
  next
    case (parent g)
    then show ?thesis using m by (auto intro!: dog_inv_frame [OF i] simp: cancel_run_ended)
  next
    case (leave g)
    then show ?thesis using m by (auto intro!: dog_inv_frame [OF i] simp: nth_list_update)
  next
    case (tick g ls)
    then show ?thesis using i by (simp add: dog_inv_def failure_count_def)
  next
    case finish
    then show ?thesis using i by (simp add: dog_inv_def failure_count_def)
  next
    case (release_all out)
    then show ?thesis using locks_ok_release_loop [OF m] by (auto intro!: dog_inv_frame [OF i] simp: ReleaseAll_def)
  qed (use locks_ok_ops [OF m] in \<open>auto intro: dog_inv_stop [OF i] dog_inv_start [OF i] dog_inv_frame [OF i]\<close>)
qed

lemma dog_inv_reach: "dog_reach c d \<Longrightarrow> dog_inv c d"
proof (induction rule: dog_reach.induct)
  case init
  show ?case by (simp add: dog_inv_def NewLockWatchdog_def NewLockManager_def locks_ok_def failure_count_def)
qed (rule dog_inv_step)

text \<open>
  Property C38. The watchdog is about to drop the lock of a key only in a round of a goroutine that \<^verbatim>\<open>Start\<close> began, and only
  after it saw that key's lock not held in at least \<^verbatim>\<open>MaxFailures\<close> consecutive visits (three if the configuration gives no
  positive number); seeing it held once starts the count again. The drop itself does not look again: when the call to etcd
  succeeds it unlocks whatever lock the key then has and removes it from the table, also a lock that its user has acquired
  since the last visit.
\<close>

theorem watchdog_drops_after_failures:
  assumes "dog_reach c d" "round d = D_Release key rest"
  shows "(\<exists>n. MaxFailures (normal_config c) \<le> int n \<and> 0 < n \<and> n \<le> length (seen d key) \<and> (\<forall>locked\<in>set (take n (seen d key)). \<not> locked)) \<and>
    in_round d < length (runs d) \<and> runs d ! in_round d \<noteq> Ended \<and>
    (\<forall>i. map_of (locks (manager d)) key = Some i \<longrightarrow>
       \<not> held (objects (manager (drop_lock None key rest d)) ! i) \<and> map_of (locks (manager (drop_lock None key rest d))) key = None)"
proof (intro conjI allI impI)
  note inv = dog_inv_reach [OF assms(1)]
  let ?n = "length (takeWhile Not (seen d key))"
  have "MaxFailures (normal_config c) \<le> int ?n" using inv assms(2) unfolding dog_inv_def by metis
  moreover have "0 < MaxFailures (normal_config c)" by (simp add: normal_config_def DefaultWatchdogConfig_def Let_def)
  moreover have "take ?n (seen d key) = takeWhile Not (seen d key)" by (simp add: takeWhile_eq_take [symmetric])
  moreover have "?n \<le> length (seen d key)" by (rule length_takeWhile_le)
  ultimately show "\<exists>n. MaxFailures (normal_config c) \<le> int n \<and> 0 < n \<and> n \<le> length (seen d key) \<and> (\<forall>locked\<in>set (take n (seen d key)). \<not> locked)"
    by (intro exI [of _ ?n]) (auto dest: set_takeWhileD)
  show "in_round d < length (runs d)" "runs d ! in_round d \<noteq> Ended" using inv assms(2) by (simp_all add: dog_inv_def)
  show "\<not> held (objects (manager (drop_lock None key rest d)) ! i)" "map_of (locks (manager (drop_lock None key rest d))) key = None"
    if "map_of (locks (manager d)) key = Some i" for i
  proof -
    have "i < length (objects (manager d))" using inv map_of_SomeD [OF that] by (auto simp: dog_inv_def locks_ok_def)
    then show "\<not> held (objects (manager (drop_lock None key rest d)) ! i)" using that by (simp add: drop_lock_def ReleaseLock_def unlock_def)
    show "map_of (locks (manager (drop_lock None key rest d))) key = None" using that by (simp add: drop_lock_def ReleaseLock_def AList.delete_conv')
  qed
qed

text \<open>Concrete runs.\<close>

datatype dog_action = GStart | GGet string | GChange nat bool | GTick nat | GVisit | GDrop | GFinish

fun replay_dog :: "dog_action list \<Rightarrow> dog \<Rightarrow> dog option" where
  "replay_dog [] d = Some d"
| "replay_dog (GStart # as) d = replay_dog as (dog_Start d)"
| "replay_dog (GGet key # as) d = replay_dog as (d\<lparr>manager := snd (GetLock key (manager d))\<rparr>)"
| "replay_dog (GChange i b # as) d =
     (if i < length (objects (manager d))
      then replay_dog as (d\<lparr>manager := (manager d)\<lparr>objects := (objects (manager d))[i := (objects (manager d) ! i)\<lparr>held := b\<rparr>]\<rparr>\<rparr>) else None)"
| "replay_dog (GTick g # as) d =
     (if g < length (runs d) \<and> runs d ! g \<noteq> Ended \<and> round d = D_Idle then replay_dog as (d\<lparr>round := D_Visit (locks (manager d)), in_round := g\<rparr>) else None)"
| "replay_dog (GVisit # as) d = (case round d of D_Visit ((key, i) # rest) \<Rightarrow> replay_dog as (check_lock key i rest d) | _ \<Rightarrow> None)"
| "replay_dog (GDrop # as) d = (case round d of D_Release key rest \<Rightarrow> replay_dog as (drop_lock None key rest d) | _ \<Rightarrow> None)"
| "replay_dog (GFinish # as) d = (if round d = D_Visit [] then replay_dog as (d\<lparr>round := D_Idle\<rparr>) else None)"

lemma replay_dog_reach: "replay_dog as d = Some d' \<Longrightarrow> dog_reach c d \<Longrightarrow> dog_reach c d'"
proof (induction as d rule: replay_dog.induct)
  case (6 as d)
  then obtain key i rest where r: "round d = D_Visit ((key, i) # rest)" by (auto split: round_pc.splits list.splits)
  have "dog_reach c (check_lock key i rest d)" using "6.prems"(2) dog_step.visit [OF r] by (rule dog_reach.step)
  then show ?case using "6.IH" [OF r refl refl] "6.prems"(1) r by simp
next
  case (7 as d)
  then show ?case by (auto split: round_pc.splits intro: dog_reach.step dog_step.drop)
qed (auto split: if_splits intro: dog_reach.step dog_step.start dog_step.get dog_step.change dog_step.tick dog_step.finish)

text \<open>Three rounds see the lock not held; its user acquires it before the watchdog drops it.\<close>

definition late_acquire :: "dog_action list" where
  "late_acquire = [GGet ''k'', GStart, GTick 0, GVisit, GFinish, GTick 0, GVisit, GFinish, GTick 0, GVisit, GChange 0 True]"

theorem watchdog_drops_after_failures_witness:
  "case replay_dog late_acquire (NewLockWatchdog DefaultWatchdogConfig) of
     None \<Rightarrow> False
   | Some d \<Rightarrow> dog_IsRunning d \<and> round d = D_Release ''k'' [] \<and> (\<exists>n. 3 \<le> int n \<and> (\<forall>locked\<in>set (take n (seen d ''k'')). \<not> locked)) \<and>
       held (objects (manager d) ! 0) \<and> \<not> held (objects (manager (drop_lock None ''k'' [] d)) ! 0)"
proof -
  have "case replay_dog late_acquire (NewLockWatchdog DefaultWatchdogConfig) of
      None \<Rightarrow> False
    | Some d \<Rightarrow> dog_IsRunning d \<and> round d = D_Release ''k'' [] \<and> held (objects (manager d) ! 0) \<and> map_of (locks (manager d)) ''k'' = Some 0"
    by code_simp
  then obtain d where d: "replay_dog late_acquire (NewLockWatchdog DefaultWatchdogConfig) = Some d" "dog_IsRunning d" "round d = D_Release ''k'' []"
      "held (objects (manager d) ! 0)" "map_of (locks (manager d)) ''k'' = Some 0"
    by (auto split: option.splits)
  have "MaxFailures (normal_config DefaultWatchdogConfig) = 3" by code_simp
  with watchdog_drops_after_failures [OF replay_dog_reach [OF d(1) dog_reach.init] d(3)] d show ?thesis by auto
qed

end
