(* ===== verification/Script.thy ===== *)
theory Script
  imports Float64 "HOL-Library.Char_ord" "HOL-Library.List_Lexorder"
begin

text \<open>
  \<^verbatim>\<open>zScript\<close>: expressions of behaviour graphs (\<^verbatim>\<open>ast.go\<close>), the functions they call (\<^verbatim>\<open>ScriptFunc.go\<close>), graphs
  (\<^verbatim>\<open>script.go\<close>) and their execution (\<^verbatim>\<open>ScriptHolder.go\<close>).

  The syntax tree is the one of \<^verbatim>\<open>go/ast\<close>, as far as the evaluator looks into it; the parser, \<^verbatim>\<open>strconv.ParseFloat\<close> and
  the decoding of a file are arguments. A script function gets the holder and may change it, its current node and its
  script included; \<open>None\<close> is a panic, of a function or of the evaluator.
\<close>

section \<open>Syntax and values\<close>

datatype token =
    ADD | SUB | MUL | QUO | REM | AND_tok | OR_tok | XOR_tok | SHL | SHR | AND_NOT | LAND | LOR | EQL | LSS | GTR | NOT_tok | NEQ | LEQ | GEQ
  | OtherToken

datatype lit_kind = K_STRING | K_INT | K_FLOAT | K_CHAR | K_IMAG

datatype expr =
    Ident string
  | BasicLit lit_kind string
  | CompositeLit
  | ParenExpr expr
  | CallExpr expr "expr list"
  | UnaryExpr token expr
  | BinaryExpr expr token expr
  | OtherExpr

text \<open>The dynamic types the evaluator distinguishes; \<open>VOther\<close> is a value of any other type.\<close>

datatype val = VNil | VBool bool | VStr string | VInt "64 word" | VFloat float64 | VByte byte | VOther nat

section \<open>Binary operators\<close>

text \<open>\<^verbatim>\<open>nil\<close> for an unsupported combination; the outer \<open>None\<close> is a panic of the language.\<close>

definition string_op :: "token \<Rightarrow> string \<Rightarrow> string \<Rightarrow> val" where
  "string_op op x y =
     (case op of
        ADD \<Rightarrow> VStr (x @ y) | EQL \<Rightarrow> VBool (x = y) | LSS \<Rightarrow> VBool (x < y) | LEQ \<Rightarrow> VBool (x \<le> y)
      | GTR \<Rightarrow> VBool (x > y) | GEQ \<Rightarrow> VBool (x \<ge> y) | NEQ \<Rightarrow> VBool (x \<noteq> y) | _ \<Rightarrow> VNil)"

definition bool_op :: "token \<Rightarrow> bool \<Rightarrow> bool \<Rightarrow> val" where
  "bool_op op x y =
     (case op of LAND \<Rightarrow> VBool (x \<and> y) | LOR \<Rightarrow> VBool (x \<or> y) | EQL \<Rightarrow> VBool (x = y) | NEQ \<Rightarrow> VBool (x \<noteq> y) | _ \<Rightarrow> VNil)"

definition int_shl :: "64 word \<Rightarrow> 64 word \<Rightarrow> val option" where
  "int_shl x y = (if sint y < 0 then None else Some (VInt (if sint y \<ge> 64 then 0 else push_bit (nat (sint y)) x)))"

definition int_shr :: "64 word \<Rightarrow> 64 word \<Rightarrow> val option" where
  "int_shr x y = (if sint y < 0 then None else Some (VInt (word_of_int (sint x div 2 ^ nat (min 64 (sint y))))))"

definition int_rem :: "64 word \<Rightarrow> 64 word \<Rightarrow> val option" where
  "int_rem x y = (if y = 0 then None else Some (VInt (word_of_int (sint x - sint y * quot (sint x) (sint y)))))"

definition int_quo :: "64 word \<Rightarrow> 64 word \<Rightarrow> val" where
  "int_quo x y = (if y = 0 then VNil else VInt (word_of_int (quot (sint x) (sint y))))"

text \<open>Both operands \<^verbatim>\<open>int\<close>; a \<^verbatim>\<open>uint8\<close> on the right is converted.\<close>

definition int_op :: "token \<Rightarrow> 64 word \<Rightarrow> 64 word \<Rightarrow> val option" where
  "int_op op x y =
     (case op of
        ADD \<Rightarrow> Some (VInt (x + y)) | SUB \<Rightarrow> Some (VInt (x - y)) | MUL \<Rightarrow> Some (VInt (x * y)) | QUO \<Rightarrow> Some (int_quo x y)
      | REM \<Rightarrow> int_rem x y | AND_tok \<Rightarrow> Some (VInt (x AND y)) | OR_tok \<Rightarrow> Some (VInt (x OR y)) | XOR_tok \<Rightarrow> Some (VInt (x XOR y))
      | SHL \<Rightarrow> int_shl x y | SHR \<Rightarrow> int_shr x y | AND_NOT \<Rightarrow> Some (VInt (x AND NOT y))
      | EQL \<Rightarrow> Some (VBool (x = y)) | LSS \<Rightarrow> Some (VBool (sint x < sint y)) | GTR \<Rightarrow> Some (VBool (sint x > sint y))
      | NEQ \<Rightarrow> Some (VBool (x \<noteq> y)) | LEQ \<Rightarrow> Some (VBool (sint x \<le> sint y)) | GEQ \<Rightarrow> Some (VBool (sint x \<ge> sint y))
      | _ \<Rightarrow> Some VNil)"

definition float_quo :: "float64 \<Rightarrow> float64 \<Rightarrow> val" where
  "float_quo x y = (if feq y (Fin 0) then VNil else VFloat (fdiv x y))"

text \<open>An \<^verbatim>\<open>int\<close> and a \<^verbatim>\<open>float64\<close>: the remainder and the bit operators have no case.\<close>

definition int_float_op :: "token \<Rightarrow> float64 \<Rightarrow> float64 \<Rightarrow> val" where
  "int_float_op op x y =
     (case op of
        ADD \<Rightarrow> VFloat (fadd x y) | SUB \<Rightarrow> VFloat (fsub x y) | MUL \<Rightarrow> VFloat (fmul x y) | QUO \<Rightarrow> float_quo x y
      | EQL \<Rightarrow> VBool (feq x y) | LSS \<Rightarrow> VBool (flt x y) | GTR \<Rightarrow> VBool (flt y x) | NEQ \<Rightarrow> VBool (\<not> feq x y)
      | LEQ \<Rightarrow> VBool (fle x y) | GEQ \<Rightarrow> VBool (fle y x) | _ \<Rightarrow> VNil)"

text \<open>A \<^verbatim>\<open>float64\<close> on the left: \<^verbatim>\<open>LEQ\<close> and \<^verbatim>\<open>GEQ\<close> have no case, and \<^verbatim>\<open>NEQ\<close> has none for a \<^verbatim>\<open>uint8\<close>.\<close>

definition float_op :: "token \<Rightarrow> bool \<Rightarrow> float64 \<Rightarrow> float64 \<Rightarrow> val" where
  "float_op op y_byte x y =
     (case op of
        ADD \<Rightarrow> VFloat (fadd x y) | SUB \<Rightarrow> VFloat (fsub x y) | MUL \<Rightarrow> VFloat (fmul x y) | QUO \<Rightarrow> float_quo x y
      | EQL \<Rightarrow> VBool (feq x y) | LSS \<Rightarrow> VBool (flt x y) | GTR \<Rightarrow> VBool (flt y x)
      | NEQ \<Rightarrow> if y_byte then VNil else VBool (\<not> feq x y) | _ \<Rightarrow> VNil)"

definition to_float :: "64 word \<Rightarrow> float64" where
  "to_float x = fround (of_int (sint x))"

definition byte_to_int :: "byte \<Rightarrow> 64 word" where
  "byte_to_int b = ucast b"

fun binaryExprEval :: "val \<Rightarrow> val \<Rightarrow> token \<Rightarrow> val option" where
  "binaryExprEval (VBool x) y op = Some (case y of VBool y \<Rightarrow> bool_op op x y | _ \<Rightarrow> VNil)"
| "binaryExprEval (VStr x) y op = Some (case y of VStr y \<Rightarrow> string_op op x y | _ \<Rightarrow> VNil)"
| "binaryExprEval (VInt x) y op =
     (case y of
        VInt y \<Rightarrow> int_op op x y
      | VByte y \<Rightarrow> int_op op x (byte_to_int y)
      | VFloat y \<Rightarrow> Some (int_float_op op (to_float x) y)
      | _ \<Rightarrow> Some VNil)"
| "binaryExprEval (VFloat x) y op =
     Some (case y of
        VInt y \<Rightarrow> float_op op False x (to_float y)
      | VByte y \<Rightarrow> float_op op True x (to_float (byte_to_int y))
      | VFloat y \<Rightarrow> float_op op False x y
      | _ \<Rightarrow> VNil)"
| "binaryExprEval _ y op = Some VNil"

section \<open>Graphs and holders\<close>

record Edge =
  e_Id :: string
  e_Content :: string
  e_Stmt :: "expr option"
  Target :: string
  Source :: string

record Node =
  n_Id :: string
  n_Content :: string
  n_Stmt :: "expr option"
  n_Edges :: "Edge list"

record ScriptData =
  Nodes :: "Node list"
  Edges :: "Edge list"

definition GetEntry :: "ScriptData \<Rightarrow> Node option" where
  "GetEntry sd = find (\<lambda>n. n_Content n = ''Entry'') (Nodes sd)"

record 'w ScriptHolder =
  script :: "ScriptData option"
  currScriptNodeId :: string
  holder_context :: 'w

type_synonym 'w ScriptFunc = "'w ScriptHolder \<Rightarrow> val list \<Rightarrow> (val \<times> 'w ScriptHolder) option"
type_synonym 'w funcs = "string \<rightharpoonup> 'w ScriptFunc"

text \<open>The name of a function is the part after the last slash and the last dot; a second registration panics.\<close>

definition func_name :: "string \<Rightarrow> string" where
  "func_name s = rev (takeWhile (\<lambda>c. c \<noteq> CHR ''.'' \<and> c \<noteq> CHR ''/'') (rev s))"

definition RegisterScriptFunc :: "string \<Rightarrow> 'w ScriptFunc \<Rightarrow> 'w funcs \<Rightarrow> 'w funcs option" where
  "RegisterScriptFunc full f F = (if F (func_name full) \<noteq> None then None else Some (F(func_name full \<mapsto> f)))"

definition GetScriptFunc :: "string \<Rightarrow> 'w funcs \<Rightarrow> 'w ScriptFunc option" where
  "GetScriptFunc name F = F name"

section \<open>Evaluation\<close>

text \<open>\<^verbatim>\<open>strconv.Atoi\<close> on a literal, which has no sign.\<close>

definition is_digit :: "char \<Rightarrow> bool" where
  "is_digit c \<longleftrightarrow> (of_char c :: nat) \<in> {48..57}"

fun atoi_digits :: "nat \<Rightarrow> string \<Rightarrow> nat" where
  "atoi_digits n [] = n"
| "atoi_digits n (c # cs) = atoi_digits (10 * n + (of_char c - 48)) cs"

definition Atoi :: "string \<Rightarrow> 64 word option" where
  "Atoi s = (if s \<noteq> [] \<and> list_all is_digit s \<and> atoi_digits 0 s < 2 ^ 63 then Some (of_nat (atoi_digits 0 s)) else None)"

definition literal :: "(string \<Rightarrow> float64 option) \<Rightarrow> lit_kind \<Rightarrow> string \<Rightarrow> val" where
  "literal pf k s =
     (case k of
        K_STRING \<Rightarrow> VStr s
      | K_INT \<Rightarrow> (case Atoi s of None \<Rightarrow> VInt 0 | Some v \<Rightarrow> VInt v)
      | K_FLOAT \<Rightarrow> (case pf s of None \<Rightarrow> VFloat (Fin 0) | Some v \<Rightarrow> VFloat v)
      | K_CHAR \<Rightarrow> (case s of [] \<Rightarrow> VInt 0 | c # _ \<Rightarrow> VByte (of_char c))
      | K_IMAG \<Rightarrow> VNil)"

definition functionCall :: "'w funcs \<Rightarrow> string \<Rightarrow> val list \<Rightarrow> 'w ScriptHolder \<Rightarrow> (val \<times> 'w ScriptHolder) option" where
  "functionCall F name args h = (case GetScriptFunc name F of None \<Rightarrow> Some (VBool False, h) | Some f \<Rightarrow> f h args)"

fun expressionEval :: "(string \<Rightarrow> float64 option) \<Rightarrow> 'w funcs \<Rightarrow> expr \<Rightarrow> 'w ScriptHolder \<Rightarrow> (val \<times> 'w ScriptHolder) option"
  and eval_args :: "(string \<Rightarrow> float64 option) \<Rightarrow> 'w funcs \<Rightarrow> expr list \<Rightarrow> 'w ScriptHolder \<Rightarrow> (val list \<times> 'w ScriptHolder) option" where
  "expressionEval pf F (Ident name) h = Some (VBool (name = ''true''), h)"
| "expressionEval pf F (BasicLit k s) h = Some (literal pf k s, h)"
| "expressionEval pf F CompositeLit h = Some (VNil, h)"
| "expressionEval pf F (ParenExpr e) h = expressionEval pf F e h"
| "expressionEval pf F (CallExpr f args) h =
     (case f of
        Ident name \<Rightarrow> (case eval_args pf F args h of None \<Rightarrow> None | Some (vs, h) \<Rightarrow> functionCall F name vs h)
      | _ \<Rightarrow> Some (VNil, h))"
| "expressionEval pf F (UnaryExpr op e) h =
     (if op = NOT_tok
      then (case expressionEval pf F e h of None \<Rightarrow> None | Some (v, h) \<Rightarrow> Some (case v of VBool b \<Rightarrow> VBool (\<not> b) | _ \<Rightarrow> VNil, h))
      else Some (VNil, h))"
| "expressionEval pf F (BinaryExpr x op y) h =
     (case expressionEval pf F x h of
        None \<Rightarrow> None
      | Some (vx, h) \<Rightarrow>
          if op = LAND \<or> op = LOR
          then (case vx of
                  VBool b \<Rightarrow>
                    if op = LAND \<and> \<not> b then Some (VBool False, h)
                    else if op = LOR \<and> b then Some (VBool True, h)
                    else (case expressionEval pf F y h of
                            None \<Rightarrow> None
                          | Some (vy, h) \<Rightarrow> Some (case vy of VBool c \<Rightarrow> VBool c | _ \<Rightarrow> VNil, h))
                | _ \<Rightarrow> Some (VNil, h))
          else (case expressionEval pf F y h of
                  None \<Rightarrow> None
                | Some (vy, h) \<Rightarrow> (case binaryExprEval vx vy op of None \<Rightarrow> None | Some v \<Rightarrow> Some (v, h))))"
| "expressionEval pf F OtherExpr h = Some (VNil, h)"
| "eval_args pf F [] h = Some ([], h)"
| "eval_args pf F (e # es) h =
     (case expressionEval pf F e h of
        None \<Rightarrow> None
      | Some (v, h) \<Rightarrow> (case eval_args pf F es h of None \<Rightarrow> None | Some (vs, h) \<Rightarrow> Some (v # vs, h)))"

section \<open>Running a script\<close>

datatype script_error = AlreadyLoaded string | FileError string | ScriptNotFound string | NoEntry string

type_synonym scripts = "string \<rightharpoonup> ScriptData"

text \<open>\<open>read\<close> opens and decodes a file; \<open>parse\<close> is \<^verbatim>\<open>astParser\<close>, whose work is done by the parser of the language.\<close>

definition LoadScriptFile ::
    "(string \<Rightarrow> ScriptData option) \<Rightarrow> (string \<Rightarrow> expr option) \<Rightarrow> string \<Rightarrow> scripts \<Rightarrow> script_error option \<times> scripts" where
  "LoadScriptFile read parse file S =
     (if S file \<noteq> None then (Some (AlreadyLoaded file), S)
      else case read file of
             None \<Rightarrow> (Some (FileError file), S)
           | Some sd \<Rightarrow>
               (None, S(file \<mapsto> sd\<lparr>Nodes := map (\<lambda>n. n\<lparr>n_Stmt := parse (n_Content n)\<rparr>) (Nodes sd),
                                    Edges := map (\<lambda>e. e\<lparr>e_Stmt := parse (e_Content e)\<rparr>) (Edges sd)\<rparr>)))"

definition GetScriptData :: "string \<Rightarrow> scripts \<Rightarrow> script_error + ScriptData" where
  "GetScriptData file S = (case S file of None \<Rightarrow> Inl (ScriptNotFound file) | Some sd \<Rightarrow> Inr sd)"

definition getNodeById :: "string \<Rightarrow> ScriptData \<Rightarrow> Node option" where
  "getNodeById i sd = find (\<lambda>n. n_Id n = i) (Nodes sd)"

definition getEdgesFromNode :: "string \<Rightarrow> ScriptData \<Rightarrow> Edge list" where
  "getEdgesFromNode i sd = filter (\<lambda>e. Source e = i) (Edges sd)"

text \<open>A nil script or a script without entry is a panic.\<close>

definition ResetScript :: "'w ScriptHolder \<Rightarrow> 'w ScriptHolder option" where
  "ResetScript h = (case script h of None \<Rightarrow> None | Some sd \<Rightarrow> map_option (\<lambda>n. h\<lparr>currScriptNodeId := n_Id n\<rparr>) (GetEntry sd))"

definition BindScript ::
    "(string \<Rightarrow> ScriptData option) \<Rightarrow> (string \<Rightarrow> expr option) \<Rightarrow> string \<Rightarrow> scripts \<times> 'w ScriptHolder \<Rightarrow> script_error option \<times> scripts \<times> 'w ScriptHolder" where
  "BindScript read parse file = (\<lambda>(S, h).
     (case (if S file \<noteq> None then (None, S) else LoadScriptFile read parse file S) of
        (Some e, S) \<Rightarrow> (Some e, S, h\<lparr>script := None\<rparr>)
      | (None, S) \<Rightarrow>
          (let h = h\<lparr>script := S file\<rparr>
           in case ResetScript h of None \<Rightarrow> (Some (NoEntry file), S, h) | Some h \<Rightarrow> (None, S, h))))"

text \<open>The loop of \<^verbatim>\<open>Update\<close> over the edges: the first that is open decides.\<close>

fun take_edge :: "(string \<Rightarrow> float64 option) \<Rightarrow> 'w funcs \<Rightarrow> Edge list \<Rightarrow> string \<Rightarrow> 'w ScriptHolder \<Rightarrow> (string \<times> 'w ScriptHolder) option" where
  "take_edge pf F [] new h = Some (new, h)"
| "take_edge pf F (e # es) new h =
     (case e_Stmt e of
        None \<Rightarrow> Some (Target e, h)
      | Some x \<Rightarrow>
          (case expressionEval pf F x h of
             None \<Rightarrow> None
           | Some (v, h) \<Rightarrow> if v = VBool True then Some (Target e, h) else take_edge pf F es new h))"

text \<open>The second locked part: move, and run the action of the new node.\<close>

definition enter_node :: "(string \<Rightarrow> float64 option) \<Rightarrow> 'w funcs \<Rightarrow> string \<Rightarrow> 'w ScriptHolder \<Rightarrow> 'w ScriptHolder option" where
  "enter_node pf F new h =
     (if new = currScriptNodeId h then Some h
      else case script h of
             None \<Rightarrow> None
           | Some sd \<Rightarrow>
               (case getNodeById new sd of
                  None \<Rightarrow> Some h
                | Some n \<Rightarrow>
                    (let h = h\<lparr>currScriptNodeId := new\<rparr>
                     in case n_Stmt n of
                          Some x \<Rightarrow> if n_Content n \<noteq> ''Exit'' then map_option snd (expressionEval pf F x h) else Some h
                        | None \<Rightarrow> Some h)))"

definition Update :: "(string \<Rightarrow> float64 option) \<Rightarrow> 'w funcs \<Rightarrow> 'w ScriptHolder \<Rightarrow> 'w ScriptHolder option" where
  "Update pf F h =
     (case script h of
        None \<Rightarrow> None
      | Some sd \<Rightarrow>
          (case (if currScriptNodeId h = [] then ResetScript h else Some h) of
             None \<Rightarrow> None
           | Some h \<Rightarrow>
               (case getNodeById (currScriptNodeId h) sd of
                  None \<Rightarrow> Some h
                | Some n \<Rightarrow>
                    if n_Content n = ''Exit'' then Some h
                    else (case take_edge pf F (getEdgesFromNode (currScriptNodeId h) sd) (currScriptNodeId h) h of
                            None \<Rightarrow> None
                          | Some (new, h) \<Rightarrow> enter_node pf F new h))))"

definition GetCurrentNodeId :: "'w ScriptHolder \<Rightarrow> string" where "GetCurrentNodeId h = currScriptNodeId h"
definition GetContext :: "'w ScriptHolder \<Rightarrow> 'w" where "GetContext h = holder_context h"
definition SetContext :: "'w \<Rightarrow> 'w ScriptHolder \<Rightarrow> 'w ScriptHolder" where "SetContext c h = h\<lparr>holder_context := c\<rparr>"

section \<open>Operators: types and panics\<close>

definition comparisons :: "token set" where
  "comparisons = {EQL, NEQ, LSS, LEQ, GTR, GEQ, LAND, LOR}"

fun numeric :: "val \<Rightarrow> bool" where
  "numeric (VInt x) = True"
| "numeric (VFloat x) = True"
| "numeric (VByte x) = True"
| "numeric v = False"

fun is_float :: "val \<Rightarrow> bool" where
  "is_float (VFloat x) = True"
| "is_float v = False"

text \<open>The type an operator gives.\<close>

definition result_ok :: "val \<Rightarrow> val \<Rightarrow> token \<Rightarrow> val \<Rightarrow> bool" where
  "result_ok x y op v \<longleftrightarrow>
     (case v of
        VNil \<Rightarrow> True
      | VBool b \<Rightarrow> op \<in> comparisons
      | VStr s \<Rightarrow> op = ADD \<and> (\<exists>a b. x = VStr a \<and> y = VStr b)
      | VInt i \<Rightarrow> op \<notin> comparisons \<and> numeric x \<and> numeric y \<and> \<not> is_float x \<and> \<not> is_float y
      | VFloat f \<Rightarrow> op \<in> {ADD, SUB, MUL, QUO} \<and> numeric x \<and> numeric y \<and> (is_float x \<or> is_float y)
      | _ \<Rightarrow> False)"

lemma byte_to_int_simps [simp]: "byte_to_int b = 0 \<longleftrightarrow> b = 0" "\<not> sint (byte_to_int b) < 0"
proof -
  have u: "uint (byte_to_int b) = uint b" by (simp add: byte_to_int_def uint_up_ucast is_up)
  show "byte_to_int b = 0 \<longleftrightarrow> b = 0" using u by (metis uint_0_iff)
  have "uint (byte_to_int b) < 2 ^ 63" unfolding u using uint_lt2p [of b] by simp
  then have "sint (byte_to_int b) = uint (byte_to_int b)"
    unfolding sint_uint by (intro signed_take_bit_int_eq_self order.trans [OF _ uint_ge_0]) simp_all
  then show "\<not> sint (byte_to_int b) < 0" by simp
qed

lemma int_op_result: "int_op op x y = Some v \<Longrightarrow> (case v of VNil \<Rightarrow> True | VBool b \<Rightarrow> op \<in> comparisons | VInt i \<Rightarrow> op \<notin> comparisons | _ \<Rightarrow> False)"
  by (cases op) (auto simp: int_op_def int_quo_def int_rem_def int_shl_def int_shr_def comparisons_def split: if_splits)

lemma float_op_result:
  "case int_float_op op x y of VNil \<Rightarrow> True | VBool b \<Rightarrow> op \<in> comparisons | VFloat f \<Rightarrow> op \<in> {ADD, SUB, MUL, QUO} | _ \<Rightarrow> False"
  "case float_op op c x y of VNil \<Rightarrow> True | VBool b \<Rightarrow> op \<in> comparisons | VFloat f \<Rightarrow> op \<in> {ADD, SUB, MUL, QUO} | _ \<Rightarrow> False"
  by (cases op; simp add: int_float_op_def float_op_def float_quo_def comparisons_def)+

lemma int_op_panics: "int_op op x y = None \<longleftrightarrow> op = REM \<and> y = 0 \<or> (op = SHL \<or> op = SHR) \<and> sint y < 0"
  by (cases op) (simp_all add: int_op_def int_rem_def int_shl_def int_shr_def)

lemma binary_result: "binaryExprEval x y op = Some v \<Longrightarrow> result_ok x y op v"
proof (cases x)
  case (VBool a)
  assume "binaryExprEval x y op = Some v"
  then show ?thesis using VBool by (cases y; cases op) (auto simp: result_ok_def bool_op_def comparisons_def)
next
  case (VStr a)
  assume "binaryExprEval x y op = Some v"
  then show ?thesis using VStr by (cases y; cases op) (auto simp: result_ok_def string_op_def comparisons_def)
next
  case (VInt a)
  assume e: "binaryExprEval x y op = Some v"
  have "result_ok x y op v" if "int_op op a c = Some v" "y = VInt c \<or> (\<exists>b. y = VByte b)" for c
    using int_op_result [OF that(1)] that(2) VInt by (auto simp: result_ok_def split: val.splits)
  moreover have "result_ok x y op v" if "int_float_op op (to_float a) c = v" "y = VFloat c" for c
    using float_op_result(1) [of op "to_float a" c] that VInt by (auto simp: result_ok_def split: val.splits)
  ultimately show ?thesis using e VInt by (cases y) (auto simp: result_ok_def)
next
  case (VFloat a)
  assume e: "binaryExprEval x y op = Some v"
  have "result_ok x y op v" if "float_op op t a c = v" "numeric y" for t c
    using float_op_result(2) [of op t a c] that VFloat by (auto simp: result_ok_def split: val.splits)
  then show ?thesis using e VFloat by (cases y) (auto simp: result_ok_def)
qed (auto simp: result_ok_def)

text \<open>
  Property C40. The binary operators of the evaluator: comparisons and logical operators give a boolean or nil, arithmetic
  on two integers an integer or nil, arithmetic with a float a float or nil, and addition of strings a string. The
  evaluator panics exactly for an integer remainder by zero and for a shift by a negative number; division by zero is nil.
\<close>

theorem binary_operators_typed:
  "(\<forall>v. binaryExprEval x y op = Some v \<longrightarrow> result_ok x y op v) \<and>
   (binaryExprEval x y op = None \<longleftrightarrow>
      (\<exists>a. x = VInt a) \<and> (op = REM \<and> (y = VInt 0 \<or> y = VByte 0) \<or> (op = SHL \<or> op = SHR) \<and> (\<exists>b. y = VInt b \<and> sint b < 0)))"
proof (intro conjI allI impI)
  show "result_ok x y op v" if "binaryExprEval x y op = Some v" for v by (rule binary_result [OF that])
  show "binaryExprEval x y op = None \<longleftrightarrow>
      (\<exists>a. x = VInt a) \<and> (op = REM \<and> (y = VInt 0 \<or> y = VByte 0) \<or> (op = SHL \<or> op = SHR) \<and> (\<exists>b. y = VInt b \<and> sint b < 0))"
    by (cases x; cases y) (auto simp: int_op_panics)
qed

theorem binary_operators_typed_witness:
  "binaryExprEval (VInt 7) (VInt 0) REM = None \<and> binaryExprEval (VInt 7) (VInt 0) QUO = Some VNil \<and> result_ok (VInt 7) (VInt 3) REM (VInt 1)"
proof -
  have "binaryExprEval (VInt 7) (VInt 3) REM = Some (VInt 1)" "binaryExprEval (VInt 7) (VInt 0) QUO = Some VNil" by code_simp+
  with binary_operators_typed [of "VInt 7" "VInt 3" REM] binary_operators_typed [of "VInt 7" "VInt 0" REM] show ?thesis by simp
qed

section \<open>The walk through a graph\<close>

text \<open>Functions that leave the current node and the script alone.\<close>

definition keeps_place :: "'w ScriptHolder \<Rightarrow> 'w ScriptHolder \<Rightarrow> bool" where
  "keeps_place h h' \<longleftrightarrow> currScriptNodeId h' = currScriptNodeId h \<and> script h' = script h"

definition quiet :: "'w funcs \<Rightarrow> bool" where
  "quiet F \<longleftrightarrow> (\<forall>name f h args v h'. F name = Some f \<longrightarrow> f h args = Some (v, h') \<longrightarrow> keeps_place h h')"

lemma keeps_place_trans: "keeps_place h h' \<Longrightarrow> keeps_place h' h'' \<Longrightarrow> keeps_place h h''"
  by (simp add: keeps_place_def)

lemma keeps_place_refl [simp]: "keeps_place h h"
  by (simp add: keeps_place_def)

lemma call_keeps: "quiet F \<Longrightarrow> functionCall F name vs h = Some (v, h') \<Longrightarrow> keeps_place h h'"
  by (auto simp: functionCall_def GetScriptFunc_def quiet_def split: option.splits)

lemma eval_keeps:
  "expressionEval pf F e h = Some (v, h') \<Longrightarrow> quiet F \<Longrightarrow> keeps_place h h'"
  "eval_args pf F es h = Some (vs, h') \<Longrightarrow> quiet F \<Longrightarrow> keeps_place h h'"
proof (induction pf F e h and pf F es h arbitrary: v h' and vs h' rule: expressionEval_eval_args.induct)
  case (5 pf F f args h)
  show ?case
  proof (cases f)
    case (Ident name)
    obtain vs k where e: "eval_args pf F args h = Some (vs, k)" "functionCall F name vs k = Some (v, h')"
      using "5.prems"(1) Ident by (auto split: option.splits)
    have "keeps_place h k" by (rule "5.IH" [OF Ident e(1) "5.prems"(2)])
    then show ?thesis by (rule keeps_place_trans [OF _ call_keeps [OF "5.prems"(2) e(2)]])
  qed (use "5.prems" in auto)
next
  case (7 pf F x op y h)
  obtain vx k where x: "expressionEval pf F x h = Some (vx, k)" using "7.prems"(1) by (auto split: option.splits)
  have k: "keeps_place h k" by (rule "7.IH"(1) [OF x "7.prems"(2)])
  have y: "keeps_place k m" if "expressionEval pf F y k = Some (vy, m)" "op = LAND \<or> op = LOR \<longrightarrow> vx = VBool (op = LAND)" for vy m
    using "7.IH"(2,3) that x "7.prems"(2) by blast
  consider "h' = k" | vy where "expressionEval pf F y k = Some (vy, h')" "op = LAND \<or> op = LOR \<longrightarrow> vx = VBool (op = LAND)"
    using "7.prems"(1) x by (cases vx) (auto split: option.splits if_splits)
  then show ?case using k y keeps_place_trans by cases blast+
next
  case (10 pf F e es h)
  obtain v k us where e: "expressionEval pf F e h = Some (v, k)" "eval_args pf F es k = Some (us, h')"
    using "10.prems"(1) by (auto split: option.splits)
  show ?case by (rule keeps_place_trans [OF "10.IH"(1) [OF e(1) "10.prems"(2)] "10.IH"(2) [OF e(1) refl e(2) "10.prems"(2)]])
qed (auto split: option.splits if_splits intro: keeps_place_trans)

lemma take_edge_result:
  "take_edge pf F es new h = Some (n, h') \<Longrightarrow> quiet F \<Longrightarrow> keeps_place h h' \<and> (n = new \<or> n \<in> Target ` set es)"
proof (induction es arbitrary: h)
  case (Cons e es)
  show ?case
  proof (cases "e_Stmt e")
    case (Some x)
    obtain v k where v: "expressionEval pf F x h = Some (v, k)" using Cons.prems(1) Some by (auto split: option.splits)
    have k: "keeps_place h k" by (rule eval_keeps(1) [OF v Cons.prems(2)])
    show ?thesis
    proof (cases "v = VBool True")
      case False
      then have "take_edge pf F es new k = Some (n, h')" using Cons.prems(1) Some v by simp
      from Cons.IH [OF this Cons.prems(2)] show ?thesis using keeps_place_trans [OF k] by auto
    qed (use Cons.prems(1) Some v k in auto)
  qed (use Cons.prems(1) in auto)
qed simp

text \<open>The nodes a walk can be at: the entry, and the targets of the edges out of nodes already reached.\<close>

inductive walks :: "ScriptData \<Rightarrow> string \<Rightarrow> string \<Rightarrow> bool" for sd i where
  here: "walks sd i i"
| along: "walks sd i j \<Longrightarrow> e \<in> set (Edges sd) \<Longrightarrow> Source e = j \<Longrightarrow> getNodeById (Target e) sd \<noteq> None \<Longrightarrow> walks sd i (Target e)"

lemma enter_node_result:
  assumes "enter_node pf F new h = Some h'" "quiet F" "script h = Some sd"
  shows "script h' = Some sd" "currScriptNodeId h' = currScriptNodeId h \<or> currScriptNodeId h' = new \<and> getNodeById new sd \<noteq> None"
proof -
  have "script h' = Some sd \<and> (currScriptNodeId h' = currScriptNodeId h \<or> currScriptNodeId h' = new \<and> getNodeById new sd \<noteq> None)"
    using assms
    by (auto simp: enter_node_def Let_def keeps_place_def split: if_splits option.splits dest!: eval_keeps(1))
  then show "script h' = Some sd" "currScriptNodeId h' = currScriptNodeId h \<or> currScriptNodeId h' = new \<and> getNodeById new sd \<noteq> None" by auto
qed

text \<open>One call of \<open>Update\<close> stays or follows one edge of the current node.\<close>

lemma update_step:
  assumes u: "Update pf F h = Some h'" and q: "quiet F" and s: "script h = Some sd" and c: "currScriptNodeId h \<noteq> []"
  shows "script h' = Some sd"
    and "currScriptNodeId h' = currScriptNodeId h \<or>
         (\<exists>e\<in>set (Edges sd). Source e = currScriptNodeId h \<and> currScriptNodeId h' = Target e \<and> getNodeById (Target e) sd \<noteq> None)"
proof -
  have "script h' = Some sd \<and> (currScriptNodeId h' = currScriptNodeId h \<or>
         (\<exists>e\<in>set (Edges sd). Source e = currScriptNodeId h \<and> currScriptNodeId h' = Target e \<and> getNodeById (Target e) sd \<noteq> None))"
  proof (cases "h' = h")
    case False
    then obtain n k where t: "take_edge pf F (getEdgesFromNode (currScriptNodeId h) sd) (currScriptNodeId h) h = Some (n, k)" "enter_node pf F n k = Some h'"
      using u s c by (auto simp: Update_def split: option.splits if_splits)
    have k: "keeps_place h k" "n = currScriptNodeId h \<or> n \<in> Target ` set (getEdgesFromNode (currScriptNodeId h) sd)"
      using take_edge_result [OF t(1) q] by auto
    then have sk: "script k = Some sd" "currScriptNodeId k = currScriptNodeId h" using s by (simp_all add: keeps_place_def)
    from enter_node_result [OF t(2) q sk(1)] k(2) sk(2) show ?thesis by (auto simp: getEdgesFromNode_def)
  qed (simp add: s)
  then show "script h' = Some sd" and "currScriptNodeId h' = currScriptNodeId h \<or>
         (\<exists>e\<in>set (Edges sd). Source e = currScriptNodeId h \<and> currScriptNodeId h' = Target e \<and> getNodeById (Target e) sd \<noteq> None)" by auto
qed

fun updates :: "nat \<Rightarrow> (string \<Rightarrow> float64 option) \<Rightarrow> 'w funcs \<Rightarrow> 'w ScriptHolder \<Rightarrow> 'w ScriptHolder option" where
  "updates 0 pf F h = Some h"
| "updates (Suc n) pf F h = (case updates n pf F h of None \<Rightarrow> None | Some h \<Rightarrow> Update pf F h)"

lemma find_id: "find P xs = Some x \<Longrightarrow> P x \<and> x \<in> set xs"
  by (auto simp: find_Some_iff)

lemma walks_updates:
  assumes "updates n pf F h = Some h'" "quiet F" "script h = Some sd" "currScriptNodeId h = i" "i \<noteq> []"
    "\<forall>nd\<in>set (Nodes sd). n_Id nd \<noteq> []"
  shows "script h' = Some sd \<and> currScriptNodeId h' \<noteq> [] \<and> walks sd i (currScriptNodeId h')"
  using assms(1)
proof (induction n arbitrary: h')
  case 0
  then show ?case using assms by (auto intro: walks.here)
next
  case (Suc n)
  obtain k where k: "updates n pf F h = Some k" "Update pf F k = Some h'" using Suc.prems by (auto split: option.splits)
  note IH = Suc.IH [OF k(1)]
  have ne: "j \<noteq> []" if "getNodeById j sd \<noteq> None" for j using that assms(6) by (auto simp: getNodeById_def dest: find_id)
  from update_step [OF k(2) assms(2)] IH
  consider "script h' = Some sd" "currScriptNodeId h' = currScriptNodeId k"
    | e where "script h' = Some sd" "e \<in> set (Edges sd)" "Source e = currScriptNodeId k" "currScriptNodeId h' = Target e" "getNodeById (Target e) sd \<noteq> None"
    by blast
  then show ?case
  proof cases
    case (2 e)
    then show ?thesis using walks.along [OF _ 2(2,3,5)] IH ne [OF 2(5)] by auto
  qed (use IH in simp)
qed

lemma exit_absorbs:
  assumes "script h = Some sd" "getNodeById (currScriptNodeId h) sd = Some nd" "n_Content nd = ''Exit''" "n_Id nd \<noteq> []"
  shows "Update pf F h = Some h"
proof -
  have "currScriptNodeId h \<noteq> []" using assms(2,4) by (auto simp: getNodeById_def dest: find_id)
  then show ?thesis using assms by (simp add: Update_def)
qed

text \<open>The edge an \<open>Update\<close> takes is the first whose condition is absent or true, when the conditions have no effect on the holder.\<close>

definition open_edge :: "(string \<Rightarrow> float64 option) \<Rightarrow> 'w funcs \<Rightarrow> 'w ScriptHolder \<Rightarrow> Edge \<Rightarrow> bool" where
  "open_edge pf F h e \<longleftrightarrow> (case e_Stmt e of None \<Rightarrow> True | Some x \<Rightarrow> map_option fst (expressionEval pf F x h) = Some (VBool True))"

lemma take_edge_first_open:
  assumes "\<forall>e\<in>set es. \<forall>x. e_Stmt e = Some x \<longrightarrow> (\<exists>v. expressionEval pf F x h = Some (v, h))"
  shows "take_edge pf F es new h = Some (case find (open_edge pf F h) es of None \<Rightarrow> new | Some e \<Rightarrow> Target e, h)"
  using assms
proof (induction es)
  case (Cons e es)
  then have IH: "take_edge pf F es new h = Some (case find (open_edge pf F h) es of None \<Rightarrow> new | Some e \<Rightarrow> Target e, h)" by simp
  show ?case
  proof (cases "e_Stmt e")
    case (Some x)
    obtain v where v: "expressionEval pf F x h = Some (v, h)" using Cons.prems Some by auto
    show ?thesis by (simp add: Some v open_edge_def IH [unfolded open_edge_def])
  qed (simp add: open_edge_def)
qed simp

lemma bind_starts_at_entry:
  assumes "BindScript read parse file (S, h) = (None, S', h0)"
  shows "\<exists>sd en. S' file = Some sd \<and> script h0 = Some sd \<and> GetEntry sd = Some en \<and> currScriptNodeId h0 = n_Id en"
  using assms by (auto simp: BindScript_def LoadScriptFile_def ResetScript_def Let_def split: if_splits option.splits)

lemma entry_is_node: "GetEntry sd = Some en \<Longrightarrow> en \<in> set (Nodes sd) \<and> getNodeById (n_Id en) sd \<noteq> None"
  by (auto simp: GetEntry_def getNodeById_def find_None_iff dest: find_id)

lemma walks_node: "walks sd i j \<Longrightarrow> getNodeById i sd \<noteq> None \<Longrightarrow> getNodeById j sd \<noteq> None"
  by (induction rule: walks.induct) auto

text \<open>
  Property C39. A holder bound to a script, whose functions leave the place in the graph alone and whose nodes have
  identifiers, walks along the edges: after any number of updates the current node is a node of the script that is reached
  from the entry by following edges, and once it is an exit node no update changes anything.
\<close>

theorem script_walks_edges:
  assumes "BindScript read parse file (S, h) = (None, S', h0)" "quiet F" "updates n pf F h0 = Some h'"
    "\<forall>sd. S' file = Some sd \<longrightarrow> (\<forall>nd\<in>set (Nodes sd). n_Id nd \<noteq> [])"
  shows "\<exists>sd en nd. S' file = Some sd \<and> script h' = Some sd \<and> GetEntry sd = Some en \<and>
           getNodeById (GetCurrentNodeId h') sd = Some nd \<and> walks sd (n_Id en) (GetCurrentNodeId h') \<and>
           (n_Content nd = ''Exit'' \<longrightarrow> Update pf F h' = Some h')"
proof -
  obtain sd en where b: "S' file = Some sd" "script h0 = Some sd" "GetEntry sd = Some en" "currScriptNodeId h0 = n_Id en"
    using bind_starts_at_entry [OF assms(1)] by blast
  have ne: "\<forall>nd\<in>set (Nodes sd). n_Id nd \<noteq> []" using assms(4) b(1) by simp
  have en: "n_Id en \<noteq> []" using ne entry_is_node [OF b(3)] by simp
  have w: "script h' = Some sd" "walks sd (n_Id en) (currScriptNodeId h')"
    using walks_updates [OF assms(3,2) b(2,4) en ne] by auto
  then obtain nd where nd: "getNodeById (currScriptNodeId h') sd = Some nd" using walks_node entry_is_node [OF b(3)] by fastforce
  then have "n_Id nd \<noteq> []" using ne by (auto simp: getNodeById_def dest: find_id)
  then have "n_Content nd = ''Exit'' \<longrightarrow> Update pf F h' = Some h'" using exit_absorbs [OF w(1) nd] by blast
  then show ?thesis using b(1,3) w nd by (auto simp: GetCurrentNodeId_def)
qed

text \<open>Entry, a move guarded by a function, exit.\<close>

definition patrol :: ScriptData where
  "patrol = \<lparr>Nodes = [\<lparr>n_Id = ''n0'', n_Content = ''Exit'', n_Stmt = None, n_Edges = []\<rparr>, \<lparr>n_Id = ''n1'', n_Content = ''Entry'', n_Stmt = None, n_Edges = []\<rparr>,
                     \<lparr>n_Id = ''n2'', n_Content = ''Move()'', n_Stmt = None, n_Edges = []\<rparr>],
             Edges = [\<lparr>e_Id = ''e0'', e_Content = ''Ready()'', e_Stmt = None, Target = ''n2'', Source = ''n1''\<rparr>,
                      \<lparr>e_Id = ''e1'', e_Content = [], e_Stmt = None, Target = ''n0'', Source = ''n2''\<rparr>]\<rparr>"

definition call_parser :: "string \<Rightarrow> expr option" where
  "call_parser s =
     (if s = ''Ready()'' then Some (CallExpr (Ident ''Ready'') [])
      else if s = ''Move()'' then Some (CallExpr (Ident ''Move'') [])
      else if s = ''Entry'' \<or> s = ''Exit'' then Some (Ident s) else None)"

definition count_funcs :: "nat funcs" where
  "count_funcs = [''Ready'' \<mapsto> \<lambda>h args. Some (VBool True, h), ''Move'' \<mapsto> \<lambda>h args. Some (VNil, SetContext (GetContext h + 1) h)]"

definition bound :: "script_error option \<times> scripts \<times> nat ScriptHolder" where
  "bound = BindScript (\<lambda>f. if f = ''p.json'' then Some patrol else None) call_parser ''p.json''
     (Map.empty, \<lparr>script = None, currScriptNodeId = [], holder_context = 0\<rparr>)"

lemma count_funcs_quiet: "quiet count_funcs"
  by (auto simp: quiet_def count_funcs_def keeps_place_def SetContext_def split: if_splits)

lemma bound_runs:
  "map_option (\<lambda>h. (currScriptNodeId h, holder_context h)) (updates 1 (\<lambda>_. None) count_funcs (snd (snd bound))) = Some (''n2'', 1)"
  "map_option (\<lambda>h. (currScriptNodeId h, holder_context h)) (updates 3 (\<lambda>_. None) count_funcs (snd (snd bound))) = Some (''n0'', 1)"
  "fst bound = None" "case fst (snd bound) ''p.json'' of None \<Rightarrow> False | Some sd \<Rightarrow> list_all (\<lambda>nd. n_Id nd \<noteq> []) (Nodes sd)"
  by code_simp+

theorem script_walks_edges_witness:
  "\<exists>h' sd. updates 3 (\<lambda>_. None) count_funcs (snd (snd bound)) = Some h' \<and> fst (snd bound) ''p.json'' = Some sd \<and>
     walks sd ''n1'' ''n0'' \<and> Update (\<lambda>_. None) count_funcs h' = Some h'"
proof -
  obtain h' where h': "updates 3 (\<lambda>_. None) count_funcs (snd (snd bound)) = Some h'" "currScriptNodeId h' = ''n0''"
    using bound_runs(2) by auto
  have b: "BindScript (\<lambda>f. if f = ''p.json'' then Some patrol else None) call_parser ''p.json''
      (Map.empty, \<lparr>script = None, currScriptNodeId = [], holder_context = 0\<rparr>) = (None, fst (snd bound), snd (snd bound))"
    using bound_runs(3) by (metis bound_def prod.collapse)
  have ne: "\<forall>sd. fst (snd bound) ''p.json'' = Some sd \<longrightarrow> (\<forall>nd\<in>set (Nodes sd). n_Id nd \<noteq> [])"
    using bound_runs(4) by (auto simp: list_all_iff)
  obtain sd en nd where s: "fst (snd bound) ''p.json'' = Some sd" "script h' = Some sd" "GetEntry sd = Some en" "getNodeById ''n0'' sd = Some nd"
    "walks sd (n_Id en) ''n0''" "n_Content nd = ''Exit'' \<longrightarrow> Update (\<lambda>_. None) count_funcs h' = Some h'"
    using script_walks_edges [OF b count_funcs_quiet h'(1) ne] h'(2) by (auto simp: GetCurrentNodeId_def)
  have "map_option n_Id (GetEntry sd) = Some ''n1''" "map_option n_Content (getNodeById ''n0'' sd) = Some ''Exit''"
    using s(1) by (auto simp: bound_def BindScript_def LoadScriptFile_def ResetScript_def GetEntry_def getNodeById_def patrol_def)
  then show ?thesis using h'(1) s by auto
qed

definition reset_func :: "'w ScriptFunc" where
  "reset_func h args = map_option (\<lambda>h. (VBool False, h)) (ResetScript h)"

text \<open>
  A function called in a condition that resets the script: when no edge opens, \<^verbatim>\<open>Update\<close> compares the node it
  started from with the node the reset chose, moves back to the former and runs its action once more; the reset is lost.
\<close>

theorem reset_in_condition_undone:
  assumes "F ''Restart'' = Some reset_func" "script h = Some sd" "GetEntry sd = Some en" "currScriptNodeId h \<noteq> []"
    "n_Id en \<noteq> currScriptNodeId h" "getNodeById (currScriptNodeId h) sd = Some nd" "n_Content nd \<noteq> ''Exit''"
    "getEdgesFromNode (currScriptNodeId h) sd = [e]" "e_Stmt e = Some (CallExpr (Ident ''Restart'') [])"
  shows "Update pf F h = (case n_Stmt nd of None \<Rightarrow> Some h | Some x \<Rightarrow> map_option snd (expressionEval pf F x h))"
proof -
  have t: "take_edge pf F [e] (currScriptNodeId h) h = Some (currScriptNodeId h, h\<lparr>currScriptNodeId := n_Id en\<rparr>)"
    using assms by (simp add: functionCall_def GetScriptFunc_def reset_func_def ResetScript_def)
  have "enter_node pf F (currScriptNodeId h) (h\<lparr>currScriptNodeId := n_Id en\<rparr>) =
      (case n_Stmt nd of None \<Rightarrow> Some h | Some x \<Rightarrow> map_option snd (expressionEval pf F x h))"
    using assms by (simp add: enter_node_def Let_def split: option.splits)
  then show ?thesis using t assms by (simp add: Update_def)
qed

definition quoted :: "char \<Rightarrow> string \<Rightarrow> string" where
  "quoted q s = q # s @ [q]"

text \<open>
  Literals and operators against the examples of the manual: a string literal keeps its quotes, so that
  concatenation keeps the inner ones; a character literal is always the byte of its quote; a minus sign is nil; \<^verbatim>\<open>byte(255)\<close>
  is false unless a function of that name is registered; and \<^verbatim>\<open><=\<close> on two floats is nil.
\<close>

theorem literals_as_written:
  "expressionEval pf F (BinaryExpr (BasicLit K_STRING (quoted CHR 0x22 a)) ADD (BasicLit K_STRING (quoted CHR 0x22 b))) h =
     Some (VStr (CHR 0x22 # a @ CHR 0x22 # CHR 0x22 # b @ [CHR 0x22]), h) \<and>
   expressionEval pf F (BasicLit K_CHAR (quoted CHR 0x27 a)) h = Some (VByte 39, h) \<and>
   expressionEval pf F (UnaryExpr SUB x) h = Some (VNil, h) \<and>
   expressionEval pf F (CallExpr (Ident ''byte'') [BasicLit K_INT ''255'']) h =
     (case F ''byte'' of None \<Rightarrow> Some (VBool False, h) | Some f \<Rightarrow> f h [VInt 255]) \<and>
   binaryExprEval (VFloat r) (VFloat t) LEQ = Some VNil \<and> binaryExprEval (VInt i) (VFloat t) LEQ = Some (VBool (fle (to_float i) t))"
proof (intro conjI)
  have l: "literal pf K_INT ''255'' = VInt 255" by (simp add: literal_def Atoi_def is_digit_def)
  show "expressionEval pf F (CallExpr (Ident ''byte'') [BasicLit K_INT ''255'']) h =
      (case F ''byte'' of None \<Rightarrow> Some (VBool False, h) | Some f \<Rightarrow> f h [VInt 255])"
    by (simp add: l functionCall_def GetScriptFunc_def)
  have "(of_char CHR 0x27 :: byte) = 39" by code_simp
  then show "expressionEval pf F (BasicLit K_CHAR (quoted CHR 0x27 a)) h = Some (VByte 39, h)" by (simp add: literal_def quoted_def)
qed (simp_all add: literal_def quoted_def string_op_def float_op_def int_float_op_def)

end
