(* ===== verification/Spec2Isabelle.thy ===== *)
theory Spec2Isabelle
  imports Prelude Packet Payload Sequence_Window Key_Rotation Outbound_Queue Store_Compat Transaction Server Services Aoi Protocol Session Correlator Instance_Pool Ownership Nav_Map Actor_Fairness Runner Event_Bus Ddos Router Health Lock_Manager Script
begin

text \<open>
  A verification library of the Go game-server engine zEngine.

  \<^bold>\<open>The program.\<close> zEngine is a set of packages under \<^verbatim>\<open>src/\<close> from which game servers are put
  together. \<^verbatim>\<open>zNet\<close> carries packets over TCP, UDP and WebSocket; \<^verbatim>\<open>zConsistency\<close> makes
  messages between servers reliable (outbox, inbox, operation log, a two-phase coordinator);
  \<^verbatim>\<open>zServer\<close> and \<^verbatim>\<open>zService\<close> start and stop a process and its services in order;
  \<^verbatim>\<open>zAoi\<close> tells who sees whom on a map and \<^verbatim>\<open>zNavMap\<close> finds roads on it; \<^verbatim>\<open>zActor\<close>, \<^verbatim>\<open>zEvent\<close> and
  \<^verbatim>\<open>zInstance\<close> run the parts of a game, \<^verbatim>\<open>zScript\<close> its behaviour graphs; \<^verbatim>\<open>zDistributed\<close> decides which
  process owns what, by etcd; \<^verbatim>\<open>zHealth\<close> reports on them. The others are infrastructure around these.
  A connection of \<^verbatim>\<open>zNet\<close> works as follows: a session builds a packet
  (compression, encryption, version, size, header), hands its bytes to a bounded queue or a
  write gate, and the peer cuts the byte stream into packets, checks the header, the key and the
  negotiated version, decodes the payload and calls the dispatcher.

  \<^bold>\<open>Theories, in the order of the code.\<close>

  \<^item> \<open>Prelude\<close>: Go's integers as words, byte slices, \<^verbatim>\<open>encoding/binary\<close>, \<^verbatim>\<open>time\<close>,
    \<^verbatim>\<open>strings.TrimSpace\<close>, lemmas on filtered and updated lists, and the contract of
    \<^verbatim>\<open>zMap.TypedMap\<close> (package zUtil, outside the repository): a record of operations that the definitions take as an argument, its laws \<^verbatim>\<open>tm_laws\<close>, and the locale
    \<open>typed_map\<close>, interpreted on association lists.

  \<^item> \<open>Packet\<close> (\<^verbatim>\<open>zNet/packet.go\<close>, \<^verbatim>\<open>packet_limits.go\<close>, \<^verbatim>\<open>common.go\<close>): header and frame codec.
    \<^verbatim>\<open>DecodeFrame\<close> inverts \<^verbatim>\<open>Marshal\<close> exactly, the size it accepts is bounded.

  \<^item> \<open>Payload\<close> (\<^verbatim>\<open>zNet/packet_payload.go\<close>): decryption and decompression, both parameters, never
    exceed the decoded limit and leave the packet alone on an error.

  \<^item> \<open>Sequence_Window\<close>, \<open>Key_Rotation\<close> (\<^verbatim>\<open>zNet/key_rotation.go\<close>): the replay check on 64-bit words
    and the key history. What the window refuses for ever, what it accepts for ever (a defect),
    and how many numbers it keeps; which keys are found after any number of rotations.

  \<^item> \<open>Outbound_Queue\<close> (\<^verbatim>\<open>zNet/delivery.go\<close>): the bounded queue with three delivery classes as a step
    relation of producers, writer and closer; a blocking producer is an operation that answers
    \<open>Waiting\<close> and is tried again. Order, bounds, no lost wake-up, gauges, close.

  \<^item> \<open>Consistency_Types\<close>, \<open>Outbox\<close>, \<open>Inbox\<close>, \<open>Store_Compat\<close> (\<^verbatim>\<open>zConsistency/store_v2.go\<close>,
    \<^verbatim>\<open>memory_store.go\<close>, \<^verbatim>\<open>memory_store_v2.go\<close>, \<^verbatim>\<open>store_v2_compat.go\<close>): retry schedule, life cycle of a
    message, no silent loss, ownership of a request, the adapters.

  \<^item> \<open>Transaction\<close> (\<^verbatim>\<open>zConsistency/transaction.go\<close>): every critical section of the coordinator, and
    the phases as threads that interleave at the calls to participants; atomicity over all
    interleavings.

  \<^item> \<open>Server\<close> (\<^verbatim>\<open>zServer/state.go\<close>, \<^verbatim>\<open>lifecycle.go\<close>, \<^verbatim>\<open>cleanup.go\<close>, \<^verbatim>\<open>server.go\<close>): the state machine
    refines the order of the phases; the stop transaction calls every hook once, in order.

  \<^item> \<open>Services\<close> (\<^verbatim>\<open>zService\<close>, \<^verbatim>\<open>zObject/ObjectManager.go\<close>): the dependency sort (depth-first search
    with a fuel of one more than the number of services, shown to be enough), start with
    rollback, shutdown in reverse order.

  \<^item> \<open>Float64\<close>, \<open>Aoi\<close> (\<^verbatim>\<open>zAoi/grid_aoi.go\<close>): IEEE 754 arithmetic and rounding, the grid of cells and its
    enter, leave and move events; queries and events agree with a plain table of entities.

  \<^item> \<open>Protocol\<close> (\<^verbatim>\<open>zNet/protocol_version.go\<close>, \<^verbatim>\<open>protocol_handshake.go\<close>): both ends agree, and what they
    agreed on is frozen.

  \<^item> \<open>Session\<close> (\<^verbatim>\<open>zNet/TcpServerSession.go\<close>, \<^verbatim>\<open>TcpClientSession.go\<close>, \<^verbatim>\<open>config.go\<close>): composes packet,
    payload, key and protocol theories into what one connection delivers. The read loops recurse
    on the length of the byte stream.

  \<^item> \<open>Correlator\<close> (\<^verbatim>\<open>zNet/request_correlator.go\<close>): requests and their answers; every channel gets
    one result, unless its entry was withdrawn by a call that failed, whatever the order of answers, timeouts and close.

  \<^item> \<open>Router\<close> (\<^verbatim>\<open>zNet/message_router.go\<close>) and \<open>Ddos\<close> (\<^verbatim>\<open>zNet/ddosProtection.go\<close>): registration, seal and dispatch;
    the limiter with pruned records admits what one with the whole history admits, bans hold, and
    the traffic counter is exact.

  \<^item> \<open>Instance_Pool\<close> (\<^verbatim>\<open>zInstance\<close>): the two indexes of the pool agree over all interleavings of
    its locked sections; a reserved instance stays; one pass of an acquisition is sound.

  \<^item> \<open>Ownership\<close> (\<^verbatim>\<open>zDistributed/ownership.go\<close>, \<^verbatim>\<open>etcd_ownership.go\<close>): etcd is a parameter with laws, a failed
    call took effect or not; older handles are fenced, watches are ordered.

  \<^item> \<open>Lock\<close> (\<^verbatim>\<open>zDistributed/lock.go\<close>, \<^verbatim>\<open>etcd_lock.go\<close>) and \<open>Lock_Manager\<close> (\<^verbatim>\<open>lock_manager.go\<close>, \<^verbatim>\<open>watchdog.go\<close>):
    at most one valid handle, no missed loss, and where every lease ends up, with the stores inside \<^verbatim>\<open>finish\<close>
    as steps of their own; when the watchdog drops a lock, which may be one that is held (a defect).

  \<^item> \<open>Nav_Map\<close> (\<^verbatim>\<open>zNavMap\<close>): the map, the heap of the standard library and the search, which ends
    unless the 64-bit loops over the neighbours of the start never do (a defect), and finds a road when there is one.

  \<^item> \<open>Actor\<close>, \<open>Actor_Fairness\<close> and \<open>Runner\<close> (\<^verbatim>\<open>zActor/actor.go\<close>, \<^verbatim>\<open>runner.go\<close>): lanes, scheduler, life cycle
    and restarts; the accounts of messages, generations, stop; bounded waiting in the lanes over executions with polls and
    blocking receives; commands run exactly once.

  \<^item> \<open>Event_Bus\<close> (\<^verbatim>\<open>zEvent\<close>): subscriptions refine an ordered ledger; close is a barrier for publishers.

  \<^item> \<open>Health\<close> (\<^verbatim>\<open>zHealth\<close>): one unfinished run per probe under any interleaving; reports follow from
    the statuses.

  \<^item> \<open>Script\<close> (\<^verbatim>\<open>zScript\<close>): the evaluator of expressions, with the parser an argument, and the walk of a
    holder through its graph; types of the operators, their panics, the nodes a walk reaches.

  \<^bold>\<open>Conventions.\<close> Operations return the new state; an error is a value of the component's own
  datatype; the clock is an argument; where the language leaves a choice open (the order of a map
  range, the branch of a \<^verbatim>\<open>select\<close>, the schedule of goroutines) it is an argument or a step of a
  relation, and the theorems hold for every choice. Code outside the repository (zCrypto, snappy,
  zMap, application hooks, participants of a transaction) is a parameter with its laws as
  hypotheses, and every theorem that has hypotheses is applied to a concrete run.

  \<^bold>\<open>Not modelled.\<close> Logging, metrics, profiling and signals have no result the program depends on.
  The transports (accepting and dialling sockets, UDP, WebSocket, HTTP) and the SQL stores are calls
  to libraries around the parts modelled here: the packet codec, the sessions, the in-memory stores
  with the same interface. Configuration and the dependency-injection container work by reflection
  on types. The key exchange is a sequence of calls to cryptographic packages. Option setters,
  object pools and the report of \<^verbatim>\<open>zServer\<close> only store or display values.
\<close>

end
